(* ===== verification/Prelude.thy ===== *)
theory Prelude
  imports Main "HOL-Library.Word"
begin

text \<open>
  Shared vocabulary of the development: Rust's machine integers as words, Rust's
  \<^verbatim>\<open>Result\<close> as a datatype, checked and overflowing arithmetic, and
  little-endian byte strings with their round trips.

  Conventions used by every theory:
  \<^item> \<^verbatim>\<open>u8\<close>, \<^verbatim>\<open>u16\<close>, \<^verbatim>\<open>u32\<close>, \<^verbatim>\<open>u64\<close> are words of that width; the program
    only builds for 64-bit Windows, so \<^verbatim>\<open>usize\<close> is a 64-bit word too.  Lengths of
    Rust slices are natural numbers.
  \<^item> A plain Rust \<^verbatim>\<open>+\<close>, \<^verbatim>\<open>-\<close> or \<^verbatim>\<open>*\<close> is word arithmetic: it wraps, as in the
    release profile.  (A debug build panics where it would wrap.)
  \<^item> \<^verbatim>\<open>Result<T, E>\<close> is \<open>('e, 'a) result\<close>; \<^verbatim>\<open>Option<T>\<close> is \<open>'a option\<close>.
  \<^item> A function that may panic (an \<^verbatim>\<open>unwrap\<close> or \<^verbatim>\<open>expect\<close> of a failure, an index out
    of bounds) has a result of type \<open>'a panics\<close>, where \<open>None\<close> is the panic.
\<close>

unbundle bit_operations_syntax

section \<open>Types\<close>

type_synonym u8 = "8 word"
type_synonym u16 = "16 word"
type_synonym u32 = "32 word"
type_synonym u64 = "64 word"
type_synonym usize = "64 word"
type_synonym i32 = "32 word"

type_synonym 'a panics = "'a option"

datatype ('e, 'a) result = Err 'e | Ok 'a

fun is_ok :: "('e, 'a) result \<Rightarrow> bool" where
  "is_ok (Ok x) = True"
| "is_ok (Err e) = False"

fun ok :: "('e, 'a) result \<Rightarrow> 'a option" where
  "ok (Ok x) = Some x"
| "ok (Err e) = None"

fun ok_or :: "'e \<Rightarrow> 'a option \<Rightarrow> ('e, 'a) result" where
  "ok_or e None = Err e"
| "ok_or e (Some x) = Ok x"

fun map_err :: "('e \<Rightarrow> 'f) \<Rightarrow> ('e, 'a) result \<Rightarrow> ('f, 'a) result" where
  "map_err f (Ok x) = Ok x"
| "map_err f (Err e) = Err (f e)"

fun bind_result :: "('e, 'a) result \<Rightarrow> ('a \<Rightarrow> ('e, 'b) result) \<Rightarrow> ('e, 'b) result" where
  "bind_result (Ok x) f = f x"
| "bind_result (Err e) f = Err e"

text \<open>The question mark in a function that may also panic.\<close>

fun bind_fallible ::
  "('e, 'a) result panics \<Rightarrow> ('a \<Rightarrow> ('e, 'b) result panics) \<Rightarrow> ('e, 'b) result panics" where
  "bind_fallible None f = None"
| "bind_fallible (Some (Err e)) f = Some (Err e)"
| "bind_fallible (Some (Ok x)) f = f x"

lemma is_ok_iff: "is_ok r \<longleftrightarrow> (\<exists>x. r = Ok x)"
  by (cases r) auto

lemma ok_eq_Some [simp]: "ok r = Some x \<longleftrightarrow> r = Ok x"
  by (cases r) auto

lemma ok_eq_None [simp]: "ok r = None \<longleftrightarrow> (\<exists>e. r = Err e)"
  by (cases r) auto

lemma ok_or_eq_Ok [simp]: "ok_or e x = Ok y \<longleftrightarrow> x = Some y"
  by (cases x) auto

lemma ok_or_eq_Err [simp]: "ok_or e x = Err e' \<longleftrightarrow> x = None \<and> e' = e"
  by (cases x) auto

lemma map_err_eq_Ok [simp]: "map_err f r = Ok x \<longleftrightarrow> r = Ok x"
  by (cases r) auto

lemma map_err_eq_Err: "map_err f r = Err e \<longleftrightarrow> (\<exists>e'. r = Err e' \<and> e = f e')"
  by (cases r) auto

lemma bind_result_eq_Ok [simp]:
  "bind_result r f = Ok y \<longleftrightarrow> (\<exists>x. r = Ok x \<and> f x = Ok y)"
  by (cases r) auto

lemma bind_result_eq_Err:
  "bind_result r f = Err e \<longleftrightarrow> r = Err e \<or> (\<exists>x. r = Ok x \<and> f x = Err e)"
  by (cases r) auto

lemma bind_fallible_eq_Ok [simp]:
  "bind_fallible r f = Some (Ok y) \<longleftrightarrow> (\<exists>x. r = Some (Ok x) \<and> f x = Some (Ok y))"
  by (cases r rule: option.exhaust; (cases "the r")?) auto

section \<open>Collections of rewrite rules\<close>

named_theorems arith_defs "checked and overflowing arithmetic of the Rust integers"
named_theorems layout_defs "constants of the guest physical address map"
named_theorems le_simps "little-endian encodings"

section \<open>Checked and overflowing arithmetic\<close>

definition checked_add :: "'a::len word \<Rightarrow> 'a word \<Rightarrow> 'a word option" where
  [arith_defs]: "checked_add a b =
     (if unat a + unat b < 2 ^ LENGTH('a) then Some (a + b) else None)"

definition checked_sub :: "'a::len word \<Rightarrow> 'a word \<Rightarrow> 'a word option" where
  [arith_defs]: "checked_sub a b = (if b \<le> a then Some (a - b) else None)"

definition overflowing_add :: "'a::len word \<Rightarrow> 'a word \<Rightarrow> 'a word \<times> bool" where
  [arith_defs]: "overflowing_add a b = (a + b, 2 ^ LENGTH('a) \<le> unat a + unat b)"

definition overflowing_sub :: "'a::len word \<Rightarrow> 'a word \<Rightarrow> 'a word \<times> bool" where
  [arith_defs]: "overflowing_sub a b = (a - b, a < b)"

definition saturating_sub :: "'a::len word \<Rightarrow> 'a word \<Rightarrow> 'a word" where
  [arith_defs]: "saturating_sub a b = (if a < b then 0 else a - b)"

lemma unat_add_no_wrap:
  fixes a b :: "'a::len word"
  shows "unat a + unat b < 2 ^ LENGTH('a) \<Longrightarrow> unat (a + b) = unat a + unat b"
  by (simp add: unat_word_ariths)

lemma unat_sub_no_wrap:
  fixes a b :: "'a::len word"
  shows "b \<le> a \<Longrightarrow> unat (a - b) = unat a - unat b"
  by (simp add: unat_sub)

lemma unat_of_nat_small:
  "n < 2 ^ LENGTH('a) \<Longrightarrow> unat (of_nat n :: 'a::len word) = n"
  by (simp add: unat_of_nat)

lemma unat_minus_one_u64: "unat (- 1 :: u64) = 2 ^ 64 - 1"
  by (simp add: unsigned_minus_1_eq_mask mask_eq_exp_minus_1)

lemma unat_bounds:
  "unat (a :: u8) < 2 ^ 8" "unat (b :: u16) < 2 ^ 16" "unat (c :: u32) < 2 ^ 32" "unat (d :: u64) < 2 ^ 64"
proof -
  have "unat a < 2 ^ LENGTH(8)" "unat b < 2 ^ LENGTH(16)" "unat c < 2 ^ LENGTH(32)"
    "unat d < 2 ^ LENGTH(64)"
    by (rule unsigned_less)+
  then show "unat a < 2 ^ 8" "unat b < 2 ^ 16" "unat c < 2 ^ 32" "unat d < 2 ^ 64" by simp_all
qed

lemma unat_ucast_up:
  fixes w :: "'a::len word"
  assumes "LENGTH('a) \<le> LENGTH('b::len)"
  shows "unat (ucast w :: 'b word) = unat w"
proof -
  have "unat w < 2 ^ LENGTH('a)" by (rule unsigned_less)
  also have "\<dots> \<le> 2 ^ LENGTH('b)" using assms by (intro power_increasing) simp_all
  finally show ?thesis by (simp add: unsigned_ucast_eq take_bit_nat_eq_self_iff)
qed

lemmas unat_ucast_simps [simp] =
  unat_ucast_up [where 'a = 8 and 'b = 16, simplified]
  unat_ucast_up [where 'a = 8 and 'b = 32, simplified]
  unat_ucast_up [where 'a = 8 and 'b = 64, simplified]
  unat_ucast_up [where 'a = 16 and 'b = 32, simplified]
  unat_ucast_up [where 'a = 16 and 'b = 64, simplified]
  unat_ucast_up [where 'a = 32 and 'b = 64, simplified]

lemma ucast_back:
  fixes w :: "'a::len word"
  assumes "LENGTH('a) \<le> LENGTH('b::len)"
  shows "ucast (ucast w :: 'b word) = w"
  using assms by (intro bit_word_eqI) (auto simp: bit_unsigned_iff)

lemmas ucast_back_simps [simp] =
  ucast_back [where 'a = 8 and 'b = 16, simplified]
  ucast_back [where 'a = 8 and 'b = 32, simplified]
  ucast_back [where 'a = 8 and 'b = 64, simplified]
  ucast_back [where 'a = 16 and 'b = 32, simplified]
  ucast_back [where 'a = 16 and 'b = 64, simplified]
  ucast_back [where 'a = 32 and 'b = 64, simplified]

lemma checked_add_Some:
  fixes a b c :: "'a::len word"
  shows "checked_add a b = Some c \<longleftrightarrow>
    unat a + unat b < 2 ^ LENGTH('a) \<and> c = a + b \<and> unat c = unat a + unat b"
  by (auto simp: checked_add_def unat_add_no_wrap)

lemma checked_add_None:
  fixes a b :: "'a::len word"
  shows "checked_add a b = None \<longleftrightarrow> 2 ^ LENGTH('a) \<le> unat a + unat b"
  by (auto simp: checked_add_def)

lemma checked_sub_Some:
  "checked_sub a b = Some c \<longleftrightarrow> b \<le> a \<and> c = a - b"
  by (auto simp: checked_sub_def)

lemma power_of_two_word:
  fixes x :: "'a::len word"
  assumes "x \<noteq> 0" "x AND (x - 1) = 0"
  shows "\<exists>k < LENGTH('a). x = 2 ^ k"
proof -
  obtain k where k: "bit x k" using assms(1) by (auto simp: bit_eq_iff)
  define m where "m = (LEAST n. bit x n)"
  have m: "bit x m" "\<And>j. j < m \<Longrightarrow> \<not> bit x j"
    unfolding m_def using k by (auto intro: LeastI dest: not_less_Least)
  have ml: "m < LENGTH('a)" using m(1) by (rule bit_imp_le_length)
  define y where "y = unset_bit m x"
  have "y OR 2 ^ m = x"
    using m(1) ml by (auto intro!: bit_word_eqI simp: y_def bit_simps)
  moreover have "y + 2 ^ m = y OR 2 ^ m"
    by (rule disjunctive_add) (auto simp: y_def bit_simps)
  ultimately have x: "x = y + 2 ^ m" by simp
  have "x - 1 = y + mask m" by (simp add: x mask_eq_exp_minus_1)
  also have "\<dots> = y OR mask m"
    by (rule disjunctive_add) (use m(2) in \<open>auto simp: y_def bit_simps\<close>)
  finally have x1: "x - 1 = y OR mask m" .
  have "y = 0"
  proof (rule bit_word_eqI)
    fix j
    assume "j < LENGTH('a)"
    have "\<not> bit (x AND (x - 1)) j" using assms(2) by simp
    then show "bit y j = bit (0 :: 'a word) j"
      using x1 by (auto simp: bit_simps y_def)
  qed
  then show ?thesis using x ml by auto
qed

section \<open>Little-endian byte strings\<close>

primrec to_le :: "nat \<Rightarrow> 'a::len word \<Rightarrow> u8 list" where
  "to_le 0 w = []"
| "to_le (Suc n) w = ucast w # to_le n (drop_bit 8 w)"

primrec from_le :: "u8 list \<Rightarrow> 'a::len word" where
  "from_le [] = 0"
| "from_le (b # bs) = ucast b OR push_bit 8 (from_le bs)"

lemma length_to_le [simp, le_simps]: "length (to_le n w) = n"
  by (induction n arbitrary: w) auto

lemma to_le_numeral: "to_le (numeral k) w = ucast w # to_le (pred_numeral k) (drop_bit 8 w)"
  by (simp add: numeral_eq_Suc)

lemma to_le_nth: "i < n \<Longrightarrow> to_le n w ! i = ucast (drop_bit (8 * i) w)"
proof (induction n arbitrary: w i)
  case 0
  then show ?case by simp
next
  case (Suc n)
  then show ?case by (cases i) (simp_all add: ac_simps)
qed

lemma bit_from_le:
  "bit (from_le bs :: 'a::len word) n \<longleftrightarrow>
     n < LENGTH('a) \<and> n div 8 < length bs \<and> bit (bs ! (n div 8)) (n mod 8)"
proof (induction bs arbitrary: n)
  case Nil
  then show ?case by simp
next
  case (Cons b bs)
  show ?case
  proof (cases "n < 8")
    case True
    then show ?thesis
      by (auto simp: bit_or_iff bit_push_bit_iff bit_unsigned_iff)
  next
    case False
    have nb: "\<not> bit b n"
    proof -
      have "\<not> n < LENGTH(8)" using False by simp
      then show ?thesis using bit_imp_le_length [of b n] by blast
    qed
    from False have eqs: "n div 8 = Suc ((n - 8) div 8)" "n mod 8 = (n - 8) mod 8"
      by (auto simp: le_div_geq le_mod_geq not_less)
    have "n - 8 < LENGTH('a)" if "n < LENGTH('a)" using that by simp
    then show ?thesis
      using False nb eqs Cons [of "n - 8"]
      by (auto simp: bit_or_iff bit_push_bit_iff bit_unsigned_iff)
  qed
qed

lemma from_le_to_le:
  fixes w :: "'a::len word"
  shows "LENGTH('a) \<le> 8 * n \<Longrightarrow> from_le (to_le n w) = w"
proof (rule bit_word_eqI)
  fix m
  assume n: "LENGTH('a) \<le> 8 * n" and m: "m < LENGTH('a)"
  then have "m div 8 < n" by simp
  moreover have "m div 8 * 8 + m mod 8 = m" by simp
  then have "8 * (m div 8) + m mod 8 = m" by (simp add: mult.commute)
  ultimately show "bit (from_le (to_le n w) :: 'a word) m = bit w m"
    using m by (auto simp: bit_from_le to_le_nth bit_unsigned_iff bit_drop_bit_eq)
qed

lemma to_le_from_le:
  assumes "8 * length bs \<le> LENGTH('a)"
  shows "to_le (length bs) (from_le bs :: 'a::len word) = bs"
proof (rule nth_equalityI)
  show "length (to_le (length bs) (from_le bs :: 'a word)) = length bs" by simp
next
  fix i
  assume "i < length (to_le (length bs) (from_le bs :: 'a word))"
  then have i: "i < length bs" by simp
  show "to_le (length bs) (from_le bs :: 'a word) ! i = bs ! i"
  proof (rule bit_word_eqI)
    fix m
    assume "m < LENGTH(8)"
    then have m: "m < 8" by simp
    then have "8 * i + m < LENGTH('a)" using i assms by simp
    moreover have "(8 * i + m) div 8 = i" "(8 * i + m) mod 8 = m" using m by simp_all
    ultimately show "bit (to_le (length bs) (from_le bs :: 'a word) ! i) m = bit (bs ! i) m"
      using i m by (simp add: to_le_nth bit_unsigned_iff bit_drop_bit_eq bit_from_le)
  qed
qed

lemma from_le_inj:
  assumes "length bs = length cs" and "8 * length bs \<le> LENGTH('a)"
    and "(from_le bs :: 'a::len word) = from_le cs"
  shows "bs = cs"
  using assms to_le_from_le [of bs, where 'a = 'a] to_le_from_le [of cs, where 'a = 'a] by metis

lemmas le_bytes_roundtrip [le_simps] =
  from_le_to_le [where 'a = 16 and n = 2, simplified]
  from_le_to_le [where 'a = 32 and n = 4, simplified]
  from_le_to_le [where 'a = 64 and n = 8, simplified]

section \<open>Lists\<close>

lemma find_SomeD: "find P xs = Some x \<Longrightarrow> x \<in> set xs \<and> P x"
  by (auto simp: find_Some_iff)

lemma find_append: "find P (xs @ ys) = (case find P xs of None \<Rightarrow> find P ys | Some x \<Rightarrow> Some x)"
  by (induction xs) auto

lemma find_unique:
  assumes "x \<in> set xs" "P x" "\<And>y. y \<in> set xs \<Longrightarrow> P y \<Longrightarrow> y = x"
  shows "find P xs = Some x"
proof (cases "find P xs")
  case None
  with assms(1,2) show ?thesis by (auto simp: find_None_iff)
next
  case (Some y)
  then have "y = x" using assms(3) [of y] by (simp add: find_SomeD)
  with Some show ?thesis by simp
qed

end
