(* ===== verification/Layout.thy ===== *)
theory Layout
  imports Prelude
begin

text \<open>
  The guest physical address map of \<^verbatim>\<open>src/memory/layout.rs\<close>: the fixed addresses used
  while booting and the windows of the emulated devices.
\<close>

section \<open>Constants\<close>

definition LOW_RAM_START :: u64 where [layout_defs]: "LOW_RAM_START = 0x0"
definition EBDA_POINTER :: u64 where [layout_defs]: "EBDA_POINTER = 0x40e"
definition BOOT_GDT_START :: u64 where [layout_defs]: "BOOT_GDT_START = 0x500"
definition BOOT_IDT_START :: u64 where [layout_defs]: "BOOT_IDT_START = 0x520"
definition PVH_INFO_START :: u64 where [layout_defs]: "PVH_INFO_START = 0x6000"
definition MODLIST_START :: u64 where [layout_defs]: "MODLIST_START = 0x6040"
definition MEMMAP_START :: u64 where [layout_defs]: "MEMMAP_START = 0x7000"
definition ZERO_PAGE_START :: u64 where [layout_defs]: "ZERO_PAGE_START = 0x7000"
definition BOOT_STACK_START :: u64 where [layout_defs]: "BOOT_STACK_START = 0x8000"
definition BOOT_STACK_POINTER :: u64 where [layout_defs]: "BOOT_STACK_POINTER = 0x8ff0"
definition PML5_START :: u64 where [layout_defs]: "PML5_START = 0x9000"
definition PML4_START :: u64 where [layout_defs]: "PML4_START = 0xa000"
definition PDPTE_START :: u64 where [layout_defs]: "PDPTE_START = 0xb000"
definition PDE_START :: u64 where [layout_defs]: "PDE_START = 0xc000"
definition CMDLINE_START :: u64 where [layout_defs]: "CMDLINE_START = 0x20000"
definition CMDLINE_MAX_SIZE :: u64 where [layout_defs]: "CMDLINE_MAX_SIZE = 0x10000"
definition MPTABLE_START :: u64 where [layout_defs]: "MPTABLE_START = 0x9fc00"
definition EBDA_START :: u64 where [layout_defs]: "EBDA_START = 0xa0000"
definition RSDP_POINTER :: u64 where [layout_defs]: "RSDP_POINTER = 0xE0000"
definition SMBIOS_START :: u64 where [layout_defs]: "SMBIOS_START = 0xf0000"
definition HIGH_RAM_START :: u64 where [layout_defs]: "HIGH_RAM_START = 0x100000"
definition MEM_32BIT_DEVICES_START :: u64 where
  [layout_defs]: "MEM_32BIT_DEVICES_START = 0xc0000000"
definition MEM_32BIT_DEVICES_SIZE :: u64 where
  [layout_defs]: "MEM_32BIT_DEVICES_SIZE = push_bit 20 640"
definition PCI_MMCONFIG_START :: u64 where [layout_defs]: "PCI_MMCONFIG_START = 0xe8000000"
definition PCI_MMCONFIG_SIZE :: u64 where [layout_defs]: "PCI_MMCONFIG_SIZE = push_bit 20 256"
definition PCI_MMIO_CONFIG_SIZE_PER_SEGMENT :: u64 where
  [layout_defs]: "PCI_MMIO_CONFIG_SIZE_PER_SEGMENT = 4096 * 256"
definition IOAPIC_START :: u64 where [layout_defs]: "IOAPIC_START = 0xfec00000"
definition IOAPIC_SIZE :: u64 where [layout_defs]: "IOAPIC_SIZE = 0x1000"
definition APIC_START :: u64 where [layout_defs]: "APIC_START = 0xfee00000"
definition MEM_32BIT_RESERVED_START :: u64 where
  [layout_defs]: "MEM_32BIT_RESERVED_START = 0xfec00000"
definition MEM_32BIT_RESERVED_SIZE :: u64 where
  [layout_defs]: "MEM_32BIT_RESERVED_SIZE = 0x100000000 - MEM_32BIT_RESERVED_START"
definition VIRTIO_MMIO_START :: u64 where [layout_defs]: "VIRTIO_MMIO_START = 0xfeb00000"
definition VIRTIO_MMIO_SIZE_PER_DEVICE :: u64 where
  [layout_defs]: "VIRTIO_MMIO_SIZE_PER_DEVICE = 0x1000"
definition VIRTIO_MMIO_MAX_DEVICES :: u64 where [layout_defs]: "VIRTIO_MMIO_MAX_DEVICES = 8"
definition VIRTIO_MMIO_TOTAL_SIZE :: u64 where
  [layout_defs]: "VIRTIO_MMIO_TOTAL_SIZE = VIRTIO_MMIO_SIZE_PER_DEVICE * VIRTIO_MMIO_MAX_DEVICES"
definition RAM_64BIT_START :: u64 where [layout_defs]: "RAM_64BIT_START = 0x100000000"

section \<open>The device windows\<close>

text \<open>
  The windows the device manager registers, in the order of \<^verbatim>\<open>register_devices\<close>: IOAPIC,
  PCI ECAM and one page per virtio device.
\<close>

definition device_windows :: "(u64 \<times> u64) list" where
  "device_windows =
     [(IOAPIC_START, IOAPIC_SIZE),
      (PCI_MMCONFIG_START, PCI_MMCONFIG_SIZE),
      (VIRTIO_MMIO_START, VIRTIO_MMIO_SIZE_PER_DEVICE),
      (VIRTIO_MMIO_START + VIRTIO_MMIO_SIZE_PER_DEVICE, VIRTIO_MMIO_SIZE_PER_DEVICE),
      (VIRTIO_MMIO_START + 2 * VIRTIO_MMIO_SIZE_PER_DEVICE, VIRTIO_MMIO_SIZE_PER_DEVICE),
      (VIRTIO_MMIO_START + 3 * VIRTIO_MMIO_SIZE_PER_DEVICE, VIRTIO_MMIO_SIZE_PER_DEVICE)]"

definition windows_apart :: "(u64 \<times> u64) \<Rightarrow> (u64 \<times> u64) \<Rightarrow> bool" where
  "windows_apart v w \<longleftrightarrow>
     unat (fst v) + unat (snd v) \<le> unat (fst w) \<or> unat (fst w) + unat (snd w) \<le> unat (fst v)"

text \<open>
  Every device window lies in the hole between the end of low RAM and the start of 64-bit RAM,
  and no two windows share an address.
\<close>

lemma device_windows_in_hole:
  "\<forall>(g, s) \<in> set device_windows.
     MEM_32BIT_DEVICES_START \<le> g \<and> unat g + unat s \<le> unat RAM_64BIT_START"
  by (simp add: device_windows_def layout_defs)

lemma device_windows_apart: "sorted_wrt windows_apart device_windows"
  by (simp add: device_windows_def windows_apart_def layout_defs)

end
