(* ===== verification/Guest_Memory.thy ===== *)
theory Guest_Memory
  imports Prelude Layout
begin

text \<open>
  Guest memory as the host sees it (\<^verbatim>\<open>src/memory/memory.rs\<close>): guest physical addresses,
  regions backed by host memory, MMIO regions, and the accessors every other component uses
  to touch guest RAM.

  The host memory behind the raw pointers is an explicit heap from host addresses to bytes.
  The accessors take \<^verbatim>\<open>&self\<close> and write through a pointer, so they return a new heap and
  leave the memory manager as it is.
\<close>

section \<open>Guest addresses\<close>

type_synonym guest_address = u64

definition checked_offset_from :: "guest_address \<Rightarrow> guest_address \<Rightarrow> u64 option" where
  "checked_offset_from a base = checked_sub a base"

definition unchecked_add :: "guest_address \<Rightarrow> u64 \<Rightarrow> guest_address" where
  "unchecked_add a off = a + off"

definition unchecked_sub :: "guest_address \<Rightarrow> u64 \<Rightarrow> guest_address" where
  "unchecked_sub a off = a - off"

section \<open>Permissions\<close>

type_synonym memory_perms = u32

definition PERM_READ :: memory_perms where "PERM_READ = 1"
definition PERM_WRITE :: memory_perms where "PERM_WRITE = 2"
definition PERM_EXECUTE :: memory_perms where "PERM_EXECUTE = 4"
definition PERM_RW :: memory_perms where "PERM_RW = PERM_READ OR PERM_WRITE"
definition PERM_RX :: memory_perms where "PERM_RX = PERM_READ OR PERM_EXECUTE"
definition PERM_RWX :: memory_perms where "PERM_RWX = PERM_READ OR PERM_WRITE OR PERM_EXECUTE"

lemmas perm_defs = PERM_READ_def PERM_WRITE_def PERM_EXECUTE_def PERM_RW_def PERM_RX_def
  PERM_RWX_def

definition perms_contain :: "memory_perms \<Rightarrow> memory_perms \<Rightarrow> bool" where
  "perms_contain p q \<longleftrightarrow> p AND q = q"

text \<open>The WHP map flags are constants of the Windows headers, hence arguments.\<close>

definition to_flags :: "u32 \<Rightarrow> u32 \<Rightarrow> u32 \<Rightarrow> memory_perms \<Rightarrow> u32" where
  "to_flags whv_read whv_write whv_execute p =
     (let f0 = 0;
          f1 = (if perms_contain p PERM_READ then f0 OR whv_read else f0);
          f2 = (if perms_contain p PERM_WRITE then f1 OR whv_write else f1)
      in if perms_contain p PERM_EXECUTE then f2 OR whv_execute else f2)"

section \<open>Regions and the memory manager\<close>

record mmio_region =
  mr_gpa :: guest_address
  mr_size :: u64
  mr_name :: string
  mr_handler :: "string option"

record memory_region =
  rg_gpa :: guest_address
  rg_size :: u64
  rg_perms :: memory_perms
  rg_hpa :: "u64 option"

record memory_manager =
  mm_regions :: "memory_region list"
  mm_mmio_regions :: "mmio_region list"
  mm_access_log :: "(u64 \<times> bool \<times> u64) list"
  mm_acpi_address :: "guest_address option"

type_synonym heap = "u64 \<Rightarrow> u8"

datatype mem_error =
    MemoryNotAllocated
  | CodeExceedsMemory
  | ReadExceedsMemory
  | MemoryReadOnly
  | MemoryNotReadable
  | NoHostAddress

datatype guest_memory_error = InvalidBackendAddress | HostAddressNotAvailable

definition memory_region_new ::
  "guest_address \<Rightarrow> u64 \<Rightarrow> memory_perms \<Rightarrow> u64 option \<Rightarrow> memory_region" where
  "memory_region_new g s p h = \<lparr>rg_gpa = g, rg_size = s, rg_perms = p, rg_hpa = h\<rparr>"

definition start_addr :: "memory_region \<Rightarrow> guest_address" where
  "start_addr r = rg_gpa r"

definition last_addr :: "memory_region \<Rightarrow> guest_address" where
  "last_addr r = unchecked_add (rg_gpa r) (rg_size r - 1)"

definition check_address :: "memory_region \<Rightarrow> guest_address \<Rightarrow> guest_address option" where
  "check_address r a = (if start_addr r \<le> a \<and> a \<le> last_addr r then Some a else None)"

definition checked_offset :: "memory_region \<Rightarrow> guest_address \<Rightarrow> usize \<Rightarrow> guest_address option" where
  "checked_offset r base off =
     (case checked_add base off of None \<Rightarrow> None | Some a \<Rightarrow> check_address r a)"

text \<open>A volatile slice of host memory: its host address and its length.\<close>

record volatile_slice =
  vs_addr :: u64
  vs_len :: nat

definition get_slice ::
  "memory_region \<Rightarrow> guest_address \<Rightarrow> usize \<Rightarrow> (guest_memory_error, volatile_slice) result" where
  "get_slice r off count =
     (case checked_add off count of
        None \<Rightarrow> Err InvalidBackendAddress
      | Some end \<Rightarrow>
          if rg_size r < end then Err InvalidBackendAddress
          else (case rg_hpa r of
                  None \<Rightarrow> Err HostAddressNotAvailable
                | Some p \<Rightarrow> Ok \<lparr>vs_addr = p + off, vs_len = unat count\<rparr>))"

definition memory_manager_new :: memory_manager where
  "memory_manager_new =
     \<lparr>mm_regions = [], mm_mmio_regions = [], mm_access_log = [], mm_acpi_address = None\<rparr>"

definition register_region :: "memory_manager \<Rightarrow> memory_region \<Rightarrow> memory_manager" where
  "register_region mm r = mm\<lparr>mm_regions := mm_regions mm @ [r]\<rparr>"

definition register_mmio :: "memory_manager \<Rightarrow> mmio_region \<Rightarrow> memory_manager" where
  "register_mmio mm r = mm\<lparr>mm_mmio_regions := mm_mmio_regions mm @ [r]\<rparr>"

definition log_access :: "memory_manager \<Rightarrow> u64 \<Rightarrow> bool \<Rightarrow> memory_manager" where
  "log_access mm gpa is_write =
     (let log = mm_access_log mm;
          log' = log @ [(gpa, is_write, of_nat (length log))]
      in mm\<lparr>mm_access_log := (if 1000 < length log' then drop 1 log' else log')\<rparr>)"

definition find_region :: "memory_manager \<Rightarrow> guest_address \<Rightarrow> memory_region option" where
  "find_region mm gpa =
     find (\<lambda>r. start_addr r \<le> gpa \<and> gpa \<le> last_addr r) (mm_regions mm)"

definition address_in_range :: "memory_manager \<Rightarrow> guest_address \<Rightarrow> bool" where
  "address_in_range mm gpa \<longleftrightarrow> find_region mm gpa \<noteq> None"

definition find_mmio :: "memory_manager \<Rightarrow> u64 \<Rightarrow> mmio_region option" where
  "find_mmio mm gpa =
     find (\<lambda>r. mr_gpa r \<le> gpa \<and> gpa < mr_gpa r + mr_size r) (mm_mmio_regions mm)"

section \<open>Accessors\<close>

definition copy_to :: "heap \<Rightarrow> u64 \<Rightarrow> u8 list \<Rightarrow> heap" where
  "copy_to h p bs =
     (\<lambda>a. if unat (a - p) < length bs then bs ! unat (a - p) else h a)"

definition copy_from :: "heap \<Rightarrow> u64 \<Rightarrow> nat \<Rightarrow> u8 list" where
  "copy_from h p n = map (\<lambda>i. h (p + of_nat i)) [0..<n]"

definition write_guest_memory ::
  "memory_manager \<Rightarrow> heap \<Rightarrow> u8 list \<Rightarrow> guest_address \<Rightarrow> (mem_error, heap) result" where
  "write_guest_memory mm h code gpa =
     (case find_region mm gpa of
        None \<Rightarrow> Err MemoryNotAllocated
      | Some r \<Rightarrow>
          if last_addr r < unchecked_add gpa (of_nat (length code)) then Err CodeExceedsMemory
          else if \<not> perms_contain (rg_perms r) PERM_WRITE then Err MemoryReadOnly
          else (case rg_hpa r of
                  None \<Rightarrow> Err NoHostAddress
                | Some p \<Rightarrow> Ok (copy_to h (p + (gpa - rg_gpa r)) code)))"

definition read_guest_memory ::
  "memory_manager \<Rightarrow> heap \<Rightarrow> guest_address \<Rightarrow> nat \<Rightarrow> (mem_error, u8 list) result" where
  "read_guest_memory mm h gpa n =
     (case find_region mm gpa of
        None \<Rightarrow> Err MemoryNotAllocated
      | Some r \<Rightarrow>
          if last_addr r < unchecked_add gpa (of_nat n) then Err ReadExceedsMemory
          else if \<not> perms_contain (rg_perms r) PERM_READ then Err MemoryNotReadable
          else (case rg_hpa r of
                  None \<Rightarrow> Err NoHostAddress
                | Some p \<Rightarrow> Ok (copy_from h (p + (gpa - rg_gpa r)) n)))"

text \<open>
  \<^verbatim>\<open>read_obj\<close> reads the bytes of the object and reinterprets them; the byte count always
  matches, so the conversion cannot fail.  The reinterpretation is the argument \<open>dec\<close>.
\<close>

definition read_obj ::
  "memory_manager \<Rightarrow> heap \<Rightarrow> nat \<Rightarrow> (u8 list \<Rightarrow> 'a) \<Rightarrow> guest_address \<Rightarrow> (mem_error, 'a) result" where
  "read_obj mm h n dec gpa =
     (case read_guest_memory mm h gpa n of
        Err e \<Rightarrow> Err e
      | Ok bytes \<Rightarrow> Ok (dec bytes))"

definition write_obj ::
  "memory_manager \<Rightarrow> heap \<Rightarrow> ('a \<Rightarrow> u8 list) \<Rightarrow> 'a \<Rightarrow> guest_address \<Rightarrow> (mem_error, heap) result" where
  "write_obj mm h enc obj gpa = write_guest_memory mm h (enc obj) gpa"

text \<open>
  The atomic accessors check that the first byte is mapped and readable or writable, and
  nothing about the end of the access.  \<open>n\<close> is the size of the atomic type in bytes; the host
  is little-endian.
\<close>

definition store ::
  "memory_manager \<Rightarrow> heap \<Rightarrow> nat \<Rightarrow> 'a::len word \<Rightarrow> guest_address \<Rightarrow> (mem_error, heap) result" where
  "store mm h n val addr =
     (case find_region mm addr of
        None \<Rightarrow> Err MemoryNotAllocated
      | Some r \<Rightarrow>
          if \<not> perms_contain (rg_perms r) PERM_WRITE then Err MemoryReadOnly
          else (case rg_hpa r of
                  None \<Rightarrow> Err NoHostAddress
                | Some p \<Rightarrow> Ok (copy_to h (p + (addr - rg_gpa r)) (to_le n val))))"

definition load ::
  "memory_manager \<Rightarrow> heap \<Rightarrow> nat \<Rightarrow> guest_address \<Rightarrow> (mem_error, 'a::len word) result" where
  "load mm h n addr =
     (case find_region mm addr of
        None \<Rightarrow> Err MemoryNotAllocated
      | Some r \<Rightarrow>
          if \<not> perms_contain (rg_perms r) PERM_READ then Err MemoryNotReadable
          else (case rg_hpa r of
                  None \<Rightarrow> Err NoHostAddress
                | Some p \<Rightarrow> Ok (from_le (copy_from h (p + (addr - rg_gpa r)) n))))"

lemmas accessor_defs = write_guest_memory_def read_guest_memory_def store_def load_def
  read_obj_def write_obj_def unchecked_add_def

section \<open>Well-formed guest memory\<close>

text \<open>
  What the partition guarantees when it maps memory: every region is non-empty, neither its
  guest range nor its host range wraps around (and guest ranges stay in the lower half of the
  64-bit space), and no two regions share a guest address or a host address.
\<close>

definition region_wf :: "memory_region \<Rightarrow> bool" where
  "region_wf r \<longleftrightarrow>
     0 < rg_size r \<and> unat (rg_gpa r) + unat (rg_size r) \<le> 2 ^ 63 \<and>
     (case rg_hpa r of None \<Rightarrow> True | Some p \<Rightarrow> unat p + unat (rg_size r) \<le> 2 ^ 64)"

definition ranges_apart :: "u64 \<Rightarrow> u64 \<Rightarrow> u64 \<Rightarrow> u64 \<Rightarrow> bool" where
  "ranges_apart a n b m \<longleftrightarrow> unat a + unat n \<le> unat b \<or> unat b + unat m \<le> unat a"

definition regions_apart :: "memory_region \<Rightarrow> memory_region \<Rightarrow> bool" where
  "regions_apart r s \<longleftrightarrow>
     ranges_apart (rg_gpa r) (rg_size r) (rg_gpa s) (rg_size s) \<and>
     (case (rg_hpa r, rg_hpa s) of
        (Some p, Some q) \<Rightarrow> ranges_apart p (rg_size r) q (rg_size s)
      | _ \<Rightarrow> True)"

definition mm_wf :: "memory_manager \<Rightarrow> bool" where
  "mm_wf mm \<longleftrightarrow> list_all region_wf (mm_regions mm) \<and> sorted_wrt regions_apart (mm_regions mm)"

lemma ranges_apart_sym: "ranges_apart a n b m \<Longrightarrow> ranges_apart b m a n"
  by (auto simp: ranges_apart_def)

lemma regions_apart_sym: "regions_apart r s \<Longrightarrow> regions_apart s r"
  by (auto simp: regions_apart_def ranges_apart_sym split: option.splits)

lemma sorted_wrt_pair:
  assumes "sorted_wrt P xs" "x \<in> set xs" "y \<in> set xs" "x \<noteq> y" "\<And>a b. P a b \<Longrightarrow> P b a"
  shows "P x y"
proof -
  obtain i j where ij: "i < length xs" "j < length xs" "xs ! i = x" "xs ! j = y"
    using assms(2,3) by (auto simp: in_set_conv_nth)
  then have "i < j \<or> j < i" using assms(4) by (metis linorder_neqE_nat)
  then show ?thesis using ij assms(1,5) by (auto simp: sorted_wrt_iff_nth_less)
qed

lemma mm_wf_region: "mm_wf mm \<Longrightarrow> r \<in> set (mm_regions mm) \<Longrightarrow> region_wf r"
  by (auto simp: mm_wf_def list_all_iff)

lemma mm_wf_apart:
  "mm_wf mm \<Longrightarrow> r \<in> set (mm_regions mm) \<Longrightarrow> s \<in> set (mm_regions mm) \<Longrightarrow> r \<noteq> s \<Longrightarrow>
   regions_apart r s"
  unfolding mm_wf_def by (rule sorted_wrt_pair) (auto intro: regions_apart_sym)

definition in_region :: "memory_region \<Rightarrow> guest_address \<Rightarrow> bool" where
  "in_region r a \<longleftrightarrow> start_addr r \<le> a \<and> a \<le> last_addr r"

lemma find_region_alt: "find_region mm a = find (\<lambda>r. in_region r a) (mm_regions mm)"
  by (simp add: find_region_def in_region_def)

lemma unat_last_addr:
  assumes "region_wf r"
  shows "unat (last_addr r) = unat (rg_gpa r) + unat (rg_size r) - 1"
proof -
  have s: "1 \<le> rg_size r" "unat (rg_gpa r) + unat (rg_size r) \<le> 2 ^ 63"
    using assms by (auto simp: region_wf_def word_less_nat_alt word_le_nat_alt)
  then have "unat (rg_size r - 1) = unat (rg_size r) - 1" by (simp add: unat_sub)
  with s show ?thesis
    by (simp add: last_addr_def unchecked_add_def unat_word_ariths word_le_nat_alt)
qed

lemma in_region_iff:
  assumes "region_wf r"
  shows "in_region r a \<longleftrightarrow>
    unat (rg_gpa r) \<le> unat a \<and> unat a < unat (rg_gpa r) + unat (rg_size r)"
proof -
  have "0 < unat (rg_size r)" using assms by (simp add: region_wf_def word_less_nat_alt)
  then show ?thesis
    using unat_last_addr [OF assms]
    by (auto simp: in_region_def start_addr_def word_le_nat_alt)
qed

lemma find_regionD:
  assumes "find_region mm a = Some r"
  shows "r \<in> set (mm_regions mm)" "in_region r a"
  using find_SomeD [OF assms [unfolded find_region_alt]] by auto

lemma find_region_eq:
  assumes wf: "mm_wf mm" and r: "r \<in> set (mm_regions mm)" and a: "in_region r a"
  shows "find_region mm a = Some r"
  unfolding find_region_alt
proof (rule find_unique)
  show "r \<in> set (mm_regions mm)" by (rule r)
  show "in_region r a" by (rule a)
next
  fix s
  assume s: "s \<in> set (mm_regions mm)" "in_region s a"
  show "s = r"
  proof (rule ccontr)
    assume "s \<noteq> r"
    then have "regions_apart s r" using mm_wf_apart [OF wf s(1) r] by simp
    then show False
      using s a mm_wf_region [OF wf s(1)] mm_wf_region [OF wf r]
      by (auto simp: in_region_iff regions_apart_def ranges_apart_def)
  qed
qed

section \<open>Guest memory as a map\<close>

text \<open>
  The abstract specification: guest RAM is a partial map from guest addresses to bytes.  The
  accessors refine reads and updates of this map.
\<close>

definition host_addr :: "memory_region \<Rightarrow> u64 \<Rightarrow> guest_address \<Rightarrow> u64" where
  "host_addr r p a = p + (a - rg_gpa r)"

definition guest_view :: "memory_manager \<Rightarrow> heap \<Rightarrow> guest_address \<rightharpoonup> u8" where
  "guest_view mm h a =
     (case find_region mm a of
        None \<Rightarrow> None
      | Some r \<Rightarrow> (case rg_hpa r of None \<Rightarrow> None | Some p \<Rightarrow> Some (h (host_addr r p a))))"

definition view_update :: "(guest_address \<rightharpoonup> u8) \<Rightarrow> guest_address \<Rightarrow> u8 list \<Rightarrow> (guest_address \<rightharpoonup> u8)"
where
  "view_update v a bs =
     (\<lambda>x. if unat (x - a) < length bs then Some (bs ! unat (x - a)) else v x)"

definition view_range :: "(guest_address \<rightharpoonup> u8) \<Rightarrow> guest_address \<Rightarrow> nat \<Rightarrow> u8 option list" where
  "view_range v a n = map (\<lambda>i. v (a + of_nat i)) [0..<n]"

lemma length_copy_from [simp]: "length (copy_from h p n) = n"
  by (simp add: copy_from_def)

lemma copy_from_nth [simp]: "i < n \<Longrightarrow> copy_from h p n ! i = h (p + of_nat i)"
  by (simp add: copy_from_def)

lemma unat_host_addr:
  assumes "region_wf r" "rg_hpa r = Some p" "in_region r a"
  shows "unat (host_addr r p a) = unat p + (unat a - unat (rg_gpa r))"
    and "unat a - unat (rg_gpa r) < unat (rg_size r)"
proof -
  have a: "unat (rg_gpa r) \<le> unat a" "unat a < unat (rg_gpa r) + unat (rg_size r)"
    using assms by (auto simp: in_region_iff)
  then show "unat a - unat (rg_gpa r) < unat (rg_size r)" by simp
  have "unat (a - rg_gpa r) = unat a - unat (rg_gpa r)"
    using a by (simp add: unat_sub word_le_nat_alt)
  moreover have "unat p + unat (rg_size r) \<le> 2 ^ 64" using assms by (simp add: region_wf_def)
  ultimately show "unat (host_addr r p a) = unat p + (unat a - unat (rg_gpa r))"
    using a by (simp add: host_addr_def unat_word_ariths)
qed

lemma host_addr_inj:
  assumes wf: "mm_wf mm"
    and r: "find_region mm a = Some r" "rg_hpa r = Some p"
    and s: "find_region mm b = Some s" "rg_hpa s = Some q"
    and eq: "host_addr r p a = host_addr s q b"
  shows "a = b"
proof -
  note rD = find_regionD [OF r(1)] and sD = find_regionD [OF s(1)]
  note wfs = mm_wf_region [OF wf rD(1)] mm_wf_region [OF wf sD(1)]
  note hr = unat_host_addr [OF wfs(1) r(2) rD(2)]
    and hs = unat_host_addr [OF wfs(2) s(2) sD(2)]
  have same: "unat p + (unat a - unat (rg_gpa r)) = unat q + (unat b - unat (rg_gpa s))"
    using hr(1) hs(1) eq by simp
  show ?thesis
  proof (cases "r = s")
    case True
    then have "unat a = unat b"
      using same r(2) s(2) rD(2) sD(2) wfs by (auto simp: in_region_iff)
    then show ?thesis by (simp add: word_unat_eq_iff)
  next
    case False
    then have "regions_apart r s" using mm_wf_apart [OF wf rD(1) sD(1)] by simp
    then show ?thesis
      using same hr(2) hs(2) r(2) s(2) by (auto simp: regions_apart_def ranges_apart_def)
  qed
qed

text \<open>The addresses an access of \<open>n\<close> bytes at \<open>a\<close> covers lie in the region that was found.\<close>

definition access_ok :: "memory_manager \<Rightarrow> guest_address \<Rightarrow> nat \<Rightarrow> memory_region \<Rightarrow> u64 \<Rightarrow> bool" where
  "access_ok mm a n r p \<longleftrightarrow>
     find_region mm a = Some r \<and> rg_hpa r = Some p \<and>
     unat a + n \<le> unat (rg_gpa r) + unat (rg_size r)"

lemma access_okD:
  assumes wf: "mm_wf mm" and ok: "access_ok mm a n r p" and i: "i < n"
  shows "find_region mm (a + of_nat i) = Some r"
    and "host_addr r p (a + of_nat i) = host_addr r p a + of_nat i"
    and "unat (a + of_nat i) = unat a + i"
proof -
  have f: "find_region mm a = Some r" and b: "unat a + n \<le> unat (rg_gpa r) + unat (rg_size r)"
    using ok by (auto simp: access_ok_def)
  note rD = find_regionD [OF f]
  have rwf: "region_wf r" using mm_wf_region [OF wf rD(1)] .
  have "unat a + n \<le> 2 ^ 63" using b rwf by (auto simp: region_wf_def)
  then have n: "unat (of_nat i :: u64) = i" using i by (simp add: unat_of_nat)
  then show u: "unat (a + of_nat i) = unat a + i"
    using i \<open>unat a + n \<le> 2 ^ 63\<close> by (simp add: unat_word_ariths)
  have "in_region r (a + of_nat i)"
    using rD(2) rwf u b i by (simp add: in_region_iff)
  then show "find_region mm (a + of_nat i) = Some r" using find_region_eq [OF wf rD(1)] by simp
  show "host_addr r p (a + of_nat i) = host_addr r p a + of_nat i"
    by (simp add: host_addr_def)
qed

lemma guest_view_access:
  assumes "mm_wf mm" "access_ok mm a n r p" "i < n"
  shows "guest_view mm h (a + of_nat i) = Some (h (host_addr r p a + of_nat i))"
  using access_okD [OF assms] assms(2) by (simp add: guest_view_def access_ok_def)

lemma word_diff_cases:
  fixes x a :: "'a::len word"
  shows "x = a + of_nat (unat (x - a))"
  by simp

lemma guest_view_copy_to:
  assumes wf: "mm_wf mm" and ok: "access_ok mm a (length bs) r p"
  shows "guest_view mm (copy_to h (host_addr r p a) bs) = view_update (guest_view mm h) a bs"
proof
  fix x
  let ?H = "host_addr r p a"
  show "guest_view mm (copy_to h ?H bs) x = view_update (guest_view mm h) a bs x"
  proof (cases "unat (x - a) < length bs")
    case True
    define i where "i = unat (x - a)"
    have x: "x = a + of_nat i" unfolding i_def by simp
    have i: "i < length bs" using True by (simp add: i_def)
    have small: "unat (of_nat i :: u64) = i" by (simp add: i_def)
    have "guest_view mm (copy_to h ?H bs) x = Some (copy_to h ?H bs (?H + of_nat i))"
      using guest_view_access [OF wf ok i] x by simp
    also have "\<dots> = Some (bs ! i)" using i small by (simp add: copy_to_def)
    finally show ?thesis using i small x by (simp add: view_update_def)
  next
    case False
    have "unat (host_addr s q x - ?H) \<ge> length bs"
      if s: "find_region mm x = Some s" "rg_hpa s = Some q" for s q
    proof (rule ccontr)
      assume "\<not> ?thesis"
      then have j: "unat (host_addr s q x - ?H) < length bs" by simp
      let ?y = "a + of_nat (unat (host_addr s q x - ?H))"
      have "host_addr r p ?y = host_addr s q x"
        using access_okD(2) [OF wf ok j] by simp
      then have "?y = x"
        using host_addr_inj [OF wf access_okD(1) [OF wf ok j] _ s] ok
        by (simp add: access_ok_def)
      then have "x - a = host_addr s q x - ?H" by (metis add_diff_cancel_left' word_diff_cases)
      with j False show False by simp
    qed
    then show ?thesis
      using False by (force simp: guest_view_def view_update_def copy_to_def
          split: option.splits)
  qed
qed

lemma copy_from_view:
  assumes "mm_wf mm" "access_ok mm a n r p"
  shows "map Some (copy_from h (host_addr r p a) n) = view_range (guest_view mm h) a n"
  by (rule nth_equalityI)
    (use guest_view_access [OF assms] in \<open>auto simp: view_range_def\<close>)

section \<open>Ranges of the map\<close>

lemma length_view_range [simp]: "length (view_range v a n) = n"
  by (simp add: view_range_def)

lemma view_range_nth [simp]: "i < n \<Longrightarrow> view_range v a n ! i = v (a + of_nat i)"
  by (simp add: view_range_def)

lemma view_range_part:
  "i + k \<le> n \<Longrightarrow> view_range v (a + of_nat i) k = take k (drop i (view_range v a n))"
  by (rule nth_equalityI) (auto simp: add.assoc)

lemma view_range_append: "view_range v a (m + n) = view_range v a m @ view_range v (a + of_nat m) n"
  by (rule nth_equalityI) (auto simp: nth_append not_less of_nat_diff)

lemma view_range_written:
  assumes "length bs \<le> 2 ^ 64"
  shows "view_range (view_update v a bs) a (length bs) = map Some bs"
proof (rule nth_equalityI)
  fix i
  assume "i < length (view_range (view_update v a bs) a (length bs))"
  then have i: "i < length bs" by simp
  then have "unat (of_nat i :: u64) = i" using assms by (intro unat_of_nat_small) simp
  then show "view_range (view_update v a bs) a (length bs) ! i = map Some bs ! i"
    using i by (simp add: view_update_def)
qed simp

lemma view_range_apart:
  assumes "unat b + n \<le> unat a \<or> unat a + length bs \<le> unat b"
    and "unat b + n \<le> 2 ^ 64" "unat a + length bs \<le> 2 ^ 64"
  shows "view_range (view_update v a bs) b n = view_range v b n"
proof (rule nth_equalityI)
  fix i
  assume "i < length (view_range (view_update v a bs) b n)"
  then have i: "i < n" by simp
  then have u: "unat (b + of_nat i) = unat b + i" using assms(2) by (simp add: unat_word_ariths unat_of_nat)
  have "length bs \<le> unat (b + of_nat i - a)"
  proof (cases "a \<le> b + of_nat i")
    case True
    then have "unat (b + of_nat i - a) = unat (b + of_nat i) - unat a" by (rule unat_sub)
    then show ?thesis using True assms(1) u i by (auto simp: word_le_nat_alt)
  next
    case False
    then have lt: "unat (b + of_nat i) < unat a" by (simp add: not_le word_less_nat_alt)
    have "unat (b + of_nat i - a) = 2 ^ 64 + unat (b + of_nat i) - unat a"
      using lt by (simp add: unat_sub_if_size word_size)
    then show ?thesis using assms(3) lt by linarith
  qed
  then show "view_range (view_update v a bs) b n ! i = view_range v b n ! i"
    using i by (simp add: view_update_def)
qed simp

section \<open>The accessors refine the map\<close>

lemma end_guard_iff:
  assumes wf: "mm_wf mm" and f: "find_region mm a = Some r" and n: "n < 2 ^ 63"
  shows "last_addr r < a + of_nat n \<longleftrightarrow> unat (rg_gpa r) + unat (rg_size r) \<le> unat a + n"
proof -
  note rD = find_regionD [OF f]
  have rwf: "region_wf r" using mm_wf_region [OF wf rD(1)] .
  have b: "unat (rg_gpa r) + unat (rg_size r) \<le> 2 ^ 63" "0 < unat (rg_size r)"
    "unat a < unat (rg_gpa r) + unat (rg_size r)"
    using rwf rD(2) by (auto simp: region_wf_def word_less_nat_alt in_region_iff)
  then have "unat (a + of_nat n) = unat a + n"
    using n by (simp add: unat_word_ariths unat_of_nat)
  then show ?thesis using unat_last_addr [OF rwf] b by (auto simp: word_less_nat_alt)
qed

lemma access_ok_of_guard:
  assumes "mm_wf mm" "find_region mm a = Some r" "rg_hpa r = Some p"
    and "n < 2 ^ 63" "\<not> last_addr r < a + of_nat n"
  shows "access_ok mm a n r p" and "unat a + n < unat (rg_gpa r) + unat (rg_size r)"
  using assms(2,3,5) end_guard_iff [OF assms(1,2,4)] by (auto simp: access_ok_def)

text \<open>Enough for success: the whole access, and one byte more, inside a region with the right.\<close>

lemma write_guest_memory_success:
  assumes "mm_wf mm" "access_ok mm a (Suc (length bs)) r p" "length bs < 2 ^ 63"
    and "perms_contain (rg_perms r) PERM_WRITE"
  shows "write_guest_memory mm h bs a = Ok (copy_to h (host_addr r p a) bs)"
  using assms end_guard_iff [OF assms(1) _ assms(3), of a r]
  by (simp add: write_guest_memory_def unchecked_add_def access_ok_def host_addr_def)

lemma read_guest_memory_success:
  assumes "mm_wf mm" "access_ok mm a (Suc n) r p" "n < 2 ^ 63"
    and "perms_contain (rg_perms r) PERM_READ"
  shows "read_guest_memory mm h a n = Ok (copy_from h (host_addr r p a) n)"
  using assms end_guard_iff [OF assms(1) _ assms(3), of a r]
  by (simp add: read_guest_memory_def unchecked_add_def access_ok_def host_addr_def)

lemma store_success:
  "access_ok mm a n r p \<Longrightarrow> perms_contain (rg_perms r) PERM_WRITE \<Longrightarrow>
   store mm h n v a = Ok (copy_to h (host_addr r p a) (to_le n v))"
  by (simp add: store_def access_ok_def host_addr_def)

lemma load_success:
  "access_ok mm a n r p \<Longrightarrow> perms_contain (rg_perms r) PERM_READ \<Longrightarrow>
   load mm h n a = Ok (from_le (copy_from h (host_addr r p a) n))"
  by (simp add: load_def access_ok_def host_addr_def)

lemma access_ok_sub:
  assumes "mm_wf mm" "access_ok mm a n r p" "i < n" "i + k \<le> n"
  shows "access_ok mm (a + of_nat i) k r p"
  using access_okD [OF assms(1,2,3)] assms(2,4) by (simp add: access_ok_def)

lemma access_ok_less: "access_ok mm a n r p \<Longrightarrow> k \<le> n \<Longrightarrow> access_ok mm a k r p"
  by (simp add: access_ok_def)

lemma write_guest_memory_Ok:
  assumes "mm_wf mm" "length bs < 2 ^ 63" "write_guest_memory mm h bs a = Ok h'"
  obtains r p where "access_ok mm a (length bs) r p" "h' = copy_to h (host_addr r p a) bs"
    "perms_contain (rg_perms r) PERM_WRITE"
    "unat a + length bs < unat (rg_gpa r) + unat (rg_size r)"
  using assms access_ok_of_guard [OF assms(1) _ _ assms(2)]
  by (force simp: accessor_defs host_addr_def split: option.splits if_splits)

lemma read_guest_memory_Ok:
  assumes "mm_wf mm" "n < 2 ^ 63" "read_guest_memory mm h a n = Ok bs"
  obtains r p where "access_ok mm a n r p" "bs = copy_from h (host_addr r p a) n"
    "perms_contain (rg_perms r) PERM_READ"
    "unat a + n < unat (rg_gpa r) + unat (rg_size r)"
  using assms access_ok_of_guard [OF assms(1) _ _ assms(2)]
  by (force simp: accessor_defs host_addr_def split: option.splits if_splits)

lemma write_guest_memory_view:
  assumes "mm_wf mm" "length bs < 2 ^ 63" "write_guest_memory mm h bs a = Ok h'"
  shows "guest_view mm h' = view_update (guest_view mm h) a bs"
  using write_guest_memory_Ok [OF assms] guest_view_copy_to [OF assms(1)] by metis

lemma read_guest_memory_view:
  assumes "mm_wf mm" "n < 2 ^ 63" "read_guest_memory mm h a n = Ok bs"
  shows "map Some bs = view_range (guest_view mm h) a n"
  using read_guest_memory_Ok [OF assms] copy_from_view [OF assms(1)] by metis

text \<open>The outcome of an access depends on the regions only, never on the bytes stored.\<close>

lemma read_guest_memory_is_ok:
  "is_ok (read_guest_memory mm h a n) = is_ok (read_guest_memory mm h' a n)"
  by (simp add: accessor_defs split: option.splits)

lemma write_guest_memory_is_ok:
  "length bs = length cs \<Longrightarrow>
   is_ok (write_guest_memory mm h bs a) = is_ok (write_guest_memory mm h' cs a)"
  by (simp add: accessor_defs split: option.splits)

section \<open>The interface other components rely on\<close>

text \<open>
  What a client of guest memory relies on: a view of the memory as a map, writes that update
  the view and keep the memory well formed, reads that return what the view holds, and
  success that does not depend on the contents.
\<close>

locale byte_store =
  fixes wf :: "'s \<Rightarrow> bool"
    and view :: "'s \<Rightarrow> guest_address \<Rightarrow> u8 option"
    and wr :: "'s \<Rightarrow> u8 list \<Rightarrow> guest_address \<Rightarrow> ('e, 's) result"
    and rd :: "'s \<Rightarrow> guest_address \<Rightarrow> nat \<Rightarrow> ('e, u8 list) result"
  assumes write_view: "wf s \<Longrightarrow> length bs < 2 ^ 63 \<Longrightarrow> wr s bs a = Ok s' \<Longrightarrow>
      wf s' \<and> view s' = view_update (view s) a bs"
    and read_view: "wf s \<Longrightarrow> n < 2 ^ 63 \<Longrightarrow> rd s a n = Ok cs \<Longrightarrow>
      map Some cs = view_range (view s) a n"
    and read_total: "wr s bs a = Ok s' \<Longrightarrow> is_ok (rd s' b n) = is_ok (rd s b n)"
begin

lemma read_length: "wf s \<Longrightarrow> n < 2 ^ 63 \<Longrightarrow> rd s a n = Ok cs \<Longrightarrow> length cs = n"
  using read_view [of s n a cs] by (metis length_map map_nth view_range_def length_upt minus_nat.diff_0)

lemma read_after_write:
  assumes "wf s" "length bs < 2 ^ 63" "n < 2 ^ 63" "wr s bs a = Ok s'" "rd s' b n = Ok cs"
  shows "map Some cs = view_range (view_update (view s) a bs) b n"
  using write_view [OF assms(1,2,4)] read_view [OF _ assms(3,5)] by simp

lemma view_range_update_same:
  assumes "length bs < 2 ^ 63"
  shows "view_range (view_update v a bs) a (length bs) = map Some bs"
proof (rule nth_equalityI)
  fix i
  assume "i < length (view_range (view_update v a bs) a (length bs))"
  then have i: "i < length bs" by (simp add: view_range_def)
  then have "unat (of_nat i :: u64) = i" using assms by (simp add: unat_of_nat)
  with i show "view_range (view_update v a bs) a (length bs) ! i = map Some bs ! i"
    by (simp add: view_range_def view_update_def)
qed (simp add: view_range_def)

lemma read_back:
  assumes "wf s" "length bs < 2 ^ 63" "wr s bs a = Ok s'" "is_ok (rd s a (length bs))"
  shows "rd s' a (length bs) = Ok bs"
proof -
  obtain cs where cs: "rd s' a (length bs) = Ok cs"
    using read_total [OF assms(3), of a "length bs"] assms(4) by (auto simp: is_ok_iff)
  have "map Some cs = map Some bs"
    using read_after_write [OF assms(1,2,2,3) cs] view_range_update_same [OF assms(2)] by simp
  then show ?thesis using cs by (simp add: inj_map_eq_map)
qed

lemma read_elsewhere:
  assumes "wf s" "length bs < 2 ^ 63" "n < 2 ^ 63" "wr s bs a = Ok s'"
    and "rd s b n = Ok cs" and apart: "\<And>i. i < n \<Longrightarrow> length bs \<le> unat (b + of_nat i - a)"
  shows "rd s' b n = Ok cs"
proof -
  obtain ds where ds: "rd s' b n = Ok ds"
    using read_total [OF assms(4), of b n] assms(5) by (auto simp: is_ok_iff)
  have "map Some ds = view_range (view_update (view s) a bs) b n"
    using read_after_write [OF assms(1-4) ds] .
  also have "\<dots> = view_range (view s) b n"
    using apart by (fastforce simp: view_range_def view_update_def)
  also have "\<dots> = map Some cs" using read_view [OF assms(1,3,5)] by simp
  finally show ?thesis using ds by (simp add: inj_map_eq_map)
qed

end

text \<open>The memory manager together with the host heap is such a store.\<close>

type_synonym ram = "memory_manager \<times> heap"

definition ram_write :: "ram \<Rightarrow> u8 list \<Rightarrow> guest_address \<Rightarrow> (mem_error, ram) result" where
  "ram_write s bs a =
     (case write_guest_memory (fst s) (snd s) bs a of Err e \<Rightarrow> Err e | Ok h \<Rightarrow> Ok (fst s, h))"

definition ram_read :: "ram \<Rightarrow> guest_address \<Rightarrow> nat \<Rightarrow> (mem_error, u8 list) result" where
  "ram_read s a n = read_guest_memory (fst s) (snd s) a n"

interpretation ram: byte_store "\<lambda>s. mm_wf (fst s)" "\<lambda>s. guest_view (fst s) (snd s)"
  ram_write ram_read
proof unfold_locales
  fix s s' :: ram and bs a
  assume "mm_wf (fst s)" "length bs < 2 ^ 63" "ram_write s bs a = Ok s'"
  then show "mm_wf (fst s') \<and> guest_view (fst s') (snd s') = view_update (guest_view (fst s) (snd s)) a bs"
    using write_guest_memory_view [of "fst s" bs "snd s" a]
    by (auto simp: ram_write_def split: result.splits)
next
  fix s :: ram and n a cs
  assume "mm_wf (fst s)" "n < 2 ^ 63" "ram_read s a n = Ok cs"
  then show "map Some cs = view_range (guest_view (fst s) (snd s)) a n"
    using read_guest_memory_view [of "fst s" n "snd s" a] by (simp add: ram_read_def)
next
  fix s s' :: ram and bs a b n
  assume "ram_write s bs a = Ok s'"
  then show "is_ok (ram_read s' b n) = is_ok (ram_read s b n)"
    using read_guest_memory_is_ok [of "fst s" "snd s'" b n "snd s"]
    by (auto simp: ram_write_def ram_read_def split: result.splits)
qed

lemma ram_write_Ok: "write_guest_memory mm h bs a = Ok h' \<Longrightarrow> ram_write (mm, h) bs a = Ok (mm, h')"
  by (simp add: ram_write_def)

section \<open>Properties\<close>

text \<open>A small guest for the witnesses: two pages of RAM, the second one at 4 GiB.\<close>

definition demo_mm :: memory_manager where
  "demo_mm = \<lparr>mm_regions =
       [\<lparr>rg_gpa = 0, rg_size = 0x1000, rg_perms = 7, rg_hpa = Some 0x10000\<rparr>,
        \<lparr>rg_gpa = 0x100000000, rg_size = 0x1000, rg_perms = 7, rg_hpa = Some 0x11000\<rparr>],
     mm_mmio_regions = [], mm_access_log = [], mm_acpi_address = None\<rparr>"

lemma demo_mm_wf: "mm_wf demo_mm"
  by (simp add: demo_mm_def mm_wf_def region_wf_def regions_apart_def ranges_apart_def)

lemmas demo_eval = demo_mm_def find_region_def start_addr_def last_addr_def unchecked_add_def
  perms_contain_def PERM_READ_def PERM_WRITE_def
lemmas mem_eval = demo_eval copy_to_def copy_from_def fun_eq_iff

text \<open>
  C4.  Writing bytes to guest memory and reading any range afterwards (\<^verbatim>\<open>write_guest_memory\<close>,
  \<^verbatim>\<open>read_guest_memory\<close>): the read returns exactly what the guest-physical memory map holds
  after the map has been updated with the bytes at the written addresses and nowhere else,
  in the same region or in another one.
\<close>

theorem guest_memory_read_after_write:
  assumes "mm_wf mm" "length code < 2 ^ 63" "n < 2 ^ 63"
    and "write_guest_memory mm h code gpa = Ok h'"
    and "read_guest_memory mm h' gpa' n = Ok bs"
  shows "map Some bs = view_range (view_update (guest_view mm h) gpa code) gpa' n"
  using ram.read_after_write [of "(mm, h)" code n gpa "(mm, h')" gpa' bs] assms
  by (simp add: ram_write_Ok ram_read_def)

theorem guest_memory_read_after_write_witness:
  "\<exists>h'. write_guest_memory demo_mm (\<lambda>_. 0) [1, 2, 3] 16 = Ok h' \<and>
     read_guest_memory demo_mm h' 17 3 = Ok [2, 3, 0] \<and>
     map Some [2, 3, 0] =
       view_range (view_update (guest_view demo_mm (\<lambda>_. 0)) 16 [1, 2, 3]) 17 3"
proof -
  let ?h = "copy_to (\<lambda>_. 0) 0x10010 [1, 2, 3]"
  have w: "write_guest_memory demo_mm (\<lambda>_. 0) [1, 2, 3] 16 = Ok ?h"
    by (simp add: write_guest_memory_def mem_eval)
  have r: "read_guest_memory demo_mm ?h 17 3 = Ok [2, 3, 0]"
    by (simp add: read_guest_memory_def mem_eval upt_rec)
  show ?thesis
    using w r guest_memory_read_after_write [OF demo_mm_wf _ _ w r] by auto
qed

text \<open>
  A write to guest memory never touches host memory outside the backing block of the
  region it was given, and every guest address it changes lies in that region.
\<close>

theorem write_guest_memory_contained:
  assumes "mm_wf mm" "length code < 2 ^ 63" "write_guest_memory mm h code gpa = Ok h'"
  shows "\<exists>r p. r \<in> set (mm_regions mm) \<and> rg_hpa r = Some p \<and>
     perms_contain (rg_perms r) PERM_WRITE \<and>
     (\<forall>x. h' x \<noteq> h x \<longrightarrow> unat p \<le> unat x \<and> unat x < unat p + unat (rg_size r)) \<and>
     (\<forall>i < length code. in_region r (gpa + of_nat i))"
proof -
  obtain r p where ok: "access_ok mm gpa (length code) r p"
    and h': "h' = copy_to h (host_addr r p gpa) code"
    and w: "perms_contain (rg_perms r) PERM_WRITE"
    using write_guest_memory_Ok [OF assms] by metis
  have f: "find_region mm gpa = Some r" and p: "rg_hpa r = Some p"
    using ok by (auto simp: access_ok_def)
  have rwf: "region_wf r" using mm_wf_region [OF assms(1) find_regionD(1) [OF f]] .
  have inr: "in_region r (gpa + of_nat i)" if "i < length code" for i
    using find_regionD(2) [OF access_okD(1) [OF assms(1) ok that]] .
  have "unat p \<le> unat x \<and> unat x < unat p + unat (rg_size r)" if "h' x \<noteq> h x" for x
  proof -
    let ?i = "unat (x - host_addr r p gpa)"
    have i: "?i < length code" using that h' by (auto simp: copy_to_def split: if_splits)
    have "x = host_addr r p (gpa + of_nat ?i)"
      using access_okD(2) [OF assms(1) ok i] by simp
    then show ?thesis using unat_host_addr [OF rwf p inr [OF i]] by simp
  qed
  then show ?thesis using find_regionD(1) [OF f] p w inr by blast
qed

theorem write_guest_memory_contained_witness:
  "\<exists>h'. write_guest_memory demo_mm (\<lambda>_. 0) [7] 0x100000004 = Ok h' \<and>
     (\<exists>r p. r \<in> set (mm_regions demo_mm) \<and> rg_hpa r = Some p \<and>
        perms_contain (rg_perms r) PERM_WRITE \<and>
        (\<forall>x. h' x \<noteq> 0 \<longrightarrow> unat p \<le> unat x \<and> unat x < unat p + unat (rg_size r)) \<and>
        in_region r 0x100000004)"
proof -
  have w: "write_guest_memory demo_mm (\<lambda>_. 0) [7] 0x100000004 = Ok (copy_to (\<lambda>_. 0) 0x11004 [7])"
    by (simp add: write_guest_memory_def mem_eval)
  show ?thesis using w write_guest_memory_contained [OF demo_mm_wf _ w] by force
qed

text \<open>
  The outcome of \<^verbatim>\<open>write_guest_memory\<close> on every input: no region gives
  \<^verbatim>\<open>Memory not allocated\<close>; an access that does not end strictly before the last byte of the
  region is refused; then a region without write permission or without host backing is
  refused; every other write succeeds.
\<close>

theorem write_guest_memory_cases:
  assumes "mm_wf mm" "length code < 2 ^ 63"
  shows "write_guest_memory mm h code gpa =
    (case find_region mm gpa of
       None \<Rightarrow> Err MemoryNotAllocated
     | Some r \<Rightarrow>
         if unat (rg_gpa r) + unat (rg_size r) \<le> unat gpa + length code
         then Err CodeExceedsMemory
         else if \<not> perms_contain (rg_perms r) PERM_WRITE then Err MemoryReadOnly
         else (case rg_hpa r of
                 None \<Rightarrow> Err NoHostAddress
               | Some p \<Rightarrow> Ok (copy_to h (host_addr r p gpa) code)))"
proof (cases "find_region mm gpa")
  case None
  then show ?thesis by (simp add: write_guest_memory_def)
next
  case (Some r)
  then show ?thesis
    using end_guard_iff [OF assms(1) Some assms(2)]
    by (simp add: write_guest_memory_def unchecked_add_def host_addr_def
        cong: if_cong option.case_cong)
qed

theorem write_guest_memory_cases_witness:
  "write_guest_memory demo_mm (\<lambda>_. 0) [1] 0x2000 = Err MemoryNotAllocated \<and>
   write_guest_memory demo_mm (\<lambda>_. 0) [1] 0xfff = Err CodeExceedsMemory \<and>
   write_guest_memory demo_mm (\<lambda>_. 0) [1] 0xffe = Ok (copy_to (\<lambda>_. 0) 0x10ffe [1])"
  using write_guest_memory_cases [OF demo_mm_wf, of "[1]" "\<lambda>_. 0" "0x2000"]
    write_guest_memory_cases [OF demo_mm_wf, of "[1]" "\<lambda>_. 0" "0xfff"]
    write_guest_memory_cases [OF demo_mm_wf, of "[1]" "\<lambda>_. 0" "0xffe"]
  by (simp add: find_region_def start_addr_def last_addr_def unchecked_add_def demo_mm_def
      perms_contain_def PERM_WRITE_def host_addr_def)

text \<open>
  The atomic \<^verbatim>\<open>store\<close> checks only its first byte: storing a 16-bit value at the last
  byte of a writable region succeeds and puts the high byte into the host byte just after
  the region's backing block.
\<close>

theorem store_overruns_region:
  assumes "mm_wf mm" "r \<in> set (mm_regions mm)" "rg_hpa r = Some p"
    and "perms_contain (rg_perms r) PERM_WRITE"
  shows "\<exists>h'. store mm h 2 (v :: u16) (last_addr r) = Ok h' \<and>
     h' (p + rg_size r) = ucast (drop_bit 8 v)"
proof -
  have rwf: "region_wf r" using mm_wf_region [OF assms(1,2)] .
  have "in_region r (last_addr r)"
    using unat_last_addr [OF rwf] rwf by (auto simp: in_region_iff region_wf_def word_less_nat_alt)
  then have f: "find_region mm (last_addr r) = Some r"
    using find_region_eq [OF assms(1,2)] by simp
  have "last_addr r - rg_gpa r = rg_size r - 1" by (simp add: last_addr_def unchecked_add_def)
  then show ?thesis
    using f assms(3,4) by (simp add: store_def copy_to_def to_le_numeral)
qed

theorem store_overruns_region_witness:
  "\<exists>h'. store demo_mm (\<lambda>_. 0) 2 (0xABCD :: u16) 0x100000fff = Ok h' \<and> h' 0x12000 = 0xAB"
  using store_overruns_region [OF demo_mm_wf, of "mm_regions demo_mm ! 1" "0x11000" "\<lambda>_. 0" "0xABCD"]
  by (simp add: demo_mm_def last_addr_def unchecked_add_def perms_contain_def PERM_WRITE_def)

end
