(* ===== verification/Virtqueue.thy ===== *)
theory Virtqueue
  imports Guest_Memory
begin

text \<open>
  Split virtqueues (\<^verbatim>\<open>src/devices/virtio/queue.rs\<close>): descriptors in guest memory, chains of
  descriptors, the available and the used ring, and notification suppression.  Every operation
  takes the memory manager and the host heap; operations that write guest memory return the
  new heap.
\<close>

section \<open>Descriptors and used elements\<close>

datatype queue_error =
    AddressOverflow
  | GuestMemory mem_error
  | InvalidIndirectDescriptor
  | InvalidIndirectDescriptorTable
  | InvalidChain
  | InvalidDescriptorIndex
  | InvalidMaxSize
  | InvalidSize
  | InvalidDescTableAlign
  | InvalidAvailRingAlign
  | InvalidUsedRingAlign
  | InvalidAvailRingIndex
  | QueueNotReady
  | DescriptorChainOverflow
  | FindMemoryRegion
  | SplitOutOfBounds usize

record virtq_used_elem =
  ue_id :: u32
  ue_len :: u32

definition used_elem_bytes :: "virtq_used_elem \<Rightarrow> u8 list" where
  "used_elem_bytes e = to_le 4 (ue_id e) @ to_le 4 (ue_len e)"

definition VIRTQ_DESC_F_NEXT :: u16 where "VIRTQ_DESC_F_NEXT = 1"
definition VIRTQ_DESC_F_WRITE :: u16 where "VIRTQ_DESC_F_WRITE = 2"
definition VIRTQ_USED_RING_HEADER_SIZE :: u64 where "VIRTQ_USED_RING_HEADER_SIZE = 4"
definition VIRTQ_USED_ELEMENT_SIZE :: u64 where "VIRTQ_USED_ELEMENT_SIZE = 8"
definition VIRTQ_AVAIL_RING_HEADER_SIZE :: u64 where "VIRTQ_AVAIL_RING_HEADER_SIZE = 4"
definition VIRTQ_AVAIL_ELEMENT_SIZE :: u64 where "VIRTQ_AVAIL_ELEMENT_SIZE = 2"
definition VRING_USED_F_NO_NOTIFY :: u32 where "VRING_USED_F_NO_NOTIFY = 1"

lemmas virtq_consts = VIRTQ_DESC_F_NEXT_def VIRTQ_DESC_F_WRITE_def
  VIRTQ_USED_RING_HEADER_SIZE_def VIRTQ_USED_ELEMENT_SIZE_def VIRTQ_AVAIL_RING_HEADER_SIZE_def
  VIRTQ_AVAIL_ELEMENT_SIZE_def VRING_USED_F_NO_NOTIFY_def

record descriptor =
  d_addr :: u64
  d_len :: u32
  d_flags :: u16
  d_next :: u16

text \<open>The \<^verbatim>\<open>repr(C)\<close> layout: address, length, flags and next, without padding.\<close>

definition descriptor_of_bytes :: "u8 list \<Rightarrow> descriptor" where
  "descriptor_of_bytes bs =
     \<lparr>d_addr = from_le (take 8 bs), d_len = from_le (take 4 (drop 8 bs)),
      d_flags = from_le (take 2 (drop 12 bs)), d_next = from_le (take 2 (drop 14 bs))\<rparr>"

definition descriptor_bytes :: "descriptor \<Rightarrow> u8 list" where
  "descriptor_bytes d =
     to_le 8 (d_addr d) @ to_le 4 (d_len d) @ to_le 2 (d_flags d) @ to_le 2 (d_next d)"

lemma length_descriptor_bytes [simp]: "length (descriptor_bytes d) = 16"
  by (simp add: descriptor_bytes_def)

lemma descriptor_of_bytes_bytes [simp]: "descriptor_of_bytes (descriptor_bytes d) = d"
  by (simp add: descriptor_of_bytes_def descriptor_bytes_def le_bytes_roundtrip)

section \<open>Descriptor chains\<close>

record descriptor_chain =
  dc_desc_table :: guest_address
  dc_queue_size :: u16
  dc_ttl :: u16
  dc_index :: u16
  dc_addr :: guest_address
  dc_len :: u32
  dc_flags :: u16
  dc_next :: u16

definition has_next :: "descriptor_chain \<Rightarrow> bool" where
  "has_next c \<longleftrightarrow> dc_flags c AND VIRTQ_DESC_F_NEXT \<noteq> 0 \<and> 1 < dc_ttl c"

definition chain_is_valid :: "descriptor_chain \<Rightarrow> bool" where
  "chain_is_valid c \<longleftrightarrow> \<not> has_next c \<or> dc_next c < dc_queue_size c"

definition is_write_only :: "descriptor_chain \<Rightarrow> bool" where
  "is_write_only c \<longleftrightarrow> dc_flags c AND VIRTQ_DESC_F_WRITE \<noteq> 0"

definition is_read_only :: "descriptor_chain \<Rightarrow> bool" where
  "is_read_only c \<longleftrightarrow> dc_flags c AND VIRTQ_DESC_F_WRITE = 0"

definition checked_new ::
  "memory_manager \<Rightarrow> heap \<Rightarrow> guest_address \<Rightarrow> u16 \<Rightarrow> u16 \<Rightarrow> descriptor_chain option" where
  "checked_new mm h desc_table queue_size index =
     (if queue_size \<le> index then None
      else case checked_add desc_table (ucast index * 16) of
        None \<Rightarrow> None
      | Some desc_addr \<Rightarrow>
          (case read_obj mm h 16 descriptor_of_bytes desc_addr of
             Err _ \<Rightarrow> None
           | Ok desc \<Rightarrow>
               let chain = \<lparr>dc_desc_table = desc_table, dc_queue_size = queue_size,
                            dc_ttl = queue_size, dc_index = index, dc_addr = d_addr desc,
                            dc_len = d_len desc, dc_flags = d_flags desc,
                            dc_next = d_next desc\<rparr>
               in if chain_is_valid chain then Some chain else None))"

definition next_descriptor ::
  "memory_manager \<Rightarrow> heap \<Rightarrow> descriptor_chain \<Rightarrow> descriptor_chain option" where
  "next_descriptor mm h c =
     (if has_next c
      then map_option (\<lambda>c'. c'\<lparr>dc_ttl := dc_ttl c - 1\<rparr>)
             (checked_new mm h (dc_desc_table c) (dc_queue_size c) (dc_next c))
      else None)"

definition chain_descriptor :: "descriptor_chain \<Rightarrow> descriptor" where
  "chain_descriptor c =
     \<lparr>d_addr = dc_addr c, d_len = dc_len c, d_flags = dc_flags c, d_next = dc_next c\<rparr>"

lemma next_descriptor_ttl:
  "next_descriptor mm h c = Some c' \<Longrightarrow> dc_ttl c' = dc_ttl c - 1 \<and> 1 < dc_ttl c"
  by (auto simp: next_descriptor_def has_next_def split: if_splits)

lemma next_descriptor_unat_ttl:
  assumes "next_descriptor mm h c = Some c'"
  shows "unat (dc_ttl c') = unat (dc_ttl c) - 1" "1 < unat (dc_ttl c)"
proof -
  have c': "dc_ttl c' = dc_ttl c - 1" "1 < dc_ttl c" using next_descriptor_ttl [OF assms] by auto
  then show "1 < unat (dc_ttl c)" by (simp add: word_less_nat_alt)
  show "unat (dc_ttl c') = unat (dc_ttl c) - 1"
    using c' by (simp add: unat_sub word_less_nat_alt word_le_nat_alt)
qed

lemma next_descriptor_decreases:
  "next_descriptor mm h c = Some c' \<Longrightarrow> unat (dc_ttl c') < unat (dc_ttl c)"
  using next_descriptor_unat_ttl [of mm h c c'] by simp

text \<open>
  \<^verbatim>\<open>DescIter\<close> run to its end: the chain followed through \<^verbatim>\<open>next_descriptor\<close>.  The time to
  live of a chain is what makes the walk finite, whatever the guest wrote.
\<close>

function chain_iter :: "memory_manager \<Rightarrow> heap \<Rightarrow> descriptor_chain \<Rightarrow> descriptor_chain list" where
  "chain_iter mm h c =
     c # (case next_descriptor mm h c of None \<Rightarrow> [] | Some c' \<Rightarrow> chain_iter mm h c')"
  by pat_completeness auto
termination
  by (relation "measure (\<lambda>(mm, h, c). unat (dc_ttl c))")
    (auto dest: next_descriptor_decreases)

declare chain_iter.simps [simp del]

definition readable :: "descriptor_chain list \<Rightarrow> descriptor_chain list" where
  "readable cs = takeWhile is_read_only cs"

definition writable :: "descriptor_chain list \<Rightarrow> descriptor_chain list" where
  "writable cs = dropWhile is_read_only cs"

section \<open>The queue\<close>

record queue =
  q_max_size :: u16
  q_size :: u16
  q_ready :: bool
  q_desc_table :: guest_address
  q_avail_ring :: guest_address
  q_used_ring :: guest_address
  q_next_avail :: u16
  q_next_used :: u16
  q_event_idx_enabled :: bool
  q_num_added :: u16

definition queue_new :: "u16 \<Rightarrow> queue" where
  "queue_new max_size =
     \<lparr>q_max_size = max_size, q_size = 0, q_ready = False, q_desc_table = 0, q_avail_ring = 0,
      q_used_ring = 0, q_next_avail = 0, q_next_used = 0, q_event_idx_enabled = False,
      q_num_added = 0\<rparr>"

definition get_max_size :: "queue \<Rightarrow> u16" where
  "get_max_size q = q_max_size q"

definition actual_size :: "queue \<Rightarrow> u16" where
  "actual_size q = min (q_size q) (q_max_size q)"

definition queue_is_valid :: "memory_manager \<Rightarrow> queue \<Rightarrow> bool" where
  "queue_is_valid mm q =
     (let queue_size = ucast (actual_size q) :: u64;
          out_of_bounds = (\<lambda>base sz. case checked_add base sz of
                             None \<Rightarrow> True | Some v \<Rightarrow> \<not> address_in_range mm v)
      in if \<not> q_ready q then False
         else if q_max_size q < q_size q \<or> q_size q = 0 \<or> q_size q AND (q_size q - 1) \<noteq> 0 then False
         else if out_of_bounds (q_desc_table q) (16 * queue_size) then False
         else if out_of_bounds (q_avail_ring q) (6 + 2 * queue_size) then False
         else if out_of_bounds (q_used_ring q) (6 + 8 * queue_size) then False
         else if q_desc_table q AND 0xf \<noteq> 0 then False
         else if q_avail_ring q AND 0x1 \<noteq> 0 then False
         else if q_used_ring q AND 0x3 \<noteq> 0 then False
         else True)"

definition avail_idx :: "memory_manager \<Rightarrow> heap \<Rightarrow> queue \<Rightarrow> (queue_error, u16) result" where
  "avail_idx mm h q =
     (case checked_add (q_avail_ring q) 2 of
        None \<Rightarrow> Err AddressOverflow
      | Some addr \<Rightarrow> map_err GuestMemory (load mm h 2 addr))"

definition queue_len :: "memory_manager \<Rightarrow> heap \<Rightarrow> queue \<Rightarrow> u16 panics" where
  "queue_len mm h q =
     (case avail_idx mm h q of Err _ \<Rightarrow> None | Ok idx \<Rightarrow> Some (idx - q_next_avail q))"

definition queue_is_empty :: "memory_manager \<Rightarrow> heap \<Rightarrow> queue \<Rightarrow> bool panics" where
  "queue_is_empty mm h q = map_option (\<lambda>n. n = 0) (queue_len mm h q)"

definition pop ::
  "memory_manager \<Rightarrow> heap \<Rightarrow> queue \<Rightarrow> (queue \<times> descriptor_chain option) panics" where
  "pop mm h q =
     (case queue_len mm h q of
        None \<Rightarrow> None
      | Some n \<Rightarrow>
          if n = 0 \<or> actual_size q = 0 then Some (q, None)
          else let index_offset = 4 + 2 * (q_next_avail q mod actual_size q)
               in case read_obj mm h 2 from_le (unchecked_add (q_avail_ring q) (ucast index_offset)) of
                    Err _ \<Rightarrow> None
                  | Ok desc_index \<Rightarrow>
                      (case checked_new mm h (q_desc_table q) (actual_size q) desc_index of
                         None \<Rightarrow> Some (q, None)
                       | Some c \<Rightarrow> Some (q\<lparr>q_next_avail := q_next_avail q + 1\<rparr>, Some c)))"

definition undo_pop :: "queue \<Rightarrow> queue" where
  "undo_pop q = q\<lparr>q_next_avail := q_next_avail q - 1\<rparr>"

definition go_to_previous_position :: "queue \<Rightarrow> queue" where
  "go_to_previous_position q = q\<lparr>q_next_avail := q_next_avail q - 1\<rparr>"

text \<open>
  \<^verbatim>\<open>add_used\<close> ignores the outcome of writing the element (the \<^verbatim>\<open>map_err\<close> result is dropped),
  advances its counters and then publishes the new index.
\<close>

definition add_used ::
  "memory_manager \<Rightarrow> heap \<Rightarrow> queue \<Rightarrow> u16 \<Rightarrow> u32 \<Rightarrow> queue \<times> heap \<times> (queue_error, unit) result" where
  "add_used mm h q head_index len =
     (if q_size q \<le> head_index then (q, h, Err InvalidDescriptorIndex)
      else
        let next_used_index = ucast (q_next_used q mod q_size q) :: u64;
            offset = VIRTQ_USED_RING_HEADER_SIZE + next_used_index * VIRTQ_USED_ELEMENT_SIZE
        in case checked_add (q_used_ring q) offset of
             None \<Rightarrow> (q, h, Err AddressOverflow)
           | Some addr \<Rightarrow>
               let elem = \<lparr>ue_id = ucast head_index, ue_len = len\<rparr>;
                   h1 = (case write_obj mm h used_elem_bytes elem addr of
                           Err _ \<Rightarrow> h | Ok h' \<Rightarrow> h');
                   q1 = q\<lparr>q_next_used := q_next_used q + 1, q_num_added := q_num_added q + 1\<rparr>
               in case checked_add (q_used_ring q) 2 of
                    None \<Rightarrow> (q1, h1, Err AddressOverflow)
                  | Some idx_addr \<Rightarrow>
                      (case store mm h1 2 (q_next_used q1) idx_addr of
                         Err e \<Rightarrow> (q1, h1, Err (GuestMemory e))
                       | Ok h2 \<Rightarrow> (q1, h2, Ok ())))"

definition used_event :: "memory_manager \<Rightarrow> heap \<Rightarrow> queue \<Rightarrow> (queue_error, u16) result" where
  "used_event mm h q =
     (let used_event_offset =
            VIRTQ_AVAIL_RING_HEADER_SIZE + ucast (q_size q) * VIRTQ_AVAIL_ELEMENT_SIZE
      in case checked_add (q_avail_ring q) used_event_offset of
           None \<Rightarrow> Err AddressOverflow
         | Some addr \<Rightarrow> map_err GuestMemory (load mm h 2 addr))"

definition set_avail_event ::
  "memory_manager \<Rightarrow> heap \<Rightarrow> queue \<Rightarrow> u16 \<Rightarrow> (queue_error, heap) result" where
  "set_avail_event mm h q val =
     (let avail_event_offset =
            VIRTQ_USED_RING_HEADER_SIZE + VIRTQ_USED_ELEMENT_SIZE * ucast (q_size q)
      in case checked_add (q_used_ring q) avail_event_offset of
           None \<Rightarrow> Err AddressOverflow
         | Some addr \<Rightarrow> map_err GuestMemory (store mm h 2 val addr))"

definition set_event_idx :: "queue \<Rightarrow> bool \<Rightarrow> queue" where
  "set_event_idx q enabled = q\<lparr>q_event_idx_enabled := enabled\<rparr>"

definition set_used_flags ::
  "memory_manager \<Rightarrow> heap \<Rightarrow> queue \<Rightarrow> u16 \<Rightarrow> (queue_error, heap) result" where
  "set_used_flags mm h q val = map_err GuestMemory (store mm h 2 val (q_used_ring q))"

definition set_notification ::
  "memory_manager \<Rightarrow> heap \<Rightarrow> queue \<Rightarrow> bool \<Rightarrow> (queue_error, heap) result" where
  "set_notification mm h q enable =
     (if enable then
        (if q_event_idx_enabled q then set_avail_event mm h q (q_next_avail q)
         else set_used_flags mm h q 0)
      else if \<not> q_event_idx_enabled q then set_used_flags mm h q (ucast VRING_USED_F_NO_NOTIFY)
      else Ok h)"

definition enable_notification ::
  "memory_manager \<Rightarrow> heap \<Rightarrow> queue \<Rightarrow> heap \<times> (queue_error, bool) result" where
  "enable_notification mm h q =
     (case set_notification mm h q True of
        Err e \<Rightarrow> (h, Err e)
      | Ok h' \<Rightarrow>
          (h', case avail_idx mm h' q of
                 Err e \<Rightarrow> Err e
               | Ok idx \<Rightarrow> Ok (idx \<noteq> q_next_avail q)))"

definition disable_notification ::
  "memory_manager \<Rightarrow> heap \<Rightarrow> queue \<Rightarrow> (queue_error, heap) result" where
  "disable_notification mm h q = set_notification mm h q False"

definition needs_notification ::
  "memory_manager \<Rightarrow> heap \<Rightarrow> queue \<Rightarrow> queue \<times> (queue_error, bool) result" where
  "needs_notification mm h q =
     (let used_idx = q_next_used q
      in if q_event_idx_enabled q then
           (case used_event mm h q of
              Err e \<Rightarrow> (q, Err e)
            | Ok ev \<Rightarrow>
                let old = used_idx - q_num_added q
                in (q\<lparr>q_num_added := 0\<rparr>, Ok (used_idx - ev - 1 < used_idx - old)))
         else (q, Ok True))"

section \<open>Chains\<close>

lemma checked_new_Some:
  assumes "checked_new mm h t n i = Some c"
  shows "dc_desc_table c = t" "dc_queue_size c = n" "dc_ttl c = n" "dc_index c = i" "i < n"
    "chain_is_valid c"
  using assms by (auto simp: checked_new_def Let_def split: if_splits option.splits result.splits)

lemma next_descriptor_Some:
  assumes "next_descriptor mm h c = Some c'"
  shows "dc_desc_table c' = dc_desc_table c" "dc_queue_size c' = dc_queue_size c"
    "dc_index c' = dc_next c" "dc_index c' < dc_queue_size c"
proof -
  obtain z where z: "checked_new mm h (dc_desc_table c) (dc_queue_size c) (dc_next c) = Some z"
    and c': "c' = z\<lparr>dc_ttl := dc_ttl c - 1\<rparr>"
    using assms by (auto simp: next_descriptor_def split: if_splits)
  show "dc_desc_table c' = dc_desc_table c" "dc_queue_size c' = dc_queue_size c"
    "dc_index c' = dc_next c" "dc_index c' < dc_queue_size c"
    using checked_new_Some [OF z] c' by simp_all
qed

lemma length_chain_iter: "0 < dc_ttl c \<Longrightarrow> length (chain_iter mm h c) \<le> unat (dc_ttl c)"
proof (induction mm h c rule: chain_iter.induct)
  case (1 mm h c)
  show ?case
  proof (cases "next_descriptor mm h c")
    case None
    then show ?thesis using 1(2) by (simp add: chain_iter.simps [of mm h c] word_less_nat_alt Suc_leI)
  next
    case (Some c')
    note t = next_descriptor_unat_ttl [OF Some]
    then have "0 < dc_ttl c'" by (simp add: word_less_nat_alt)
    then have "length (chain_iter mm h c') \<le> unat (dc_ttl c')" using 1(1) [OF Some] by simp
    then show ?thesis using t Some by (simp add: chain_iter.simps [of mm h c])
  qed
qed

lemma chain_iter_fields:
  "d \<in> set (chain_iter mm h c) \<Longrightarrow> dc_index c < dc_queue_size c \<Longrightarrow>
   dc_desc_table d = dc_desc_table c \<and> dc_queue_size d = dc_queue_size c \<and>
   dc_index d < dc_queue_size c"
proof (induction mm h c rule: chain_iter.induct)
  case (1 mm h c)
  show ?case
  proof (cases "next_descriptor mm h c")
    case None
    then show ?thesis using 1 by (simp add: chain_iter.simps [of mm h c])
  next
    case (Some c')
    then show ?thesis
      using 1(1) [OF Some] 1(2,3) next_descriptor_Some [OF Some]
      by (auto simp: chain_iter.simps [of mm h c])
  qed
qed

section \<open>Notification window\<close>

lemma event_window:
  fixes a e n :: "'a::len word"
  shows "a - e - 1 < a - (a - n) \<longleftrightarrow> (\<exists>k < unat n. e = a - n + of_nat k)"
proof
  assume lt: "a - e - 1 < a - (a - n)"
  define d where "d = a - e - 1"
  have d: "unat d < unat n" using lt by (simp add: d_def word_less_nat_alt)
  let ?k = "unat n - 1 - unat d"
  have "of_nat ?k = n - 1 - d" using d by (simp add: of_nat_diff)
  then have "a - n + of_nat ?k = e" by (simp add: d_def)
  moreover have "?k < unat n" using d by simp
  ultimately show "\<exists>k < unat n. e = a - n + of_nat k" by metis
next
  assume "\<exists>k < unat n. e = a - n + of_nat k"
  then obtain k where k: "k < unat n" and e: "e = a - n + of_nat k" by blast
  have "a - e - 1 = of_nat (unat n - 1 - k)" using k e by (simp add: of_nat_diff)
  moreover have "unat n < 2 ^ LENGTH('a)" by (rule unsigned_less)
  then have "unat n - 1 - k < 2 ^ LENGTH('a)" by (intro less_imp_diff_less)
  ultimately have "unat (a - e - 1) = unat n - 1 - k" by (simp add: unat_of_nat_small)
  then show "a - e - 1 < a - (a - n)" using k by (simp add: word_less_nat_alt)
qed

section \<open>The available ring as a list of pending heads\<close>

definition avail_slot :: "queue \<Rightarrow> u16 \<Rightarrow> guest_address" where
  "avail_slot q k = unchecked_add (q_avail_ring q) (ucast (4 + 2 * (k mod actual_size q)))"

definition avail_entry :: "memory_manager \<Rightarrow> heap \<Rightarrow> queue \<Rightarrow> u16 \<Rightarrow> (mem_error, u16) result" where
  "avail_entry mm h q k = read_obj mm h 2 from_le (avail_slot q k)"

definition pending :: "memory_manager \<Rightarrow> heap \<Rightarrow> queue \<Rightarrow> (mem_error, u16) result list" where
  "pending mm h q =
     (case queue_len mm h q of
        None \<Rightarrow> []
      | Some n \<Rightarrow> map (\<lambda>i. avail_entry mm h q (q_next_avail q + of_nat i)) [0..<unat n])"

lemma actual_size_next [simp]: "actual_size (q\<lparr>q_next_avail := k\<rparr>) = actual_size q"
  by (simp add: actual_size_def)

lemma avail_entry_next [simp]: "avail_entry mm h (q\<lparr>q_next_avail := k\<rparr>) = avail_entry mm h q"
  by (simp add: avail_entry_def avail_slot_def fun_eq_iff)

lemma queue_len_next:
  "queue_len mm h q = Some n \<Longrightarrow>
   queue_len mm h (q\<lparr>q_next_avail := q_next_avail q + 1\<rparr>) = Some (n - 1)"
  by (auto simp: queue_len_def avail_idx_def algebra_simps split: result.splits)

lemma pop_Some:
  assumes "pop mm h q = Some (q', Some c)"
  obtains n where "queue_len mm h q = Some n" "n \<noteq> 0" "actual_size q \<noteq> 0"
    "avail_entry mm h q (q_next_avail q) = Ok (dc_index c)"
    "checked_new mm h (q_desc_table q) (actual_size q) (dc_index c) = Some c"
    "q' = q\<lparr>q_next_avail := q_next_avail q + 1\<rparr>"
proof -
  obtain n i where "queue_len mm h q = Some n" "n \<noteq> 0" "actual_size q \<noteq> 0"
    "avail_entry mm h q (q_next_avail q) = Ok i"
    "checked_new mm h (q_desc_table q) (actual_size q) i = Some c"
    "q' = q\<lparr>q_next_avail := q_next_avail q + 1\<rparr>"
    using assms
    by (auto simp: pop_def Let_def avail_entry_def avail_slot_def
        split: option.splits if_splits result.splits)
  then show ?thesis using that checked_new_Some(4) by metis
qed

lemma pop_ttl: "pop mm h q = Some (q', Some c) \<Longrightarrow> 0 < dc_ttl c"
  using pop_Some [of mm h q q' c] checked_new_Some by (metis word_gt_0 word_not_simps(1))

lemma pop_None_same: "pop mm h q = Some (q', None) \<Longrightarrow> q' = q"
  by (auto simp: pop_def Let_def split: option.splits if_splits result.splits)

lemma pending_Cons:
  assumes "queue_len mm h q = Some n" "n \<noteq> 0"
  shows "pending mm h q = avail_entry mm h q (q_next_avail q)
           # pending mm h (q\<lparr>q_next_avail := q_next_avail q + 1\<rparr>)"
proof -
  obtain m where m: "unat n = Suc m" using assms(2) by (cases "unat n") (auto simp: unat_eq_zero)
  have "1 \<le> n" using m by (simp add: word_le_nat_alt)
  then have n1: "unat (n - 1) = m" using m by (simp add: unat_sub)
  have "[0..<Suc m] = 0 # map Suc [0..<m]" by (simp add: map_Suc_upt upt_conv_Cons)
  then show ?thesis
    using assms(1) m n1 queue_len_next [OF assms(1)]
    by (simp add: pending_def comp_def add.assoc)
qed

section \<open>The used ring\<close>

definition used_slot :: "queue \<Rightarrow> u16 \<Rightarrow> guest_address" where
  "used_slot q k = q_used_ring q + (4 + ucast (k mod q_size q) * 8)"

lemma unat_mod_size: "n \<noteq> 0 \<Longrightarrow> unat (k mod n) < unat (n :: u16)"
  by (simp add: unat_mod unat_gt_0)

lemma add_used_success:
  assumes wf: "mm_wf mm" and acc: "access_ok mm (q_used_ring q) (6 + 8 * unat (q_size q)) r p"
    and w: "perms_contain (rg_perms r) PERM_WRITE" and hd: "head_index < q_size q"
  shows "\<exists>h'. add_used mm h q head_index len =
      (q\<lparr>q_next_used := q_next_used q + 1, q_num_added := q_num_added q + 1\<rparr>, h', Ok ()) \<and>
    guest_view mm h' =
      view_update (view_update (guest_view mm h) (used_slot q (q_next_used q))
          (used_elem_bytes \<lparr>ue_id = ucast head_index, ue_len = len\<rparr>))
        (q_used_ring q + 2) (to_le 2 (q_next_used q + 1))"
proof -
  let ?U = "q_used_ring q" and ?S = "unat (q_size q)"
  let ?bs = "used_elem_bytes \<lparr>ue_id = ucast head_index, ue_len = len\<rparr>"
  define k where "k = unat (q_next_used q mod q_size q)"
  have S: "q_size q \<noteq> 0" using hd by auto
  have k: "k < ?S" unfolding k_def using S by (rule unat_mod_size)
  have len: "length ?bs = 8" by (simp add: used_elem_bytes_def)
  have bound: "unat ?U + (6 + 8 * ?S) \<le> 2 ^ 63"
    using acc wf by (auto simp: access_ok_def region_wf_def dest!: find_regionD(1) mm_wf_region [OF wf])
  have off: "(4 + ucast (q_next_used q mod q_size q) * 8 :: u64) = of_nat (4 + 8 * k)"
    by (simp add: k_def mult.commute)
  have ca: "checked_add ?U (of_nat (4 + 8 * k)) = Some (?U + of_nat (4 + 8 * k))"
    using bound k by (auto simp: checked_add_Some unat_of_nat unat_word_ariths)
  have ci: "checked_add ?U 2 = Some (?U + 2)"
    using bound by (auto simp: checked_add_Some unat_word_ariths)
  have acc1: "access_ok mm (?U + of_nat (4 + 8 * k)) (Suc (length ?bs)) r p"
    by (rule access_ok_sub [OF wf acc]) (use k len in simp_all)
  let ?h1 = "copy_to h (host_addr r p (?U + of_nat (4 + 8 * k))) ?bs"
  have w1: "write_guest_memory mm h ?bs (?U + of_nat (4 + 8 * k)) = Ok ?h1"
    using write_guest_memory_success [OF wf acc1 _ w] len by simp
  have acc2: "access_ok mm (?U + 2) 2 r p"
    using access_ok_sub [OF wf acc, of 2 2] by simp
  let ?v = "q_next_used q + 1"
  let ?h2 = "copy_to ?h1 (host_addr r p (?U + 2)) (to_le 2 ?v)"
  have w2: "store mm ?h1 2 ?v (?U + 2) = Ok ?h2" by (rule store_success [OF acc2 w])
  have slot: "?U + of_nat (4 + 8 * k) = used_slot q (q_next_used q)"
    by (simp only: used_slot_def off)
  have v1: "guest_view mm ?h1 = view_update (guest_view mm h) (used_slot q (q_next_used q)) ?bs"
    using guest_view_copy_to [OF wf access_ok_less [OF acc1], of ?bs h] by (simp only: slot)
  have "guest_view mm ?h2 = view_update (guest_view mm ?h1) (?U + 2) (to_le 2 ?v)"
    using guest_view_copy_to [OF wf] acc2 by simp
  then have view: "guest_view mm ?h2 = view_update (view_update (guest_view mm h)
      (used_slot q (q_next_used q)) ?bs) (?U + 2) (to_le 2 ?v)" by (simp only: v1)
  have "add_used mm h q head_index len =
      (q\<lparr>q_next_used := ?v, q_num_added := q_num_added q + 1\<rparr>, ?h2, Ok ())"
    using hd ca ci w1 w2 by (simp add: add_used_def virtq_consts off write_obj_def Let_def not_le)
  then show ?thesis using view by blast
qed

section \<open>Properties\<close>

text \<open>
  A queue for the witnesses: four descriptors at \<open>0x100\<close>, the available ring at \<open>0x200\<close>, the
  used ring at \<open>0x300\<close>.  One chain is available: descriptor 1, linked to descriptor 2.
\<close>

definition demo_queue :: queue where
  "demo_queue = \<lparr>q_max_size = 4, q_size = 4, q_ready = True, q_desc_table = 0x100,
     q_avail_ring = 0x200, q_used_ring = 0x300, q_next_avail = 0, q_next_used = 0,
     q_event_idx_enabled = True, q_num_added = 0\<rparr>"

definition demo_heap :: heap where
  "demo_heap = copy_to (copy_to (copy_to (\<lambda>_. 0)
     0x10110 (descriptor_bytes \<lparr>d_addr = 0x400, d_len = 16, d_flags = 1, d_next = 2\<rparr>))
     0x10120 (descriptor_bytes \<lparr>d_addr = 0x500, d_len = 16, d_flags = 2, d_next = 0\<rparr>))
     0x10200 [0, 0, 1, 0, 1, 0]"

definition demo_chain :: descriptor_chain where
  "demo_chain = \<lparr>dc_desc_table = 0x100, dc_queue_size = 4, dc_ttl = 4, dc_index = 1,
     dc_addr = 0x400, dc_len = 16, dc_flags = 1, dc_next = 2\<rparr>"

lemma demo_desc:
  "copy_from demo_heap 0x10110 16 =
     descriptor_bytes \<lparr>d_addr = 0x400, d_len = 16, d_flags = 1, d_next = 2\<rparr>"
  "copy_from demo_heap 0x10120 16 =
     descriptor_bytes \<lparr>d_addr = 0x500, d_len = 16, d_flags = 2, d_next = 0\<rparr>"
  by (simp_all add: demo_heap_def copy_to_def copy_from_def descriptor_bytes_def upt_rec
      to_le_numeral unat_minus_one_u64)

lemma demo_ring: "copy_from demo_heap 0x10202 2 = [1, 0]" "copy_from demo_heap 0x10204 2 = [1, 0]"
  by (simp_all add: demo_heap_def copy_to_def copy_from_def descriptor_bytes_def upt_rec)

lemmas queue_eval = queue_len_def avail_idx_def load_def read_obj_def read_guest_memory_def
  checked_new_def checked_add_def actual_size_def chain_is_valid_def has_next_def virtq_consts
  Let_def word_le_nat_alt word_less_nat_alt demo_eval demo_queue_def demo_chain_def

lemma demo_pop:
  "pop demo_mm demo_heap demo_queue =
     Some (demo_queue\<lparr>q_next_avail := 1\<rparr>, Some demo_chain)"
  by (simp add: pop_def queue_eval demo_ring demo_desc)

lemma demo_chain_iter: "map dc_index (chain_iter demo_mm demo_heap demo_chain) = [1, 2]"
  by (simp add: chain_iter.simps next_descriptor_def queue_eval demo_desc)

text \<open>
  C8.  Popping a chain takes the oldest entry of the available ring: the chain starts at the
  descriptor the driver put there, the remaining entries are pending in the same order, and
  \<^verbatim>\<open>undo_pop\<close> gives the queue back as it was.
\<close>

theorem pop_takes_oldest:
  assumes "pop mm h q = Some (q', Some c)"
  shows "pending mm h q = Ok (dc_index c) # pending mm h q' \<and>
    checked_new mm h (q_desc_table q) (actual_size q) (dc_index c) = Some c \<and>
    undo_pop q' = q"
proof -
  obtain n where n: "queue_len mm h q = Some n" "n \<noteq> 0"
    "avail_entry mm h q (q_next_avail q) = Ok (dc_index c)"
    "checked_new mm h (q_desc_table q) (actual_size q) (dc_index c) = Some c"
    "q' = q\<lparr>q_next_avail := q_next_avail q + 1\<rparr>"
    using pop_Some [OF assms] by metis
  then show ?thesis using pending_Cons [OF n(1,2)] by (simp add: undo_pop_def)
qed

theorem pop_takes_oldest_witness:
  "pending demo_mm demo_heap demo_queue = [Ok 1] \<and>
   undo_pop (demo_queue\<lparr>q_next_avail := 1\<rparr>) = demo_queue"
proof -
  have "pending demo_mm demo_heap (demo_queue\<lparr>q_next_avail := 1\<rparr>) = []"
    by (simp add: pending_def queue_eval demo_ring)
  then show ?thesis using pop_takes_oldest [OF demo_pop] by (simp add: demo_chain_def)
qed

text \<open>
  C9.  Walking a popped chain always ends, after at most as many descriptors as the queue
  holds, even if the guest links its descriptors into a cycle; every descriptor visited lies
  in the table, and each one is seen by exactly one of the reader (the readable prefix) and
  the writer (the rest).
\<close>

theorem chain_walk_bounded:
  assumes "pop mm h q = Some (q', Some c)"
  shows "length (chain_iter mm h c) \<le> unat (actual_size q) \<and>
    (\<forall>d \<in> set (chain_iter mm h c). dc_index d < actual_size q \<and> dc_desc_table d = q_desc_table q) \<and>
    readable (chain_iter mm h c) @ writable (chain_iter mm h c) = chain_iter mm h c"
proof -
  have c: "checked_new mm h (q_desc_table q) (actual_size q) (dc_index c) = Some c"
    using pop_Some [OF assms] by metis
  note cD = checked_new_Some [OF c]
  have "0 < dc_ttl c" using cD by (auto simp: word_greater_zero_iff)
  then have "length (chain_iter mm h c) \<le> unat (actual_size q)"
    using length_chain_iter [of c mm h] cD by simp
  moreover have "\<forall>d \<in> set (chain_iter mm h c).
      dc_index d < actual_size q \<and> dc_desc_table d = q_desc_table q"
    using chain_iter_fields [of _ mm h c] cD by auto
  ultimately show ?thesis by (simp add: readable_def writable_def)
qed

theorem chain_walk_bounded_witness:
  "map dc_index (chain_iter demo_mm demo_heap demo_chain) = [1, 2] \<and>
   length (chain_iter demo_mm demo_heap demo_chain) \<le> unat (actual_size demo_queue)"
  using demo_chain_iter chain_walk_bounded [OF demo_pop] by simp

text \<open>
  C10.  Returning a chain: when the used ring lies in writable RAM, \<^verbatim>\<open>add_used\<close> succeeds,
  advances both counters by one, stores the element (head index and length) in the slot the
  ring index selects and then publishes the new index; nothing else in guest memory changes.
\<close>

theorem add_used_publishes:
  assumes "mm_wf mm" "access_ok mm (q_used_ring q) (6 + 8 * unat (q_size q)) r p"
    and "perms_contain (rg_perms r) PERM_WRITE" "head_index < q_size q"
  shows "\<exists>h'. add_used mm h q head_index len =
      (q\<lparr>q_next_used := q_next_used q + 1, q_num_added := q_num_added q + 1\<rparr>, h', Ok ()) \<and>
    guest_view mm h' =
      view_update (view_update (guest_view mm h) (used_slot q (q_next_used q))
          (used_elem_bytes \<lparr>ue_id = ucast head_index, ue_len = len\<rparr>))
        (q_used_ring q + 2) (to_le 2 (q_next_used q + 1))"
  by (rule add_used_success [OF assms])

theorem add_used_publishes_witness:
  "\<exists>h'. add_used demo_mm demo_heap demo_queue 1 9 =
     (demo_queue\<lparr>q_next_used := 1, q_num_added := 1\<rparr>, h', Ok ())"
proof -
  have "access_ok demo_mm (q_used_ring demo_queue) (6 + 8 * unat (q_size demo_queue))
      (mm_regions demo_mm ! 0) 0x10000"
    by (simp add: demo_mm_def demo_queue_def access_ok_def find_region_def start_addr_def
        last_addr_def unchecked_add_def)
  moreover have "perms_contain (rg_perms (mm_regions demo_mm ! 0)) PERM_WRITE"
    by (simp add: demo_mm_def perms_contain_def PERM_WRITE_def)
  moreover have "1 < q_size demo_queue" by (simp add: demo_queue_def)
  ultimately show ?thesis
    using add_used_publishes [OF demo_mm_wf, of demo_queue "mm_regions demo_mm ! 0" "0x10000" 1
        demo_heap 9]
    by (auto simp: demo_queue_def)
qed

text \<open>
  \<^verbatim>\<open>add_used\<close> reports success although the used element was not written: the error of
  writing it is dropped, the index is advanced and published all the same.
\<close>

theorem add_used_drops_write_error:
  assumes "head_index < q_size q" "checked_add (q_used_ring q) 2 = Some (q_used_ring q + 2)"
    and "checked_add (q_used_ring q) (4 + ucast (q_next_used q mod q_size q) * 8) = Some a"
    and "write_guest_memory mm h (used_elem_bytes \<lparr>ue_id = ucast head_index, ue_len = len\<rparr>) a = Err e"
    and "store mm h 2 (q_next_used q + 1) (q_used_ring q + 2) = Ok h'"
  shows "add_used mm h q head_index len =
    (q\<lparr>q_next_used := q_next_used q + 1, q_num_added := q_num_added q + 1\<rparr>, h', Ok ())"
  using assms by (simp add: add_used_def virtq_consts write_obj_def Let_def not_le)

theorem add_used_drops_write_error_witness:
  "\<exists>h'. write_guest_memory demo_mm demo_heap (used_elem_bytes \<lparr>ue_id = 1, ue_len = 9\<rparr>) 0xffc =
       Err CodeExceedsMemory \<and>
     add_used demo_mm demo_heap (demo_queue\<lparr>q_used_ring := 0xff8\<rparr>) 1 9 =
       (demo_queue\<lparr>q_used_ring := 0xff8, q_next_used := 1, q_num_added := 1\<rparr>, h', Ok ())"
proof -
  let ?q = "demo_queue\<lparr>q_used_ring := 0xff8\<rparr>"
  have s: "store demo_mm demo_heap 2 (q_next_used ?q + 1) (q_used_ring ?q + 2) =
      Ok (copy_to demo_heap 0x10ffa [1, 0])"
    by (simp add: store_def demo_queue_def demo_mm_def find_region_def start_addr_def last_addr_def
        unchecked_add_def perms_contain_def PERM_WRITE_def to_le_numeral)
  have w: "write_guest_memory demo_mm demo_heap
      (used_elem_bytes \<lparr>ue_id = ucast (1 :: u16), ue_len = 9\<rparr>) 0xffc = Err CodeExceedsMemory"
    by (simp add: write_guest_memory_def used_elem_bytes_def demo_mm_def find_region_def
        start_addr_def last_addr_def unchecked_add_def)
  show ?thesis
    using add_used_drops_write_error [OF _ _ _ w s] w
    by (simp add: demo_queue_def checked_add_def)
qed

text \<open>
  Interrupt suppression with \<^verbatim>\<open>VIRTIO_F_EVENT_IDX\<close>: a notification is due exactly when
  the event index the driver published is one of the used-ring positions filled since the
  last check, counted modulo \<open>2^16\<close>; the count of added elements is then reset.  Without the
  feature a notification is always due.
\<close>

theorem needs_notification_window:
  "needs_notification mm h q =
     (if q_event_idx_enabled q then
        (case used_event mm h q of
           Err e \<Rightarrow> (q, Err e)
         | Ok ev \<Rightarrow>
             (q\<lparr>q_num_added := 0\<rparr>,
              Ok (\<exists>k < unat (q_num_added q). ev = q_next_used q - q_num_added q + of_nat k)))
      else (q, Ok True))"
  using event_window [of "q_next_used q" _ "q_num_added q"]
  by (auto simp: needs_notification_def Let_def split: result.split)

text \<open>
  A queue that passes \<^verbatim>\<open>is_valid\<close> is ready, its size is a power of two within the
  device's maximum, its rings have the alignment the virtio specification asks for, and the
  byte just after each ring is mapped.
\<close>

theorem queue_is_valid_sound:
  assumes "queue_is_valid mm q"
  shows "q_ready q \<and> q_size q \<le> q_max_size q \<and> (\<exists>k < 16. q_size q = 2 ^ k) \<and>
    actual_size q = q_size q \<and>
    q_desc_table q AND 0xf = 0 \<and> q_avail_ring q AND 1 = 0 \<and> q_used_ring q AND 3 = 0 \<and>
    address_in_range mm (q_desc_table q + 16 * ucast (q_size q)) \<and>
    address_in_range mm (q_avail_ring q + (6 + 2 * ucast (q_size q))) \<and>
    address_in_range mm (q_used_ring q + (6 + 8 * ucast (q_size q)))"
proof -
  have le: "q_size q \<le> q_max_size q" and nz: "q_size q \<noteq> 0" "q_size q AND (q_size q - 1) = 0"
    using assms by (auto simp: queue_is_valid_def Let_def split: if_splits)
  then have act: "actual_size q = q_size q" by (simp add: actual_size_def min_def)
  have "\<exists>k < 16. q_size q = 2 ^ k" using power_of_two_word [OF nz] by simp
  then show ?thesis
    using assms le act
    by (auto simp: queue_is_valid_def Let_def checked_add_Some split: if_splits option.splits)
qed

theorem queue_is_valid_sound_witness:
  "queue_is_valid demo_mm demo_queue \<and> (\<exists>k < 16. q_size demo_queue = 2 ^ k)"
proof -
  have v: "queue_is_valid demo_mm demo_queue"
    by (simp add: queue_is_valid_def actual_size_def address_in_range_def Let_def checked_add_def
        demo_eval demo_queue_def)
  show ?thesis using v queue_is_valid_sound [OF v] by blast
qed

end
