(* ===== verification/File_Traits.thy ===== *)
theory File_Traits
  imports Guest_Memory
begin

text \<open>
  Volatile slices and volatile file I/O: the slice offset of
  \<^verbatim>\<open>vm-memory/src/volatile_memory.rs\<close> and the traits of \<^verbatim>\<open>src/devices/file_traits.rs\<close> with their
  default methods and their implementation for \<^verbatim>\<open>std::fs::File\<close>.

  A file is a value of an abstract type \<open>'f\<close>; the calls into Windows (\<^verbatim>\<open>ReadFile\<close>,
  \<^verbatim>\<open>WriteFile\<close>) are function parameters.  The specification of a list of slices is the list of
  the host addresses it covers, \<open>flat\<close>; writing bytes through it is \<open>poke\<close>.
\<close>

section \<open>Slices\<close>

datatype io_error = UnexpectedEof | WriteZero | InvalidData | Interrupted | OsError u32

datatype volatile_error = VolOutOfBounds u64 | VolOverflow u64 nat

definition vs_offset :: "volatile_slice \<Rightarrow> nat \<Rightarrow> (volatile_error, volatile_slice) result" where
  "vs_offset vs count =
     (if 2 ^ 64 \<le> unat (vs_addr vs) + count then Err (VolOverflow (vs_addr vs) count)
      else if vs_len vs < count then Err (VolOutOfBounds (vs_addr vs + of_nat count))
      else Ok \<lparr>vs_addr = vs_addr vs + of_nat count, vs_len = vs_len vs - count\<rparr>)"

definition vs_is_empty :: "volatile_slice \<Rightarrow> bool" where
  "vs_is_empty vs \<longleftrightarrow> vs_len vs = 0"

section \<open>Default methods\<close>

text \<open>
  One operation on a slice, as a trait implementation provides it: it takes the file and the
  heap and returns both with the number of bytes transferred.
\<close>

type_synonym 'f slice_op = "volatile_slice \<Rightarrow> 'f \<Rightarrow> heap \<Rightarrow> 'f \<times> heap \<times> (io_error, nat) result"
type_synonym 'f slice_at_op =
  "volatile_slice \<Rightarrow> u64 \<Rightarrow> 'f \<Rightarrow> heap \<Rightarrow> 'f \<times> heap \<times> (io_error, nat) result"

text \<open>The default vectored methods use the first non-empty slice, or the first slice.\<close>

definition default_vectored_volatile ::
  "'f slice_op \<Rightarrow> volatile_slice list \<Rightarrow> 'f \<Rightarrow> heap \<Rightarrow> 'f \<times> heap \<times> (io_error, nat) result" where
  "default_vectored_volatile op bufs f h =
     (case find (\<lambda>b. \<not> vs_is_empty b) bufs of
        None \<Rightarrow> (f, h, Ok 0)
      | Some b \<Rightarrow> op b f h)"

definition default_vectored_at_volatile ::
  "'f slice_at_op \<Rightarrow> volatile_slice list \<Rightarrow> u64 \<Rightarrow> 'f \<Rightarrow> heap \<Rightarrow>
   'f \<times> heap \<times> (io_error, nat) result" where
  "default_vectored_at_volatile op bufs offset f h =
     (case bufs of
        [] \<Rightarrow> (f, h, Ok 0)
      | b # _ \<Rightarrow> op b offset f h)"

text \<open>
  \<^verbatim>\<open>read_exact_volatile\<close> and \<^verbatim>\<open>write_all_volatile\<close> differ in the operation and in the error
  for a transfer of no bytes.  Each round shortens the slice, or the loop is left; the outer
  \<open>None\<close> is the panic of the \<^verbatim>\<open>unwrap\<close>.
\<close>

function whole_slice_volatile ::
  "io_error \<Rightarrow> 'f slice_op \<Rightarrow> volatile_slice \<Rightarrow> 'f \<Rightarrow> heap \<Rightarrow>
   ('f \<times> heap \<times> (io_error, unit) result) panics" where
  "whole_slice_volatile eof op sl f h =
     (if vs_is_empty sl then Some (f, h, Ok ())
      else case op sl f h of
        (f', h', Err e) \<Rightarrow> Some (f', h', Err e)
      | (f', h', Ok n) \<Rightarrow>
          if n = 0 then Some (f', h', Err eof)
          else (case vs_offset sl n of
                  Err _ \<Rightarrow> None
                | Ok sl' \<Rightarrow> whole_slice_volatile eof op sl' f' h'))"
  by pat_completeness auto
termination
  by (relation "measure (\<lambda>(eof, op, sl, f, h). vs_len sl)")
    (auto simp: vs_offset_def vs_is_empty_def split: if_splits)

declare whole_slice_volatile.simps [simp del]

definition read_exact_volatile where
  "read_exact_volatile read_volatile = whole_slice_volatile UnexpectedEof read_volatile"

definition write_all_volatile where
  "write_all_volatile write_volatile = whole_slice_volatile WriteZero write_volatile"

text \<open>
  The positional loops retry on \<^verbatim>\<open>Interrupted\<close>, so they need not end: they run on fuel.  The
  outer \<open>None\<close> is fuel that ran out, the inner one a panic.
\<close>

fun whole_slice_at_volatile ::
  "nat \<Rightarrow> io_error \<Rightarrow> 'f slice_at_op \<Rightarrow> volatile_slice \<Rightarrow> u64 \<Rightarrow> 'f \<Rightarrow> heap \<Rightarrow>
   ('f \<times> heap \<times> (io_error, unit) result) panics option" where
  "whole_slice_at_volatile 0 eof op sl offset f h = None"
| "whole_slice_at_volatile (Suc fuel) eof op sl offset f h =
     (if vs_is_empty sl then Some (Some (f, h, Ok ()))
      else case op sl offset f h of
        (f', h', Ok n) \<Rightarrow>
          if n = 0 then Some (Some (f', h', Err eof))
          else (case vs_offset sl n of
                  Err _ \<Rightarrow> Some None
                | Ok sl' \<Rightarrow>
                    (case checked_add offset (of_nat n) of
                       None \<Rightarrow> Some None
                     | Some offset' \<Rightarrow> whole_slice_at_volatile fuel eof op sl' offset' f' h'))
      | (f', h', Err e) \<Rightarrow>
          if e = Interrupted then whole_slice_at_volatile fuel eof op sl offset f' h'
          else Some (Some (f', h', Err e)))"

definition read_exact_at_volatile where
  "read_exact_at_volatile fuel read_at = whole_slice_at_volatile fuel UnexpectedEof read_at"

definition write_all_at_volatile where
  "write_all_at_volatile fuel write_at = whole_slice_at_volatile fuel WriteZero write_at"

section \<open>Files\<close>

text \<open>
  \<^verbatim>\<open>ReadFile\<close> and \<^verbatim>\<open>WriteFile\<close>: handle, host buffer, length as a 32-bit word, the offset of the
  \<^verbatim>\<open>OVERLAPPED\<close> structure as its low and high half (\<open>None\<close> for a null pointer); the outcome is the
  number of bytes transferred or the last OS error.
\<close>

type_synonym 'f win_io =
  "'f \<Rightarrow> u64 \<Rightarrow> u32 \<Rightarrow> (u32 \<times> u32) option \<Rightarrow> heap \<Rightarrow> 'f \<times> heap \<times> (u32, u32) result"

definition file_io :: "'f win_io \<Rightarrow> (u32 \<times> u32) option \<Rightarrow> 'f slice_op" where
  "file_io io ov sl f h =
     (case io f (vs_addr sl) (of_nat (vs_len sl)) ov h of
        (f', h', Err e) \<Rightarrow> (f', h', Err (OsError e))
      | (f', h', Ok n) \<Rightarrow> (f', h', Ok (unat n)))"

definition file_read_volatile :: "'f win_io \<Rightarrow> 'f slice_op" where
  "file_read_volatile ReadFile = file_io ReadFile None"

definition file_write_volatile :: "'f win_io \<Rightarrow> 'f slice_op" where
  "file_write_volatile WriteFile = file_io WriteFile None"

definition overlapped :: "u64 \<Rightarrow> u32 \<times> u32" where
  "overlapped offset = (ucast offset, ucast (drop_bit 32 offset))"

definition file_read_at_volatile :: "'f win_io \<Rightarrow> 'f slice_at_op" where
  "file_read_at_volatile ReadFile sl offset = file_io ReadFile (Some (overlapped offset)) sl"

definition file_write_at_volatile :: "'f win_io \<Rightarrow> 'f slice_at_op" where
  "file_write_at_volatile WriteFile sl offset = file_io WriteFile (Some (overlapped offset)) sl"

text \<open>The vectored loops: stop after the first slice that is not transferred in full.\<close>

fun file_vectored_volatile ::
  "'f slice_op \<Rightarrow> nat \<Rightarrow> volatile_slice list \<Rightarrow> 'f \<Rightarrow> heap \<Rightarrow>
   'f \<times> heap \<times> (io_error, nat) result" where
  "file_vectored_volatile op acc [] f h = (f, h, Ok acc)"
| "file_vectored_volatile op acc (buf # bufs) f h =
     (case op buf f h of
        (f', h', Err e) \<Rightarrow> (f', h', Err e)
      | (f', h', Ok n) \<Rightarrow>
          if n < vs_len buf then (f', h', Ok (acc + n))
          else file_vectored_volatile op (acc + n) bufs f' h')"

fun file_vectored_at_volatile ::
  "'f slice_at_op \<Rightarrow> nat \<Rightarrow> volatile_slice list \<Rightarrow> u64 \<Rightarrow> 'f \<Rightarrow> heap \<Rightarrow>
   'f \<times> heap \<times> (io_error, nat) result" where
  "file_vectored_at_volatile op acc [] offset f h = (f, h, Ok acc)"
| "file_vectored_at_volatile op acc (buf # bufs) offset f h =
     (case op buf offset f h of
        (f', h', Err e) \<Rightarrow> (f', h', Err e)
      | (f', h', Ok n) \<Rightarrow>
          if n < vs_len buf then (f', h', Ok (acc + n))
          else file_vectored_at_volatile op (acc + n) bufs (offset + of_nat n) f' h')"

definition file_read_vectored_volatile where
  "file_read_vectored_volatile ReadFile bufs f h =
     file_vectored_volatile (file_read_volatile ReadFile) 0 bufs f h"

definition file_write_vectored_volatile where
  "file_write_vectored_volatile WriteFile bufs f h =
     file_vectored_volatile (file_write_volatile WriteFile) 0 bufs f h"

definition file_read_vectored_at_volatile where
  "file_read_vectored_at_volatile ReadFile bufs offset f h =
     file_vectored_at_volatile (file_read_at_volatile ReadFile) 0 bufs offset f h"

definition file_write_vectored_at_volatile where
  "file_write_vectored_at_volatile WriteFile bufs offset f h =
     file_vectored_at_volatile (file_write_at_volatile WriteFile) 0 bufs offset f h"

text \<open>\<^verbatim>\<open>set_len\<close> hands over to the method of \<^verbatim>\<open>std::fs::File\<close>, which is the parameter.\<close>

definition file_set_len :: "(u64 \<Rightarrow> 'f \<Rightarrow> 'f \<times> (io_error, unit) result) \<Rightarrow> u64 \<Rightarrow> 'f \<Rightarrow> 'f \<times> (io_error, unit) result" where
  "file_set_len std_set_len len f = std_set_len len f"

section \<open>Addresses covered by slices\<close>

definition addrs :: "u64 \<Rightarrow> nat \<Rightarrow> u64 list" where
  "addrs a n = map (\<lambda>i. a + of_nat i) [0..<n]"

definition flat :: "volatile_slice list \<Rightarrow> u64 list" where
  "flat bufs = concat (map (\<lambda>vs. addrs (vs_addr vs) (vs_len vs)) bufs)"

definition poke :: "heap \<Rightarrow> (u64 \<times> u8) list \<Rightarrow> heap" where
  "poke h ps = foldl (\<lambda>h (a, b). h(a := b)) h ps"

definition slice_ok :: "volatile_slice \<Rightarrow> bool" where
  "slice_ok vs \<longleftrightarrow> unat (vs_addr vs) + vs_len vs \<le> 2 ^ 64"

lemma length_addrs [simp]: "length (addrs a n) = n"
  by (simp add: addrs_def)

lemma addrs_0 [simp]: "addrs a 0 = []"
  by (simp add: addrs_def)

lemma addrs_Suc: "addrs a (Suc n) = a # addrs (a + 1) n"
proof -
  have "[0..<Suc n] = 0 # map Suc [0..<n]" by (simp add: upt_conv_Cons map_Suc_upt)
  then show ?thesis by (simp add: addrs_def ac_simps)
qed

lemma addrs_split: "k \<le> n \<Longrightarrow> addrs a n = addrs a k @ addrs (a + of_nat k) (n - k)"
proof (induction k arbitrary: a n)
  case 0
  then show ?case by simp
next
  case (Suc k)
  then obtain m where "n = Suc m" "k \<le> m" by (cases n) auto
  with Suc.IH [of m "a + 1"] show ?case by (simp add: addrs_Suc ac_simps)
qed

lemma drop_addrs: "drop k (addrs a n) = addrs (a + of_nat k) (n - k)"
  by (cases "k \<le> n") (simp_all add: addrs_split)

lemma take_addrs: "take k (addrs a n) = addrs a (min k n)"
  by (cases "k \<le> n") (simp_all add: addrs_split min_def)

lemma flat_Nil [simp]: "flat [] = []"
  by (simp add: flat_def)

lemma flat_Cons [simp]: "flat (vs # bufs) = addrs (vs_addr vs) (vs_len vs) @ flat bufs"
  by (simp add: flat_def)

lemma flat_append [simp]: "flat (xs @ ys) = flat xs @ flat ys"
  by (simp add: flat_def)

lemma length_flat: "length (flat bufs) = sum_list (map vs_len bufs)"
  by (induction bufs) auto

lemma poke_Nil [simp]: "poke h [] = h"
  by (simp add: poke_def)

lemma poke_Cons [simp]: "poke h ((a, b) # ps) = poke (h(a := b)) ps"
  by (simp add: poke_def)

lemma poke_append: "poke h (ps @ qs) = poke (poke h ps) qs"
  by (simp add: poke_def)

lemma poke_other: "a \<notin> fst ` set ps \<Longrightarrow> poke h ps a = h a"
  by (induction ps arbitrary: h) auto

lemma poke_zip_append:
  "poke h (zip (xs @ ys) bs) = poke (poke h (zip xs (take (length xs) bs))) (zip ys (drop (length xs) bs))"
  by (simp add: zip_append1 poke_append)

lemma vs_offset_Ok:
  assumes "slice_ok vs" "n < vs_len vs"
  shows "vs_offset vs n = Ok \<lparr>vs_addr = vs_addr vs + of_nat n, vs_len = vs_len vs - n\<rparr>"
    and "slice_ok \<lparr>vs_addr = vs_addr vs + of_nat n, vs_len = vs_len vs - n\<rparr>"
proof -
  have "unat (vs_addr vs + of_nat n) = unat (vs_addr vs) + n"
    using assms by (simp add: slice_ok_def unat_word_ariths unat_of_nat)
  then show "slice_ok \<lparr>vs_addr = vs_addr vs + of_nat n, vs_len = vs_len vs - n\<rparr>"
    using assms by (simp add: slice_ok_def)
  show "vs_offset vs n = Ok \<lparr>vs_addr = vs_addr vs + of_nat n, vs_len = vs_len vs - n\<rparr>"
    using assms by (simp add: vs_offset_def slice_ok_def)
qed

lemma copy_from_addrs: "copy_from h a n = map h (addrs a n)"
  by (simp add: copy_from_def addrs_def)

lemma copy_to_Cons:
  assumes "length (b # bs) \<le> 2 ^ 64"
  shows "copy_to h a (b # bs) = copy_to (h(a := b)) (a + 1) bs"
proof (rule ext)
  fix x :: u64
  show "copy_to h a (b # bs) x = copy_to (h(a := b)) (a + 1) bs x"
  proof (cases "x = a")
    case True
    have "unat (- 1 :: u64) \<ge> length bs" using assms by (simp add: unat_minus_one_u64)
    with True show ?thesis by (simp add: copy_to_def)
  next
    case False
    then have "x - a \<noteq> 0" by simp
    then have "unat (x - a) \<noteq> 0" "unat (x - a - 1) = unat (x - a) - 1"
      by (simp_all add: unat_minus_one unat_eq_0)
    then have "unat (x - a) = Suc (unat (x - a - 1))" by simp
    then show ?thesis using False by (simp add: copy_to_def diff_diff_eq)
  qed
qed

lemma copy_to_poke: "length bs \<le> 2 ^ 64 \<Longrightarrow> copy_to h a bs = poke h (zip (addrs a (length bs)) bs)"
proof (induction bs arbitrary: h a)
  case Nil
  then show ?case by (simp add: copy_to_def)
next
  case (Cons b bs)
  then show ?case by (simp add: copy_to_Cons addrs_Suc)
qed


section \<open>Properties\<close>

text \<open>
  What the Windows documentation says of a positional read that starts inside the file: it
  delivers the bytes of the file from that offset on, as many as were asked for unless the end
  of the file comes first.
\<close>

definition reads_content :: "'f win_io \<Rightarrow> ('f \<Rightarrow> u8 list) \<Rightarrow> bool" where
  "reads_content ReadFile content \<longleftrightarrow>
     (\<forall>f a n off h. unat off < length (content f) \<longrightarrow>
        (let bs = take (unat n) (drop (unat off) (content f))
         in ReadFile f a n (Some (overlapped off)) h = (f, copy_to h a bs, Ok (of_nat (length bs)))))"

lemma file_read_at_content:
  assumes "reads_content ReadFile content" "slice_ok vs" "vs_len vs < 2 ^ 32"
    and "unat off < length (content f)" "unat off + vs_len vs \<le> length (content f)"
  shows "file_read_at_volatile ReadFile vs off f h =
    (f, poke h (zip (addrs (vs_addr vs) (vs_len vs)) (take (vs_len vs) (drop (unat off) (content f)))),
     Ok (vs_len vs))"
proof -
  let ?bs = "take (vs_len vs) (drop (unat off) (content f))"
  have len: "length ?bs = vs_len vs" using assms(5) by simp
  have n: "unat (of_nat (vs_len vs) :: u32) = vs_len vs" using assms(3) by (simp add: unat_of_nat)
  have "ReadFile f (vs_addr vs) (of_nat (vs_len vs)) (Some (overlapped off)) h =
      (f, copy_to h (vs_addr vs) ?bs, Ok (of_nat (length ?bs)))"
    using assms(1,4) n unfolding reads_content_def by (metis (no_types))
  moreover have "copy_to h (vs_addr vs) ?bs = poke h (zip (addrs (vs_addr vs) (vs_len vs)) ?bs)"
    using copy_to_poke [of ?bs h "vs_addr vs"] len assms(3) by simp
  ultimately show ?thesis using len n by (simp add: file_read_at_volatile_def file_io_def)
qed

lemma file_vectored_at_content:
  assumes "reads_content ReadFile content" "length (content f) < 2 ^ 64"
    and "\<And>vs. vs \<in> set bufs \<Longrightarrow> slice_ok vs \<and> 0 < vs_len vs \<and> vs_len vs < 2 ^ 32"
    and "unat off + length (flat bufs) \<le> length (content f)"
  shows "file_vectored_at_volatile (file_read_at_volatile ReadFile) acc bufs off f h =
    (f, poke h (zip (flat bufs) (drop (unat off) (content f))), Ok (acc + length (flat bufs)))"
  using assms(3,4)
proof (induction bufs arbitrary: acc off h)
  case Nil
  then show ?case by simp
next
  case (Cons vs bufs)
  have vs: "slice_ok vs" "0 < vs_len vs" "vs_len vs < 2 ^ 32" using Cons.prems(1) by auto
  have off: "unat off + vs_len vs + length (flat bufs) \<le> length (content f)"
    using Cons.prems(2) by simp
  have off': "unat (off + of_nat (vs_len vs)) = unat off + vs_len vs"
    using off assms(2) by (simp add: unat_word_ariths unat_of_nat)
  have "file_read_at_volatile ReadFile vs off f h =
      (f, poke h (zip (addrs (vs_addr vs) (vs_len vs))
         (take (vs_len vs) (drop (unat off) (content f)))), Ok (vs_len vs))"
    by (rule file_read_at_content [OF assms(1)]) (use vs off in simp_all)
  then show ?case
    using Cons.IH [of "off + of_nat (vs_len vs)" "acc + vs_len vs"] Cons.prems(1) off off'
    by (simp add: poke_zip_append ac_simps)
qed

text \<open>
  Reading a file at an offset into several buffers behaves as one read into their
  concatenation: when the file holds enough bytes, every buffer is filled, in order, with the
  bytes that follow the offset, nothing else changes, and the count is the sum of the lengths.
\<close>

theorem vectored_read_is_concatenated:
  assumes "reads_content ReadFile content" "length (content f) < 2 ^ 64"
    and "\<forall>vs \<in> set bufs. slice_ok vs \<and> 0 < vs_len vs \<and> vs_len vs < 2 ^ 32"
    and "unat off + length (flat bufs) \<le> length (content f)"
  shows "file_read_vectored_at_volatile ReadFile bufs off f h =
    (f, poke h (zip (flat bufs) (drop (unat off) (content f))), Ok (sum_list (map vs_len bufs)))"
  using file_vectored_at_content [OF assms(1,2) _ assms(4), of 0 h] assms(3)
  by (simp add: file_read_vectored_at_volatile_def length_flat)

definition demo_read_file :: "u8 list win_io" where
  "demo_read_file f a n ov h =
     (case ov of
        None \<Rightarrow> (f, h, Err 1)
      | Some (lo, hi) \<Rightarrow>
          let off = unat lo + 2 ^ 32 * unat hi; bs = take (unat n) (drop off f)
          in (f, copy_to h a bs, Ok (of_nat (length bs))))"

lemma overlapped_offset:
  assumes "overlapped off = (lo, hi)"
  shows "unat lo + 2 ^ 32 * unat hi = unat off"
proof -
  have "unat (ucast off :: u32) = unat off mod 2 ^ 32"
    by (simp add: unsigned_ucast_eq take_bit_eq_mod)
  moreover have "unat (drop_bit 32 off) = unat off div 2 ^ 32"
    by (simp only: unat_drop_bit_eq) (simp only: drop_bit_eq_div)
  then have "unat (ucast (drop_bit 32 off) :: u32) = unat off div 2 ^ 32 mod 2 ^ 32"
    by (simp only: unsigned_ucast_eq take_bit_eq_mod) simp
  moreover have "unat off div 2 ^ 32 < 2 ^ 32"
    using unsigned_less [of off] by (intro less_mult_imp_div_less) simp
  ultimately show ?thesis using assms by (auto simp: overlapped_def mod_mult_div_eq)
qed

lemma demo_reads_content: "reads_content demo_read_file (\<lambda>f. f)"
  unfolding reads_content_def demo_read_file_def
  by (auto simp: Let_def split: prod.split dest!: overlapped_offset)

theorem vectored_read_is_concatenated_witness:
  "\<exists>h'. file_read_vectored_at_volatile demo_read_file
      [\<lparr>vs_addr = 100, vs_len = 2\<rparr>, \<lparr>vs_addr = 200, vs_len = 1\<rparr>] 1 [5, 6, 7, 8] (\<lambda>_. 0) =
      ([5, 6, 7, 8], h', Ok 3) \<and> h' 100 = 6 \<and> h' 101 = 7 \<and> h' 200 = 8"
  using vectored_read_is_concatenated [OF demo_reads_content, of "[5, 6, 7, 8]"
      "[\<lparr>vs_addr = 100, vs_len = 2\<rparr>, \<lparr>vs_addr = 200, vs_len = 1\<rparr>]" 1 "\<lambda>_. 0"]
  by (simp add: slice_ok_def addrs_def upt_rec)

end
