(* ===== verification/Descriptor_Utils.thy ===== *)
theory Descriptor_Utils
  imports Virtqueue File_Traits
begin

text \<open>
  Reading and writing the buffers of a descriptor chain
  (\<^verbatim>\<open>src/devices/virtio/descriptor_utils.rs\<close>): the consumer that walks a list of volatile
  slices, and the \<^verbatim>\<open>Reader\<close> and \<^verbatim>\<open>Writer\<close> built on it.

  The specification of a list of slices is the list of host addresses it covers (\<open>flat\<close>);
  consuming \<open>k\<close> bytes drops \<open>k\<close> addresses from its front.  A reader made from a chain covers
  the guest addresses of the readable descriptors, a writer those of the others.
\<close>

section \<open>Errors\<close>

datatype du_error =
    DU_DescriptorChainOverflow
  | DU_FindMemoryRegion
  | DU_GuestMemoryError guest_memory_error
  | DU_InvalidChain
  | DU_IoError io_error
  | DU_SplitOutOfBounds nat
  | DU_VolatileMemoryError volatile_error

section \<open>The consumer\<close>

record consumer =
  cs_buffers :: "volatile_slice list"
  cs_bytes_consumed :: nat

definition available_bytes :: "consumer \<Rightarrow> nat" where
  "available_bytes c = foldl (\<lambda>count vs. (count + vs_len vs) mod 2 ^ 64) 0 (cs_buffers c)"

definition bytes_consumed :: "consumer \<Rightarrow> nat" where
  "bytes_consumed c = cs_bytes_consumed c"

text \<open>The slices handed to the closure: whole slices until \<open>count\<close> bytes are covered.\<close>

fun consume_select :: "nat \<Rightarrow> nat \<Rightarrow> volatile_slice list \<Rightarrow> volatile_slice list" where
  "consume_select count buflen [] = []"
| "consume_select count buflen (vs # bufs) =
     (if count \<le> buflen then []
      else let rem = count - buflen
           in vs # consume_select count
                (if rem < vs_len vs then buflen + rem else buflen + vs_len vs) bufs)"

text \<open>Dropping the consumed bytes; the \<^verbatim>\<open>unwrap\<close> of the offset is the only way to panic.\<close>

fun consume_advance :: "nat \<Rightarrow> volatile_slice list \<Rightarrow> volatile_slice list panics" where
  "consume_advance rem [] = Some []"
| "consume_advance rem (vs # bufs) =
     (if rem < vs_len vs
      then (case vs_offset vs rem of Err _ \<Rightarrow> None | Ok v \<Rightarrow> Some (v # bufs))
      else consume_advance (rem - vs_len vs) bufs)"

text \<open>
  \<^verbatim>\<open>consume\<close> with a closure that acts on a state \<open>'s\<close> (the heap, a file, an output buffer).
\<close>

definition consume ::
  "consumer \<Rightarrow> nat \<Rightarrow> (volatile_slice list \<Rightarrow> 's \<Rightarrow> 's \<times> (io_error, nat) result) \<Rightarrow> 's \<Rightarrow>
   (consumer \<times> 's \<times> (io_error, nat) result) panics" where
  "consume c count f s =
     (let bufs = consume_select count 0 (cs_buffers c)
      in if bufs = [] then Some (c, s, Ok 0)
         else case f bufs s of
           (s', Err e) \<Rightarrow> Some (c, s', Err e)
         | (s', Ok n) \<Rightarrow>
             if 2 ^ 64 \<le> cs_bytes_consumed c + n then Some (c, s', Err InvalidData)
             else (case consume_advance n (cs_buffers c) of
                     None \<Rightarrow> None
                   | Some bufs' \<Rightarrow>
                       Some (\<lparr>cs_buffers = bufs', cs_bytes_consumed = cs_bytes_consumed c + n\<rparr>,
                             s', Ok n)))"

fun split_position :: "nat \<Rightarrow> volatile_slice list \<Rightarrow> nat option \<times> nat" where
  "split_position rem [] = (None, rem)"
| "split_position rem (vs # bufs) =
     (if rem < vs_len vs then (Some 0, rem)
      else case split_position (rem - vs_len vs) bufs of (p, m) \<Rightarrow> (map_option Suc p, m))"

text \<open>
  \<^verbatim>\<open>split_at\<close>: both halves of a slice that is cut get \<^verbatim>\<open>front.offset(rem)\<close>, as in the source.
\<close>

definition split_at :: "consumer \<Rightarrow> nat \<Rightarrow> consumer \<times> (du_error, consumer) result" where
  "split_at c offset =
     (case split_position offset (cs_buffers c) of
        (Some at, rem) \<Rightarrow>
          (let other = drop at (cs_buffers c);
               self = take at (cs_buffers c)
           in if 0 < rem then
                (case vs_offset (hd other) rem of
                   Err e \<Rightarrow> (c\<lparr>cs_buffers := self\<rparr>, Err (DU_VolatileMemoryError e))
                 | Ok v \<Rightarrow> (c\<lparr>cs_buffers := self @ [v]\<rparr>,
                            Ok \<lparr>cs_buffers = v # tl other, cs_bytes_consumed = 0\<rparr>))
              else (c\<lparr>cs_buffers := self\<rparr>, Ok \<lparr>cs_buffers = other, cs_bytes_consumed = 0\<rparr>))
      | (None, rem) \<Rightarrow>
          if rem = 0 then (c, Ok \<lparr>cs_buffers = [], cs_bytes_consumed = 0\<rparr>)
          else (c, Err (DU_SplitOutOfBounds offset)))"

section \<open>Reader and writer\<close>

type_synonym reader = consumer
type_synonym writer = consumer

text \<open>The slices of a list of descriptors; \<open>acc\<close> is the sum of the lengths so far.\<close>

fun collect_slices ::
  "memory_manager \<Rightarrow> nat \<Rightarrow> descriptor_chain list \<Rightarrow> (du_error, volatile_slice list) result panics"
where
  "collect_slices mm acc [] = Some (Ok [])"
| "collect_slices mm acc (d # ds) =
     (if 2 ^ 64 \<le> acc + unat (dc_len d) then Some (Err DU_DescriptorChainOverflow)
      else case find_region mm (dc_addr d) of
        None \<Rightarrow> Some (Err DU_FindMemoryRegion)
      | Some r \<Rightarrow>
          (case checked_sub (dc_addr d) (start_addr r) of
             None \<Rightarrow> None
           | Some off \<Rightarrow>
               (case get_slice r off (ucast (dc_len d)) of
                  Err e \<Rightarrow> Some (Err (DU_GuestMemoryError e))
                | Ok vs \<Rightarrow>
                    (case collect_slices mm (acc + unat (dc_len d)) ds of
                       None \<Rightarrow> None
                     | Some (Err e) \<Rightarrow> Some (Err e)
                     | Some (Ok rest) \<Rightarrow> Some (Ok (vs # rest))))))"

definition consumer_of :: "(du_error, volatile_slice list) result panics \<Rightarrow> (du_error, consumer) result panics"
where
  "consumer_of x =
     (case x of
        None \<Rightarrow> None
      | Some (Err e) \<Rightarrow> Some (Err e)
      | Some (Ok bufs) \<Rightarrow> Some (Ok \<lparr>cs_buffers = bufs, cs_bytes_consumed = 0\<rparr>))"

definition reader_new ::
  "memory_manager \<Rightarrow> heap \<Rightarrow> descriptor_chain \<Rightarrow> (du_error, reader) result panics" where
  "reader_new mm h c = consumer_of (collect_slices mm 0 (readable (chain_iter mm h c)))"

definition writer_new ::
  "memory_manager \<Rightarrow> heap \<Rightarrow> descriptor_chain \<Rightarrow> (du_error, writer) result panics" where
  "writer_new mm h c = consumer_of (collect_slices mm 0 (writable (chain_iter mm h c)))"

text \<open>\<^verbatim>\<open>io::Read for Reader\<close>: copy out of the slices into a buffer of \<open>n\<close> bytes.\<close>

fun copy_out :: "heap \<Rightarrow> nat \<Rightarrow> volatile_slice list \<Rightarrow> u8 list" where
  "copy_out h rem [] = []"
| "copy_out h rem (vs # bufs) =
     (let copy_len = min rem (vs_len vs)
      in copy_from h (vs_addr vs) copy_len @ copy_out h (rem - copy_len) bufs)"

definition reader_read :: "heap \<Rightarrow> reader \<Rightarrow> nat \<Rightarrow> (reader \<times> (io_error, u8 list) result) panics" where
  "reader_read h c n =
     (case consume c n (\<lambda>bufs _. let d = copy_out h n bufs in (d, Ok (length d))) [] of
        None \<Rightarrow> None
      | Some (c', d, Err e) \<Rightarrow> Some (c', Err e)
      | Some (c', d, Ok k) \<Rightarrow> Some (c', Ok d))"

text \<open>\<^verbatim>\<open>io::Write for Writer\<close>: copy a buffer into the slices.\<close>

fun copy_in :: "heap \<Rightarrow> u8 list \<Rightarrow> volatile_slice list \<Rightarrow> heap \<times> nat" where
  "copy_in h bs [] = (h, 0)"
| "copy_in h bs (vs # bufs) =
     (let copy_len = min (length bs) (vs_len vs);
          (h', n) = copy_in (copy_to h (vs_addr vs) (take copy_len bs)) (drop copy_len bs) bufs
      in (h', copy_len + n))"

definition writer_write ::
  "heap \<Rightarrow> writer \<Rightarrow> u8 list \<Rightarrow> (writer \<times> heap \<times> (io_error, nat) result) panics" where
  "writer_write h c bs =
     consume c (length bs) (\<lambda>bufs h. case copy_in h bs bufs of (h', n) \<Rightarrow> (h', Ok n)) h"


text \<open>
  \<^verbatim>\<open>read_exact\<close> and \<^verbatim>\<open>write_all\<close> as the standard library defines them.  They retry on
  \<^verbatim>\<open>Interrupted\<close>, an error neither \<open>reader_read\<close> nor \<open>writer_write\<close> ever returns.
\<close>

function read_exact :: "heap \<Rightarrow> reader \<Rightarrow> nat \<Rightarrow> (reader \<times> (io_error, u8 list) result) panics" where
  "read_exact h c n =
     (if n = 0 then Some (c, Ok [])
      else case reader_read h c n of
        None \<Rightarrow> None
      | Some (c', Err e) \<Rightarrow> Some (c', Err e)
      | Some (c', Ok bs) \<Rightarrow>
          if bs = [] then Some (c', Err UnexpectedEof)
          else (case read_exact h c' (n - length bs) of
                  None \<Rightarrow> None
                | Some (c'', Err e) \<Rightarrow> Some (c'', Err e)
                | Some (c'', Ok rest) \<Rightarrow> Some (c'', Ok (bs @ rest))))"
  by pat_completeness auto
termination by (relation "measure (\<lambda>(h, c, n). n)") auto

declare read_exact.simps [simp del]

function write_all ::
  "heap \<Rightarrow> writer \<Rightarrow> u8 list \<Rightarrow> (writer \<times> heap \<times> (io_error, unit) result) panics" where
  "write_all h c bs =
     (if bs = [] then Some (c, h, Ok ())
      else case writer_write h c bs of
        None \<Rightarrow> None
      | Some (c', h', Err e) \<Rightarrow> Some (c', h', Err e)
      | Some (c', h', Ok n) \<Rightarrow>
          if n = 0 then Some (c', h', Err WriteZero)
          else write_all h' c' (drop n bs))"
  by pat_completeness auto
termination by (relation "measure (\<lambda>(h, c, bs). length bs)") auto

declare write_all.simps [simp del]

definition reader_read_obj ::
  "nat \<Rightarrow> (u8 list \<Rightarrow> 'a) \<Rightarrow> heap \<Rightarrow> reader \<Rightarrow> (reader \<times> (io_error, 'a) result) panics" where
  "reader_read_obj n dec h c =
     (case read_exact h c n of
        None \<Rightarrow> None
      | Some (c', Err e) \<Rightarrow> Some (c', Err e)
      | Some (c', Ok bs) \<Rightarrow> Some (c', Ok (dec bs)))"

definition writer_write_obj ::
  "('a \<Rightarrow> u8 list) \<Rightarrow> heap \<Rightarrow> writer \<Rightarrow> 'a \<Rightarrow> (writer \<times> heap \<times> (io_error, unit) result) panics" where
  "writer_write_obj enc h c val = write_all h c (enc val)"

text \<open>
  Transfers between a chain and a file.  The file's vectored operation is the argument \<open>op\<close>,
  acting on a state of the heap and the file.
\<close>

definition read_to ::
  "(volatile_slice list \<Rightarrow> 's \<Rightarrow> 's \<times> (io_error, nat) result) \<Rightarrow> reader \<Rightarrow> nat \<Rightarrow> 's \<Rightarrow>
   (reader \<times> 's \<times> (io_error, nat) result) panics" where
  "read_to write_vectored c count s = consume c count write_vectored s"

definition read_to_at ::
  "(volatile_slice list \<Rightarrow> u64 \<Rightarrow> 's \<Rightarrow> 's \<times> (io_error, nat) result) \<Rightarrow> reader \<Rightarrow> nat \<Rightarrow> u64 \<Rightarrow> 's \<Rightarrow>
   (reader \<times> 's \<times> (io_error, nat) result) panics" where
  "read_to_at write_vectored_at c count off s = consume c count (\<lambda>bufs. write_vectored_at bufs off) s"

definition write_from ::
  "(volatile_slice list \<Rightarrow> 's \<Rightarrow> 's \<times> (io_error, nat) result) \<Rightarrow> writer \<Rightarrow> nat \<Rightarrow> 's \<Rightarrow>
   (writer \<times> 's \<times> (io_error, nat) result) panics" where
  "write_from read_vectored c count s = consume c count read_vectored s"

definition write_from_at ::
  "(volatile_slice list \<Rightarrow> u64 \<Rightarrow> 's \<Rightarrow> 's \<times> (io_error, nat) result) \<Rightarrow> writer \<Rightarrow> nat \<Rightarrow> u64 \<Rightarrow> 's \<Rightarrow>
   (writer \<times> 's \<times> (io_error, nat) result) panics" where
  "write_from_at read_vectored_at c count off s = consume c count (\<lambda>bufs. read_vectored_at bufs off) s"

text \<open>
  The loops around them: \<^verbatim>\<open>count -= n\<close> wraps when the file transfers more than was asked, and
  \<^verbatim>\<open>Interrupted\<close> is retried for ever, so they run on fuel (outer \<open>None\<close>: out of fuel).
\<close>

fun transfer_exact ::
  "nat \<Rightarrow> io_error \<Rightarrow> (consumer \<Rightarrow> nat \<Rightarrow> 's \<Rightarrow> (consumer \<times> 's \<times> (io_error, nat) result) panics) \<Rightarrow>
   consumer \<Rightarrow> usize \<Rightarrow> 's \<Rightarrow> (consumer \<times> 's \<times> (io_error, unit) result) panics option" where
  "transfer_exact 0 eof xfer c count s = None"
| "transfer_exact (Suc fuel) eof xfer c count s =
     (if count = 0 then Some (Some (c, s, Ok ()))
      else case xfer c (unat count) s of
        None \<Rightarrow> Some None
      | Some (c', s', Ok n) \<Rightarrow>
          if n = 0 then Some (Some (c', s', Err eof))
          else transfer_exact fuel eof xfer c' (count - of_nat n) s'
      | Some (c', s', Err e) \<Rightarrow>
          if e = Interrupted then transfer_exact fuel eof xfer c' count s'
          else Some (Some (c', s', Err e)))"

definition read_exact_to where
  "read_exact_to fuel write_vectored = transfer_exact fuel UnexpectedEof (read_to write_vectored)"

definition write_all_from where
  "write_all_from fuel read_vectored = transfer_exact fuel WriteZero (write_from read_vectored)"


section \<open>Consuming drops addresses\<close>

definition consumer_ok :: "consumer \<Rightarrow> bool" where
  "consumer_ok c \<longleftrightarrow>
     (\<forall>vs \<in> set (cs_buffers c). slice_ok vs) \<and>
     cs_bytes_consumed c + length (flat (cs_buffers c)) < 2 ^ 64"

definition pending_addrs :: "consumer \<Rightarrow> u64 list" where
  "pending_addrs c = flat (cs_buffers c)"

lemma consume_advance_flat:
  assumes "\<forall>vs \<in> set bufs. slice_ok vs"
  obtains bufs' where "consume_advance n bufs = Some bufs'" "flat bufs' = drop n (flat bufs)"
    "\<forall>vs \<in> set bufs'. slice_ok vs"
  using assms
proof (induction n bufs arbitrary: thesis rule: consume_advance.induct)
  case (1 rem)
  then show ?case by simp
next
  case (2 rem vs bufs)
  show ?case
  proof (cases "rem < vs_len vs")
    case True
    have "slice_ok vs" using 2 by simp
    from vs_offset_Ok [OF this True] show ?thesis
      using True 2 by (auto simp: drop_addrs)
  next
    case False
    with 2 show ?thesis by auto
  qed
qed

lemma copy_out_eq: "copy_out h n bufs = map h (take n (flat bufs))"
  by (induction h n bufs rule: copy_out.induct)
    (auto simp: Let_def copy_from_addrs take_addrs min_def)

lemma consume_select_covers:
  "b \<le> count \<Longrightarrow> take (count - b) (flat (consume_select count b bufs)) = take (count - b) (flat bufs)"
proof (induction count b bufs rule: consume_select.induct)
  case (1 count buflen)
  then show ?case by simp
next
  case (2 count b vs bufs)
  show ?case
  proof (cases "count \<le> b")
    case True
    then show ?thesis by simp
  next
    case False
    show ?thesis
    proof (cases "count - b < vs_len vs")
      case True
      with False show ?thesis by (simp add: Let_def)
    next
      case more: False
      have "take (count - (b + vs_len vs)) (flat (consume_select count (b + vs_len vs) bufs)) =
          take (count - (b + vs_len vs)) (flat bufs)"
        using 2(1) [OF False refl] False more by (simp split: if_splits)
      then show ?thesis using False more by (simp add: Let_def diff_diff_eq)
    qed
  qed
qed

lemmas select_covers = consume_select_covers [where b = 0, simplified]

lemma consume_select_Nil: "consume_select count 0 bufs = [] \<longleftrightarrow> count = 0 \<or> bufs = []"
  by (cases bufs) (auto simp: Let_def)

lemma set_consume_select: "set (consume_select count b bufs) \<subseteq> set bufs"
  by (induction count b bufs rule: consume_select.induct) (auto simp: Let_def)

text \<open>
  What \<^verbatim>\<open>consume\<close> does with a closure that reports success: as many addresses leave the front of
  the consumer as the closure reports bytes, and nothing panics.
\<close>

lemma consume_Ok:
  assumes "consumer_ok c" "consume_select count 0 (cs_buffers c) \<noteq> []"
    and "f (consume_select count 0 (cs_buffers c)) s = (s', Ok n)" "n \<le> length (pending_addrs c)"
  obtains c' where "consume c count f s = Some (c', s', Ok n)" "consumer_ok c'"
    "pending_addrs c' = drop n (pending_addrs c)"
    "cs_bytes_consumed c' = cs_bytes_consumed c + n"
proof -
  obtain bufs' where b: "consume_advance n (cs_buffers c) = Some bufs'"
    "flat bufs' = drop n (flat (cs_buffers c))" "\<forall>vs \<in> set bufs'. slice_ok vs"
    using consume_advance_flat assms(1) unfolding consumer_ok_def by metis
  have "\<not> 2 ^ 64 \<le> cs_bytes_consumed c + n"
    using assms(1,4) by (simp add: consumer_ok_def pending_addrs_def)
  then show thesis
    using that assms b by (simp add: consume_def Let_def consumer_ok_def pending_addrs_def)
qed

lemma reader_read_spec:
  assumes "consumer_ok c"
  obtains c' where "reader_read h c n = Some (c', Ok (map h (take n (pending_addrs c))))"
    "consumer_ok c'" "pending_addrs c' = drop n (pending_addrs c)"
    "cs_bytes_consumed c' = cs_bytes_consumed c + min n (length (pending_addrs c))"
proof (cases "consume_select n 0 (cs_buffers c) = []")
  case True
  then have "n = 0 \<or> pending_addrs c = []" by (auto simp: consume_select_Nil pending_addrs_def)
  with True assms that [of c] show ?thesis by (auto simp: reader_read_def consume_def)
next
  case False
  let ?d = "map h (take n (pending_addrs c))"
  have d: "copy_out h n (consume_select n 0 (cs_buffers c)) = ?d"
    by (simp add: copy_out_eq select_covers pending_addrs_def)
  let ?f = "\<lambda>bufs (_ :: u8 list). let d = copy_out h n bufs in (d, Ok (length d))"
  define k where "k = min n (length (pending_addrs c))"
  have f: "?f (consume_select n 0 (cs_buffers c)) [] = (?d, Ok k)"
    by (simp add: d k_def min.commute)
  obtain c' where "consume c n ?f [] = Some (c', ?d, Ok k)" "consumer_ok c'"
    "pending_addrs c' = drop k (pending_addrs c)" "cs_bytes_consumed c' = cs_bytes_consumed c + k"
    by (rule consume_Ok [OF assms False, where f = ?f, OF f]) (simp_all add: k_def)
  moreover have "drop k (pending_addrs c) = drop n (pending_addrs c)" by (simp add: k_def min_def)
  ultimately show ?thesis using that [of c'] by (simp add: reader_read_def k_def)
qed

lemma read_exact_spec:
  assumes "consumer_ok c"
  obtains c' where
    "read_exact h c n =
       Some (c', if n \<le> length (pending_addrs c) then Ok (map h (take n (pending_addrs c)))
                 else Err UnexpectedEof)"
    "consumer_ok c'" "pending_addrs c' = drop n (pending_addrs c)"
proof (cases "n = 0")
  case True
  then show ?thesis using that [of c] assms by (simp add: read_exact.simps)
next
  case n: False
  obtain c1 where c1: "reader_read h c n = Some (c1, Ok (map h (take n (pending_addrs c))))"
    "consumer_ok c1" "pending_addrs c1 = drop n (pending_addrs c)"
    using reader_read_spec [OF assms] by metis
  show ?thesis
  proof (cases "n \<le> length (pending_addrs c)")
    case True
    then have "take n (pending_addrs c) \<noteq> []" using n by auto
    with n True c1 that [of c1] show ?thesis
      by (simp add: read_exact.simps [of h c n] read_exact.simps [of h c1 0])
  next
    case False
    then have d: "pending_addrs c1 = []" using c1 by simp
    show ?thesis
    proof (cases "pending_addrs c = []")
      case True
      with n c1 that [of c1] show ?thesis by (simp add: read_exact.simps [of h c n])
    next
      case ne: False
      let ?m = "n - length (pending_addrs c)"
      obtain c2 where c2: "reader_read h c1 ?m = Some (c2, Ok [])" "consumer_ok c2"
        "pending_addrs c2 = []"
        using reader_read_spec [OF c1(2), of h ?m] d by auto
      have "?m \<noteq> 0" using False by simp
      then have "read_exact h c1 ?m = Some (c2, Err UnexpectedEof)"
        using c2 by (simp add: read_exact.simps [of h c1 ?m])
      then show ?thesis
        using n False ne c1 c2 that [of c2] by (simp add: read_exact.simps [of h c n])
    qed
  qed
qed


lemma zip_take_length: "zip (take (length ys) xs) ys = zip xs ys"
  by (rule nth_equalityI) auto

lemma copy_in_eq:
  assumes "\<forall>vs \<in> set bufs. slice_ok vs"
  shows "copy_in h bs bufs = (poke h (zip (flat bufs) bs), min (length bs) (length (flat bufs)))"
  using assms
proof (induction h bs bufs rule: copy_in.induct)
  case (1 h bs)
  then show ?case by simp
next
  case (2 h bs vs bufs)
  let ?k = "min (length bs) (vs_len vs)"
  have ok: "slice_ok vs" "\<forall>vs \<in> set bufs. slice_ok vs" using "2.prems" by auto
  have "copy_to h (vs_addr vs) (take ?k bs) = poke h (zip (addrs (vs_addr vs) ?k) (take ?k bs))"
    using copy_to_poke [of "take ?k bs" h "vs_addr vs"] ok(1) by (simp add: slice_ok_def min_def)
  also have "zip (addrs (vs_addr vs) ?k) (take ?k bs) =
      zip (addrs (vs_addr vs) (vs_len vs)) (take (vs_len vs) bs)"
    using take_addrs [of "length bs" "vs_addr vs" "vs_len vs"]
      zip_take_length [of bs "addrs (vs_addr vs) (vs_len vs)"]
    by (cases "length bs \<le> vs_len vs") (simp_all add: min_def)
  finally have c: "copy_to h (vs_addr vs) (take ?k bs) =
      poke h (zip (addrs (vs_addr vs) (vs_len vs)) (take (vs_len vs) bs))" .
  have "copy_in h bs (vs # bufs) =
      (poke (copy_to h (vs_addr vs) (take ?k bs)) (zip (flat bufs) (drop ?k bs)),
       ?k + min (length (drop ?k bs)) (length (flat bufs)))"
    using "2.IH" [OF refl ok(2)] by (simp add: Let_def)
  moreover have "drop ?k bs = drop (vs_len vs) bs" by (simp add: min_def)
  ultimately show ?case by (auto simp: poke_zip_append c)
qed

lemma writer_write_spec:
  assumes "consumer_ok c"
  obtains c' where
    "writer_write h c bs =
       Some (c', poke h (zip (pending_addrs c) bs), Ok (min (length bs) (length (pending_addrs c))))"
    "consumer_ok c'" "pending_addrs c' = drop (length bs) (pending_addrs c)"
    "cs_bytes_consumed c' = cs_bytes_consumed c + min (length bs) (length (pending_addrs c))"
proof (cases "consume_select (length bs) 0 (cs_buffers c) = []")
  case True
  then have "bs = [] \<or> pending_addrs c = []" by (auto simp: consume_select_Nil pending_addrs_def)
  with True assms that [of c] show ?thesis by (auto simp: writer_write_def consume_def)
next
  case False
  let ?sel = "consume_select (length bs) 0 (cs_buffers c)"
  let ?f = "\<lambda>bufs h. case copy_in h bs bufs of (h', n) \<Rightarrow> (h', Ok n)"
  define k where "k = min (length bs) (length (pending_addrs c))"
  have ok: "\<forall>vs \<in> set ?sel. slice_ok vs"
    using assms set_consume_select unfolding consumer_ok_def by blast
  have cov: "take (length bs) (flat ?sel) = take (length bs) (pending_addrs c)"
    by (simp add: select_covers pending_addrs_def)
  then have "zip (flat ?sel) bs = zip (pending_addrs c) bs"
    by (metis zip_take_length)
  moreover have "min (length bs) (length (flat ?sel)) = k"
    using arg_cong [OF cov, of length] by (simp add: k_def min.commute)
  ultimately have f: "?f ?sel h = (poke h (zip (pending_addrs c) bs), Ok k)"
    using copy_in_eq [OF ok] by simp
  obtain c' where "consume c (length bs) ?f h = Some (c', poke h (zip (pending_addrs c) bs), Ok k)"
    "consumer_ok c'" "pending_addrs c' = drop k (pending_addrs c)"
    "cs_bytes_consumed c' = cs_bytes_consumed c + k"
    by (rule consume_Ok [OF assms False, where f = ?f, OF f]) (simp_all add: k_def)
  moreover have "drop k (pending_addrs c) = drop (length bs) (pending_addrs c)"
    by (simp add: k_def min_def)
  ultimately show ?thesis using that [of c'] by (simp add: writer_write_def k_def)
qed

lemma write_all_spec:
  assumes "consumer_ok c"
  obtains c' where
    "write_all h c bs =
       Some (c', poke h (zip (pending_addrs c) bs),
             if length bs \<le> length (pending_addrs c) then Ok () else Err WriteZero)"
    "consumer_ok c'" "pending_addrs c' = drop (length bs) (pending_addrs c)"
proof (cases "bs = []")
  case True
  then show ?thesis using that [of c] assms by (simp add: write_all.simps)
next
  case bs: False
  let ?h1 = "poke h (zip (pending_addrs c) bs)"
  obtain c1 where c1: "writer_write h c bs =
       Some (c1, ?h1, Ok (min (length bs) (length (pending_addrs c))))"
    "consumer_ok c1" "pending_addrs c1 = drop (length bs) (pending_addrs c)"
    using writer_write_spec [OF assms] by metis
  show ?thesis
  proof (cases "length bs \<le> length (pending_addrs c)")
    case True
    with bs c1 that [of c1] show ?thesis
      by (simp add: write_all.simps [of h c bs] write_all.simps [of ?h1 c1 "[]"])
  next
    case False
    show ?thesis
    proof (cases "pending_addrs c = []")
      case True
      with bs c1 that [of c1] show ?thesis by (simp add: write_all.simps [of h c bs])
    next
      case ne: False
      let ?bs = "drop (length (pending_addrs c)) bs"
      have "pending_addrs c1 = []" using c1 False by simp
      then obtain c2 where c2: "writer_write ?h1 c1 ?bs = Some (c2, ?h1, Ok 0)" "consumer_ok c2"
        "pending_addrs c2 = []"
        using writer_write_spec [OF c1(2), of ?h1 ?bs] by auto
      then have "write_all ?h1 c1 ?bs = Some (c2, ?h1, Err WriteZero)"
        using False by (simp add: write_all.simps [of ?h1 c1 ?bs])
      then show ?thesis
        using bs False ne c1 c2 that [of c2] by (simp add: write_all.simps [of h c bs])
    qed
  qed
qed


section \<open>The guest addresses of a chain\<close>

definition chain_addrs :: "descriptor_chain list \<Rightarrow> guest_address list" where
  "chain_addrs ds = concat (map (\<lambda>d. addrs (dc_addr d) (unat (dc_len d))) ds)"

definition backs :: "memory_manager \<Rightarrow> u64 \<Rightarrow> guest_address \<Rightarrow> bool" where
  "backs mm x a \<longleftrightarrow> (\<exists>r p. find_region mm a = Some r \<and> rg_hpa r = Some p \<and> x = host_addr r p a)"

definition view_poke :: "(guest_address \<rightharpoonup> u8) \<Rightarrow> (guest_address \<times> u8) list \<Rightarrow> (guest_address \<rightharpoonup> u8)"
where
  "view_poke v ps = foldl (\<lambda>v (a, b). v(a \<mapsto> b)) v ps"

lemma backs_view: "backs mm x a \<Longrightarrow> guest_view mm h a = Some (h x)"
  by (auto simp: backs_def guest_view_def)

lemma guest_view_put:
  assumes "mm_wf mm" "backs mm x a"
  shows "guest_view mm (h(x := b)) = (guest_view mm h)(a \<mapsto> b)"
proof
  fix y
  show "guest_view mm (h(x := b)) y = ((guest_view mm h)(a \<mapsto> b)) y"
  proof (cases "y = a")
    case True
    then show ?thesis using assms(2) by (auto simp: backs_def guest_view_def)
  next
    case False
    have "host_addr s q y \<noteq> x" if "find_region mm y = Some s" "rg_hpa s = Some q" for s q
      using assms host_addr_inj [OF assms(1) that] False by (auto simp: backs_def)
    then show ?thesis using False by (auto simp: guest_view_def split: option.splits)
  qed
qed

lemma backs_map:
  "list_all2 (backs mm) xs as \<Longrightarrow> map (\<lambda>x. Some (h x)) xs = map (guest_view mm h) as"
  by (induction rule: list_all2_induct) (auto simp: backs_view)

lemma backs_poke:
  assumes "mm_wf mm" "list_all2 (backs mm) xs as"
  shows "guest_view mm (poke h (zip xs bs)) = view_poke (guest_view mm h) (zip as bs)"
  using assms(2)
proof (induction arbitrary: h bs rule: list_all2_induct)
  case Nil
  then show ?case by (simp add: view_poke_def)
next
  case (Cons x xs a as)
  then show ?case
    by (cases bs) (simp_all add: view_poke_def guest_view_put [OF assms(1)])
qed

lemma backs_addrs:
  assumes "mm_wf mm" "access_ok mm a n r p"
  shows "list_all2 (backs mm) (addrs (host_addr r p a) n) (addrs a n)"
  using access_okD [OF assms] assms(2)
  by (auto simp: list_all2_conv_all_nth addrs_def backs_def access_ok_def)

lemma get_slice_cases:
  assumes wf: "mm_wf mm" and f: "find_region mm a = Some r"
  shows "get_slice r (a - rg_gpa r) (ucast n) =
    (if unat (rg_gpa r) + unat (rg_size r) < unat a + unat (n :: u32) then Err InvalidBackendAddress
     else case rg_hpa r of
            None \<Rightarrow> Err HostAddressNotAvailable
          | Some p \<Rightarrow> Ok \<lparr>vs_addr = host_addr r p a, vs_len = unat n\<rparr>)"
proof -
  note rD = find_regionD [OF f]
  have rwf: "region_wf r" using mm_wf_region [OF wf rD(1)] .
  have a: "unat (rg_gpa r) \<le> unat a" "unat a < unat (rg_gpa r) + unat (rg_size r)"
    "unat (rg_gpa r) + unat (rg_size r) \<le> 2 ^ 63"
    using rD(2) rwf by (auto simp: in_region_iff region_wf_def)
  have o: "unat (a - rg_gpa r) = unat a - unat (rg_gpa r)"
    using a by (simp add: unat_sub word_le_nat_alt)
  have n: "unat n < 2 ^ 32" using unsigned_less [of n] by simp
  then have ca: "checked_add (a - rg_gpa r) (ucast n) = Some (a - rg_gpa r + ucast n)"
    "unat (a - rg_gpa r + ucast n) = unat a - unat (rg_gpa r) + unat n"
    using o a by (simp_all add: checked_add_def unat_word_ariths)
  have "rg_size r < a - rg_gpa r + ucast n \<longleftrightarrow>
      unat (rg_gpa r) + unat (rg_size r) < unat a + unat n"
    using a by (simp add: word_less_nat_alt ca(2)) linarith
  then show ?thesis using ca(1) by (simp add: get_slice_def host_addr_def cong: if_cong option.case_cong)
qed

lemma checked_sub_start:
  "find_region mm a = Some r \<Longrightarrow> checked_sub a (start_addr r) = Some (a - rg_gpa r)"
  by (auto simp: checked_sub_def start_addr_def in_region_def dest!: find_regionD(2))

lemma collect_slices_no_panic: "collect_slices mm acc ds \<noteq> None"
  by (induction ds arbitrary: acc)
    (simp_all add: checked_sub_start split: option.split result.split del: not_None_eq)

definition mapped :: "memory_manager \<Rightarrow> descriptor_chain \<Rightarrow> bool" where
  "mapped mm d \<longleftrightarrow> (\<exists>r p. access_ok mm (dc_addr d) (unat (dc_len d)) r p)"

lemma collect_slices_mapped:
  assumes "mm_wf mm" "acc + unat (dc_len d) < 2 ^ 64" "access_ok mm (dc_addr d) (unat (dc_len d)) r p"
  shows "collect_slices mm acc (d # ds) =
    (case collect_slices mm (acc + unat (dc_len d)) ds of
       None \<Rightarrow> None
     | Some (Err e) \<Rightarrow> Some (Err e)
     | Some (Ok rest) \<Rightarrow>
         Some (Ok (\<lparr>vs_addr = host_addr r p (dc_addr d), vs_len = unat (dc_len d)\<rparr> # rest)))"
proof -
  have f: "find_region mm (dc_addr d) = Some r" "rg_hpa r = Some p"
    "\<not> unat (rg_gpa r) + unat (rg_size r) < unat (dc_addr d) + unat (dc_len d)"
    using assms(3) by (auto simp: access_ok_def)
  then show ?thesis
    using assms(2) get_slice_cases [OF assms(1) f(1)] by (simp add: checked_sub_start)
qed

lemma collect_slices_unmapped:
  assumes "mm_wf mm" "acc + unat (dc_len d) < 2 ^ 64" "\<not> mapped mm d"
  shows "\<exists>e. collect_slices mm acc (d # ds) = Some (Err e) \<and> e \<noteq> DU_DescriptorChainOverflow"
proof (cases "find_region mm (dc_addr d)")
  case None
  then show ?thesis using assms(2) by simp
next
  case (Some r)
  then show ?thesis
    using assms(2,3) get_slice_cases [OF assms(1) Some]
    by (auto simp: checked_sub_start mapped_def access_ok_def not_less split: option.splits)
qed

lemma mapped_slice:
  assumes "mm_wf mm" "access_ok mm a n r p"
  shows "slice_ok \<lparr>vs_addr = host_addr r p a, vs_len = n\<rparr>"
proof -
  have f: "find_region mm a = Some r" "rg_hpa r = Some p"
    "unat a + n \<le> unat (rg_gpa r) + unat (rg_size r)"
    using assms(2) by (auto simp: access_ok_def)
  note rD = find_regionD [OF f(1)]
  have rwf: "region_wf r" using mm_wf_region [OF assms(1) rD(1)] .
  have "unat (rg_gpa r) \<le> unat a" using rD(2) rwf by (simp add: in_region_iff)
  then show ?thesis
    using unat_host_addr(1) [OF rwf f(2) rD(2)] f(2,3) rwf
    by (simp add: slice_ok_def region_wf_def) arith
qed

lemma collect_slices_spec:
  assumes wf: "mm_wf mm" and len: "acc + sum_list (map (\<lambda>d. unat (dc_len d)) ds) < 2 ^ 64"
  shows "if \<forall>d \<in> set ds. mapped mm d
    then \<exists>bufs. collect_slices mm acc ds = Some (Ok bufs) \<and> (\<forall>vs \<in> set bufs. slice_ok vs) \<and>
      list_all2 (backs mm) (flat bufs) (chain_addrs ds)
    else \<exists>e. collect_slices mm acc ds = Some (Err e) \<and> e \<noteq> DU_DescriptorChainOverflow"
  using len
proof (induction ds arbitrary: acc)
  case Nil
  then show ?case by (simp add: chain_addrs_def)
next
  case (Cons d ds)
  have acc: "acc + unat (dc_len d) < 2 ^ 64" using Cons.prems by simp
  show ?case
  proof (cases "mapped mm d")
    case False
    then show ?thesis using collect_slices_unmapped [OF wf acc False] by auto
  next
    case True
    then obtain r p where ok: "access_ok mm (dc_addr d) (unat (dc_len d)) r p"
      by (auto simp: mapped_def)
    have IH: "if \<forall>d \<in> set ds. mapped mm d
      then \<exists>bufs. collect_slices mm (acc + unat (dc_len d)) ds = Some (Ok bufs) \<and>
        (\<forall>vs \<in> set bufs. slice_ok vs) \<and> list_all2 (backs mm) (flat bufs) (chain_addrs ds)
      else \<exists>e. collect_slices mm (acc + unat (dc_len d)) ds = Some (Err e) \<and>
        e \<noteq> DU_DescriptorChainOverflow"
      by (rule Cons.IH) (use Cons.prems in \<open>simp add: add.assoc\<close>)
    note step = collect_slices_mapped [OF wf acc ok, of ds]
    show ?thesis
    proof (cases "\<forall>d \<in> set ds. mapped mm d")
      case all: True
      then obtain bufs where "collect_slices mm (acc + unat (dc_len d)) ds = Some (Ok bufs)"
        "\<forall>vs \<in> set bufs. slice_ok vs" "list_all2 (backs mm) (flat bufs) (chain_addrs ds)"
        using IH by auto
      then show ?thesis
        using True all step mapped_slice [OF wf ok] backs_addrs [OF wf ok]
        by (simp add: chain_addrs_def list_all2_appendI)
    next
      case False
      then obtain e where "collect_slices mm (acc + unat (dc_len d)) ds = Some (Err e)"
        "e \<noteq> DU_DescriptorChainOverflow"
        using IH [unfolded if_not_P [OF False]] by blast
      moreover have "\<not> (\<forall>d \<in> set (d # ds). mapped mm d)" using False by simp
      ultimately show ?thesis using step by simp
    qed
  qed
qed

lemma length_chain_addrs: "length (chain_addrs ds) = sum_list (map (\<lambda>d. unat (dc_len d)) ds)"
  by (induction ds) (auto simp: chain_addrs_def)

lemma sum_list_dc_len:
  assumes "length ds \<le> 2 ^ 16"
  shows "sum_list (map (\<lambda>d. unat (dc_len d)) ds) < 2 ^ 64"
proof -
  have "unat (dc_len d) \<le> 2 ^ 32" for d using unat_bounds(3) [of "dc_len d"] by simp
  then have "sum_list (map (\<lambda>d. unat (dc_len d)) ds) \<le> sum_list (map (\<lambda>_. 2 ^ 32) ds)"
    by (intro sum_list_mono) auto
  also have "\<dots> = length ds * 2 ^ 32" by (simp add: sum_list_triv)
  also have "\<dots> \<le> 2 ^ 16 * 2 ^ 32" using assms by (intro mult_right_mono) auto
  finally show ?thesis by simp
qed

lemma consumer_of_spec:
  assumes "mm_wf mm" "length ds \<le> 2 ^ 16"
  shows "if \<forall>d \<in> set ds. mapped mm d
    then \<exists>c. consumer_of (collect_slices mm 0 ds) = Some (Ok c) \<and> consumer_ok c \<and>
      list_all2 (backs mm) (pending_addrs c) (chain_addrs ds)
    else \<exists>e. consumer_of (collect_slices mm 0 ds) = Some (Err e) \<and> e \<noteq> DU_DescriptorChainOverflow"
  using collect_slices_spec [OF assms(1), of 0 ds] sum_list_dc_len [OF assms(2)]
    length_chain_addrs [of ds]
  by (force simp: consumer_of_def consumer_ok_def pending_addrs_def dest: list_all2_lengthD
      split: if_splits)

lemma length_chain_parts:
  assumes "0 < dc_ttl c"
  shows "length (readable (chain_iter mm h c)) \<le> 2 ^ 16"
    and "length (writable (chain_iter mm h c)) \<le> 2 ^ 16"
proof -
  have "length (chain_iter mm h c) \<le> 2 ^ 16"
    using length_chain_iter [OF assms, of mm h] unat_bounds(2) [of "dc_ttl c"] by simp
  then show "length (readable (chain_iter mm h c)) \<le> 2 ^ 16"
    "length (writable (chain_iter mm h c)) \<le> 2 ^ 16"
    using length_takeWhile_le [of is_read_only "chain_iter mm h c"]
      length_dropWhile_le [of is_read_only "chain_iter mm h c"]
    by (simp_all add: readable_def writable_def)
qed


lemma reader_new_spec:
  assumes "mm_wf mm" "0 < dc_ttl c"
  shows "if \<forall>d \<in> set (readable (chain_iter mm h c)). mapped mm d
    then \<exists>r. reader_new mm h c = Some (Ok r) \<and> consumer_ok r \<and>
      list_all2 (backs mm) (pending_addrs r) (chain_addrs (readable (chain_iter mm h c)))
    else \<exists>e. reader_new mm h c = Some (Err e) \<and> e \<noteq> DU_DescriptorChainOverflow"
  unfolding reader_new_def by (rule consumer_of_spec [OF assms(1) length_chain_parts(1) [OF assms(2)]])

lemma writer_new_spec:
  assumes "mm_wf mm" "0 < dc_ttl c"
  shows "if \<forall>d \<in> set (writable (chain_iter mm h c)). mapped mm d
    then \<exists>w. writer_new mm h c = Some (Ok w) \<and> consumer_ok w \<and>
      list_all2 (backs mm) (pending_addrs w) (chain_addrs (writable (chain_iter mm h c)))
    else \<exists>e. writer_new mm h c = Some (Err e) \<and> e \<noteq> DU_DescriptorChainOverflow"
  unfolding writer_new_def by (rule consumer_of_spec [OF assms(1) length_chain_parts(2) [OF assms(2)]])

lemma reader_newD:
  assumes "mm_wf mm" "0 < dc_ttl c" "reader_new mm h c = Some (Ok r)"
  shows "consumer_ok r"
    and "list_all2 (backs mm) (pending_addrs r) (chain_addrs (readable (chain_iter mm h c)))"
  using reader_new_spec [OF assms(1,2), of h] assms(3) by (auto split: if_splits)

lemma writer_newD:
  assumes "mm_wf mm" "0 < dc_ttl c" "writer_new mm h c = Some (Ok w)"
  shows "consumer_ok w"
    and "list_all2 (backs mm) (pending_addrs w) (chain_addrs (writable (chain_iter mm h c)))"
  using writer_new_spec [OF assms(1,2), of h] assms(3) by (auto split: if_splits)

lemma available_bytes_eq: "consumer_ok c \<Longrightarrow> available_bytes c = length (pending_addrs c)"
proof -
  have "foldl (\<lambda>count vs. (count + vs_len vs) mod 2 ^ 64) acc bufs = acc + length (flat bufs)"
    if "acc + length (flat bufs) < 2 ^ 64" for acc and bufs :: "volatile_slice list"
    using that by (induction bufs arbitrary: acc) (auto simp: add.assoc)
  from this [of 0 "cs_buffers c"] show "consumer_ok c \<Longrightarrow> available_bytes c = length (pending_addrs c)"
    by (simp add: available_bytes_def pending_addrs_def consumer_ok_def)
qed

lemma backs_take_drop:
  assumes "list_all2 (backs mm) xs as"
  shows "map Some (map h (take m (drop n xs))) = map (guest_view mm h) (take m (drop n as))"
  using backs_map [OF list_all2_takeI [OF list_all2_dropI [OF assms]]] by (simp add: comp_def)

section \<open>Properties\<close>

text \<open>
  Making a reader or a writer for a chain never panics and never overflows its length
  counter; it succeeds exactly when every descriptor of its part lies in one backed region, and
  then the number of available bytes is the sum of the descriptor lengths.
\<close>

theorem reader_writer_new_outcome:
  assumes "mm_wf mm" "pop mm h q = Some (q', Some c)"
  shows "(if \<forall>d \<in> set (readable (chain_iter mm h c)). mapped mm d
      then \<exists>r. reader_new mm h c = Some (Ok r) \<and>
        available_bytes r = sum_list (map (\<lambda>d. unat (dc_len d)) (readable (chain_iter mm h c)))
      else \<exists>e. reader_new mm h c = Some (Err e) \<and> e \<noteq> DU_DescriptorChainOverflow) \<and>
    (if \<forall>d \<in> set (writable (chain_iter mm h c)). mapped mm d
      then \<exists>w. writer_new mm h c = Some (Ok w) \<and>
        available_bytes w = sum_list (map (\<lambda>d. unat (dc_len d)) (writable (chain_iter mm h c)))
      else \<exists>e. writer_new mm h c = Some (Err e) \<and> e \<noteq> DU_DescriptorChainOverflow)"
  using reader_new_spec [OF assms(1) pop_ttl [OF assms(2)], of h]
    writer_new_spec [OF assms(1) pop_ttl [OF assms(2)], of h]
  by (force simp: available_bytes_eq length_chain_addrs dest: list_all2_lengthD split: if_splits)

lemma demo_reader: "reader_new demo_mm demo_heap demo_chain =
    Some (Ok \<lparr>cs_buffers = [\<lparr>vs_addr = 0x10400, vs_len = 16\<rparr>], cs_bytes_consumed = 0\<rparr>)"
  by (simp add: reader_new_def consumer_of_def readable_def is_read_only_def chain_iter.simps
      next_descriptor_def queue_eval demo_desc checked_sub_def get_slice_def)

lemma demo_writer: "writer_new demo_mm demo_heap demo_chain =
    Some (Ok \<lparr>cs_buffers = [\<lparr>vs_addr = 0x10500, vs_len = 16\<rparr>], cs_bytes_consumed = 0\<rparr>)"
  by (simp add: writer_new_def consumer_of_def writable_def is_read_only_def chain_iter.simps
      next_descriptor_def queue_eval demo_desc checked_sub_def get_slice_def)

theorem reader_writer_new_outcome_witness:
  "(\<exists>r. reader_new demo_mm demo_heap demo_chain = Some (Ok r) \<and> available_bytes r = 16) \<and>
   (\<exists>w. writer_new demo_mm demo_heap demo_chain = Some (Ok w) \<and> available_bytes w = 16)"
  using reader_writer_new_outcome [OF demo_mm_wf demo_pop] demo_reader demo_writer
  by (auto simp: available_bytes_def)

text \<open>
  C38.  Reading from a chain: two reads in a row return the guest's bytes at the addresses of
  the readable descriptors, in the order of the chain, the second one going on where the first
  one stopped; a read that asks for more than is left fails with \<^verbatim>\<open>UnexpectedEof\<close>.
\<close>

theorem chain_reads_in_order:
  assumes "mm_wf mm" "pop mm h q = Some (q', Some c)" "reader_new mm h c = Some (Ok r)"
  defines "A \<equiv> chain_addrs (readable (chain_iter mm h c))"
  shows "\<exists>r1 r2 res1 res2. read_exact h r n = Some (r1, res1) \<and> read_exact h r1 m = Some (r2, res2) \<and>
    (if n \<le> length A then \<exists>bs. res1 = Ok bs \<and> map Some bs = map (guest_view mm h) (take n A)
     else res1 = Err UnexpectedEof) \<and>
    (if m \<le> length A - n then \<exists>bs. res2 = Ok bs \<and> map Some bs = map (guest_view mm h) (take m (drop n A))
     else res2 = Err UnexpectedEof)"
proof -
  note r = reader_newD [OF assms(1) pop_ttl [OF assms(2)] assms(3), folded A_def]
  note len = list_all2_lengthD [OF r(2)]
  obtain r1 where r1: "read_exact h r n = Some (r1, if n \<le> length (pending_addrs r)
      then Ok (map h (take n (pending_addrs r))) else Err UnexpectedEof)"
    "consumer_ok r1" "pending_addrs r1 = drop n (pending_addrs r)"
    using read_exact_spec [OF r(1)] by metis
  obtain r2 where r2: "read_exact h r1 m = Some (r2, if m \<le> length (pending_addrs r1)
      then Ok (map h (take m (pending_addrs r1))) else Err UnexpectedEof)"
    using read_exact_spec [OF r1(2)] by metis
  show ?thesis
    using r1 r2 len backs_take_drop [OF r(2), of h n 0] backs_take_drop [OF r(2), of h m n] by simp
qed

theorem chain_reads_in_order_witness:
  "\<exists>r1 r2 bs. read_exact demo_heap
      \<lparr>cs_buffers = [\<lparr>vs_addr = 0x10400, vs_len = 16\<rparr>], cs_bytes_consumed = 0\<rparr> 10 = Some (r1, Ok bs) \<and>
    read_exact demo_heap r1 7 = Some (r2, Err UnexpectedEof)"
proof -
  have "length (chain_addrs (readable (chain_iter demo_mm demo_heap demo_chain))) = 16"
    using reader_newD(2) [OF demo_mm_wf pop_ttl [OF demo_pop] demo_reader]
    by (auto simp: pending_addrs_def dest: list_all2_lengthD)
  then show ?thesis
    using chain_reads_in_order [OF demo_mm_wf demo_pop demo_reader, of 10 7] by auto
qed

text \<open>
  C39.  Writing to a chain: the bytes go, in order, to the guest addresses of the writable
  descriptors and nowhere else; when there is not enough room the part that fits is written and
  the write fails with \<^verbatim>\<open>WriteZero\<close>.
\<close>

theorem chain_write_fills_in_order:
  assumes "mm_wf mm" "pop mm h q = Some (q', Some c)" "writer_new mm h c = Some (Ok w)"
  defines "A \<equiv> chain_addrs (writable (chain_iter mm h c))"
  shows "\<exists>w' h'. write_all h w bs = Some (w', h', if length bs \<le> length A then Ok () else Err WriteZero) \<and>
    guest_view mm h' = view_poke (guest_view mm h) (zip A bs) \<and>
    available_bytes w' = length A - length bs"
proof -
  note w = writer_newD [OF assms(1) pop_ttl [OF assms(2)] assms(3), folded A_def]
  obtain w' where "write_all h w bs = Some (w', poke h (zip (pending_addrs w) bs),
      if length bs \<le> length (pending_addrs w) then Ok () else Err WriteZero)"
    "consumer_ok w'" "pending_addrs w' = drop (length bs) (pending_addrs w)"
    using write_all_spec [OF w(1)] by metis
  then show ?thesis
    using backs_poke [OF assms(1) w(2), of h bs] list_all2_lengthD [OF w(2)]
    by (simp add: available_bytes_eq)
qed

theorem chain_write_fills_in_order_witness:
  "\<exists>w' h'. write_all demo_heap
      \<lparr>cs_buffers = [\<lparr>vs_addr = 0x10500, vs_len = 16\<rparr>], cs_bytes_consumed = 0\<rparr> [1, 2, 3] = Some (w', h', Ok ()) \<and>
    available_bytes w' = 13"
proof -
  have "length (chain_addrs (writable (chain_iter demo_mm demo_heap demo_chain))) = 16"
    using writer_newD(2) [OF demo_mm_wf pop_ttl [OF demo_pop] demo_writer]
    by (auto simp: pending_addrs_def dest: list_all2_lengthD)
  then show ?thesis
    using chain_write_fills_in_order [OF demo_mm_wf demo_pop demo_writer, of "[1, 2, 3]"] by auto
qed

text \<open>
  Splitting inside a buffer gives both halves the same bytes: the half that should keep the
  first \<open>offset\<close> bytes of a slice is left with the bytes after them.
\<close>

theorem split_at_duplicates_tail:
  assumes "slice_ok vs" "0 < offset" "offset < vs_len vs" "cs_buffers c = [vs]"
  shows "\<exists>c' other. split_at c offset = (c', Ok other) \<and>
    pending_addrs c' = drop offset (pending_addrs c) \<and> pending_addrs other = drop offset (pending_addrs c)"
  using assms vs_offset_Ok(1) [OF assms(1,3)]
  by (simp add: split_at_def pending_addrs_def drop_addrs)

theorem split_at_duplicates_tail_witness:
  "\<exists>c' other. split_at \<lparr>cs_buffers = [\<lparr>vs_addr = 100, vs_len = 3\<rparr>], cs_bytes_consumed = 0\<rparr> 1 = (c', Ok other) \<and>
    pending_addrs c' = [101, 102] \<and> pending_addrs other = [101, 102]"
  using split_at_duplicates_tail [of "\<lparr>vs_addr = 100, vs_len = 3\<rparr>" 1
      "\<lparr>cs_buffers = [\<lparr>vs_addr = 100, vs_len = 3\<rparr>], cs_bytes_consumed = 0\<rparr>"]
  by (simp add: slice_ok_def pending_addrs_def addrs_def upt_rec)

end
