(* ===== verification/Virtio_Device.thy ===== *)
theory Virtio_Device
  imports Virtqueue
begin

text \<open>
  The virtio devices as the transport sees them: the trait of
  \<^verbatim>\<open>src/devices/virtio/device.rs\<close> and its implementations for the block, entropy, console and
  network devices (\<^verbatim>\<open>device.rs\<close> of each directory).

  The feature-bit numbers of the \<^verbatim>\<open>virtio_bindings\<close> crate are arguments, as are the outcomes of
  opening the disk image, of creating events and threads and of spawning the network proxy.  A running worker thread is
  represented by the queues it was given (\<open>Some qs\<close>); joining it drops them.  A reset here returns at once:
  the join it waits for returns when the worker has ended, which the theory \<open>Worker_Threads\<close> shows of a
  worker that was told to stop, and \<open>Notification\<close> refutes for a worker kept busy by an invalid head.
\<close>

section \<open>Constants and shared types\<close>

definition TYPE_NET :: u32 where "TYPE_NET = 1"
definition TYPE_BLOCK :: u32 where "TYPE_BLOCK = 2"
definition TYPE_CONSOLE :: u32 where "TYPE_CONSOLE = 3"
definition TYPE_RNG :: u32 where "TYPE_RNG = 4"
definition VIRTIO_MMIO_INT_VRING :: u32 where "VIRTIO_MMIO_INT_VRING = 0x01"
definition VIRTIO_MMIO_INT_CONFIG :: u32 where "VIRTIO_MMIO_INT_CONFIG = 0x02"

datatype activate_error = BadActivate

datatype device_state = Inactive | Activated memory_manager

fun state_is_activated :: "device_state \<Rightarrow> bool" where
  "state_is_activated Inactive = False"
| "state_is_activated (Activated mem) = True"

text \<open>Feature bits of \<^verbatim>\<open>virtio_bindings\<close>.\<close>

record virtio_bits =
  VIRTIO_F_VERSION_1 :: nat
  VIRTIO_RING_F_EVENT_IDX :: nat
  VIRTIO_BLK_F_SEG_MAX :: nat
  VIRTIO_BLK_F_DISCARD :: nat
  VIRTIO_BLK_F_WRITE_ZEROES :: nat
  VIRTIO_BLK_F_FLUSH :: nat
  VIRTIO_BLK_F_RO :: nat
  VIRTIO_NET_F_MAC :: nat

text \<open>
  \<^verbatim>\<open>read_config\<close> of the devices that have a configuration: copy the part of the configuration
  that starts at \<open>offset\<close> over the front of the data; the outer \<open>None\<close> is the \<^verbatim>\<open>unwrap\<close> of a
  write that does not fit.
\<close>

definition read_config_slice :: "u8 list \<Rightarrow> u64 \<Rightarrow> u8 list \<Rightarrow> u8 list panics" where
  "read_config_slice config offset data =
     (let config_len = of_nat (length config) :: u64
      in if config_len \<le> offset then Some data
         else case checked_add offset (of_nat (length data)) of
           None \<Rightarrow> Some data
         | Some fin \<Rightarrow>
             let src = take (unat (min fin config_len) - unat offset) (drop (unat offset) config)
             in if length data < length src then None
                else Some (src @ drop (length src) data))"

section \<open>Events\<close>

text \<open>
  The events a device and its transport need: the one that stops the worker, one per queue, and the one for
  interrupts.  Creating one is a call of Windows that may fail; \<open>ev\<close> says for each whether it succeeds.
\<close>

datatype event_site = StopEvent | QueueEvent nat | InterruptEvent

section \<open>Entropy device\<close>

definition RNG_QUEUE_CONFIG :: "u16 list" where "RNG_QUEUE_CONFIG = [256]"

record rng =
  rng_avail_features :: u64
  rng_acked_features :: u64
  rng_device_state :: device_state
  rng_worker_thread :: "queue list option"

definition fresh_rng :: "virtio_bits \<Rightarrow> rng" where
  "fresh_rng vb =
     \<lparr>rng_avail_features = push_bit (VIRTIO_F_VERSION_1 vb) 1, rng_acked_features = 0,
      rng_device_state = Inactive, rng_worker_thread = None\<rparr>"

text \<open>The stop event is unwrapped: the constructor panics when it cannot be created.\<close>

definition rng_new :: "(event_site \<Rightarrow> bool) \<Rightarrow> virtio_bits \<Rightarrow> rng panics" where
  "rng_new ev vb = (if ev StopEvent then Some (fresh_rng vb) else None)"

definition rng_set_acked_features :: "u64 \<Rightarrow> rng \<Rightarrow> rng" where
  "rng_set_acked_features f d = d\<lparr>rng_acked_features := f\<rparr>"

text \<open>\<open>start_ok\<close> says whether the worker's thread could be started; the result is unwrapped.\<close>

definition rng_activate ::
  "bool \<Rightarrow> memory_manager \<Rightarrow> queue list \<Rightarrow> rng \<Rightarrow> (rng \<times> (activate_error, unit) result) panics" where
  "rng_activate start_ok mem queues d =
     (if rng_worker_thread d \<noteq> None then None
      else case queues of
        [rng_q] \<Rightarrow>
          if start_ok
          then Some (d\<lparr>rng_worker_thread := Some [rng_q], rng_device_state := Activated mem\<rparr>, Ok ())
          else None
      | _ \<Rightarrow> Some (d, Err BadActivate))"

definition rng_reset :: "rng \<Rightarrow> rng \<times> bool" where
  "rng_reset d = (d\<lparr>rng_worker_thread := None, rng_device_state := Inactive\<rparr>, True)"

section \<open>Console device\<close>

definition CONSOLE_QUEUE_CONFIG :: "u16 list" where "CONSOLE_QUEUE_CONFIG = [256, 256]"
definition VIRTIO_CONSOLE_F_SIZE :: nat where "VIRTIO_CONSOLE_F_SIZE = 0"

record console_config =
  cc_cols :: u16
  cc_rows :: u16
  cc_max_nr_ports :: u32
  cc_emerg_wr :: u32

definition console_config_bytes :: "console_config \<Rightarrow> u8 list" where
  "console_config_bytes c =
     to_le 2 (cc_cols c) @ to_le 2 (cc_rows c) @ to_le 4 (cc_max_nr_ports c) @ to_le 4 (cc_emerg_wr c)"

record console =
  con_avail_features :: u64
  con_acked_features :: u64
  con_device_state :: device_state
  con_worker_thread :: "queue list option"
  con_config :: console_config

definition fresh_console :: "virtio_bits \<Rightarrow> u16 \<Rightarrow> u16 \<Rightarrow> console" where
  "fresh_console vb cols rows =
     \<lparr>con_avail_features =
        push_bit (VIRTIO_F_VERSION_1 vb) 1 OR push_bit VIRTIO_CONSOLE_F_SIZE 1,
      con_acked_features = 0, con_device_state = Inactive, con_worker_thread = None,
      con_config = \<lparr>cc_cols = cols, cc_rows = rows, cc_max_nr_ports = 0, cc_emerg_wr = 0\<rparr>\<rparr>"

definition console_new :: "(event_site \<Rightarrow> bool) \<Rightarrow> virtio_bits \<Rightarrow> u16 \<Rightarrow> u16 \<Rightarrow> console panics" where
  "console_new ev vb cols rows = (if ev StopEvent then Some (fresh_console vb cols rows) else None)"

definition console_set_acked_features :: "u64 \<Rightarrow> console \<Rightarrow> console" where
  "console_set_acked_features f d = d\<lparr>con_acked_features := f\<rparr>"

text \<open>A write at the offset of \<^verbatim>\<open>emerg_wr\<close> prints its first byte; every other write is refused.\<close>

definition console_write_config :: "u64 \<Rightarrow> u8 list \<Rightarrow> u8 list" where
  "console_write_config offset data =
     (if offset = 8 \<and> 1 \<le> length data then [data ! 0] else [])"

definition console_activate ::
  "bool \<Rightarrow> memory_manager \<Rightarrow> queue list \<Rightarrow> console \<Rightarrow> (console \<times> (activate_error, unit) result) panics" where
  "console_activate start_ok mem queues d =
     (if con_worker_thread d \<noteq> None then None
      else case queues of
        [rx_q, tx_q] \<Rightarrow>
          if start_ok
          then Some (d\<lparr>con_worker_thread := Some [rx_q, tx_q], con_device_state := Activated mem\<rparr>, Ok ())
          else None
      | _ \<Rightarrow> Some (d, Err BadActivate))"

definition console_reset :: "console \<Rightarrow> console \<times> bool" where
  "console_reset d = (d\<lparr>con_worker_thread := None, con_device_state := Inactive\<rparr>, True)"

section \<open>Network device\<close>

definition NET_QUEUE_CONFIG :: "u16 list" where "NET_QUEUE_CONFIG = [1024, 1024]"

record net_config =
  nc_mac :: "u8 list"
  nc_status :: u16
  nc_max_virtqueue_pairs :: u16

definition net_config_bytes :: "net_config \<Rightarrow> u8 list" where
  "net_config_bytes c = nc_mac c @ to_le 2 (nc_status c) @ to_le 2 (nc_max_virtqueue_pairs c)"

record net =
  net_avail_features :: u64
  net_acked_features :: u64
  net_device_state :: device_state
  net_worker_thread :: "queue list option"
  net_config :: net_config

definition fresh_net :: "virtio_bits \<Rightarrow> u8 list \<Rightarrow> net" where
  "fresh_net vb mac =
     \<lparr>net_avail_features = push_bit (VIRTIO_F_VERSION_1 vb) 1 OR push_bit (VIRTIO_NET_F_MAC vb) 1,
      net_acked_features = 0, net_device_state = Inactive, net_worker_thread = None,
      net_config = \<lparr>nc_mac = mac, nc_status = 0, nc_max_virtqueue_pairs = 1\<rparr>\<rparr>"

text \<open>The constructor has a \<^verbatim>\<open>Result\<close>, but unwraps the event, so that it never is an error.\<close>

definition net_new :: "(event_site \<Rightarrow> bool) \<Rightarrow> virtio_bits \<Rightarrow> u8 list \<Rightarrow> net panics" where
  "net_new ev vb mac = (if ev StopEvent then Some (fresh_net vb mac) else None)"

definition net_set_acked_features :: "u64 \<Rightarrow> net \<Rightarrow> net" where
  "net_set_acked_features f d = d\<lparr>net_acked_features := f\<rparr>"

text \<open>
  \<open>gvproxy_ok\<close> says whether the network proxy process could be spawned; \<open>start_ok\<close> covers both threads
  of the worker and its receive event, which are unwrapped.
\<close>

definition net_activate ::
  "bool \<Rightarrow> bool \<Rightarrow> memory_manager \<Rightarrow> queue list \<Rightarrow> net \<Rightarrow> (net \<times> (activate_error, unit) result) panics" where
  "net_activate start_ok gvproxy_ok mem queues d =
     (if net_worker_thread d \<noteq> None then None
      else if \<not> gvproxy_ok then Some (d, Err BadActivate)
      else case queues of
        [rx_q, tx_q] \<Rightarrow>
          if start_ok
          then Some (d\<lparr>net_worker_thread := Some [rx_q, tx_q], net_device_state := Activated mem\<rparr>, Ok ())
          else None
      | _ \<Rightarrow> Some (d, Err BadActivate))"

definition net_reset :: "net \<Rightarrow> net \<times> bool" where
  "net_reset d = (d\<lparr>net_worker_thread := None, net_device_state := Inactive\<rparr>, True)"

section \<open>Block device\<close>

definition SECTOR_SHIFT :: nat where "SECTOR_SHIFT = 9"
definition SECTOR_SIZE :: u64 where "SECTOR_SIZE = push_bit SECTOR_SHIFT 1"
definition BLOCK_QUEUE_CONFIG :: "u16 list" where "BLOCK_QUEUE_CONFIG = [256]"

datatype cache_type = Unsafe | Writeback
datatype sync_mode = SyncNone | SyncRelaxed | SyncFull
datatype image_type = Raw | Qcow2 | Vmdk

definition image_type_try_from :: "u32 \<Rightarrow> (unit, image_type) result" where
  "image_type_try_from disk_format =
     (if disk_format = 0 then Ok Raw else if disk_format = 1 then Ok Qcow2
      else if disk_format = 2 then Ok Vmdk else Err ())"

definition sync_mode_try_from :: "u32 \<Rightarrow> (unit, sync_mode) result" where
  "sync_mode_try_from mode =
     (if mode = 0 then Ok SyncNone else if mode = 1 then Ok SyncRelaxed
      else if mode = 2 then Ok SyncFull else Err ())"

record disk_properties =
  dp_cache_type :: cache_type
  dp_nsectors :: u64
  dp_image_id :: "u8 list"

definition disk_properties_new :: "u64 \<Rightarrow> u8 list \<Rightarrow> cache_type \<Rightarrow> disk_properties" where
  "disk_properties_new disk_size disk_image_id cache =
     \<lparr>dp_cache_type = cache, dp_nsectors = drop_bit SECTOR_SHIFT disk_size, dp_image_id = disk_image_id\<rparr>"

text \<open>
  The identifier reported to the guest: a buffer of \<^verbatim>\<open>VIRTIO_BLK_ID_BYTES\<close> zeros over which the
  file identifier is copied, truncated if it is longer.
\<close>

definition build_disk_image_id :: "nat \<Rightarrow> (unit, u8 list) result \<Rightarrow> u8 list" where
  "build_disk_image_id id_bytes device_id =
     (let default_id = replicate id_bytes 0
      in case device_id of
           Err _ \<Rightarrow> default_id
         | Ok disk_id \<Rightarrow>
             let bytes_to_copy = min (length disk_id) id_bytes
             in take bytes_to_copy disk_id @ drop bytes_to_copy default_id)"

record virtio_blk_geometry =
  bg_cylinders :: u16
  bg_heads :: u8
  bg_sectors :: u8

record virtio_blk_topology =
  bt_physical_block_exp :: u8
  bt_alignment_offset :: u8
  bt_min_io_size :: u16
  bt_opt_io_size :: u32

record virtio_blk_config =
  bc_capacity :: u64
  bc_size_max :: u32
  bc_seg_max :: u32
  bc_geometry :: virtio_blk_geometry
  bc_blk_size :: u32
  bc_topology :: virtio_blk_topology
  bc_writeback :: u8
  bc_unused0 :: u8
  bc_num_queues :: u16
  bc_max_discard_sectors :: u32
  bc_max_discard_seg :: u32
  bc_discard_sector_alignment :: u32
  bc_max_write_zeroes_sectors :: u32
  bc_max_write_zeroes_seg :: u32
  bc_write_zeroes_may_unmap :: u8

definition blk_config_bytes :: "virtio_blk_config \<Rightarrow> u8 list" where
  "blk_config_bytes c =
     to_le 8 (bc_capacity c) @ to_le 4 (bc_size_max c) @ to_le 4 (bc_seg_max c) @
     to_le 2 (bg_cylinders (bc_geometry c)) @ [bg_heads (bc_geometry c), bg_sectors (bc_geometry c)] @
     to_le 4 (bc_blk_size c) @
     [bt_physical_block_exp (bc_topology c), bt_alignment_offset (bc_topology c)] @
     to_le 2 (bt_min_io_size (bc_topology c)) @ to_le 4 (bt_opt_io_size (bc_topology c)) @
     [bc_writeback c, bc_unused0 c] @ to_le 2 (bc_num_queues c) @
     to_le 4 (bc_max_discard_sectors c) @ to_le 4 (bc_max_discard_seg c) @
     to_le 4 (bc_discard_sector_alignment c) @ to_le 4 (bc_max_write_zeroes_sectors c) @
     to_le 4 (bc_max_write_zeroes_seg c) @ [bc_write_zeroes_may_unmap c]"

record block =
  blk_disk :: "disk_properties option"
  blk_cache_type :: cache_type
  blk_disk_size :: u64
  blk_disk_image_id :: "u8 list"
  blk_worker_thread :: "queue list option"
  blk_avail_features :: u64
  blk_acked_features :: u64
  blk_config :: virtio_blk_config
  blk_device_state :: device_state
  blk_id :: string
  blk_partuuid :: "string option"

text \<open>
  \<open>opened\<close> is the outcome of opening the image: its size and its discard alignment.  An event that
  cannot be created is an error here.
\<close>

datatype 'e block_error = ImageError 'e | StopEventError

definition block_new ::
  "(event_site \<Rightarrow> bool) \<Rightarrow> virtio_bits \<Rightarrow> string \<Rightarrow> string option \<Rightarrow> cache_type \<Rightarrow> u8 list \<Rightarrow>
   ('e, u64 \<times> u64) result \<Rightarrow> bool \<Rightarrow> sync_mode \<Rightarrow> ('e block_error, block) result" where
  "block_new ev vb dev_id partuuid cache image_id opened read_only sync_mode =
     (case opened of
        Err e \<Rightarrow> Err (ImageError e)
      | Ok (disk_size, discard_alignment) \<Rightarrow>
          if \<not> ev StopEvent then Err StopEventError else
          let disk = disk_properties_new disk_size image_id cache;
              f0 = push_bit (VIRTIO_F_VERSION_1 vb) 1
                OR push_bit (VIRTIO_BLK_F_SEG_MAX vb) 1
                OR push_bit (VIRTIO_BLK_F_DISCARD vb) 1
                OR push_bit (VIRTIO_BLK_F_WRITE_ZEROES vb) 1
                OR push_bit (VIRTIO_RING_F_EVENT_IDX vb) 1;
              f1 = (if sync_mode \<noteq> SyncNone then f0 OR push_bit (VIRTIO_BLK_F_FLUSH vb) 1 else f0);
              f2 = (if read_only then f1 OR push_bit (VIRTIO_BLK_F_RO vb) 1 else f1);
              config = \<lparr>bc_capacity = dp_nsectors disk, bc_size_max = 0, bc_seg_max = 254,
                bc_geometry = \<lparr>bg_cylinders = 0, bg_heads = 0, bg_sectors = 0\<rparr>, bc_blk_size = 0,
                bc_topology = \<lparr>bt_physical_block_exp = 0, bt_alignment_offset = 0,
                               bt_min_io_size = 0, bt_opt_io_size = 0\<rparr>,
                bc_writeback = 0, bc_unused0 = 0, bc_num_queues = 0,
                bc_max_discard_sectors = - 1, bc_max_discard_seg = 1,
                bc_discard_sector_alignment = ucast discard_alignment div 512,
                bc_max_write_zeroes_sectors = - 1, bc_max_write_zeroes_seg = 1,
                bc_write_zeroes_may_unmap = 1\<rparr>
          in Ok \<lparr>blk_disk = Some disk, blk_cache_type = cache, blk_disk_size = disk_size,
                 blk_disk_image_id = image_id, blk_worker_thread = None,
                 blk_avail_features = f2, blk_acked_features = 0, blk_config = config,
                 blk_device_state = Inactive, blk_id = dev_id, blk_partuuid = partuuid\<rparr>)"

definition block_is_read_only :: "virtio_bits \<Rightarrow> block \<Rightarrow> bool" where
  "block_is_read_only vb d \<longleftrightarrow> blk_avail_features d AND push_bit (VIRTIO_BLK_F_RO vb) 1 \<noteq> 0"

definition block_set_acked_features :: "u64 \<Rightarrow> block \<Rightarrow> block" where
  "block_set_acked_features f d = d\<lparr>blk_acked_features := f\<rparr>"

text \<open>
  The disk properties move into the worker; after a reset they are made anew from the image.
\<close>

definition block_activate ::
  "bool \<Rightarrow> memory_manager \<Rightarrow> queue list \<Rightarrow> block \<Rightarrow> (block \<times> (activate_error, unit) result) panics" where
  "block_activate start_ok mem queues d =
     (if blk_worker_thread d \<noteq> None then None
      else case queues of
        [blk_q] \<Rightarrow>
          if start_ok
          then Some (d\<lparr>blk_disk := None, blk_worker_thread := Some [blk_q], blk_device_state := Activated mem\<rparr>,
                 Ok ())
          else None
      | _ \<Rightarrow> Some (d, Err BadActivate))"

definition block_worker_disk :: "block \<Rightarrow> disk_properties" where
  "block_worker_disk d =
     (case blk_disk d of
        Some disk \<Rightarrow> disk
      | None \<Rightarrow> disk_properties_new (blk_disk_size d) (blk_disk_image_id d) (blk_cache_type d))"

definition block_reset :: "block \<Rightarrow> block \<times> bool" where
  "block_reset d = (d\<lparr>blk_worker_thread := None, blk_device_state := Inactive\<rparr>, True)"

section \<open>The trait\<close>

datatype virtio_device = DevBlock block | DevRng rng | DevConsole console | DevNet net

fun device_type :: "virtio_device \<Rightarrow> u32" where
  "device_type (DevBlock d) = TYPE_BLOCK"
| "device_type (DevRng d) = TYPE_RNG"
| "device_type (DevConsole d) = TYPE_CONSOLE"
| "device_type (DevNet d) = TYPE_NET"

fun queue_config :: "virtio_device \<Rightarrow> u16 list" where
  "queue_config (DevBlock d) = BLOCK_QUEUE_CONFIG"
| "queue_config (DevRng d) = RNG_QUEUE_CONFIG"
| "queue_config (DevConsole d) = CONSOLE_QUEUE_CONFIG"
| "queue_config (DevNet d) = NET_QUEUE_CONFIG"

fun avail_features :: "virtio_device \<Rightarrow> u64" where
  "avail_features (DevBlock d) = blk_avail_features d"
| "avail_features (DevRng d) = rng_avail_features d"
| "avail_features (DevConsole d) = con_avail_features d"
| "avail_features (DevNet d) = net_avail_features d"

fun acked_features :: "virtio_device \<Rightarrow> u64" where
  "acked_features (DevBlock d) = blk_acked_features d"
| "acked_features (DevRng d) = rng_acked_features d"
| "acked_features (DevConsole d) = con_acked_features d"
| "acked_features (DevNet d) = net_acked_features d"

fun set_acked_features :: "u64 \<Rightarrow> virtio_device \<Rightarrow> virtio_device" where
  "set_acked_features f (DevBlock d) = DevBlock (block_set_acked_features f d)"
| "set_acked_features f (DevRng d) = DevRng (rng_set_acked_features f d)"
| "set_acked_features f (DevConsole d) = DevConsole (console_set_acked_features f d)"
| "set_acked_features f (DevNet d) = DevNet (net_set_acked_features f d)"

fun read_config :: "virtio_device \<Rightarrow> u64 \<Rightarrow> u8 list \<Rightarrow> u8 list panics" where
  "read_config (DevBlock d) offset data = read_config_slice (blk_config_bytes (blk_config d)) offset data"
| "read_config (DevRng d) offset data = Some data"
| "read_config (DevConsole d) offset data =
     read_config_slice (console_config_bytes (con_config d)) offset data"
| "read_config (DevNet d) offset data = read_config_slice (net_config_bytes (net_config d)) offset data"

text \<open>No device changes state on a configuration write; the console prints bytes.\<close>

fun write_config :: "virtio_device \<Rightarrow> u64 \<Rightarrow> u8 list \<Rightarrow> u8 list" where
  "write_config (DevConsole d) offset data = console_write_config offset data"
| "write_config _ offset data = []"

fun is_activated :: "virtio_device \<Rightarrow> bool" where
  "is_activated (DevBlock d) = state_is_activated (blk_device_state d)"
| "is_activated (DevRng d) = state_is_activated (rng_device_state d)"
| "is_activated (DevConsole d) = state_is_activated (con_device_state d)"
| "is_activated (DevNet d) = state_is_activated (net_device_state d)"

fun worker_queues :: "virtio_device \<Rightarrow> queue list option" where
  "worker_queues (DevBlock d) = blk_worker_thread d"
| "worker_queues (DevRng d) = rng_worker_thread d"
| "worker_queues (DevConsole d) = con_worker_thread d"
| "worker_queues (DevNet d) = net_worker_thread d"

definition wrap_device :: "('d \<Rightarrow> virtio_device) \<Rightarrow> ('d \<times> 'r) panics \<Rightarrow> (virtio_device \<times> 'r) panics" where
  "wrap_device con = map_option (\<lambda>(d, r). (con d, r))"

fun device_activate ::
  "bool \<Rightarrow> bool \<Rightarrow> memory_manager \<Rightarrow> queue list \<Rightarrow> virtio_device \<Rightarrow>
   (virtio_device \<times> (activate_error, unit) result) panics" where
  "device_activate start_ok gvproxy_ok mem queues (DevBlock d) = wrap_device DevBlock (block_activate start_ok mem queues d)"
| "device_activate start_ok gvproxy_ok mem queues (DevRng d) = wrap_device DevRng (rng_activate start_ok mem queues d)"
| "device_activate start_ok gvproxy_ok mem queues (DevConsole d) =
     wrap_device DevConsole (console_activate start_ok mem queues d)"
| "device_activate start_ok gvproxy_ok mem queues (DevNet d) =
     wrap_device DevNet (net_activate start_ok gvproxy_ok mem queues d)"

fun device_reset :: "virtio_device \<Rightarrow> virtio_device \<times> bool" where
  "device_reset (DevBlock d) = (case block_reset d of (d', b) \<Rightarrow> (DevBlock d', b))"
| "device_reset (DevRng d) = (case rng_reset d of (d', b) \<Rightarrow> (DevRng d', b))"
| "device_reset (DevConsole d) = (case console_reset d of (d', b) \<Rightarrow> (DevConsole d', b))"
| "device_reset (DevNet d) = (case net_reset d of (d', b) \<Rightarrow> (DevNet d', b))"

text \<open>The default methods of the trait, over the accessors of an implementation.\<close>

definition avail_features_by_page :: "('d \<Rightarrow> u64) \<Rightarrow> 'd \<Rightarrow> u32 \<Rightarrow> u32" where
  "avail_features_by_page avail d page =
     (if page = 0 then ucast (avail d)
      else if page = 1 then ucast (drop_bit 32 (avail d))
      else 0)"

definition ack_features_by_page ::
  "('d \<Rightarrow> u64) \<Rightarrow> ('d \<Rightarrow> u64) \<Rightarrow> (u64 \<Rightarrow> 'd \<Rightarrow> 'd) \<Rightarrow> u32 \<Rightarrow> u32 \<Rightarrow> 'd \<Rightarrow> 'd" where
  "ack_features_by_page avail acked set_acked page val d =
     (let v = (if page = 0 then ucast val else if page = 1 then push_bit 32 (ucast val) else 0 :: u64);
          unrequested_features = v AND NOT (avail d);
          v' = (if unrequested_features \<noteq> 0 then v AND NOT unrequested_features else v)
      in set_acked (acked d OR v') d)"


section \<open>The contract of a device\<close>

lemma drop_unrequested:
  fixes v a :: "'a::len word"
  shows "(if v AND NOT a \<noteq> 0 then v AND NOT (v AND NOT a) else v) = v AND a"
proof -
  have split: "v = (v AND a) OR (v AND NOT a)" by (rule bit_word_eqI) (auto simp: bit_simps)
  have "v AND NOT (v AND NOT a) = v AND a" by (rule bit_word_eqI) (auto simp: bit_simps)
  then show ?thesis using split by (metis or.right_neutral)
qed

text \<open>
  What the transport relies on: acknowledging features changes nothing but the acknowledged
  features, a device is activated exactly while it has a worker, activation hands over the queues
  it was given, and a reset always succeeds and leaves features alone.
\<close>

locale virtio_dev =
  fixes avail :: "'d \<Rightarrow> u64"
    and acked :: "'d \<Rightarrow> u64"
    and set_acked :: "u64 \<Rightarrow> 'd \<Rightarrow> 'd"
    and activated :: "'d \<Rightarrow> bool"
    and worker :: "'d \<Rightarrow> queue list option"
    and nqueues :: "'d \<Rightarrow> nat"
    and activate :: "memory_manager \<Rightarrow> queue list \<Rightarrow> 'd \<Rightarrow> ('d \<times> (activate_error, unit) result) panics"
    and reset :: "'d \<Rightarrow> 'd \<times> bool"
  assumes set_acked_laws:
    "avail (set_acked f d) = avail d" "acked (set_acked f d) = f"
    "activated (set_acked f d) = activated d" "worker (set_acked f d) = worker d"
    and activate_laws: "activate mem qs d = Some (d', r) \<Longrightarrow>
      avail d' = avail d \<and> acked d' = acked d \<and> worker d = None \<and>
      (r = Ok () \<longrightarrow> length qs = nqueues d \<and> activated d' \<and> worker d' = Some qs) \<and>
      (r \<noteq> Ok () \<longrightarrow> d' = d)"
    and reset_laws: "reset d = (d', b) \<Longrightarrow>
      b \<and> avail d' = avail d \<and> acked d' = acked d \<and> \<not> activated d' \<and> worker d' = None"
begin

lemma ack_page_avail: "avail (ack_features_by_page avail acked set_acked page val d) = avail d"
  by (simp add: ack_features_by_page_def Let_def set_acked_laws)

lemma ack_page_worker:
  "activated (ack_features_by_page avail acked set_acked page val d) = activated d"
  "worker (ack_features_by_page avail acked set_acked page val d) = worker d"
  by (simp_all add: ack_features_by_page_def Let_def set_acked_laws)

lemma ack_page_acked:
  "acked (ack_features_by_page avail acked set_acked page val d) =
     acked d OR ((if page = 0 then ucast val else if page = 1 then push_bit 32 (ucast val) else 0) AND avail d)"
  unfolding ack_features_by_page_def Let_def by (simp add: set_acked_laws drop_unrequested)

lemma ack_page_subset:
  assumes "acked d AND NOT (avail d) = 0"
  shows "acked (ack_features_by_page avail acked set_acked page val d) AND NOT (avail d) = 0"
proof (rule bit_word_eqI)
  fix n
  have "\<not> bit (acked d AND NOT (avail d)) n" using assms by simp
  then show "bit (acked (ack_features_by_page avail acked set_acked page val d) AND NOT (avail d)) n =
      bit (0 :: u64) n"
    by (auto simp: ack_page_acked bit_simps)
qed

end

interpretation rng_dev: virtio_dev rng_avail_features rng_acked_features rng_set_acked_features
  "\<lambda>d. state_is_activated (rng_device_state d)" rng_worker_thread "\<lambda>_. 1" "rng_activate start_ok" rng_reset
  for start_ok
  by unfold_locales
    (auto simp: rng_set_acked_features_def rng_activate_def rng_reset_def split: if_splits list.splits)

interpretation console_dev: virtio_dev con_avail_features con_acked_features console_set_acked_features
  "\<lambda>d. state_is_activated (con_device_state d)" con_worker_thread "\<lambda>_. 2" "console_activate start_ok" console_reset
  for start_ok
  by unfold_locales
    (auto simp: console_set_acked_features_def console_activate_def console_reset_def
      split: if_splits list.splits)

interpretation net_dev: virtio_dev net_avail_features net_acked_features net_set_acked_features
  "\<lambda>d. state_is_activated (net_device_state d)" net_worker_thread "\<lambda>_. 2" "net_activate start_ok gvproxy_ok" net_reset
  for start_ok gvproxy_ok
  by unfold_locales
    (auto simp: net_set_acked_features_def net_activate_def net_reset_def split: if_splits list.splits)

interpretation block_dev: virtio_dev blk_avail_features blk_acked_features block_set_acked_features
  "\<lambda>d. state_is_activated (blk_device_state d)" blk_worker_thread "\<lambda>_. 1" "block_activate start_ok" block_reset
  for start_ok
  by unfold_locales
    (auto simp: block_set_acked_features_def block_activate_def block_reset_def
      split: if_splits list.splits)

text \<open>The same contract for the trait object, from that of the four implementations.\<close>

interpretation dev: virtio_dev avail_features acked_features set_acked_features is_activated
  worker_queues "\<lambda>d. length (queue_config d)" "device_activate start_ok gvproxy_ok" device_reset
  for start_ok gvproxy_ok
proof unfold_locales
  fix f d
  show "avail_features (set_acked_features f d) = avail_features d"
    "acked_features (set_acked_features f d) = f"
    "is_activated (set_acked_features f d) = is_activated d"
    "worker_queues (set_acked_features f d) = worker_queues d"
    by (cases d; simp add: rng_dev.set_acked_laws console_dev.set_acked_laws net_dev.set_acked_laws
        block_dev.set_acked_laws)+
next
  fix mem qs d d' r
  assume "device_activate start_ok gvproxy_ok mem qs d = Some (d', r)"
  then show "avail_features d' = avail_features d \<and> acked_features d' = acked_features d \<and>
      worker_queues d = None \<and>
      (r = Ok () \<longrightarrow> length qs = length (queue_config d) \<and> is_activated d' \<and> worker_queues d' = Some qs) \<and>
      (r \<noteq> Ok () \<longrightarrow> d' = d)"
    by (cases d) (auto simp: wrap_device_def BLOCK_QUEUE_CONFIG_def RNG_QUEUE_CONFIG_def
        CONSOLE_QUEUE_CONFIG_def NET_QUEUE_CONFIG_def
        dest: block_dev.activate_laws rng_dev.activate_laws console_dev.activate_laws net_dev.activate_laws)
next
  fix d d' b
  assume "device_reset d = (d', b)"
  then show "b \<and> avail_features d' = avail_features d \<and> acked_features d' = acked_features d \<and>
      \<not> is_activated d' \<and> worker_queues d' = None"
    by (cases d) (auto split: prod.splits
        dest: block_dev.reset_laws rng_dev.reset_laws console_dev.reset_laws net_dev.reset_laws)
qed

lemma queue_config_activate: "device_activate st gv mem qs d = Some (d', r) \<Longrightarrow> queue_config d' = queue_config d"
  by (cases d) (auto simp: wrap_device_def)

lemma queue_config_reset: "device_reset d = (d', b) \<Longrightarrow> queue_config d' = queue_config d"
  by (cases d) (auto split: prod.splits)

lemma queue_config_set_acked [simp]: "queue_config (set_acked_features f d) = queue_config d"
  by (cases d) auto


section \<open>Properties\<close>

fun config_bytes :: "virtio_device \<Rightarrow> u8 list" where
  "config_bytes (DevBlock d) = blk_config_bytes (blk_config d)"
| "config_bytes (DevRng d) = []"
| "config_bytes (DevConsole d) = console_config_bytes (con_config d)"
| "config_bytes (DevNet d) = net_config_bytes (net_config d)"

lemma read_config_bytes: "read_config d offset data = read_config_slice (config_bytes d) offset data"
  by (cases d) (simp_all add: read_config_slice_def)

lemma read_config_slice_reads:
  assumes "length config < 2 ^ 63" "length data < 2 ^ 63"
  shows "\<exists>data'. read_config_slice config offset data = Some data' \<and> length data' = length data \<and>
    (\<forall>i < length data. data' ! i =
       (if unat offset + i < length config then config ! (unat offset + i) else data ! i))"
proof (cases "length config \<le> unat offset")
  case True
  then have "(of_nat (length config) :: u64) \<le> offset"
    using assms(1) by (simp add: word_le_nat_alt unat_of_nat)
  then show ?thesis using True by (simp add: read_config_slice_def)
next
  case False
  let ?o = "unat offset" and ?n = "length data"
  have len: "unat (of_nat (length config) :: u64) = length config" "unat (of_nat ?n :: u64) = ?n"
    using assms by (simp_all add: unat_of_nat)
  then have o: "\<not> (of_nat (length config) :: u64) \<le> offset" using False by (simp add: word_le_nat_alt)
  have ca: "checked_add offset (of_nat ?n) = Some (offset + of_nat ?n)"
    "unat (offset + of_nat ?n :: u64) = ?o + ?n"
    using False assms len by (simp_all add: checked_add_def unat_word_ariths)
  have m: "unat (min (offset + of_nat ?n) (of_nat (length config) :: u64)) = min (?o + ?n) (length config)"
    using ca(2) len(1) by (simp add: min_def word_le_nat_alt)
  define src where "src = take (min (?o + ?n) (length config) - ?o) (drop ?o config)"
  have src: "length src = min ?n (length config - ?o)" using False by (auto simp: src_def)
  have "read_config_slice config offset data = Some (src @ drop (length src) data)"
    using o ca(1) m src by (simp add: read_config_slice_def Let_def src_def)
  moreover have "(src @ drop (length src) data) ! i =
      (if ?o + i < length config then config ! (?o + i) else data ! i)" if "i < ?n" for i
    using that src by (auto simp: nth_append src_def)
  ultimately show ?thesis using src by simp
qed

text \<open>
  Reading the configuration space of a device, at any offset and with any length: it never
  panics, the bytes that exist from the offset on are returned, and the rest of the buffer is
  left as it was.
\<close>

theorem device_read_config:
  assumes "length (config_bytes d) < 2 ^ 63" "length data < 2 ^ 63"
  shows "\<exists>data'. read_config d offset data = Some data' \<and> length data' = length data \<and>
    (\<forall>i < length data. data' ! i =
       (if unat offset + i < length (config_bytes d) then config_bytes d ! (unat offset + i)
        else data ! i))"
  unfolding read_config_bytes by (rule read_config_slice_reads [OF assms])

definition demo_bits :: virtio_bits where
  "demo_bits = \<lparr>VIRTIO_F_VERSION_1 = 32, VIRTIO_RING_F_EVENT_IDX = 29, VIRTIO_BLK_F_SEG_MAX = 2,
     VIRTIO_BLK_F_DISCARD = 13, VIRTIO_BLK_F_WRITE_ZEROES = 14, VIRTIO_BLK_F_FLUSH = 9,
     VIRTIO_BLK_F_RO = 5, VIRTIO_NET_F_MAC = 5\<rparr>"

theorem device_read_config_witness:
  "\<exists>data'. read_config (DevNet (fresh_net demo_bits [1, 2, 3, 4, 5, 6])) 8 [0, 0, 7] = Some data' \<and>
     data' ! 0 = 1 \<and> data' ! 2 = 7"
proof -
  let ?d = "DevNet (fresh_net demo_bits [1, 2, 3, 4, 5, 6])"
  have b: "config_bytes ?d = [1, 2, 3, 4, 5, 6, 0, 0, 1, 0]"
    by (simp add: net_config_bytes_def fresh_net_def to_le_numeral)
  obtain data' where d: "read_config ?d 8 [0, 0, 7] = Some data'"
    "\<forall>i < 3. data' ! i = (if 8 + i < 10 then [1, 2, 3, 4, 5, 6, 0, 0, 1, 0] ! (8 + i) else [0, 0, 7] ! i)"
    using device_read_config [of ?d "[0, 0, 7]" 8] unfolding b by auto
  have "data' ! 0 = 1" "data' ! 2 = 7" using d(2) by auto
  then show ?thesis using d(1) by blast
qed

text \<open>
  Feature negotiation: whatever a driver acknowledges, on whatever page, a device ends up
  with the features it had acknowledged before and those of the new ones that it offers; it never
  acknowledges a feature it does not offer, and neither page touches the other.
\<close>

theorem ack_features_within_offer:
  "acked_features (ack_features_by_page avail_features acked_features set_acked_features page val d) =
     acked_features d OR
       ((if page = 0 then ucast val else if page = 1 then push_bit 32 (ucast val) else 0) AND avail_features d) \<and>
   avail_features (ack_features_by_page avail_features acked_features set_acked_features page val d) =
     avail_features d"
  by (simp add: dev.ack_page_acked dev.ack_page_avail)

end
