(* ===== verification/Ioapic.thy ===== *)
theory Ioapic
  imports Prelude Layout
begin

text \<open>
  The interrupt controllers: the software I/O APIC (\<^verbatim>\<open>src/devices/legacy/ioapic.rs\<close>), the
  minimal controller (\<^verbatim>\<open>simple_irqchip.rs\<close>) and the interface both implement
  (\<^verbatim>\<open>irqchip.rs\<close>).

  The state is what the mutex protects.  Interrupts requested from the hypervisor
  (\<^verbatim>\<open>WHvRequestInterrupt\<close>, whose result is only logged) are the output of an operation, in order.
  The hypervisor's numbers for the interrupt types are arguments.
\<close>

section \<open>Constants\<close>

definition IOAPIC_NUM_PINS :: nat where "IOAPIC_NUM_PINS = 24"
definition IO_REG_SEL :: u64 where "IO_REG_SEL = 0x00"
definition IO_WIN :: u64 where "IO_WIN = 0x10"
definition IO_EOI :: u64 where "IO_EOI = 0x40"
definition IO_APIC_ID :: u8 where "IO_APIC_ID = 0x00"
definition IO_APIC_VER :: u8 where "IO_APIC_VER = 0x01"
definition IO_APIC_ARB :: u8 where "IO_APIC_ARB = 0x02"
definition IOAPIC_LVT_DELIV_MODE_SHIFT :: nat where "IOAPIC_LVT_DELIV_MODE_SHIFT = 8"
definition IOAPIC_LVT_DEST_MODE_SHIFT :: nat where "IOAPIC_LVT_DEST_MODE_SHIFT = 11"
definition IOAPIC_LVT_DELIV_STATUS_SHIFT :: nat where "IOAPIC_LVT_DELIV_STATUS_SHIFT = 12"
definition IOAPIC_LVT_REMOTE_IRR_SHIFT :: nat where "IOAPIC_LVT_REMOTE_IRR_SHIFT = 14"
definition IOAPIC_LVT_TRIGGER_MODE_SHIFT :: nat where "IOAPIC_LVT_TRIGGER_MODE_SHIFT = 15"
definition IOAPIC_LVT_MASKED_SHIFT :: nat where "IOAPIC_LVT_MASKED_SHIFT = 16"
definition IOAPIC_LVT_DEST_IDX_SHIFT :: nat where "IOAPIC_LVT_DEST_IDX_SHIFT = 56"
definition IOAPIC_VER_ENTRIES_SHIFT :: nat where "IOAPIC_VER_ENTRIES_SHIFT = 16"
definition IOAPIC_ID_SHIFT :: nat where "IOAPIC_ID_SHIFT = 24"

lemmas ioapic_shifts = IOAPIC_LVT_DELIV_MODE_SHIFT_def IOAPIC_LVT_DEST_MODE_SHIFT_def
  IOAPIC_LVT_DELIV_STATUS_SHIFT_def IOAPIC_LVT_REMOTE_IRR_SHIFT_def
  IOAPIC_LVT_TRIGGER_MODE_SHIFT_def IOAPIC_LVT_MASKED_SHIFT_def IOAPIC_LVT_DEST_IDX_SHIFT_def
  IOAPIC_VER_ENTRIES_SHIFT_def IOAPIC_ID_SHIFT_def

definition IOAPIC_LVT_REMOTE_IRR :: u64 where
  "IOAPIC_LVT_REMOTE_IRR = push_bit IOAPIC_LVT_REMOTE_IRR_SHIFT 1"
definition IOAPIC_LVT_TRIGGER_MODE :: u64 where
  "IOAPIC_LVT_TRIGGER_MODE = push_bit IOAPIC_LVT_TRIGGER_MODE_SHIFT 1"
definition IOAPIC_LVT_DELIV_STATUS :: u64 where
  "IOAPIC_LVT_DELIV_STATUS = push_bit IOAPIC_LVT_DELIV_STATUS_SHIFT 1"
definition IOAPIC_RO_BITS :: u64 where
  "IOAPIC_RO_BITS = IOAPIC_LVT_REMOTE_IRR OR IOAPIC_LVT_DELIV_STATUS"
definition IOAPIC_RW_BITS :: u64 where "IOAPIC_RW_BITS = NOT IOAPIC_RO_BITS"
definition IOAPIC_DM_MASK :: u64 where "IOAPIC_DM_MASK = 0x7"
definition IOAPIC_ID_MASK :: u64 where "IOAPIC_ID_MASK = 0xf"
definition IOAPIC_VECTOR_MASK :: u64 where "IOAPIC_VECTOR_MASK = 0xff"
definition IOAPIC_DM_FIXED :: u64 where "IOAPIC_DM_FIXED = 0x0"
definition IOAPIC_DM_LOWEST_PRIORITY :: u64 where "IOAPIC_DM_LOWEST_PRIORITY = 0x1"
definition IOAPIC_DM_NMI :: u64 where "IOAPIC_DM_NMI = 0x4"
definition IOAPIC_DM_INIT :: u64 where "IOAPIC_DM_INIT = 0x5"
definition IOAPIC_DM_EXTINT :: u64 where "IOAPIC_DM_EXTINT = 0x7"
definition IOAPIC_REG_REDTBL_BASE :: u64 where "IOAPIC_REG_REDTBL_BASE = 0x10"
definition IOAPIC_TRIGGER_EDGE :: u64 where "IOAPIC_TRIGGER_EDGE = 0"
definition WHV_IC_TYPE_SHIFT :: nat where "WHV_IC_TYPE_SHIFT = 0"
definition WHV_IC_DEST_MODE_SHIFT :: nat where "WHV_IC_DEST_MODE_SHIFT = 8"
definition WHV_IC_TRIGGER_MODE_SHIFT :: nat where "WHV_IC_TRIGGER_MODE_SHIFT = 12"

lemmas ioapic_masks = IOAPIC_LVT_REMOTE_IRR_def IOAPIC_LVT_TRIGGER_MODE_def
  IOAPIC_LVT_DELIV_STATUS_def IOAPIC_RO_BITS_def IOAPIC_RW_BITS_def

section \<open>State\<close>

record ioapic_entry_info =
  ei_masked :: bool
  ei_trig_mode :: u8
  ei_dest_idx :: u8
  ei_dest_mode :: u8
  ei_delivery_mode :: u8
  ei_vector :: u8

record ioapic =
  io_id :: u8
  io_ioregsel :: u8
  io_irr :: u32
  io_ioredtbl :: "u64 list"
  io_version :: u8
  io_irq_eoi :: "i32 list"

record interrupt_control =
  ic_bitfield :: u64
  ic_destination :: u32
  ic_vector :: u32

text \<open>\<^verbatim>\<open>WHvX64InterruptType*\<close> of the Windows headers.\<close>

record whv_interrupt_types =
  whv_fixed :: i32
  whv_lowest_priority :: i32
  whv_nmi :: i32
  whv_init :: i32

definition ioapic_new :: ioapic where
  "ioapic_new =
     \<lparr>io_id = 0, io_ioregsel = 0, io_irr = 0,
      io_ioredtbl = replicate IOAPIC_NUM_PINS (push_bit IOAPIC_LVT_MASKED_SHIFT 1),
      io_version = 0x20, io_irq_eoi = replicate IOAPIC_NUM_PINS 0\<rparr>"

section \<open>Delivery\<close>

definition parse_entry :: "u64 \<Rightarrow> ioapic_entry_info" where
  "parse_entry entry =
     \<lparr>ei_masked = drop_bit IOAPIC_LVT_MASKED_SHIFT entry AND 1 \<noteq> 0,
      ei_trig_mode = ucast (drop_bit IOAPIC_LVT_TRIGGER_MODE_SHIFT entry AND 1),
      ei_dest_idx = ucast (drop_bit IOAPIC_LVT_DEST_IDX_SHIFT entry AND 0xff),
      ei_dest_mode = ucast (drop_bit IOAPIC_LVT_DEST_MODE_SHIFT entry AND 1),
      ei_delivery_mode = ucast (drop_bit IOAPIC_LVT_DELIV_MODE_SHIFT entry AND IOAPIC_DM_MASK),
      ei_vector = ucast (entry AND IOAPIC_VECTOR_MASK)\<rparr>"

definition inject_interrupt :: "whv_interrupt_types \<Rightarrow> ioapic_entry_info \<Rightarrow> interrupt_control" where
  "inject_interrupt whv info =
     (let dm = ucast (ei_delivery_mode info) :: u64;
          interrupt_type =
            (if dm = IOAPIC_DM_FIXED then whv_fixed whv
             else if dm = IOAPIC_DM_LOWEST_PRIORITY then whv_lowest_priority whv
             else if dm = IOAPIC_DM_NMI then whv_nmi whv
             else if dm = IOAPIC_DM_INIT then whv_init whv
             else if dm = IOAPIC_DM_EXTINT then whv_fixed whv
             else whv_fixed whv);
          bitfield = push_bit WHV_IC_TYPE_SHIFT (scast interrupt_type :: u64)
            OR push_bit WHV_IC_DEST_MODE_SHIFT (ucast (ei_dest_mode info))
            OR push_bit WHV_IC_TRIGGER_MODE_SHIFT (ucast (ei_trig_mode info))
      in \<lparr>ic_bitfield = bitfield, ic_destination = ucast (ei_dest_idx info),
          ic_vector = ucast (ei_vector info)\<rparr>)"

definition fix_edge_remote_irr :: "ioapic \<Rightarrow> nat \<Rightarrow> ioapic" where
  "fix_edge_remote_irr st index =
     (if io_ioredtbl st ! index AND IOAPIC_LVT_TRIGGER_MODE = IOAPIC_TRIGGER_EDGE
      then st\<lparr>io_ioredtbl := (io_ioredtbl st)[index :=
                 io_ioredtbl st ! index AND NOT IOAPIC_LVT_REMOTE_IRR]\<rparr>
      else st)"

text \<open>The body of the loop of \<^verbatim>\<open>service\<close> for one pin, with the interrupts injected so far.\<close>

definition service_pin ::
  "whv_interrupt_types \<Rightarrow> nat \<Rightarrow> ioapic \<times> interrupt_control list \<Rightarrow> ioapic \<times> interrupt_control list"
where
  "service_pin whv i s =
     (case s of (st, out) \<Rightarrow>
        let mask = push_bit i 1 :: u32
        in if io_irr st AND mask \<noteq> 0 then
             let info = parse_entry (io_ioredtbl st ! i)
             in if \<not> ei_masked info then
                  if ucast (ei_trig_mode info) = IOAPIC_TRIGGER_EDGE then
                    (st\<lparr>io_irr := io_irr st AND NOT mask\<rparr>, out @ [inject_interrupt whv info])
                  else
                    let coalesce = (io_ioredtbl st ! i) AND IOAPIC_LVT_REMOTE_IRR \<noteq> 0;
                        st' = st\<lparr>io_ioredtbl := (io_ioredtbl st)[i :=
                                  io_ioredtbl st ! i OR IOAPIC_LVT_REMOTE_IRR]\<rparr>
                    in if coalesce then (st', out)
                       else (st', out @ [inject_interrupt whv info])
                else (st, out)
           else (st, out))"

definition service :: "whv_interrupt_types \<Rightarrow> ioapic \<Rightarrow> ioapic \<times> interrupt_control list" where
  "service whv st = fold (service_pin whv) [0..<IOAPIC_NUM_PINS] (st, [])"

section \<open>Operations\<close>

definition ioapic_set_irq ::
  "whv_interrupt_types \<Rightarrow> u32 option \<Rightarrow> ioapic \<Rightarrow> ioapic \<times> interrupt_control list" where
  "ioapic_set_irq whv irq_line st =
     (case irq_line of
        None \<Rightarrow> (st, [])
      | Some irq \<Rightarrow>
          if unat irq < IOAPIC_NUM_PINS
          then service whv (st\<lparr>io_irr := io_irr st OR push_bit (unat irq) 1\<rparr>)
          else (st, []))"

definition ioapic_clear_irq :: "u32 option \<Rightarrow> ioapic \<Rightarrow> ioapic" where
  "ioapic_clear_irq irq_line st =
     (case irq_line of
        None \<Rightarrow> st
      | Some irq \<Rightarrow>
          if unat irq < IOAPIC_NUM_PINS
          then st\<lparr>io_irr := io_irr st AND NOT (push_bit (unat irq) 1)\<rparr>
          else st)"

text \<open>
  Index of the redirection entry that \<^verbatim>\<open>ioregsel\<close> selects.  The subtraction wraps, as in a release
  build; \<open>read_window_checked\<close> below is the read in a build with overflow checks.
\<close>

definition redtbl_index :: "ioapic \<Rightarrow> u64" where
  "redtbl_index st = drop_bit 1 (ucast (io_ioregsel st) - IOAPIC_REG_REDTBL_BASE)"

definition read_window :: "ioapic \<Rightarrow> u32" where
  "read_window st =
     (if io_ioregsel st = IO_APIC_ID \<or> io_ioregsel st = IO_APIC_ARB then
        ucast (push_bit IOAPIC_ID_SHIFT (ucast (io_id st) :: u64))
      else if io_ioregsel st = IO_APIC_VER then
        ucast (io_version st) OR push_bit IOAPIC_VER_ENTRIES_SHIFT (of_nat IOAPIC_NUM_PINS - 1)
      else
        let index = redtbl_index st
        in if index < of_nat IOAPIC_NUM_PINS then
             if 0 < io_ioregsel st AND 1
             then ucast (drop_bit 32 (io_ioredtbl st ! unat index))
             else ucast (io_ioredtbl st ! unat index AND 0xffffffff)
           else 0)"

text \<open>
  The same read in a build with overflow checks, where the subtraction for a register below the
  table panics.
\<close>

definition read_window_checked :: "ioapic \<Rightarrow> u32 panics" where
  "read_window_checked st =
     (if io_ioregsel st = IO_APIC_ID \<or> io_ioregsel st = IO_APIC_ARB \<or> io_ioregsel st = IO_APIC_VER then
        Some (read_window st)
      else if ucast (io_ioregsel st) < IOAPIC_REG_REDTBL_BASE then None
      else Some (read_window st))"

text \<open>A read returns the data buffer with its first bytes replaced, or untouched.\<close>

definition ioapic_read :: "ioapic \<Rightarrow> u64 \<Rightarrow> u8 list \<Rightarrow> u8 list" where
  "ioapic_read st offset data =
     (let put = (\<lambda>val :: u32. take (min (length data) 4) (to_le 4 val) @ drop 4 data)
      in if offset = IO_REG_SEL then put (ucast (io_ioregsel st))
         else if offset = IO_WIN then
           (if length data \<noteq> 4 then data else put (read_window st))
         else put 0)"

definition write_redtbl ::
  "whv_interrupt_types \<Rightarrow> u32 \<Rightarrow> ioapic \<Rightarrow> ioapic \<times> interrupt_control list" where
  "write_redtbl whv val st =
     (let index = redtbl_index st; i = unat index
      in if of_nat IOAPIC_NUM_PINS \<le> index then (st, [])
         else
           let entry = io_ioredtbl st ! i;
               ro_bits = entry AND IOAPIC_RO_BITS;
               half = (if 0 < io_ioregsel st AND 1
                       then (entry AND 0xffffffff) OR push_bit 32 (ucast val)
                       else (entry AND NOT 0xffffffff) OR ucast val);
               entry' = (half AND IOAPIC_RW_BITS) OR ro_bits;
               st1 = st\<lparr>io_ioredtbl := (io_ioredtbl st)[i := entry'],
                        io_irq_eoi := (io_irq_eoi st)[i := 0]\<rparr>
           in service whv (fix_edge_remote_irr st1 i))"

definition write_window ::
  "whv_interrupt_types \<Rightarrow> u32 \<Rightarrow> ioapic \<Rightarrow> ioapic \<times> interrupt_control list" where
  "write_window whv val st =
     (if io_ioregsel st = IO_APIC_ID then
        (st\<lparr>io_id := ucast (drop_bit IOAPIC_ID_SHIFT val AND ucast IOAPIC_ID_MASK)\<rparr>, [])
      else if io_ioregsel st = IO_APIC_VER \<or> io_ioregsel st = IO_APIC_ARB then (st, [])
      else if io_ioregsel st < ucast IO_WIN then (st, [])
      else write_redtbl whv val st)"

definition eoi_pin ::
  "whv_interrupt_types \<Rightarrow> u8 \<Rightarrow> nat \<Rightarrow> ioapic \<times> interrupt_control list \<Rightarrow>
   ioapic \<times> interrupt_control list" where
  "eoi_pin whv vector i s =
     (case s of (st, out) \<Rightarrow>
        let entry = io_ioredtbl st ! i
        in if ucast (entry AND IOAPIC_VECTOR_MASK) = vector \<and> entry AND IOAPIC_LVT_REMOTE_IRR \<noteq> 0 then
             let st' = st\<lparr>io_ioredtbl := (io_ioredtbl st)[i := entry AND NOT IOAPIC_LVT_REMOTE_IRR]\<rparr>
             in if io_irr st' AND push_bit i 1 \<noteq> 0
                then (case service whv st' of (st'', ics) \<Rightarrow> (st'', out @ ics))
                else (st', out)
           else (st, out))"

definition ioapic_write ::
  "whv_interrupt_types \<Rightarrow> u64 \<Rightarrow> u8 list \<Rightarrow> ioapic \<Rightarrow> ioapic \<times> interrupt_control list" where
  "ioapic_write whv offset data st =
     (if length data \<noteq> 4 then (st, [])
      else let val = from_le data :: u32
           in if offset = IO_REG_SEL then (st\<lparr>io_ioregsel := ucast val\<rparr>, [])
              else if offset = IO_WIN then write_window whv val st
              else if offset = IO_EOI then
                fold (eoi_pin whv (ucast val)) [0..<IOAPIC_NUM_PINS] (st, [])
              else (st, []))"

definition ioapic_get_mmio_addr :: "ioapic \<Rightarrow> u64" where
  "ioapic_get_mmio_addr st = IOAPIC_START"

definition ioapic_get_mmio_size :: "ioapic \<Rightarrow> u64" where
  "ioapic_get_mmio_size st = IOAPIC_SIZE"

section \<open>The minimal controller\<close>

record irq_state =
  is_irq_line :: "u32 option"

record simple_irqchip =
  si_mmio_addr :: u64
  si_mmio_size :: u64
  si_irq_state :: irq_state

definition simple_irqchip_new :: "u64 \<Rightarrow> u64 \<Rightarrow> simple_irqchip" where
  "simple_irqchip_new addr sz =
     \<lparr>si_mmio_addr = addr, si_mmio_size = sz, si_irq_state = \<lparr>is_irq_line = None\<rparr>\<rparr>"

text \<open>
  The event to signal is given by the outcome of signalling it: \<open>None\<close> for no event,
  \<open>Some b\<close> for an event whose signal succeeds iff \<open>b\<close>.
\<close>

definition simple_set_irq ::
  "u32 option \<Rightarrow> bool option \<Rightarrow> simple_irqchip \<Rightarrow> simple_irqchip \<times> (unit, unit) result" where
  "simple_set_irq irq_line evt s =
     (s\<lparr>si_irq_state := \<lparr>is_irq_line = irq_line\<rparr>\<rparr>,
      case evt of None \<Rightarrow> Ok () | Some signalled \<Rightarrow> if signalled then Ok () else Err ())"

definition simple_clear_irq :: "u32 option \<Rightarrow> simple_irqchip \<Rightarrow> simple_irqchip" where
  "simple_clear_irq irq_line s = s"


section \<open>The controller behind the interface\<close>

datatype irqchip_device = ChipIoApic ioapic | ChipSimple simple_irqchip

fun irqchip_get_mmio_addr :: "irqchip_device \<Rightarrow> u64" where
  "irqchip_get_mmio_addr (ChipIoApic st) = ioapic_get_mmio_addr st"
| "irqchip_get_mmio_addr (ChipSimple s) = si_mmio_addr s"

fun irqchip_get_mmio_size :: "irqchip_device \<Rightarrow> u64" where
  "irqchip_get_mmio_size (ChipIoApic st) = ioapic_get_mmio_size st"
| "irqchip_get_mmio_size (ChipSimple s) = si_mmio_size s"

fun irqchip_set_irq ::
  "whv_interrupt_types \<Rightarrow> u32 option \<Rightarrow> bool option \<Rightarrow> irqchip_device \<Rightarrow>
   irqchip_device \<times> interrupt_control list \<times> (unit, unit) result" where
  "irqchip_set_irq whv line evt (ChipIoApic st) =
     (case ioapic_set_irq whv line st of (st', out) \<Rightarrow> (ChipIoApic st', out, Ok ()))"
| "irqchip_set_irq whv line evt (ChipSimple s) =
     (case simple_set_irq line evt s of (s', r) \<Rightarrow> (ChipSimple s', [], r))"

fun irqchip_clear_irq :: "u32 option \<Rightarrow> irqchip_device \<Rightarrow> irqchip_device" where
  "irqchip_clear_irq line (ChipIoApic st) = ChipIoApic (ioapic_clear_irq line st)"
| "irqchip_clear_irq line (ChipSimple s) = ChipSimple (simple_clear_irq line s)"

fun irqchip_read :: "irqchip_device \<Rightarrow> u64 \<Rightarrow> u8 list \<Rightarrow> u8 list" where
  "irqchip_read (ChipIoApic st) offset data = ioapic_read st offset data"
| "irqchip_read (ChipSimple s) offset data = data"

fun irqchip_write ::
  "whv_interrupt_types \<Rightarrow> u64 \<Rightarrow> u8 list \<Rightarrow> irqchip_device \<Rightarrow> irqchip_device \<times> interrupt_control list" where
  "irqchip_write whv offset data (ChipIoApic st) =
     (case ioapic_write whv offset data st of (st', out) \<Rightarrow> (ChipIoApic st', out))"
| "irqchip_write whv offset data (ChipSimple s) = (ChipSimple s, [])"

section \<open>Entries by bits\<close>

definition e_remote :: "u64 \<Rightarrow> bool" where "e_remote e \<longleftrightarrow> bit e 14"
definition e_level :: "u64 \<Rightarrow> bool" where "e_level e \<longleftrightarrow> bit e 15"
definition e_masked :: "u64 \<Rightarrow> bool" where "e_masked e \<longleftrightarrow> bit e 16"

lemma and_push_bit_1: "x AND push_bit i 1 = 0 \<longleftrightarrow> \<not> bit (x :: 'a::len word) i"
  by (simp add: push_bit_of_1 and_exp_eq_0_iff_not_bit)

lemma bit_drop_and_1: "drop_bit n x AND 1 = 0 \<longleftrightarrow> \<not> bit (x :: 'a::len word) n"
  by (simp add: and_one_eq mod_2_eq_odd bit_iff_odd_drop_bit)

lemma parse_masked [simp]: "ei_masked (parse_entry e) \<longleftrightarrow> e_masked e"
  by (simp add: parse_entry_def ioapic_shifts bit_drop_and_1 e_masked_def)

lemma parse_trig_mode [simp]:
  "(ucast (ei_trig_mode (parse_entry e)) :: u64) = IOAPIC_TRIGGER_EDGE \<longleftrightarrow> \<not> e_level e"
proof -
  have "(ucast (ucast (drop_bit 15 e AND 1) :: u8) :: u64) = 0 \<longleftrightarrow> drop_bit 15 e AND 1 = 0"
    by (simp add: and_one_eq mod_2_eq_odd)
  then show ?thesis
    by (simp add: parse_entry_def ioapic_shifts bit_drop_and_1 e_level_def IOAPIC_TRIGGER_EDGE_def)
qed

lemma and_remote [simp]: "e AND IOAPIC_LVT_REMOTE_IRR = 0 \<longleftrightarrow> \<not> e_remote e"
  by (simp add: ioapic_masks ioapic_shifts and_push_bit_1 [of e 14, simplified] e_remote_def)

lemma and_trigger [simp]: "e AND IOAPIC_LVT_TRIGGER_MODE = IOAPIC_TRIGGER_EDGE \<longleftrightarrow> \<not> e_level e"
  by (simp add: ioapic_masks ioapic_shifts and_push_bit_1 [of e 15, simplified] e_level_def
      IOAPIC_TRIGGER_EDGE_def)


definition entry_interrupt :: "whv_interrupt_types \<Rightarrow> u64 \<Rightarrow> interrupt_control" where
  "entry_interrupt whv e = inject_interrupt whv (parse_entry e)"

lemma bit_remote_irr [simp]: "bit IOAPIC_LVT_REMOTE_IRR n \<longleftrightarrow> n = 14"
  unfolding IOAPIC_LVT_REMOTE_IRR_def ioapic_shifts by (simp only: push_bit_of_1 bit_exp_iff) auto

lemma bit_deliv_status [simp]: "bit IOAPIC_LVT_DELIV_STATUS n \<longleftrightarrow> n = 12"
  unfolding IOAPIC_LVT_DELIV_STATUS_def ioapic_shifts by (simp only: push_bit_of_1 bit_exp_iff) auto

lemma entry_bits_remote [simp]:
  "e_level (e OR IOAPIC_LVT_REMOTE_IRR) = e_level e" "e_masked (e OR IOAPIC_LVT_REMOTE_IRR) = e_masked e"
  "e_remote (e OR IOAPIC_LVT_REMOTE_IRR)"
  "e_level (e AND NOT IOAPIC_LVT_REMOTE_IRR) = e_level e"
  "e_masked (e AND NOT IOAPIC_LVT_REMOTE_IRR) = e_masked e"
  "\<not> e_remote (e AND NOT IOAPIC_LVT_REMOTE_IRR)"
  by (simp_all add: e_level_def e_masked_def e_remote_def bit_simps)

lemma or_remote_id: "e_remote e \<Longrightarrow> e OR IOAPIC_LVT_REMOTE_IRR = e"
  by (rule bit_word_eqI) (auto simp: e_remote_def bit_simps)

lemma and_not_remote_or: "e_remote e \<Longrightarrow> (e AND NOT IOAPIC_LVT_REMOTE_IRR) OR IOAPIC_LVT_REMOTE_IRR = e"
  by (rule bit_word_eqI) (auto simp: e_remote_def bit_simps)

lemma drop_bit_not_remote:
  assumes "14 < k"
  shows "drop_bit k (e AND NOT IOAPIC_LVT_REMOTE_IRR) = drop_bit k e"
  using assms bit_imp_le_length [of e] by (intro bit_word_eqI) (auto simp: bit_simps)

lemma parse_entry_and_not_remote: "parse_entry (e AND NOT IOAPIC_LVT_REMOTE_IRR) = parse_entry e"
proof -
  let ?e = "e AND NOT IOAPIC_LVT_REMOTE_IRR"
  have "drop_bit 16 ?e = drop_bit 16 e" "drop_bit 15 ?e = drop_bit 15 e" "drop_bit 56 ?e = drop_bit 56 e"
    by (rule drop_bit_not_remote, simp)+
  moreover have "drop_bit 11 ?e AND 1 = drop_bit 11 e AND 1" "drop_bit 8 ?e AND 7 = drop_bit 8 e AND 7"
    "?e AND 0xff = e AND 0xff"
    using bit_imp_le_length [of e] by (auto intro!: bit_word_eqI simp: bit_simps)
  ultimately show ?thesis
    by (simp only: parse_entry_def ioapic_shifts IOAPIC_DM_MASK_def IOAPIC_VECTOR_MASK_def)
qed

section \<open>What \<^verbatim>\<open>service\<close> does\<close>

definition deliverable :: "ioapic \<Rightarrow> nat \<Rightarrow> bool" where
  "deliverable st i \<longleftrightarrow> bit (io_irr st) i \<and> \<not> e_masked (io_ioredtbl st ! i) \<and>
     (e_level (io_ioredtbl st ! i) \<longrightarrow> \<not> e_remote (io_ioredtbl st ! i))"

definition quiescent :: "ioapic \<Rightarrow> bool" where
  "quiescent st \<longleftrightarrow> (\<forall>i < IOAPIC_NUM_PINS. \<not> deliverable st i)"

lemma service_pins:
  assumes "n \<le> length (io_ioredtbl st)" "n \<le> 32"
  shows "\<exists>irr tbl. fold (service_pin whv) [0..<n] (st, []) =
      (st\<lparr>io_irr := irr, io_ioredtbl := tbl\<rparr>,
       map (\<lambda>i. entry_interrupt whv (io_ioredtbl st ! i)) (filter (deliverable st) [0..<n])) \<and>
    (\<forall>j. bit irr j \<longleftrightarrow> bit (io_irr st) j \<and>
       \<not> (j < n \<and> \<not> e_masked (io_ioredtbl st ! j) \<and> \<not> e_level (io_ioredtbl st ! j))) \<and>
    length tbl = length (io_ioredtbl st) \<and>
    (\<forall>j < length tbl. tbl ! j =
       (if j < n \<and> bit (io_irr st) j \<and> \<not> e_masked (io_ioredtbl st ! j) \<and> e_level (io_ioredtbl st ! j)
        then io_ioredtbl st ! j OR IOAPIC_LVT_REMOTE_IRR else io_ioredtbl st ! j))"
  using assms
proof (induction n)
  case 0
  show ?case by (rule exI [of _ "io_irr st"], rule exI [of _ "io_ioredtbl st"]) simp
next
  case (Suc n)
  then obtain irr tbl where IH: "fold (service_pin whv) [0..<n] (st, []) =
      (st\<lparr>io_irr := irr, io_ioredtbl := tbl\<rparr>,
       map (\<lambda>i. entry_interrupt whv (io_ioredtbl st ! i)) (filter (deliverable st) [0..<n]))"
    "\<And>j. bit irr j \<longleftrightarrow> bit (io_irr st) j \<and>
       \<not> (j < n \<and> \<not> e_masked (io_ioredtbl st ! j) \<and> \<not> e_level (io_ioredtbl st ! j))"
    "length tbl = length (io_ioredtbl st)"
    "\<And>j. j < length tbl \<Longrightarrow> tbl ! j =
       (if j < n \<and> bit (io_irr st) j \<and> \<not> e_masked (io_ioredtbl st ! j) \<and> e_level (io_ioredtbl st ! j)
        then io_ioredtbl st ! j OR IOAPIC_LVT_REMOTE_IRR else io_ioredtbl st ! j)"
    by auto
  let ?e = "io_ioredtbl st ! n"
  have n: "n < length tbl" "n < 32" using Suc.prems IH(3) by auto
  have e: "tbl ! n = ?e" "bit irr n = bit (io_irr st) n" using IH(2,4) n by auto
  have irr32: "bit (io_irr st) j \<Longrightarrow> j < 32" for j using bit_imp_le_length [of "io_irr st" j] by simp
  let ?irr = "if bit (io_irr st) n \<and> \<not> e_masked ?e \<and> \<not> e_level ?e then irr AND NOT (push_bit n 1) else irr"
  let ?tbl = "if bit (io_irr st) n \<and> \<not> e_masked ?e \<and> e_level ?e
    then tbl[n := ?e OR IOAPIC_LVT_REMOTE_IRR] else tbl"
  have step: "fold (service_pin whv) [0..<Suc n] (st, []) =
      (st\<lparr>io_irr := ?irr, io_ioredtbl := ?tbl\<rparr>,
       map (\<lambda>i. entry_interrupt whv (io_ioredtbl st ! i)) (filter (deliverable st) [0..<Suc n]))"
    using e by (simp add: IH(1) service_pin_def Let_def and_exp_eq_0_iff_not_bit deliverable_def
        entry_interrupt_def or_remote_id)
  moreover have "\<forall>j. bit ?irr j \<longleftrightarrow> bit (io_irr st) j \<and>
      \<not> (j < Suc n \<and> \<not> e_masked (io_ioredtbl st ! j) \<and> \<not> e_level (io_ioredtbl st ! j))"
    using IH(2) n irr32 by (auto simp: bit_simps less_Suc_eq)
  moreover have "length ?tbl = length (io_ioredtbl st)" using IH(3) by simp
  moreover have "\<forall>j < length ?tbl. ?tbl ! j =
      (if j < Suc n \<and> bit (io_irr st) j \<and> \<not> e_masked (io_ioredtbl st ! j) \<and> e_level (io_ioredtbl st ! j)
       then io_ioredtbl st ! j OR IOAPIC_LVT_REMOTE_IRR else io_ioredtbl st ! j)"
    using IH(4) n by (auto simp: nth_list_update less_Suc_eq)
  ultimately show ?case by blast
qed


text \<open>What an I/O APIC state satisfies between operations.\<close>

definition ioapic_wf :: "ioapic \<Rightarrow> bool" where
  "ioapic_wf st \<longleftrightarrow>
     length (io_ioredtbl st) = IOAPIC_NUM_PINS \<and> length (io_irq_eoi st) = IOAPIC_NUM_PINS \<and>
     (\<forall>i. bit (io_irr st) i \<longrightarrow> i < IOAPIC_NUM_PINS) \<and>
     (\<forall>e \<in> set (io_ioredtbl st). (e_remote e \<longrightarrow> e_level e) \<and> \<not> bit e 12)"

lemma ioapic_wf_len: "ioapic_wf st \<Longrightarrow> length (io_ioredtbl st) = IOAPIC_NUM_PINS"
  by (simp add: ioapic_wf_def)

lemma ioapic_wf_entry:
  "ioapic_wf st \<Longrightarrow> i < IOAPIC_NUM_PINS \<Longrightarrow>
   (e_remote (io_ioredtbl st ! i) \<longrightarrow> e_level (io_ioredtbl st ! i)) \<and> \<not> bit (io_ioredtbl st ! i) 12"
  by (simp add: ioapic_wf_def)

lemma bit_12_remote [simp]: "bit (e OR IOAPIC_LVT_REMOTE_IRR) 12 = bit e 12"
  by (simp add: bit_simps)

text \<open>The state that servicing leaves: edge pins drop their request, level pins set Remote IRR.\<close>

definition serviced :: "ioapic \<Rightarrow> ioapic \<Rightarrow> bool" where
  "serviced st st' \<longleftrightarrow>
     st' = st\<lparr>io_irr := io_irr st', io_ioredtbl := io_ioredtbl st'\<rparr> \<and>
     (\<forall>j. bit (io_irr st') j \<longleftrightarrow> bit (io_irr st) j \<and>
        (e_masked (io_ioredtbl st ! j) \<or> e_level (io_ioredtbl st ! j))) \<and>
     length (io_ioredtbl st') = IOAPIC_NUM_PINS \<and>
     (\<forall>j < IOAPIC_NUM_PINS. io_ioredtbl st' ! j =
        (if bit (io_irr st) j \<and> \<not> e_masked (io_ioredtbl st ! j) \<and> e_level (io_ioredtbl st ! j)
         then io_ioredtbl st ! j OR IOAPIC_LVT_REMOTE_IRR else io_ioredtbl st ! j))"

definition pin_interrupts :: "whv_interrupt_types \<Rightarrow> ioapic \<Rightarrow> nat list \<Rightarrow> interrupt_control list" where
  "pin_interrupts whv st is = map (\<lambda>i. entry_interrupt whv (io_ioredtbl st ! i)) is"

lemma service_spec:
  assumes "ioapic_wf st"
  obtains st' where "serviced st st'"
    "service whv st = (st', pin_interrupts whv st (filter (deliverable st) [0..<IOAPIC_NUM_PINS]))"
proof -
  have n: "IOAPIC_NUM_PINS \<le> length (io_ioredtbl st)" "IOAPIC_NUM_PINS \<le> 32"
    using assms by (simp_all add: ioapic_wf_def IOAPIC_NUM_PINS_def)
  have pins: "bit (io_irr st) j \<Longrightarrow> j < IOAPIC_NUM_PINS" for j
    using assms by (simp add: ioapic_wf_def)
  obtain irr tbl where "fold (service_pin whv) [0..<IOAPIC_NUM_PINS] (st, []) =
      (st\<lparr>io_irr := irr, io_ioredtbl := tbl\<rparr>,
       pin_interrupts whv st (filter (deliverable st) [0..<IOAPIC_NUM_PINS]))"
    "\<forall>j. bit irr j \<longleftrightarrow> bit (io_irr st) j \<and> \<not> (j < IOAPIC_NUM_PINS \<and>
       \<not> e_masked (io_ioredtbl st ! j) \<and> \<not> e_level (io_ioredtbl st ! j))"
    "length tbl = IOAPIC_NUM_PINS"
    "\<forall>j < IOAPIC_NUM_PINS. tbl ! j =
       (if bit (io_irr st) j \<and> \<not> e_masked (io_ioredtbl st ! j) \<and> e_level (io_ioredtbl st ! j)
        then io_ioredtbl st ! j OR IOAPIC_LVT_REMOTE_IRR else io_ioredtbl st ! j)"
    using service_pins [OF n, of whv] ioapic_wf_len [OF assms] by (auto simp: pin_interrupts_def)
  then show thesis
    using that [of "st\<lparr>io_irr := irr, io_ioredtbl := tbl\<rparr>"] pins
    by (auto simp: service_def serviced_def)
qed

lemma servicedD:
  assumes "ioapic_wf st" "serviced st st'"
  shows "ioapic_wf st'" "quiescent st'" "io_ioregsel st' = io_ioregsel st"
proof -
  have eq: "st' = st\<lparr>io_irr := io_irr st', io_ioredtbl := io_ioredtbl st'\<rparr>"
    using assms(2) by (simp add: serviced_def)
  have fields: "io_irq_eoi st' = io_irq_eoi st" "io_ioregsel st' = io_ioregsel st"
    by (subst eq, simp)+
  then show "io_ioregsel st' = io_ioregsel st" by simp
  have "(e_remote (io_ioredtbl st' ! i) \<longrightarrow> e_level (io_ioredtbl st' ! i)) \<and>
      \<not> bit (io_ioredtbl st' ! i) 12" if "i < IOAPIC_NUM_PINS" for i
    using assms(2) ioapic_wf_entry [OF assms(1) that] that unfolding serviced_def by simp
  then show "ioapic_wf st'"
    using assms fields by (auto simp: ioapic_wf_def serviced_def in_set_conv_nth)
  show "quiescent st'"
    using assms(2) by (auto simp: quiescent_def deliverable_def serviced_def)
qed

lemma service_wf:
  assumes "ioapic_wf st"
  shows "ioapic_wf (fst (service whv st))" "quiescent (fst (service whv st))"
  using service_spec [OF assms, of whv] servicedD [OF assms] by (metis fst_conv)+

lemma serviced_quiescent:
  assumes "ioapic_wf st" "quiescent st" "serviced st st'"
  shows "st' = st"
proof -
  have q: "\<not> deliverable st i" if "i < IOAPIC_NUM_PINS" for i
    using assms(2) that by (simp add: quiescent_def)
  have "io_irr st' = io_irr st"
  proof (rule bit_word_eqI)
    fix j
    have "bit (io_irr st) j \<Longrightarrow> j < IOAPIC_NUM_PINS" using assms(1) by (simp add: ioapic_wf_def)
    then show "bit (io_irr st') j = bit (io_irr st) j"
      using assms(3) q [of j] by (auto simp: deliverable_def serviced_def)
  qed
  moreover have "io_ioredtbl st' ! i = io_ioredtbl st ! i" if "i < IOAPIC_NUM_PINS" for i
    using assms(3) q [OF that] that or_remote_id [of "io_ioredtbl st ! i"]
    unfolding serviced_def deliverable_def by metis
  then have "io_ioredtbl st' = io_ioredtbl st"
    using assms(1,3) by (intro nth_equalityI) (simp_all add: serviced_def ioapic_wf_len)
  ultimately show ?thesis using assms(3) by (auto simp: serviced_def)
qed

lemma service_quiescent:
  assumes "ioapic_wf st" "quiescent st"
  shows "service whv st = (st, [])"
proof -
  have "filter (deliverable st) [0..<IOAPIC_NUM_PINS] = []"
    using assms(2) by (simp add: filter_empty_conv quiescent_def)
  then show ?thesis
    using service_spec [OF assms(1), of whv] serviced_quiescent [OF assms]
    by (metis list.simps(8) pin_interrupts_def)
qed


section \<open>Operations keep the state well formed\<close>

lemma ioapic_new_wf: "ioapic_wf ioapic_new" "quiescent ioapic_new"
proof -
  have "\<not> bit (push_bit 16 1 :: u64) 12" "\<not> bit (push_bit 16 1 :: u64) 14"
    by (simp_all only: push_bit_of_1 bit_exp_iff) simp_all
  then show "ioapic_wf ioapic_new"
    by (simp add: ioapic_wf_def ioapic_new_def ioapic_shifts e_remote_def IOAPIC_NUM_PINS_def)
  show "quiescent ioapic_new"
    by (simp add: quiescent_def deliverable_def ioapic_new_def)
qed

lemma raise_wf:
  "ioapic_wf st \<Longrightarrow> n < IOAPIC_NUM_PINS \<Longrightarrow> ioapic_wf (st\<lparr>io_irr := io_irr st OR push_bit n 1\<rparr>)"
  by (auto simp: ioapic_wf_def bit_simps)

lemma ioapic_set_irq_wf:
  assumes "ioapic_wf st" "quiescent st"
  shows "ioapic_wf (fst (ioapic_set_irq whv line st))" "quiescent (fst (ioapic_set_irq whv line st))"
  using assms service_wf raise_wf by (auto simp: ioapic_set_irq_def split: option.split)

lemma ioapic_clear_irq_wf:
  assumes "ioapic_wf st" "quiescent st"
  shows "ioapic_wf (ioapic_clear_irq line st)" "quiescent (ioapic_clear_irq line st)"
  using assms
  by (auto simp: ioapic_clear_irq_def ioapic_wf_def quiescent_def deliverable_def bit_simps
      split: option.split)

text \<open>The entry that a write to the redirection table stores, before servicing.\<close>

definition written_entry :: "bool \<Rightarrow> u32 \<Rightarrow> u64 \<Rightarrow> u64" where
  "written_entry hi val entry =
     (let half = (if hi then (entry AND 0xffffffff) OR push_bit 32 (ucast val)
                  else (entry AND NOT 0xffffffff) OR ucast val);
          entry' = (half AND IOAPIC_RW_BITS) OR (entry AND IOAPIC_RO_BITS)
      in if entry' AND IOAPIC_LVT_TRIGGER_MODE = IOAPIC_TRIGGER_EDGE
         then entry' AND NOT IOAPIC_LVT_REMOTE_IRR else entry')"

lemma bit_low_mask: "bit (0xffffffff :: u64) n \<longleftrightarrow> n < 32"
proof -
  have "(0xffffffff :: u64) = mask 32" by (simp add: mask_eq_exp_minus_1)
  then show ?thesis by (simp only: bit_mask_iff) auto
qed

lemma bit_written_entry:
  "bit (written_entry hi val e) n \<longleftrightarrow>
     (if n = 12 then bit e 12
      else if n = 14 then bit e 14 \<and> (if hi then bit e 15 else bit val 15)
      else if hi then (if n < 32 then bit e n else n < 64 \<and> bit val (n - 32))
      else (if n < 32 then bit val n else bit e n))"
proof -
  have u: "bit (ucast val :: u64) m = bit val m" for m
    using bit_imp_le_length [of val m] by (auto simp: bit_simps)
  have v: "bit val m \<Longrightarrow> m < 32" for m using bit_imp_le_length [of val m] by simp
  have w: "bit e m \<Longrightarrow> m < 64" for m using bit_imp_le_length [of e m] by simp
  define L :: u64 where "L = 0xffffffff"
  have L: "bit L m \<longleftrightarrow> m < 32" for m unfolding L_def by (rule bit_low_mask)
  show ?thesis
    unfolding written_entry_def Let_def IOAPIC_RW_BITS_def IOAPIC_RO_BITS_def L_def [symmetric]
    using v [of n] w [of n]
    by (auto simp: bit_or_iff bit_and_iff bit_not_iff bit_push_bit_iff u L e_level_def)
qed

lemma write_redtbl_eq:
  assumes "length (io_ioredtbl st) = IOAPIC_NUM_PINS" "redtbl_index st < of_nat IOAPIC_NUM_PINS"
  defines "i \<equiv> unat (redtbl_index st)"
  shows "i < IOAPIC_NUM_PINS"
    and "write_redtbl whv val st =
      service whv (st\<lparr>io_ioredtbl := (io_ioredtbl st)[i :=
             written_entry (0 < io_ioregsel st AND 1) val (io_ioredtbl st ! i)],
           io_irq_eoi := (io_irq_eoi st)[i := 0]\<rparr>)"
proof -
  show i: "i < IOAPIC_NUM_PINS"
    using assms(2) by (simp add: i_def word_less_nat_alt IOAPIC_NUM_PINS_def)
  have "\<not> of_nat IOAPIC_NUM_PINS \<le> redtbl_index st" using assms(2) by simp
  then show "write_redtbl whv val st =
      service whv (st\<lparr>io_ioredtbl := (io_ioredtbl st)[i :=
             written_entry (0 < io_ioregsel st AND 1) val (io_ioredtbl st ! i)],
           io_irq_eoi := (io_irq_eoi st)[i := 0]\<rparr>)"
    using assms(1) i unfolding i_def
    by (cases st) (simp add: write_redtbl_def Let_def fix_edge_remote_irr_def written_entry_def)
qed

lemma written_entry_wf:
  "\<not> bit e 12 \<Longrightarrow> (e_remote (written_entry hi val e) \<longrightarrow> e_level (written_entry hi val e)) \<and>
   \<not> bit (written_entry hi val e) 12"
  by (auto simp: e_remote_def e_level_def bit_written_entry)

lemma write_window_wf:
  assumes "ioapic_wf st" "quiescent st"
  shows "ioapic_wf (fst (write_window whv val st))" "quiescent (fst (write_window whv val st))"
proof -
  have "ioapic_wf (fst (write_redtbl whv val st)) \<and> quiescent (fst (write_redtbl whv val st))"
  proof (cases "redtbl_index st < of_nat IOAPIC_NUM_PINS")
    case True
    note w = write_redtbl_eq [OF ioapic_wf_len [OF assms(1)] True]
    let ?i = "unat (redtbl_index st)"
    have "ioapic_wf (st\<lparr>io_ioredtbl := (io_ioredtbl st)[?i := written_entry hi val (io_ioredtbl st ! ?i)],
        io_irq_eoi := (io_irq_eoi st)[?i := 0]\<rparr>)" for hi
      using assms(1) written_entry_wf ioapic_wf_entry [OF assms(1) w(1)]
        set_update_subset_insert [of "io_ioredtbl st" ?i "written_entry hi val (io_ioredtbl st ! ?i)"]
      unfolding ioapic_wf_def by auto
    then show ?thesis using w(2) service_wf by simp
  next
    case False
    then show ?thesis using assms by (simp add: write_redtbl_def Let_def not_less)
  qed
  then show "ioapic_wf (fst (write_window whv val st))" "quiescent (fst (write_window whv val st))"
    using assms by (auto simp: write_window_def ioapic_wf_def quiescent_def deliverable_def)
qed


section \<open>End of interrupt\<close>

definition e_vector :: "u64 \<Rightarrow> u8" where "e_vector e = ucast (e AND IOAPIC_VECTOR_MASK)"

text \<open>Still asserted and unmasked: the pin is delivered again when its EOI comes.\<close>

definition redelivers :: "ioapic \<Rightarrow> nat \<Rightarrow> bool" where
  "redelivers st i \<longleftrightarrow> bit (io_irr st) i \<and> \<not> e_masked (io_ioredtbl st ! i)"

definition eoi_hits :: "ioapic \<Rightarrow> u8 \<Rightarrow> nat \<Rightarrow> bool" where
  "eoi_hits st v i \<longleftrightarrow> e_vector (io_ioredtbl st ! i) = v \<and> e_remote (io_ioredtbl st ! i)"

lemma filter_upt_single: "i < n \<Longrightarrow> (\<And>j. j < n \<Longrightarrow> P j \<longleftrightarrow> j = i) \<Longrightarrow> filter P [0..<n] = [i]"
proof (induction n)
  case 0
  then show ?case by simp
next
  case (Suc n)
  show ?case
  proof (cases "i = n")
    case True
    then have "filter P [0..<n] = []" using Suc.prems by (auto simp: filter_empty_conv)
    then show ?thesis using True Suc.prems by simp
  next
    case False
    then show ?thesis using Suc by simp
  qed
qed

abbreviation clear_remote :: "nat \<Rightarrow> ioapic \<Rightarrow> ioapic" where
  "clear_remote i st \<equiv> st\<lparr>io_ioredtbl := (io_ioredtbl st)[i := io_ioredtbl st ! i AND NOT IOAPIC_LVT_REMOTE_IRR]\<rparr>"

lemma clear_remote_wf:
  assumes "ioapic_wf st" "i < IOAPIC_NUM_PINS"
  shows "ioapic_wf (clear_remote i st)"
  using assms(1) ioapic_wf_entry [OF assms]
    set_update_subset_insert [of "io_ioredtbl st" i "io_ioredtbl st ! i AND NOT IOAPIC_LVT_REMOTE_IRR"]
  unfolding ioapic_wf_def by (auto simp: bit_and_iff)

lemma clear_remote_deliverable:
  assumes "ioapic_wf st" "quiescent st" "i < IOAPIC_NUM_PINS" "j < IOAPIC_NUM_PINS"
  shows "deliverable (clear_remote i st) j \<longleftrightarrow> j = i \<and> redelivers st i"
  using assms
  by (cases "j = i") (auto simp: deliverable_def redelivers_def quiescent_def ioapic_wf_len)

lemma clear_remote_serviced:
  assumes "ioapic_wf st" "quiescent st" "i < IOAPIC_NUM_PINS" "e_remote (io_ioredtbl st ! i)"
    and "redelivers st i" "serviced (clear_remote i st) st'"
  shows "st' = st"
proof -
  let ?e = "\<lambda>j. io_ioredtbl st ! j"
  have lev: "e_level (?e i)" using assms(4) ioapic_wf_entry [OF assms(1,3)] by simp
  have len: "length (io_ioredtbl st) = IOAPIC_NUM_PINS" by (rule ioapic_wf_len [OF assms(1)])
  have e': "io_ioredtbl (clear_remote i st) ! j =
      (if j = i then ?e i AND NOT IOAPIC_LVT_REMOTE_IRR else ?e j)" for j
    using assms(3) len by (cases "j = i") simp_all
  have pins: "bit (io_irr st) j \<Longrightarrow> j < IOAPIC_NUM_PINS" for j
    using assms(1) by (simp add: ioapic_wf_def)
  have "bit (io_irr st') j = bit (io_irr st) j" for j
    using assms(2,6) pins [of j] lev e' [of j]
    by (auto simp: serviced_def quiescent_def deliverable_def split: if_splits)
  then have "io_irr st' = io_irr st" by (simp add: bit_eq_iff)
  moreover have "io_ioredtbl st' ! j = ?e j" if "j < IOAPIC_NUM_PINS" for j
  proof (cases "j = i")
    case True
    have "io_ioredtbl st' ! i = (?e i AND NOT IOAPIC_LVT_REMOTE_IRR) OR IOAPIC_LVT_REMOTE_IRR"
      using assms(3,5,6) lev e' [of i] by (simp add: serviced_def redelivers_def)
    then show ?thesis using True and_not_remote_or [OF assms(4)] by simp
  next
    case False
    then show ?thesis
      using assms(2,6) that e' [of j] or_remote_id [of "?e j"]
      by (auto simp: serviced_def quiescent_def deliverable_def)
  qed
  then have "io_ioredtbl st' = io_ioredtbl st"
    using assms(6) len by (intro nth_equalityI) (simp_all add: serviced_def)
  ultimately show ?thesis using assms(6) by (auto simp: serviced_def)
qed

lemma eoi_pin_spec:
  assumes "ioapic_wf st" "quiescent st" "i < IOAPIC_NUM_PINS"
  shows "eoi_pin whv v i (st, out) =
    (if eoi_hits st v i then
       (if redelivers st i then (st, out @ [entry_interrupt whv (io_ioredtbl st ! i)])
        else (clear_remote i st, out))
     else (st, out))"
proof (cases "eoi_hits st v i")
  case False
  then show ?thesis by (auto simp: eoi_pin_def eoi_hits_def e_vector_def Let_def)
next
  case True
  then have rem: "e_remote (io_ioredtbl st ! i)" by (simp add: eoi_hits_def)
  note wf' = clear_remote_wf [OF assms(1,3)]
  have len: "length (io_ioredtbl st) = IOAPIC_NUM_PINS" by (rule ioapic_wf_len [OF assms(1)])
  have eoi: "eoi_pin whv v i (st, out) =
      (if bit (io_irr st) i then (case service whv (clear_remote i st) of (st'', ics) \<Rightarrow> (st'', out @ ics))
       else (clear_remote i st, out))"
    using True by (simp add: eoi_pin_def eoi_hits_def e_vector_def Let_def and_exp_eq_0_iff_not_bit)
  show ?thesis
  proof (cases "redelivers st i")
    case re: True
    have one: "filter (deliverable (clear_remote i st)) [0..<IOAPIC_NUM_PINS] = [i]"
      by (rule filter_upt_single [OF assms(3)])
        (use clear_remote_deliverable [OF assms] re in blast)
    obtain st' where "serviced (clear_remote i st) st'"
      "service whv (clear_remote i st) = (st', pin_interrupts whv (clear_remote i st) [i])"
      using service_spec [OF wf', of whv] one by metis
    moreover have "pin_interrupts whv (clear_remote i st) [i] = [entry_interrupt whv (io_ioredtbl st ! i)]"
      using assms(3) len by (simp add: pin_interrupts_def entry_interrupt_def parse_entry_and_not_remote)
    ultimately show ?thesis
      using True re clear_remote_serviced [OF assms rem re] eoi by (simp add: redelivers_def)
  next
    case False
    have "quiescent (clear_remote i st)"
      unfolding quiescent_def using clear_remote_deliverable [OF assms] False by blast
    then have "service whv (clear_remote i st) = (clear_remote i st, [])"
      using service_quiescent [OF wf'] by simp
    then show ?thesis using True False eoi by simp
  qed
qed


lemma eoi_loop:
  assumes "ioapic_wf st" "quiescent st" "n \<le> IOAPIC_NUM_PINS"
  shows "\<exists>tbl. fold (eoi_pin whv v) [0..<n] (st, []) =
      (st\<lparr>io_ioredtbl := tbl\<rparr>,
       pin_interrupts whv st (filter (\<lambda>i. eoi_hits st v i \<and> redelivers st i) [0..<n])) \<and>
    ioapic_wf (st\<lparr>io_ioredtbl := tbl\<rparr>) \<and> quiescent (st\<lparr>io_ioredtbl := tbl\<rparr>) \<and>
    (\<forall>j < IOAPIC_NUM_PINS. tbl ! j =
       (if j < n \<and> eoi_hits st v j \<and> \<not> redelivers st j
        then io_ioredtbl st ! j AND NOT IOAPIC_LVT_REMOTE_IRR else io_ioredtbl st ! j))"
  using assms(3)
proof (induction n)
  case 0
  show ?case
    by (rule exI [of _ "io_ioredtbl st"]) (use assms in \<open>simp add: pin_interrupts_def\<close>)
next
  case (Suc n)
  then obtain tbl where IH: "fold (eoi_pin whv v) [0..<n] (st, []) =
      (st\<lparr>io_ioredtbl := tbl\<rparr>,
       pin_interrupts whv st (filter (\<lambda>i. eoi_hits st v i \<and> redelivers st i) [0..<n]))"
    "ioapic_wf (st\<lparr>io_ioredtbl := tbl\<rparr>)" "quiescent (st\<lparr>io_ioredtbl := tbl\<rparr>)"
    "\<forall>j < IOAPIC_NUM_PINS. tbl ! j =
       (if j < n \<and> eoi_hits st v j \<and> \<not> redelivers st j
        then io_ioredtbl st ! j AND NOT IOAPIC_LVT_REMOTE_IRR else io_ioredtbl st ! j)"
    by auto
  have n: "n < IOAPIC_NUM_PINS" using Suc.prems by simp
  let ?s = "st\<lparr>io_ioredtbl := tbl\<rparr>"
  have len: "length tbl = IOAPIC_NUM_PINS" using ioapic_wf_len [OF IH(2)] by simp
  have same: "tbl ! n = io_ioredtbl st ! n" using IH(4) n by simp
  then have hits: "eoi_hits ?s v n = eoi_hits st v n" "redelivers ?s n = redelivers st n"
    by (simp_all add: eoi_hits_def redelivers_def)
  note pin = eoi_pin_spec [OF IH(2,3) n, of whv v, unfolded hits]
  show ?case
  proof (cases "eoi_hits st v n \<and> \<not> redelivers st n")
    case True
    have "quiescent (clear_remote n ?s)"
      unfolding quiescent_def using clear_remote_deliverable [OF IH(2,3) n] True hits by blast
    then show ?thesis
      using True IH pin clear_remote_wf [OF IH(2) n] len n
      by (intro exI [of _ "tbl[n := tbl ! n AND NOT IOAPIC_LVT_REMOTE_IRR]"])
        (auto simp: nth_list_update less_Suc_eq)
  next
    case False
    then show ?thesis
      using IH pin same n by (intro exI [of _ tbl]) (auto simp: pin_interrupts_def less_Suc_eq)
  qed
qed

section \<open>The controller as a state machine\<close>

datatype ioapic_op = SetIrq "u32 option" | ClearIrq "u32 option" | Write u64 "u8 list"

fun ioapic_apply :: "whv_interrupt_types \<Rightarrow> ioapic_op \<Rightarrow> ioapic \<Rightarrow> ioapic \<times> interrupt_control list" where
  "ioapic_apply whv (SetIrq line) st = ioapic_set_irq whv line st"
| "ioapic_apply whv (ClearIrq line) st = (ioapic_clear_irq line st, [])"
| "ioapic_apply whv (Write offset data) st = ioapic_write whv offset data st"

inductive ioapic_reach :: "whv_interrupt_types \<Rightarrow> ioapic \<Rightarrow> bool" for whv where
  new: "ioapic_reach whv ioapic_new"
| step: "ioapic_reach whv st \<Longrightarrow> ioapic_apply whv op st = (st', out) \<Longrightarrow> ioapic_reach whv st'"

lemma ioapic_write_wf:
  assumes "ioapic_wf st" "quiescent st"
  shows "ioapic_wf (fst (ioapic_write whv offset data st)) \<and>
    quiescent (fst (ioapic_write whv offset data st))"
proof -
  have "ioapic_wf (st\<lparr>io_ioregsel := r\<rparr>)" "quiescent (st\<lparr>io_ioregsel := r\<rparr>)" for r
    using assms by (simp_all add: ioapic_wf_def quiescent_def deliverable_def)
  moreover have "ioapic_wf (fst (fold (eoi_pin whv v) [0..<IOAPIC_NUM_PINS] (st, []))) \<and>
      quiescent (fst (fold (eoi_pin whv v) [0..<IOAPIC_NUM_PINS] (st, [])))" for v
    using eoi_loop [OF assms order_refl, of whv v] by auto
  ultimately show ?thesis
    using assms write_window_wf [OF assms, of whv] by (simp add: ioapic_write_def Let_def)
qed

lemma ioapic_apply_wf:
  assumes "ioapic_wf st" "quiescent st"
  shows "ioapic_wf (fst (ioapic_apply whv op st)) \<and> quiescent (fst (ioapic_apply whv op st))"
  using assms ioapic_set_irq_wf ioapic_clear_irq_wf ioapic_write_wf by (cases op) simp_all

lemma ioapic_reach_wf: "ioapic_reach whv st \<Longrightarrow> ioapic_wf st \<and> quiescent st"
proof (induction rule: ioapic_reach.induct)
  case new
  then show ?case by (simp add: ioapic_new_wf)
next
  case (step st op st' out)
  then show ?case using ioapic_apply_wf [of st whv op] by simp
qed

section \<open>Properties\<close>

text \<open>
  C13.  In every state the I/O APIC can reach: the tables have 24 entries, no request is pending
  on a pin that does not exist, Remote IRR is only set on level-triggered entries, and no
  interrupt that could be delivered is left undelivered (every pending request is masked, or
  level-triggered and waiting for its end of interrupt).
\<close>

theorem ioapic_reachable_invariant:
  assumes "ioapic_reach whv st"
  shows "length (io_ioredtbl st) = 24 \<and> length (io_irq_eoi st) = 24 \<and>
    (\<forall>i. bit (io_irr st) i \<longrightarrow> i < 24 \<and>
       (e_masked (io_ioredtbl st ! i) \<or> e_level (io_ioredtbl st ! i) \<and> e_remote (io_ioredtbl st ! i))) \<and>
    (\<forall>i < 24. e_remote (io_ioredtbl st ! i) \<longrightarrow> e_level (io_ioredtbl st ! i))"
  using ioapic_reach_wf [OF assms]
  by (auto simp: ioapic_wf_def quiescent_def deliverable_def IOAPIC_NUM_PINS_def)

definition demo_whv :: whv_interrupt_types where
  "demo_whv = \<lparr>whv_fixed = 0, whv_lowest_priority = 1, whv_nmi = 4, whv_init = 5\<rparr>"

lemma demo_ioapic_reach: "ioapic_reach demo_whv (fst (ioapic_set_irq demo_whv (Some 3) ioapic_new))"
  by (rule ioapic_reach.step [OF ioapic_reach.new, of _ "SetIrq (Some 3)" _
        "snd (ioapic_set_irq demo_whv (Some 3) ioapic_new)"]) simp

theorem ioapic_reachable_invariant_witness:
  "length (io_ioredtbl (fst (ioapic_set_irq demo_whv (Some 3) ioapic_new))) = 24"
  using ioapic_reachable_invariant [OF demo_ioapic_reach] by blast

text \<open>
  C14.  Raising a line delivers its interrupt, with the vector and destination of its entry,
  exactly when the entry is unmasked and (if level-triggered) not waiting for an end of
  interrupt; no other pin is delivered.  Raising the same level-triggered line again delivers
  nothing and changes nothing.
\<close>

theorem ioapic_set_irq_delivers:
  assumes "ioapic_reach whv st" "unat irq < 24" "ioapic_set_irq whv (Some irq) st = (st', out)"
  shows "out = (if e_masked (io_ioredtbl st ! unat irq) \<or>
        e_level (io_ioredtbl st ! unat irq) \<and> e_remote (io_ioredtbl st ! unat irq) then []
      else [inject_interrupt whv (parse_entry (io_ioredtbl st ! unat irq))]) \<and>
    (e_level (io_ioredtbl st ! unat irq) \<longrightarrow> ioapic_set_irq whv (Some irq) st' = (st', []))"
proof -
  let ?n = "unat irq" and ?s = "st\<lparr>io_irr := io_irr st OR push_bit (unat irq) 1\<rparr>"
  have wf: "ioapic_wf st" "quiescent st" using ioapic_reach_wf [OF assms(1)] by auto
  have n: "?n < IOAPIC_NUM_PINS" using assms(2) by (simp add: IOAPIC_NUM_PINS_def)
  have bits: "bit (io_irr ?s) j \<longleftrightarrow> bit (io_irr st) j \<or> j = ?n" for j
    using n by (auto simp: bit_simps IOAPIC_NUM_PINS_def)
  have wf': "ioapic_wf ?s" by (rule raise_wf [OF wf(1) n])
  have del: "deliverable ?s j \<longleftrightarrow> j = ?n \<and> deliverable ?s ?n" if "j < IOAPIC_NUM_PINS" for j
    using wf(2) that bits by (auto simp: quiescent_def deliverable_def)
  obtain t where t: "serviced ?s t"
    "service whv ?s = (t, pin_interrupts whv ?s (filter (deliverable ?s) [0..<IOAPIC_NUM_PINS]))"
    using service_spec [OF wf', of whv] by metis
  have st': "st' = t" "out = pin_interrupts whv ?s (filter (deliverable ?s) [0..<IOAPIC_NUM_PINS])"
    using assms(3) n t(2) by (simp_all add: ioapic_set_irq_def)
  have "filter (deliverable ?s) [0..<IOAPIC_NUM_PINS] = (if deliverable ?s ?n then [?n] else [])"
  proof (cases "deliverable ?s ?n")
    case True
    then show ?thesis using filter_upt_single [OF n, of "deliverable ?s"] del by presburger
  next
    case False
    have "\<not> deliverable ?s j" if "j < IOAPIC_NUM_PINS" for j using del [OF that] False by blast
    then show ?thesis using False by (simp add: filter_empty_conv)
  qed
  moreover have "deliverable ?s ?n \<longleftrightarrow> \<not> (e_masked (io_ioredtbl st ! ?n) \<or>
      e_level (io_ioredtbl st ! ?n) \<and> e_remote (io_ioredtbl st ! ?n))"
    using bits by (auto simp: deliverable_def)
  ultimately have out: "out = (if e_masked (io_ioredtbl st ! ?n) \<or>
      e_level (io_ioredtbl st ! ?n) \<and> e_remote (io_ioredtbl st ! ?n) then []
      else [inject_interrupt whv (parse_entry (io_ioredtbl st ! ?n))])"
    using st'(2) by (simp add: pin_interrupts_def entry_interrupt_def)
  moreover have "ioapic_set_irq whv (Some irq) st' = (st', [])" if "e_level (io_ioredtbl st ! ?n)"
  proof -
    have "bit (io_irr t) ?n" using t(1) that bits by (simp add: serviced_def)
    then have "io_irr t OR push_bit ?n 1 = io_irr t"
      by (intro bit_word_eqI) (auto simp: bit_simps)
    then show ?thesis
      using service_quiescent [OF servicedD(1,2) [OF wf' t(1)]] st'(1) n
      by (simp add: ioapic_set_irq_def)
  qed
  ultimately show ?thesis by blast
qed


text \<open>Pin 3 programmed by the guest as level-triggered, unmasked, vector 0x31.\<close>

definition demo_ioapic :: ioapic where
  "demo_ioapic = ioapic_new\<lparr>io_ioregsel := 0x16,
     io_ioredtbl := (replicate 24 0x10000)[3 := 0x8031]\<rparr>"

lemma demo_ioapic_program:
  "ioapic_write demo_whv 0 [0x16, 0, 0, 0] ioapic_new = (ioapic_new\<lparr>io_ioregsel := 0x16\<rparr>, [])"
  "ioapic_write demo_whv 0x10 [0x31, 0x80, 0, 0] (ioapic_new\<lparr>io_ioregsel := 0x16\<rparr>) = (demo_ioapic, [])"
proof -
  let ?s = "ioapic_new\<lparr>io_ioregsel := 0x16\<rparr>"
  show "ioapic_write demo_whv 0 [0x16, 0, 0, 0] ioapic_new = (?s, [])"
    by (simp add: ioapic_write_def IO_REG_SEL_def)
  have len: "length (io_ioredtbl ?s) = IOAPIC_NUM_PINS" by (simp add: ioapic_new_def)
  have idx: "redtbl_index ?s = 3" by (simp add: redtbl_index_def IOAPIC_REG_REDTBL_BASE_def)
  have e: "written_entry False 0x8031 0x10000 = 0x8031"
    by (simp add: written_entry_def ioapic_masks ioapic_shifts IOAPIC_TRIGGER_EDGE_def)
  have "set ((replicate 24 0x10000)[3 := 0x8031]) \<subseteq> {0x10000, 0x8031 :: u64}"
    using set_update_subset_insert [of "replicate 24 (0x10000 :: u64)" 3 "0x8031"] by auto
  then have "\<forall>e \<in> set ((replicate 24 0x10000)[3 := 0x8031 :: u64]).
      (e_remote e \<longrightarrow> e_level e) \<and> \<not> bit e 12"
    by (auto simp: e_remote_def e_level_def)
  then have wf: "ioapic_wf demo_ioapic" "quiescent demo_ioapic"
    by (simp_all add: ioapic_wf_def demo_ioapic_def ioapic_new_def IOAPIC_NUM_PINS_def quiescent_def
        deliverable_def)
  have "?s\<lparr>io_ioredtbl := (io_ioredtbl ?s)[3 := written_entry False 0x8031 (io_ioredtbl ?s ! 3)],
      io_irq_eoi := (io_irq_eoi ?s)[3 := 0]\<rparr> = demo_ioapic"
    using e by (simp add: demo_ioapic_def ioapic_new_def IOAPIC_NUM_PINS_def ioapic_shifts
        list_update_same_conv)
  then have "write_redtbl demo_whv 0x8031 ?s = (demo_ioapic, [])"
    using write_redtbl_eq(2) [OF len, of demo_whv "0x8031"] idx service_quiescent [OF wf]
    by (simp add: IOAPIC_NUM_PINS_def)
  then show "ioapic_write demo_whv 0x10 [0x31, 0x80, 0, 0] ?s = (demo_ioapic, [])"
    by (simp add: ioapic_write_def IO_WIN_def IO_REG_SEL_def write_window_def IO_APIC_ID_def
        IO_APIC_VER_def IO_APIC_ARB_def)
qed

lemma demo_ioapic_reachable: "ioapic_reach demo_whv demo_ioapic"
proof -
  have "ioapic_reach demo_whv (ioapic_new\<lparr>io_ioregsel := 0x16\<rparr>)"
    by (rule ioapic_reach.step [OF ioapic_reach.new, where op = "Write 0 [0x16, 0, 0, 0]" and out = "[]"])
      (simp add: demo_ioapic_program)
  then show ?thesis
    by (rule ioapic_reach.step [where op = "Write 0x10 [0x31, 0x80, 0, 0]" and out = "[]"])
      (simp add: demo_ioapic_program)
qed

lemma demo_ioapic_pin3 [simp]:
  "io_ioredtbl demo_ioapic ! 3 = 0x8031" "\<not> e_masked 0x8031" "\<not> e_remote 0x8031" "e_level 0x8031"
  by (simp_all add: demo_ioapic_def e_masked_def e_remote_def e_level_def)

theorem ioapic_set_irq_delivers_witness:
  "\<exists>st' ic. ioapic_set_irq demo_whv (Some 3) demo_ioapic = (st', [ic]) \<and>
     ic_vector ic = 0x31 \<and> ioapic_set_irq demo_whv (Some 3) st' = (st', [])"
proof -
  obtain st' out where s: "ioapic_set_irq demo_whv (Some 3) demo_ioapic = (st', out)" by fastforce
  have "ic_vector (inject_interrupt demo_whv (parse_entry 0x8031)) = 0x31"
    by (simp add: inject_interrupt_def parse_entry_def IOAPIC_VECTOR_MASK_def Let_def)
  then show ?thesis
    using s ioapic_set_irq_delivers [OF demo_ioapic_reachable _ s] by simp
qed

text \<open>
  An end of interrupt for a vector re-delivers, in the order of the pins, exactly the
  entries with that vector that were waiting for it, are still asserted and are not masked;
  these stay waiting.  The other entries with the vector stop waiting, entries with another
  vector are not affected, and no request is lost.
\<close>

theorem ioapic_eoi_redelivers:
  assumes "ioapic_reach whv st" "length data = 4" "ioapic_write whv IO_EOI data st = (st', out)"
  defines "v \<equiv> ucast (from_le data :: u32) :: u8"
  shows "out = map (\<lambda>i. inject_interrupt whv (parse_entry (io_ioredtbl st ! i)))
      (filter (\<lambda>i. e_vector (io_ioredtbl st ! i) = v \<and> e_remote (io_ioredtbl st ! i) \<and>
         bit (io_irr st) i \<and> \<not> e_masked (io_ioredtbl st ! i)) [0..<24]) \<and>
    io_irr st' = io_irr st \<and>
    (\<forall>i < 24. e_remote (io_ioredtbl st' ! i) \<longleftrightarrow> e_remote (io_ioredtbl st ! i) \<and>
       (e_vector (io_ioredtbl st ! i) = v \<longrightarrow> bit (io_irr st) i \<and> \<not> e_masked (io_ioredtbl st ! i)))"
proof -
  have wf: "ioapic_wf st" "quiescent st" using ioapic_reach_wf [OF assms(1)] by auto
  have "ioapic_write whv IO_EOI data st = fold (eoi_pin whv v) [0..<IOAPIC_NUM_PINS] (st, [])"
    using assms(2) by (simp add: ioapic_write_def v_def IO_EOI_def IO_WIN_def IO_REG_SEL_def Let_def)
  then obtain tbl where "st' = st\<lparr>io_ioredtbl := tbl\<rparr>"
    "out = pin_interrupts whv st (filter (\<lambda>i. eoi_hits st v i \<and> redelivers st i) [0..<24])"
    "\<forall>j < 24. tbl ! j = (if eoi_hits st v j \<and> \<not> redelivers st j
        then io_ioredtbl st ! j AND NOT IOAPIC_LVT_REMOTE_IRR else io_ioredtbl st ! j)"
    using eoi_loop [OF wf order_refl, of whv v] assms(3) by (auto simp: IOAPIC_NUM_PINS_def)
  then show ?thesis
    by (auto simp: pin_interrupts_def entry_interrupt_def eoi_hits_def redelivers_def conj_assoc)
qed

lemma demo_level_pending:
  "\<exists>st'. ioapic_reach demo_whv st' \<and> bit (io_irr st') 3 \<and> io_ioredtbl st' ! 3 = 0xC031"
proof -
  obtain st' out where s: "ioapic_set_irq demo_whv (Some 3) demo_ioapic = (st', out)" by fastforce
  let ?s = "demo_ioapic\<lparr>io_irr := io_irr demo_ioapic OR push_bit 3 1\<rparr>"
  have wf: "ioapic_wf ?s"
    by (rule raise_wf) (simp_all add: ioapic_reach_wf [OF demo_ioapic_reachable] IOAPIC_NUM_PINS_def)
  have b: "bit (io_irr ?s) 3" by (simp add: demo_ioapic_def ioapic_new_def)
  have "serviced ?s st'"
    using s service_spec [OF wf, of demo_whv] by (auto simp: ioapic_set_irq_def IOAPIC_NUM_PINS_def)
  then have "bit (io_irr st') 3" "io_ioredtbl st' ! 3 = 0x8031 OR IOAPIC_LVT_REMOTE_IRR"
    using b by (simp_all add: serviced_def IOAPIC_NUM_PINS_def)
  moreover have "ioapic_reach demo_whv st'"
    by (rule ioapic_reach.step [OF demo_ioapic_reachable, where op = "SetIrq (Some 3)" and out = out])
      (simp add: s)
  ultimately show ?thesis by (auto simp: ioapic_masks ioapic_shifts)
qed

theorem ioapic_eoi_redelivers_witness:
  "\<exists>st st' out. bit (io_irr st) 3 \<and> ioapic_write demo_whv IO_EOI [0x31, 0, 0, 0] st = (st', out) \<and>
     inject_interrupt demo_whv (parse_entry 0xC031) \<in> set out \<and> e_remote (io_ioredtbl st' ! 3)"
proof -
  obtain st where st: "ioapic_reach demo_whv st" "bit (io_irr st) 3" "io_ioredtbl st ! 3 = 0xC031"
    using demo_level_pending by blast
  obtain st' out where s: "ioapic_write demo_whv IO_EOI [0x31, 0, 0, 0] st = (st', out)" by fastforce
  let ?P = "\<lambda>i. e_vector (io_ioredtbl st ! i) = 0x31 \<and> e_remote (io_ioredtbl st ! i) \<and>
      bit (io_irr st) i \<and> \<not> e_masked (io_ioredtbl st ! i)"
  have P: "?P 3" "e_remote 0xC031"
    using st by (simp_all add: e_vector_def e_remote_def e_masked_def IOAPIC_VECTOR_MASK_def)
  have "3 \<in> set (filter ?P [0..<24])" using P(1) by simp
  moreover have "out = map (\<lambda>i. inject_interrupt demo_whv (parse_entry (io_ioredtbl st ! i)))
      (filter ?P [0..<24])" "e_remote (io_ioredtbl st' ! 3)"
    using ioapic_eoi_redelivers [OF st(1) _ s] st P by simp_all
  ultimately have "inject_interrupt demo_whv (parse_entry 0xC031) \<in> set out"
    using st(3) by (metis (no_types, lifting) image_eqI list.set_map)
  then show ?thesis using st(2) s \<open>e_remote (io_ioredtbl st' ! 3)\<close> by blast
qed


text \<open>The selector of the low or high half of entry \<open>i\<close>, and what it selects.\<close>

definition redtbl_selector :: "nat \<Rightarrow> bool \<Rightarrow> u8" where
  "redtbl_selector i hi = of_nat (16 + 2 * i + of_bool hi)"

lemma redtbl_selector:
  assumes "i < IOAPIC_NUM_PINS" "io_ioregsel st = redtbl_selector i hi"
  shows "redtbl_index st = of_nat i" "0 < io_ioregsel st AND 1 \<longleftrightarrow> hi"
    "\<not> io_ioregsel st < ucast IO_WIN" "io_ioregsel st \<noteq> IO_APIC_ID" "io_ioregsel st \<noteq> IO_APIC_VER"
    "io_ioregsel st \<noteq> IO_APIC_ARB"
proof -
  have i: "i < 24" using assms(1) by (simp add: IOAPIC_NUM_PINS_def)
  have u: "unat (io_ioregsel st) = 16 + 2 * i + of_bool hi"
    unfolding assms(2) redtbl_selector_def by (rule unat_of_nat_small) (use i in simp)
  have "unat (ucast (io_ioregsel st) - 16 :: u64) = 2 * i + of_bool hi"
    using u by (simp add: unat_sub_no_wrap word_le_nat_alt)
  then have "unat (drop_bit 1 (ucast (io_ioregsel st) - 16 :: u64)) = i"
    by (simp only: unat_drop_bit_eq) (simp add: drop_bit_eq_div)
  then have "unat (redtbl_index st) = i"
    by (simp add: redtbl_index_def IOAPIC_REG_REDTBL_BASE_def)
  then show "redtbl_index st = of_nat i" by auto
  have "odd (io_ioregsel st) \<longleftrightarrow> hi"
    using u by (simp add: assms(2) redtbl_selector_def)
  then show "0 < io_ioregsel st AND 1 \<longleftrightarrow> hi" by (simp add: and_one_eq mod_2_eq_odd)
  show "\<not> io_ioregsel st < ucast IO_WIN" "io_ioregsel st \<noteq> IO_APIC_ID"
    "io_ioregsel st \<noteq> IO_APIC_VER" "io_ioregsel st \<noteq> IO_APIC_ARB"
    using u by (auto simp: IO_WIN_def IO_APIC_ID_def IO_APIC_VER_def IO_APIC_ARB_def word_less_nat_alt)
qed

lemma serviced_bits:
  assumes "serviced st st'" "i < IOAPIC_NUM_PINS" "n \<noteq> 14"
  shows "bit (io_ioredtbl st' ! i) n = bit (io_ioredtbl st ! i) n"
  using assms by (simp add: serviced_def bit_or_iff)

lemma read_window_redtbl:
  assumes "i < IOAPIC_NUM_PINS" "io_ioregsel st = redtbl_selector i hi" "n < 32"
  shows "bit (read_window st) n = bit (io_ioredtbl st ! i) (if hi then n + 32 else n)"
proof -
  have i: "unat (of_nat i :: u64) = i" "(of_nat i :: u64) < of_nat IOAPIC_NUM_PINS"
    using assms(1) by (simp_all add: IOAPIC_NUM_PINS_def word_less_nat_alt unat_of_nat)
  define L :: u64 where "L = 0xffffffff"
  have L: "bit L m \<longleftrightarrow> m < 32" for m unfolding L_def by (rule bit_low_mask)
  show ?thesis
    using redtbl_selector [OF assms(1,2)] i assms(3)
    unfolding read_window_def Let_def L_def [symmetric]
    by (auto simp: bit_and_iff bit_unsigned_iff bit_drop_bit_eq L add.commute)
qed

text \<open>
  Programming the redirection table: after selecting either half of an entry and writing a
  value, reading the window back gives the written value in every bit but Delivery Status and
  Remote IRR, which the guest cannot write, and the other half of the entry keeps its value.
\<close>

theorem ioapic_redtbl_roundtrip:
  assumes "ioapic_reach whv st" "i < 24"
    and "ioapic_write whv IO_REG_SEL (to_le 4 (ucast (redtbl_selector i hi) :: u32)) st = (st1, out1)"
    and "ioapic_write whv IO_WIN (to_le 4 (val :: u32)) st1 = (st2, out2)" "length data = 4"
  shows "\<exists>r :: u32. ioapic_read st2 IO_WIN data = to_le 4 r \<and>
    (\<forall>n < 32. hi \<or> n \<noteq> 12 \<and> n \<noteq> 14 \<longrightarrow> bit r n = bit val n) \<and>
    (\<forall>n < 32. \<not> hi \<or> n \<noteq> 14 \<longrightarrow>
       bit (io_ioredtbl st2 ! i) (if hi then n else n + 32) =
       bit (io_ioredtbl st ! i) (if hi then n else n + 32))"
proof -
  have i: "i < IOAPIC_NUM_PINS" using assms(2) by (simp add: IOAPIC_NUM_PINS_def)
  have st1: "st1 = st\<lparr>io_ioregsel := redtbl_selector i hi\<rparr>"
    using assms(3) by (simp add: ioapic_write_def le_simps)
  have wf1: "ioapic_wf st1" using ioapic_reach_wf [OF assms(1)] st1 by (simp add: ioapic_wf_def)
  have r1: "io_ioregsel st1 = redtbl_selector i hi" by (simp add: st1)
  note sel = redtbl_selector [OF i r1]
  have ui: "unat (of_nat i :: u64) = i" "(of_nat i :: u64) < of_nat IOAPIC_NUM_PINS"
    using assms(2) by (simp_all add: IOAPIC_NUM_PINS_def word_less_nat_alt unat_of_nat)
  let ?e = "written_entry hi val (io_ioredtbl st ! i)"
  let ?s = "st1\<lparr>io_ioredtbl := (io_ioredtbl st1)[i := ?e], io_irq_eoi := (io_irq_eoi st1)[i := 0]\<rparr>"
  have w: "ioapic_write whv IO_WIN (to_le 4 val) st1 = service whv ?s"
    using sel ui write_redtbl_eq(2) [OF ioapic_wf_len [OF wf1], of whv val]
    by (simp add: ioapic_write_def le_simps IO_WIN_def IO_REG_SEL_def write_window_def st1)
  have "ioapic_wf ?s"
    using wf1 written_entry_wf [of "io_ioredtbl st ! i" hi val] ioapic_wf_entry [OF wf1 i]
      set_update_subset_insert [of "io_ioredtbl st1" i ?e]
    unfolding ioapic_wf_def by (auto simp: st1)
  then have s2: "serviced ?s st2" using service_spec assms(4) w by (metis fst_conv)
  have r2: "io_ioregsel st2 = redtbl_selector i hi"
    using servicedD(3) [OF \<open>ioapic_wf ?s\<close> s2] r1 by simp
  have e2: "n \<noteq> 14 \<Longrightarrow> bit (io_ioredtbl st2 ! i) n = bit ?e n" for n
    using serviced_bits [OF s2 i, of n] i ioapic_wf_len [OF wf1] by simp
  have "bit (read_window st2) n = bit val n" if "n < 32" "hi \<or> n \<noteq> 12 \<and> n \<noteq> 14" for n
    using read_window_redtbl [OF i r2 that(1)] e2 [of n] e2 [of "n + 32"] that
    by (auto simp: bit_written_entry)
  moreover have "bit (io_ioredtbl st2 ! i) (if hi then n else n + 32) =
      bit (io_ioredtbl st ! i) (if hi then n else n + 32)" if "n < 32" "\<not> hi \<or> n \<noteq> 14" for n
    using e2 [of n] e2 [of "n + 32"] that by (auto simp: bit_written_entry)
  moreover have "ioapic_read st2 IO_WIN data = to_le 4 (read_window st2)"
    using assms(5) by (simp add: ioapic_read_def IO_WIN_def IO_REG_SEL_def Let_def)
  ultimately show ?thesis by blast
qed

theorem ioapic_redtbl_roundtrip_witness:
  "\<exists>st1 st2 out1 out2 r.
     ioapic_write demo_whv IO_REG_SEL (to_le 4 (ucast (redtbl_selector 3 False) :: u32)) ioapic_new = (st1, out1) \<and>
     ioapic_write demo_whv IO_WIN (to_le 4 (0x8031 :: u32)) st1 = (st2, out2) \<and>
     ioapic_read st2 IO_WIN [0, 0, 0, 0] = to_le 4 r \<and> bit r 15 \<and> \<not> bit (r :: u32) 16"
proof -
  obtain st1 out1 where s1:
    "ioapic_write demo_whv IO_REG_SEL (to_le 4 (ucast (redtbl_selector 3 False) :: u32)) ioapic_new = (st1, out1)"
    by fastforce
  obtain st2 out2 where s2: "ioapic_write demo_whv IO_WIN (to_le 4 (0x8031 :: u32)) st1 = (st2, out2)"
    by fastforce
  obtain r :: u32 where r: "ioapic_read st2 IO_WIN [0, 0, 0, 0] = to_le 4 r"
    "\<forall>n < 32. n \<noteq> 12 \<and> n \<noteq> 14 \<longrightarrow> bit r n = bit (0x8031 :: u32) n"
    using ioapic_redtbl_roundtrip [OF ioapic_reach.new _ s1 s2, of "[0, 0, 0, 0]"] by auto
  have "bit r 15" "\<not> bit r 16" using r(2) by simp_all
  then show ?thesis using s1 s2 r(1) by blast
qed


text \<open>
  The two builds differ exactly for the registers 3 to 15: a release build reads 0 there, a build with
  overflow checks panics.
\<close>

theorem window_read_builds:
  "read_window_checked st =
     (if 3 \<le> io_ioregsel st \<and> io_ioregsel st < 0x10 then None else Some (read_window st)) \<and>
   (3 \<le> io_ioregsel st \<and> io_ioregsel st < 0x10 \<longrightarrow> read_window st = 0)"
proof -
  let ?r = "io_ioregsel st"
  have low: "ucast ?r < (0x10 :: u64) \<longleftrightarrow> ?r < 0x10" by (simp add: word_less_nat_alt unsigned_ucast_eq)
  have sel: "?r < 3 \<longleftrightarrow> ?r = 0 \<or> ?r = 1 \<or> ?r = 2"
    by (auto simp: word_less_nat_alt word_unat_eq_iff)
  have "read_window st = 0" if "3 \<le> ?r" "?r < 0x10"
  proof -
    have u: "unat ?r < 16" using that(2) by (simp add: word_less_nat_alt)
    then have "unat (redtbl_index st) = drop_bit 1 (2 ^ 64 - 16 + unat ?r)"
      by (simp add: redtbl_index_def IOAPIC_REG_REDTBL_BASE_def unat_drop_bit_eq unat_sub_if_size word_size unsigned_ucast_eq)
    then have "\<not> redtbl_index st < 24" by (simp add: word_less_nat_alt drop_bit_eq_div)
    moreover have "?r \<noteq> 0 \<and> ?r \<noteq> 1 \<and> ?r \<noteq> 2" using that(1) sel by (metis linorder_not_less)
    ultimately show ?thesis
      by (simp add: read_window_def Let_def IO_APIC_ID_def IO_APIC_ARB_def IO_APIC_VER_def IOAPIC_NUM_PINS_def)
  qed
  then show ?thesis
    using low sel by (auto simp: read_window_checked_def IO_APIC_ID_def IO_APIC_ARB_def IO_APIC_VER_def
        IOAPIC_REG_REDTBL_BASE_def not_le)
qed

section \<open>The interface of an interrupt controller\<close>

text \<open>
  What the transports and the partition rely on (\<^verbatim>\<open>IrqChipT\<close>): an invariant that every operation
  keeps, and an MMIO window that never moves.
\<close>

locale irq_chip =
  fixes inv :: "'s \<Rightarrow> bool"
    and window :: "'s \<Rightarrow> u64 \<times> u64"
    and set_irq :: "u32 option \<Rightarrow> 's \<Rightarrow> 's"
    and clear_irq :: "u32 option \<Rightarrow> 's \<Rightarrow> 's"
    and bus_write :: "u64 \<Rightarrow> u8 list \<Rightarrow> 's \<Rightarrow> 's"
  assumes set_irq_inv: "inv s \<Longrightarrow> inv (set_irq line s) \<and> window (set_irq line s) = window s"
    and clear_irq_inv: "inv s \<Longrightarrow> inv (clear_irq line s) \<and> window (clear_irq line s) = window s"
    and bus_write_inv: "inv s \<Longrightarrow> inv (bus_write off data s) \<and> window (bus_write off data s) = window s"
begin

fun run_op :: "ioapic_op \<Rightarrow> 's \<Rightarrow> 's" where
  "run_op (SetIrq line) s = set_irq line s"
| "run_op (ClearIrq line) s = clear_irq line s"
| "run_op (Write off data) s = bus_write off data s"

lemma run_op_inv: "inv s \<Longrightarrow> inv (run_op op s) \<and> window (run_op op s) = window s"
  using set_irq_inv clear_irq_inv bus_write_inv by (cases op) auto

lemma run_ops_inv: "inv s \<Longrightarrow> inv (fold run_op ops s) \<and> window (fold run_op ops s) = window s"
proof (induction ops arbitrary: s)
  case Nil
  then show ?case by simp
next
  case (Cons op ops)
  then show ?case using run_op_inv [of s op] Cons.IH [of "run_op op s"] by simp
qed

end

interpretation ioapic_chip: irq_chip "\<lambda>st. ioapic_wf st \<and> quiescent st"
  "\<lambda>st. (ioapic_get_mmio_addr st, ioapic_get_mmio_size st)"
  "\<lambda>line st. fst (ioapic_set_irq whv line st)" ioapic_clear_irq
  "\<lambda>off data st. fst (ioapic_write whv off data st)"
  for whv
  by unfold_locales
    (use ioapic_set_irq_wf ioapic_clear_irq_wf ioapic_write_wf in
      \<open>auto simp: ioapic_get_mmio_addr_def ioapic_get_mmio_size_def\<close>)

interpretation simple_chip: irq_chip "\<lambda>s. True" "\<lambda>s. (si_mmio_addr s, si_mmio_size s)"
  "\<lambda>line s. fst (simple_set_irq line evt s)" simple_clear_irq "\<lambda>off data s. s"
  for evt
  by unfold_locales (simp_all add: simple_set_irq_def simple_clear_irq_def)


fun chip_inv :: "irqchip_device \<Rightarrow> bool" where
  "chip_inv (ChipIoApic st) \<longleftrightarrow> ioapic_wf st \<and> quiescent st"
| "chip_inv (ChipSimple s) \<longleftrightarrow> True"

text \<open>The wrapper keeps the contract because both implementations do.\<close>

interpretation any_chip: irq_chip chip_inv "\<lambda>c. (irqchip_get_mmio_addr c, irqchip_get_mmio_size c)"
  "\<lambda>line c. fst (irqchip_set_irq whv line evt c)" irqchip_clear_irq
  "\<lambda>off data c. fst (irqchip_write whv off data c)"
  for whv evt
proof unfold_locales
  fix s line
  assume "chip_inv s"
  then show "chip_inv (fst (irqchip_set_irq whv line evt s)) \<and>
      (irqchip_get_mmio_addr (fst (irqchip_set_irq whv line evt s)),
       irqchip_get_mmio_size (fst (irqchip_set_irq whv line evt s))) =
      (irqchip_get_mmio_addr s, irqchip_get_mmio_size s)"
    using ioapic_chip.set_irq_inv [where whv = whv and line = line] simple_chip.set_irq_inv [where evt = evt and line = line]
    by (cases s) (simp_all add: case_prod_beta)
next
  fix s line
  assume "chip_inv s"
  then show "chip_inv (irqchip_clear_irq line s) \<and>
      (irqchip_get_mmio_addr (irqchip_clear_irq line s), irqchip_get_mmio_size (irqchip_clear_irq line s)) =
      (irqchip_get_mmio_addr s, irqchip_get_mmio_size s)"
    using ioapic_chip.clear_irq_inv [where line = line] simple_chip.clear_irq_inv [where line = line] by (cases s) auto
next
  fix s off data
  assume "chip_inv s"
  then show "chip_inv (fst (irqchip_write whv off data s)) \<and>
      (irqchip_get_mmio_addr (fst (irqchip_write whv off data s)),
       irqchip_get_mmio_size (fst (irqchip_write whv off data s))) =
      (irqchip_get_mmio_addr s, irqchip_get_mmio_size s)"
    using ioapic_chip.bus_write_inv [where whv = whv and off = off and data = data] by (cases s) (simp_all add: case_prod_beta)
qed

end
