(* ===== verification/Byte_Order.thy ===== *)
theory Byte_Order
  imports Prelude
begin

text \<open>
  Integers in byte buffers (\<^verbatim>\<open>src/byte_order.rs\<close>).  The generated readers fill a zeroed array
  with as many bytes as the input has; the writers store as many bytes as the buffer takes.
\<close>

definition put_bytes :: "u8 list \<Rightarrow> u8 list \<Rightarrow> u8 list" where
  "put_bytes buf bs = take (length buf) bs @ drop (length bs) buf"

definition array_of :: "nat \<Rightarrow> u8 list \<Rightarrow> u8 list" where
  "array_of n input = put_bytes (replicate n 0) (take n input)"

definition read_le_u16 :: "u8 list \<Rightarrow> u16" where "read_le_u16 input = from_le (array_of 2 input)"
definition read_le_u32 :: "u8 list \<Rightarrow> u32" where "read_le_u32 input = from_le (array_of 4 input)"
definition read_le_u64 :: "u8 list \<Rightarrow> u64" where "read_le_u64 input = from_le (array_of 8 input)"
definition read_be_u16 :: "u8 list \<Rightarrow> u16" where "read_be_u16 input = from_le (rev (array_of 2 input))"
definition read_be_u32 :: "u8 list \<Rightarrow> u32" where "read_be_u32 input = from_le (rev (array_of 4 input))"

definition write_le_u16 :: "u8 list \<Rightarrow> u16 \<Rightarrow> u8 list" where "write_le_u16 buf n = put_bytes buf (to_le 2 n)"
definition write_le_u32 :: "u8 list \<Rightarrow> u32 \<Rightarrow> u8 list" where "write_le_u32 buf n = put_bytes buf (to_le 4 n)"
definition write_le_u64 :: "u8 list \<Rightarrow> u64 \<Rightarrow> u8 list" where "write_le_u64 buf n = put_bytes buf (to_le 8 n)"
definition write_be_u16 :: "u8 list \<Rightarrow> u16 \<Rightarrow> u8 list" where
  "write_be_u16 buf n = put_bytes buf (rev (to_le 2 n))"
definition write_be_u32 :: "u8 list \<Rightarrow> u32 \<Rightarrow> u8 list" where
  "write_be_u32 buf n = put_bytes buf (rev (to_le 4 n))"

lemmas byte_order_defs = read_le_u16_def read_le_u32_def read_le_u64_def read_be_u16_def
  read_be_u32_def write_le_u16_def write_le_u32_def write_le_u64_def write_be_u16_def
  write_be_u32_def

lemma length_put_bytes [simp]: "length (put_bytes buf bs) = length buf"
  by (simp add: put_bytes_def min_def)

lemma put_bytes_same: "length bs = length buf \<Longrightarrow> put_bytes buf bs = bs"
  by (simp add: put_bytes_def)

lemma put_bytes_fits: "length bs \<le> length buf \<Longrightarrow> put_bytes buf bs = bs @ drop (length bs) buf"
  by (simp add: put_bytes_def)

lemma array_of_long: "n \<le> length input \<Longrightarrow> array_of n input = take n input"
  by (simp add: array_of_def put_bytes_def)

lemma array_of_put: "length bs \<le> length buf \<Longrightarrow> array_of (length bs) (put_bytes buf bs) = bs"
  by (simp add: array_of_long put_bytes_fits)

lemma read_le_u32_4: "length data = 4 \<Longrightarrow> read_le_u32 data = from_le data"
  by (simp add: read_le_u32_def array_of_long)

lemma write_le_u32_4: "length data = 4 \<Longrightarrow> write_le_u32 data v = to_le 4 v"
  by (simp add: write_le_u32_def put_bytes_same)

text \<open>
  Writing an integer into a buffer that is large enough and reading it back gives the
  integer, in both byte orders and at every width; the rest of the buffer is unchanged.
\<close>

theorem byte_order_roundtrip:
  assumes "8 \<le> length buf"
  shows "read_le_u16 (write_le_u16 buf a) = a \<and> read_le_u32 (write_le_u32 buf b) = b \<and>
    read_le_u64 (write_le_u64 buf c) = c \<and> read_be_u16 (write_be_u16 buf a) = a \<and>
    read_be_u32 (write_be_u32 buf b) = b \<and> drop 8 (write_le_u64 buf c) = drop 8 buf"
  using assms array_of_put [of "to_le 2 a" buf] array_of_put [of "to_le 4 b" buf]
    array_of_put [of "to_le 8 c" buf] array_of_put [of "rev (to_le 2 a)" buf]
    array_of_put [of "rev (to_le 4 b)" buf]
  by (simp add: byte_order_defs le_bytes_roundtrip put_bytes_fits)

theorem byte_order_roundtrip_witness:
  "read_be_u16 (write_be_u16 [0, 0, 0, 0, 0, 0, 0, 0, 9] 0x1234) = 0x1234 \<and>
   write_be_u16 [0, 0, 0, 0, 0, 0, 0, 0, 9] 0x1234 = [0x12, 0x34, 0, 0, 0, 0, 0, 0, 9]"
  using byte_order_roundtrip [of "[0, 0, 0, 0, 0, 0, 0, 0, 9]" "0x1234"]
  by (simp add: write_be_u16_def put_bytes_def to_le_numeral)

end
