(* ===== verification/Mmio_Transport.thy ===== *)
theory Mmio_Transport
  imports Virtio_Device Ioapic Byte_Order
begin

text \<open>
  The virtio MMIO transport (\<^verbatim>\<open>src/devices/virtio/mmio.rs\<close>): the register file a guest driver
  programs, the device status state machine, activation and reset of the device behind it, and
  the interrupt status with its line to the interrupt controller.

  The interrupt controller is shared by all transports, so it is an explicit argument and result.
  What the outside world decides is in an environment record: the numbers of the feature bits and
  interrupt types, whether the network proxy can be spawned, whether signalling an event succeeds.
\<close>

section \<open>State\<close>

definition VENDOR_ID :: u32 where "VENDOR_ID = 0"
definition MMIO_MAGIC_VALUE :: u32 where "MMIO_MAGIC_VALUE = 0x74726976"
definition MMIO_VERSION :: u32 where "MMIO_VERSION = 2"

definition INIT :: u32 where "INIT = 0"
definition ACKNOWLEDGE :: u32 where "ACKNOWLEDGE = 1"
definition DRIVER :: u32 where "DRIVER = 2"
definition FAILED :: u32 where "FAILED = 128"
definition FEATURES_OK :: u32 where "FEATURES_OK = 8"
definition DRIVER_OK :: u32 where "DRIVER_OK = 4"

lemmas status_defs = INIT_def ACKNOWLEDGE_def DRIVER_def FAILED_def FEATURES_OK_def DRIVER_OK_def

record mmio_env =
  env_bits :: virtio_bits
  env_whv :: whv_interrupt_types
  env_gvproxy_ok :: bool
  env_start_ok :: bool
  env_signal_ok :: bool

record interrupt_transport =
  it_status :: usize
  it_irq_line :: "u32 option"

record mmio_transport =
  mt_device :: virtio_device
  mt_features_select :: u32
  mt_acked_features_select :: u32
  mt_queue_select :: u32
  mt_device_status :: u32
  mt_config_generation :: u32
  mt_mem :: memory_manager
  mt_queues :: "queue list option"
  mt_queue_evts :: nat
  mt_queue_config :: "u16 list"
  mt_shm_region_select :: u32
  mt_interrupt :: interrupt_transport

text \<open>What a write does besides changing state: wake a queue's worker, or print a byte.\<close>

datatype mmio_effect = QueueNotify nat | ConsoleByte "u8 list"

section \<open>Interrupts\<close>

datatype create_transport_error = CreateInterruptEventFd

definition fresh_interrupt :: interrupt_transport where
  "fresh_interrupt = \<lparr>it_status = 0, it_irq_line = None\<rparr>"

text \<open>\<open>event_ok\<close>: whether the event for interrupts could be created.\<close>

definition interrupt_transport_new :: "bool \<Rightarrow> (create_transport_error, interrupt_transport) result" where
  "interrupt_transport_new event_ok = (if event_ok then Ok fresh_interrupt else Err CreateInterruptEventFd)"

definition try_signal ::
  "mmio_env \<Rightarrow> u32 \<Rightarrow> interrupt_transport \<Rightarrow> irqchip_device \<Rightarrow>
   interrupt_transport \<times> irqchip_device \<times> interrupt_control list \<times> (unit, unit) result" where
  "try_signal env status it chip =
     (let it' = it\<lparr>it_status := it_status it OR ucast status\<rparr>
      in case irqchip_set_irq (env_whv env) (it_irq_line it) (Some (env_signal_ok env)) chip of
           (chip', out, r) \<Rightarrow> (it', chip', out, r))"

definition try_signal_used_queue where
  "try_signal_used_queue env it chip = try_signal env VIRTIO_MMIO_INT_VRING it chip"

definition try_signal_config_change where
  "try_signal_config_change env it chip = try_signal env VIRTIO_MMIO_INT_CONFIG it chip"

definition try_clear_irq :: "interrupt_transport \<Rightarrow> irqchip_device \<Rightarrow> irqchip_device" where
  "try_clear_irq it chip = irqchip_clear_irq (it_irq_line it) chip"

section \<open>The transport\<close>

definition create_queues :: "u16 list \<Rightarrow> queue list" where
  "create_queues qc = map queue_new qc"

text \<open>The events of the queues, of which only the number is kept.\<close>

definition create_queue_evts :: "(event_site \<Rightarrow> bool) \<Rightarrow> nat \<Rightarrow> (create_transport_error, nat) result" where
  "create_queue_evts ev n =
     (if list_all (\<lambda>i. ev (QueueEvent i)) [0..<n] then Ok n else Err CreateInterruptEventFd)"

definition mmio_transport_new ::
  "(event_site \<Rightarrow> bool) \<Rightarrow> memory_manager \<Rightarrow> virtio_device \<Rightarrow> (create_transport_error, mmio_transport) result" where
  "mmio_transport_new ev mem d =
     bind_result (create_queue_evts ev (length (queue_config d))) (\<lambda>queue_evts.
     bind_result (interrupt_transport_new (ev InterruptEvent)) (\<lambda>interrupt.
     Ok \<lparr>mt_device = d, mt_features_select = 0, mt_acked_features_select = 0, mt_queue_select = 0,
         mt_device_status = INIT, mt_config_generation = 0, mt_mem = mem,
         mt_queues = Some (create_queues (queue_config d)), mt_queue_evts = queue_evts,
         mt_queue_config = queue_config d, mt_shm_region_select = 0, mt_interrupt = interrupt\<rparr>))"

text \<open>
  The interrupt state is reference counted; it can only be changed while no activated device
  holds a clone of it.
\<close>

definition set_irq_line :: "u32 \<Rightarrow> mmio_transport \<Rightarrow> mmio_transport" where
  "set_irq_line irq_line t =
     (if is_activated (mt_device t) then t
      else t\<lparr>mt_interrupt := (mt_interrupt t)\<lparr>it_irq_line := Some irq_line\<rparr>\<rparr>)"

definition check_device_status :: "mmio_transport \<Rightarrow> u32 \<Rightarrow> u32 \<Rightarrow> bool" where
  "check_device_status t set_bits clr \<longleftrightarrow> mt_device_status t AND (set_bits OR clr) = set_bits"

definition with_queue :: "mmio_transport \<Rightarrow> 'a \<Rightarrow> (queue \<Rightarrow> 'a) \<Rightarrow> 'a" where
  "with_queue t d f =
     (case mt_queues t of
        Some queues \<Rightarrow>
          if unat (mt_queue_select t) < length queues then f (queues ! unat (mt_queue_select t)) else d
      | None \<Rightarrow> d)"

definition with_queue_mut :: "(queue \<Rightarrow> queue) \<Rightarrow> mmio_transport \<Rightarrow> mmio_transport" where
  "with_queue_mut f t =
     (case mt_queues t of
        Some queues \<Rightarrow>
          let i = unat (mt_queue_select t)
          in if i < length queues then t\<lparr>mt_queues := Some (queues[i := f (queues ! i)])\<rparr> else t
      | None \<Rightarrow> t)"

definition update_queue_field :: "(queue \<Rightarrow> queue) \<Rightarrow> mmio_transport \<Rightarrow> mmio_transport" where
  "update_queue_field f t =
     (if check_device_status t FEATURES_OK FAILED then with_queue_mut f t else t)"

definition transport_reset :: "mmio_transport \<Rightarrow> mmio_transport" where
  "transport_reset t =
     t\<lparr>mt_features_select := 0, mt_acked_features_select := 0, mt_queue_select := 0,
       mt_interrupt := (mt_interrupt t)\<lparr>it_status := 0\<rparr>, mt_device_status := INIT,
       mt_queues := Some (create_queues (mt_queue_config t))\<rparr>"

text \<open>Activation; a device that refuses or panics takes the caller down with it (\<open>None\<close>).\<close>

definition transport_activate :: "mmio_env \<Rightarrow> mmio_transport \<Rightarrow> mmio_transport panics" where
  "transport_activate env t =
     (case mt_queues t of
        None \<Rightarrow> Some t
      | Some queues \<Rightarrow>
          let device_queues = take (mt_queue_evts t) queues;
              event_idx_enabled =
                acked_features (mt_device t) AND push_bit (VIRTIO_RING_F_EVENT_IDX (env_bits env)) 1 \<noteq> 0;
              dqs = map (\<lambda>q. set_event_idx q event_idx_enabled) device_queues
          in case device_activate (env_start_ok env) (env_gvproxy_ok env) (mt_mem t) dqs (mt_device t) of
               None \<Rightarrow> None
             | Some (d, Err _) \<Rightarrow> None
             | Some (d, Ok _) \<Rightarrow> Some (t\<lparr>mt_queues := None, mt_device := d\<rparr>))"

text \<open>The branch for a driver that writes zero: reset the device, unless it cannot be.\<close>

definition status_reset :: "mmio_transport \<Rightarrow> mmio_transport" where
  "status_reset t =
     (let t1 = (if is_activated (mt_device t) then
                  (case device_reset (mt_device t) of
                     (d, was_reset) \<Rightarrow>
                       if \<not> was_reset
                       then t\<lparr>mt_device := d, mt_device_status := mt_device_status t OR FAILED\<rparr>
                       else t\<lparr>mt_device := d\<rparr>)
                else t)
      in if mt_device_status t1 AND FAILED = 0 then transport_reset t1 else t1)"

definition set_device_status :: "mmio_env \<Rightarrow> u32 \<Rightarrow> mmio_transport \<Rightarrow> mmio_transport panics" where
  "set_device_status env status t =
     (let cur = mt_device_status t; changed = NOT cur AND status
      in if changed = ACKNOWLEDGE \<and> cur = INIT then Some (t\<lparr>mt_device_status := status\<rparr>)
         else if changed = DRIVER \<and> cur = ACKNOWLEDGE then Some (t\<lparr>mt_device_status := status\<rparr>)
         else if changed = FEATURES_OK \<and> cur = ACKNOWLEDGE OR DRIVER then
           Some (t\<lparr>mt_device_status := status\<rparr>)
         else if changed = DRIVER_OK \<and> cur = ACKNOWLEDGE OR DRIVER OR FEATURES_OK then
           let t1 = t\<lparr>mt_device_status := status\<rparr>
           in if \<not> is_activated (mt_device t1) then transport_activate env t1 else Some t1
         else if status AND FAILED \<noteq> 0 then Some (t\<lparr>mt_device_status := cur OR FAILED\<rparr>)
         else if status = 0 then Some (status_reset t)
         else Some t)"

section \<open>Register access\<close>

text \<open>None of the devices has a shared memory region.\<close>

definition shm_region :: "virtio_device \<Rightarrow> (u64 \<times> u64) option" where
  "shm_region d = None"

definition shm_register :: "mmio_transport \<Rightarrow> u64 \<Rightarrow> u32" where
  "shm_register t offset =
     (let (shm_base, shm_len) =
            (if 1 < mt_shm_region_select t then (0, - 1)
             else case shm_region (mt_device t) of Some (a, n) \<Rightarrow> (a, n) | None \<Rightarrow> (0, - 1))
      in if offset = 0xb0 then ucast shm_len
         else if offset = 0xb4 then ucast (drop_bit 32 shm_len)
         else if offset = 0xb8 then ucast shm_base
         else if offset = 0xbc then ucast (drop_bit 32 shm_base)
         else 0)"

definition mmio_register :: "mmio_transport \<Rightarrow> u64 \<Rightarrow> u32 option" where
  "mmio_register t offset =
     (if offset = 0x0 then Some MMIO_MAGIC_VALUE
      else if offset = 0x04 then Some MMIO_VERSION
      else if offset = 0x08 then Some (device_type (mt_device t))
      else if offset = 0x0c then Some VENDOR_ID
      else if offset = 0x10 then
        let features = avail_features_by_page avail_features (mt_device t) (mt_features_select t)
        in Some (if mt_features_select t = 1 then features OR 1 else features)
      else if offset = 0x34 then Some (with_queue t 0 (\<lambda>q. ucast (get_max_size q)))
      else if offset = 0x44 then Some (with_queue t 0 (\<lambda>q. of_bool (q_ready q)))
      else if offset = 0x60 then Some (ucast (it_status (mt_interrupt t)))
      else if offset = 0x70 then Some (mt_device_status t)
      else if offset = 0xfc then Some (mt_config_generation t)
      else if 0xb0 \<le> offset \<and> offset \<le> 0xbc then Some (shm_register t offset)
      else None)"

definition mmio_read :: "mmio_transport \<Rightarrow> u64 \<Rightarrow> u8 list \<Rightarrow> u8 list panics" where
  "mmio_read t offset data =
     (if offset \<le> 0xff \<and> length data = 4 then
        (case mmio_register t offset of
           None \<Rightarrow> Some data
         | Some v \<Rightarrow> Some (write_le_u32 data v))
      else if 0x100 \<le> offset \<and> offset \<le> 0xfff then read_config (mt_device t) (offset - 0x100) data
      else Some data)"

definition addr_hi :: "guest_address \<Rightarrow> u32 \<Rightarrow> guest_address" where
  "addr_hi v x = (v AND 0xffffffff) OR push_bit 32 (ucast x)"

definition addr_lo :: "guest_address \<Rightarrow> u32 \<Rightarrow> guest_address" where
  "addr_lo v x = (v AND NOT 0xffffffff) OR ucast x"

definition interrupt_ack ::
  "u32 \<Rightarrow> mmio_transport \<Rightarrow> irqchip_device \<Rightarrow> mmio_transport \<times> irqchip_device" where
  "interrupt_ack v t chip =
     (if check_device_status t DRIVER_OK 0 then
        let prev = it_status (mt_interrupt t);
            rest = prev AND NOT (ucast v);
            t' = t\<lparr>mt_interrupt := (mt_interrupt t)\<lparr>it_status := rest\<rparr>\<rparr>
        in (t', if rest = 0 then try_clear_irq (mt_interrupt t') chip else chip)
      else (t, chip))"

text \<open>
  The write handler: registers that select, registers of the selected queue, and the registers
  with an action of their own.
\<close>

definition select_register :: "u64 \<Rightarrow> u32 \<Rightarrow> mmio_transport \<Rightarrow> mmio_transport option" where
  "select_register offset v t =
     (if offset = 0x14 then Some (t\<lparr>mt_features_select := v\<rparr>)
      else if offset = 0x24 then Some (t\<lparr>mt_acked_features_select := v\<rparr>)
      else if offset = 0x30 then Some (t\<lparr>mt_queue_select := v\<rparr>)
      else if offset = 0xac then Some (t\<lparr>mt_shm_region_select := v\<rparr>)
      else None)"

definition queue_register :: "u64 \<Rightarrow> u32 \<Rightarrow> (queue \<Rightarrow> queue) option" where
  "queue_register offset v =
     (if offset = 0x38 then Some (\<lambda>q. q\<lparr>q_size := ucast v\<rparr>)
      else if offset = 0x44 then Some (\<lambda>q. q\<lparr>q_ready := (v = 1)\<rparr>)
      else if offset = 0x80 then Some (\<lambda>q. q\<lparr>q_desc_table := addr_lo (q_desc_table q) v\<rparr>)
      else if offset = 0x84 then Some (\<lambda>q. q\<lparr>q_desc_table := addr_hi (q_desc_table q) v\<rparr>)
      else if offset = 0x90 then Some (\<lambda>q. q\<lparr>q_avail_ring := addr_lo (q_avail_ring q) v\<rparr>)
      else if offset = 0x94 then Some (\<lambda>q. q\<lparr>q_avail_ring := addr_hi (q_avail_ring q) v\<rparr>)
      else if offset = 0xa0 then Some (\<lambda>q. q\<lparr>q_used_ring := addr_lo (q_used_ring q) v\<rparr>)
      else if offset = 0xa4 then Some (\<lambda>q. q\<lparr>q_used_ring := addr_hi (q_used_ring q) v\<rparr>)
      else None)"

definition action_register ::
  "mmio_env \<Rightarrow> u64 \<Rightarrow> u32 \<Rightarrow> mmio_transport \<Rightarrow> irqchip_device \<Rightarrow>
   (mmio_transport \<times> irqchip_device \<times> mmio_effect list) panics" where
  "action_register env offset v t chip =
     (if offset = 0x20 then
        Some (if check_device_status t DRIVER (FEATURES_OK OR FAILED)
              then t\<lparr>mt_device := ack_features_by_page avail_features acked_features
                       set_acked_features (mt_acked_features_select t) v (mt_device t)\<rparr>
              else t, chip, [])
      else if offset = 0x50 then
        (if unat v < mt_queue_evts t
         then if env_signal_ok env then Some (t, chip, [QueueNotify (unat v)]) else None
         else Some (t, chip, []))
      else if offset = 0x64 then
        (case interrupt_ack v t chip of (t', chip') \<Rightarrow> Some (t', chip', []))
      else if offset = 0x70 then
        (case set_device_status env v t of None \<Rightarrow> None | Some t' \<Rightarrow> Some (t', chip, []))
      else Some (t, chip, []))"

definition mmio_write ::
  "mmio_env \<Rightarrow> u64 \<Rightarrow> u8 list \<Rightarrow> mmio_transport \<Rightarrow> irqchip_device \<Rightarrow>
   (mmio_transport \<times> irqchip_device \<times> mmio_effect list) panics" where
  "mmio_write env offset data t chip =
     (if offset \<le> 0xff \<and> length data = 4 then
        let v = read_le_u32 data
        in case select_register offset v t of
             Some t' \<Rightarrow> Some (t', chip, [])
           | None \<Rightarrow>
               (case queue_register offset v of
                  Some f \<Rightarrow> Some (update_queue_field f t, chip, [])
                | None \<Rightarrow> action_register env offset v t chip)
      else if 0x100 \<le> offset \<and> offset \<le> 0xfff then
        (if check_device_status t DRIVER FAILED
         then Some (t, chip, case write_config (mt_device t) (offset - 0x100) data of
                               [] \<Rightarrow> [] | bs \<Rightarrow> [ConsoleByte bs])
         else Some (t, chip, []))
      else Some (t, chip, []))"

definition mmio_interrupt :: "mmio_env \<Rightarrow> u32 \<Rightarrow> mmio_transport \<Rightarrow> mmio_transport panics" where
  "mmio_interrupt env irq_mask t =
     (if env_signal_ok env
      then Some (t\<lparr>mt_interrupt := (mt_interrupt t)\<lparr>it_status := it_status (mt_interrupt t) OR ucast irq_mask\<rparr>\<rparr>)
      else None)"


section \<open>Invariant\<close>

definition has_bits :: "u32 \<Rightarrow> u32 \<Rightarrow> bool" where
  "has_bits status b \<longleftrightarrow> status AND b = b"

text \<open>The part that speaks of the device behind the transport.\<close>

definition device_ok :: "virtio_device \<Rightarrow> bool" where
  "device_ok d \<longleftrightarrow> acked_features d AND NOT (avail_features d) = 0 \<and>
     (is_activated d \<longleftrightarrow> worker_queues d \<noteq> None) \<and>
     (\<forall>qs. worker_queues d = Some qs \<longrightarrow> map q_max_size qs = queue_config d)"

definition transport_ok :: "mmio_transport \<Rightarrow> bool" where
  "transport_ok t \<longleftrightarrow>
     device_ok (mt_device t) \<and>
     mt_queue_config t = queue_config (mt_device t) \<and>
     mt_queue_evts t = length (mt_queue_config t) \<and>
     (\<forall>qs. mt_queues t = Some qs \<longrightarrow> map q_max_size qs = mt_queue_config t) \<and>
     (is_activated (mt_device t) \<longrightarrow> mt_queues t = None \<and> has_bits (mt_device_status t) DRIVER_OK) \<and>
     (\<not> is_activated (mt_device t) \<and> \<not> has_bits (mt_device_status t) FAILED \<longrightarrow>
        mt_queues t \<noteq> None \<and> \<not> has_bits (mt_device_status t) DRIVER_OK)"

lemma map_max_size_update:
  "i < length qs \<Longrightarrow> q_max_size (f (qs ! i)) = q_max_size (qs ! i) \<Longrightarrow>
   map q_max_size (qs[i := f (qs ! i)]) = map q_max_size qs"
  by (metis list_update_id map_update nth_map)

lemma update_queue_field_ok:
  assumes "transport_ok t" "\<And>q. q_max_size (f q) = q_max_size q"
  shows "transport_ok (update_queue_field f t)"
  using assms map_max_size_update [of _ _ f]
  by (auto simp: transport_ok_def update_queue_field_def with_queue_mut_def Let_def split: option.splits)

lemma device_reset_ok:
  assumes "device_ok d" "device_reset d = (d', b)"
  shows "device_ok d'" "\<not> is_activated d'" "b" "queue_config d' = queue_config d"
  using assms dev.reset_laws [OF assms(2)] queue_config_reset [OF assms(2)] by (auto simp: device_ok_def)

lemma transport_activate_ok:
  assumes "transport_ok t" "\<not> is_activated (mt_device t)" "mt_queues t = Some qs"
    and "transport_activate env (t\<lparr>mt_device_status := st\<rparr>) = Some t'" "has_bits st DRIVER_OK"
  defines "e \<equiv> acked_features (mt_device t) AND push_bit (VIRTIO_RING_F_EVENT_IDX (env_bits env)) 1 \<noteq> 0"
  shows "transport_ok t'" "is_activated (mt_device t')"
    "worker_queues (mt_device t') = Some (map (\<lambda>q. set_event_idx q e) qs)"
    "mt_queues t' = None" "mt_device_status t' = st"
proof -
  let ?dqs = "map (\<lambda>q. set_event_idx q e) qs"
  have len: "length qs = mt_queue_evts t" and mx: "map q_max_size qs = mt_queue_config t"
    using assms(1,3) by (auto simp: transport_ok_def dest: arg_cong [where f = length])
  obtain d where act: "device_activate (env_start_ok env) (env_gvproxy_ok env) (mt_mem t) ?dqs (mt_device t) = Some (d, Ok ())"
    and t': "t' = t\<lparr>mt_device_status := st, mt_queues := None, mt_device := d\<rparr>"
    using assms(3,4) len
    by (auto simp: transport_activate_def e_def Let_def split: option.splits prod.splits result.splits)
  note laws = dev.activate_laws [OF act] queue_config_activate [OF act]
  have "map q_max_size ?dqs = queue_config d"
    using mx laws assms(1) by (simp add: transport_ok_def set_event_idx_def comp_def)
  then show "transport_ok t'"
    using laws assms(1,5) t' by (auto simp: transport_ok_def device_ok_def)
  show "is_activated (mt_device t')" "worker_queues (mt_device t') = Some ?dqs"
    "mt_queues t' = None" "mt_device_status t' = st"
    using laws t' by auto
qed

lemma and_exp_eq: "n < LENGTH('a) \<Longrightarrow> x AND 2 ^ n = 2 ^ n \<longleftrightarrow> bit (x :: 'a::len word) n"
  by (auto simp: bit_eq_iff [of "x AND 2 ^ n"] bit_simps)

lemma has_bits_simps [simp]:
  "has_bits s DRIVER_OK \<longleftrightarrow> bit s 2" "has_bits s FAILED \<longleftrightarrow> bit s 7" "has_bits s FEATURES_OK \<longleftrightarrow> bit s 3"
  "has_bits s DRIVER \<longleftrightarrow> bit s 1"
  using and_exp_eq [of 2 s] and_exp_eq [of 7 s] and_exp_eq [of 3 s] and_exp_eq [of 1 s]
  by (simp_all add: has_bits_def status_defs)

lemma and_FAILED [simp]: "s AND FAILED = 0 \<longleftrightarrow> \<not> bit s 7"
  using and_exp_eq_0_iff_not_bit [of s 7] by (simp add: status_defs)

text \<open>A status write that sets the bits \<open>x\<close> adds exactly these to the bits that were clear.\<close>

lemma changed_bits: "NOT cur AND status = x \<Longrightarrow> \<not> bit (cur :: u32) n \<Longrightarrow> bit status n = bit x n"
  by (metis bit_and_iff bit_not_iff bit_imp_possible_bit)

lemma transport_reset_ok:
  assumes "device_ok (mt_device t)" "\<not> is_activated (mt_device t)"
    and "mt_queue_config t = queue_config (mt_device t)" "mt_queue_evts t = length (mt_queue_config t)"
  shows "transport_ok (transport_reset t)"
  using assms
  by (simp add: transport_ok_def transport_reset_def create_queues_def queue_new_def comp_def INIT_def)

lemma status_reset_eq:
  "status_reset t =
     (let t1 = (if is_activated (mt_device t) then t\<lparr>mt_device := fst (device_reset (mt_device t))\<rparr> else t)
      in if bit (mt_device_status t) 7 then t1 else transport_reset t1)"
proof -
  obtain d b where d: "device_reset (mt_device t) = (d, b)" by fastforce
  have "b" using dev.reset_laws [OF d] by simp
  then show ?thesis by (simp add: status_reset_def Let_def d)
qed

lemma status_reset_ok:
  assumes "transport_ok t"
  shows "transport_ok (status_reset t)"
proof -
  let ?t1 = "if is_activated (mt_device t) then t\<lparr>mt_device := fst (device_reset (mt_device t))\<rparr> else t"
  have "device_ok (mt_device t)" using assms by (simp add: transport_ok_def)
  then have d: "device_ok (mt_device ?t1)" "\<not> is_activated (mt_device ?t1)"
    "queue_config (mt_device ?t1) = queue_config (mt_device t)"
    using device_reset_ok [of "mt_device t", OF _ surjective_pairing] by simp_all
  then have "bit (mt_device_status t) 7 \<Longrightarrow> transport_ok ?t1" "transport_ok (transport_reset ?t1)"
    using assms transport_reset_ok [of ?t1] by (auto simp: transport_ok_def)
  then show ?thesis by (simp add: status_reset_eq Let_def)
qed

lemma transport_ok_status:
  assumes "transport_ok t" "bit st 2 = bit (mt_device_status t) 2" "bit (mt_device_status t) 7 \<longrightarrow> bit st 7"
  shows "transport_ok (t\<lparr>mt_device_status := st\<rparr>)"
  using assms by (auto simp: transport_ok_def)

text \<open>The outcome of a status write, by the state machine's transitions.\<close>

lemma set_device_status_cases:
  assumes "set_device_status env status t = Some t'"
  obtains
      (advance) x where "x \<in> {ACKNOWLEDGE, DRIVER, FEATURES_OK}" "NOT (mt_device_status t) AND status = x"
        "mt_device_status t \<in> {INIT, ACKNOWLEDGE, ACKNOWLEDGE OR DRIVER}"
        "t' = t\<lparr>mt_device_status := status\<rparr>"
    | (driver_ok) "NOT (mt_device_status t) AND status = DRIVER_OK"
        "mt_device_status t = ACKNOWLEDGE OR DRIVER OR FEATURES_OK"
        "(if \<not> is_activated (mt_device t) then transport_activate env (t\<lparr>mt_device_status := status\<rparr>)
          else Some (t\<lparr>mt_device_status := status\<rparr>)) = Some t'"
    | (failed) "bit status 7" "t' = t\<lparr>mt_device_status := mt_device_status t OR FAILED\<rparr>"
    | (zero) "status = 0" "t' = status_reset t"
    | (ignored) "t' = t"
proof -
  let ?cur = "mt_device_status t" and ?set = "t\<lparr>mt_device_status := status\<rparr>"
  define A where "A \<longleftrightarrow> NOT ?cur AND status = ACKNOWLEDGE \<and> ?cur = INIT"
  define B where "B \<longleftrightarrow> NOT ?cur AND status = DRIVER \<and> ?cur = ACKNOWLEDGE"
  define C where "C \<longleftrightarrow> NOT ?cur AND status = FEATURES_OK \<and> ?cur = ACKNOWLEDGE OR DRIVER"
  define D where "D \<longleftrightarrow> NOT ?cur AND status = DRIVER_OK \<and> ?cur = ACKNOWLEDGE OR DRIVER OR FEATURES_OK"
  define Y where "Y = (if \<not> is_activated (mt_device t) then transport_activate env ?set else Some ?set)"
  have dev: "mt_device ?set = mt_device t" by simp
  have e: "(if A then Some ?set else if B then Some ?set else if C then Some ?set else if D then Y
      else if bit status 7 then Some (t\<lparr>mt_device_status := ?cur OR FAILED\<rparr>)
      else if status = 0 then Some (status_reset t) else Some t) = Some t'"
    using assms
    unfolding set_device_status_def Let_def dev and_FAILED not_not A_def B_def C_def D_def Y_def .
  show thesis
  proof (cases "A \<or> B \<or> C")
    case True
    then have "t' = ?set" using e by (simp split: if_splits)
    moreover have "NOT ?cur AND status \<in> {ACKNOWLEDGE, DRIVER, FEATURES_OK}"
      "?cur \<in> {INIT, ACKNOWLEDGE, ACKNOWLEDGE OR DRIVER}"
      using True unfolding A_def B_def C_def by blast+
    ultimately show ?thesis using advance by blast
  next
    case False
    then have e': "(if D then Y else if bit status 7 then Some (t\<lparr>mt_device_status := ?cur OR FAILED\<rparr>)
        else if status = 0 then Some (status_reset t) else Some t) = Some t'"
      using e by simp
    show ?thesis
    proof (cases D)
      case True
      then have "Y = Some t'" using e' by simp
      then show ?thesis using True driver_ok unfolding D_def Y_def by blast
    next
      case False
      then show ?thesis using e' failed zero ignored by (auto split: if_splits)
    qed
  qed
qed

lemma early_status_bits:
  "cur \<in> {INIT, ACKNOWLEDGE, ACKNOWLEDGE OR DRIVER} \<Longrightarrow> \<not> bit cur 2 \<and> \<not> bit cur 7"
  "x \<in> {ACKNOWLEDGE, DRIVER, FEATURES_OK} \<Longrightarrow> \<not> bit x 2 \<and> \<not> bit x 7"
  "cur = ACKNOWLEDGE OR DRIVER OR FEATURES_OK \<Longrightarrow> \<not> bit cur 2 \<and> \<not> bit cur 7"
  by (auto simp: status_defs)

lemma set_device_status_ok:
  assumes ok: "transport_ok t" and s: "set_device_status env status t = Some t'"
  shows "transport_ok t'"
  using s
proof (cases rule: set_device_status_cases)
  case (advance x)
  note b = early_status_bits(1) [OF advance(3)] early_status_bits(2) [OF advance(1)]
  have "bit status 2 = bit x 2" using changed_bits [OF advance(2)] b by blast
  then show ?thesis using advance(4) ok b transport_ok_status [of t status] by auto
next
  case driver_ok
  note c = early_status_bits(3) [OF driver_ok(2)]
  then obtain qs where q: "\<not> is_activated (mt_device t)" "mt_queues t = Some qs"
    using ok by (auto simp: transport_ok_def)
  have "bit status 2" using changed_bits [OF driver_ok(1)] c by (simp add: status_defs)
  then show ?thesis using transport_activate_ok(1) [OF ok q] q(1) driver_ok(3) by simp
next
  case failed
  have "transport_ok (t\<lparr>mt_device_status := mt_device_status t OR FAILED\<rparr>)"
    using ok by (intro transport_ok_status) (simp_all add: bit_or_iff FAILED_def)
  then show ?thesis using failed by simp
next
  case zero
  then show ?thesis using status_reset_ok [OF ok] by simp
next
  case ignored
  then show ?thesis using ok by simp
qed


lemma transport_ok_registers [simp]:
  "transport_ok (t\<lparr>mt_features_select := v\<rparr>) = transport_ok t"
  "transport_ok (t\<lparr>mt_acked_features_select := v\<rparr>) = transport_ok t"
  "transport_ok (t\<lparr>mt_queue_select := v\<rparr>) = transport_ok t"
  "transport_ok (t\<lparr>mt_shm_region_select := v\<rparr>) = transport_ok t"
  "transport_ok (t\<lparr>mt_interrupt := it\<rparr>) = transport_ok t"
  by (simp_all add: transport_ok_def)

lemma ack_features_ok:
  assumes "transport_ok t"
  shows "transport_ok (t\<lparr>mt_device := ack_features_by_page avail_features acked_features
      set_acked_features page v (mt_device t)\<rparr>)"
proof -
  have "queue_config (ack_features_by_page avail_features acked_features set_acked_features page v
      (mt_device t)) = queue_config (mt_device t)"
    by (simp add: ack_features_by_page_def Let_def)
  then show ?thesis
    using assms dev.ack_page_subset [of "mt_device t" page v]
    by (simp add: transport_ok_def device_ok_def dev.ack_page_avail dev.ack_page_worker)
qed

lemma interrupt_ack_ok: "transport_ok t \<Longrightarrow> transport_ok (fst (interrupt_ack v t chip))"
  by (simp add: interrupt_ack_def Let_def)

text \<open>A write to a register changes the state through one of these.\<close>

lemma select_register_ok:
  "select_register offset v t = Some t' \<Longrightarrow> mt_device t' = mt_device t \<and> mt_queues t' = mt_queues t \<and>
     mt_device_status t' = mt_device_status t \<and> mt_interrupt t' = mt_interrupt t \<and>
     (transport_ok t' = transport_ok t)"
  by (auto simp: select_register_def split: if_splits)

lemma queue_register_max_size: "queue_register offset v = Some f \<Longrightarrow> q_max_size (f q) = q_max_size q"
  by (auto simp: queue_register_def split: if_splits)

lemma action_register_cases:
  assumes "action_register env offset v t chip = Some (t', chip', effs)"
  obtains (features) "check_device_status t DRIVER (FEATURES_OK OR FAILED)" "chip' = chip"
        "t' = t\<lparr>mt_device := ack_features_by_page avail_features acked_features set_acked_features
           (mt_acked_features_select t) v (mt_device t)\<rparr>"
    | (ack) "interrupt_ack v t chip = (t', chip')"
    | (status) "offset = 0x70" "chip' = chip" "set_device_status env v t = Some t'"
    | (same) "t' = t" "chip' = chip"
proof -
  let ?ack = "t\<lparr>mt_device := ack_features_by_page avail_features acked_features set_acked_features
      (mt_acked_features_select t) v (mt_device t)\<rparr>"
  consider "offset = 0x20" | "offset = 0x50" | "offset = 0x64" | "offset = 0x70"
    | "offset \<notin> {0x20, 0x50, 0x64, 0x70}" by blast
  then show thesis
  proof cases
    case 1
    then have "t' = (if check_device_status t DRIVER (FEATURES_OK OR FAILED) then ?ack else t)" "chip' = chip"
      using assms by (simp_all add: action_register_def)
    then show ?thesis using features same by presburger
  next
    case 2
    then have "t' = t" "chip' = chip" using assms by (simp_all add: action_register_def split: if_split_asm)
    then show ?thesis using same by blast
  next
    case 3
    then show ?thesis using assms ack by (simp add: action_register_def split: prod.split_asm)
  next
    case 4
    then have "set_device_status env v t = Some t'" "chip' = chip"
      using assms by (simp_all add: action_register_def split: option.split_asm)
    then show ?thesis using 4 status by blast
  next
    case 5
    then have "t' = t" "chip' = chip" using assms by (simp_all add: action_register_def)
    then show ?thesis using same by blast
  qed
qed

lemma mmio_write_cases:
  assumes "mmio_write env offset data t chip = Some (t', chip', effs)"
  obtains (select) v where "select_register offset v t = Some t'" "chip' = chip"
    | (queue) v f where "queue_register offset v = Some f" "t' = update_queue_field f t" "chip' = chip"
    | (features) v where "check_device_status t DRIVER (FEATURES_OK OR FAILED)" "chip' = chip"
        "t' = t\<lparr>mt_device := ack_features_by_page avail_features acked_features set_acked_features
           (mt_acked_features_select t) v (mt_device t)\<rparr>"
    | (ack) v where "interrupt_ack v t chip = (t', chip')"
    | (status) "offset = 0x70" "length data = 4" "chip' = chip"
        "set_device_status env (read_le_u32 data) t = Some t'"
    | (same) "t' = t" "chip' = chip"
proof (cases "offset \<le> 0xff \<and> length data = 4")
  case True
  let ?v = "read_le_u32 data"
  show thesis
  proof (cases "select_register offset ?v t")
    case (Some u)
    then show ?thesis using True assms select [of ?v] by (simp add: mmio_write_def)
  next
    case n1: None
    show ?thesis
    proof (cases "queue_register offset ?v")
      case (Some f)
      then show ?thesis using True n1 assms queue [of ?v f] by (simp add: mmio_write_def)
    next
      case n2: None
      have "action_register env offset ?v t chip = Some (t', chip', effs)"
        using True n1 n2 assms by (simp add: mmio_write_def)
      then show ?thesis
        using True features [of ?v] ack [of ?v] status same by (elim action_register_cases) blast+
    qed
  qed
next
  case False
  then have "t' = t \<and> chip' = chip"
    using assms by (simp only: mmio_write_def if_False) (simp split: if_split_asm)
  then show thesis using same by blast
qed

lemma mmio_write_ok:
  assumes ok: "transport_ok t" and w: "mmio_write env offset data t chip = Some (t', chip', effs)"
  shows "transport_ok t'"
  using w
proof (cases rule: mmio_write_cases)
  case (select v)
  then show ?thesis using select_register_ok ok by blast
next
  case (queue v f)
  then show ?thesis using update_queue_field_ok [OF ok] queue_register_max_size by blast
next
  case (features v)
  then show ?thesis using ack_features_ok [OF ok] by simp
next
  case (ack v)
  then show ?thesis using interrupt_ack_ok [OF ok, of v chip] by simp
next
  case status
  then show ?thesis using set_device_status_ok [OF ok] by blast
next
  case same
  then show ?thesis using ok by simp
qed


section \<open>Reachable transports\<close>

text \<open>
  A transport is made for a device that has just been created; then the guest writes registers,
  the worker raises interrupts, and the device manager sets the interrupt line.
\<close>

inductive transport_reach :: "mmio_env \<Rightarrow> mmio_transport \<Rightarrow> bool" for env where
  new: "acked_features d = 0 \<Longrightarrow> \<not> is_activated d \<Longrightarrow> worker_queues d = None \<Longrightarrow>
    mmio_transport_new ev mem d = Ok t \<Longrightarrow> transport_reach env t"
| wr: "transport_reach env t \<Longrightarrow> mmio_write env offset data t chip = Some (t', chip', effs) \<Longrightarrow>
    transport_reach env t'"
| irq_line: "transport_reach env t \<Longrightarrow> transport_reach env (set_irq_line n t)"
| signal: "transport_reach env t \<Longrightarrow>
    transport_reach env (t\<lparr>mt_interrupt := fst (try_signal env status (mt_interrupt t) chip)\<rparr>)"

text \<open>What the constructor returns, and when.\<close>

definition fresh_transport :: "memory_manager \<Rightarrow> virtio_device \<Rightarrow> mmio_transport" where
  "fresh_transport mem d =
     \<lparr>mt_device = d, mt_features_select = 0, mt_acked_features_select = 0, mt_queue_select = 0,
      mt_device_status = INIT, mt_config_generation = 0, mt_mem = mem,
      mt_queues = Some (create_queues (queue_config d)), mt_queue_evts = length (queue_config d),
      mt_queue_config = queue_config d, mt_shm_region_select = 0, mt_interrupt = fresh_interrupt\<rparr>"

definition transport_events :: "(event_site \<Rightarrow> bool) \<Rightarrow> virtio_device \<Rightarrow> bool" where
  "transport_events ev d \<longleftrightarrow> (\<forall>i < length (queue_config d). ev (QueueEvent i)) \<and> ev InterruptEvent"

lemma mmio_transport_new_cases:
  "mmio_transport_new ev mem d =
     (if transport_events ev d then Ok (fresh_transport mem d) else Err CreateInterruptEventFd)"
  by (auto simp: mmio_transport_new_def create_queue_evts_def interrupt_transport_new_def transport_events_def
      fresh_transport_def list_all_iff)

lemma mmio_transport_new_Ok:
  "mmio_transport_new ev mem d = Ok t \<longleftrightarrow> transport_events ev d \<and> t = fresh_transport mem d"
  by (auto simp: mmio_transport_new_cases)

lemma transport_reach_ok: "transport_reach env t \<Longrightarrow> transport_ok t"
proof (induction rule: transport_reach.induct)
  case (new d ev mem t)
  then show ?case
    by (auto simp: transport_ok_def device_ok_def mmio_transport_new_Ok fresh_transport_def create_queues_def
        queue_new_def comp_def INIT_def)
next
  case (wr t offset data chip t' chip' effs)
  then show ?case using mmio_write_ok by blast
next
  case (irq_line t n)
  then show ?case by (simp add: set_irq_line_def)
next
  case (signal t status chip)
  then show ?case by simp
qed

section \<open>Properties\<close>

text \<open>
  C11.  In every state the guest can bring a transport into: the device has acknowledged only
  features it offers, it is active exactly while its worker holds the queues, the queues keep the
  device's maximum sizes, and the transport and the worker never both own them; unless the device
  has failed, it is active exactly when the driver has set DRIVER_OK.
\<close>

theorem transport_reachable_invariant:
  assumes "transport_reach env t"
  shows "acked_features (mt_device t) AND NOT (avail_features (mt_device t)) = 0 \<and>
    (is_activated (mt_device t) \<longleftrightarrow> worker_queues (mt_device t) \<noteq> None) \<and>
    (\<forall>qs. mt_queues t = Some qs \<or> worker_queues (mt_device t) = Some qs \<longrightarrow>
       map q_max_size qs = queue_config (mt_device t)) \<and>
    \<not> (mt_queues t \<noteq> None \<and> worker_queues (mt_device t) \<noteq> None) \<and>
    (\<not> has_bits (mt_device_status t) FAILED \<longrightarrow>
       (is_activated (mt_device t) \<longleftrightarrow> has_bits (mt_device_status t) DRIVER_OK))"
  using transport_reach_ok [OF assms] by (auto simp: transport_ok_def device_ok_def)

definition demo_env :: mmio_env where
  "demo_env = \<lparr>env_bits = demo_bits, env_whv = demo_whv, env_gvproxy_ok = True, env_start_ok = True, env_signal_ok = True\<rparr>"

definition demo_transport :: mmio_transport where
  "demo_transport = fresh_transport demo_mm (DevRng (fresh_rng demo_bits))"

lemma demo_transport_reach: "transport_reach demo_env demo_transport"
  unfolding demo_transport_def
  by (rule transport_reach.new [of "DevRng (fresh_rng demo_bits)" "\<lambda>_. True" demo_mm])
    (simp_all add: fresh_rng_def mmio_transport_new_Ok transport_events_def)

theorem transport_reachable_invariant_witness:
  "\<not> is_activated (mt_device demo_transport) \<and>
   acked_features (mt_device demo_transport) AND NOT (avail_features (mt_device demo_transport)) = 0"
  using transport_reachable_invariant [OF demo_transport_reach]
  by (simp add: demo_transport_def fresh_transport_def fresh_rng_def)

text \<open>
  C12.  Activation: a device becomes active only when the driver adds DRIVER_OK to a status of
  exactly ACKNOWLEDGE, DRIVER and FEATURES_OK; its worker then receives the queues the driver
  programmed, unchanged but for the event-index setting, which is the negotiated one.
\<close>

theorem activation_at_driver_ok:
  assumes "transport_reach env t" "\<not> is_activated (mt_device t)"
    and "mmio_write env offset data t chip = Some (t', chip', effs)" "is_activated (mt_device t')"
  shows "offset = 0x70 \<and> mt_device_status t = ACKNOWLEDGE OR DRIVER OR FEATURES_OK \<and>
    has_bits (mt_device_status t') DRIVER_OK \<and> mt_queues t' = None \<and>
    (\<exists>qs. mt_queues t = Some qs \<and> worker_queues (mt_device t') = Some (map (\<lambda>q. set_event_idx q
       (bit (acked_features (mt_device t)) (VIRTIO_RING_F_EVENT_IDX (env_bits env)))) qs))"
proof -
  have ok: "transport_ok t" by (rule transport_reach_ok [OF assms(1)])
  have st: "offset = 0x70" "set_device_status env (read_le_u32 data) t = Some t'"
    using assms(3)
    by (cases rule: mmio_write_cases; use assms(2,4) in
        \<open>auto dest!: select_register_ok simp: update_queue_field_def with_queue_mut_def Let_def
          dev.ack_page_worker interrupt_ack_def split: option.splits if_splits\<close>)+
  let ?v = "read_le_u32 data"
  have "NOT (mt_device_status t) AND ?v = DRIVER_OK \<and>
      mt_device_status t = ACKNOWLEDGE OR DRIVER OR FEATURES_OK \<and>
      transport_activate env (t\<lparr>mt_device_status := ?v\<rparr>) = Some t'"
    using st(2)
  proof (cases rule: set_device_status_cases)
    case (advance x)
    then show ?thesis using assms(2,4) by simp
  next
    case driver_ok
    then show ?thesis using assms(2) by simp
  next
    case failed
    then show ?thesis using assms(2,4) by simp
  next
    case zero
    then show ?thesis using assms(2,4) by (simp add: status_reset_eq Let_def transport_reset_def split: if_splits)
  next
    case ignored
    then show ?thesis using assms(2,4) by simp
  qed
  then have d: "NOT (mt_device_status t) AND ?v = DRIVER_OK"
    "mt_device_status t = ACKNOWLEDGE OR DRIVER OR FEATURES_OK"
    "transport_activate env (t\<lparr>mt_device_status := ?v\<rparr>) = Some t'" by auto
  note c = early_status_bits(3) [OF d(2)]
  then obtain qs where q: "mt_queues t = Some qs" using ok assms(2) by (auto simp: transport_ok_def)
  have "has_bits ?v DRIVER_OK" using changed_bits [OF d(1)] c by (simp add: status_defs has_bits_def and_exp_eq [of 2 ?v, simplified])
  note act = transport_activate_ok [OF ok assms(2) q d(3) this]
  show ?thesis
    using st(1) d(2) q act \<open>has_bits ?v DRIVER_OK\<close>
    by (simp add: and_exp_eq_0_iff_not_bit)
qed


text \<open>The initialisation sequence of a driver, on the entropy device.\<close>

definition demo_chip :: irqchip_device where
  "demo_chip = ChipIoApic ioapic_new"

lemmas status_eval = mmio_write_def select_register_def queue_register_def action_register_def
  set_device_status_def read_le_u32_4 status_defs

lemma demo_status_writes:
  "mmio_write demo_env 0x70 [1, 0, 0, 0] demo_transport demo_chip =
     Some (demo_transport\<lparr>mt_device_status := 1\<rparr>, demo_chip, [])"
  "mmio_write demo_env 0x70 [3, 0, 0, 0] (demo_transport\<lparr>mt_device_status := 1\<rparr>) demo_chip =
     Some (demo_transport\<lparr>mt_device_status := 3\<rparr>, demo_chip, [])"
  "mmio_write demo_env 0x70 [11, 0, 0, 0] (demo_transport\<lparr>mt_device_status := 3\<rparr>) demo_chip =
     Some (demo_transport\<lparr>mt_device_status := 11\<rparr>, demo_chip, [])"
  by (simp_all add: status_eval demo_transport_def fresh_transport_def)

lemma demo_reach_11: "transport_reach demo_env (demo_transport\<lparr>mt_device_status := 11\<rparr>)"
  using transport_reach.wr [OF transport_reach.wr [OF transport_reach.wr [OF demo_transport_reach
          demo_status_writes(1)] demo_status_writes(2)] demo_status_writes(3)] .

lemma demo_activation:
  "\<exists>t'. mmio_write demo_env 0x70 [15, 0, 0, 0] (demo_transport\<lparr>mt_device_status := 11\<rparr>) demo_chip =
     Some (t', demo_chip, []) \<and> is_activated (mt_device t')"
  by (simp add: status_eval demo_transport_def fresh_transport_def transport_activate_def
      fresh_rng_def RNG_QUEUE_CONFIG_def create_queues_def rng_activate_def wrap_device_def demo_env_def)

theorem activation_at_driver_ok_witness:
  "\<exists>t' q. mmio_write demo_env 0x70 [15, 0, 0, 0] (demo_transport\<lparr>mt_device_status := 11\<rparr>) demo_chip =
     Some (t', demo_chip, []) \<and> worker_queues (mt_device t') = Some [q] \<and> \<not> q_event_idx_enabled q"
proof -
  obtain t' where t': "mmio_write demo_env 0x70 [15, 0, 0, 0] (demo_transport\<lparr>mt_device_status := 11\<rparr>) demo_chip =
      Some (t', demo_chip, [])" "is_activated (mt_device t')"
    using demo_activation by blast
  have "\<not> is_activated (mt_device (demo_transport\<lparr>mt_device_status := 11\<rparr>))"
    by (simp add: demo_transport_def fresh_transport_def fresh_rng_def)
  from activation_at_driver_ok [OF demo_reach_11 this t']
  show ?thesis
    using t'(1) by (auto simp: demo_transport_def fresh_transport_def create_queues_def
        RNG_QUEUE_CONFIG_def set_event_idx_def fresh_rng_def)
qed

text \<open>
  FAILED is permanent: once the status has it, no register write clears it, not even the
  write of zero with which a driver resets a device.
\<close>

theorem failed_is_permanent:
  assumes "has_bits (mt_device_status t) FAILED"
    and "mmio_write env offset data t chip = Some (t', chip', effs)"
  shows "has_bits (mt_device_status t') FAILED"
  using assms(2)
proof (cases rule: mmio_write_cases)
  case (select v)
  then show ?thesis using assms(1) select_register_ok by metis
next
  case (queue v f)
  then show ?thesis
    using assms(1) by (simp add: update_queue_field_def with_queue_mut_def Let_def split: option.split)
next
  case (features v)
  then show ?thesis using assms(1) by simp
next
  case (ack v)
  then show ?thesis using assms(1) by (auto simp: interrupt_ack_def Let_def split: if_splits)
next
  case status
  from status(4) show ?thesis
  proof (cases rule: set_device_status_cases)
    case (advance x)
    then show ?thesis using assms(1) early_status_bits(1) by auto
  next
    case driver_ok
    then show ?thesis using assms(1) early_status_bits(3) by auto
  next
    case failed
    then show ?thesis using assms(1) by (simp add: bit_or_iff)
  next
    case zero
    then show ?thesis using assms(1) by (simp add: status_reset_eq Let_def)
  next
    case ignored
    then show ?thesis using assms(1) by simp
  qed
next
  case same
  then show ?thesis using assms(1) by simp
qed

theorem failed_is_permanent_witness:
  "\<exists>t'. mmio_write demo_env 0x70 [0, 0, 0, 0] (demo_transport\<lparr>mt_device_status := 128\<rparr>) demo_chip =
     Some (t', demo_chip, []) \<and> has_bits (mt_device_status t') FAILED"
proof -
  obtain t' where t': "mmio_write demo_env 0x70 [0, 0, 0, 0] (demo_transport\<lparr>mt_device_status := 128\<rparr>) demo_chip =
      Some (t', demo_chip, [])"
    by (simp add: status_eval)
  have "has_bits (mt_device_status (demo_transport\<lparr>mt_device_status := 128\<rparr>)) FAILED"
    by (simp add: has_bits_def FAILED_def)
  from t' failed_is_permanent [OF this t'] show ?thesis by blast
qed

text \<open>
  A reset: when the driver writes zero to the status of a device that has not failed, the
  device is stopped, its queues are fresh ones and the registers have their initial values; but
  the features acknowledged before the reset stay acknowledged.
\<close>

theorem reset_keeps_acked_features:
  assumes "transport_reach env t" "\<not> has_bits (mt_device_status t) FAILED"
    and "mmio_write env 0x70 [0, 0, 0, 0] t chip = Some (t', chip', effs)"
  shows "mt_device_status t' = INIT \<and> \<not> is_activated (mt_device t') \<and> worker_queues (mt_device t') = None \<and>
    mt_queues t' = Some (create_queues (queue_config (mt_device t'))) \<and>
    it_status (mt_interrupt t') = 0 \<and> mt_queue_select t' = 0 \<and>
    acked_features (mt_device t') = acked_features (mt_device t)"
proof -
  have ok: "transport_ok t" by (rule transport_reach_ok [OF assms(1)])
  obtain d b where d: "device_reset (mt_device t) = (d, b)" by fastforce
  have n: "\<not> bit (mt_device_status t) 7" using assms(2) by simp
  have "set_device_status env 0 t = Some (status_reset t)"
    by (simp add: set_device_status_def status_defs)
  then have "t' = status_reset t" using assms(3) by (simp add: status_eval)
  then show ?thesis
    using ok n dev.reset_laws [OF d] queue_config_reset [OF d] d
    by (auto simp: status_reset_eq Let_def transport_reset_def transport_ok_def device_ok_def)
qed

theorem reset_keeps_acked_features_witness:
  "\<exists>t'. mmio_write demo_env 0x70 [0, 0, 0, 0] (demo_transport\<lparr>mt_device_status := 11\<rparr>) demo_chip =
     Some (t', demo_chip, []) \<and> mt_device_status t' = INIT"
proof -
  obtain t' where t': "mmio_write demo_env 0x70 [0, 0, 0, 0] (demo_transport\<lparr>mt_device_status := 11\<rparr>) demo_chip =
      Some (t', demo_chip, [])"
    by (simp add: status_eval)
  have "\<not> has_bits (mt_device_status (demo_transport\<lparr>mt_device_status := 11\<rparr>)) FAILED" by simp
  from t' reset_keeps_acked_features [OF demo_reach_11 this t'] show ?thesis by blast
qed


section \<open>Programming a queue\<close>

definition addr_of_halves :: "u32 \<Rightarrow> u32 \<Rightarrow> guest_address" where
  "addr_of_halves lo hi = push_bit 32 (ucast hi) OR ucast lo"

lemma addr_hi_lo: "addr_hi (addr_lo a lo) hi = addr_of_halves lo hi"
proof -
  define L :: u64 where "L = 0xffffffff"
  have L: "bit L m \<longleftrightarrow> m < 32" for m unfolding L_def by (rule bit_low_mask)
  have u: "bit lo m \<Longrightarrow> m < 32" for m using bit_imp_le_length [of lo m] by simp
  show ?thesis
    unfolding addr_hi_def addr_lo_def addr_of_halves_def L_def [symmetric]
    using u by (intro bit_word_eqI) (auto simp: bit_simps L)
qed

fun mmio_writes ::
  "mmio_env \<Rightarrow> (u64 \<times> u32) list \<Rightarrow> mmio_transport \<Rightarrow> irqchip_device \<Rightarrow> mmio_transport panics" where
  "mmio_writes env [] t chip = Some t"
| "mmio_writes env ((offset, v) # ws) t chip =
     (case mmio_write env offset (to_le 4 v) t chip of
        None \<Rightarrow> None
      | Some (t', chip', _) \<Rightarrow> mmio_writes env ws t' chip')"

lemma mmio_write_queue:
  assumes "queue_register offset v = Some f"
  shows "mmio_write env offset (to_le 4 v) t chip = Some (update_queue_field f t, chip, [])"
proof -
  have "offset \<le> 0xff" "select_register offset v t = None"
    using assms by (auto simp: queue_register_def select_register_def split: if_splits)
  then show ?thesis using assms by (simp add: mmio_write_def read_le_u32_4 le_simps)
qed

lemma update_queue_field_fields [simp]:
  "mt_device_status (update_queue_field f t) = mt_device_status t"
  "mt_queue_select (update_queue_field f t) = mt_queue_select t"
  by (simp_all add: update_queue_field_def with_queue_mut_def Let_def split: option.split)

lemma update_queue_field_open:
  assumes "check_device_status t FEATURES_OK FAILED" "mt_queues t = Some qs"
    and "unat (mt_queue_select t) < length qs"
  shows "update_queue_field f t =
    t\<lparr>mt_queues := Some (qs[unat (mt_queue_select t) := f (qs ! unat (mt_queue_select t))])\<rparr>"
  using assms by (simp add: update_queue_field_def with_queue_mut_def Let_def)

text \<open>Writes to registers of the selected queue act on it one after the other.\<close>

lemma mmio_writes_queue:
  assumes "list_all2 (\<lambda>(offset, v) f. queue_register offset v = Some f) ws fs"
    and "check_device_status t FEATURES_OK FAILED" "mt_queues t = Some qs"
    and "i = unat (mt_queue_select t)" "i < length qs"
  shows "mmio_writes env ws t chip = Some (t\<lparr>mt_queues := Some (qs[i := fold (\<lambda>f q. f q) fs (qs ! i)])\<rparr>)"
  using assms
proof (induction arbitrary: t qs rule: list_all2_induct)
  case Nil
  then show ?case by simp
next
  case (Cons w ws f fs)
  obtain offset v where w: "w = (offset, v)" by fastforce
  then have q: "queue_register offset v = Some f" using Cons.hyps by simp
  let ?t = "t\<lparr>mt_queues := Some (qs[i := f (qs ! i)])\<rparr>"
  have "mmio_write env offset (to_le 4 v) t chip = Some (?t, chip, [])"
    using mmio_write_queue [OF q] update_queue_field_open [of t qs f] Cons.prems by simp
  moreover have "mmio_writes env ws ?t chip =
      Some (?t\<lparr>mt_queues := Some (qs[i := f (qs ! i), i := fold (\<lambda>f q. f q) fs (qs[i := f (qs ! i)] ! i)])\<rparr>)"
    by (rule Cons.IH) (use Cons.prems in \<open>simp_all add: check_device_status_def\<close>)
  ultimately show ?case using w Cons.prems by simp
qed

text \<open>
  Programming a queue: once features are negotiated, writing the size, the two halves of
  each ring address and the ready flag of the selected queue gives it exactly these values, and
  leaves every other queue and every other register alone.
\<close>

theorem driver_programs_queue:
  assumes "check_device_status t FEATURES_OK FAILED" "mt_queues t = Some qs"
    and "i = unat (mt_queue_select t)" "i < length qs"
  shows "mmio_writes env [(0x38, sz), (0x80, dlo), (0x84, dhi), (0x90, alo), (0x94, ahi),
      (0xa0, ulo), (0xa4, uhi), (0x44, 1)] t chip =
    Some (t\<lparr>mt_queues := Some (qs[i := (qs ! i)\<lparr>q_size := ucast sz, q_ready := True,
      q_desc_table := addr_of_halves dlo dhi, q_avail_ring := addr_of_halves alo ahi,
      q_used_ring := addr_of_halves ulo uhi\<rparr>])\<rparr>)"
proof -
  let ?fs = "[\<lambda>q. q\<lparr>q_size := ucast sz\<rparr>, \<lambda>q. q\<lparr>q_desc_table := addr_lo (q_desc_table q) dlo\<rparr>,
    \<lambda>q. q\<lparr>q_desc_table := addr_hi (q_desc_table q) dhi\<rparr>, \<lambda>q. q\<lparr>q_avail_ring := addr_lo (q_avail_ring q) alo\<rparr>,
    \<lambda>q. q\<lparr>q_avail_ring := addr_hi (q_avail_ring q) ahi\<rparr>, \<lambda>q. q\<lparr>q_used_ring := addr_lo (q_used_ring q) ulo\<rparr>,
    \<lambda>q. q\<lparr>q_used_ring := addr_hi (q_used_ring q) uhi\<rparr>, \<lambda>q. q\<lparr>q_ready := True\<rparr>]"
  have "fold (\<lambda>f q. f q) ?fs q = q\<lparr>q_size := ucast sz, q_ready := True,
      q_desc_table := addr_of_halves dlo dhi, q_avail_ring := addr_of_halves alo ahi,
      q_used_ring := addr_of_halves ulo uhi\<rparr>" for q :: queue
    by (cases q) (simp add: addr_hi_lo)
  moreover have "list_all2 (\<lambda>(offset, v) f. queue_register offset v = Some f)
      [(0x38, sz), (0x80, dlo), (0x84, dhi), (0x90, alo), (0x94, ahi), (0xa0, ulo), (0xa4, uhi), (0x44, 1)] ?fs"
    by (simp add: queue_register_def)
  ultimately show ?thesis using mmio_writes_queue [OF _ assms, of _ ?fs env chip] by (simp only:)
qed

theorem driver_programs_queue_witness:
  "\<exists>t' q. mmio_writes demo_env [(0x38, 4), (0x80, 0x100), (0x84, 1), (0x90, 0x200), (0x94, 0),
      (0xa0, 0x300), (0xa4, 0), (0x44, 1)] (demo_transport\<lparr>mt_device_status := 11\<rparr>) demo_chip = Some t' \<and>
     mt_queues t' = Some [q] \<and> q_desc_table q = 0x100000100 \<and> q_size q = 4 \<and> q_max_size q = 256"
proof -
  let ?t = "demo_transport\<lparr>mt_device_status := 11\<rparr>"
  have t: "check_device_status ?t FEATURES_OK FAILED" "mt_queues ?t = Some [queue_new 256]"
    "0 = unat (mt_queue_select ?t)" "0 < length [queue_new 256]"
    by (simp_all add: demo_transport_def fresh_transport_def check_device_status_def status_defs
        create_queues_def RNG_QUEUE_CONFIG_def)
  show ?thesis
    using driver_programs_queue [OF t, of demo_env 4 "0x100" 1 "0x200" 0 "0x300" 0 demo_chip]
    by (simp add: addr_of_halves_def queue_new_def)
qed

end
