(* ===== verification/Worker.thy ===== *)
theory Worker
  imports Descriptor_Utils Mmio_Transport
begin

text \<open>
  What the device workers share (\<^verbatim>\<open>rng/worker.rs\<close>, \<^verbatim>\<open>block/worker.rs\<close>, \<^verbatim>\<open>console/worker.rs\<close>
  and \<^verbatim>\<open>net/worker.rs\<close> under \<^verbatim>\<open>src/devices/virtio\<close>): the loop that pops chains off a queue until
  it is empty, the loop around it that suppresses notifications, and the interrupt at the end of
  a batch.

  The loops do not end by themselves: a guest may keep adding chains, and a chain whose head is
  invalid is never taken off the queue.  They run on fuel (outer \<open>None\<close>: out of fuel; inner
  \<open>None\<close>: a panic), and the lemmas of the locale \<open>chain_handler\<close> show that for a driver that
  keeps to the rules the number of available chains is enough, and that the loop then does what
  serving the available chains one after the other does.
\<close>

section \<open>The loops\<close>

text \<open>
  One round of a loop: what a worker does with a chain.  It takes and returns the queue, the
  memory and the state of the device, and says whether it set \<^verbatim>\<open>used_any\<close>.
\<close>

type_synonym 's handler =
  "descriptor_chain \<Rightarrow> queue \<Rightarrow> heap \<Rightarrow> 's \<Rightarrow> (queue \<times> heap \<times> 's \<times> bool) panics"

text \<open>\<^verbatim>\<open>while let Some(head) = queue.pop(mem)\<close>\<close>

fun drain ::
  "nat \<Rightarrow> memory_manager \<Rightarrow> 's handler \<Rightarrow> queue \<Rightarrow> heap \<Rightarrow> 's \<Rightarrow> bool \<Rightarrow>
   (queue \<times> heap \<times> 's \<times> bool) panics option" where
  "drain 0 mm handle q h s used_any = None"
| "drain (Suc fuel) mm handle q h s used_any =
     (case pop mm h q of
        None \<Rightarrow> Some None
      | Some (q', None) \<Rightarrow> Some (Some (q', h, s, used_any))
      | Some (q', Some head) \<Rightarrow>
          (case handle head q' h s of
             None \<Rightarrow> Some None
           | Some (q2, h2, s2, used) \<Rightarrow> drain fuel mm handle q2 h2 s2 (used_any \<or> used)))"

text \<open>
  The end of a round: \<^verbatim>\<open>add_used\<close>, whose failure is only logged, and \<^verbatim>\<open>used_any = true\<close>.
\<close>

definition return_chain ::
  "memory_manager \<Rightarrow> descriptor_chain \<Rightarrow> u32 \<Rightarrow> queue \<Rightarrow> heap \<Rightarrow> 's \<Rightarrow> (queue \<times> heap \<times> 's \<times> bool) panics"
where
  "return_chain mm head len q h s =
     (case add_used mm h q (dc_index head) len of (q', h', _) \<Rightarrow> Some (q', h', s, True))"

text \<open>The interrupt a worker shares with its transport, and the requests it caused.\<close>

record irq_link =
  il_interrupt :: interrupt_transport
  il_chip :: irqchip_device
  il_injected :: "interrupt_control list"

definition signal_used_queue :: "mmio_env \<Rightarrow> irq_link \<Rightarrow> irq_link" where
  "signal_used_queue env il =
     (case try_signal_used_queue env (il_interrupt il) (il_chip il) of
        (it, chip, out, _) \<Rightarrow>
          \<lparr>il_interrupt = it, il_chip = chip, il_injected = il_injected il @ out\<rparr>)"

text \<open>\<^verbatim>\<open>if used_any && queue.needs_notification(mem).unwrap()\<close> signal the used queue.\<close>

definition finish_batch ::
  "mmio_env \<Rightarrow> memory_manager \<Rightarrow> heap \<Rightarrow> queue \<Rightarrow> irq_link \<Rightarrow> bool \<Rightarrow> (queue \<times> irq_link) panics" where
  "finish_batch env mm h q il used_any =
     (if used_any then
        (case needs_notification mm h q of
           (q', Err _) \<Rightarrow> None
         | (q', Ok notify) \<Rightarrow> Some (q', if notify then signal_used_queue env il else il))
      else Some (q, il))"

text \<open>The workers of a transmit queue signal every batch, whatever the driver suppressed.\<close>

definition finish_always ::
  "mmio_env \<Rightarrow> memory_manager \<Rightarrow> heap \<Rightarrow> queue \<Rightarrow> irq_link \<Rightarrow> bool \<Rightarrow> (queue \<times> irq_link) panics" where
  "finish_always env mm h q il used_any =
     Some (q, if used_any then signal_used_queue env il else il)"

text \<open>\<^verbatim>\<open>process_queue\<close>: drain the queue and finish the batch.\<close>

definition process_batch ::
  "(heap \<Rightarrow> queue \<Rightarrow> irq_link \<Rightarrow> bool \<Rightarrow> (queue \<times> irq_link) panics) \<Rightarrow> nat \<Rightarrow> memory_manager \<Rightarrow>
   's handler \<Rightarrow> queue \<Rightarrow> heap \<Rightarrow> 's \<times> irq_link \<Rightarrow> (queue \<times> heap \<times> 's \<times> irq_link) panics option" where
  "process_batch finish fuel mm handle q h s =
     (case drain fuel mm handle q h (fst s) False of
        None \<Rightarrow> None
      | Some None \<Rightarrow> Some None
      | Some (Some (q', h', s', used_any)) \<Rightarrow>
          Some (case finish h' q' (snd s) used_any of
                  None \<Rightarrow> None
                | Some (q2, il) \<Rightarrow> Some (q2, h', s', il)))"

text \<open>\<^verbatim>\<open>process_virtio_queues\<close>, around the device's \<^verbatim>\<open>process_queue\<close>.\<close>

fun process_virtio_queues ::
  "nat \<Rightarrow> memory_manager \<Rightarrow> (queue \<Rightarrow> heap \<Rightarrow> 's \<Rightarrow> (queue \<times> heap \<times> 's) panics option) \<Rightarrow>
   queue \<Rightarrow> heap \<Rightarrow> 's \<Rightarrow> (queue \<times> heap \<times> 's) panics option" where
  "process_virtio_queues 0 mm process_queue q h s = None"
| "process_virtio_queues (Suc fuel) mm process_queue q h s =
     (case disable_notification mm h q of
        Err _ \<Rightarrow> Some None
      | Ok h1 \<Rightarrow>
          (case process_queue q h1 s of
             None \<Rightarrow> None
           | Some None \<Rightarrow> Some None
           | Some (Some (q2, h2, s2)) \<Rightarrow>
               (case enable_notification mm h2 q2 of
                  (h3, Err _) \<Rightarrow> Some None
                | (h3, Ok again) \<Rightarrow>
                    if again then process_virtio_queues fuel mm process_queue q2 h3 s2
                    else Some (Some (q2, h3, s2)))))"

section \<open>What memory a queue and a chain use\<close>

definition ring_area :: "queue \<Rightarrow> guest_address set" where
  "ring_area q = set (addrs (q_used_ring q) (6 + 8 * unat (q_size q)))"

definition driver_area :: "queue \<Rightarrow> guest_address set" where
  "driver_area q = set (addrs (q_avail_ring q) (6 + 2 * unat (q_size q))) \<union>
     set (addrs (q_desc_table q) (16 * unat (q_size q)))"

definition write_area :: "memory_manager \<Rightarrow> heap \<Rightarrow> descriptor_chain \<Rightarrow> guest_address set" where
  "write_area mm h c = set (chain_addrs (writable (chain_iter mm h c)))"

definition same_view :: "memory_manager \<Rightarrow> guest_address set \<Rightarrow> heap \<Rightarrow> heap \<Rightarrow> bool" where
  "same_view mm A h h' \<longleftrightarrow> (\<forall>a \<in> A. guest_view mm h' a = guest_view mm h a)"

lemma same_view_refl [simp]: "same_view mm A h h"
  by (simp add: same_view_def)

lemma same_view_trans: "same_view mm A h h' \<Longrightarrow> same_view mm A h' h'' \<Longrightarrow> same_view mm A h h''"
  by (simp add: same_view_def)

lemma same_view_mono: "same_view mm B h h' \<Longrightarrow> A \<subseteq> B \<Longrightarrow> same_view mm A h h'"
  by (auto simp: same_view_def)

lemma set_addrs_sub: "i + k \<le> n \<Longrightarrow> set (addrs (a + of_nat i) k) \<subseteq> set (addrs a n)"
  using addrs_split [of i n a] addrs_split [of k "n - i" "a + of_nat i"] by auto

lemma same_view_range:
  "same_view mm (set (addrs a n)) h h' \<Longrightarrow> view_range (guest_view mm h') a n = view_range (guest_view mm h) a n"
  by (auto simp: same_view_def view_range_def addrs_def)

lemma read_same_view:
  assumes "mm_wf mm" "n < 2 ^ 63" "same_view mm (set (addrs a n)) h h'"
  shows "read_guest_memory mm h' a n = read_guest_memory mm h a n"
proof (cases "read_guest_memory mm h a n")
  case (Ok bs)
  then obtain cs where cs: "read_guest_memory mm h' a n = Ok cs"
    using read_guest_memory_is_ok [of mm h' a n h] by (auto simp: is_ok_iff)
  have "map Some cs = map Some bs"
    using read_guest_memory_view [OF assms(1,2) Ok] read_guest_memory_view [OF assms(1,2) cs]
      same_view_range [OF assms(3)] by simp
  then show ?thesis using Ok cs by (simp add: inj_map_eq_map)
next
  case (Err e)
  then show ?thesis by (auto simp: accessor_defs split: option.splits if_splits)
qed

lemma load_same_view:
  assumes "mm_wf mm" "access_ok mm a n r p" "same_view mm (set (addrs a n)) h h'"
  shows "load mm h' n a = load mm h n a"
proof -
  have "map Some (copy_from h' (host_addr r p a) n) = map Some (copy_from h (host_addr r p a) n)"
    using copy_from_view [OF assms(1,2)] same_view_range [OF assms(3)] by simp
  then have "copy_from h' (host_addr r p a) n = copy_from h (host_addr r p a) n"
    by (simp add: inj_map_eq_map)
  then show ?thesis using assms(2) by (simp add: load_def access_ok_def host_addr_def)
qed

lemma checked_new_same_view:
  assumes "mm_wf mm" "same_view mm (set (addrs t (16 * unat n))) h h'"
  shows "checked_new mm h' t n i = checked_new mm h t n i"
proof (cases "n \<le> i")
  case True
  then show ?thesis by (simp add: checked_new_def)
next
  case False
  then have "Suc (unat i) \<le> unat n" by (simp add: word_less_nat_alt not_le Suc_leI)
  then have i: "16 * unat i + 16 \<le> 16 * unat n" by simp
  have "(ucast i * 16 :: u64) = of_nat (16 * unat i)" by (simp add: mult.commute)
  then have "same_view mm (set (addrs (t + ucast i * 16) 16)) h h'"
    using same_view_mono [OF assms(2) set_addrs_sub [OF i]] by (simp add: mult.commute)
  from read_same_view [OF assms(1) _ this] show ?thesis
    by (simp add: checked_new_def read_obj_def checked_add_def cong: option.case_cong)
qed

lemma chain_iter_same_view:
  assumes "mm_wf mm" "same_view mm (set (addrs (dc_desc_table c) (16 * unat (dc_queue_size c)))) h h'"
  shows "chain_iter mm h' c = chain_iter mm h c"
  using assms
proof (induction mm h c rule: chain_iter.induct)
  case (1 mm h c)
  have nx: "next_descriptor mm h' c = next_descriptor mm h c"
    using checked_new_same_view [OF 1(2,3)] by (simp add: next_descriptor_def)
  show ?case
  proof (cases "next_descriptor mm h c")
    case None
    then show ?thesis using nx by (simp add: chain_iter.simps [of _ _ c])
  next
    case (Some c')
    then show ?thesis
      using nx 1(1) [OF Some 1(2)] 1(3) next_descriptor_Some [OF Some]
      by (simp add: chain_iter.simps [of _ _ c])
  qed
qed

text \<open>
  What a device may change of its queue, and the memory the used ring needs.
\<close>

definition used_moved :: "queue \<Rightarrow> queue \<Rightarrow> bool" where
  "used_moved q q' \<longleftrightarrow> q' = q\<lparr>q_next_used := q_next_used q', q_num_added := q_num_added q'\<rparr>"

definition used_ok :: "memory_manager \<Rightarrow> queue \<Rightarrow> bool" where
  "used_ok mm q \<longleftrightarrow>
     (\<exists>r p. access_ok mm (q_used_ring q) (6 + 8 * unat (q_size q)) r p \<and>
            perms_contain (rg_perms r) PERM_WRITE)"

lemma used_moved_refl [simp]: "used_moved q q"
  by (simp add: used_moved_def)

lemma used_moved_fields:
  assumes "used_moved q q'"
  shows "q_size q' = q_size q" "q_max_size q' = q_max_size q" "q_used_ring q' = q_used_ring q"
    "q_avail_ring q' = q_avail_ring q" "q_desc_table q' = q_desc_table q"
    "q_next_avail q' = q_next_avail q" "actual_size q' = actual_size q"
    "q_event_idx_enabled q' = q_event_idx_enabled q"
    "ring_area q' = ring_area q" "driver_area q' = driver_area q" "used_ok mm q' = used_ok mm q"
proof -
  obtain a b where "q' = q\<lparr>q_next_used := a, q_num_added := b\<rparr>"
    using assms unfolding used_moved_def by blast
  then show "q_size q' = q_size q" "q_max_size q' = q_max_size q" "q_used_ring q' = q_used_ring q"
    "q_avail_ring q' = q_avail_ring q" "q_desc_table q' = q_desc_table q"
    "q_next_avail q' = q_next_avail q" "actual_size q' = actual_size q"
    "q_event_idx_enabled q' = q_event_idx_enabled q"
    "ring_area q' = ring_area q" "driver_area q' = driver_area q" "used_ok mm q' = used_ok mm q"
    by (simp_all add: actual_size_def ring_area_def driver_area_def used_ok_def)
qed

lemma view_update_other:
  assumes "a \<notin> set (addrs b (length bs))"
  shows "view_update v b bs a = v a"
proof -
  have "a \<in> set (addrs b (length bs))" if lt: "unat (a - b) < length bs"
  proof -
    have "addrs b (length bs) ! unat (a - b) = a" using lt by (simp add: addrs_def)
    then show ?thesis using lt nth_mem [of "unat (a - b)" "addrs b (length bs)"] by simp
  qed
  then show ?thesis using assms by (auto simp: view_update_def)
qed

text \<open>Returning a chain moves the used counters and touches the used ring only.\<close>

lemma add_used_moves:
  assumes wf: "mm_wf mm" and u: "used_ok mm q" and r: "add_used mm h q i len = (q', h', res)"
  shows "used_moved q q'" "same_view mm (- ring_area q) h h'"
    "i < q_size q \<Longrightarrow> q_next_used q' = q_next_used q + 1 \<and> res = Ok ()"
proof -
  have "used_moved q q' \<and> same_view mm (- ring_area q) h h' \<and>
      (i < q_size q \<longrightarrow> q_next_used q' = q_next_used q + 1 \<and> res = Ok ())"
  proof (cases "i < q_size q")
    case False
    then show ?thesis using r by (simp add: add_used_def not_less [symmetric])
  next
    case True
    obtain rg p where acc: "access_ok mm (q_used_ring q) (6 + 8 * unat (q_size q)) rg p"
      "perms_contain (rg_perms rg) PERM_WRITE" using u by (auto simp: used_ok_def)
    have h': "q' = q\<lparr>q_next_used := q_next_used q + 1, q_num_added := q_num_added q + 1\<rparr>" "res = Ok ()"
      "guest_view mm h' =
        view_update (view_update (guest_view mm h) (used_slot q (q_next_used q))
          (used_elem_bytes \<lparr>ue_id = ucast i, ue_len = len\<rparr>))
        (q_used_ring q + 2) (to_le 2 (q_next_used q + 1))"
      using add_used_success [OF wf acc True, of h len] r by auto
    let ?k = "q_next_used q mod q_size q"
    have "q_size q \<noteq> 0" using True by auto
    then have "Suc (unat ?k) \<le> unat (q_size q)" using unat_mod_size [of "q_size q" "q_next_used q"] by simp
    then have k: "4 + 8 * unat ?k + 8 \<le> 6 + 8 * unat (q_size q)" by simp
    have slot: "used_slot q (q_next_used q) = q_used_ring q + of_nat (4 + 8 * unat ?k)"
      by (simp add: used_slot_def mult.commute)
    have A: "set (addrs (used_slot q (q_next_used q)) 8) \<subseteq> ring_area q"
      unfolding slot ring_area_def by (rule set_addrs_sub [OF k])
    have B: "set (addrs (q_used_ring q + 2) 2) \<subseteq> ring_area q"
      using set_addrs_sub [of 2 2 "6 + 8 * unat (q_size q)" "q_used_ring q"] by (simp add: ring_area_def)
    have "guest_view mm h' a = guest_view mm h a" if "a \<notin> ring_area q" for a
    proof -
      have "a \<notin> set (addrs (used_slot q (q_next_used q)) 8)" "a \<notin> set (addrs (q_used_ring q + 2) 2)"
        using A B that by auto
      then show ?thesis unfolding h'(3) by (simp add: view_update_other used_elem_bytes_def)
    qed
    then have "same_view mm (- ring_area q) h h'" by (simp add: same_view_def)
    then show ?thesis using h'(1,2) by (simp add: used_moved_def)
  qed
  then show "used_moved q q'" "same_view mm (- ring_area q) h h'"
    "i < q_size q \<Longrightarrow> q_next_used q' = q_next_used q + 1 \<and> res = Ok ()" by auto
qed

lemma return_chain_Some:
  assumes "mm_wf mm" "used_ok mm q" "return_chain mm c len q h s = Some (q', h', s', u)"
  shows "used_moved q q'" "same_view mm (- ring_area q) h h'" "s' = s" "u"
    "dc_index c < q_size q \<Longrightarrow> q_next_used q' = q_next_used q + 1"
proof -
  obtain res where "add_used mm h q (dc_index c) len = (q', h', res)" "s' = s" "u"
    using assms(3) by (auto simp: return_chain_def split: prod.splits)
  with add_used_moves [OF assms(1,2) this(1)]
  show "used_moved q q'" "same_view mm (- ring_area q) h h'" "s' = s" "u"
    "dc_index c < q_size q \<Longrightarrow> q_next_used q' = q_next_used q + 1" by auto
qed

lemma return_chain_total: "return_chain mm c len q h s \<noteq> None"
  by (auto simp: return_chain_def split: prod.splits)

lemma view_poke_other: "a \<notin> fst ` set ps \<Longrightarrow> view_poke v ps a = v a"
  by (induction ps arbitrary: v) (auto simp: view_poke_def)

lemma view_poke_reads:
  assumes "distinct as"
  shows "map (view_poke v (zip as bs)) (take (length bs) as) = map Some (take (length as) bs)"
  using assms
proof (induction as arbitrary: v bs)
  case Nil
  then show ?case by simp
next
  case (Cons a as)
  show ?case
  proof (cases bs)
    case bs: (Cons b bs')
    have a: "a \<notin> fst ` set (zip as bs')" using Cons.prems by (auto dest: set_zip_leftD)
    define v' where "v' = v(a \<mapsto> b)"
    have "view_poke v (zip (a # as) bs) = view_poke v' (zip as bs')"
      by (simp add: view_poke_def bs v'_def)
    moreover have "view_poke v' (zip as bs') a = Some b"
      using view_poke_other [OF a, of v'] by (simp add: v'_def)
    ultimately show ?thesis using Cons.IH [of v' bs'] Cons.prems bs by simp
  qed simp
qed

lemma poke_same_view:
  assumes "mm_wf mm" "list_all2 (backs mm) xs as"
  shows "same_view mm (- set as) h (poke h (zip xs bs))"
proof -
  have "fst ` set (zip as bs) \<subseteq> set as" by (auto dest: set_zip_leftD)
  then show ?thesis
    unfolding same_view_def backs_poke [OF assms] by (auto intro!: view_poke_other)
qed

lemma writer_new_cases:
  assumes "mm_wf mm" "0 < dc_ttl c"
  obtains (err) e where "writer_new mm h c = Some (Err e)"
      "\<not> (\<forall>d \<in> set (writable (chain_iter mm h c)). mapped mm d)"
    | (ok) w where "writer_new mm h c = Some (Ok w)" "consumer_ok w"
      "list_all2 (backs mm) (pending_addrs w) (chain_addrs (writable (chain_iter mm h c)))"
  using writer_new_spec [OF assms, of h] by (metis (full_types))

lemma reader_new_cases:
  assumes "mm_wf mm" "0 < dc_ttl c"
  obtains (err) e where "reader_new mm h c = Some (Err e)"
      "\<not> (\<forall>d \<in> set (readable (chain_iter mm h c)). mapped mm d)"
    | (ok) r where "reader_new mm h c = Some (Ok r)" "consumer_ok r"
      "list_all2 (backs mm) (pending_addrs r) (chain_addrs (readable (chain_iter mm h c)))"
  using reader_new_spec [OF assms, of h] by (metis (full_types))

lemma set_readable: "set (readable cs) \<subseteq> set cs" and set_writable: "set (writable cs) \<subseteq> set cs"
  by (auto simp: readable_def writable_def dest: set_takeWhileD set_dropWhileD)

lemma write_all_same_view:
  assumes "mm_wf mm" "consumer_ok w" "list_all2 (backs mm) (pending_addrs w) as"
  obtains w' h' where "write_all h w bs = Some (w', h', if length bs \<le> length as then Ok () else Err WriteZero)"
    "consumer_ok w'" "list_all2 (backs mm) (pending_addrs w') (drop (length bs) as)"
    "same_view mm (- set as) h h'" "guest_view mm h' = view_poke (guest_view mm h) (zip as bs)"
proof -
  obtain w' where "write_all h w bs = Some (w', poke h (zip (pending_addrs w) bs),
      if length bs \<le> length (pending_addrs w) then Ok () else Err WriteZero)"
    "consumer_ok w'" "pending_addrs w' = drop (length bs) (pending_addrs w)"
    using write_all_spec [OF assms(2)] by metis
  then show thesis
    using that poke_same_view [OF assms(1,3)] backs_poke [OF assms(1,3)] list_all2_dropI [OF assms(3)]
      list_all2_lengthD [OF assms(3)] by metis
qed

lemma write_all_fits:
  assumes "mm_wf mm" "consumer_ok w" "list_all2 (backs mm) (pending_addrs w) as" "length bs \<le> length as"
  obtains w' h' where "write_all h w bs = Some (w', h', Ok ())"
    "consumer_ok w'" "list_all2 (backs mm) (pending_addrs w') (drop (length bs) as)"
    "same_view mm (- set as) h h'" "guest_view mm h' = view_poke (guest_view mm h) (zip as bs)"
  by (rule write_all_same_view [OF assms(1-3), of h bs]) (simp add: assms(4) that)

text \<open>Returning a chain after writing to its buffers only.\<close>

lemma return_after_write:
  assumes "mm_wf mm" "used_ok mm q" "return_chain mm c len q h1 s1 = Some (q', h', s', u)"
    and "same_view mm (- A) h h1"
  shows "used_moved q q' \<and> same_view mm (- (ring_area q \<union> A)) h h'"
  using return_chain_Some [OF assms(1-3)] assms(4) by (auto simp: same_view_def)

section \<open>A driver that keeps to the rules\<close>

definition chain_of ::
  "memory_manager \<Rightarrow> heap \<Rightarrow> queue \<Rightarrow> (mem_error, u16) result \<Rightarrow> descriptor_chain option" where
  "chain_of mm h q e =
     (case e of Err _ \<Rightarrow> None | Ok i \<Rightarrow> checked_new mm h (q_desc_table q) (actual_size q) i)"

text \<open>
  The rings are in memory and apart from each other, the available chains are \<open>cs\<close>, and none of
  them asks the device to write over the available ring or the descriptor table.
\<close>

definition driver_ok :: "memory_manager \<Rightarrow> heap \<Rightarrow> queue \<Rightarrow> descriptor_chain list \<Rightarrow> bool" where
  "driver_ok mm h q cs \<longleftrightarrow>
     mm_wf mm \<and> used_ok mm q \<and> 0 < q_size q \<and> q_size q \<le> q_max_size q \<and> unat (q_size q) \<le> 2 ^ 14 \<and>
     (\<exists>r p. access_ok mm (q_avail_ring q) (6 + 2 * unat (q_size q)) r p) \<and>
     queue_len mm h q \<noteq> None \<and>
     map (chain_of mm h q) (pending mm h q) = map Some cs \<and>
     (\<forall>c \<in> set cs. write_area mm h c \<inter> driver_area q = {}) \<and> ring_area q \<inter> driver_area q = {}"

lemma actual_size_ok: "q_size q \<le> q_max_size q \<Longrightarrow> actual_size q = q_size q"
  by (simp add: actual_size_def)

lemma driver_ok_Nil:
  assumes "driver_ok mm h q []"
  shows "pop mm h q = Some (q, None)" "queue_len mm h q = Some 0"
proof -
  obtain n where n: "queue_len mm h q = Some n" using assms by (auto simp: driver_ok_def)
  have "pending mm h q = []" using assms by (simp add: driver_ok_def)
  then have "n = 0" using n by (simp add: pending_def unat_eq_zero)
  then show "pop mm h q = Some (q, None)" "queue_len mm h q = Some 0" using n by (simp_all add: pop_def)
qed

lemma driver_ok_next_fields:
  "used_ok mm (q\<lparr>q_next_avail := k\<rparr>) = used_ok mm q"
  "ring_area (q\<lparr>q_next_avail := k\<rparr>) = ring_area q"
  "driver_area (q\<lparr>q_next_avail := k\<rparr>) = driver_area q"
  "chain_of mm h (q\<lparr>q_next_avail := k\<rparr>) = chain_of mm h q"
  by (simp_all add: used_ok_def ring_area_def driver_area_def chain_of_def fun_eq_iff
      split: result.split)

lemma driver_ok_Cons:
  assumes "driver_ok mm h q (c # cs)"
  shows "pop mm h q = Some (q\<lparr>q_next_avail := q_next_avail q + 1\<rparr>, Some c)"
    and "driver_ok mm h (q\<lparr>q_next_avail := q_next_avail q + 1\<rparr>) cs"
    and "0 < dc_ttl c" "dc_index c < q_size q"
proof -
  obtain n where n: "queue_len mm h q = Some n" using assms by (auto simp: driver_ok_def)
  have m: "map (chain_of mm h q) (pending mm h q) = Some c # map Some cs"
    and sz: "0 < q_size q" "q_size q \<le> q_max_size q"
    using assms by (simp_all add: driver_ok_def)
  then have "pending mm h q \<noteq> []" by auto
  then have nz: "n \<noteq> 0" using n by (auto simp: pending_def)
  note pc = pending_Cons [OF n nz]
  have c: "chain_of mm h q (avail_entry mm h q (q_next_avail q)) = Some c" using m pc by simp
  then obtain i where i: "avail_entry mm h q (q_next_avail q) = Ok i"
    "checked_new mm h (q_desc_table q) (actual_size q) i = Some c"
    by (auto simp: chain_of_def split: result.splits)
  have a: "actual_size q = q_size q" "actual_size q \<noteq> 0" using sz actual_size_ok [of q] by auto
  show "pop mm h q = Some (q\<lparr>q_next_avail := q_next_avail q + 1\<rparr>, Some c)"
    using n nz a(2) i by (simp add: pop_def Let_def avail_entry_def avail_slot_def)
  show "0 < dc_ttl c" "dc_index c < q_size q" using checked_new_Some [OF i(2)] sz a by simp_all
  show "driver_ok mm h (q\<lparr>q_next_avail := q_next_avail q + 1\<rparr>) cs"
    using assms m pc queue_len_next [OF n]
    by (simp add: driver_ok_def driver_ok_next_fields)
qed

lemma driver_ok_chain:
  assumes "driver_ok mm h q cs" "c \<in> set cs"
  obtains i where "checked_new mm h (q_desc_table q) (q_size q) i = Some c"
proof -
  have m: "map (chain_of mm h q) (pending mm h q) = map Some cs"
    and sz: "q_size q \<le> q_max_size q" using assms(1) by (auto simp: driver_ok_def)
  have "Some c \<in> set (map (chain_of mm h q) (pending mm h q))" using m assms(2) by simp
  then show thesis
    using that actual_size_ok [OF sz] by (auto simp: chain_of_def split: result.splits)
qed

lemma driver_ok_ttl:
  assumes "driver_ok mm h q cs" "c \<in> set cs"
  shows "0 < dc_ttl c"
  using driver_ok_chain [OF assms] checked_new_Some(3) assms(1) unfolding driver_ok_def by metis

lemma unat_avail_offset:
  assumes "0 < n" "unat n \<le> 2 ^ 14"
  shows "unat (4 + 2 * (k mod n) :: u16) = 4 + 2 * unat (k mod n)" "unat (k mod n) < unat n"
proof -
  show lt: "unat (k mod n) < unat n" using assms(1) unat_mod_size [of n k] by auto
  have "unat (2 * (k mod n) :: u16) = 2 * unat (k mod n)"
    using lt assms(2) by (simp add: unat_word_ariths)
  then show "unat (4 + 2 * (k mod n) :: u16) = 4 + 2 * unat (k mod n)"
    using lt assms(2) by (simp add: unat_word_ariths)
qed

text \<open>What the driver wrote is read the same, whatever else changes.\<close>

lemma avail_entry_same_view:
  assumes "mm_wf mm" "0 < q_size q" "q_size q \<le> q_max_size q" "unat (q_size q) \<le> 2 ^ 14"
    and va: "same_view mm (set (addrs (q_avail_ring q) (6 + 2 * unat (q_size q)))) h h'"
  shows "avail_entry mm h' q k = avail_entry mm h q k"
proof -
  note o = unat_avail_offset [OF assms(2,4), of k]
  have slot: "avail_slot q k = q_avail_ring q + of_nat (4 + 2 * unat (k mod q_size q))"
    using o(1) actual_size_ok [OF assms(3)] by (simp add: avail_slot_def unchecked_add_def flip: o(1))
  have "same_view mm (set (addrs (avail_slot q k) 2)) h h'"
    unfolding slot by (rule same_view_mono [OF va set_addrs_sub]) (use o(2) in linarith)
  then show ?thesis
    using read_same_view [OF assms(1), of 2 "avail_slot q k"] by (simp add: avail_entry_def read_obj_def)
qed

lemma avail_same_view:
  assumes ok: "driver_ok mm h q cs" and v: "same_view mm (driver_area q) h h'" and m: "used_moved q q'"
  shows "queue_len mm h' q' = queue_len mm h q" "pending mm h' q' = pending mm h q"
    "chain_of mm h' q' = chain_of mm h q"
proof -
  let ?S = "unat (q_size q)"
  note f = used_moved_fields [OF m]
  have wf: "mm_wf mm" and sz: "0 < q_size q" "q_size q \<le> q_max_size q" "?S \<le> 2 ^ 14"
    using ok by (simp_all add: driver_ok_def)
  note as = actual_size_ok [OF sz(2)]
  obtain r p where acc: "access_ok mm (q_avail_ring q) (6 + 2 * ?S) r p"
    using ok by (auto simp: driver_ok_def)
  have va: "same_view mm (set (addrs (q_avail_ring q) (6 + 2 * ?S))) h h'"
    and vd: "same_view mm (set (addrs (q_desc_table q) (16 * ?S))) h h'"
    using v by (auto simp: driver_area_def same_view_def)
  have v2: "same_view mm (set (addrs (q_avail_ring q + 2) 2)) h h'"
    using same_view_mono [OF va] set_addrs_sub [of 2 2 "6 + 2 * ?S" "q_avail_ring q"] by simp
  have "load mm h' 2 (q_avail_ring q + 2) = (load mm h 2 (q_avail_ring q + 2) :: (mem_error, u16) result)"
    using load_same_view [OF wf access_ok_sub [OF wf acc, of 2 2]] v2 by simp
  then show len: "queue_len mm h' q' = queue_len mm h q"
    using f by (simp add: queue_len_def avail_idx_def checked_add_def split: result.split)
  have e: "avail_entry mm h' q' k = avail_entry mm h q k" for k
    using avail_entry_same_view [OF wf sz va, of k] f by (simp add: avail_entry_def avail_slot_def)
  show "pending mm h' q' = pending mm h q" using len e f by (simp add: pending_def split: option.split)
  show "chain_of mm h' q' = chain_of mm h q"
    using f as checked_new_same_view [OF wf vd]
    by (auto simp: chain_of_def fun_eq_iff split: result.split)
qed

lemma chain_iter_driver:
  assumes ok: "driver_ok mm h q cs" and v: "same_view mm (driver_area q) h h'" and c: "c \<in> set cs"
  shows "chain_iter mm h' c = chain_iter mm h c"
proof -
  have wf: "mm_wf mm" using ok by (simp add: driver_ok_def)
  have d: "dc_desc_table c = q_desc_table q" "dc_queue_size c = q_size q"
    using driver_ok_chain [OF ok c] checked_new_Some by metis+
  have "same_view mm (set (addrs (q_desc_table q) (16 * unat (q_size q)))) h h'"
    using v by (auto simp: driver_area_def same_view_def)
  then show ?thesis using chain_iter_same_view [OF wf, of c h h'] d by simp
qed

lemma driver_ok_frame:
  assumes ok: "driver_ok mm h q cs" and v: "same_view mm (driver_area q) h h'" and m: "used_moved q q'"
  shows "driver_ok mm h' q' cs"
proof -
  have "write_area mm h' c = write_area mm h c" if "c \<in> set cs" for c
    using chain_iter_driver [OF ok v that] by (simp add: write_area_def)
  then show ?thesis
    using ok avail_same_view [OF ok v m] used_moved_fields [OF m] by (simp add: driver_ok_def)
qed

section \<open>Notifications cannot fail\<close>

lemma used_moved_added: "used_moved q (q\<lparr>q_num_added := n\<rparr>)"
  by (simp add: used_moved_def)

lemma driver_ok_avail_perms:
  assumes "driver_ok mm h q cs"
  obtains r p where "access_ok mm (q_avail_ring q) (6 + 2 * unat (q_size q)) r p"
    "perms_contain (rg_perms r) PERM_READ"
proof -
  have wf: "mm_wf mm" using assms by (simp add: driver_ok_def)
  obtain r p where acc: "access_ok mm (q_avail_ring q) (6 + 2 * unat (q_size q)) r p"
    using assms by (auto simp: driver_ok_def)
  have a: "access_ok mm (q_avail_ring q + 2) 2 r p" using access_ok_sub [OF wf acc, of 2 2] by simp
  have "perms_contain (rg_perms r) PERM_READ"
    using assms a
    by (auto simp: driver_ok_def queue_len_def avail_idx_def checked_add_def load_def access_ok_def
        split: if_splits result.splits)
  then show thesis using that acc by blast
qed

lemma access_ok_bound: "mm_wf mm \<Longrightarrow> access_ok mm a n r p \<Longrightarrow> unat a + n \<le> 2 ^ 63"
  by (auto simp: access_ok_def region_wf_def dest!: find_regionD(1) mm_wf_region)

lemma needs_notification_ok:
  assumes ok: "driver_ok mm h q cs"
  obtains q' b where "needs_notification mm h q = (q', Ok b)" "used_moved q q'"
    "q_next_used q' = q_next_used q" "\<not> q_event_idx_enabled q \<Longrightarrow> b"
proof -
  have wf: "mm_wf mm" using ok by (simp add: driver_ok_def)
  obtain r p where acc: "access_ok mm (q_avail_ring q) (6 + 2 * unat (q_size q)) r p"
    and rd: "perms_contain (rg_perms r) PERM_READ" using driver_ok_avail_perms [OF ok] .
  let ?o = "4 + ucast (q_size q) * 2 :: u64"
  have o: "?o = of_nat (4 + 2 * unat (q_size q))" by simp
  have "checked_add (q_avail_ring q) ?o = Some (q_avail_ring q + ?o)"
    using access_ok_bound [OF wf acc] unat_bounds(2) [of "q_size q"] unfolding o
    by (simp add: checked_add_def unat_of_nat del: of_nat_add of_nat_mult of_nat_numeral)
  moreover have "access_ok mm (q_avail_ring q + ?o) 2 r p"
    unfolding o by (rule access_ok_sub [OF wf acc]) simp_all
  ultimately obtain ev where ev: "used_event mm h q = Ok ev"
    using load_success [OF _ rd] by (fastforce simp: used_event_def virtq_consts)
  show thesis
  proof (cases "q_event_idx_enabled q")
    case True
    show ?thesis
      by (rule that [of "q\<lparr>q_num_added := 0\<rparr>"])
        (use True ev in \<open>auto simp: needs_notification_def Let_def used_moved_added\<close>)
  next
    case False
    show ?thesis by (rule that [of q True]) (use False in \<open>simp_all add: needs_notification_def\<close>)
  qed
qed

lemma set_notification_ok:
  assumes wf: "mm_wf mm" and u: "used_ok mm q"
  obtains h' where "set_notification mm h q enable = Ok h'" "same_view mm (- ring_area q) h h'"
proof -
  let ?S = "unat (q_size q)" and ?U = "q_used_ring q"
  obtain r p where acc: "access_ok mm ?U (6 + 8 * ?S) r p" and w: "perms_contain (rg_perms r) PERM_WRITE"
    using u by (auto simp: used_ok_def)
  have st: "\<exists>h'. store mm h 2 v (?U + of_nat i) = Ok h' \<and> same_view mm (- ring_area q) h h'"
    if i: "i + 2 \<le> 6 + 8 * ?S" for i and v :: u16
  proof -
    have a: "access_ok mm (?U + of_nat i) 2 r p" by (rule access_ok_sub [OF wf acc]) (use i in simp_all)
    have "length (to_le 2 v) = 2" by simp
    then have view: "guest_view mm (copy_to h (host_addr r p (?U + of_nat i)) (to_le 2 v)) =
        view_update (guest_view mm h) (?U + of_nat i) (to_le 2 v)"
      using guest_view_copy_to [OF wf, of "?U + of_nat i" "to_le 2 v" r p h] a by simp
    have "x \<notin> set (addrs (?U + of_nat i) 2)" if "x \<notin> ring_area q" for x
      using that set_addrs_sub [OF i, of ?U] by (auto simp: ring_area_def)
    then have "same_view mm (- ring_area q) h (copy_to h (host_addr r p (?U + of_nat i)) (to_le 2 v))"
      by (auto simp: same_view_def view view_update_other)
    then show ?thesis using store_success [OF a w] by blast
  qed
  let ?o = "4 + 8 * ucast (q_size q) :: u64"
  have o: "?o = of_nat (4 + 8 * ?S)" by simp
  have ca: "checked_add ?U ?o = Some (?U + ?o)"
    using access_ok_bound [OF wf acc] unat_bounds(2) [of "q_size q"] unfolding o
    by (simp add: checked_add_def unat_of_nat del: of_nat_add of_nat_mult of_nat_numeral)
  have "\<exists>h'. set_avail_event mm h q v = Ok h' \<and> same_view mm (- ring_area q) h h'" for v
    using st [of "4 + 8 * ?S" v] ca by (auto simp: set_avail_event_def virtq_consts)
  moreover have "\<exists>h'. set_used_flags mm h q v = Ok h' \<and> same_view mm (- ring_area q) h h'" for v
    using st [of 0 v] by (auto simp: set_used_flags_def)
  ultimately show thesis
    using that by (cases enable; cases "q_event_idx_enabled q") (auto simp: set_notification_def)
qed

lemma driver_ok_outside: "driver_ok mm h q cs \<Longrightarrow> same_view mm (- ring_area q) h h' \<Longrightarrow>
    same_view mm (driver_area q) h h'"
  by (auto simp: driver_ok_def same_view_def)

lemma enable_notification_ok:
  assumes ok: "driver_ok mm h q []"
  obtains h' where "enable_notification mm h q = (h', Ok False)" "driver_ok mm h' q []"
proof -
  have wf: "mm_wf mm" "used_ok mm q" using ok by (simp_all add: driver_ok_def)
  obtain h' where h': "set_notification mm h q True = Ok h'" "same_view mm (- ring_area q) h h'"
    using set_notification_ok [OF wf] by metis
  have ok': "driver_ok mm h' q []"
    by (rule driver_ok_frame [OF ok driver_ok_outside [OF ok h'(2)] used_moved_refl])
  have "queue_len mm h' q = Some 0" by (rule driver_ok_Nil(2) [OF ok'])
  then obtain i where "avail_idx mm h' q = Ok i" "i = q_next_avail q"
    by (auto simp: queue_len_def split: result.splits)
  then show thesis using that h' ok' by (simp add: enable_notification_def)
qed

section \<open>Serving the available chains\<close>

text \<open>The specification of the loop: handle the available chains one after the other.\<close>

fun serve ::
  "'s handler \<Rightarrow> descriptor_chain list \<Rightarrow> queue \<Rightarrow> heap \<Rightarrow> 's \<Rightarrow> bool \<Rightarrow>
   (queue \<times> heap \<times> 's \<times> bool) panics" where
  "serve handle [] q h s used_any = Some (q, h, s, used_any)"
| "serve handle (c # cs) q h s used_any =
     (case handle c (q\<lparr>q_next_avail := q_next_avail q + 1\<rparr>) h s of
        None \<Rightarrow> None
      | Some (q2, h2, s2, used) \<Rightarrow> serve handle cs q2 h2 s2 (used_any \<or> used))"

text \<open>A chain all of whose buffers are in memory, with at least \<open>n\<close> readable bytes.\<close>

definition accepted :: "nat \<Rightarrow> memory_manager \<Rightarrow> heap \<Rightarrow> descriptor_chain \<Rightarrow> bool" where
  "accepted n mm h c \<longleftrightarrow>
     (\<forall>d \<in> set (chain_iter mm h c). mapped mm d) \<and>
     n \<le> length (chain_addrs (readable (chain_iter mm h c)))"

text \<open>
  What the loop relies on: a handler never panics, writes only to the used ring and to the
  writable buffers of its chain, moves nothing but the used counters, and returns every chain it
  can work with exactly once.  \<open>'p\<close> stands for the constants and external operations a handler
  is given, of which \<open>legal\<close> says what is assumed.
\<close>

locale chain_handler =
  fixes legal :: "'p \<Rightarrow> bool"
    and minimum :: nat
    and handle :: "'p \<Rightarrow> memory_manager \<Rightarrow> 's handler"
  assumes handle_total: "legal p \<Longrightarrow> mm_wf mm \<Longrightarrow> 0 < dc_ttl c \<Longrightarrow> handle p mm c q h s \<noteq> None"
    and handle_frame: "legal p \<Longrightarrow> mm_wf mm \<Longrightarrow> 0 < dc_ttl c \<Longrightarrow> used_ok mm q \<Longrightarrow>
      handle p mm c q h s = Some (q', h', s', u) \<Longrightarrow>
      used_moved q q' \<and> same_view mm (- (ring_area q \<union> write_area mm h c)) h h'"
    and handle_returns: "legal p \<Longrightarrow> mm_wf mm \<Longrightarrow> 0 < dc_ttl c \<Longrightarrow> used_ok mm q \<Longrightarrow>
      accepted minimum mm h c \<Longrightarrow> dc_index c < q_size q \<Longrightarrow>
      handle p mm c q h s = Some (q', h', s', u) \<Longrightarrow> q_next_used q' = q_next_used q + 1 \<and> u"
begin

lemma handle_step:
  assumes "legal p" and ok: "driver_ok mm h q (c # cs)"
  obtains q2 h2 s2 u where
    "handle p mm c (q\<lparr>q_next_avail := q_next_avail q + 1\<rparr>) h s = Some (q2, h2, s2, u)"
    "driver_ok mm h2 q2 cs" "same_view mm (driver_area q) h h2" "driver_area q2 = driver_area q"
    "q_next_avail q2 = q_next_avail q + 1" "q_size q2 = q_size q"
    "accepted minimum mm h c \<Longrightarrow> q_next_used q2 = q_next_used q + 1 \<and> u"
proof -
  let ?q1 = "q\<lparr>q_next_avail := q_next_avail q + 1\<rparr>"
  note c = driver_ok_Cons [OF ok]
  have wf: "mm_wf mm" and u: "used_ok mm q" and ap: "write_area mm h c \<inter> driver_area q = {}"
    "ring_area q \<inter> driver_area q = {}"
    using ok by (simp_all add: driver_ok_def)
  have u1: "used_ok mm ?q1" using u by (simp add: driver_ok_next_fields)
  obtain q2 h2 s2 b where st: "handle p mm c ?q1 h s = Some (q2, h2, s2, b)"
    using handle_total [OF assms(1) wf c(3)] by fastforce
  have fr: "used_moved ?q1 q2" "same_view mm (- (ring_area ?q1 \<union> write_area mm h c)) h h2"
    using handle_frame [OF assms(1) wf c(3) u1 st] by auto
  have v: "same_view mm (driver_area q) h h2"
    by (rule same_view_mono [OF fr(2)]) (use ap in \<open>auto simp: driver_ok_next_fields\<close>)
  have d2: "driver_ok mm h2 q2 cs"
    using driver_ok_frame [OF c(2) _ fr(1)] v by (simp add: driver_ok_next_fields)
  show thesis
    by (rule that [OF st d2 v])
      (use used_moved_fields [OF fr(1)] handle_returns [OF assms(1) wf c(3) u1 _ _ st] c(4) in
        \<open>simp_all add: driver_ok_next_fields\<close>)
qed

lemma drain_serves:
  assumes "legal p" "driver_ok mm h q cs" "length cs < fuel"
  shows "drain fuel mm (handle p mm) q h s u = Some (serve (handle p mm) cs q h s u)"
  using assms(2,3)
proof (induction cs arbitrary: fuel q h s u)
  case Nil
  then show ?case by (cases fuel) (simp_all add: driver_ok_Nil)
next
  case (Cons c cs)
  obtain f where f: "fuel = Suc f" "length cs < f" using Cons.prems(2) by (cases fuel) auto
  obtain q2 h2 s2 v where st: "handle p mm c (q\<lparr>q_next_avail := q_next_avail q + 1\<rparr>) h s = Some (q2, h2, s2, v)"
    "driver_ok mm h2 q2 cs"
    using handle_step [OF assms(1) Cons.prems(1)] by metis
  then show ?case using f driver_ok_Cons(1) [OF Cons.prems(1)] Cons.IH [OF st(2) f(2)] by simp
qed

lemma serve_result:
  assumes "legal p" "driver_ok mm h q cs"
  obtains q' h' s' u' where "serve (handle p mm) cs q h s u = Some (q', h', s', u')"
    "driver_ok mm h' q' []" "same_view mm (driver_area q) h h'"
    "q_next_avail q' = q_next_avail q + of_nat (length cs)" "q_size q' = q_size q"
    "\<forall>c \<in> set cs. accepted minimum mm h c \<Longrightarrow>
       q_next_used q' = q_next_used q + of_nat (length cs) \<and> (u' \<longleftrightarrow> u \<or> cs \<noteq> [])"
  using assms(2)
proof (induction cs arbitrary: q h s u thesis)
  case Nil
  then show ?case by simp
next
  case (Cons c cs)
  obtain q2 h2 s2 v where st:
    "handle p mm c (q\<lparr>q_next_avail := q_next_avail q + 1\<rparr>) h s = Some (q2, h2, s2, v)"
    "driver_ok mm h2 q2 cs" "same_view mm (driver_area q) h h2" "driver_area q2 = driver_area q"
    "q_next_avail q2 = q_next_avail q + 1" "q_size q2 = q_size q"
    "accepted minimum mm h c \<Longrightarrow> q_next_used q2 = q_next_used q + 1 \<and> v"
    using handle_step [OF assms(1) Cons.prems(2)] by metis
  have acc: "accepted minimum mm h2 d \<longleftrightarrow> accepted minimum mm h d" if "d \<in> set cs" for d
    using chain_iter_driver [OF Cons.prems(2) st(3)] that by (simp add: accepted_def)
  obtain q' h' s' u' where IH: "serve (handle p mm) cs q2 h2 s2 (u \<or> v) = Some (q', h', s', u')"
    "driver_ok mm h' q' []" "same_view mm (driver_area q2) h2 h'"
    "q_next_avail q' = q_next_avail q2 + of_nat (length cs)" "q_size q' = q_size q2"
    "\<forall>c \<in> set cs. accepted minimum mm h2 c \<Longrightarrow>
       q_next_used q' = q_next_used q2 + of_nat (length cs) \<and> (u' \<longleftrightarrow> (u \<or> v) \<or> cs \<noteq> [])"
    using Cons.IH [OF _ st(2)] by metis
  show ?case
    by (rule Cons.prems(1) [of q' h' s' u'])
      (use st IH acc same_view_trans [OF st(3), of h'] in \<open>auto simp: ac_simps\<close>)
qed

text \<open>The whole loop: it ends, the queue is empty, and every chain has been returned.\<close>

lemma drain_returns_all:
  assumes "legal p" "driver_ok mm h q cs" "length cs < fuel"
    and "\<forall>c \<in> set cs. accepted minimum mm h c"
  shows "\<exists>q' h' s'. drain fuel mm (handle p mm) q h s False = Some (Some (q', h', s', cs \<noteq> [])) \<and>
    queue_len mm h' q' = Some 0 \<and> q_next_avail q' = q_next_avail q + of_nat (length cs) \<and>
    q_next_used q' = q_next_used q + of_nat (length cs)"
proof -
  obtain q' h' s' u' where "serve (handle p mm) cs q h s False = Some (q', h', s', u')"
    "driver_ok mm h' q' []" "q_next_avail q' = q_next_avail q + of_nat (length cs)"
    "q_next_used q' = q_next_used q + of_nat (length cs)" "u' \<longleftrightarrow> cs \<noteq> []"
    using serve_result [OF assms(1,2), of s False] assms(4) by metis
  then show ?thesis
    using drain_serves [OF assms(1-3), of s False] driver_ok_Nil(2) by simp
qed

text \<open>
  A queue event: with suppression and the interrupt around it, one pass of the outer loop does
  all the work, and nothing in it panics.
\<close>

lemma event_serves:
  assumes "legal p" "driver_ok mm h q cs" "length cs < fuel"
    and fin: "\<And>h q il u. driver_ok mm h q [] \<Longrightarrow>
      \<exists>q' il'. finish h q il u = Some (q', il') \<and> used_moved q q' \<and> q_next_used q' = q_next_used q"
  obtains h1 q2 h2 s2 u q3 h3 il where
    "process_virtio_queues (Suc n) mm (process_batch finish fuel mm (handle p mm)) q h s =
      Some (Some (q3, h3, s2, il))"
    "same_view mm (- ring_area q) h h1" "driver_ok mm h1 q cs"
    "serve (handle p mm) cs q h1 (fst s) False = Some (q2, h2, s2, u)"
    "finish h2 q2 (snd s) u = Some (q3, il)"
    "driver_ok mm h3 q3 []" "q_next_avail q3 = q_next_avail q + of_nat (length cs)"
    "q_next_used q3 = q_next_used q2"
proof -
  have wf: "mm_wf mm" "used_ok mm q" using assms(2) by (simp_all add: driver_ok_def)
  obtain h1 where h1: "disable_notification mm h q = Ok h1" "same_view mm (- ring_area q) h h1"
    using set_notification_ok [OF wf] unfolding disable_notification_def by metis
  note v1 = driver_ok_outside [OF assms(2) h1(2)]
  have ok1: "driver_ok mm h1 q cs" by (rule driver_ok_frame [OF assms(2) v1 used_moved_refl])
  obtain q2 h2 s2 u where sv: "serve (handle p mm) cs q h1 (fst s) False = Some (q2, h2, s2, u)"
    "driver_ok mm h2 q2 []" "q_next_avail q2 = q_next_avail q + of_nat (length cs)"
    using serve_result [OF assms(1) ok1, of "fst s" False] by metis
  obtain q3 il where f: "finish h2 q2 (snd s) u = Some (q3, il)" "used_moved q2 q3"
    "q_next_used q3 = q_next_used q2"
    using fin [OF sv(2)] by metis
  have ok3: "driver_ok mm h2 q3 []" by (rule driver_ok_frame [OF sv(2) same_view_refl f(2)])
  obtain h3 where h3: "enable_notification mm h2 q3 = (h3, Ok False)" "driver_ok mm h3 q3 []"
    using enable_notification_ok [OF ok3] .
  have "process_batch finish fuel mm (handle p mm) q h1 s = Some (Some (q3, h2, s2, il))"
    using drain_serves [OF assms(1) ok1 assms(3)] sv(1) f(1) by (simp add: process_batch_def)
  then have "process_virtio_queues (Suc n) mm (process_batch finish fuel mm (handle p mm)) q h s =
      Some (Some (q3, h3, s2, il))" using h1(1) h3(1) by simp
  then show thesis
    using that h1(2) ok1 sv(1,3) f(1,3) h3(2) used_moved_fields(6) [OF f(2)] by metis
qed

lemma event_returns_all:
  assumes "legal p" "driver_ok mm h q cs" "length cs < fuel"
    and acc: "\<forall>c \<in> set cs. accepted minimum mm h c"
    and fin: "\<And>h q il u. driver_ok mm h q [] \<Longrightarrow>
      \<exists>q' il'. finish h q il u = Some (q', il') \<and> used_moved q q' \<and> q_next_used q' = q_next_used q"
  shows "\<exists>q' h' s'. process_virtio_queues (Suc n) mm (process_batch finish fuel mm (handle p mm)) q h s =
      Some (Some (q', h', s')) \<and>
    queue_len mm h' q' = Some 0 \<and> q_next_avail q' = q_next_avail q + of_nat (length cs) \<and>
    q_next_used q' = q_next_used q + of_nat (length cs)"
proof -
  obtain h1 q2 h2 s2 u q3 h3 il where e:
    "process_virtio_queues (Suc n) mm (process_batch finish fuel mm (handle p mm)) q h s =
      Some (Some (q3, h3, s2, il))"
    "same_view mm (- ring_area q) h h1" "driver_ok mm h1 q cs"
    "serve (handle p mm) cs q h1 (fst s) False = Some (q2, h2, s2, u)"
    "driver_ok mm h3 q3 []" "q_next_avail q3 = q_next_avail q + of_nat (length cs)"
    "q_next_used q3 = q_next_used q2"
    by (rule event_serves [OF assms(1-3), where finish = finish and n = n and s = s, OF fin])
      (assumption, rule that, assumption+)
  have "\<forall>c \<in> set cs. accepted minimum mm h1 c"
    using acc chain_iter_driver [OF assms(2) driver_ok_outside [OF assms(2) e(2)]]
    by (simp add: accepted_def)
  then have "q_next_used q2 = q_next_used q + of_nat (length cs)"
    using serve_result [OF assms(1) e(3), of "fst s" False] e(4) by (metis option.inject prod.inject)
  then show ?thesis using e driver_ok_Nil(2) [OF e(5)] by auto
qed

end

lemma finish_batch_ok:
  assumes "driver_ok mm h q cs"
  shows "\<exists>q' il'. finish_batch env mm h q il u = Some (q', il') \<and> used_moved q q' \<and>
    q_next_used q' = q_next_used q"
proof -
  obtain q' b where "needs_notification mm h q = (q', Ok b)" "used_moved q q'"
    "q_next_used q' = q_next_used q"
    using needs_notification_ok [OF assms] by metis
  then show ?thesis by (cases u) (auto simp: finish_batch_def)
qed

lemmas finish_batch_done = finish_batch_ok [where cs = "[]"]

lemma finish_always_ok:
  "\<exists>q' il'. finish_always env mm h q il u = Some (q', il') \<and> used_moved q q' \<and>
    q_next_used q' = q_next_used q"
  by (simp add: finish_always_def)

section \<open>A queue for the witnesses\<close>

lemma set_addrs_bounds:
  assumes "x \<in> set (addrs a n)" "unat a + n \<le> 2 ^ 64"
  shows "unat a \<le> unat x" "unat x < unat a + n"
proof -
  obtain i where i: "i < n" "x = a + of_nat i" using assms(1) by (auto simp: addrs_def)
  then have "unat x = unat a + i" using assms(2) by (simp add: unat_word_ariths unat_of_nat)
  then show "unat a \<le> unat x" "unat x < unat a + n" using i by simp_all
qed

lemma addrs_apart:
  assumes "unat a + n \<le> unat b" "unat b + m \<le> 2 ^ 64"
  shows "set (addrs a n) \<inter> set (addrs b m) = {}" "set (addrs b m) \<inter> set (addrs a n) = {}"
  using set_addrs_bounds [of _ a n] set_addrs_bounds [of _ b m] assms by fastforce+

lemma demo_chain_descs:
  "chain_iter demo_mm demo_heap demo_chain =
     [demo_chain, \<lparr>dc_desc_table = 0x100, dc_queue_size = 4, dc_ttl = 3, dc_index = 2,
        dc_addr = 0x500, dc_len = 16, dc_flags = 2, dc_next = 0\<rparr>]"
  by (simp add: chain_iter.simps next_descriptor_def queue_eval demo_desc)

lemma demo_chain_parts:
  "chain_addrs (readable (chain_iter demo_mm demo_heap demo_chain)) = addrs 0x400 16"
  "chain_addrs (writable (chain_iter demo_mm demo_heap demo_chain)) = addrs 0x500 16"
  unfolding demo_chain_descs
  by (simp_all add: readable_def writable_def is_read_only_def virtq_consts demo_chain_def chain_addrs_def)

lemma demo_access:
  assumes "unat a < 0x1000" "unat a + n \<le> 0x1000"
  shows "\<exists>r p. access_ok demo_mm a n r p \<and> perms_contain (rg_perms r) PERM_WRITE"
  using assms by (auto simp: access_ok_def demo_eval word_le_nat_alt)

lemma demo_driver_ok: "driver_ok demo_mm demo_heap demo_queue [demo_chain]"
proof -
  have s: "unat (q_size demo_queue) = 4" by (simp add: demo_queue_def)
  have p: "pending demo_mm demo_heap demo_queue = [Ok 1]"
    by (simp add: pending_def avail_entry_def avail_slot_def queue_eval demo_ring)
  have c: "chain_of demo_mm demo_heap demo_queue (Ok 1) = Some demo_chain"
    by (simp add: chain_of_def queue_eval demo_desc)
  have l: "queue_len demo_mm demo_heap demo_queue = Some 1"
    by (simp add: queue_eval demo_ring)
  have u: "used_ok demo_mm demo_queue"
    unfolding used_ok_def s by (rule demo_access) (simp_all add: demo_queue_def)
  have a: "\<exists>r p. access_ok demo_mm (q_avail_ring demo_queue) (6 + 2 * 4) r p"
    using demo_access [of "q_avail_ring demo_queue" 14] by (auto simp: demo_queue_def)
  have d: "driver_area demo_queue = set (addrs 0x200 14) \<union> set (addrs 0x100 64)"
    by (simp add: driver_area_def demo_queue_def)
  have r: "ring_area demo_queue = set (addrs 0x300 38)" by (simp add: ring_area_def demo_queue_def)
  have w: "write_area demo_mm demo_heap demo_chain = set (addrs 0x500 16)"
    by (simp add: write_area_def demo_chain_parts)
  have "write_area demo_mm demo_heap demo_chain \<inter> driver_area demo_queue = {}"
    "ring_area demo_queue \<inter> driver_area demo_queue = {}"
    unfolding d r w Int_Un_distrib by (simp_all add: addrs_apart)
  then show ?thesis
    using p c l u a s demo_mm_wf by (simp add: driver_ok_def demo_queue_def)
qed

lemma demo_buffers_apart:
  "set (addrs 0x400 16) \<inter> ring_area demo_queue = {}" "set (addrs 0x500 16) \<inter> ring_area demo_queue = {}"
  by (simp_all add: ring_area_def demo_queue_def addrs_apart)

definition demo_link :: irq_link where
  "demo_link = \<lparr>il_interrupt = fresh_interrupt, il_chip = demo_chip, il_injected = []\<rparr>"

lemma demo_accepted: "n \<le> 16 \<Longrightarrow> accepted n demo_mm demo_heap demo_chain"
proof -
  have "mapped demo_mm d" if "unat (dc_addr d) < 0x1000" "unat (dc_addr d) + unat (dc_len d) \<le> 0x1000" for d
    unfolding mapped_def using demo_access [OF that] by blast
  then have "\<forall>d \<in> set (chain_iter demo_mm demo_heap demo_chain). mapped demo_mm d"
    unfolding demo_chain_descs by (simp add: demo_chain_def)
  then show "n \<le> 16 \<Longrightarrow> accepted n demo_mm demo_heap demo_chain"
    by (simp add: accepted_def demo_chain_parts)
qed

end
