(* ===== verification/Rng_Worker.thy ===== *)
theory Rng_Worker
  imports Worker
begin

text \<open>
  The entropy device's worker (\<^verbatim>\<open>src/devices/virtio/rng/worker.rs\<close>): every writable buffer the
  driver offers is filled with random bytes.  The random source (\<^verbatim>\<open>BCryptGenRandom\<close>) is the
  parameter \<open>gen\<close>: given the number of bytes it returns the contents of the buffer, or \<open>None\<close>
  when the call fails.
\<close>

section \<open>The worker\<close>

type_synonym 'r random_source = "'r \<Rightarrow> nat \<Rightarrow> 'r \<times> u8 list option"

definition rng_handle :: "'r random_source \<Rightarrow> memory_manager \<Rightarrow> 'r handler" where
  "rng_handle gen mm head q h r =
     (case writer_new mm h head of
        None \<Rightarrow> None
      | Some (Err _) \<Rightarrow> Some (q, h, r, False)
      | Some (Ok w) \<Rightarrow>
          let len = available_bytes w
          in if len = 0 then return_chain mm head 0 q h r
             else case gen r len of
               (r', None) \<Rightarrow> return_chain mm head 0 q h r'
             | (r', Some buf) \<Rightarrow>
                 (case write_all h w buf of
                    None \<Rightarrow> None
                  | Some (_, h', Ok _) \<Rightarrow> return_chain mm head (of_nat len) q h' r'
                  | Some (_, h', Err _) \<Rightarrow> return_chain mm head 0 q h' r'))"

definition rng_process_queue ::
  "mmio_env \<Rightarrow> nat \<Rightarrow> 'r random_source \<Rightarrow> memory_manager \<Rightarrow> queue \<Rightarrow> heap \<Rightarrow> 'r \<times> irq_link \<Rightarrow>
   (queue \<times> heap \<times> 'r \<times> irq_link) panics option" where
  "rng_process_queue env fuel gen mm =
     process_batch (finish_batch env mm) fuel mm (rng_handle gen mm)"

definition rng_process_virtio_queues where
  "rng_process_virtio_queues env fuel gen mm =
     process_virtio_queues fuel mm (rng_process_queue env fuel gen mm)"

section \<open>The worker serves its queue\<close>

text \<open>The Windows documentation: a call that succeeds fills the buffer it is given.\<close>

definition fills_buffer :: "'r random_source \<Rightarrow> bool" where
  "fills_buffer gen \<longleftrightarrow> (\<forall>r n r' bs. gen r n = (r', Some bs) \<longrightarrow> length bs = n)"

lemma rng_handle_mapped:
  assumes "fills_buffer gen" "mm_wf mm" "0 < dc_ttl c"
    and "\<forall>d \<in> set (writable (chain_iter mm h c)). mapped mm d"
  defines "A \<equiv> chain_addrs (writable (chain_iter mm h c))"
  obtains len h1 where "rng_handle gen mm c q h r =
      return_chain mm c len q h1 (if A = [] then r else fst (gen r (length A)))"
    "same_view mm (- set A) h h1"
    "\<forall>r' bs. A \<noteq> [] \<and> gen r (length A) = (r', Some bs) \<longrightarrow> len = of_nat (length A) \<and>
       guest_view mm h1 = view_poke (guest_view mm h) (zip A bs)"
  using assms(2,3)
proof (cases rule: writer_new_cases [of mm c h])
  case (err e)
  with assms(4) show ?thesis by blast
next
  case (ok w)
  have len: "available_bytes w = length A"
    using available_bytes_eq [OF ok(2)] list_all2_lengthD [OF ok(3)] by (simp add: A_def)
  show ?thesis
  proof (cases "A = []")
    case True
    then show ?thesis using that [of 0 h] ok(1) len by (simp add: rng_handle_def)
  next
    case False
    show ?thesis
    proof (cases "gen r (length A)")
      case (Pair r' b)
      show ?thesis
      proof (cases b)
        case None
        then show ?thesis using that [of 0 h] Pair False ok(1) len by (simp add: rng_handle_def)
      next
        case (Some bs)
        have lb: "length bs = length A" using assms(1) Pair Some by (simp add: fills_buffer_def)
        obtain w' h' where "write_all h w bs = Some (w', h', Ok ())" "same_view mm (- set A) h h'"
          "guest_view mm h' = view_poke (guest_view mm h) (zip A bs)"
          by (rule write_all_fits [OF assms(2) ok(2,3) [folded A_def], of bs h]) (use lb in auto)
        then show ?thesis
          using that [of "of_nat (length A)" h'] Pair Some False ok(1) len by (simp add: rng_handle_def)
      qed
    qed
  qed
qed

interpretation rng: chain_handler fills_buffer 0 rng_handle
proof unfold_locales
  fix gen :: "'r random_source" and mm and c :: descriptor_chain and q h s
  assume a: "fills_buffer gen" "mm_wf mm" "0 < dc_ttl c"
  show "rng_handle gen mm c q h s \<noteq> None"
    using a(2,3)
  proof (cases rule: writer_new_cases [of mm c h])
    case (err e)
    then show ?thesis by (simp add: rng_handle_def)
  next
    case (ok w)
    then have "\<forall>d \<in> set (writable (chain_iter mm h c)). mapped mm d"
      using writer_new_spec [OF a(2,3), of h] by (auto split: if_splits)
    then obtain len h1 r' where "rng_handle gen mm c q h s = return_chain mm c len q h1 r'"
      using rng_handle_mapped [OF a] by metis
    then show ?thesis using return_chain_total by metis
  qed
next
  fix gen :: "'r random_source" and mm and c :: descriptor_chain and q h s q' h' s' u
  assume a: "fills_buffer gen" "mm_wf mm" "0 < dc_ttl c" and us: "used_ok mm q"
    and r: "rng_handle gen mm c q h s = Some (q', h', s', u)"
  show "used_moved q q' \<and> same_view mm (- (ring_area q \<union> write_area mm h c)) h h'"
    using a(2,3)
  proof (cases rule: writer_new_cases [of mm c h])
    case (err e)
    then show ?thesis using r by (simp add: rng_handle_def)
  next
    case (ok w)
    then have "\<forall>d \<in> set (writable (chain_iter mm h c)). mapped mm d"
      using writer_new_spec [OF a(2,3), of h] by (auto split: if_splits)
    then obtain len h1 r' where "rng_handle gen mm c q h s = return_chain mm c len q h1 r'"
      "same_view mm (- write_area mm h c) h h1"
      using rng_handle_mapped [OF a] unfolding write_area_def by metis
    then show ?thesis using return_after_write [OF a(2) us] r by metis
  qed
next
  fix gen :: "'r random_source" and mm and c :: descriptor_chain and q h s q' h' s' u
  assume a: "fills_buffer gen" "mm_wf mm" "0 < dc_ttl c" and us: "used_ok mm q"
    and acc: "accepted 0 mm h c" "dc_index c < q_size q"
    and r: "rng_handle gen mm c q h s = Some (q', h', s', u)"
  have "\<forall>d \<in> set (writable (chain_iter mm h c)). mapped mm d"
    using acc(1) set_writable by (auto simp: accepted_def)
  then obtain len h1 r' where "rng_handle gen mm c q h s = return_chain mm c len q h1 r'"
    using rng_handle_mapped [OF a] by metis
  then show "q_next_used q' = q_next_used q + 1 \<and> u"
    using return_chain_Some(4,5) [OF a(2) us] r acc(2) by metis
qed

section \<open>Properties\<close>

text \<open>
  A queue event of the entropy device: for a driver that keeps to the rules and offers
  buffers in memory, the worker ends, has emptied the queue and returned every chain exactly
  once, and each of its calls fills a buffer with the bytes of the random source, in order, and
  reports their number.
\<close>

theorem rng_serves_queue:
  assumes "fills_buffer gen" "driver_ok mm h q cs" "length cs < fuel"
    and "\<forall>c \<in> set cs. accepted 0 mm h c"
  shows "(\<exists>q' h' s'. rng_process_virtio_queues env fuel gen mm q h s = Some (Some (q', h', s')) \<and>
      queue_len mm h' q' = Some 0 \<and> q_next_used q' = q_next_used q + of_nat (length cs)) \<and>
    (\<forall>c \<in> set cs. \<forall>r bs.
      let A = chain_addrs (writable (chain_iter mm h c))
      in A \<noteq> [] \<and> snd (gen r (length A)) = Some bs \<longrightarrow>
         (\<exists>h1. rng_handle gen mm c q h r =
              return_chain mm c (of_nat (length A)) q h1 (fst (gen r (length A))) \<and>
            guest_view mm h1 = view_poke (guest_view mm h) (zip A bs)))"
proof (intro conjI ballI allI)
  obtain n where n: "fuel = Suc n" using assms(3) by (cases fuel) auto
  show "\<exists>q' h' s'. rng_process_virtio_queues env fuel gen mm q h s = Some (Some (q', h', s')) \<and>
      queue_len mm h' q' = Some 0 \<and> q_next_used q' = q_next_used q + of_nat (length cs)"
    using rng.event_returns_all [OF assms, where finish = "finish_batch env mm" and n = n and s = s,
        OF finish_batch_done] n
    unfolding rng_process_virtio_queues_def rng_process_queue_def by blast
next
  fix c r bs
  assume c: "c \<in> set cs"
  have wf: "mm_wf mm" using assms(2) by (simp add: driver_ok_def)
  define A where "A = chain_addrs (writable (chain_iter mm h c))"
  have t: "0 < dc_ttl c" by (rule driver_ok_ttl [OF assms(2) c])
  have m: "\<forall>d \<in> set (writable (chain_iter mm h c)). mapped mm d"
    using assms(4) c set_writable by (auto simp: accepted_def)
  obtain len h1 where "rng_handle gen mm c q h r = return_chain mm c len q h1
      (if A = [] then r else fst (gen r (length A)))"
    "\<forall>r' bs. A \<noteq> [] \<and> gen r (length A) = (r', Some bs) \<longrightarrow>
       len = of_nat (length A) \<and> guest_view mm h1 = view_poke (guest_view mm h) (zip A bs)"
    by (rule rng_handle_mapped [OF assms(1) wf t m, of q r, folded A_def]) (rule that, assumption+)
  then have "A \<noteq> [] \<and> snd (gen r (length A)) = Some bs \<longrightarrow>
      (\<exists>h1. rng_handle gen mm c q h r =
           return_chain mm c (of_nat (length A)) q h1 (fst (gen r (length A))) \<and>
         guest_view mm h1 = view_poke (guest_view mm h) (zip A bs))"
    by (cases "gen r (length A)") auto
  then show "let A = chain_addrs (writable (chain_iter mm h c))
      in A \<noteq> [] \<and> snd (gen r (length A)) = Some bs \<longrightarrow>
         (\<exists>h1. rng_handle gen mm c q h r =
              return_chain mm c (of_nat (length A)) q h1 (fst (gen r (length A))) \<and>
            guest_view mm h1 = view_poke (guest_view mm h) (zip A bs))"
    by (simp only: A_def Let_def)
qed

text \<open>A random source that counts.\<close>

definition demo_random :: "nat random_source" where
  "demo_random r n = (r + n, Some (map (\<lambda>i. of_nat (r + i)) [0..<n]))"

theorem rng_serves_queue_witness:
  "\<exists>q' h' s'. rng_process_virtio_queues demo_env 2 demo_random demo_mm demo_queue demo_heap (0, demo_link) =
      Some (Some (q', h', s')) \<and>
    queue_len demo_mm h' q' = Some 0 \<and> q_next_used q' = 1"
proof -
  have f: "fills_buffer demo_random" by (simp add: fills_buffer_def demo_random_def)
  have u: "q_next_used demo_queue = 0" by (simp add: demo_queue_def)
  show ?thesis
    using rng_serves_queue [OF f demo_driver_ok, of 2 demo_env "(0, demo_link)"] demo_accepted u
    by simp
qed

end
