(* ===== verification/Block_Worker.thy ===== *)
theory Block_Worker
  imports Worker
begin

text \<open>
  The block device's worker (\<^verbatim>\<open>src/devices/virtio/block/worker.rs\<close>) and the disk access it uses
  (\<^verbatim>\<open>impl FileReadWriteAtVolatile for DiskProperties\<close> in \<^verbatim>\<open>src/devices/file_traits.rs\<close>).

  The disk image belongs to the imago library: its operations are the fields of \<open>disk_ops\<close>, on a
  state \<open>'f\<close>.  The constants of \<^verbatim>\<open>virtio_bindings\<close> are the fields of \<open>blk_bits\<close>.
\<close>

section \<open>Requests\<close>

datatype request_error =
    Discarding io_error
  | DiscardingToZero io_error
  | FlushingToDisk io_error
  | InvalidDataLength
  | ReadingFromDescriptor io_error
  | WritingToDescriptor io_error
  | WritingZeroes io_error
  | UnknownRequest

record request_header =
  rh_request_type :: u32
  rh_reserved :: u32
  rh_sector :: u64

definition request_header_of_bytes :: "u8 list \<Rightarrow> request_header" where
  "request_header_of_bytes bs =
     \<lparr>rh_request_type = from_le (take 4 bs), rh_reserved = from_le (take 4 (drop 4 bs)),
      rh_sector = from_le (take 8 (drop 8 bs))\<rparr>"

record discard_write_data =
  dw_sector :: u64
  dw_num_sectors :: u32
  dw_flags :: u32

definition discard_write_data_of_bytes :: "u8 list \<Rightarrow> discard_write_data" where
  "discard_write_data_of_bytes bs =
     \<lparr>dw_sector = from_le (take 8 bs), dw_num_sectors = from_le (take 4 (drop 8 bs)),
      dw_flags = from_le (take 4 (drop 12 bs))\<rparr>"

record blk_bits =
  VIRTIO_BLK_T_IN :: u32
  VIRTIO_BLK_T_OUT :: u32
  VIRTIO_BLK_T_FLUSH :: u32
  VIRTIO_BLK_T_GET_ID :: u32
  VIRTIO_BLK_T_DISCARD :: u32
  VIRTIO_BLK_T_WRITE_ZEROES :: u32
  VIRTIO_BLK_WRITE_ZEROES_FLAG_UNMAP :: u32
  VIRTIO_BLK_S_OK :: u32
  VIRTIO_BLK_S_IOERR :: u32

record 'f disk_ops =
  op_readv :: "volatile_slice list \<Rightarrow> u64 \<Rightarrow> 'f \<Rightarrow> heap \<Rightarrow> 'f \<times> heap \<times> (io_error, unit) result"
  op_writev :: "volatile_slice list \<Rightarrow> u64 \<Rightarrow> 'f \<Rightarrow> heap \<Rightarrow> 'f \<times> (io_error, unit) result"
  op_flush :: "'f \<Rightarrow> 'f \<times> (io_error, unit) result"
  op_sync :: "'f \<Rightarrow> 'f \<times> (io_error, unit) result"
  op_discard_to_any :: "u64 \<Rightarrow> u64 \<Rightarrow> 'f \<Rightarrow> 'f \<times> (io_error, unit) result"
  op_discard_to_zero :: "u64 \<Rightarrow> u64 \<Rightarrow> 'f \<Rightarrow> 'f \<times> (io_error, unit) result"
  op_write_zeroes :: "u64 \<Rightarrow> u64 \<Rightarrow> 'f \<Rightarrow> 'f \<times> (io_error, unit) result"

section \<open>Disk access\<close>

definition iovec_len :: "volatile_slice list \<Rightarrow> nat" where
  "iovec_len bufs = sum_list (map vs_len bufs)"

definition disk_read_vectored_at_volatile ::
  "'f disk_ops \<Rightarrow> volatile_slice list \<Rightarrow> u64 \<Rightarrow> 'f \<times> heap \<Rightarrow> ('f \<times> heap) \<times> (io_error, nat) result" where
  "disk_read_vectored_at_volatile ops bufs offset s =
     (if bufs = [] then (s, Ok 0)
      else let full_length = iovec_len bufs
           in case op_readv ops bufs offset (fst s) (snd s) of
                (f, h, Err e) \<Rightarrow> ((f, h), Err e)
              | (f, h, Ok _) \<Rightarrow> ((f, h), Ok full_length))"

definition disk_write_vectored_at_volatile ::
  "'f disk_ops \<Rightarrow> volatile_slice list \<Rightarrow> u64 \<Rightarrow> 'f \<times> heap \<Rightarrow> ('f \<times> heap) \<times> (io_error, nat) result" where
  "disk_write_vectored_at_volatile ops bufs offset s =
     (if bufs = [] then (s, Ok 0)
      else let full_length = iovec_len bufs
           in case op_writev ops bufs offset (fst s) (snd s) of
                (f, Err e) \<Rightarrow> ((f, snd s), Err e)
              | (f, Ok _) \<Rightarrow> ((f, snd s), Ok full_length))"

definition disk_read_at_volatile ::
  "'f disk_ops \<Rightarrow> volatile_slice \<Rightarrow> u64 \<Rightarrow> 'f \<times> heap \<Rightarrow> ('f \<times> heap) \<times> (io_error, nat) result" where
  "disk_read_at_volatile ops sl offset s = disk_read_vectored_at_volatile ops [sl] offset s"

definition disk_write_at_volatile ::
  "'f disk_ops \<Rightarrow> volatile_slice \<Rightarrow> u64 \<Rightarrow> 'f \<times> heap \<Rightarrow> ('f \<times> heap) \<times> (io_error, nat) result" where
  "disk_write_at_volatile ops sl offset s = disk_write_vectored_at_volatile ops [sl] offset s"

section \<open>Processing a request\<close>

type_synonym 'f request_outcome =
  "reader \<times> writer \<times> heap \<times> 'f \<times> (request_error, nat) result"

definition request_in ::
  "'f disk_ops \<Rightarrow> u64 \<Rightarrow> reader \<Rightarrow> writer \<Rightarrow> heap \<Rightarrow> 'f \<Rightarrow> 'f request_outcome panics" where
  "request_in ops sector r w h f =
     (let data_len = of_nat (available_bytes w) - 1 :: usize
      in if unat data_len mod 512 \<noteq> 0 then Some (r, w, h, f, Err InvalidDataLength)
         else case write_from_at (disk_read_vectored_at_volatile ops) w (unat data_len) (sector * 512) (f, h) of
           None \<Rightarrow> None
         | Some (w', (f', h'), res) \<Rightarrow> Some (r, w', h', f', map_err WritingToDescriptor res))"

definition request_out ::
  "'f disk_ops \<Rightarrow> u64 \<Rightarrow> reader \<Rightarrow> writer \<Rightarrow> heap \<Rightarrow> 'f \<Rightarrow> 'f request_outcome panics" where
  "request_out ops sector r w h f =
     (let data_len = available_bytes r
      in if data_len mod 512 \<noteq> 0 then Some (r, w, h, f, Err InvalidDataLength)
         else case read_to_at (disk_write_vectored_at_volatile ops) r data_len (sector * 512) (f, h) of
           None \<Rightarrow> None
         | Some (r', (f', h'), res) \<Rightarrow> Some (r', w, h', f', map_err ReadingFromDescriptor res))"

definition request_flush :: "'f disk_ops \<Rightarrow> cache_type \<Rightarrow> 'f \<Rightarrow> 'f \<times> (request_error, nat) result" where
  "request_flush ops cache f =
     (case cache of
        Writeback \<Rightarrow>
          (case op_flush ops f of
             (f1, Err e) \<Rightarrow> (f1, Err (FlushingToDisk e))
           | (f1, Ok _) \<Rightarrow>
               (case op_sync ops f1 of
                  (f2, Err e) \<Rightarrow> (f2, Err (FlushingToDisk e))
                | (f2, Ok _) \<Rightarrow> (f2, Ok 0)))
      | Unsafe \<Rightarrow> (f, Ok 0))"

definition request_get_id ::
  "u8 list \<Rightarrow> reader \<Rightarrow> writer \<Rightarrow> heap \<Rightarrow> 'f \<Rightarrow> 'f request_outcome panics" where
  "request_get_id disk_id r w h f =
     (let data_len = available_bytes w
      in if data_len < length disk_id then Some (r, w, h, f, Err InvalidDataLength)
         else case write_all h w disk_id of
           None \<Rightarrow> None
         | Some (w', h', Err e) \<Rightarrow> Some (r, w', h', f, Err (WritingToDescriptor e))
         | Some (w', h', Ok _) \<Rightarrow> Some (r, w', h', f, Ok (length disk_id)))"

text \<open>Discarding and zeroing: \<open>op\<close> is chosen from the flags of the segment.\<close>

definition request_segment ::
  "(discard_write_data \<Rightarrow> 'f \<Rightarrow> 'f \<times> (request_error, unit) result) \<Rightarrow>
   reader \<Rightarrow> writer \<Rightarrow> heap \<Rightarrow> 'f \<Rightarrow> 'f request_outcome panics" where
  "request_segment op r w h f =
     (case reader_read_obj 16 discard_write_data_of_bytes h r of
        None \<Rightarrow> None
      | Some (r', Err e) \<Rightarrow> Some (r', w, h, f, Err (ReadingFromDescriptor e))
      | Some (r', Ok data) \<Rightarrow>
          (case op data f of
             (f', Err e) \<Rightarrow> Some (r', w, h, f', Err e)
           | (f', Ok _) \<Rightarrow> Some (r', w, h, f', Ok 0)))"

definition segment_bytes :: "discard_write_data \<Rightarrow> u64" where
  "segment_bytes d = ucast (dw_num_sectors d) * 512"

definition discard_segment :: "'f disk_ops \<Rightarrow> discard_write_data \<Rightarrow> 'f \<Rightarrow> 'f \<times> (request_error, unit) result"
where
  "discard_segment ops d f =
     (case op_discard_to_any ops (dw_sector d * 512) (segment_bytes d) f of
        (f', res) \<Rightarrow> (f', map_err Discarding res))"

definition write_zeroes_segment ::
  "blk_bits \<Rightarrow> 'f disk_ops \<Rightarrow> discard_write_data \<Rightarrow> 'f \<Rightarrow> 'f \<times> (request_error, unit) result" where
  "write_zeroes_segment bb ops d f =
     (let unmap = dw_flags d AND VIRTIO_BLK_WRITE_ZEROES_FLAG_UNMAP bb \<noteq> 0
      in if unmap then
           (case op_discard_to_zero ops (dw_sector d * 512) (segment_bytes d) f of
              (f', res) \<Rightarrow> (f', map_err DiscardingToZero res))
         else
           (case op_write_zeroes ops (dw_sector d * 512) (segment_bytes d) f of
              (f', res) \<Rightarrow> (f', map_err WritingZeroes res)))"

definition process_request ::
  "blk_bits \<Rightarrow> 'f disk_ops \<Rightarrow> disk_properties \<Rightarrow> request_header \<Rightarrow> reader \<Rightarrow> writer \<Rightarrow> heap \<Rightarrow> 'f \<Rightarrow>
   'f request_outcome panics" where
  "process_request bb ops disk hdr r w h f =
     (let t = rh_request_type hdr
      in if t = VIRTIO_BLK_T_IN bb then request_in ops (rh_sector hdr) r w h f
         else if t = VIRTIO_BLK_T_OUT bb then request_out ops (rh_sector hdr) r w h f
         else if t = VIRTIO_BLK_T_FLUSH bb then
           (case request_flush ops (dp_cache_type disk) f of (f', res) \<Rightarrow> Some (r, w, h, f', res))
         else if t = VIRTIO_BLK_T_GET_ID bb then request_get_id (dp_image_id disk) r w h f
         else if t = VIRTIO_BLK_T_DISCARD bb then request_segment (discard_segment ops) r w h f
         else if t = VIRTIO_BLK_T_WRITE_ZEROES bb then request_segment (write_zeroes_segment bb ops) r w h f
         else Some (r, w, h, f, Err UnknownRequest))"

section \<open>The worker\<close>

definition u8_try_from :: "u32 \<Rightarrow> u8 panics" where
  "u8_try_from x = (if unat x < 256 then Some (ucast x) else None)"

text \<open>The end of a round: the status byte, then the chain is returned.\<close>

definition finish_request ::
  "blk_bits \<Rightarrow> memory_manager \<Rightarrow> descriptor_chain \<Rightarrow> queue \<Rightarrow> 'f request_outcome panics \<Rightarrow>
   (queue \<times> heap \<times> 'f \<times> bool) panics" where
  "finish_request bb mm head q out =
     (case out of
        None \<Rightarrow> None
      | Some (_, w, h, f, res) \<Rightarrow>
          let (code, len) = (case res of Ok l \<Rightarrow> (VIRTIO_BLK_S_OK bb, l) | Err _ \<Rightarrow> (VIRTIO_BLK_S_IOERR bb, 0))
          in case u8_try_from code of
               None \<Rightarrow> None
             | Some status \<Rightarrow>
                 (case writer_write_obj (\<lambda>b. [b]) h w status of
                    None \<Rightarrow> None
                  | Some (_, h', _) \<Rightarrow> return_chain mm head (of_nat (len + 1)) q h' f))"

type_synonym 'f block_params = "blk_bits \<times> 'f disk_ops \<times> disk_properties"

definition block_handle :: "'f block_params \<Rightarrow> memory_manager \<Rightarrow> 'f handler" where
  "block_handle p mm head q h f =
     (case p of (bb, ops, disk) \<Rightarrow>
      case reader_new mm h head of
        None \<Rightarrow> None
      | Some (Err _) \<Rightarrow> Some (q, h, f, False)
      | Some (Ok r) \<Rightarrow>
      (case writer_new mm h head of
        None \<Rightarrow> None
      | Some (Err _) \<Rightarrow> Some (q, h, f, False)
      | Some (Ok w) \<Rightarrow>
      (case reader_read_obj 16 request_header_of_bytes h r of
        None \<Rightarrow> None
      | Some (_, Err _) \<Rightarrow> Some (q, h, f, False)
      | Some (r1, Ok hdr) \<Rightarrow>
          finish_request bb mm head q (process_request bb ops disk hdr r1 w h f))))"

definition block_process_queue ::
  "mmio_env \<Rightarrow> nat \<Rightarrow> 'f block_params \<Rightarrow> memory_manager \<Rightarrow> queue \<Rightarrow> heap \<Rightarrow> 'f \<times> irq_link \<Rightarrow>
   (queue \<times> heap \<times> 'f \<times> irq_link) panics option" where
  "block_process_queue env fuel p mm =
     process_batch (finish_batch env mm) fuel mm (block_handle p mm)"

definition block_process_virtio_queues where
  "block_process_virtio_queues env fuel p mm =
     process_virtio_queues fuel mm (block_process_queue env fuel p mm)"

section \<open>Handlers are safe\<close>

lemma consume_select_prefix: "\<exists>k. consume_select count b bufs = take k bufs"
proof (induction count b bufs rule: consume_select.induct)
  case (1 count b)
  then show ?case by simp
next
  case (2 count b vs bufs)
  show ?case
  proof (cases "count \<le> b")
    case True
    then show ?thesis by (auto intro: exI [of _ 0])
  next
    case False
    then obtain k where "consume_select count
        (if count - b < vs_len vs then b + (count - b) else b + vs_len vs) bufs = take k bufs"
      using 2 by blast
    then show ?thesis using False by (auto simp: Let_def intro!: exI [of _ "Suc k"])
  qed
qed

lemma length_flat_select:
  "length (flat (consume_select count 0 bufs)) \<le> length (flat bufs)"
  "set (flat (consume_select count 0 bufs)) \<subseteq> set (flat bufs)"
proof -
  obtain k where k: "consume_select count 0 bufs = take k bufs" using consume_select_prefix by blast
  have "flat bufs = flat (take k bufs) @ flat (drop k bufs)" by (simp flip: flat_append)
  then show "length (flat (consume_select count 0 bufs)) \<le> length (flat bufs)"
    "set (flat (consume_select count 0 bufs)) \<subseteq> set (flat bufs)"
    unfolding k by (metis length_append le_add1, metis set_append Un_upper1)
qed

text \<open>Consuming with a closure that never reports more than it was given.\<close>

lemma consume_total:
  assumes "consumer_ok c" "\<And>bufs s s' n. f bufs s = (s', Ok n) \<Longrightarrow> n \<le> length (flat bufs)"
  obtains c' s' res n where "consume c count f s = Some (c', s', res)" "consumer_ok c'"
    "pending_addrs c' = drop n (pending_addrs c)"
    "s' = s \<or> s' = fst (f (consume_select count 0 (cs_buffers c)) s)"
proof (cases "consume_select count 0 (cs_buffers c) = []")
  case True
  then show ?thesis using that [of c s "Ok 0" 0] assms(1) by (simp add: consume_def)
next
  case False
  obtain s' res where f: "f (consume_select count 0 (cs_buffers c)) s = (s', res)" by fastforce
  show ?thesis
  proof (cases res)
    case (Err e)
    then show ?thesis using that [of c s' "Err e" 0] assms(1) False f by (simp add: consume_def)
  next
    case (Ok n)
    have "n \<le> length (pending_addrs c)"
      using assms(2) f Ok length_flat_select(1) [of count "cs_buffers c"]
      unfolding pending_addrs_def by fastforce
    then obtain c' where "consume c count f s = Some (c', s', Ok n)" "consumer_ok c'"
      "pending_addrs c' = drop n (pending_addrs c)"
      using consume_Ok [OF assms(1) False] f Ok by metis
    then show ?thesis using that f by simp
  qed
qed

lemma heap_frame_view:
  assumes "mm_wf mm" "list_all2 (backs mm) xs as" "\<And>x. x \<notin> set xs \<Longrightarrow> h' x = h x"
  shows "same_view mm (- set as) h h'"
  unfolding same_view_def
proof
  fix a
  assume a: "a \<in> - set as"
  have "host_addr r p a \<notin> set xs" if r: "find_region mm a = Some r" "rg_hpa r = Some p" for r p
  proof
    assume "host_addr r p a \<in> set xs"
    then obtain b where b: "b \<in> set as" "backs mm (host_addr r p a) b"
      using assms(2) by (metis in_set_conv_nth list_all2_conv_all_nth)
    then have "a = b" using host_addr_inj [OF assms(1) r] by (auto simp: backs_def)
    with a b(1) show False by simp
  qed
  then show "guest_view mm h' a = guest_view mm h a"
    using assms(3) by (auto simp: guest_view_def split: option.split)
qed

text \<open>
  What is assumed of the library: reading from the image writes only to the buffers it is given.
\<close>

definition readv_frame :: "'f disk_ops \<Rightarrow> bool" where
  "readv_frame ops \<longleftrightarrow>
     (\<forall>bufs off f h f' h' res. op_readv ops bufs off f h = (f', h', res) \<longrightarrow>
        (\<forall>a. a \<notin> set (flat bufs) \<longrightarrow> h' a = h a))"

fun block_legal :: "'f block_params \<Rightarrow> bool" where
  "block_legal (bb, ops, disk) \<longleftrightarrow>
     readv_frame ops \<and> unat (VIRTIO_BLK_S_OK bb) < 256 \<and> unat (VIRTIO_BLK_S_IOERR bb) < 256"

lemma iovec_len_flat: "iovec_len bufs = length (flat bufs)"
  by (simp add: iovec_len_def length_flat)

lemma disk_read_len:
  "disk_read_vectored_at_volatile ops bufs off s = (s', Ok n) \<Longrightarrow> n \<le> length (flat bufs)"
  by (auto simp: disk_read_vectored_at_volatile_def iovec_len_flat Let_def
      split: if_splits prod.splits result.splits)

lemma disk_write_len:
  "disk_write_vectored_at_volatile ops bufs off s = (s', Ok n) \<Longrightarrow> n \<le> length (flat bufs) \<and> snd s' = snd s"
  by (auto simp: disk_write_vectored_at_volatile_def iovec_len_flat Let_def
      split: if_splits prod.splits result.splits)

lemma disk_write_heap: "snd (fst (disk_write_vectored_at_volatile ops bufs off s)) = snd s"
  by (auto simp: disk_write_vectored_at_volatile_def Let_def split: prod.splits result.splits)

lemma disk_read_frame:
  "readv_frame ops \<Longrightarrow> a \<notin> set (flat bufs) \<Longrightarrow>
   snd (fst (disk_read_vectored_at_volatile ops bufs off s)) a = snd s a"
  by (cases "op_readv ops bufs off (fst s) (snd s)")
    (fastforce simp: disk_read_vectored_at_volatile_def Let_def readv_frame_def split: result.splits)

text \<open>The outcome of a request that keeps to its buffers: what the writer has left is a suffix.\<close>

definition stays_inside ::
  "memory_manager \<Rightarrow> guest_address list \<Rightarrow> writer \<Rightarrow> heap \<Rightarrow> 'f request_outcome panics \<Rightarrow> bool" where
  "stays_inside mm as w h out \<longleftrightarrow>
     (\<exists>r' w' h' f' res n. out = Some (r', w', h', f', res) \<and> consumer_ok w' \<and>
        pending_addrs w' = drop n (pending_addrs w) \<and> same_view mm (- set as) h h')"

lemma stays_insideI:
  "consumer_ok w' \<Longrightarrow> pending_addrs w' = drop n (pending_addrs w) \<Longrightarrow> same_view mm (- set as) h h' \<Longrightarrow>
   stays_inside mm as w h (Some (r', w', h', f', res))"
  by (auto simp: stays_inside_def)

lemma contained_same:
  "consumer_ok w \<Longrightarrow> stays_inside mm as w h (Some (r', w, h, f', res))"
  by (rule stays_insideI [where n = 0]) simp_all

lemma request_in_contained:
  assumes "mm_wf mm" "consumer_ok w" "list_all2 (backs mm) (pending_addrs w) as" "readv_frame ops"
  shows "stays_inside mm as w h (request_in ops sector r w h f)"
proof -
  let ?n = "unat (of_nat (available_bytes w) - 1 :: usize)"
  let ?op = "\<lambda>bufs. disk_read_vectored_at_volatile ops bufs (sector * 512)"
  obtain w' s' res n where c: "consume w ?n ?op (f, h) = Some (w', s', res)" "consumer_ok w'"
    "pending_addrs w' = drop n (pending_addrs w)"
    "s' = (f, h) \<or> s' = fst (?op (consume_select ?n 0 (cs_buffers w)) (f, h))"
    by (rule consume_total [where f = ?op, OF assms(2), where count = ?n and s = "(f, h)"])
      (erule disk_read_len, rule that, assumption+)
  have "snd s' x = h x" if "x \<notin> set (pending_addrs w)" for x
    using c(4) that length_flat_select(2) [of ?n "cs_buffers w"]
      disk_read_frame [OF assms(4), of x "consume_select ?n 0 (cs_buffers w)" "sector * 512" "(f, h)"]
    by (auto simp: pending_addrs_def)
  then have "same_view mm (- set as) h (snd s')" by (rule heap_frame_view [OF assms(1,3)])
  then have "stays_inside mm as w h (Some (r, w', snd s', fst s', map_err WritingToDescriptor res))"
    using stays_insideI c(2,3) by metis
  then show ?thesis
    using contained_same [OF assms(2)] c(1)
    by (auto simp: request_in_def write_from_at_def Let_def split: prod.splits)
qed

lemma request_out_contained:
  assumes "consumer_ok r" "consumer_ok w"
  shows "stays_inside mm as w h (request_out ops sector r w h f)"
proof -
  let ?op = "\<lambda>bufs. disk_write_vectored_at_volatile ops bufs (sector * 512)"
  obtain r' s' res where c: "consume r (available_bytes r) ?op (f, h) = Some (r', s', res)"
    "s' = (f, h) \<or> s' = fst (?op (consume_select (available_bytes r) 0 (cs_buffers r)) (f, h))"
    by (rule consume_total [where f = ?op, OF assms(1), where count = "available_bytes r" and s = "(f, h)"])
      (erule disk_write_len [THEN conjunct1], rule that, assumption+)
  then have "snd s' = h" using disk_write_heap [of ops _ _ "(f, h)"] by auto
  then show ?thesis
    using contained_same [OF assms(2)] c(1)
    by (auto simp: request_out_def read_to_at_def Let_def split: prod.splits)
qed

lemma request_get_id_contained:
  assumes "mm_wf mm" "consumer_ok w" "list_all2 (backs mm) (pending_addrs w) as"
  shows "stays_inside mm as w h (request_get_id disk_id r w h f)"
proof -
  obtain w' where w': "write_all h w disk_id = Some (w', poke h (zip (pending_addrs w) disk_id),
      if length disk_id \<le> length (pending_addrs w) then Ok () else Err WriteZero)"
    "consumer_ok w'" "pending_addrs w' = drop (length disk_id) (pending_addrs w)"
    using write_all_spec [OF assms(2)] by metis
  have "stays_inside mm as w h (Some (r, w', poke h (zip (pending_addrs w) disk_id), f, res))" for res
    using stays_insideI [OF w'(2,3) poke_same_view [OF assms(1,3)]] .
  then show ?thesis
    using contained_same [OF assms(2)] w'(1) by (auto simp: request_get_id_def Let_def)
qed

lemma request_segment_contained:
  assumes "consumer_ok r" "consumer_ok w"
  shows "stays_inside mm as w h (request_segment op r w h f)"
proof -
  obtain r' where "read_exact h r 16 = Some (r', if 16 \<le> length (pending_addrs r)
      then Ok (map h (take 16 (pending_addrs r))) else Err UnexpectedEof)"
    using read_exact_spec [OF assms(1)] by metis
  then show ?thesis
    using contained_same [OF assms(2)]
    by (auto simp: request_segment_def reader_read_obj_def split: prod.splits result.splits)
qed

lemma process_request_contained:
  assumes "mm_wf mm" "consumer_ok r" "consumer_ok w" "list_all2 (backs mm) (pending_addrs w) as"
    and "readv_frame ops"
  shows "stays_inside mm as w h (process_request bb ops disk hdr r w h f)"
  by (cases "request_flush ops (dp_cache_type disk) f")
    (simp add: process_request_def Let_def request_in_contained [OF assms(1,3,4,5)]
      request_out_contained [OF assms(2,3)] request_get_id_contained [OF assms(1,3,4)]
      request_segment_contained [OF assms(2,3)] contained_same [OF assms(3)])

lemma finish_request_ok:
  assumes "mm_wf mm" "list_all2 (backs mm) (pending_addrs w) as" "stays_inside mm as w h out"
    and "unat (VIRTIO_BLK_S_OK bb) < 256" "unat (VIRTIO_BLK_S_IOERR bb) < 256"
  obtains len h' f' where "finish_request bb mm c q out = return_chain mm c len q h' f'"
    "same_view mm (- set as) h h'"
proof -
  obtain r2 w2 h2 f2 res n where o: "out = Some (r2, w2, h2, f2, res)" "consumer_ok w2"
    "pending_addrs w2 = drop n (pending_addrs w)" "same_view mm (- set as) h h2"
    using assms(3) by (auto simp: stays_inside_def)
  define code where "code = (case res of Ok l \<Rightarrow> VIRTIO_BLK_S_OK bb | Err _ \<Rightarrow> VIRTIO_BLK_S_IOERR bb)"
  define len where "len = (case res of Ok l \<Rightarrow> l | Err _ \<Rightarrow> 0)"
  have cl: "(case res of Ok l \<Rightarrow> (VIRTIO_BLK_S_OK bb, l) | Err _ \<Rightarrow> (VIRTIO_BLK_S_IOERR bb, 0)) = (code, len)"
    by (simp add: code_def len_def split: result.split)
  have st: "u8_try_from code = Some (ucast code)"
    using assms(4,5) by (simp add: u8_try_from_def code_def split: result.split)
  have "list_all2 (backs mm) (pending_addrs w2) (drop n as)"
    using list_all2_dropI [OF assms(2)] o(3) by simp
  then obtain w3 h3 where h3: "write_all h2 w2 [ucast code] = Some (w3, h3,
      if length [ucast code :: u8] \<le> length (drop n as) then Ok () else Err WriteZero)"
    "same_view mm (- set (drop n as)) h2 h3"
    using write_all_same_view [OF assms(1) o(2)] by metis
  have "same_view mm (- set as) h2 h3"
    by (rule same_view_mono [OF h3(2)]) (auto dest: in_set_dropD)
  then have "same_view mm (- set as) h h3" using same_view_trans [OF o(4)] by blast
  then show thesis
    by (rule that [rotated]) (simp add: finish_request_def o(1) cl st writer_write_obj_def h3(1))
qed

lemma block_handle_request:
  assumes "reader_new mm h c = Some (Ok r)" "consumer_ok r" "writer_new mm h c = Some (Ok w)"
    and "16 \<le> length (pending_addrs r)"
  obtains r1 where "consumer_ok r1" "pending_addrs r1 = drop 16 (pending_addrs r)"
    "block_handle (bb, ops, disk) mm c q h f = finish_request bb mm c q (process_request bb ops disk
       (request_header_of_bytes (map h (take 16 (pending_addrs r)))) r1 w h f)"
proof -
  obtain r1 where "read_exact h r 16 = Some (r1, Ok (map h (take 16 (pending_addrs r))))"
    "consumer_ok r1" "pending_addrs r1 = drop 16 (pending_addrs r)"
    using read_exact_spec [OF assms(2), of h 16] assms(4) by (auto split: if_splits)
  then show thesis using that assms(1,3) by (simp add: block_handle_def reader_read_obj_def)
qed

lemma block_handle_short:
  assumes "reader_new mm h c = Some (Ok r)" "consumer_ok r" "writer_new mm h c = Some (Ok w)"
    and "\<not> 16 \<le> length (pending_addrs r)"
  shows "block_handle p mm c q h f = Some (q, h, f, False)"
proof -
  obtain r1 where "read_exact h r 16 = Some (r1, Err UnexpectedEof)"
    using read_exact_spec [OF assms(2), of h 16] assms(4) by (auto split: if_splits)
  then show ?thesis using assms(1,3) by (cases p) (simp add: block_handle_def reader_read_obj_def)
qed

text \<open>What a round does: skip the chain, or work inside its buffers and return it.\<close>

lemma block_handle_cases:
  assumes "block_legal p" "mm_wf mm" "0 < dc_ttl c"
  obtains (skipped) "block_handle p mm c q h f = Some (q, h, f, False)" "\<not> accepted 16 mm h c"
    | (returned) len h1 f1 where "block_handle p mm c q h f = return_chain mm c len q h1 f1"
      "same_view mm (- write_area mm h c) h h1"
  using assms(2,3)
proof (cases rule: reader_new_cases [of mm c h])
  case (err e)
  then have "\<not> accepted 16 mm h c" using set_readable by (auto simp: accepted_def)
  then show ?thesis using that(1) err(1) by (cases p) (simp add: block_handle_def)
next
  case r: (ok r)
  show ?thesis
    using assms(2,3)
  proof (cases rule: writer_new_cases [of mm c h])
    case (err e)
    then have "\<not> accepted 16 mm h c" using set_writable by (auto simp: accepted_def)
    then show ?thesis using that(1) r(1) err(1) by (cases p) (simp add: block_handle_def)
  next
    case w: (ok w)
    obtain bb ops disk where p: "p = (bb, ops, disk)" by (cases p)
    show ?thesis
    proof (cases "16 \<le> length (pending_addrs r)")
      case False
      then have "\<not> accepted 16 mm h c"
        using list_all2_lengthD [OF r(3)] by (simp add: accepted_def)
      then show ?thesis using that(1) block_handle_short [OF r(1,2) w(1) False] by metis
    next
      case True
      obtain r1 where r1: "consumer_ok r1" "block_handle p mm c q h f = finish_request bb mm c q
          (process_request bb ops disk (request_header_of_bytes (map h (take 16 (pending_addrs r)))) r1 w h f)"
        using block_handle_request [OF r(1,2) w(1) True] p by metis
      have "stays_inside mm (chain_addrs (writable (chain_iter mm h c))) w h (process_request bb ops disk
          (request_header_of_bytes (map h (take 16 (pending_addrs r)))) r1 w h f)"
        by (rule process_request_contained [OF assms(2) r1(1) w(2,3)]) (use assms(1) p in simp)
      from finish_request_ok [OF assms(2) w(3) this, of bb c q] that(2) assms(1) p r1(2)
      show ?thesis unfolding write_area_def by auto
    qed
  qed
qed

interpretation blk: chain_handler block_legal 16 block_handle
proof unfold_locales
  fix p :: "'f block_params" and mm and c :: descriptor_chain and q h s
  assume a: "block_legal p" "mm_wf mm" "0 < dc_ttl c"
  show "block_handle p mm c q h s \<noteq> None"
    by (rule block_handle_cases [OF a, of q h s]) (use return_chain_total in auto)
next
  fix p :: "'f block_params" and mm and c :: descriptor_chain and q h s q' h' s' u
  assume a: "block_legal p" "mm_wf mm" "0 < dc_ttl c" and us: "used_ok mm q"
    and r: "block_handle p mm c q h s = Some (q', h', s', u)"
  show "used_moved q q' \<and> same_view mm (- (ring_area q \<union> write_area mm h c)) h h'"
    using a
  proof (cases rule: block_handle_cases [of p mm c q h s])
    case skipped
    then show ?thesis using r by simp
  next
    case (returned len h1 f1)
    then show ?thesis using r return_after_write [OF a(2) us] by metis
  qed
next
  fix p :: "'f block_params" and mm and c :: descriptor_chain and q h s q' h' s' u
  assume a: "block_legal p" "mm_wf mm" "0 < dc_ttl c" and us: "used_ok mm q"
    and acc: "accepted 16 mm h c" "dc_index c < q_size q"
    and r: "block_handle p mm c q h s = Some (q', h', s', u)"
  show "q_next_used q' = q_next_used q + 1 \<and> u"
    using a
  proof (cases rule: block_handle_cases [of p mm c q h s])
    case skipped
    then show ?thesis using acc(1) by simp
  next
    case (returned len h1 f1)
    then show ?thesis using r acc(2) return_chain_Some(4,5) [OF a(2) us] by metis
  qed
qed

section \<open>Reading and writing sectors\<close>

text \<open>
  What the library documents of an image whose contents are \<open>content f\<close>: inside the image,
  \<^verbatim>\<open>readv\<close> fills the buffers with its bytes and \<^verbatim>\<open>writev\<close> replaces them.
\<close>

definition overwrite :: "u8 list \<Rightarrow> nat \<Rightarrow> u8 list \<Rightarrow> u8 list" where
  "overwrite c off bs = take off c @ bs @ drop (off + length bs) c"

definition disk_image :: "'f disk_ops \<Rightarrow> ('f \<Rightarrow> u8 list) \<Rightarrow> bool" where
  "disk_image ops content \<longleftrightarrow>
     (\<forall>bufs off f h. unat off + length (flat bufs) \<le> length (content f) \<longrightarrow>
        op_readv ops bufs off f h =
          (f, poke h (zip (flat bufs) (drop (unat off) (content f))), Ok ()) \<and>
        (\<exists>f'. op_writev ops bufs off f h = (f', Ok ()) \<and>
              content f' = overwrite (content f) (unat off) (map h (flat bufs))))"

lemma get_slice_len: "get_slice r off n = Ok vs \<Longrightarrow> vs_len vs = unat n"
  by (auto simp: get_slice_def split: if_splits option.splits)

lemma collect_slices_lens:
  "collect_slices mm acc ds = Some (Ok bufs) \<Longrightarrow> map vs_len bufs = map (\<lambda>d. unat (dc_len d)) ds"
proof (induction ds arbitrary: acc bufs)
  case Nil
  then show ?case by simp
next
  case (Cons d ds)
  then show ?case
    by (auto split: if_splits option.splits result.splits dest!: get_slice_len)
qed

lemma writer_new_slices:
  "writer_new mm h c = Some (Ok w) \<Longrightarrow>
   collect_slices mm 0 (writable (chain_iter mm h c)) = Some (Ok (cs_buffers w))"
  by (auto simp: writer_new_def consumer_of_def split: option.splits result.splits)

lemma writer_split:
  assumes "writer_new mm h c = Some (Ok w)" "writable (chain_iter mm h c) = ds1 @ ds2"
  obtains b1 b2 where "cs_buffers w = b1 @ b2" "length (flat b1) = length (chain_addrs ds1)"
    "length (flat b2) = length (chain_addrs ds2)"
proof -
  have "collect_slices mm 0 (ds1 @ ds2) = Some (Ok (cs_buffers w))"
    using writer_new_slices [OF assms(1)] assms(2) by (simp only:)
  from collect_slices_lens [OF this]
  have l: "map vs_len (cs_buffers w) = map (\<lambda>d. unat (dc_len d)) ds1 @ map (\<lambda>d. unat (dc_len d)) ds2"
    by simp
  let ?b1 = "take (length ds1) (cs_buffers w)" and ?b2 = "drop (length ds1) (cs_buffers w)"
  have "map vs_len ?b1 = map (\<lambda>d. unat (dc_len d)) ds1" "map vs_len ?b2 = map (\<lambda>d. unat (dc_len d)) ds2"
    using l by (simp_all flip: take_map drop_map)
  then have "length (flat ?b1) = length (chain_addrs ds1)" "length (flat ?b2) = length (chain_addrs ds2)"
    by (simp_all add: length_flat length_chain_addrs)
  then show thesis using that [of ?b1 ?b2] by simp
qed

lemma writer_single:
  assumes "writer_new mm h c = Some (Ok w)" "writable (chain_iter mm h c) = [d]"
  shows "\<exists>vs. cs_buffers w = [vs]"
proof -
  have "collect_slices mm 0 [d] = Some (Ok (cs_buffers w))"
    using writer_new_slices [OF assms(1)] assms(2) by (simp only:)
  from collect_slices_lens [OF this] show ?thesis by (auto simp: map_eq_Cons_conv)
qed

lemma consume_select_boundary:
  "b \<le> count \<Longrightarrow> length (flat b1) = count - b \<Longrightarrow> flat (consume_select count b (b1 @ b2)) = flat b1"
proof (induction b1 arbitrary: b)
  case Nil
  then show ?case by (cases b2) simp_all
next
  case (Cons vs b1)
  show ?case
  proof (cases "count \<le> b")
    case True
    then show ?thesis using Cons.prems by simp
  next
    case False
    then have "\<not> count - b < vs_len vs" using Cons.prems by simp
    then show ?thesis using False Cons.prems Cons.IH [of "b + vs_len vs"] by (simp add: Let_def)
  qed
qed

lemma consume_select_all: "flat (consume_select (length (flat bufs)) 0 bufs) = flat bufs"
  using consume_select_boundary [of 0 "length (flat bufs)" bufs "[]"] by simp

lemma request_in_transfers:
  assumes img: "disk_image ops content" and ok: "consumer_ok w" and b: "cs_buffers w = b1 @ b2"
    and n: "length (flat b1) mod 512 = 0" "length (flat b2) = 1"
    and fits: "unat (sector * 512) + length (flat b1) \<le> length (content f)"
  obtains w' where "request_in ops sector r w h f =
      Some (r, w', poke h (zip (flat b1) (drop (unat (sector * 512)) (content f))), f, Ok (length (flat b1)))"
    "consumer_ok w'" "pending_addrs w' = flat b2"
proof -
  let ?n = "length (flat b1)"
  let ?op = "\<lambda>bufs. disk_read_vectored_at_volatile ops bufs (sector * 512)"
  let ?h' = "poke h (zip (flat b1) (drop (unat (sector * 512)) (content f)))"
  have p: "pending_addrs w = flat b1 @ flat b2" by (simp add: pending_addrs_def b)
  have small: "?n + 1 < 2 ^ 64" using ok p n(2) by (simp add: consumer_ok_def pending_addrs_def)
  have dl: "unat (of_nat (available_bytes w) - 1 :: usize) = ?n"
    using available_bytes_eq [OF ok] p n(2) small by (simp add: unat_of_nat)
  have sel: "flat (consume_select ?n 0 (cs_buffers w)) = flat b1"
    using consume_select_boundary [of 0 ?n b1 b2] b by simp
  obtain w' where w': "consume w ?n ?op (f, h) = Some (w', (f, ?h'), Ok ?n)" "consumer_ok w'"
    "pending_addrs w' = drop ?n (pending_addrs w)"
  proof (cases "consume_select ?n 0 (cs_buffers w) = []")
    case True
    then have "flat b1 = []" using sel by simp
    then show ?thesis using that [of w] True ok by (simp add: consume_def)
  next
    case False
    have "?op (consume_select ?n 0 (cs_buffers w)) (f, h) = ((f, ?h'), Ok ?n)"
      using img fits False sel
      by (simp add: disk_image_def disk_read_vectored_at_volatile_def iovec_len_flat)
    from consume_Ok [OF ok False, where f = ?op, OF this] p that show ?thesis by auto
  qed
  then show thesis
    using that [of w'] n(1) p dl by (simp add: request_in_def write_from_at_def Let_def)
qed

lemma request_out_transfers:
  assumes img: "disk_image ops content" and ok: "consumer_ok r"
    and n: "length (pending_addrs r) mod 512 = 0"
    and fits: "unat (sector * 512) + length (pending_addrs r) \<le> length (content f)"
  obtains r' f' where "request_out ops sector r w h f =
      Some (r', w, h, f', Ok (length (pending_addrs r)))"
    "content f' = overwrite (content f) (unat (sector * 512)) (map h (pending_addrs r))"
proof -
  let ?n = "length (pending_addrs r)"
  let ?op = "\<lambda>bufs. disk_write_vectored_at_volatile ops bufs (sector * 512)"
  have sel: "flat (consume_select ?n 0 (cs_buffers r)) = pending_addrs r"
    using consume_select_all by (simp add: pending_addrs_def)
  obtain r' f' where r': "consume r ?n ?op (f, h) = Some (r', (f', h), Ok ?n)"
    "content f' = overwrite (content f) (unat (sector * 512)) (map h (pending_addrs r))"
  proof (cases "consume_select ?n 0 (cs_buffers r) = []")
    case True
    then have "pending_addrs r = []" using sel by simp
    then show ?thesis using that [of r f] True by (simp add: consume_def overwrite_def)
  next
    case False
    let ?sel = "consume_select ?n 0 (cs_buffers r)"
    obtain f' where f': "op_writev ops ?sel (sector * 512) f h = (f', Ok ())"
      "content f' = overwrite (content f) (unat (sector * 512)) (map h (pending_addrs r))"
      using img fits unfolding disk_image_def by (metis sel)
    then have "?op ?sel (f, h) = ((f', h), Ok ?n)"
      using False sel by (simp add: disk_write_vectored_at_volatile_def iovec_len_flat)
    from consume_Ok [OF ok False, where f = ?op, OF this] f'(2) that show ?thesis by auto
  qed
  then show thesis
    using that n available_bytes_eq [OF ok] by (simp add: request_out_def read_to_at_def Let_def)
qed

lemma finish_request_status:
  assumes "mm_wf mm" "consumer_ok w" "list_all2 (backs mm) (pending_addrs w) (a # as)"
    and "unat (VIRTIO_BLK_S_OK bb) < 256"
  obtains h' where
    "finish_request bb mm c q (Some (r, w, h, f, Ok n)) = return_chain mm c (of_nat (n + 1)) q h' f"
    "guest_view mm h' = (guest_view mm h)(a \<mapsto> ucast (VIRTIO_BLK_S_OK bb))"
proof -
  obtain w' h' where "write_all h w [ucast (VIRTIO_BLK_S_OK bb)] = Some (w', h', Ok ())"
    "guest_view mm h' = view_poke (guest_view mm h) (zip (a # as) [ucast (VIRTIO_BLK_S_OK bb)])"
    by (rule write_all_fits [OF assms(1-3), of "[ucast (VIRTIO_BLK_S_OK bb)]" h]) auto
  then show thesis
    using that [of h'] assms(4)
    by (simp add: finish_request_def u8_try_from_def writer_write_obj_def view_poke_def)
qed

text \<open>The header of the request in a chain, and the data after it.\<close>

definition header_at :: "memory_manager \<Rightarrow> heap \<Rightarrow> descriptor_chain \<Rightarrow> request_header \<Rightarrow> bool" where
  "header_at mm h c hdr \<longleftrightarrow>
     (\<exists>bs. map (guest_view mm h) (take 16 (chain_addrs (readable (chain_iter mm h c)))) = map Some bs \<and>
           request_header_of_bytes bs = hdr)"

definition data_at :: "memory_manager \<Rightarrow> heap \<Rightarrow> descriptor_chain \<Rightarrow> u8 list \<Rightarrow> bool" where
  "data_at mm h c data \<longleftrightarrow>
     map (guest_view mm h) (drop 16 (chain_addrs (readable (chain_iter mm h c)))) = map Some data"

lemma backs_header:
  assumes "list_all2 (backs mm) (pending_addrs r) (chain_addrs (readable (chain_iter mm h c)))"
    and "header_at mm h c hdr"
  shows "request_header_of_bytes (map h (take 16 (pending_addrs r))) = hdr"
proof -
  obtain bs where bs: "map (guest_view mm h) (take 16 (chain_addrs (readable (chain_iter mm h c)))) = map Some bs"
    "request_header_of_bytes bs = hdr" using assms(2) by (auto simp: header_at_def)
  have "map Some (map h (take 16 (pending_addrs r))) = map Some bs"
    using backs_take_drop [OF assms(1), of h 16 0] bs(1) by simp
  then show ?thesis using bs(2) by (simp add: inj_map_eq_map del: map_map)
qed

lemma backs_data:
  assumes "list_all2 (backs mm) (pending_addrs r) (chain_addrs (readable (chain_iter mm h c)))"
    and "data_at mm h c data"
  shows "map h (drop 16 (pending_addrs r)) = data"
proof -
  have "map Some (map h (drop 16 (pending_addrs r))) = map Some data"
    using backs_map [OF list_all2_dropI [OF assms(1), of 16], of h] assms(2)
    by (simp add: data_at_def comp_def)
  then show ?thesis by (simp add: inj_map_eq_map del: map_map)
qed

lemma accepted_new:
  assumes "mm_wf mm" "0 < dc_ttl c" "accepted 16 mm h c"
  obtains r w where "reader_new mm h c = Some (Ok r)" "consumer_ok r"
    "list_all2 (backs mm) (pending_addrs r) (chain_addrs (readable (chain_iter mm h c)))"
    "16 \<le> length (pending_addrs r)"
    "writer_new mm h c = Some (Ok w)" "consumer_ok w"
    "list_all2 (backs mm) (pending_addrs w) (chain_addrs (writable (chain_iter mm h c)))"
proof -
  have "\<forall>d \<in> set (readable (chain_iter mm h c)). mapped mm d"
    "\<forall>d \<in> set (writable (chain_iter mm h c)). mapped mm d"
    and len: "16 \<le> length (chain_addrs (readable (chain_iter mm h c)))"
    using assms(3) set_readable set_writable unfolding accepted_def by blast+
  then obtain r w where r: "reader_new mm h c = Some (Ok r)" "consumer_ok r"
    "list_all2 (backs mm) (pending_addrs r) (chain_addrs (readable (chain_iter mm h c)))"
    and w: "writer_new mm h c = Some (Ok w)" "consumer_ok w"
    "list_all2 (backs mm) (pending_addrs w) (chain_addrs (writable (chain_iter mm h c)))"
    using reader_new_spec [OF assms(1,2), of h] writer_new_spec [OF assms(1,2), of h] by auto
  then show thesis using that [OF r _ w] len list_all2_lengthD [OF r(3)] by simp
qed

lemma block_write_request:
  assumes wf: "mm_wf mm" "0 < dc_ttl c" "accepted 16 mm h c" and img: "disk_image ops content"
    and st: "unat (VIRTIO_BLK_S_OK bb) < 256" and ty: "VIRTIO_BLK_T_OUT bb \<noteq> VIRTIO_BLK_T_IN bb"
    and hdr: "header_at mm h c hdr" "rh_request_type hdr = VIRTIO_BLK_T_OUT bb"
    and dat: "data_at mm h c data" "length data mod 512 = 0"
    and fits: "unat (rh_sector hdr * 512) + length data \<le> length (content f)"
    and W: "chain_addrs (writable (chain_iter mm h c)) = a # as"
  obtains h' f' where
    "block_handle (bb, ops, disk) mm c q h f = return_chain mm c (of_nat (length data + 1)) q h' f'"
    "content f' = overwrite (content f) (unat (rh_sector hdr * 512)) data"
    "guest_view mm h' = (guest_view mm h)(a \<mapsto> ucast (VIRTIO_BLK_S_OK bb))"
proof -
  obtain r w where r: "reader_new mm h c = Some (Ok r)" "consumer_ok r"
    "list_all2 (backs mm) (pending_addrs r) (chain_addrs (readable (chain_iter mm h c)))"
    "16 \<le> length (pending_addrs r)"
    and w: "writer_new mm h c = Some (Ok w)" "consumer_ok w"
    "list_all2 (backs mm) (pending_addrs w) (a # as)"
    using accepted_new [OF wf] W by metis
  obtain r1 where r1: "consumer_ok r1" "pending_addrs r1 = drop 16 (pending_addrs r)"
    "block_handle (bb, ops, disk) mm c q h f =
       finish_request bb mm c q (process_request bb ops disk hdr r1 w h f)"
    using block_handle_request [OF r(1,2) w(1) r(4)] backs_header [OF r(3) hdr(1)] by metis
  have d: "map h (pending_addrs r1) = data" using backs_data [OF r(3) dat(1)] r1(2) by simp
  then have len: "length (pending_addrs r1) = length data" by (metis length_map)
  obtain r2 f' where o: "request_out ops (rh_sector hdr) r1 w h f = Some (r2, w, h, f', Ok (length data))"
    "content f' = overwrite (content f) (unat (rh_sector hdr * 512)) data"
    by (rule request_out_transfers [OF img r1(1), of "rh_sector hdr" f w h]) (use dat fits len d that in auto)
  have "process_request bb ops disk hdr r1 w h f = Some (r2, w, h, f', Ok (length data))"
    using o(1) hdr(2) ty by (simp add: process_request_def)
  with finish_request_status [OF wf(1) w(2,3) st, of c q r2 h f' "length data"] that o(2) r1(3)
  show thesis by metis
qed

lemma block_read_request:
  assumes wf: "mm_wf mm" "0 < dc_ttl c" "accepted 16 mm h c" and img: "disk_image ops content"
    and st: "unat (VIRTIO_BLK_S_OK bb) < 256"
    and hdr: "header_at mm h c hdr" "rh_request_type hdr = VIRTIO_BLK_T_IN bb"
    and W: "writable (chain_iter mm h c) = ds1 @ ds2" "chain_addrs ds2 = [a]"
    and n: "length (chain_addrs ds1) mod 512 = 0"
    and fits: "unat (rh_sector hdr * 512) + length (chain_addrs ds1) \<le> length (content f)"
  obtains h' where
    "block_handle (bb, ops, disk) mm c q h f =
       return_chain mm c (of_nat (length (chain_addrs ds1) + 1)) q h' f"
    "guest_view mm h' = (view_poke (guest_view mm h)
       (zip (chain_addrs ds1) (drop (unat (rh_sector hdr * 512)) (content f))))
       (a \<mapsto> ucast (VIRTIO_BLK_S_OK bb))"
proof -
  have W': "chain_addrs (writable (chain_iter mm h c)) = chain_addrs ds1 @ [a]"
    using W by (simp add: chain_addrs_def)
  obtain r w where r: "reader_new mm h c = Some (Ok r)" "consumer_ok r"
    "list_all2 (backs mm) (pending_addrs r) (chain_addrs (readable (chain_iter mm h c)))"
    "16 \<le> length (pending_addrs r)"
    and w: "writer_new mm h c = Some (Ok w)" "consumer_ok w"
    "list_all2 (backs mm) (pending_addrs w) (chain_addrs ds1 @ [a])"
    using accepted_new [OF wf] W' by metis
  obtain r1 where r1: "consumer_ok r1"
    "block_handle (bb, ops, disk) mm c q h f =
       finish_request bb mm c q (process_request bb ops disk hdr r1 w h f)"
    using block_handle_request [OF r(1,2) w(1) r(4)] backs_header [OF r(3) hdr(1)] by metis
  obtain b1 b2 where b: "cs_buffers w = b1 @ b2" "length (flat b1) = length (chain_addrs ds1)"
    "length (flat b2) = 1" using writer_split [OF w(1) W(1)] W(2) by auto
  have bk: "list_all2 (backs mm) (flat b1) (chain_addrs ds1)" "list_all2 (backs mm) (flat b2) [a]"
    using w(3) b by (simp_all add: pending_addrs_def list_all2_append)
  let ?h1 = "poke h (zip (flat b1) (drop (unat (rh_sector hdr * 512)) (content f)))"
  obtain w' where w': "request_in ops (rh_sector hdr) r1 w h f =
      Some (r1, w', ?h1, f, Ok (length (chain_addrs ds1)))"
    "consumer_ok w'" "pending_addrs w' = flat b2"
    by (rule request_in_transfers [OF img w(2) b(1), of "rh_sector hdr" f r1 h]) (use n fits b that in auto)
  have "process_request bb ops disk hdr r1 w h f = Some (r1, w', ?h1, f, Ok (length (chain_addrs ds1)))"
    using w'(1) hdr(2) by (simp add: process_request_def)
  then obtain h' where "block_handle (bb, ops, disk) mm c q h f =
      return_chain mm c (of_nat (length (chain_addrs ds1) + 1)) q h' f"
    "guest_view mm h' = (guest_view mm ?h1)(a \<mapsto> ucast (VIRTIO_BLK_S_OK bb))"
    using finish_request_status [OF wf(1) w'(2) bk(2) [folded w'(3)] st, of c q r1 ?h1 f] r1(2) by metis
  then show thesis using that backs_poke [OF wf(1) bk(1)] by simp
qed

lemma overwrite_read:
  assumes "off + length bs \<le> length c"
  shows "take (length bs) (drop off (overwrite c off bs)) = bs" "length (overwrite c off bs) = length c"
  using assms by (simp_all add: overwrite_def)

lemma zip_drop_take: "length xs = n \<Longrightarrow> zip xs ys = zip xs (take n ys)"
  by (metis zip_take_length zip_commute)

section \<open>Properties\<close>

text \<open>
  A disk for the witnesses: a byte list that reads and writes as documented.
\<close>

definition demo_ops :: "u8 list disk_ops" where
  "demo_ops = \<lparr>
     op_readv = (\<lambda>bufs off f h. (f, poke h (zip (flat bufs) (drop (unat off) f)), Ok ())),
     op_writev = (\<lambda>bufs off f h. (overwrite f (unat off) (map h (flat bufs)), Ok ())),
     op_flush = (\<lambda>f. (f, Ok ())), op_sync = (\<lambda>f. (f, Ok ())),
     op_discard_to_any = (\<lambda>off n f. (f, Ok ())),
     op_discard_to_zero = (\<lambda>off n f. (overwrite f (unat off) (replicate (unat n) 0), Ok ())),
     op_write_zeroes = (\<lambda>off n f. (overwrite f (unat off) (replicate (unat n) 0), Ok ()))\<rparr>"

definition demo_blk :: blk_bits where
  "demo_blk = \<lparr>VIRTIO_BLK_T_IN = 0, VIRTIO_BLK_T_OUT = 1, VIRTIO_BLK_T_FLUSH = 4,
     VIRTIO_BLK_T_GET_ID = 8, VIRTIO_BLK_T_DISCARD = 11, VIRTIO_BLK_T_WRITE_ZEROES = 13,
     VIRTIO_BLK_WRITE_ZEROES_FLAG_UNMAP = 1, VIRTIO_BLK_S_OK = 0, VIRTIO_BLK_S_IOERR = 1\<rparr>"

lemma demo_disk_image: "disk_image demo_ops (\<lambda>f. f)"
  by (simp add: disk_image_def demo_ops_def)

lemma demo_block_legal: "block_legal (demo_blk, demo_ops, disk)"
proof -
  have "poke h (zip xs ys) a = h a" if "a \<notin> set xs" for h xs ys and a :: u64
    using that by (intro poke_other) (auto dest: set_zip_leftD)
  then show ?thesis by (simp add: readv_frame_def demo_ops_def demo_blk_def)
qed

text \<open>
  A queue event of the block device: for a driver that keeps to the rules and whose
  requests have a header and buffers in memory, the worker ends, has emptied the queue and
  returned every request exactly once, whatever the requests are and whether or not they
  succeed.
\<close>

theorem block_serves_queue:
  assumes "block_legal p" "driver_ok mm h q cs" "length cs < fuel"
    and "\<forall>c \<in> set cs. accepted 16 mm h c"
  shows "\<exists>q' h' s'. block_process_virtio_queues env fuel p mm q h s = Some (Some (q', h', s')) \<and>
    queue_len mm h' q' = Some 0 \<and> q_next_avail q' = q_next_avail q + of_nat (length cs) \<and>
    q_next_used q' = q_next_used q + of_nat (length cs)"
proof -
  obtain n where n: "fuel = Suc n" using assms(3) by (cases fuel) auto
  show ?thesis
    using blk.event_returns_all [OF assms, where finish = "finish_batch env mm" and n = n and s = s,
        OF finish_batch_done] n
    unfolding block_process_virtio_queues_def block_process_queue_def by simp
qed

theorem block_serves_queue_witness:
  "\<exists>q' h' s'. block_process_virtio_queues demo_env 2
      (demo_blk, demo_ops, \<lparr>dp_cache_type = Writeback, dp_nsectors = 8, dp_image_id = []\<rparr>)
      demo_mm demo_queue demo_heap (replicate 4096 0, demo_link) = Some (Some (q', h', s')) \<and>
    queue_len demo_mm h' q' = Some 0 \<and> q_next_avail q' = 1 \<and> q_next_used q' = 1"
proof -
  have u: "q_next_used demo_queue = 0" "q_next_avail demo_queue = 0" by (simp_all add: demo_queue_def)
  show ?thesis
    using block_serves_queue [OF demo_block_legal
        [of "\<lparr>dp_cache_type = Writeback, dp_nsectors = 8, dp_image_id = []\<rparr>"] demo_driver_ok,
        of 2 demo_env "(replicate 4096 0, demo_link)"] demo_accepted u
    by simp
qed

text \<open>
  The chains of the witness below: descriptors 0, 1 and 2 of the table at \<open>0x100\<close> are the header
  at \<open>0x400\<close>, one sector of data at \<open>0x600\<close> and the status at \<open>0x900\<close>; \<open>fl\<close> are the flags of
  the data descriptor and \<open>ty\<close> is the request type.
\<close>

definition demo_request :: "u8 \<Rightarrow> u8 \<Rightarrow> heap" where
  "demo_request fl ty = copy_to (copy_to (copy_to (copy_to (\<lambda>_. 0)
     0x10100 [0, 4, 0, 0, 0, 0, 0, 0, 16, 0, 0, 0, 1, 0, 1, 0])
     0x10110 [0, 6, 0, 0, 0, 0, 0, 0, 0, 2, 0, 0, fl, 0, 2, 0])
     0x10120 [0, 9, 0, 0, 0, 0, 0, 0, 1, 0, 0, 0, 2, 0, 0, 0])
     0x10400 [ty]"

definition demo_desc_chain :: "u16 \<Rightarrow> u16 \<Rightarrow> u64 \<Rightarrow> u32 \<Rightarrow> u16 \<Rightarrow> u16 \<Rightarrow> descriptor_chain" where
  "demo_desc_chain ttl i a n fl nx = \<lparr>dc_desc_table = 0x100, dc_queue_size = 4, dc_ttl = ttl,
     dc_index = i, dc_addr = a, dc_len = n, dc_flags = fl, dc_next = nx\<rparr>"

lemma demo_request_descs:
  "copy_from (demo_request fl ty) 0x10110 16 = [0, 6, 0, 0, 0, 0, 0, 0, 0, 2, 0, 0, fl, 0, 2, 0]"
  "copy_from (demo_request fl ty) 0x10120 16 = [0, 9, 0, 0, 0, 0, 0, 0, 1, 0, 0, 0, 2, 0, 0, 0]"
  by (simp_all add: demo_request_def copy_to_def copy_from_def upt_rec unat_minus_one_u64)

lemma demo_request_iter:
  assumes "fl = 1 \<or> fl = 3"
  shows "chain_iter demo_mm (demo_request fl ty) (demo_desc_chain 4 0 0x400 16 1 1) =
    [demo_desc_chain 4 0 0x400 16 1 1, demo_desc_chain 3 1 0x600 512 (ucast fl) 2,
     demo_desc_chain 2 2 0x900 1 2 0]"
  using assms
  by (auto simp: chain_iter.simps next_descriptor_def queue_eval demo_request_descs demo_desc_chain_def
      descriptor_of_bytes_def from_le_def)

lemma demo_view:
  assumes "unat a < 0x1000"
  shows "guest_view demo_mm h a = Some (h (0x10000 + a))"
  using assms by (simp add: guest_view_def demo_eval host_addr_def word_le_nat_alt)

lemma demo_request_zero:
  assumes "i < 512"
  shows "guest_view demo_mm (demo_request fl ty) (0x600 + of_nat i) = Some 0"
proof -
  have "unat (0x600 + of_nat i :: u64) = 0x600 + i" using assms by (simp add: unat_word_ariths unat_of_nat)
  then have "guest_view demo_mm (demo_request fl ty) (0x600 + of_nat i) =
      Some (demo_request fl ty (0x10600 + of_nat i))"
    using assms by (simp add: demo_view algebra_simps)
  moreover have "unat (0x10600 + of_nat i - x :: u64) = 0x10600 + i - unat x" if "unat x \<le> 0x10600" for x
    using assms that by (simp add: unat_sub_if_size unat_word_ariths unat_of_nat word_size)
  from this [of "0x10100"] this [of "0x10110"] this [of "0x10120"] this [of "0x10400"]
  have "demo_request fl ty (0x10600 + of_nat i) = 0"
    by (simp add: demo_request_def copy_to_def)
  ultimately show ?thesis by simp
qed

lemma demo_request_header:
  assumes "fl = 1 \<or> fl = 3"
  shows "header_at demo_mm (demo_request fl ty) (demo_desc_chain 4 0 0x400 16 1 1)
    \<lparr>rh_request_type = ucast ty, rh_reserved = 0, rh_sector = 0\<rparr>"
proof -
  have "\<exists>xs. chain_addrs (readable (chain_iter demo_mm (demo_request fl ty)
      (demo_desc_chain 4 0 0x400 16 1 1))) = addrs 0x400 16 @ xs"
    using assms unfolding demo_request_iter [OF assms]
    by (auto simp: readable_def is_read_only_def virtq_consts demo_desc_chain_def chain_addrs_def)
  moreover have "map (guest_view demo_mm (demo_request fl ty)) (addrs 0x400 16) =
      map Some [ty, 0, 0, 0, 0, 0, 0, 0, 0, 0, 0, 0, 0, 0, 0, 0]"
    by (simp add: addrs_def upt_rec demo_view) (simp add: demo_request_def copy_to_def)
  ultimately show ?thesis
    by (auto simp: header_at_def request_header_of_bytes_def
        intro!: exI [of _ "[ty, 0, 0, 0, 0, 0, 0, 0, 0, 0, 0, 0, 0, 0, 0, 0]"])
qed

text \<open>
  C16.  What a guest writes to the disk it reads back: a write request puts the bytes of its
  data buffers into the image at its sector, sets the status byte to \<^verbatim>\<open>VIRTIO_BLK_S_OK\<close> and
  changes no other guest memory; a later read request for the same sectors puts the same bytes
  into its data buffers, in the order of the descriptors, and the status into the last one.
\<close>

theorem block_write_read_roundtrip:
  assumes "mm_wf mm" "disk_image ops content" "unat (VIRTIO_BLK_S_OK bb) < 256"
    and "VIRTIO_BLK_T_OUT bb \<noteq> VIRTIO_BLK_T_IN bb"
    and "0 < dc_ttl c" "accepted 16 mm h c" "header_at mm h c hdr"
    and "rh_request_type hdr = VIRTIO_BLK_T_OUT bb" "data_at mm h c data" "length data mod 512 = 0"
    and "unat (rh_sector hdr * 512) + length data \<le> length (content f)"
    and "chain_addrs (writable (chain_iter mm h c)) = [s]"
    and "0 < dc_ttl c2" "accepted 16 mm h2 c2" "header_at mm h2 c2 hdr2"
    and "rh_request_type hdr2 = VIRTIO_BLK_T_IN bb" "rh_sector hdr2 = rh_sector hdr"
    and "writable (chain_iter mm h2 c2) = ds1 @ ds2" "chain_addrs ds2 = [s2]"
    and "length (chain_addrs ds1) = length data"
  shows "\<exists>h' f' h2'.
    block_handle (bb, ops, disk) mm c q h f = return_chain mm c (of_nat (length data + 1)) q h' f' \<and>
    guest_view mm h' = (guest_view mm h)(s \<mapsto> ucast (VIRTIO_BLK_S_OK bb)) \<and>
    content f' = overwrite (content f) (unat (rh_sector hdr * 512)) data \<and>
    block_handle (bb, ops, disk) mm c2 q2 h2 f' =
      return_chain mm c2 (of_nat (length data + 1)) q2 h2' f' \<and>
    guest_view mm h2' =
      (view_poke (guest_view mm h2) (zip (chain_addrs ds1) data))(s2 \<mapsto> ucast (VIRTIO_BLK_S_OK bb))"
proof -
  let ?off = "unat (rh_sector hdr * 512)"
  obtain h' f' where w: "block_handle (bb, ops, disk) mm c q h f =
      return_chain mm c (of_nat (length data + 1)) q h' f'"
    "content f' = overwrite (content f) ?off data"
    "guest_view mm h' = (guest_view mm h)(s \<mapsto> ucast (VIRTIO_BLK_S_OK bb))"
    by (rule block_write_request [OF assms(1,5,6,2,3,4,7-12)])
  note o = overwrite_read [OF assms(11)]
  have fits: "unat (rh_sector hdr2 * 512) + length (chain_addrs ds1) \<le> length (content f')"
    using assms(11,17,20) w(2) o(2) by simp
  have m: "length (chain_addrs ds1) mod 512 = 0" using assms(10,20) by simp
  obtain h2' where r: "block_handle (bb, ops, disk) mm c2 q2 h2 f' =
      return_chain mm c2 (of_nat (length (chain_addrs ds1) + 1)) q2 h2' f'"
    "guest_view mm h2' = (view_poke (guest_view mm h2)
       (zip (chain_addrs ds1) (drop (unat (rh_sector hdr2 * 512)) (content f'))))
       (s2 \<mapsto> ucast (VIRTIO_BLK_S_OK bb))"
    by (rule block_read_request [OF assms(1,13,14,2,3,15,16,18,19) m fits])
  have "zip (chain_addrs ds1) (drop ?off (content f')) = zip (chain_addrs ds1) data"
    using zip_drop_take [of "chain_addrs ds1" "length data"] assms(20) w(2) o(1) by metis
  then show ?thesis using w r assms(17,20) by auto
qed

lemma demo_request_accepted:
  assumes "fl = 1 \<or> fl = 3"
  shows "accepted 16 demo_mm (demo_request fl ty) (demo_desc_chain 4 0 0x400 16 1 1)"
proof -
  have "mapped demo_mm (demo_desc_chain ttl i a n f nx)"
    if "unat a < 0x1000" "unat a + unat n \<le> 0x1000" for ttl i a n f nx
    using demo_access [OF that] by (auto simp: mapped_def demo_desc_chain_def)
  then show ?thesis
    using assms unfolding accepted_def demo_request_iter [OF assms]
    by (auto simp: readable_def is_read_only_def virtq_consts chain_addrs_def demo_desc_chain_def)
qed

lemma demo_request_parts:
  "chain_addrs (writable (chain_iter demo_mm (demo_request 1 1) (demo_desc_chain 4 0 0x400 16 1 1))) = [0x900]"
  "writable (chain_iter demo_mm (demo_request 3 0) (demo_desc_chain 4 0 0x400 16 1 1)) =
     [demo_desc_chain 3 1 0x600 512 3 2] @ [demo_desc_chain 2 2 0x900 1 2 0]"
  unfolding demo_request_iter [of 1, simplified] demo_request_iter [of 3, simplified]
  by (simp_all add: writable_def is_read_only_def virtq_consts chain_addrs_def demo_desc_chain_def addrs_def)

lemma demo_request_data:
  "data_at demo_mm (demo_request 1 1) (demo_desc_chain 4 0 0x400 16 1 1) (replicate 512 0)"
proof -
  have "drop 16 (chain_addrs (readable (chain_iter demo_mm (demo_request 1 1)
      (demo_desc_chain 4 0 0x400 16 1 1)))) = addrs 0x600 512"
    unfolding demo_request_iter [of 1, simplified]
    by (simp add: readable_def is_read_only_def virtq_consts chain_addrs_def demo_desc_chain_def)
  then show ?thesis
    by (auto simp: data_at_def addrs_def demo_request_zero intro!: nth_equalityI)
qed

theorem block_write_read_roundtrip_witness:
  "\<exists>h' f' h2'.
    block_handle (demo_blk, demo_ops, disk_properties_new 1024 [] Unsafe) demo_mm
      (demo_desc_chain 4 0 0x400 16 1 1) demo_queue (demo_request 1 1) (replicate 1024 7) =
      return_chain demo_mm (demo_desc_chain 4 0 0x400 16 1 1) 513 demo_queue h' f' \<and>
    f' = replicate 512 0 @ replicate 512 7 \<and>
    block_handle (demo_blk, demo_ops, disk_properties_new 1024 [] Unsafe) demo_mm
      (demo_desc_chain 4 0 0x400 16 1 1) demo_queue (demo_request 3 0) f' =
      return_chain demo_mm (demo_desc_chain 4 0 0x400 16 1 1) 513 demo_queue h2' f'"
proof -
  have a: "chain_addrs [demo_desc_chain 2 2 0x900 1 2 0] = [0x900]"
    "length (chain_addrs [demo_desc_chain 3 1 0x600 512 3 2]) = length (replicate 512 (0 :: u8))"
    by (simp_all add: chain_addrs_def demo_desc_chain_def addrs_def)
  have t: "0 < dc_ttl (demo_desc_chain 4 0 0x400 16 1 1)" by (simp add: demo_desc_chain_def)
  have o: "overwrite (replicate 1024 7) 0 (replicate 512 0) = replicate 512 0 @ replicate 512 (7 :: u8)"
    by (simp add: overwrite_def)
  note th = block_write_read_roundtrip [OF demo_mm_wf demo_disk_image _ _ t
      demo_request_accepted demo_request_header _ demo_request_data _ _ demo_request_parts(1) t
      demo_request_accepted demo_request_header _ _ demo_request_parts(2) a,
      where bb = demo_blk and f = "replicate 1024 7" and q = demo_queue and ?q2.0 = demo_queue
        and disk = "disk_properties_new 1024 [] Unsafe"]
  show ?thesis using th by (auto simp: demo_blk_def o)
qed

text \<open>
  A read request whose status byte shares a descriptor with the data: the disk bytes are
  read over the status byte, the status is not written at all, and the length reported is one
  more than the buffers hold.
\<close>

theorem block_read_overruns_status:
  assumes "mm_wf mm" "0 < dc_ttl c" "accepted 16 mm h c" "disk_image ops content"
    and "unat (VIRTIO_BLK_S_OK bb) < 256"
    and "header_at mm h c hdr" "rh_request_type hdr = VIRTIO_BLK_T_IN bb"
    and "writable (chain_iter mm h c) = [d]" "unat (dc_len d) = 512 * k + 1" "0 < k"
    and "unat (rh_sector hdr * 512) + (512 * k + 1) \<le> length (content f)"
  shows "\<exists>h'. block_handle (bb, ops, disk) mm c q h f = return_chain mm c (of_nat (512 * k + 2)) q h' f \<and>
    guest_view mm h' = view_poke (guest_view mm h)
      (zip (chain_addrs [d]) (drop (unat (rh_sector hdr * 512)) (content f)))"
proof -
  let ?off = "rh_sector hdr * 512"
  obtain r w where r: "reader_new mm h c = Some (Ok r)" "consumer_ok r"
    "list_all2 (backs mm) (pending_addrs r) (chain_addrs (readable (chain_iter mm h c)))"
    "16 \<le> length (pending_addrs r)"
    and w: "writer_new mm h c = Some (Ok w)" "consumer_ok w"
    "list_all2 (backs mm) (pending_addrs w) (chain_addrs [d])"
    using accepted_new [OF assms(1-3)] assms(8) by metis
  obtain r1 where r1: "block_handle (bb, ops, disk) mm c q h f =
      finish_request bb mm c q (process_request bb ops disk hdr r1 w h f)"
    using block_handle_request [OF r(1,2) w(1) r(4)] backs_header [OF r(3) assms(6)] by metis
  have len: "length (pending_addrs w) = 512 * k + 1"
    using list_all2_lengthD [OF w(3)] assms(9) by (simp add: chain_addrs_def)
  obtain vs where vs: "cs_buffers w = [vs]"
    using writer_single [OF w(1) assms(8)] by blast
  have p: "pending_addrs w = flat [vs]" by (simp add: pending_addrs_def vs)
  let ?h1 = "poke h (zip (flat [vs]) (drop (unat ?off) (content f)))"
  let ?op = "\<lambda>bufs. disk_read_vectored_at_volatile ops bufs ?off"
  have small: "512 * k + 1 < 2 ^ 64" using w(2) len by (simp add: consumer_ok_def pending_addrs_def)
  have "of_nat (available_bytes w) - 1 = (of_nat (512 * k) :: usize)"
    using available_bytes_eq [OF w(2)] len by simp
  moreover have "unat (of_nat (512 * k) :: usize) = 512 * k"
    by (rule unat_of_nat_small) (use small in simp)
  ultimately have dl: "unat (of_nat (available_bytes w) - 1 :: usize) = 512 * k" by (simp only:)
  have sel: "consume_select (512 * k) 0 (cs_buffers w) = [vs]" using vs assms(10) by (simp add: Let_def)
  have op: "?op (consume_select (512 * k) 0 (cs_buffers w)) (f, h) = ((f, ?h1), Ok (512 * k + 1))"
    unfolding sel using assms(4,11) len p
    by (simp add: disk_image_def disk_read_vectored_at_volatile_def iovec_len_flat)
  obtain w' where w': "consume w (512 * k) ?op (f, h) = Some (w', (f, ?h1), Ok (512 * k + 1))"
    "consumer_ok w'" "pending_addrs w' = drop (512 * k + 1) (pending_addrs w)"
    by (rule consume_Ok [OF w(2), where f = ?op, OF _ op]) (use sel len in auto)
  have "process_request bb ops disk hdr r1 w h f = Some (r1, w', ?h1, f, Ok (512 * k + 1))"
    using w'(1) dl assms(7) by (simp add: process_request_def request_in_def write_from_at_def)
  moreover have "\<exists>w''. write_all ?h1 w' [ucast (VIRTIO_BLK_S_OK bb)] = Some (w'', ?h1, Err WriteZero)"
    using write_all_spec [OF w'(2), of ?h1 "[ucast (VIRTIO_BLK_S_OK bb)]"] w'(3) len by auto
  ultimately have "block_handle (bb, ops, disk) mm c q h f = return_chain mm c (of_nat (512 * k + 2)) q ?h1 f"
    using r1 assms(5) by (auto simp: finish_request_def u8_try_from_def writer_write_obj_def)
  then show ?thesis using backs_poke [OF assms(1) w(3)] p by auto
qed

definition demo_overrun :: heap where
  "demo_overrun = copy_to (demo_request 3 0) 0x10110 [0, 6, 0, 0, 0, 0, 0, 0, 1, 2, 0, 0, 2, 0, 0, 0]"

lemma demo_overrun_desc:
  "copy_from demo_overrun 0x10110 16 = [0, 6, 0, 0, 0, 0, 0, 0, 1, 2, 0, 0, 2, 0, 0, 0]"
  by (simp add: demo_overrun_def copy_to_def copy_from_def upt_rec)

lemma demo_overrun_header:
  "map (guest_view demo_mm demo_overrun) (addrs 0x400 16) = map Some [0, 0, 0, 0, 0, 0, 0, 0, 0, 0, 0, 0, 0, 0, 0, 0]"
  by (simp add: addrs_def upt_rec demo_view) (simp add: demo_overrun_def demo_request_def copy_to_def)

lemma demo_overrun_iter:
  "chain_iter demo_mm demo_overrun (demo_desc_chain 4 0 0x400 16 1 1) =
    [demo_desc_chain 4 0 0x400 16 1 1, demo_desc_chain 3 1 0x600 513 2 0]"
  by (simp add: chain_iter.simps next_descriptor_def queue_eval demo_overrun_desc demo_desc_chain_def
      descriptor_of_bytes_def)

theorem block_read_overruns_status_witness:
  "\<exists>h'. block_handle (demo_blk, demo_ops, disk_properties_new 1024 [] Unsafe) demo_mm
      (demo_desc_chain 4 0 0x400 16 1 1) demo_queue demo_overrun (replicate 1024 7) =
      return_chain demo_mm (demo_desc_chain 4 0 0x400 16 1 1) 514 demo_queue h' (replicate 1024 7)"
proof -
  let ?c = "demo_desc_chain 4 0 0x400 16 1 1" and ?d = "demo_desc_chain 3 1 0x600 513 2 0"
  have parts: "readable (chain_iter demo_mm demo_overrun ?c) = [?c]"
    "writable (chain_iter demo_mm demo_overrun ?c) = [?d]"
    unfolding demo_overrun_iter
    by (simp_all add: readable_def writable_def is_read_only_def virtq_consts demo_desc_chain_def)
  have r: "chain_addrs [?c] = addrs 0x400 16" by (simp add: chain_addrs_def demo_desc_chain_def)
  have hdr: "header_at demo_mm demo_overrun ?c \<lparr>rh_request_type = 0, rh_reserved = 0, rh_sector = 0\<rparr>"
    unfolding header_at_def parts r
    by (rule exI [of _ "[0, 0, 0, 0, 0, 0, 0, 0, 0, 0, 0, 0, 0, 0, 0, 0]"])
      (simp add: demo_overrun_header request_header_of_bytes_def)
  have "mapped demo_mm ?c" "mapped demo_mm ?d"
    using demo_access [of "0x400" 16] demo_access [of "0x600" 513]
    by (auto simp: mapped_def demo_desc_chain_def)
  then have acc: "accepted 16 demo_mm demo_overrun ?c"
    unfolding accepted_def parts r by (simp add: demo_overrun_iter)
  have t: "0 < dc_ttl ?c" "unat (dc_len ?d) = 512 * 1 + 1" by (simp_all add: demo_desc_chain_def)
  show ?thesis
    using block_read_overruns_status [OF demo_mm_wf t(1) acc demo_disk_image _ hdr _ parts(2) t(2),
        where bb = demo_blk and f = "replicate 1024 7" and q = demo_queue
          and disk = "disk_properties_new 1024 [] Unsafe"]
    by (auto simp: demo_blk_def)
qed

end
