(* ===== verification/Data_Queue.thy ===== *)
theory Data_Queue
  imports Worker
begin

text \<open>
  What the console and the network device share: transmit queues, whose chains carry bytes from
  the guest to the host, and receive queues, whose chains are filled with bytes from the host.
  The locale \<open>transmit_handler\<close> states the contract of a transmit queue's handler; a handler that
  keeps it is a \<open>chain_handler\<close>, and a queue event then passes the bytes of the available chains
  on in order.
\<close>

section \<open>Transmit queues\<close>

definition chain_bytes :: "memory_manager \<Rightarrow> heap \<Rightarrow> descriptor_chain \<Rightarrow> u8 list" where
  "chain_bytes mm h c =
     map (\<lambda>a. the (guest_view mm h a)) (chain_addrs (readable (chain_iter mm h c)))"

lemma chain_bytes_same_view:
  assumes "chain_iter mm h' c = chain_iter mm h c"
    and "same_view mm (set (chain_addrs (readable (chain_iter mm h c)))) h h'"
  shows "chain_bytes mm h' c = chain_bytes mm h c"
  using assms by (auto simp: chain_bytes_def same_view_def)

text \<open>A reader of a mapped chain delivers its bytes in one read.\<close>

lemma reader_reads_chain:
  assumes "mm_wf mm" "0 < dc_ttl c" "\<forall>d \<in> set (readable (chain_iter mm h c)). mapped mm d"
  obtains r r' where "reader_new mm h c = Some (Ok r)"
    "available_bytes r = length (chain_bytes mm h c)"
    "reader_read h r (length (chain_bytes mm h c)) = Some (r', Ok (chain_bytes mm h c))"
  using assms(1,2)
proof (cases rule: reader_new_cases [of mm c h])
  case (err e)
  with assms(3) show ?thesis by blast
next
  case (ok r)
  let ?A = "chain_addrs (readable (chain_iter mm h c))"
  have len: "available_bytes r = length ?A"
    using available_bytes_eq [OF ok(2)] list_all2_lengthD [OF ok(3)] by simp
  have bytes: "map h (pending_addrs r) = chain_bytes mm h c"
    using arg_cong [OF backs_map [OF ok(3), of h], of "map the"] by (simp add: chain_bytes_def comp_def)
  obtain r' where "reader_read h r (length ?A) = Some (r', Ok (chain_bytes mm h c))"
    using reader_read_spec [OF ok(2), of h "length ?A"] list_all2_lengthD [OF ok(3)] bytes by auto
  then show ?thesis using that ok(1) len by (simp add: chain_bytes_def)
qed

lemma reader_refuses_chain:
  assumes "mm_wf mm" "0 < dc_ttl c" "\<not> (\<forall>d \<in> set (readable (chain_iter mm h c)). mapped mm d)"
  obtains e where "reader_new mm h c = Some (Err e)"
  using reader_new_spec [OF assms(1,2), of h] that unfolding if_not_P [OF assms(3)] by blast

text \<open>
  The contract: a chain with mapped buffers is passed on by \<open>emit\<close> and returned, another one is
  skipped.
\<close>

locale transmit_handler =
  fixes handle :: "memory_manager \<Rightarrow> 's handler"
    and emit :: "u8 list \<Rightarrow> 's \<Rightarrow> 's"
  assumes handle_mapped: "mm_wf mm \<Longrightarrow> 0 < dc_ttl c \<Longrightarrow>
      \<forall>d \<in> set (readable (chain_iter mm h c)). mapped mm d \<Longrightarrow>
      handle mm c q h s = return_chain mm c 0 q h (emit (chain_bytes mm h c) s)"
    and handle_unmapped: "mm_wf mm \<Longrightarrow> 0 < dc_ttl c \<Longrightarrow>
      \<not> (\<forall>d \<in> set (readable (chain_iter mm h c)). mapped mm d) \<Longrightarrow>
      handle mm c q h s = Some (q, h, s, False)"
begin

lemma handle_cases:
  assumes "mm_wf mm" "0 < dc_ttl c"
  obtains (skipped) "handle mm c q h s = Some (q, h, s, False)" "\<not> accepted 0 mm h c"
    | (returned) s' where "handle mm c q h s = return_chain mm c 0 q h s'"
proof (cases "\<forall>d \<in> set (readable (chain_iter mm h c)). mapped mm d")
  case True
  then show ?thesis using returned handle_mapped [OF assms] by blast
next
  case False
  then have "\<not> accepted 0 mm h c" using set_readable unfolding accepted_def by blast
  then show ?thesis using skipped handle_unmapped [OF assms False] by blast
qed

end

sublocale transmit_handler \<subseteq> tx: chain_handler "\<lambda>_ :: unit. True" 0 "\<lambda>_. handle"
proof unfold_locales
  fix mm and c :: descriptor_chain and q h s
  assume a: "mm_wf mm" "0 < dc_ttl c"
  show "handle mm c q h s \<noteq> None"
    by (rule handle_cases [OF a, of q h s]) (use return_chain_total in auto)
next
  fix mm and c :: descriptor_chain and q h s q' h' s' u
  assume a: "mm_wf mm" "0 < dc_ttl c" and us: "used_ok mm q"
    and r: "handle mm c q h s = Some (q', h', s', u)"
  show "used_moved q q' \<and> same_view mm (- (ring_area q \<union> write_area mm h c)) h h'"
    using a
  proof (cases rule: handle_cases [of mm c q h s])
    case skipped
    then show ?thesis using r by simp
  next
    case (returned s1)
    then show ?thesis
      using r return_after_write [OF a(1) us, of c 0 h s1 q' h' s' u "write_area mm h c" h] by simp
  qed
next
  fix mm and c :: descriptor_chain and q h s q' h' s' u
  assume a: "mm_wf mm" "0 < dc_ttl c" and us: "used_ok mm q"
    and acc: "accepted 0 mm h c" "dc_index c < q_size q"
    and r: "handle mm c q h s = Some (q', h', s', u)"
  show "q_next_used q' = q_next_used q + 1 \<and> u"
    using a
  proof (cases rule: handle_cases [of mm c q h s])
    case skipped
    then show ?thesis using acc(1) by simp
  next
    case (returned s1)
    then show ?thesis using r acc(2) return_chain_Some(4,5) [OF a(1) us] by metis
  qed
qed

text \<open>The buffers of the chains are in memory and not under the used ring.\<close>

definition sendable :: "memory_manager \<Rightarrow> heap \<Rightarrow> queue \<Rightarrow> descriptor_chain list \<Rightarrow> bool" where
  "sendable mm h q cs \<longleftrightarrow>
     (\<forall>c \<in> set cs. accepted 0 mm h c \<and> set (chain_addrs (readable (chain_iter mm h c))) \<inter> ring_area q = {})"

lemma sendable_frame:
  assumes "driver_ok mm h q cs" "same_view mm (- ring_area q) h h'" "sendable mm h q cs" "c \<in> set cs"
  shows "chain_iter mm h' c = chain_iter mm h c" "chain_bytes mm h' c = chain_bytes mm h c"
proof -
  show it: "chain_iter mm h' c = chain_iter mm h c"
    by (rule chain_iter_driver [OF assms(1) driver_ok_outside [OF assms(1,2)] assms(4)])
  show "chain_bytes mm h' c = chain_bytes mm h c"
    by (rule chain_bytes_same_view [OF it same_view_mono [OF assms(2)]])
      (use assms(3,4) in \<open>fastforce simp: sendable_def\<close>)
qed

context transmit_handler
begin

lemma serve_emits:
  assumes "driver_ok mm h q cs" "sendable mm h q cs"
  shows "\<exists>q' h' u'. serve (handle mm) cs q h s u =
    Some (q', h', fold (\<lambda>c. emit (chain_bytes mm h c)) cs s, u')"
  using assms
proof (induction cs arbitrary: q h s u)
  case Nil
  then show ?case by simp
next
  case (Cons c cs)
  note ok = driver_ok_Cons [OF Cons.prems(1)]
  let ?q1 = "q\<lparr>q_next_avail := q_next_avail q + 1\<rparr>"
  have wf: "mm_wf mm" and us: "used_ok mm ?q1"
    using Cons.prems(1) by (simp_all add: driver_ok_def driver_ok_next_fields)
  have "\<forall>d \<in> set (readable (chain_iter mm h c)). mapped mm d"
    using Cons.prems(2) set_readable unfolding accepted_def sendable_def by fastforce
  note hd = handle_mapped [OF wf ok(3) this, of ?q1 s]
  obtain q2 h2 s2 b where r: "return_chain mm c 0 ?q1 h (emit (chain_bytes mm h c) s) = Some (q2, h2, s2, b)"
    using return_chain_total by (metis not_None_eq prod_cases4)
  note rc = return_chain_Some [OF wf us r]
  have v: "same_view mm (- ring_area q) h h2" using rc(2) by (simp add: driver_ok_next_fields)
  have d2: "driver_ok mm h2 q2 cs"
    using driver_ok_frame [OF ok(2) _ rc(1)] driver_ok_outside [OF Cons.prems(1) v]
    by (simp add: driver_ok_next_fields)
  note fr = sendable_frame [OF Cons.prems(1) v Cons.prems(2)]
  have "sendable mm h2 q2 cs"
    using Cons.prems(2) fr(1) used_moved_fields(9) [OF rc(1)]
    by (simp add: sendable_def accepted_def driver_ok_next_fields)
  then obtain q' h' u' where "serve (handle mm) cs q2 h2 s2 (u \<or> b) =
      Some (q', h', fold (\<lambda>c. emit (chain_bytes mm h2 c)) cs s2, u')"
    using Cons.IH [OF d2] by metis
  moreover have "fold (\<lambda>c. emit (chain_bytes mm h2 c)) cs s2 = fold (\<lambda>c. emit (chain_bytes mm h c)) cs s2"
    using fr(2) by (intro fold_cong) auto
  ultimately show ?case using hd r rc(3) by simp
qed

lemma event_emits:
  assumes "driver_ok mm h q cs" "length cs < fuel" "sendable mm h q cs"
  shows "\<exists>q' h'. process_virtio_queues fuel mm (process_batch (finish_always env mm) fuel mm (handle mm)) q h (s, il) =
      Some (Some (q', h', fold (\<lambda>c. emit (chain_bytes mm h c)) cs s,
        if cs \<noteq> [] then signal_used_queue env il else il)) \<and>
    queue_len mm h' q' = Some 0 \<and> q_next_used q' = q_next_used q + of_nat (length cs)"
proof -
  obtain n where n: "fuel = Suc n" using assms(2) by (cases fuel) auto
  obtain h1 q2 h2 s2 u q3 h3 il' where e:
    "process_virtio_queues (Suc n) mm (process_batch (finish_always env mm) fuel mm (handle mm))
       q h (s, il) = Some (Some (q3, h3, s2, il'))"
    "same_view mm (- ring_area q) h h1" "driver_ok mm h1 q cs"
    "serve (handle mm) cs q h1 s False = Some (q2, h2, s2, u)"
    "finish_always env mm h2 q2 il u = Some (q3, il')"
    "driver_ok mm h3 q3 []" "q_next_used q3 = q_next_used q2"
    by (rule tx.event_serves [OF TrueI assms(1,2), where finish = "finish_always env mm" and n = n
          and s = "(s, il)", OF finish_always_ok]) (use that in auto)
  note fr = sendable_frame [OF assms(1) e(2) assms(3)]
  have sd: "sendable mm h1 q cs" using assms(3) fr(1) by (simp add: sendable_def accepted_def)
  have "fold (\<lambda>c. emit (chain_bytes mm h1 c)) cs s = fold (\<lambda>c. emit (chain_bytes mm h c)) cs s"
    using fr(2) by (intro fold_cong) auto
  then have s2: "s2 = fold (\<lambda>c. emit (chain_bytes mm h c)) cs s"
    using serve_emits [OF e(3) sd, of s False] e(4) by simp
  have nu: "q_next_used q2 = q_next_used q + of_nat (length cs)" "u \<longleftrightarrow> cs \<noteq> []"
    using tx.serve_result [OF TrueI e(3), of s False] e(4) sd
    by (metis option.inject prod.inject sendable_def)+
  show ?thesis
    using e driver_ok_Nil(2) [OF e(6)] nu n s2 by (simp add: finish_always_def)
qed

end

section \<open>Receive queues\<close>

text \<open>The places the buffers of the chains offer, in order.\<close>

definition room :: "memory_manager \<Rightarrow> heap \<Rightarrow> descriptor_chain list \<Rightarrow> guest_address list" where
  "room mm h cs = concat (map (\<lambda>c. chain_addrs (writable (chain_iter mm h c))) cs)"

lemma map_same_view:
  "same_view mm A h h' \<Longrightarrow> set as \<subseteq> A \<Longrightarrow> map (guest_view mm h') as = map (guest_view mm h) as"
  by (auto simp: same_view_def)

lemma room_same_view:
  assumes "driver_ok mm h q cs" "same_view mm (driver_area q) h h'" "set cs' \<subseteq> set cs"
  shows "room mm h' cs' = room mm h cs'"
  unfolding room_def
  by (rule arg_cong [of _ _ concat], rule map_cong [OF refl])
    (use chain_iter_driver [OF assms(1,2)] assms(3) in auto)

lemma driver_ok_writer:
  assumes ok: "driver_ok mm h q (c # cs)" and acc: "accepted 0 mm h c"
  obtains w where "writer_new mm h c = Some (Ok w)" "consumer_ok w"
    "list_all2 (backs mm) (pending_addrs w) (chain_addrs (writable (chain_iter mm h c)))"
    "available_bytes w = length (chain_addrs (writable (chain_iter mm h c)))"
proof -
  have wf: "mm_wf mm" using ok by (simp add: driver_ok_def)
  have mp: "\<forall>d \<in> set (writable (chain_iter mm h c)). mapped mm d"
    using acc set_writable unfolding accepted_def by blast
  obtain w where w: "writer_new mm h c = Some (Ok w)" "consumer_ok w"
    "list_all2 (backs mm) (pending_addrs w) (chain_addrs (writable (chain_iter mm h c)))"
    using writer_new_spec [OF wf driver_ok_Cons(3) [OF ok], of h] mp by auto
  then show thesis using that available_bytes_eq [OF w(2)] list_all2_lengthD [OF w(3)] by simp
qed

text \<open>
  After bytes have been written to the buffers of the oldest chain and the chain has been
  returned, they can be read there, and the other chains are still available.
\<close>

lemma filled_chain_returned:
  assumes ok: "driver_ok mm h q (c # cs)"
    and dist: "distinct (chain_addrs (writable (chain_iter mm h c)))"
    and apart: "write_area mm h c \<inter> ring_area q = {}"
    and h1: "guest_view mm h1 = view_poke (guest_view mm h) (zip A bs)"
    and len: "length bs \<le> length A"
    and au: "add_used mm h1 (q\<lparr>q_next_avail := q_next_avail q + 1\<rparr>) (dc_index c) n = (q2, h2, res)"
    and A_def: "A = chain_addrs (writable (chain_iter mm h c))"
  shows "driver_ok mm h2 q2 cs" "ring_area q2 = ring_area q"
    "same_view mm (- (ring_area q \<union> set A)) h h2" "same_view mm (driver_area q) h h2"
    "map (guest_view mm h2) (take (length bs) A) = map Some bs"
    "q_next_used q2 = q_next_used q + 1" "res = Ok ()"
proof -
  let ?q1 = "q\<lparr>q_next_avail := q_next_avail q + 1\<rparr>"
  note dc = driver_ok_Cons [OF ok]
  have wf: "mm_wf mm" and us: "used_ok mm ?q1" and ap: "write_area mm h c \<inter> driver_area q = {}"
    using ok by (simp_all add: driver_ok_def driver_ok_next_fields)
  note m = add_used_moves [OF wf us au]
  have v1: "same_view mm (- set A) h h1"
    unfolding same_view_def h1 by (auto intro!: view_poke_other dest: set_zip_leftD)
  have f2: "same_view mm (- ring_area q) h1 h2" using m(2) by (simp add: driver_ok_next_fields)
  show v: "same_view mm (- (ring_area q \<union> set A)) h h2" using v1 f2 by (auto simp: same_view_def)
  show vd: "same_view mm (driver_area q) h h2"
    by (rule same_view_mono [OF v]) (use ap ok in \<open>auto simp: write_area_def A_def driver_ok_def\<close>)
  show "driver_ok mm h2 q2 cs"
    using driver_ok_frame [OF dc(2) _ m(1)] vd by (simp add: driver_ok_next_fields)
  show "ring_area q2 = ring_area q" using used_moved_fields(9) [OF m(1)] by (simp add: driver_ok_next_fields)
  show "q_next_used q2 = q_next_used q + 1" "res = Ok ()" using m(3) dc(4) by simp_all
  have "set (take (length bs) A) \<subseteq> - ring_area q"
    using apart by (auto simp: write_area_def A_def dest: in_set_takeD)
  then have "map (guest_view mm h2) (take (length bs) A) = map (guest_view mm h1) (take (length bs) A)"
    using map_same_view [OF f2] by blast
  also have "\<dots> = map Some bs"
    using view_poke_reads [OF dist [folded A_def], of "guest_view mm h" bs] h1 len by simp
  finally show "map (guest_view mm h2) (take (length bs) A) = map Some bs" .
qed

section \<open>The queue of the witnesses\<close>

lemma demo_chain_bytes:
  "chain_bytes demo_mm demo_heap demo_chain = [0, 0, 0, 0, 0, 0, 0, 0, 0, 0, 0, 0, 0, 0, 0, 0]"
  unfolding chain_bytes_def demo_chain_parts
  by (simp add: addrs_def upt_rec guest_view_def demo_eval host_addr_def)
    (simp add: demo_heap_def copy_to_def descriptor_bytes_def to_le_numeral)

lemma demo_sendable: "sendable demo_mm demo_heap demo_queue [demo_chain]"
  by (simp add: sendable_def demo_accepted demo_chain_parts demo_buffers_apart)

lemma demo_room:
  "room demo_mm demo_heap [demo_chain] = [0x500, 0x501, 0x502, 0x503, 0x504, 0x505, 0x506, 0x507,
      0x508, 0x509, 0x50a, 0x50b, 0x50c, 0x50d, 0x50e, 0x50f]"
  "distinct (room demo_mm demo_heap [demo_chain])"
  "set (room demo_mm demo_heap [demo_chain]) \<inter> ring_area demo_queue = {}"
proof -
  show r: "room demo_mm demo_heap [demo_chain] = [0x500, 0x501, 0x502, 0x503, 0x504, 0x505, 0x506, 0x507,
      0x508, 0x509, 0x50a, 0x50b, 0x50c, 0x50d, 0x50e, 0x50f]"
    by (simp add: room_def demo_chain_parts) (simp add: addrs_def upt_rec)
  show "distinct (room demo_mm demo_heap [demo_chain])" by (simp add: r)
  show "set (room demo_mm demo_heap [demo_chain]) \<inter> ring_area demo_queue = {}"
    by (simp add: room_def demo_chain_parts demo_buffers_apart)
qed

end
