(* ===== verification/Console_Worker.thy ===== *)
theory Console_Worker
  imports Data_Queue "HOL-Library.Sublist"
begin

text \<open>
  The console's worker (\<^verbatim>\<open>src/devices/virtio/console/worker.rs\<close>): the transmit queue carries the
  guest's output to the host's terminal, with cursor position queries taken out and answered; the
  receive queue carries the host's input to the guest.
\<close>

section \<open>The worker\<close>

text \<open>
  What the worker shares with the host: the bytes handed to the standard output (the worker ignores
  whether writing them and flushing succeeds), the input buffer, and whether the input event is signalled.
\<close>

record console_io =
  ci_output :: "u8 list"
  ci_input :: "u8 list"
  ci_event :: bool

definition DSR :: "u8 list" where "DSR = [0x1b, 0x5b, 0x36, 0x6e]"
definition CPR :: "u8 list" where "CPR = [0x1b, 0x5b, 0x31, 0x3b, 0x31, 0x52]"

function dsr_loop :: "u8 list \<Rightarrow> nat \<Rightarrow> u8 list \<Rightarrow> bool \<Rightarrow> u8 list \<times> bool" where
  "dsr_loop buf i res found =
     (if i < length buf then
        (if i + length DSR \<le> length buf \<and> take (length DSR) (drop i buf) = DSR
         then dsr_loop buf (i + length DSR) res True
         else dsr_loop buf (i + 1) (res @ [buf ! i]) found)
      else (res, found))"
  by pat_completeness auto
termination by (relation "measure (\<lambda>(buf, i, res, found). length buf - i)") (auto simp: DSR_def)

declare dsr_loop.simps [simp del]

definition filter_dsr_and_respond :: "u8 list \<Rightarrow> console_io \<Rightarrow> console_io \<times> u8 list" where
  "filter_dsr_and_respond buf io =
     (case dsr_loop buf 0 [] False of
        (res, found) \<Rightarrow>
          (if found then io\<lparr>ci_input := ci_input io @ CPR, ci_event := True\<rparr> else io, res))"

definition console_emit :: "u8 list \<Rightarrow> console_io \<Rightarrow> console_io" where
  "console_emit buf io =
     (case filter_dsr_and_respond buf io of
        (io', filtered) \<Rightarrow>
          if filtered \<noteq> [] then io'\<lparr>ci_output := ci_output io' @ filtered\<rparr> else io')"

definition console_tx_handle :: "memory_manager \<Rightarrow> console_io handler" where
  "console_tx_handle mm head q h io =
     (case reader_new mm h head of
        None \<Rightarrow> None
      | Some (Err _) \<Rightarrow> Some (q, h, io, False)
      | Some (Ok r) \<Rightarrow>
          let avail = available_bytes r
          in if 0 < avail then
               (case reader_read h r avail of
                  None \<Rightarrow> None
                | Some (_, Ok buf) \<Rightarrow> return_chain mm head 0 q h (console_emit buf io)
                | Some (_, Err _) \<Rightarrow> return_chain mm head 0 q h io)
             else return_chain mm head 0 q h io)"

definition console_process_tx_queue where
  "console_process_tx_queue env fuel mm =
     process_batch (finish_always env mm) fuel mm (console_tx_handle mm)"

definition console_process_tx_virtio_queue where
  "console_process_tx_virtio_queue env fuel mm =
     process_virtio_queues fuel mm (console_process_tx_queue env fuel mm)"

text \<open>
  The loop of \<^verbatim>\<open>process_rx_input\<close>; \<open>rest\<close> is \<^verbatim>\<open>data[offset..]\<close>.  What is left at the end is
  dropped.
\<close>

fun console_rx_loop ::
  "nat \<Rightarrow> memory_manager \<Rightarrow> u8 list \<Rightarrow> bool \<Rightarrow> queue \<Rightarrow> heap \<Rightarrow>
   (queue \<times> heap \<times> bool \<times> u8 list) panics option" where
  "console_rx_loop 0 mm rest used_any q h = None"
| "console_rx_loop (Suc fuel) mm rest used_any q h =
     (if rest = [] then Some (Some (q, h, used_any, rest))
      else case pop mm h q of
        None \<Rightarrow> Some None
      | Some (q1, None) \<Rightarrow> Some (Some (q1, h, used_any, rest))
      | Some (q1, Some head) \<Rightarrow>
          (case writer_new mm h head of
             None \<Rightarrow> Some None
           | Some (Err _) \<Rightarrow> console_rx_loop fuel mm rest used_any q1 h
           | Some (Ok w) \<Rightarrow>
               let to_write = min (length rest) (available_bytes w)
               in case write_all h w (take to_write rest) of
                    None \<Rightarrow> Some None
                  | Some (_, h1, res) \<Rightarrow>
                      (case add_used mm h1 q1 (dc_index head) (of_nat to_write) of
                         (q2, h2, _) \<Rightarrow>
                           console_rx_loop fuel mm
                             (case res of Ok _ \<Rightarrow> drop to_write rest | Err _ \<Rightarrow> rest) True q2 h2)))"

definition console_process_rx_input ::
  "mmio_env \<Rightarrow> nat \<Rightarrow> memory_manager \<Rightarrow> queue \<Rightarrow> heap \<Rightarrow> console_io \<times> irq_link \<Rightarrow>
   (queue \<times> heap \<times> console_io \<times> irq_link) panics option" where
  "console_process_rx_input env fuel mm q h s =
     (let data = ci_input (fst s); io = (fst s)\<lparr>ci_input := []\<rparr>
      in if data = [] then Some (Some (q, h, io, snd s))
         else case console_rx_loop fuel mm data False q h of
           None \<Rightarrow> None
         | Some None \<Rightarrow> Some None
         | Some (Some (q1, h1, used_any, _)) \<Rightarrow>
             Some (case finish_batch env mm h1 q1 (snd s) used_any of
                     None \<Rightarrow> None
                   | Some (q2, il) \<Rightarrow> Some (q2, h1, io, il)))"

section \<open>Filtering\<close>

text \<open>The specification: take out the leftmost query, then go on after it.\<close>

fun remove_dsr :: "u8 list \<Rightarrow> u8 list" where
  "remove_dsr [] = []"
| "remove_dsr (b # bs) =
     (if take 4 (b # bs) = DSR then remove_dsr (drop 3 bs) else b # remove_dsr bs)"

lemma length_DSR [simp]: "length DSR = 4"
  by (simp add: DSR_def)

lemma remove_dsr_skip: "take 4 xs = DSR \<Longrightarrow> remove_dsr xs = remove_dsr (drop 4 xs)"
  by (cases xs) (simp_all add: DSR_def numeral_eq_Suc)

lemma remove_dsr_keep: "take 4 (b # xs) \<noteq> DSR \<Longrightarrow> remove_dsr (b # xs) = b # remove_dsr xs"
  by simp

lemma prefix_DSR: "prefix DSR xs \<longleftrightarrow> take 4 xs = DSR"
  by (metis append_eq_conv_conj length_DSR prefix_def)

lemma dsr_loop_eq:
  "dsr_loop buf i res found =
     (res @ remove_dsr (drop i buf), found \<or> (i < length buf \<and> sublist DSR (drop i buf)))"
proof (induction buf i res found rule: dsr_loop.induct)
  case (1 buf i res found)
  show ?case
  proof (cases "i < length buf")
    case False
    then show ?thesis by (simp add: dsr_loop.simps [of buf i])
  next
    case i: True
    have d: "drop i buf = buf ! i # drop (Suc i) buf" using i by (simp add: Cons_nth_drop_Suc)
    show ?thesis
    proof (cases "take 4 (drop i buf) = DSR")
      case True
      have "length (take 4 (drop i buf)) = 4" by (simp only: True length_DSR)
      then have "i + 4 \<le> length buf" using i by simp
      moreover have "sublist DSR (drop i buf)"
        using True prefix_DSR [of "drop i buf"] by (simp add: prefix_imp_sublist)
      ultimately show ?thesis
        using i True 1(1) remove_dsr_skip [OF True]
        by (simp add: dsr_loop.simps [of buf i] add.commute)
    next
      case False
      have "sublist DSR (drop i buf) \<longleftrightarrow> sublist DSR (drop (Suc i) buf)"
        using False prefix_DSR [of "drop i buf"] by (simp add: d sublist_Cons_right)
      moreover have "sublist DSR (drop (Suc i) buf) \<longrightarrow> Suc i < length buf"
        by (auto dest!: sublist_length_le)
      moreover have "remove_dsr (drop i buf) = buf ! i # remove_dsr (drop (Suc i) buf)"
        using False remove_dsr_keep [of "buf ! i"] by (simp add: d)
      ultimately show ?thesis
        using i False 1(2) by (auto simp: dsr_loop.simps [of buf i])
    qed
  qed
qed

lemma sublist_DSR_nonempty: "sublist DSR buf \<Longrightarrow> 0 < length buf"
  by (auto dest!: sublist_length_le simp: DSR_def)

lemma console_emit_eq:
  "console_emit buf io =
     io\<lparr>ci_output := ci_output io @ remove_dsr buf,
        ci_input := ci_input io @ (if sublist DSR buf then CPR else []),
        ci_event := ci_event io \<or> sublist DSR buf\<rparr>"
  using sublist_DSR_nonempty [of buf]
  by (cases io) (auto simp: console_emit_def filter_dsr_and_respond_def dsr_loop_eq)

lemma remove_dsr_id: "\<not> sublist DSR buf \<Longrightarrow> remove_dsr buf = buf"
proof (induction buf)
  case Nil
  then show ?case by simp
next
  case (Cons b bs)
  then show ?case using prefix_DSR [of "b # bs"] by (auto simp: sublist_Cons_right)
qed

section \<open>The transmit queue\<close>

interpretation con: transmit_handler console_tx_handle console_emit
proof unfold_locales
  fix mm h and c :: descriptor_chain and q s
  assume a: "mm_wf mm" "0 < dc_ttl c" "\<forall>d \<in> set (readable (chain_iter mm h c)). mapped mm d"
  have e: "console_emit [] s = s" by (simp add: console_emit_eq DSR_def)
  show "console_tx_handle mm c q h s = return_chain mm c 0 q h (console_emit (chain_bytes mm h c) s)"
    by (rule reader_reads_chain [OF a], cases "chain_bytes mm h c = []")
      (simp_all add: console_tx_handle_def e)
next
  fix mm h and c :: descriptor_chain and q s
  assume a: "mm_wf mm" "0 < dc_ttl c" "\<not> (\<forall>d \<in> set (readable (chain_iter mm h c)). mapped mm d)"
  show "console_tx_handle mm c q h s = Some (q, h, s, False)"
    by (rule reader_refuses_chain [OF a]) (simp add: console_tx_handle_def)
qed

lemma console_emit_fold:
  "fold (\<lambda>c. console_emit (f c)) cs io =
     io\<lparr>ci_output := ci_output io @ concat (map (\<lambda>c. remove_dsr (f c)) cs),
        ci_input := ci_input io @ concat (map (\<lambda>c. if sublist DSR (f c) then CPR else []) cs),
        ci_event := ci_event io \<or> (\<exists>c \<in> set cs. sublist DSR (f c))\<rparr>"
  by (induction cs arbitrary: io) (auto simp: console_emit_eq)

section \<open>The receive queue\<close>

text \<open>One round: the bytes that fit go into the chain, in order, and the chain is returned.\<close>

lemma console_rx_step:
  assumes ok: "driver_ok mm h q (c # cs)" and acc: "accepted 0 mm h c" and ne: "rest \<noteq> []"
    and dist: "distinct (chain_addrs (writable (chain_iter mm h c)))"
    and apart: "write_area mm h c \<inter> ring_area q = {}"
  defines "A \<equiv> chain_addrs (writable (chain_iter mm h c))"
  obtains q2 h2 where
    "console_rx_loop (Suc fuel) mm rest u q h = console_rx_loop fuel mm (drop (length A) rest) True q2 h2"
    "driver_ok mm h2 q2 cs" "ring_area q2 = ring_area q"
    "same_view mm (- (ring_area q \<union> set A)) h h2" "same_view mm (driver_area q) h h2"
    "map (guest_view mm h2) (take (length rest) A) = map Some (take (length A) rest)"
proof -
  have wf: "mm_wf mm" using ok by (simp add: driver_ok_def)
  obtain w where w: "writer_new mm h c = Some (Ok w)" "consumer_ok w"
    "list_all2 (backs mm) (pending_addrs w) A" "available_bytes w = length A"
    using driver_ok_writer [OF ok acc] unfolding A_def by metis
  let ?n = "min (length rest) (length A)"
  obtain w' h1 where h1: "write_all h w (take ?n rest) = Some (w', h1, Ok ())"
    "guest_view mm h1 = view_poke (guest_view mm h) (zip A (take ?n rest))"
    by (rule write_all_fits [OF wf w(2,3), of "take ?n rest" h]) auto
  obtain q2 h2 res where au:
    "add_used mm h1 (q\<lparr>q_next_avail := q_next_avail q + 1\<rparr>) (dc_index c) (of_nat ?n) = (q2, h2, res)"
    by (metis prod_cases3)
  note fl = filled_chain_returned [OF ok dist apart h1(2) _ au A_def [THEN meta_eq_to_obj_eq]]
  have "take (length (take ?n rest)) A = take (length rest) A" "take ?n rest = take (length A) rest"
    by (simp_all add: min_def)
  then have g: "map (guest_view mm h2) (take (length rest) A) = map Some (take (length A) rest)"
    using fl(5) by simp
  have dr: "drop ?n rest = drop (length A) rest" by (simp add: min_def)
  have "console_rx_loop (Suc fuel) mm rest u q h = console_rx_loop fuel mm (drop (length A) rest) True q2 h2"
    using ne driver_ok_Cons(1) [OF ok] w(1,4) h1(1) au dr by simp
  then show thesis using that fl(1-4) g by simp
qed

lemma console_rx_loop_delivers:
  assumes "driver_ok mm h q cs" "\<forall>c \<in> set cs. accepted 0 mm h c" "length cs < fuel"
    and "distinct (room mm h cs)" "set (room mm h cs) \<inter> ring_area q = {}"
  shows "\<exists>q' h' u' cs'. console_rx_loop fuel mm rest u q h =
      Some (Some (q', h', u', drop (length (room mm h cs)) rest)) \<and> driver_ok mm h' q' cs' \<and>
    same_view mm (- (ring_area q \<union> set (room mm h cs))) h h' \<and>
    map (guest_view mm h') (take (length rest) (room mm h cs)) =
      map Some (take (length (room mm h cs)) rest)"
  using assms
proof (induction cs arbitrary: fuel rest u q h)
  case Nil
  then obtain f where "fuel = Suc f" by (cases fuel) auto
  then show ?case using driver_ok_Nil(1) [OF Nil.prems(1)] Nil.prems(1) by (auto simp: room_def)
next
  case (Cons c cs)
  obtain f where f: "fuel = Suc f" "length cs < f" using Cons.prems(3) by (cases fuel) auto
  show ?case
  proof (cases "rest = []")
    case True
    then show ?thesis using f Cons.prems(1) by (auto intro!: exI [of _ "c # cs"])
  next
    case ne: False
    define A where "A = chain_addrs (writable (chain_iter mm h c))"
    have R: "room mm h (c # cs) = A @ room mm h cs" by (simp add: room_def A_def)
    have apart: "write_area mm h c \<inter> ring_area q = {}" using Cons.prems(5) by (auto simp: R write_area_def A_def)
    have acc: "accepted 0 mm h c" and dist: "distinct (chain_addrs (writable (chain_iter mm h c)))"
      using Cons.prems(2,4) by (simp_all add: R A_def)
    obtain q2 h2 where st:
      "console_rx_loop (Suc f) mm rest u q h = console_rx_loop f mm (drop (length A) rest) True q2 h2"
      "driver_ok mm h2 q2 cs" "ring_area q2 = ring_area q"
      "same_view mm (- (ring_area q \<union> set A)) h h2" "same_view mm (driver_area q) h h2"
      "map (guest_view mm h2) (take (length rest) A) = map Some (take (length A) rest)"
      by (rule console_rx_step [OF Cons.prems(1) acc ne dist apart, of f u, folded A_def])
        (rule that, assumption+)
    have R2: "room mm h2 cs = room mm h cs" by (rule room_same_view [OF Cons.prems(1) st(5)]) auto
    have "\<forall>d \<in> set cs. accepted 0 mm h2 d"
      using Cons.prems(2) chain_iter_driver [OF Cons.prems(1) st(5)] by (simp add: accepted_def)
    moreover have "distinct (room mm h2 cs)" "set (room mm h2 cs) \<inter> ring_area q2 = {}"
      using Cons.prems(4,5) st(3) by (auto simp: R R2)
    ultimately obtain q' h' u' cs' where IH: "console_rx_loop f mm (drop (length A) rest) True q2 h2 =
        Some (Some (q', h', u', drop (length (room mm h cs)) (drop (length A) rest)))"
      "driver_ok mm h' q' cs'"
      "same_view mm (- (ring_area q \<union> set (room mm h cs))) h2 h'"
      "map (guest_view mm h') (take (length (drop (length A) rest)) (room mm h cs)) =
        map Some (take (length (room mm h cs)) (drop (length A) rest))"
      using Cons.IH [OF st(2) _ f(2), of "drop (length A) rest" True] unfolding R2 st(3) by blast
    have "set (take (length rest) A) \<subseteq> - (ring_area q \<union> set (room mm h cs))"
      using Cons.prems(4,5) by (auto simp: R dest: in_set_takeD)
    then have "map (guest_view mm h') (take (length rest) A) = map Some (take (length A) rest)"
      using map_same_view [OF IH(3)] st(6) by metis
    moreover have "same_view mm (- (ring_area q \<union> set (room mm h (c # cs)))) h h'"
      using st(4) IH(3) by (auto simp: same_view_def R)
    ultimately show ?thesis
      using f st(1) IH by (auto simp: R add.commute take_add)
  qed
qed

section \<open>Properties\<close>

text \<open>
  C19.  The guest's output: for a driver that keeps to the rules, a transmit event ends with the
  queue empty, every chain returned and the used-buffer interrupt raised; the bytes of the chains
  have been handed to the host's standard output in order, with the cursor position queries taken out, and each
  chain that held a query has put one answer into the input buffer.
\<close>

theorem console_tx_output:
  assumes "driver_ok mm h q cs" "length cs < fuel"
    and "sendable mm h q cs"
  shows "\<exists>q' h' io' il'.
    console_process_tx_virtio_queue env fuel mm q h (io, il) = Some (Some (q', h', io', il')) \<and>
    queue_len mm h' q' = Some 0 \<and> q_next_used q' = q_next_used q + of_nat (length cs) \<and>
    ci_output io' = ci_output io @ concat (map (\<lambda>c. remove_dsr (chain_bytes mm h c)) cs) \<and>
    ci_input io' =
      ci_input io @ concat (map (\<lambda>c. if sublist DSR (chain_bytes mm h c) then CPR else []) cs) \<and>
    il' = (if cs \<noteq> [] then signal_used_queue env il else il)"
  using con.event_emits [OF assms, of env io il]
  by (fastforce simp: console_process_tx_virtio_queue_def console_process_tx_queue_def console_emit_fold)

theorem console_tx_output_witness:
  "\<exists>q' h' io' il'.
    console_process_tx_virtio_queue demo_env 2 demo_mm demo_queue demo_heap
      (\<lparr>ci_output = [], ci_input = [], ci_event = False\<rparr>, demo_link) = Some (Some (q', h', io', il')) \<and>
    q_next_used q' = 1 \<and> ci_output io' = [0, 0, 0, 0, 0, 0, 0, 0, 0, 0, 0, 0, 0, 0, 0, 0]"
  using console_tx_output [OF demo_driver_ok _ demo_sendable, of 2 demo_env
      "\<lparr>ci_output = [], ci_input = [], ci_event = False\<rparr>" demo_link]
  by (auto simp: demo_chain_bytes DSR_def demo_queue_def)

text \<open>
  The filter: it removes queries from left to right and answers once when there was one; a
  buffer without queries is not changed.  But what is left may again be a query, when the guest
  writes one inside another.
\<close>

theorem console_filter_spec:
  "filter_dsr_and_respond buf io =
     (if sublist DSR buf then io\<lparr>ci_input := ci_input io @ CPR, ci_event := True\<rparr> else io, remove_dsr buf) \<and>
   (remove_dsr buf = buf \<or> sublist DSR buf) \<and>
   snd (filter_dsr_and_respond (take 2 DSR @ DSR @ drop 2 DSR) io) = DSR"
  using remove_dsr_id [of buf] sublist_DSR_nonempty [of buf]
  by (auto simp: filter_dsr_and_respond_def dsr_loop_eq) (simp add: DSR_def)

text \<open>
  C20.  Input for the guest: the bytes of the input buffer go, in order, into the receive buffers
  the driver offers, and nothing but these buffers and the used ring changes; the input buffer is
  empty afterwards, so the bytes for which there is no room are lost.
\<close>

theorem console_rx_delivers:
  assumes "driver_ok mm h q cs" "\<forall>c \<in> set cs. accepted 0 mm h c" "length cs < fuel"
    and "distinct (room mm h cs)" "set (room mm h cs) \<inter> ring_area q = {}"
  shows "\<exists>q' h' il'. console_process_rx_input env fuel mm q h (io, il) =
      Some (Some (q', h', io\<lparr>ci_input := []\<rparr>, il')) \<and>
    map (guest_view mm h') (take (length (ci_input io)) (room mm h cs)) =
      map Some (take (length (room mm h cs)) (ci_input io)) \<and>
    (\<forall>a. a \<in> ring_area q \<or> a \<in> set (room mm h cs) \<or> guest_view mm h' a = guest_view mm h a)"
proof -
  obtain q1 h1 u cs' where l: "console_rx_loop fuel mm (ci_input io) False q h =
      Some (Some (q1, h1, u, drop (length (room mm h cs)) (ci_input io)))" "driver_ok mm h1 q1 cs'"
    "same_view mm (- (ring_area q \<union> set (room mm h cs))) h h1"
    "map (guest_view mm h1) (take (length (ci_input io)) (room mm h cs)) =
      map Some (take (length (room mm h cs)) (ci_input io))"
    using console_rx_loop_delivers [OF assms] by blast
  have v: "\<forall>a. a \<in> ring_area q \<or> a \<in> set (room mm h cs) \<or> guest_view mm h1 a = guest_view mm h a"
    using l(3) by (auto simp: same_view_def)
  obtain q2 il' where f: "finish_batch env mm h1 q1 il u = Some (q2, il')"
    using finish_batch_ok [OF l(2)] by metis
  show ?thesis
  proof (cases "ci_input io = []")
    case True
    then show ?thesis by (simp add: console_process_rx_input_def)
  next
    case False
    then show ?thesis using l(1,4) f v by (simp add: console_process_rx_input_def Let_def)
  qed
qed

theorem console_rx_delivers_witness:
  "\<exists>q' h' il'. console_process_rx_input demo_env 2 demo_mm demo_queue demo_heap
      (\<lparr>ci_output = [], ci_input = [104, 105], ci_event = False\<rparr>, demo_link) =
      Some (Some (q', h', \<lparr>ci_output = [], ci_input = [], ci_event = False\<rparr>, il')) \<and>
    guest_view demo_mm h' 0x500 = Some 104 \<and> guest_view demo_mm h' 0x501 = Some 105"
  using console_rx_delivers [OF demo_driver_ok _ _ demo_room(2,3), of 2 demo_env
      "\<lparr>ci_output = [], ci_input = [104, 105], ci_event = False\<rparr>" demo_link]
    demo_accepted [of 0] unfolding demo_room(1) by auto

end
