(* ===== verification/Net_Worker.thy ===== *)
theory Net_Worker
  imports Data_Queue Byte_Order
begin

text \<open>
  The network device's worker (\<^verbatim>\<open>src/devices/virtio/net/worker.rs\<close>).  Frames travel between the
  guest and the \<^verbatim>\<open>gvproxy\<close> child process, in both directions as a two-byte length and the frame.
  The transmit queue strips the header the driver puts before a frame and sends the frame to the
  child's standard input; a reader thread decodes the child's standard output into a list of
  pending frames, which the receive queue takes into the buffers of the guest.
\<close>

section \<open>The pipes\<close>

text \<open>
  The child's standard input: the bytes it took, and how many more it takes before it closes its
  end (every point of time at which the child may go away is a value of \<open>in_room\<close>).
\<close>

record child_stdin =
  in_taken :: "u8 list"
  in_room :: nat

definition stdin_write_all :: "child_stdin \<Rightarrow> u8 list \<Rightarrow> child_stdin \<times> bool" where
  "stdin_write_all p bs =
     (p\<lparr>in_taken := in_taken p @ take (in_room p) bs, in_room := in_room p - length bs\<rparr>,
      length bs \<le> in_room p)"

text \<open>
  The child's standard output: what reading it gives until the child closes its end, a byte or \<open>None\<close> for
  a read that fails with an error of its own.  \<^verbatim>\<open>read_exact\<close> fails with \<^verbatim>\<open>UnexpectedEof\<close> when too
  few bytes are left, and at the first failing read with its error; the bytes taken until then are lost.
\<close>

type_synonym pipe = "u8 option list"

datatype frame_error = UnexpectedEof | InvalidData | ReadFailed

fun stdout_read_exact :: "pipe \<Rightarrow> nat \<Rightarrow> pipe \<times> (frame_error, u8 list) result" where
  "stdout_read_exact stream 0 = (stream, Ok [])"
| "stdout_read_exact [] (Suc n) = ([], Err UnexpectedEof)"
| "stdout_read_exact (None # stream) (Suc n) = (stream, Err ReadFailed)"
| "stdout_read_exact (Some b # stream) (Suc n) =
     (case stdout_read_exact stream n of
        (stream', Err e) \<Rightarrow> (stream', Err e)
      | (stream', Ok bs) \<Rightarrow> (stream', Ok (b # bs)))"

lemma stdout_read_exact_shrinks:
  "stdout_read_exact s n = (s', r) \<Longrightarrow>
     length s' \<le> length s \<and> (0 < n \<and> r \<noteq> Err UnexpectedEof \<longrightarrow> length s' < length s) \<and> (r = Err UnexpectedEof \<longrightarrow> s' = [])"
proof (induction s n arbitrary: s' r rule: stdout_read_exact.induct)
  case (4 b stream n)
  obtain s1 r1 where "stdout_read_exact stream n = (s1, r1)" by fastforce
  then show ?case using 4 by (cases r1) auto
qed auto

lemma stdout_read_exact_bytes: "stdout_read_exact (map Some bs @ s) (length bs) = (s, Ok bs)"
  by (induction bs) simp_all

section \<open>The worker\<close>

definition NET_HDR_SIZE :: nat where "NET_HDR_SIZE = 12"
definition MAX_FRAME_SIZE :: nat where "MAX_FRAME_SIZE = 1514"
definition BATCH_SIZE :: nat where "BATCH_SIZE = 32"

definition default_rx_header :: "u8 list" where
  "default_rx_header = (replicate NET_HDR_SIZE 0)[10 := 1]"

record net_worker =
  nw_stdin :: "child_stdin option"
  nw_rx_pending :: "u8 list list"
  nw_rx_ready :: bool

definition net_worker_new :: net_worker where
  "net_worker_new = \<lparr>nw_stdin = None, nw_rx_pending = [], nw_rx_ready = False\<rparr>"

definition read_frame :: "pipe \<Rightarrow> pipe \<times> (frame_error, u8 list) result" where
  "read_frame stdout =
     (case stdout_read_exact stdout 2 of
        (stdout', Err e) \<Rightarrow> (stdout', Err e)
      | (stdout', Ok len_buf) \<Rightarrow>
          let len = unat (from_le len_buf :: u16)
          in if len = 0 \<or> MAX_FRAME_SIZE < len then (stdout', Err InvalidData)
             else stdout_read_exact stdout' len)"

lemma read_frame_cases:
  assumes "read_frame s = (s', r)"
  shows "length s' \<le> length s \<and> (r \<noteq> Err UnexpectedEof \<longrightarrow> length s' < length s) \<and> (r = Err UnexpectedEof \<longrightarrow> s' = [])"
proof -
  obtain s1 r1 where r1: "stdout_read_exact s 2 = (s1, r1)" by fastforce
  note a = stdout_read_exact_shrinks [OF r1]
  show ?thesis
  proof (cases r1)
    case (Err e)
    then show ?thesis using assms r1 a by (auto simp: read_frame_def)
  next
    case (Ok len_buf)
    then show ?thesis
      using assms r1 a stdout_read_exact_shrinks [of s1 "unat (from_le len_buf :: u16)" s' r]
      by (auto simp: read_frame_def Let_def split: if_splits)
  qed
qed

lemma read_frame_shrinks:
  assumes "read_frame s = (s', r)"
  shows "length s' \<le> length s" "r \<noteq> Err UnexpectedEof \<Longrightarrow> length s' < length s"
  using read_frame_cases [OF assms] by simp_all

text \<open>
  The inner loop of the reader thread: after a first frame it goes on while the pipe reports
  bytes and the batch is not full.  \<open>peek\<close> is what \<^verbatim>\<open>PeekNamedPipe\<close> reports (\<open>None\<close>: the call
  fails, and \<^verbatim>\<open>bytes_available\<close> keeps its value), as a function of the bytes still to come.
\<close>

function rx_batch ::
  "(pipe \<Rightarrow> u32 option) \<Rightarrow> pipe \<Rightarrow> u8 list list \<Rightarrow> nat \<Rightarrow> u32 \<Rightarrow> pipe \<times> u8 list list" where
  "rx_batch peek stdout rx_pending n_frame bytes_available =
     (let bytes_available = (case peek stdout of Some b \<Rightarrow> b | None \<Rightarrow> bytes_available)
      in if bytes_available = 0 \<or> BATCH_SIZE \<le> n_frame then (stdout, rx_pending)
         else case read_frame stdout of
           (stdout', Ok frame) \<Rightarrow> rx_batch peek stdout' (rx_pending @ [frame]) (n_frame + 1) 0
         | (stdout', Err UnexpectedEof) \<Rightarrow> (stdout', rx_pending)
         | (stdout', Err _) \<Rightarrow> rx_batch peek stdout' rx_pending n_frame bytes_available)"
  by pat_completeness auto
termination
  by (relation "measure (\<lambda>(_, stdout, _). length stdout)")
    (auto dest!: read_frame_shrinks(2) [OF sym] split: option.splits)

declare rx_batch.simps [simp del]

text \<open>
  The specification of the reader thread: the frames in a stream of bytes, lengths that are not
  valid skipped, and those during which a read failed.
\<close>

function frames_of :: "pipe \<Rightarrow> u8 list list" where
  "frames_of stream =
     (case read_frame stream of
        (stream', Ok frame) \<Rightarrow> frame # frames_of stream'
      | (stream', Err UnexpectedEof) \<Rightarrow> []
      | (stream', Err _) \<Rightarrow> frames_of stream')"
  by pat_completeness auto
termination
  by (relation "measure length") (auto dest!: read_frame_shrinks(2) [OF sym])

declare frames_of.simps [simp del]

lemma frames_of_Nil [simp]: "frames_of [] = []"
  by (subst frames_of.simps) (simp add: read_frame_def numeral_2_eq_2)

lemma read_frame_eof: "read_frame s = (s', Err UnexpectedEof) \<Longrightarrow> s' = []"
  using read_frame_cases by blast

text \<open>A batch takes some frames off the stream, in order.\<close>

lemma rx_batch_spec:
  "\<exists>s' d. rx_batch peek s fs n b = (s', fs @ d) \<and> frames_of s = d @ frames_of s' \<and> length s' \<le> length s"
proof (induction peek s fs n b rule: rx_batch.induct)
  case (1 peek s fs n b)
  define b' where "b' = (case peek s of Some b \<Rightarrow> b | None \<Rightarrow> b)"
  note step = rx_batch.simps [of peek s fs n b, folded b'_def, unfolded Let_def]
  show ?case
  proof (cases "b' = 0 \<or> BATCH_SIZE \<le> n")
    case True
    then show ?thesis using step by auto
  next
    case go: False
    obtain s1 r where r: "read_frame s = (s1, r)" by fastforce
    note l = read_frame_shrinks [OF r]
    consider (frame) f where "r = Ok f" | (skipped) e where "r = Err e" "e \<noteq> UnexpectedEof" | (eof) "r = Err UnexpectedEof"
      by (metis result.exhaust)
    then show ?thesis
    proof cases
      case (frame f)
      then obtain s' d where "rx_batch peek s1 (fs @ [f]) (n + 1) 0 = (s', fs @ f # d)"
        "frames_of s1 = d @ frames_of s'" "length s' \<le> length s1"
        using "1.IH"(3) [OF b'_def go r [symmetric] frame] by auto
      then show ?thesis using go step r l frame by (auto simp: frames_of.simps [of s])
    next
      case (skipped e)
      then obtain s' d where "rx_batch peek s1 fs n b' = (s', fs @ d)"
        "frames_of s1 = d @ frames_of s'" "length s' \<le> length s1"
        using "1.IH"(1,2) [OF b'_def go r [symmetric] skipped(1)] by (cases e) auto
      then show ?thesis using go step r l skipped by (cases e) (auto simp: frames_of.simps [of s])
    next
      case eof
      then show ?thesis using go step r l read_frame_eof [of s s1] by (auto simp: frames_of.simps [of s])
    qed
  qed
qed

text \<open>
  The loop of the reader thread, to the end of the child's output.  It goes on after every error but the end of the
  file; if the reads never stop failing (an infinite \<open>pipe\<close>), neither does the loop.
\<close>

function rx_reader_loop ::
  "(pipe \<Rightarrow> u32 option) \<Rightarrow> pipe \<Rightarrow> net_worker \<Rightarrow> net_worker" where
  "rx_reader_loop peek stdout w =
     (case read_frame stdout of
        (stdout', Err UnexpectedEof) \<Rightarrow> w
      | (stdout', Err _) \<Rightarrow> rx_reader_loop peek stdout' w
      | (stdout', Ok frame) \<Rightarrow>
          (case rx_batch peek stdout' (nw_rx_pending w @ [frame]) 1 0 of
             (stdout2, frames) \<Rightarrow>
               rx_reader_loop peek stdout2 (w\<lparr>nw_rx_pending := frames, nw_rx_ready := True\<rparr>)))"
  by pat_completeness auto
termination
proof (relation "measure (\<lambda>(_, stdout, _). length stdout)", goal_cases)
  case (4 peek stdout w x y frame s2 fs)
  have "length x < length stdout" using read_frame_shrinks(2) [of stdout x y] 4(1,2) by simp
  moreover have "length s2 \<le> length x"
    using rx_batch_spec [of peek x "nw_rx_pending w @ [frame]" 1 0] 4(3) by (metis prod.inject)
  ultimately show ?case by simp
qed (auto dest!: read_frame_shrinks(2) [OF sym])

declare rx_reader_loop.simps [simp del]

text \<open>One chain of the transmit queue.\<close>

definition net_send :: "u8 list \<Rightarrow> child_stdin \<Rightarrow> child_stdin" where
  "net_send buf stdin =
     (if NET_HDR_SIZE < length buf then
        let frame = drop NET_HDR_SIZE buf;
            len_prefix = to_le 2 (of_nat (length frame) :: u16)
        in case stdin_write_all stdin len_prefix of
             (stdin', True) \<Rightarrow> fst (stdin_write_all stdin' frame)
           | (stdin', False) \<Rightarrow> stdin'
      else stdin)"

definition net_tx_handle :: "memory_manager \<Rightarrow> child_stdin handler" where
  "net_tx_handle mm head q h stdin =
     (case reader_new mm h head of
        None \<Rightarrow> None
      | Some (Err _) \<Rightarrow> Some (q, h, stdin, False)
      | Some (Ok r) \<Rightarrow>
          let avail = available_bytes r
          in if NET_HDR_SIZE < avail then
               (case reader_read h r avail of
                  None \<Rightarrow> None
                | Some (_, Ok buf) \<Rightarrow> return_chain mm head 0 q h (net_send buf stdin)
                | Some (_, Err _) \<Rightarrow> return_chain mm head 0 q h stdin)
             else return_chain mm head 0 q h stdin)"

definition process_tx_queue ::
  "mmio_env \<Rightarrow> nat \<Rightarrow> memory_manager \<Rightarrow> queue \<Rightarrow> heap \<Rightarrow> net_worker \<times> irq_link \<Rightarrow>
   (queue \<times> heap \<times> net_worker \<times> irq_link) panics option" where
  "process_tx_queue env fuel mm q h s =
     (case nw_stdin (fst s) of
        None \<Rightarrow> Some (Some (q, h, s))
      | Some stdin \<Rightarrow>
          (case process_batch (finish_always env mm) fuel mm (net_tx_handle mm) q h (stdin, snd s) of
             None \<Rightarrow> None
           | Some None \<Rightarrow> Some None
           | Some (Some (q', h', stdin', il)) \<Rightarrow>
               Some (Some (q', h', (fst s)\<lparr>nw_stdin := Some stdin'\<rparr>, il))))"

definition process_tx_virtio_queue ::
  "mmio_env \<Rightarrow> nat \<Rightarrow> memory_manager \<Rightarrow> queue \<Rightarrow> heap \<Rightarrow> net_worker \<times> irq_link \<Rightarrow>
   (queue \<times> heap \<times> net_worker \<times> irq_link) panics option" where
  "process_tx_virtio_queue env fuel mm =
     process_virtio_queues fuel mm (process_tx_queue env fuel mm)"

text \<open>
  The loop over the frames taken from the pending list; the last component of the result is what
  is put back.
\<close>

fun rx_deliver ::
  "memory_manager \<Rightarrow> u8 list list \<Rightarrow> bool \<Rightarrow> queue \<Rightarrow> heap \<Rightarrow>
   (queue \<times> heap \<times> bool \<times> u8 list list) panics" where
  "rx_deliver mm [] used_any q h = Some (q, h, used_any, [])"
| "rx_deliver mm (frame # packets) used_any q h =
     (if MAX_FRAME_SIZE < length frame then rx_deliver mm packets used_any q h
      else case pop mm h q of
        None \<Rightarrow> None
      | Some (q1, None) \<Rightarrow> Some (q1, h, used_any, frame # packets)
      | Some (q1, Some head) \<Rightarrow>
          (case writer_new mm h head of
             None \<Rightarrow> None
           | Some (Err _) \<Rightarrow> rx_deliver mm packets used_any q1 h
           | Some (Ok w) \<Rightarrow>
               if available_bytes w < NET_HDR_SIZE + length frame then
                 (case add_used mm h q1 (dc_index head) 0 of
                    (q2, h2, _) \<Rightarrow> rx_deliver mm packets used_any q2 h2)
               else
                 (case write_all h w default_rx_header of
                    None \<Rightarrow> None
                  | Some (w1, h1, Err _) \<Rightarrow>
                      (case add_used mm h1 q1 (dc_index head) 0 of
                         (q2, h2, _) \<Rightarrow> rx_deliver mm packets used_any q2 h2)
                  | Some (w1, h1, Ok _) \<Rightarrow>
                      (case write_all h1 w1 frame of
                         None \<Rightarrow> None
                       | Some (w2, h2, res) \<Rightarrow>
                           let written = of_nat NET_HDR_SIZE +
                             (case res of Ok _ \<Rightarrow> of_nat (length frame) | Err _ \<Rightarrow> 0)
                           in case add_used mm h2 q1 (dc_index head) written of
                                (q3, h3, _) \<Rightarrow> rx_deliver mm packets True q3 h3))))"

text \<open>
  \<open>arrived\<close> are the frames the reader thread appends to the pending list while this runs.
\<close>

definition process_rx_virtio_queue ::
  "mmio_env \<Rightarrow> memory_manager \<Rightarrow> u8 list list \<Rightarrow> queue \<Rightarrow> heap \<Rightarrow> net_worker \<times> irq_link \<Rightarrow>
   (queue \<times> heap \<times> net_worker \<times> irq_link) panics" where
  "process_rx_virtio_queue env mm arrived q h s =
     (let packets = nw_rx_pending (fst s); w = (fst s)\<lparr>nw_rx_pending := arrived\<rparr>
      in if packets = [] then Some (q, h, w, snd s)
         else case rx_deliver mm packets False q h of
           None \<Rightarrow> None
         | Some (q1, h1, used_any, requeued) \<Rightarrow>
             (case finish_batch env mm h1 q1 (snd s) used_any of
                None \<Rightarrow> None
              | Some (q2, il) \<Rightarrow>
                  Some (q2, h1, w\<lparr>nw_rx_pending := nw_rx_pending w @ requeued\<rparr>, il)))"

section \<open>The stream of frames\<close>

lemma rx_reader_loop_eq:
  "rx_reader_loop peek stream w =
     w\<lparr>nw_rx_pending := nw_rx_pending w @ frames_of stream,
       nw_rx_ready := nw_rx_ready w \<or> frames_of stream \<noteq> []\<rparr>"
proof (induction peek stream w rule: rx_reader_loop.induct)
  case (1 peek s w)
  obtain s1 r where r: "read_frame s = (s1, r)" by fastforce
  consider (frame) f where "r = Ok f" | (skipped) e where "r = Err e" "e \<noteq> UnexpectedEof" | (eof) "r = Err UnexpectedEof"
    by (metis result.exhaust)
  then show ?case
  proof cases
    case (frame f)
    obtain s2 d where b: "rx_batch peek s1 (nw_rx_pending w @ [f]) 1 0 = (s2, nw_rx_pending w @ f # d)"
      "frames_of s1 = d @ frames_of s2"
      using rx_batch_spec [of peek s1 "nw_rx_pending w @ [f]" 1 0] by auto
    show ?thesis
      using "1.IH"(3) [OF r [symmetric] frame b(1) [symmetric]] r frame b
      by (simp add: rx_reader_loop.simps [of peek s] frames_of.simps [of s])
  next
    case (skipped e)
    then show ?thesis
      using "1.IH"(1,2) [OF r [symmetric] skipped(1)] r
      by (cases e) (simp_all add: rx_reader_loop.simps [of peek s] frames_of.simps [of s])
  next
    case eof
    then show ?thesis
      using r by (cases w) (simp add: rx_reader_loop.simps [of peek s] frames_of.simps [of s])
  qed
qed

text \<open>How a frame is sent, and which frames the other side takes.\<close>

definition encode_frame :: "u8 list \<Rightarrow> u8 list" where
  "encode_frame frame = to_le 2 (of_nat (length frame) :: u16) @ frame"

definition valid_frame :: "u8 list \<Rightarrow> bool" where
  "valid_frame frame \<longleftrightarrow> 0 < length frame \<and> length frame \<le> MAX_FRAME_SIZE"

lemma frames_of_encode:
  assumes "valid_frame f"
  shows "frames_of (map Some (encode_frame f) @ s) = f # frames_of s"
proof -
  have l: "unat (of_nat (length f) :: u16) = length f" "f \<noteq> []" "\<not> MAX_FRAME_SIZE < length f"
    using assms by (auto simp: valid_frame_def MAX_FRAME_SIZE_def unat_of_nat)
  have p: "from_le (to_le 2 (of_nat (length f) :: u16)) = (of_nat (length f) :: u16)"
    by (rule from_le_to_le) simp
  have "stdout_read_exact (map Some (encode_frame f) @ s) 2 = (map Some f @ s, Ok (to_le 2 (of_nat (length f) :: u16)))"
    using stdout_read_exact_bytes [of "to_le 2 (of_nat (length f) :: u16)" "map Some f @ s"] by (simp add: encode_frame_def)
  then have "read_frame (map Some (encode_frame f) @ s) = (s, Ok f)"
    using l p stdout_read_exact_bytes [of f s] by (simp add: read_frame_def Let_def)
  then show ?thesis by (subst frames_of.simps) simp
qed

lemma frames_of_encoded: "\<forall>f \<in> set fs. valid_frame f \<Longrightarrow> frames_of (map Some (concat (map encode_frame fs)) @ s) = fs @ frames_of s"
  by (induction fs) (simp_all add: frames_of_encode)

section \<open>The transmit queue\<close>

text \<open>What a chain with the bytes \<open>buf\<close> puts on the wire.\<close>

definition wire :: "u8 list \<Rightarrow> u8 list" where
  "wire buf = (if NET_HDR_SIZE < length buf then encode_frame (drop NET_HDR_SIZE buf) else [])"

lemma net_send_room:
  "length (wire buf) \<le> in_room p \<Longrightarrow>
     net_send buf p = p\<lparr>in_taken := in_taken p @ wire buf, in_room := in_room p - length (wire buf)\<rparr>"
  by (cases p) (auto simp: net_send_def wire_def encode_frame_def stdin_write_all_def Let_def)

lemma net_send_fold:
  assumes "length (concat (map (\<lambda>c. wire (f c)) cs)) \<le> in_room p"
  shows "in_taken (fold (\<lambda>c. net_send (f c)) cs p) = in_taken p @ concat (map (\<lambda>c. wire (f c)) cs)"
  using assms by (induction cs arbitrary: p) (simp_all add: net_send_room)

interpretation net: transmit_handler net_tx_handle net_send
proof unfold_locales
  fix mm h and c :: descriptor_chain and q s
  assume a: "mm_wf mm" "0 < dc_ttl c" "\<forall>d \<in> set (readable (chain_iter mm h c)). mapped mm d"
  show "net_tx_handle mm c q h s = return_chain mm c 0 q h (net_send (chain_bytes mm h c) s)"
    by (rule reader_reads_chain [OF a], cases "NET_HDR_SIZE < length (chain_bytes mm h c)")
      (simp_all add: net_tx_handle_def net_send_def)
next
  fix mm h and c :: descriptor_chain and q s
  assume a: "mm_wf mm" "0 < dc_ttl c" "\<not> (\<forall>d \<in> set (readable (chain_iter mm h c)). mapped mm d)"
  show "net_tx_handle mm c q h s = Some (q, h, s, False)"
    by (rule reader_refuses_chain [OF a]) (simp add: net_tx_handle_def)
qed

text \<open>The loop over a larger state does the same on its part of the state.\<close>

lemma process_virtio_queues_embed:
  assumes "\<And>q h s. big q h (emb s) = map_option (map_option (\<lambda>(q, h, s). (q, h, emb s))) (small q h s)"
  shows "process_virtio_queues n mm big q h (emb s) =
    map_option (map_option (\<lambda>(q, h, s). (q, h, emb s))) (process_virtio_queues n mm small q h s)"
proof (induction n arbitrary: q h s)
  case (Suc n)
  then show ?case
    by (auto simp: assms split: result.split option.split prod.split)
qed simp

lemma process_tx_queue_embed:
  "process_tx_queue env fuel mm q h (w\<lparr>nw_stdin := Some p\<rparr>, il) =
     map_option (map_option (\<lambda>(q, h, p, il). (q, h, w\<lparr>nw_stdin := Some p\<rparr>, il)))
       (process_batch (finish_always env mm) fuel mm (net_tx_handle mm) q h (p, il))"
  by (auto simp: process_tx_queue_def split: option.split)

lemma process_tx_event:
  assumes "driver_ok mm h q cs" "length cs < fuel" "sendable mm h q cs" "nw_stdin w = Some p"
  shows "\<exists>q' h'. process_tx_virtio_queue env fuel mm q h (w, il) =
      Some (Some (q', h', w\<lparr>nw_stdin := Some (fold (\<lambda>c. net_send (chain_bytes mm h c)) cs p)\<rparr>,
        if cs \<noteq> [] then signal_used_queue env il else il)) \<and>
    queue_len mm h' q' = Some 0 \<and> q_next_used q' = q_next_used q + of_nat (length cs)"
proof -
  define emb where "emb = (\<lambda>(p, il :: irq_link). (w\<lparr>nw_stdin := Some p\<rparr>, il))"
  have "process_tx_queue env fuel mm q h (emb s) = map_option (map_option (\<lambda>(q, h, s). (q, h, emb s)))
      (process_batch (finish_always env mm) fuel mm (net_tx_handle mm) q h s)" for q h s
    by (cases s) (simp add: emb_def process_tx_queue_embed split_def)
  note e = process_virtio_queues_embed [where big = "process_tx_queue env fuel mm" and emb = emb, OF this]
  have "emb (p, il) = (w, il)" using assms(4) by (cases w) (simp add: emb_def)
  then show ?thesis
    using net.event_emits [OF assms(1-3), of env p il] e [of fuel mm q h "(p, il)"]
    by (auto simp: process_tx_virtio_queue_def emb_def)
qed

section \<open>The receive queue\<close>

lemma view_poke_append: "view_poke v (ps @ rs) = view_poke (view_poke v ps) rs"
  by (simp add: view_poke_def)

lemma zip_append_drop:
  "length bs \<le> length as \<Longrightarrow> zip as (bs @ cs) = zip as bs @ zip (drop (length bs) as) cs"
  by (induction bs arbitrary: as) (auto simp: Suc_le_length_iff)

lemma default_rx_header_length [simp]: "length default_rx_header = 12"
  by (simp add: default_rx_header_def NET_HDR_SIZE_def)

text \<open>One frame: header and frame go into the oldest chain, and the chain is returned.\<close>

lemma rx_deliver_step:
  assumes ok: "driver_ok mm h q (c # cs)" and acc: "accepted 0 mm h c"
    and dist: "distinct (room mm h [c])" and apart: "set (room mm h [c]) \<inter> ring_area q = {}"
    and fr: "length f \<le> MAX_FRAME_SIZE" "12 + length f \<le> length (room mm h [c])"
  obtains q2 h2 where "rx_deliver mm (f # fs) u q h = rx_deliver mm fs True q2 h2"
    "driver_ok mm h2 q2 cs" "ring_area q2 = ring_area q" "q_next_used q2 = q_next_used q + 1"
    "same_view mm (- (ring_area q \<union> set (room mm h [c]))) h h2" "same_view mm (driver_area q) h h2"
    "map (guest_view mm h2) (take (12 + length f) (room mm h [c])) = map Some (default_rx_header @ f)"
proof -
  define A where "A = chain_addrs (writable (chain_iter mm h c))"
  have R: "room mm h [c] = A" by (simp add: room_def A_def)
  have wf: "mm_wf mm" using ok by (simp add: driver_ok_def)
  obtain w where w: "writer_new mm h c = Some (Ok w)" "consumer_ok w"
    "list_all2 (backs mm) (pending_addrs w) A" "available_bytes w = length A"
    using driver_ok_writer [OF ok acc] unfolding A_def by metis
  obtain w1 h1 where h1: "write_all h w default_rx_header = Some (w1, h1, Ok ())" "consumer_ok w1"
    "list_all2 (backs mm) (pending_addrs w1) (drop 12 A)"
    "guest_view mm h1 = view_poke (guest_view mm h) (zip A default_rx_header)"
    using fr(2) R by (auto intro: write_all_fits [OF wf w(2,3), of default_rx_header h])
  obtain w2 h2 where h2: "write_all h1 w1 f = Some (w2, h2, Ok ())"
    "guest_view mm h2 = view_poke (guest_view mm h1) (zip (drop 12 A) f)"
    using fr(2) R by (auto intro: write_all_fits [OF wf h1(2,3), of f h1])
  have view: "guest_view mm h2 = view_poke (guest_view mm h) (zip A (default_rx_header @ f))"
    using h1(4) h2(2) fr(2) R by (simp add: zip_append_drop view_poke_append)
  obtain q3 h3 res where au: "add_used mm h2 (q\<lparr>q_next_avail := q_next_avail q + 1\<rparr>) (dc_index c)
      (of_nat NET_HDR_SIZE + of_nat (length f)) = (q3, h3, res)" by (metis prod_cases3)
  have ap: "write_area mm h c \<inter> ring_area q = {}" using apart by (simp add: R A_def write_area_def)
  note fl = filled_chain_returned [OF ok dist [unfolded R A_def] ap view _ au A_def]
  have "rx_deliver mm (f # fs) u q h = rx_deliver mm fs True q3 h3"
    using driver_ok_Cons(1) [OF ok] w(1,4) h1(1) h2(1) au fr R by (simp add: NET_HDR_SIZE_def)
  then show thesis using that fl fr(2) by (simp add: R)
qed

lemma rx_deliver_frames:
  assumes "driver_ok mm h q cs" "\<forall>c \<in> set cs. accepted 0 mm h c"
    and "distinct (room mm h cs)" "set (room mm h cs) \<inter> ring_area q = {}"
    and "\<forall>f \<in> set fs. length f \<le> MAX_FRAME_SIZE"
    and "\<forall>(c, f) \<in> set (zip cs fs). 12 + length f \<le> length (room mm h [c])"
  shows "\<exists>q' h' u' cs'. rx_deliver mm fs u q h = Some (q', h', u', drop (length cs) fs) \<and> driver_ok mm h' q' cs' \<and>
    q_next_used q' = q_next_used q + of_nat (min (length cs) (length fs)) \<and>
    (u' \<longleftrightarrow> u \<or> (cs \<noteq> [] \<and> fs \<noteq> [])) \<and>
    same_view mm (- (ring_area q \<union> set (room mm h cs))) h h' \<and>
    map (\<lambda>(c, f). map (guest_view mm h') (take (12 + length f) (room mm h [c]))) (zip cs fs) =
      map (\<lambda>(c, f). map Some (default_rx_header @ f)) (zip cs fs)"
  using assms
proof (induction fs arbitrary: cs u q h)
  case Nil
  then show ?case by auto
next
  case (Cons f fs)
  note fs = Cons
  show ?case
  proof (cases cs)
    case Nil
    then show ?thesis using fs(2,6) driver_ok_Nil(1) by fastforce
  next
    case cs: (Cons c cs')
    have R: "room mm h cs = room mm h [c] @ room mm h cs'" by (simp add: room_def cs)
    obtain q2 h2 where st: "rx_deliver mm (f # fs) u q h = rx_deliver mm fs True q2 h2"
      "driver_ok mm h2 q2 cs'" "ring_area q2 = ring_area q" "q_next_used q2 = q_next_used q + 1"
      "same_view mm (- (ring_area q \<union> set (room mm h [c]))) h h2" "same_view mm (driver_area q) h h2"
      "map (guest_view mm h2) (take (12 + length f) (room mm h [c])) = map Some (default_rx_header @ f)"
      by (rule rx_deliver_step [of mm h q c cs' f fs u]) (use fs cs R that in auto)
    have R2: "room mm h2 ds = room mm h ds" if "set ds \<subseteq> set cs'" for ds
      by (rule room_same_view [OF fs(2) st(6)]) (use that cs in auto)
    have acc: "\<forall>d \<in> set cs'. accepted 0 mm h2 d"
      using fs(3) chain_iter_driver [OF fs(2) st(6)] by (simp add: accepted_def cs)
    have Z: "room mm h2 [d] = room mm h [d]" if "(d, g) \<in> set (zip cs' fs)" for d g
      by (rule R2) (use that in \<open>auto dest: set_zip_leftD\<close>)
    have fit: "\<forall>(d, g) \<in> set (zip cs' fs). 12 + length g \<le> length (room mm h2 [d])"
      using fs(7) Z by (auto simp: cs)
    have dj: "distinct (room mm h2 cs')" "set (room mm h2 cs') \<inter> ring_area q2 = {}"
      "\<forall>f \<in> set fs. length f \<le> MAX_FRAME_SIZE"
      using fs(4-6) R R2 [of cs'] st(3) by auto
    obtain q' h' u' ds where IH: "rx_deliver mm fs True q2 h2 = Some (q', h', u', drop (length cs') fs)"
      "driver_ok mm h' q' ds" "q_next_used q' = q_next_used q2 + of_nat (min (length cs') (length fs))"
      "u'" "same_view mm (- (ring_area q \<union> set (room mm h cs'))) h2 h'"
      "map (\<lambda>(c, f). map (guest_view mm h') (take (12 + length f) (room mm h2 [c]))) (zip cs' fs) =
        map (\<lambda>(c, f). map Some (default_rx_header @ f)) (zip cs' fs)"
      using fs(1) [OF st(2) acc dj fit, of True] R2 [of cs'] st(3) by auto
    have "set (take (12 + length f) (room mm h [c])) \<subseteq> - (ring_area q \<union> set (room mm h cs'))"
      using fs(4,5) R by (auto dest: in_set_takeD)
    then have "map (guest_view mm h') (take (12 + length f) (room mm h [c])) = map Some (default_rx_header @ f)"
      using map_same_view [OF IH(5)] st(7) by metis
    moreover have "map (\<lambda>(c, f). map (guest_view mm h') (take (12 + length f) (room mm h [c]))) (zip cs' fs) =
        map (\<lambda>(c, f). map Some (default_rx_header @ f)) (zip cs' fs)"
      using IH(6) Z by (auto simp: case_prod_beta intro!: map_cong)
    moreover have "same_view mm (- (ring_area q \<union> set (room mm h cs))) h h'"
      using st(5) IH(5) by (auto simp: same_view_def R)
    ultimately show ?thesis using st(1,4) IH(1-4) cs by auto
  qed
qed

section \<open>Properties\<close>

text \<open>
  C21.  From the guest to the wire: for a driver that keeps to the rules and a child that takes
  the bytes, a transmit event ends with the queue empty, every chain returned and the interrupt
  raised; the reader of the other side, whatever its pipe reports and as long as its reads do not fail, gets out of the bytes sent
  exactly the frames of the chains, without their headers and in order.
\<close>

theorem net_tx_roundtrip:
  assumes "driver_ok mm h q cs" "length cs < fuel" "sendable mm h q cs" "nw_stdin w = Some p"
    and "\<forall>c \<in> set cs. 12 < length (chain_bytes mm h c) \<and> length (chain_bytes mm h c) \<le> 12 + MAX_FRAME_SIZE"
    and "length (concat (map (\<lambda>c. wire (chain_bytes mm h c)) cs)) \<le> in_room p"
  shows "\<exists>q' h' w' p' out.
    process_tx_virtio_queue env fuel mm q h (w, il) =
      Some (Some (q', h', w', if cs = [] then il else signal_used_queue env il)) \<and>
    queue_len mm h' q' = Some 0 \<and> q_next_used q' = q_next_used q + of_nat (length cs) \<and>
    nw_stdin w' = Some p' \<and> in_taken p' = in_taken p @ out \<and>
    nw_rx_pending (rx_reader_loop peek (map Some out) r) =
      nw_rx_pending r @ map (\<lambda>c. drop 12 (chain_bytes mm h c)) cs"
proof -
  let ?fs = "map (\<lambda>c. drop 12 (chain_bytes mm h c)) cs"
  have w: "map (\<lambda>c. wire (chain_bytes mm h c)) cs = map encode_frame ?fs"
    using assms(5) by (auto simp: wire_def NET_HDR_SIZE_def)
  have "\<forall>f \<in> set ?fs. valid_frame f" using assms(5) by (auto simp: valid_frame_def)
  then have f: "frames_of (map Some (concat (map encode_frame ?fs))) = ?fs" using frames_of_encoded [of ?fs "[]"] by simp
  show ?thesis
    using process_tx_event [OF assms(1-4), of env il] net_send_fold [OF assms(6)] f
    by (fastforce simp: rx_reader_loop_eq w)
qed

theorem net_tx_roundtrip_witness:
  "\<exists>q' h' w' p' out.
    process_tx_virtio_queue demo_env 2 demo_mm demo_queue demo_heap
      (net_worker_new\<lparr>nw_stdin := Some \<lparr>in_taken = [], in_room = 6\<rparr>\<rparr>, demo_link) =
      Some (Some (q', h', w', signal_used_queue demo_env demo_link)) \<and>
    nw_stdin w' = Some p' \<and> in_taken p' = out \<and>
    nw_rx_pending (rx_reader_loop (\<lambda>_. None) (map Some out) net_worker_new) = [[0, 0, 0, 0]]"
proof -
  have "length (concat (map (\<lambda>c. wire (chain_bytes demo_mm demo_heap c)) [demo_chain])) \<le> 6"
    by (simp add: demo_chain_bytes wire_def encode_frame_def NET_HDR_SIZE_def)
  then show ?thesis
    using net_tx_roundtrip [OF demo_driver_ok _ demo_sendable, of 2
        "net_worker_new\<lparr>nw_stdin := Some \<lparr>in_taken = [], in_room = 6\<rparr>\<rparr>"
        "\<lparr>in_taken = [], in_room = 6\<rparr>" demo_env demo_link "\<lambda>_. None" net_worker_new]
    by (fastforce simp: demo_chain_bytes MAX_FRAME_SIZE_def net_worker_new_def)
qed

text \<open>
  The reader thread batches frames by what the pipe reports, but what it delivers does not
  depend on that: it appends the frames of the stream in order, skipping lengths that are zero or
  too large and frames during which a read failed, signals the worker exactly when there was a frame, and ends with the stream.
\<close>

theorem net_reader_batching_transparent:
  "rx_reader_loop peek stream w =
     w\<lparr>nw_rx_pending := nw_rx_pending w @ frames_of stream,
       nw_rx_ready := (if frames_of stream = [] then nw_rx_ready w else True)\<rparr>"
  by (simp add: rx_reader_loop_eq)

text \<open>
  From the wire to the guest: pending frames go, in order, one into each receive buffer the
  driver offers, behind the header; each such buffer is returned, and nothing else in memory
  changes but the used ring.  The frames for which there is no buffer stay pending, behind those
  that arrived meanwhile.
\<close>

theorem net_rx_delivers:
  assumes "driver_ok mm h q cs" "\<forall>c \<in> set cs. accepted 0 mm h c"
    and "distinct (room mm h cs)" "set (room mm h cs) \<inter> ring_area q = {}"
    and "\<forall>f \<in> set (nw_rx_pending w). length f \<le> MAX_FRAME_SIZE"
    and "\<forall>(c, f) \<in> set (zip cs (nw_rx_pending w)). 12 + length f \<le> length (room mm h [c])"
  shows "\<exists>q' h' il'. process_rx_virtio_queue env mm arrived q h (w, il) =
      Some (q', h', w\<lparr>nw_rx_pending := arrived @ drop (length cs) (nw_rx_pending w)\<rparr>, il') \<and>
    q_next_used q' = q_next_used q + of_nat (min (length cs) (length (nw_rx_pending w))) \<and>
    map (\<lambda>(c, f). map (guest_view mm h') (take (12 + length f) (room mm h [c]))) (zip cs (nw_rx_pending w)) =
      map (\<lambda>(c, f). map Some (default_rx_header @ f)) (zip cs (nw_rx_pending w)) \<and>
    (\<forall>a. a \<in> ring_area q \<or> a \<in> set (room mm h cs) \<or> guest_view mm h' a = guest_view mm h a)"
proof (cases "nw_rx_pending w = []")
  case True
  then show ?thesis by (simp add: process_rx_virtio_queue_def)
next
  case False
  obtain q1 h1 u cs' where d: "rx_deliver mm (nw_rx_pending w) False q h =
      Some (q1, h1, u, drop (length cs) (nw_rx_pending w))" "driver_ok mm h1 q1 cs'"
    "q_next_used q1 = q_next_used q + of_nat (min (length cs) (length (nw_rx_pending w)))"
    "same_view mm (- (ring_area q \<union> set (room mm h cs))) h h1"
    "map (\<lambda>(c, f). map (guest_view mm h1) (take (12 + length f) (room mm h [c]))) (zip cs (nw_rx_pending w)) =
      map (\<lambda>(c, f). map Some (default_rx_header @ f)) (zip cs (nw_rx_pending w))"
    using rx_deliver_frames [OF assms] by blast
  obtain q2 il' where f: "finish_batch env mm h1 q1 il u = Some (q2, il')" "q_next_used q2 = q_next_used q1"
    using finish_batch_ok [OF d(2)] by metis
  have "\<forall>a. a \<in> ring_area q \<or> a \<in> set (room mm h cs) \<or> guest_view mm h1 a = guest_view mm h a"
    using d(4) by (auto simp: same_view_def)
  then show ?thesis using False d(1,3,5) f by (simp add: process_rx_virtio_queue_def)
qed

theorem net_rx_delivers_witness:
  "\<exists>q' h' il'. process_rx_virtio_queue demo_env demo_mm [[9]] demo_queue demo_heap
      (net_worker_new\<lparr>nw_rx_pending := [[5, 6, 7, 8], [1]]\<rparr>, demo_link) =
      Some (q', h', net_worker_new\<lparr>nw_rx_pending := [[9], [1]]\<rparr>, il') \<and>
    guest_view demo_mm h' 0x50a = Some 1 \<and> guest_view demo_mm h' 0x50c = Some 5"
proof -
  have hd: "default_rx_header = [0, 0, 0, 0, 0, 0, 0, 0, 0, 0, 1, 0]"
    by (simp add: default_rx_header_def NET_HDR_SIZE_def numeral_eq_Suc)
  show ?thesis
    using net_rx_delivers [OF demo_driver_ok _ demo_room(2,3), of "net_worker_new\<lparr>nw_rx_pending := [[5, 6, 7, 8], [1]]\<rparr>"
        demo_env "[[9]]" demo_link] demo_accepted [of 0]
    unfolding demo_room by (auto simp: MAX_FRAME_SIZE_def hd demo_room(1))
qed

end
