(* ===== verification/Notification.thy ===== *)
theory Notification
  imports Rng_Worker Block_Worker Console_Worker Net_Worker
begin

text \<open>
  Notification suppression (\<^verbatim>\<open>set_notification\<close>, \<^verbatim>\<open>enable_notification\<close> and \<^verbatim>\<open>needs_notification\<close> of
  \<^verbatim>\<open>src/devices/virtio/queue.rs\<close>, as the worker loops of \<^verbatim>\<open>src/devices/virtio\<close> use them): driver and
  worker run at the same time, and each tells the other when it need not be woken.  The worker's
  loop is taken apart into its accesses to the rings: the read of the available index, the read of a
  ring entry, the read of a descriptor, the work on the chain, the write of the used element, the write of the used
  index, the read of \<^verbatim>\<open>used_event\<close>, the interrupt, the write that asks for notifications and the second
  look at the available index.  The driver may act between any two of them; the result is
  that no wake-up is lost in either direction as long as no batch is so long that \<^verbatim>\<open>num_added\<close>
  wraps around.

  What the driver does is not code of the repository; its steps are those the virtio specification
  (2.7.7, 2.7.10, 2.7.13) asks of it.  Accesses take effect in the order of the program, which the
  fences of the code are there for.
\<close>

section \<open>The shared words\<close>

definition guest_u16 :: "memory_manager \<Rightarrow> heap \<Rightarrow> guest_address \<Rightarrow> u16" where
  "guest_u16 mm h a = from_le (map the (view_range (guest_view mm h) a 2))"

text \<open>The words of the rings that driver and device use to tell each other where they are.\<close>

record cells =
  ce_avail_idx :: u16
  ce_used_event :: u16
  ce_used_flags :: u16
  ce_used_idx :: u16
  ce_avail_event :: u16

definition cells :: "memory_manager \<Rightarrow> heap \<Rightarrow> queue \<Rightarrow> cells" where
  "cells mm h q =
     \<lparr>ce_avail_idx = guest_u16 mm h (q_avail_ring q + of_nat 2),
      ce_used_event = guest_u16 mm h (q_avail_ring q + of_nat (4 + 2 * unat (q_size q))),
      ce_used_flags = guest_u16 mm h (q_used_ring q),
      ce_used_idx = guest_u16 mm h (q_used_ring q + of_nat 2),
      ce_avail_event = guest_u16 mm h (q_used_ring q + of_nat (4 + 8 * unat (q_size q)))\<rparr>"

definition avail_area :: "queue \<Rightarrow> guest_address set" where
  "avail_area q = set (addrs (q_avail_ring q) (6 + 2 * unat (q_size q)))"

text \<open>The rings are in memory, apart from each other, and not too large.\<close>

definition rings_ok :: "memory_manager \<Rightarrow> queue \<Rightarrow> bool" where
  "rings_ok mm q \<longleftrightarrow>
     mm_wf mm \<and> used_ok mm q \<and> 0 < q_size q \<and> q_size q \<le> q_max_size q \<and> unat (q_size q) \<le> 2 ^ 14 \<and>
     (\<exists>r p. access_ok mm (q_avail_ring q) (6 + 2 * unat (q_size q)) r p \<and>
        perms_contain (rg_perms r) PERM_READ) \<and>
     ring_area q \<inter> avail_area q = {}"

section \<open>The accesses of an operation\<close>

text \<open>\<^verbatim>\<open>add_used\<close> up to the element and the counters, and its last statement.\<close>

definition used_element ::
  "memory_manager \<Rightarrow> heap \<Rightarrow> queue \<Rightarrow> u16 \<Rightarrow> u32 \<Rightarrow> (queue_error, queue \<times> heap) result" where
  "used_element mm h q head_index len =
     (if q_size q \<le> head_index then Err InvalidDescriptorIndex
      else
        let next_used_index = ucast (q_next_used q mod q_size q) :: u64;
            offset = VIRTQ_USED_RING_HEADER_SIZE + next_used_index * VIRTQ_USED_ELEMENT_SIZE
        in case checked_add (q_used_ring q) offset of
             None \<Rightarrow> Err AddressOverflow
           | Some addr \<Rightarrow>
               Ok (q\<lparr>q_next_used := q_next_used q + 1, q_num_added := q_num_added q + 1\<rparr>,
                 case write_obj mm h used_elem_bytes \<lparr>ue_id = ucast head_index, ue_len = len\<rparr> addr of
                   Err _ \<Rightarrow> h | Ok h' \<Rightarrow> h'))"

definition publish_used :: "memory_manager \<Rightarrow> heap \<Rightarrow> queue \<Rightarrow> heap \<times> (queue_error, unit) result" where
  "publish_used mm h q =
     (case checked_add (q_used_ring q) 2 of
        None \<Rightarrow> (h, Err AddressOverflow)
      | Some idx_addr \<Rightarrow>
          (case store mm h 2 (q_next_used q) idx_addr of
             Err e \<Rightarrow> (h, Err (GuestMemory e))
           | Ok h' \<Rightarrow> (h', Ok ())))"

lemma add_used_accesses:
  "add_used mm h q head_index len =
     (case used_element mm h q head_index len of
        Err e \<Rightarrow> (q, h, Err e)
      | Ok (q1, h1) \<Rightarrow> (case publish_used mm h1 q1 of (h2, res) \<Rightarrow> (q1, h2, res)))"
  by (auto simp: add_used_def used_element_def publish_used_def Let_def split: option.split result.split)

lemma pop_accesses:
  "pop mm h q =
     (case queue_len mm h q of
        None \<Rightarrow> None
      | Some n \<Rightarrow>
          if n = 0 \<or> actual_size q = 0 then Some (q, None)
          else case avail_entry mm h q (q_next_avail q) of
                 Err _ \<Rightarrow> None
               | Ok desc_index \<Rightarrow>
                   (case checked_new mm h (q_desc_table q) (actual_size q) desc_index of
                      None \<Rightarrow> Some (q, None)
                    | Some c \<Rightarrow> Some (q\<lparr>q_next_avail := q_next_avail q + 1\<rparr>, Some c)))"
  by (simp add: pop_def avail_entry_def avail_slot_def Let_def split: option.split)

text \<open>
  What a worker does with a chain before it returns it: it refuses the chain, or works on its buffers and
  returns it with a length.
\<close>

datatype outcome = Refused | Returned u32

type_synonym 's data_phase = "descriptor_chain \<Rightarrow> heap \<Rightarrow> 's \<Rightarrow> (heap \<times> 's \<times> outcome) panics"

definition conclude ::
  "memory_manager \<Rightarrow> descriptor_chain \<Rightarrow> queue \<Rightarrow> (heap \<times> 's \<times> outcome) panics \<Rightarrow>
   (queue \<times> heap \<times> 's \<times> bool) panics" where
  "conclude mm head q r =
     (case r of
        None \<Rightarrow> None
      | Some (h, s, Refused) \<Rightarrow> Some (q, h, s, False)
      | Some (h, s, Returned len) \<Rightarrow> return_chain mm head len q h s)"

text \<open>The bodies of the loops of the block and of the entropy device up to \<^verbatim>\<open>add_used\<close>.\<close>

definition request_status :: "blk_bits \<Rightarrow> 'f request_outcome panics \<Rightarrow> (heap \<times> 'f \<times> outcome) panics" where
  "request_status bb out =
     (case out of
        None \<Rightarrow> None
      | Some (_, w, h, f, res) \<Rightarrow>
          let (code, len) = (case res of Ok l \<Rightarrow> (VIRTIO_BLK_S_OK bb, l) | Err _ \<Rightarrow> (VIRTIO_BLK_S_IOERR bb, 0))
          in case u8_try_from code of
               None \<Rightarrow> None
             | Some status \<Rightarrow>
                 (case writer_write_obj (\<lambda>b. [b]) h w status of
                    None \<Rightarrow> None
                  | Some (_, h', _) \<Rightarrow> Some (h', f, Returned (of_nat (len + 1)))))"

definition block_data :: "'f block_params \<Rightarrow> memory_manager \<Rightarrow> 'f data_phase" where
  "block_data p mm head h f =
     (case p of (bb, ops, disk) \<Rightarrow>
      case reader_new mm h head of
        None \<Rightarrow> None
      | Some (Err _) \<Rightarrow> Some (h, f, Refused)
      | Some (Ok r) \<Rightarrow>
      (case writer_new mm h head of
        None \<Rightarrow> None
      | Some (Err _) \<Rightarrow> Some (h, f, Refused)
      | Some (Ok w) \<Rightarrow>
      (case reader_read_obj 16 request_header_of_bytes h r of
        None \<Rightarrow> None
      | Some (_, Err _) \<Rightarrow> Some (h, f, Refused)
      | Some (r1, Ok hdr) \<Rightarrow> request_status bb (process_request bb ops disk hdr r1 w h f))))"

definition rng_data :: "'r random_source \<Rightarrow> memory_manager \<Rightarrow> 'r data_phase" where
  "rng_data gen mm head h r =
     (case writer_new mm h head of
        None \<Rightarrow> None
      | Some (Err _) \<Rightarrow> Some (h, r, Refused)
      | Some (Ok w) \<Rightarrow>
          let len = available_bytes w
          in if len = 0 then Some (h, r, Returned 0)
             else case gen r len of
               (r', None) \<Rightarrow> Some (h, r', Returned 0)
             | (r', Some buf) \<Rightarrow>
                 (case write_all h w buf of
                    None \<Rightarrow> None
                  | Some (_, h', Ok _) \<Rightarrow> Some (h', r', Returned (of_nat len))
                  | Some (_, h', Err _) \<Rightarrow> Some (h', r', Returned 0)))"

lemma request_status_concludes: "finish_request bb mm head q out = conclude mm head q (request_status bb out)"
  by (simp add: finish_request_def request_status_def conclude_def split: option.split prod.split)

lemma block_data_concludes: "block_handle p mm head q h f = conclude mm head q (block_data p mm head h f)"
  by (auto simp: block_handle_def block_data_def request_status_concludes conclude_def [of _ _ _ None]
      conclude_def [of _ _ _ "Some (_, _, Refused)"] split: option.split prod.split result.split)

lemma rng_data_concludes: "rng_handle gen mm head q h r = conclude mm head q (rng_data gen mm head h r)"
  by (auto simp: rng_handle_def rng_data_def conclude_def Let_def split: option.split prod.split result.split)

section \<open>Driver and worker\<close>

text \<open>
  Where the worker is: it waits, it has yet to suppress notifications, to look at the available index, to read
  the ring entry, to read the descriptor, to work on the chain, to write the used element, to write the
  used index, to look whether to interrupt, to interrupt, to ask for notifications, to look at the available index once more.
\<close>

datatype worker_pc =
    WaitEvent
  | Disabling
  | Draining
  | Taking
  | Fetching u16
  | Handling descriptor_chain
  | Returning u16 u32
  | Publishing
  | Finishing
  | Signalling
  | Enabling
  | Checking

datatype driver_pc = Running | Armed | Asleep

text \<open>
  The state of both sides.  Of the worker: the queue, the state of the device, \<^verbatim>\<open>used_any\<close> and where
  it is in its loop; the event of the queue.  Of the driver: the chains it has published, those
  published when it last looked whether to notify, whether it still has to notify, the used elements it has seen,
  whether it sleeps; the interrupt.  The rest counts: chains taken and returned, those returned when the worker
  last looked whether to interrupt, whether a chain was refused, and whether a batch was so
  long that \<^verbatim>\<open>num_added\<close> wrapped.
\<close>

record 's notify =
  nt_q :: queue
  nt_h :: heap
  nt_dev :: 's
  nt_used_any :: bool
  nt_pc :: worker_pc
  nt_event :: bool
  nt_published :: nat
  nt_checked :: nat
  nt_kick :: bool
  nt_seen :: nat
  nt_drv :: driver_pc
  nt_irq :: bool
  nt_popped :: nat
  nt_used :: nat
  nt_told :: nat
  nt_refused :: bool
  nt_wrapped :: bool

text \<open>The driver's test after it has published chains, by the index or by the flag.\<close>

definition must_notify :: "queue \<Rightarrow> cells \<Rightarrow> u16 \<Rightarrow> bool" where
  "must_notify q c old =
     (if q_event_idx_enabled q
      then ce_avail_idx c - ce_avail_event c - 1 < ce_avail_idx c - old
      else ce_used_flags c AND 1 = 0)"

text \<open>\<^verbatim>\<open>if used_any && queue.needs_notification(mem).unwrap()\<close>, without the interrupt itself.\<close>

definition batch_notifies :: "memory_manager \<Rightarrow> heap \<Rightarrow> queue \<Rightarrow> bool \<Rightarrow> (queue \<times> bool) panics" where
  "batch_notifies mm h q used_any =
     (if used_any then
        (case needs_notification mm h q of (q', Err _) \<Rightarrow> None | (q', Ok b) \<Rightarrow> Some (q', b))
      else Some (q, False))"

text \<open>
  The steps.  The work on a chain is one step (\<open>handle\<close>); as \<open>memory_writes\<close> may change any memory but
  the words of the rings at any moment, what the driver sees of it on the way, and what the driver writes on the
  way, is covered as well.  \<open>data\<close> is what the device does with a chain.
\<close>

inductive notify_step :: "memory_manager \<Rightarrow> 's data_phase \<Rightarrow> 's notify \<Rightarrow> 's notify \<Rightarrow> bool"
  for mm :: memory_manager and data :: "'s data_phase" where
  wake: "nt_pc s = WaitEvent \<Longrightarrow> nt_event s \<Longrightarrow>
    notify_step mm data s (s\<lparr>nt_event := False, nt_pc := Disabling\<rparr>)"
| disable: "nt_pc s = Disabling \<Longrightarrow> disable_notification mm (nt_h s) (nt_q s) = Ok h' \<Longrightarrow>
    notify_step mm data s (s\<lparr>nt_h := h', nt_used_any := False, nt_pc := Draining\<rparr>)"
| look: "nt_pc s = Draining \<Longrightarrow> queue_len mm (nt_h s) (nt_q s) = Some n \<Longrightarrow>
    notify_step mm data s
      (s\<lparr>nt_pc := if n = 0 \<or> actual_size (nt_q s) = 0 then Finishing else Taking\<rparr>)"
| entry: "nt_pc s = Taking \<Longrightarrow> avail_entry mm (nt_h s) (nt_q s) (q_next_avail (nt_q s)) = Ok i \<Longrightarrow>
    notify_step mm data s (s\<lparr>nt_pc := Fetching i\<rparr>)"
| fetch: "nt_pc s = Fetching i \<Longrightarrow>
    checked_new mm (nt_h s) (q_desc_table (nt_q s)) (actual_size (nt_q s)) i = Some c \<Longrightarrow>
    notify_step mm data s (s\<lparr>nt_q := (nt_q s)\<lparr>q_next_avail := q_next_avail (nt_q s) + 1\<rparr>,
      nt_popped := nt_popped s + 1, nt_pc := Handling c\<rparr>)"
| no_chain: "nt_pc s = Fetching i \<Longrightarrow>
    checked_new mm (nt_h s) (q_desc_table (nt_q s)) (actual_size (nt_q s)) i = None \<Longrightarrow>
    notify_step mm data s (s\<lparr>nt_pc := Finishing\<rparr>)"
| handle: "nt_pc s = Handling c \<Longrightarrow>
    write_area mm (nt_h s) c \<inter> (ring_area (nt_q s) \<union> avail_area (nt_q s)) = {} \<Longrightarrow>
    data c (nt_h s) (nt_dev s) = Some (h', d', Returned len) \<Longrightarrow>
    notify_step mm data s (s\<lparr>nt_h := h', nt_dev := d', nt_pc := Returning (dc_index c) len\<rparr>)"
| refuse: "nt_pc s = Handling c \<Longrightarrow>
    write_area mm (nt_h s) c \<inter> (ring_area (nt_q s) \<union> avail_area (nt_q s)) = {} \<Longrightarrow>
    data c (nt_h s) (nt_dev s) = Some (h', d', Refused) \<Longrightarrow>
    notify_step mm data s (s\<lparr>nt_h := h', nt_dev := d', nt_refused := True, nt_pc := Draining\<rparr>)"
| element: "nt_pc s = Returning i len \<Longrightarrow> used_element mm (nt_h s) (nt_q s) i len = Ok (q', h') \<Longrightarrow>
    notify_step mm data s (s\<lparr>nt_q := q', nt_h := h', nt_pc := Publishing\<rparr>)"
| no_element: "nt_pc s = Returning i len \<Longrightarrow> used_element mm (nt_h s) (nt_q s) i len = Err e \<Longrightarrow>
    notify_step mm data s (s\<lparr>nt_used_any := True, nt_pc := Draining\<rparr>)"
| publish_index: "nt_pc s = Publishing \<Longrightarrow> publish_used mm (nt_h s) (nt_q s) = (h', res) \<Longrightarrow>
    notify_step mm data s (s\<lparr>nt_h := h', nt_used_any := True, nt_used := nt_used s + 1,
      nt_wrapped := nt_wrapped s \<or> 2 ^ 16 \<le> nt_used s + 1 - nt_told s, nt_pc := Draining\<rparr>)"
| finish: "nt_pc s = Finishing \<Longrightarrow> batch_notifies mm (nt_h s) (nt_q s) (nt_used_any s) = Some (q', b) \<Longrightarrow>
    notify_step mm data s (s\<lparr>nt_q := q', nt_told := nt_used s, nt_pc := if b then Signalling else Enabling\<rparr>)"
| signal: "nt_pc s = Signalling \<Longrightarrow> notify_step mm data s (s\<lparr>nt_irq := True, nt_pc := Enabling\<rparr>)"
| enable: "nt_pc s = Enabling \<Longrightarrow> set_notification mm (nt_h s) (nt_q s) True = Ok h' \<Longrightarrow>
    notify_step mm data s (s\<lparr>nt_h := h', nt_pc := Checking\<rparr>)"
| check: "nt_pc s = Checking \<Longrightarrow> avail_idx mm (nt_h s) (nt_q s) = Ok i \<Longrightarrow>
    notify_step mm data s
      (s\<lparr>nt_pc := if i \<noteq> q_next_avail (nt_q s) then Disabling else WaitEvent\<rparr>)"
| memory_writes: "cells mm h' (nt_q s) = cells mm (nt_h s) (nt_q s) \<Longrightarrow>
    notify_step mm data s (s\<lparr>nt_h := h'\<rparr>)"
| publish: "nt_published s - nt_seen s < unat (q_size (nt_q s)) \<Longrightarrow>
    nt_published s - nt_checked s < 2 ^ 16 - 1 \<Longrightarrow>
    cells mm h' (nt_q s) =
      (cells mm (nt_h s) (nt_q s))\<lparr>ce_avail_idx := of_nat (nt_published s + 1)\<rparr> \<Longrightarrow>
    notify_step mm data s (s\<lparr>nt_h := h', nt_published := nt_published s + 1\<rparr>)"
| notify: "notify_step mm data s (s\<lparr>nt_kick := nt_kick s \<or>
      must_notify (nt_q s) (cells mm (nt_h s) (nt_q s)) (of_nat (nt_checked s)),
    nt_checked := nt_published s\<rparr>)"
| kick: "nt_kick s \<Longrightarrow> notify_step mm data s (s\<lparr>nt_event := True, nt_kick := False\<rparr>)"
| take_used: "nt_drv s = Running \<Longrightarrow> ce_used_idx (cells mm (nt_h s) (nt_q s)) \<noteq> of_nat (nt_seen s) \<Longrightarrow>
    notify_step mm data s (s\<lparr>nt_seen := nt_seen s + 1\<rparr>)"
| arm: "nt_drv s = Running \<Longrightarrow>
    cells mm h' (nt_q s) = (cells mm (nt_h s) (nt_q s))\<lparr>ce_used_event := of_nat (nt_seen s)\<rparr> \<Longrightarrow>
    notify_step mm data s (s\<lparr>nt_h := h', nt_drv := Armed\<rparr>)"
| recheck: "nt_drv s = Armed \<Longrightarrow>
    notify_step mm data s (s\<lparr>nt_drv :=
      if ce_used_idx (cells mm (nt_h s) (nt_q s)) \<noteq> of_nat (nt_seen s) then Running else Asleep\<rparr>)"
| interrupt: "nt_drv s = Asleep \<Longrightarrow> nt_irq s \<Longrightarrow>
    notify_step mm data s (s\<lparr>nt_irq := False, nt_drv := Running\<rparr>)"

text \<open>A queue as the device is activated with it, its rings cleared by the driver.\<close>

definition notify_init :: "memory_manager \<Rightarrow> 's notify \<Rightarrow> bool" where
  "notify_init mm s \<longleftrightarrow>
     rings_ok mm (nt_q s) \<and> q_next_avail (nt_q s) = 0 \<and> q_next_used (nt_q s) = 0 \<and> q_num_added (nt_q s) = 0 \<and>
     ce_avail_idx (cells mm (nt_h s) (nt_q s)) = 0 \<and> ce_used_idx (cells mm (nt_h s) (nt_q s)) = 0 \<and>
     ce_used_flags (cells mm (nt_h s) (nt_q s)) = 0 \<and> ce_avail_event (cells mm (nt_h s) (nt_q s)) = 0 \<and>
     nt_pc s = WaitEvent \<and> \<not> nt_event s \<and> \<not> nt_kick s \<and> \<not> nt_irq s \<and> nt_drv s = Running \<and> \<not> nt_used_any s \<and>
     nt_published s = 0 \<and> nt_checked s = 0 \<and> nt_seen s = 0 \<and> nt_popped s = 0 \<and> nt_used s = 0 \<and>
     nt_told s = 0 \<and> \<not> nt_refused s \<and> \<not> nt_wrapped s"

inductive notify_reach :: "memory_manager \<Rightarrow> 's data_phase \<Rightarrow> 's notify \<Rightarrow> bool"
  for mm :: memory_manager and data :: "'s data_phase" where
  start: "notify_init mm s \<Longrightarrow> notify_reach mm data s"
| step: "notify_reach mm data s \<Longrightarrow> notify_step mm data s s' \<Longrightarrow> notify_reach mm data s'"

inductive_cases notify_step_elims: "notify_step mm data s s'"

section \<open>What the operations do to the words\<close>

lemma guest_u16_same_view:
  assumes "same_view mm A h h'" "set (addrs a 2) \<subseteq> A"
  shows "guest_u16 mm h' a = guest_u16 mm h a"
  using same_view_range [OF same_view_mono [OF assms]] by (simp add: guest_u16_def)

lemma guest_u16_update:
  assumes "guest_view mm h' = view_update (guest_view mm h) a bs"
  shows "length bs = 2 \<Longrightarrow> guest_u16 mm h' a = from_le bs"
    and "set (addrs b 2) \<inter> set (addrs a (length bs)) = {} \<Longrightarrow> guest_u16 mm h' b = guest_u16 mm h b"
proof -
  assume bs: "length bs = 2"
  have "view_range (guest_view mm h') a 2 = map Some bs"
    using bs unfolding assms by (intro nth_equalityI) (auto simp: view_update_def unat_of_nat)
  then show "guest_u16 mm h' a = from_le bs" by (simp add: guest_u16_def comp_def)
next
  assume "set (addrs b 2) \<inter> set (addrs a (length bs)) = {}"
  then have "same_view mm (set (addrs b 2)) h h'"
    unfolding same_view_def assms by (auto intro!: view_update_other)
  then show "guest_u16 mm h' b = guest_u16 mm h b" by (rule guest_u16_same_view) simp
qed

lemma load_u16:
  assumes "mm_wf mm" "access_ok mm a 2 r p" "perms_contain (rg_perms r) PERM_READ"
  shows "load mm h 2 a = Ok (guest_u16 mm h a)"
proof -
  have "map the (view_range (guest_view mm h) a 2) = copy_from h (host_addr r p a) 2"
    unfolding copy_from_view [OF assms(1,2), symmetric] by (simp add: comp_def)
  then show ?thesis using load_success [OF assms(2,3)] by (simp add: guest_u16_def)
qed

text \<open>Where the words are: in the rings, and apart from each other.\<close>

lemma ring_words:
  assumes wf: "mm_wf mm" and acc: "access_ok mm a n r p" and i: "i + k \<le> n"
  shows "set (addrs (a + of_nat i) k) \<subseteq> set (addrs a n)"
    and "j + m \<le> n \<Longrightarrow> i + k \<le> j \<or> j + m \<le> i \<Longrightarrow>
      set (addrs (a + of_nat i) k) \<inter> set (addrs (a + of_nat j) m) = {}"
proof -
  show "set (addrs (a + of_nat i) k) \<subseteq> set (addrs a n)" by (rule set_addrs_sub [OF i])
  have b: "unat a + n \<le> 2 ^ 63" by (rule access_ok_bound [OF wf acc])
  have u: "unat (a + of_nat x) = unat a + x" if "x \<le> n" for x
    using b that by (simp add: unat_word_ariths unat_of_nat)
  assume j: "j + m \<le> n" "i + k \<le> j \<or> j + m \<le> i"
  then show "set (addrs (a + of_nat i) k) \<inter> set (addrs (a + of_nat j) m) = {}"
    using addrs_apart [of "a + of_nat i" k "a + of_nat j" m] addrs_apart [of "a + of_nat j" m "a + of_nat i" k]
      u [of i] u [of j] i b by auto
qed

lemma cells_same_view:
  assumes "same_view mm (ring_area q \<union> avail_area q) h h'"
  shows "cells mm h' q = cells mm h q"
proof -
  have a: "guest_u16 mm h' (q_avail_ring q + of_nat i) = guest_u16 mm h (q_avail_ring q + of_nat i)"
    if "i + 2 \<le> 6 + 2 * unat (q_size q)" for i
    using guest_u16_same_view [OF assms] set_addrs_sub [OF that] by (auto simp: avail_area_def)
  have u: "guest_u16 mm h' (q_used_ring q + of_nat i) = guest_u16 mm h (q_used_ring q + of_nat i)"
    if "i + 2 \<le> 6 + 8 * unat (q_size q)" for i
    using guest_u16_same_view [OF assms] set_addrs_sub [OF that] by (auto simp: ring_area_def)
  show ?thesis
    using a [of 2] a [of "4 + 2 * unat (q_size q)"] u [of 0] u [of 2] u [of "4 + 8 * unat (q_size q)"]
    by (simp add: cells_def)
qed

lemma cells_moved: "used_moved q q' \<Longrightarrow> cells mm h q' = cells mm h q"
  and rings_ok_moved: "used_moved q q' \<Longrightarrow> rings_ok mm q' = rings_ok mm q"
  using used_moved_fields [of q q'] by (simp_all add: cells_def rings_ok_def avail_area_def)

lemma cells_popped: "cells mm h (q\<lparr>q_next_avail := k\<rparr>) = cells mm h q"
  and rings_ok_popped: "rings_ok mm (q\<lparr>q_next_avail := k\<rparr>) = rings_ok mm q"
  by (simp_all add: cells_def rings_ok_def avail_area_def ring_area_def used_ok_def)

text \<open>
  A write of \<open>n\<close> bytes at offset \<open>i\<close> of the used ring changes the words it covers, and the words of
  the available ring never.
\<close>

lemma used_ring_write:
  assumes ok: "rings_ok mm q" and i: "i + length bs \<le> 6 + 8 * unat (q_size q)"
    and view: "guest_view mm h' = view_update (guest_view mm h) (q_used_ring q + of_nat i) bs"
  shows "ce_avail_idx (cells mm h' q) = ce_avail_idx (cells mm h q)"
    and "ce_used_event (cells mm h' q) = ce_used_event (cells mm h q)"
    and "j + 2 \<le> 6 + 8 * unat (q_size q) \<Longrightarrow> j + 2 \<le> i \<or> i + length bs \<le> j \<Longrightarrow>
      guest_u16 mm h' (q_used_ring q + of_nat j) = guest_u16 mm h (q_used_ring q + of_nat j)"
proof -
  obtain r p where acc: "access_ok mm (q_used_ring q) (6 + 8 * unat (q_size q)) r p" and wf: "mm_wf mm"
    and ap: "ring_area q \<inter> avail_area q = {}"
    using ok by (auto simp: rings_ok_def used_ok_def)
  have "set (addrs (q_used_ring q + of_nat i) (length bs)) \<subseteq> ring_area q"
    unfolding ring_area_def by (rule set_addrs_sub [OF i])
  then have "same_view mm (avail_area q) h h'"
    using ap by (auto simp: same_view_def view intro!: view_update_other)
  then have "guest_u16 mm h' (q_avail_ring q + of_nat x) = guest_u16 mm h (q_avail_ring q + of_nat x)"
    if "x + 2 \<le> 6 + 2 * unat (q_size q)" for x
    by (rule guest_u16_same_view) (use set_addrs_sub [OF that] in \<open>simp add: avail_area_def\<close>)
  then show "ce_avail_idx (cells mm h' q) = ce_avail_idx (cells mm h q)"
    "ce_used_event (cells mm h' q) = ce_used_event (cells mm h q)"
    by (simp_all add: cells_def del: of_nat_add of_nat_mult of_nat_numeral)
  assume j: "j + 2 \<le> 6 + 8 * unat (q_size q)" "j + 2 \<le> i \<or> i + length bs \<le> j"
  show "guest_u16 mm h' (q_used_ring q + of_nat j) = guest_u16 mm h (q_used_ring q + of_nat j)"
    by (rule guest_u16_update(2) [OF view]) (rule ring_words(2) [OF wf acc j(1) i j(2)])
qed

lemma store_used_ring:
  assumes ok: "rings_ok mm q" and i: "i + 2 \<le> 6 + 8 * unat (q_size q)"
    and st: "store mm h 2 v (q_used_ring q + of_nat i) = Ok h'"
  shows "guest_view mm h' = view_update (guest_view mm h) (q_used_ring q + of_nat i) (to_le 2 (v :: u16))"
    and "guest_u16 mm h' (q_used_ring q + of_nat i) = v"
proof -
  obtain r p where acc: "access_ok mm (q_used_ring q) (6 + 8 * unat (q_size q)) r p" and wf: "mm_wf mm"
    and w: "perms_contain (rg_perms r) PERM_WRITE"
    using ok by (auto simp: rings_ok_def used_ok_def)
  have a: "access_ok mm (q_used_ring q + of_nat i) 2 r p" by (rule access_ok_sub [OF wf acc]) (use i in simp_all)
  have "length (to_le 2 v) = 2" by simp
  then show view: "guest_view mm h' = view_update (guest_view mm h) (q_used_ring q + of_nat i) (to_le 2 v)"
    using guest_view_copy_to [OF wf, of "q_used_ring q + of_nat i" "to_le 2 v" r p h] a
      store_success [OF a w, of h v] st by simp
  show "guest_u16 mm h' (q_used_ring q + of_nat i) = v"
    using guest_u16_update(1) [OF view] by (simp add: from_le_to_le)
qed

lemma store_flags:
  assumes "rings_ok mm q" "store mm h 2 v (q_used_ring q) = Ok h'"
  shows "cells mm h' q = (cells mm h q)\<lparr>ce_used_flags := v\<rparr>"
proof -
  note s = store_used_ring [OF assms(1), of 0 h v h']
  note w = used_ring_write [OF assms(1), of 0 "to_le 2 v" h' h]
  show ?thesis
    using s w(1,2) w(3) [of 2] w(3) [of "4 + 8 * unat (q_size q)"] assms(2) by (simp add: cells_def)
qed

lemma store_avail_event:
  assumes "rings_ok mm q" "store mm h 2 v (q_used_ring q + of_nat (4 + 8 * unat (q_size q))) = Ok h'"
  shows "cells mm h' q = (cells mm h q)\<lparr>ce_avail_event := v\<rparr>"
proof -
  let ?i = "4 + 8 * unat (q_size q)"
  note s = store_used_ring [OF assms(1) _ assms(2)]
  note w = used_ring_write [OF assms(1), of ?i "to_le 2 v" h' h]
  show ?thesis
    using s w(1,2) w(3) [of 0] w(3) [of 2] by (simp add: cells_def)
qed

lemma set_notification_cells:
  assumes ok: "rings_ok mm q" and st: "set_notification mm h q en = Ok h'"
  shows "cells mm h' q =
    (if q_event_idx_enabled q
     then if en then (cells mm h q)\<lparr>ce_avail_event := q_next_avail q\<rparr> else cells mm h q
     else (cells mm h q)\<lparr>ce_used_flags := if en then 0 else 1\<rparr>)"
proof -
  have flags: "set_used_flags mm h q v = Ok h' \<Longrightarrow> cells mm h' q = (cells mm h q)\<lparr>ce_used_flags := v\<rparr>" for v
    using store_flags [OF ok] by (auto simp: set_used_flags_def split: result.splits)
  have o: "(4 + 8 * ucast (q_size q) :: u64) = of_nat (4 + 8 * unat (q_size q))" by simp
  have event: "cells mm h' q = (cells mm h q)\<lparr>ce_avail_event := v\<rparr>" if "set_avail_event mm h q v = Ok h'" for v
  proof -
    have "store mm h 2 v (q_used_ring q + of_nat (4 + 8 * unat (q_size q))) = Ok h'"
      using that unfolding set_avail_event_def Let_def virtq_consts o
      by (auto simp: checked_add_def simp del: of_nat_add of_nat_mult of_nat_numeral split: option.splits if_splits)
    then show ?thesis by (rule store_avail_event [OF ok])
  qed
  show ?thesis
    using st flags event by (auto simp: set_notification_def virtq_consts split: if_splits)
qed

lemma used_element_cells:
  assumes ok: "rings_ok mm q" and r: "used_element mm h q i len = Ok (q', h')"
  shows "q' = q\<lparr>q_next_used := q_next_used q + 1, q_num_added := q_num_added q + 1\<rparr>"
    and "cells mm h' q = cells mm h q"
proof -
  let ?b = "used_elem_bytes \<lparr>ue_id = ucast i, ue_len = len\<rparr>"
  let ?k = "unat (q_next_used q mod q_size q)"
  let ?a = "q_used_ring q + of_nat (4 + 8 * ?k)"
  have wf: "mm_wf mm" and "q_size q \<noteq> 0" using ok by (auto simp: rings_ok_def)
  then have k: "?k < unat (q_size q)" by (simp add: unat_mod_size)
  have off: "(4 + ucast (q_next_used q mod q_size q) * 8 :: u64) = of_nat (4 + 8 * ?k)" by (simp add: mult.commute)
  have b: "length ?b = 8" by (simp add: used_elem_bytes_def)
  show "q' = q\<lparr>q_next_used := q_next_used q + 1, q_num_added := q_num_added q + 1\<rparr>"
    using r by (auto simp: used_element_def Let_def split: if_splits option.splits)
  have h': "h' = (case write_obj mm h used_elem_bytes \<lparr>ue_id = ucast i, ue_len = len\<rparr> ?a of Err _ \<Rightarrow> h | Ok g \<Rightarrow> g)"
    using r unfolding used_element_def Let_def virtq_consts off
    by (auto simp: checked_add_def simp del: of_nat_add of_nat_mult of_nat_numeral split: if_splits option.splits)
  show "cells mm h' q = cells mm h q"
  proof (cases "write_obj mm h used_elem_bytes \<lparr>ue_id = ucast i, ue_len = len\<rparr> ?a")
    case (Err e)
    then show ?thesis using h' by simp
  next
    case (Ok g)
    then have v: "guest_view mm h' = view_update (guest_view mm h) ?a ?b"
      using write_guest_memory_view [OF wf, of ?b h ?a g] h' b by (simp add: write_obj_def)
    note w = used_ring_write [OF ok _ v]
    show ?thesis
      using w(1,2) w(3) [of 0] w(3) [of 2] w(3) [of "4 + 8 * unat (q_size q)"] k b by (simp add: cells_def)
  qed
qed

lemma publish_used_cells:
  assumes ok: "rings_ok mm q" and r: "publish_used mm h q = (h', res)"
  shows "cells mm h' q = (cells mm h q)\<lparr>ce_used_idx := q_next_used q\<rparr>"
proof -
  obtain rg p where acc: "access_ok mm (q_used_ring q) (6 + 8 * unat (q_size q)) rg p"
    "perms_contain (rg_perms rg) PERM_WRITE" and wf: "mm_wf mm"
    using ok by (auto simp: rings_ok_def used_ok_def)
  have "access_ok mm (q_used_ring q + of_nat 2) 2 rg p" by (rule access_ok_sub [OF wf acc(1)]) simp_all
  from store_success [OF this acc(2), of h "q_next_used q"] obtain g where
    g: "store mm h 2 (q_next_used q) (q_used_ring q + of_nat 2) = Ok g" by blast
  have "checked_add (q_used_ring q) 2 = Some (q_used_ring q + of_nat 2)"
    using access_ok_bound [OF wf acc(1)] by (simp add: checked_add_def)
  then have "h' = g" using r g by (simp add: publish_used_def)
  with g have st: "store mm h 2 (q_next_used q) (q_used_ring q + of_nat 2) = Ok h'" by simp
  note s = store_used_ring [OF ok _ st]
  note w = used_ring_write [OF ok, of 2 "to_le 2 (q_next_used q)" h' h]
  show ?thesis
    using s w(1,2) w(3) [of 0] w(3) [of "4 + 8 * unat (q_size q)"] by (simp add: cells_def)
qed

lemma used_element_ok:
  assumes "rings_ok mm q" "i < q_size q"
  shows "\<exists>q' h'. used_element mm h q i len = Ok (q', h')"
proof -
  obtain rg p where acc: "access_ok mm (q_used_ring q) (6 + 8 * unat (q_size q)) rg p"
    "perms_contain (rg_perms rg) PERM_WRITE" and wf: "mm_wf mm"
    using assms(1) by (auto simp: rings_ok_def used_ok_def)
  from add_used_success [OF wf acc assms(2), of h len] show ?thesis
    by (auto simp: add_used_accesses split: result.splits)
qed

lemma avail_idx_cell:
  assumes "rings_ok mm q"
  shows "avail_idx mm h q = Ok (ce_avail_idx (cells mm h q))"
proof -
  obtain r p where acc: "access_ok mm (q_avail_ring q) (6 + 2 * unat (q_size q)) r p" and wf: "mm_wf mm"
    and rd: "perms_contain (rg_perms r) PERM_READ"
    using assms by (auto simp: rings_ok_def)
  have a: "access_ok mm (q_avail_ring q + of_nat 2) 2 r p" by (rule access_ok_sub [OF wf acc]) simp_all
  have "checked_add (q_avail_ring q) 2 = Some (q_avail_ring q + 2)"
    using access_ok_bound [OF wf acc] by (simp add: checked_add_def)
  then show ?thesis using load_u16 [OF wf a rd, of h] by (simp add: avail_idx_def cells_def)
qed

lemma used_event_cell:
  assumes "rings_ok mm q"
  shows "used_event mm h q = Ok (ce_used_event (cells mm h q))"
proof -
  obtain r p where acc: "access_ok mm (q_avail_ring q) (6 + 2 * unat (q_size q)) r p" and wf: "mm_wf mm"
    and rd: "perms_contain (rg_perms r) PERM_READ"
    using assms by (auto simp: rings_ok_def)
  let ?o = "4 + ucast (q_size q) * 2 :: u64"
  have o: "?o = of_nat (4 + 2 * unat (q_size q))" by simp
  have a: "access_ok mm (q_avail_ring q + of_nat (4 + 2 * unat (q_size q))) 2 r p"
    by (rule access_ok_sub [OF wf acc]) simp_all
  have "checked_add (q_avail_ring q) ?o = Some (q_avail_ring q + ?o)"
    using access_ok_bound [OF wf acc] unat_bounds(2) [of "q_size q"] unfolding o
    by (simp add: checked_add_def unat_of_nat del: of_nat_add of_nat_mult of_nat_numeral)
  then show ?thesis
    using load_u16 [OF wf a rd, of h] unfolding used_event_def Let_def virtq_consts o by (simp add: cells_def)
qed

section \<open>Counters modulo the width of an index\<close>

lemma unat_u16: "k < 2 ^ 16 \<Longrightarrow> unat (of_nat k :: u16) = k"
  by (rule unat_of_nat_small) simp

lemma of_nat_u16_eq:
  assumes "a \<le> b" "b - a < 2 ^ 16"
  shows "(of_nat b :: u16) = of_nat a \<longleftrightarrow> a = b"
  using unat_u16 [OF assms(2)] assms(1) by (auto simp: of_nat_diff)

text \<open>The test both sides use: the index \<open>e\<close> is among those passed since \<open>old\<close>.\<close>

lemma index_passed:
  assumes "old \<le> e" "e < n" "n - old < 2 ^ 16"
  shows "(of_nat n - of_nat e - 1 :: u16) < of_nat n - of_nat old"
proof -
  have w: "(of_nat n - of_nat e - 1 :: u16) = of_nat (n - e - 1)" "(of_nat n - of_nat old :: u16) = of_nat (n - old)"
    using assms by simp_all
  have u: "unat (of_nat (n - e - 1) :: u16) = n - e - 1" by (rule unat_u16) (use assms in simp)
  show ?thesis using assms unfolding word_less_nat_alt w u unat_u16 [OF assms(3)] by linarith
qed

section \<open>The invariant\<close>

text \<open>Chains in the hands of the worker, elements written but not published, and the part of the loop that serves.\<close>

fun in_flight :: "worker_pc \<Rightarrow> nat" where
  "in_flight (Handling _) = 1"
| "in_flight (Returning _ _) = 1"
| "in_flight Publishing = 1"
| "in_flight _ = 0"

fun written :: "worker_pc \<Rightarrow> nat" where
  "written Publishing = 1"
| "written _ = 0"

fun serving :: "worker_pc \<Rightarrow> bool" where
  "serving WaitEvent = False"
| "serving Disabling = False"
| "serving Signalling = False"
| "serving Enabling = False"
| "serving Checking = False"
| "serving _ = True"

fun pc_ok :: "queue \<Rightarrow> bool \<Rightarrow> worker_pc \<Rightarrow> bool" where
  "pc_ok q more_published Taking = more_published"
| "pc_ok q more_published (Fetching i) = more_published"
| "pc_ok q more_published (Handling c) = (0 < dc_ttl c \<and> dc_index c < q_size q)"
| "pc_ok q more_published (Returning i len) = (i < q_size q)"
| "pc_ok q more_published _ = True"

definition in_step :: "memory_manager \<Rightarrow> 's notify \<Rightarrow> bool" where
  "in_step mm s \<longleftrightarrow>
     rings_ok mm (nt_q s) \<and>
     ce_avail_idx (cells mm (nt_h s) (nt_q s)) = of_nat (nt_published s) \<and>
     ce_used_idx (cells mm (nt_h s) (nt_q s)) = of_nat (nt_used s) \<and>
     q_next_avail (nt_q s) = of_nat (nt_popped s) \<and> q_next_used (nt_q s) = of_nat (nt_used s + written (nt_pc s)) \<and>
     (q_event_idx_enabled (nt_q s) \<longrightarrow> q_num_added (nt_q s) = of_nat (nt_used s + written (nt_pc s) - nt_told s)) \<and>
     nt_seen s \<le> nt_used s \<and> nt_used s + in_flight (nt_pc s) \<le> nt_popped s \<and> nt_popped s \<le> nt_published s \<and>
     nt_published s \<le> nt_seen s + unat (q_size (nt_q s)) \<and>
     nt_checked s \<le> nt_published s \<and> nt_published s < nt_checked s + 2 ^ 16 \<and> nt_told s \<le> nt_used s \<and>
     (\<not> nt_wrapped s \<longrightarrow> nt_used s - nt_told s < 2 ^ 16) \<and>
     (\<not> nt_refused s \<longrightarrow> nt_used s + in_flight (nt_pc s) = nt_popped s) \<and>
     pc_ok (nt_q s) (nt_popped s < nt_published s) (nt_pc s)"

lemma pc_ok_more: "pc_ok q b pc \<Longrightarrow> (b \<Longrightarrow> b') \<Longrightarrow> pc_ok q b' pc"
  by (cases pc) auto

text \<open>When the worker sleeps, it is told of every chain it has not taken.\<close>

definition worker_woken :: "memory_manager \<Rightarrow> 's notify \<Rightarrow> bool" where
  "worker_woken mm s \<longleftrightarrow>
     (nt_pc s = Checking \<or> nt_pc s = WaitEvent \<longrightarrow>
        (if q_event_idx_enabled (nt_q s)
         then ce_avail_event (cells mm (nt_h s) (nt_q s)) = of_nat (nt_popped s)
         else ce_used_flags (cells mm (nt_h s) (nt_q s)) = 0)) \<and>
     (nt_pc s = WaitEvent \<longrightarrow> nt_event s \<or> nt_kick s \<or> nt_checked s \<le> nt_popped s)"

text \<open>When the driver sleeps, it is told of every element it has not seen.\<close>

definition driver_woken :: "memory_manager \<Rightarrow> 's notify \<Rightarrow> bool" where
  "driver_woken mm s \<longleftrightarrow>
     (nt_drv s \<noteq> Running \<and> q_event_idx_enabled (nt_q s) \<longrightarrow>
        ce_used_event (cells mm (nt_h s) (nt_q s)) = of_nat (nt_seen s)) \<and>
     (nt_drv s = Asleep \<and> \<not> nt_wrapped s \<longrightarrow> nt_irq s \<or> nt_pc s = Signalling \<or> nt_told s \<le> nt_seen s) \<and>
     (serving (nt_pc s) \<and> nt_used_any s \<or> nt_told s = nt_used s)"

definition notify_inv :: "memory_manager \<Rightarrow> 's notify \<Rightarrow> bool" where
  "notify_inv mm s \<longleftrightarrow> in_step mm s \<and> worker_woken mm s \<and> driver_woken mm s"

lemmas notify_inv_defs = notify_inv_def in_step_def worker_woken_def driver_woken_def

lemma notify_init_inv: "notify_init mm s \<Longrightarrow> notify_inv mm s"
  by (simp add: notify_init_def notify_inv_defs)

text \<open>The driver's steps.\<close>

lemma notify_keeps:
  assumes "notify_inv mm s"
  shows "notify_inv mm (s\<lparr>nt_kick := nt_kick s \<or>
      must_notify (nt_q s) (cells mm (nt_h s) (nt_q s)) (of_nat (nt_checked s)),
    nt_checked := nt_published s\<rparr>)"
proof -
  have "nt_event s \<or> nt_kick s \<or> must_notify (nt_q s) (cells mm (nt_h s) (nt_q s)) (of_nat (nt_checked s)) \<or>
      nt_published s \<le> nt_popped s" if "nt_pc s = WaitEvent"
  proof (cases "nt_event s \<or> nt_kick s \<or> nt_published s \<le> nt_popped s")
    case False
    then have c: "nt_checked s \<le> nt_popped s" "nt_popped s < nt_published s"
      "nt_published s - nt_checked s < 2 ^ 16"
      using assms that by (auto simp: notify_inv_defs)
    show ?thesis using index_passed [OF c] assms that by (auto simp: must_notify_def notify_inv_defs)
  qed auto
  then show ?thesis using assms by (auto simp: notify_inv_defs)
qed

lemma in_step_bounds:
  assumes "in_step mm s"
  shows "rings_ok mm (nt_q s)" "nt_popped s \<le> nt_published s" "nt_published s - nt_popped s < 2 ^ 16"
    "nt_seen s \<le> nt_used s" "nt_used s - nt_seen s < 2 ^ 16" "nt_told s \<le> nt_used s"
proof -
  have a: "rings_ok mm (nt_q s)" "nt_seen s \<le> nt_used s" "nt_used s \<le> nt_popped s" "nt_told s \<le> nt_used s"
    "nt_popped s \<le> nt_published s" "nt_published s \<le> nt_seen s + unat (q_size (nt_q s))"
    using assms by (simp_all add: in_step_def)
  have "unat (q_size (nt_q s)) \<le> 2 ^ 14" using a(1) by (simp add: rings_ok_def)
  then show "nt_published s - nt_popped s < 2 ^ 16" "nt_used s - nt_seen s < 2 ^ 16" using a(2-6) by simp_all
  show "rings_ok mm (nt_q s)" "nt_popped s \<le> nt_published s" "nt_seen s \<le> nt_used s" "nt_told s \<le> nt_used s"
    using a by simp_all
qed

lemma used_seen:
  assumes "in_step mm s"
  shows "ce_used_idx (cells mm (nt_h s) (nt_q s)) = of_nat (nt_seen s) \<longleftrightarrow> nt_seen s = nt_used s"
  using of_nat_u16_eq [OF in_step_bounds(4,5) [OF assms]] assms by (simp add: in_step_def)

lemma driver_step_keeps:
  assumes i: "notify_inv mm s"
  shows "nt_published s - nt_seen s < unat (q_size (nt_q s)) \<Longrightarrow> nt_published s - nt_checked s < 2 ^ 16 - 1 \<Longrightarrow>
      cells mm h' (nt_q s) = (cells mm (nt_h s) (nt_q s))\<lparr>ce_avail_idx := of_nat (nt_published s + 1)\<rparr> \<Longrightarrow>
      notify_inv mm (s\<lparr>nt_h := h', nt_published := nt_published s + 1\<rparr>)"
    and "cells mm h' (nt_q s) = cells mm (nt_h s) (nt_q s) \<Longrightarrow> notify_inv mm (s\<lparr>nt_h := h'\<rparr>)"
    and "nt_drv s = Running \<Longrightarrow> ce_used_idx (cells mm (nt_h s) (nt_q s)) \<noteq> of_nat (nt_seen s) \<Longrightarrow>
      notify_inv mm (s\<lparr>nt_seen := nt_seen s + 1\<rparr>)"
    and "nt_drv s = Running \<Longrightarrow>
      cells mm h' (nt_q s) = (cells mm (nt_h s) (nt_q s))\<lparr>ce_used_event := of_nat (nt_seen s)\<rparr> \<Longrightarrow>
      notify_inv mm (s\<lparr>nt_h := h', nt_drv := Armed\<rparr>)"
    and "nt_drv s = Armed \<Longrightarrow> notify_inv mm (s\<lparr>nt_drv :=
      if ce_used_idx (cells mm (nt_h s) (nt_q s)) \<noteq> of_nat (nt_seen s) then Running else Asleep\<rparr>)"
    and "notify_inv mm (s\<lparr>nt_irq := False, nt_drv := Running\<rparr>)"
proof -
  note seen = used_seen [of mm s]
  show "notify_inv mm (s\<lparr>nt_h := h', nt_published := nt_published s + 1\<rparr>)"
    if g: "nt_published s - nt_seen s < unat (q_size (nt_q s))" "nt_published s - nt_checked s < 2 ^ 16 - 1"
      and c: "cells mm h' (nt_q s) = (cells mm (nt_h s) (nt_q s))\<lparr>ce_avail_idx := of_nat (nt_published s + 1)\<rparr>"
  proof -
    have "nt_published s + 1 \<le> nt_seen s + unat (q_size (nt_q s))" "nt_published s + 1 < nt_checked s + 2 ^ 16"
      using g by linarith+
    then show ?thesis
      using i c pc_ok_more [of "nt_q s" "nt_popped s < nt_published s" "nt_pc s" "nt_popped s < nt_published s + 1"]
      by (simp add: notify_inv_defs)
  qed
  show "notify_inv mm (s\<lparr>nt_h := h'\<rparr>)" if "cells mm h' (nt_q s) = cells mm (nt_h s) (nt_q s)"
    using i that by (simp add: notify_inv_defs)
  show "notify_inv mm (s\<lparr>nt_seen := nt_seen s + 1\<rparr>)"
    if "nt_drv s = Running" "ce_used_idx (cells mm (nt_h s) (nt_q s)) \<noteq> of_nat (nt_seen s)"
    using i that seen by (auto simp: notify_inv_defs)
  show "notify_inv mm (s\<lparr>nt_h := h', nt_drv := Armed\<rparr>)" if "nt_drv s = Running"
    "cells mm h' (nt_q s) = (cells mm (nt_h s) (nt_q s))\<lparr>ce_used_event := of_nat (nt_seen s)\<rparr>"
    using i that by (simp add: notify_inv_defs)
  show "notify_inv mm (s\<lparr>nt_drv :=
      if ce_used_idx (cells mm (nt_h s) (nt_q s)) \<noteq> of_nat (nt_seen s) then Running else Asleep\<rparr>)"
    if "nt_drv s = Armed"
    using i that seen by (auto simp: notify_inv_defs)
  show "notify_inv mm (s\<lparr>nt_irq := False, nt_drv := Running\<rparr>)" using i by (simp add: notify_inv_defs)
qed

text \<open>The worker's steps but for serving a chain.\<close>

lemma drained_queue_len:
  assumes "in_step mm s"
  shows "queue_len mm (nt_h s) (nt_q s) = Some (of_nat (nt_published s - nt_popped s))"
  using assms avail_idx_cell [of mm "nt_q s" "nt_h s"] by (simp add: queue_len_def in_step_def of_nat_diff)

lemma disable_keeps:
  assumes "notify_inv mm s" "nt_pc s = Disabling" "disable_notification mm (nt_h s) (nt_q s) = Ok h'"
  shows "notify_inv mm (s\<lparr>nt_h := h', nt_used_any := False, nt_pc := Draining\<rparr>)"
proof -
  have "rings_ok mm (nt_q s)" using assms(1) by (simp add: notify_inv_defs)
  from set_notification_cells [OF this assms(3) [unfolded disable_notification_def]] show ?thesis
    using assms(1,2) by (auto simp: notify_inv_defs)
qed

lemma enable_keeps:
  assumes "notify_inv mm s" "nt_pc s = Enabling" "set_notification mm (nt_h s) (nt_q s) True = Ok h'"
  shows "notify_inv mm (s\<lparr>nt_h := h', nt_pc := Checking\<rparr>)"
proof -
  have "rings_ok mm (nt_q s)" using assms(1) by (simp add: notify_inv_defs)
  from set_notification_cells [OF this assms(3)] show ?thesis
    using assms(1,2) by (auto simp: notify_inv_defs)
qed

lemma check_keeps:
  assumes "notify_inv mm s" "nt_pc s = Checking" "avail_idx mm (nt_h s) (nt_q s) = Ok i"
  shows "notify_inv mm (s\<lparr>nt_pc := if i \<noteq> q_next_avail (nt_q s) then Disabling else WaitEvent\<rparr>)"
proof -
  have st: "in_step mm s" using assms(1) by (simp add: notify_inv_def)
  have "i = q_next_avail (nt_q s) \<longleftrightarrow> nt_popped s = nt_published s"
    using avail_idx_cell [OF in_step_bounds(1) [OF st], of "nt_h s"] assms(3) of_nat_u16_eq [OF in_step_bounds(2,3) [OF st]] st
    by (simp add: in_step_def)
  then show ?thesis using assms(1,2) by (auto simp: notify_inv_defs)
qed

lemma finish_keeps:
  assumes i: "notify_inv mm s" and pc: "nt_pc s = Finishing"
    and b: "batch_notifies mm (nt_h s) (nt_q s) (nt_used_any s) = Some (q', b)"
  shows "notify_inv mm (s\<lparr>nt_q := q', nt_told := nt_used s, nt_pc := if b then Signalling else Enabling\<rparr>)"
proof -
  let ?q = "nt_q s"
  have r: "rings_ok mm ?q" using i by (simp add: notify_inv_defs)
  note ev = used_event_cell [OF r, of "nt_h s"]
  have q': "used_moved ?q q'" "q_next_used q' = q_next_used ?q"
    "q_event_idx_enabled ?q \<Longrightarrow> nt_told s \<noteq> nt_used s \<Longrightarrow> q_num_added q' = 0"
    "q_num_added ?q = 0 \<Longrightarrow> q_num_added q' = 0"
    using b ev i pc
    by (auto simp: batch_notifies_def needs_notification_def Let_def used_moved_added driver_woken_def notify_inv_def
        split: if_splits)
  have irq: "b" if a: "nt_drv s = Asleep" "\<not> nt_wrapped s" "\<not> nt_irq s" "nt_seen s < nt_used s"
  proof -
    have t: "nt_told s \<le> nt_seen s" "nt_used s - nt_told s < 2 ^ 16" "nt_used_any s" "nt_told s \<le> nt_used s"
      using i pc a by (auto simp: notify_inv_defs)
    have e: "q_event_idx_enabled ?q \<Longrightarrow> ce_used_event (cells mm (nt_h s) ?q) = of_nat (nt_seen s)"
      "q_next_used ?q = of_nat (nt_used s)"
      "q_event_idx_enabled ?q \<Longrightarrow> q_num_added ?q = of_nat (nt_used s) - of_nat (nt_told s)"
      using i pc a(1) t(4) by (simp_all add: notify_inv_defs of_nat_diff)
    show ?thesis
      using b ev t(3) index_passed [OF t(1) a(4) t(2)] e
      by (auto simp: batch_notifies_def needs_notification_def Let_def split: if_splits)
  qed
  have n: "q_event_idx_enabled ?q \<Longrightarrow> q_num_added q' = 0"
    using q'(3,4) i pc by (cases "nt_told s = nt_used s") (simp_all add: notify_inv_defs)
  have "nt_drv s = Asleep \<and> \<not> nt_wrapped s \<longrightarrow> nt_irq s \<or> b \<or> nt_used s \<le> nt_seen s"
    using irq by (meson not_le)
  then show ?thesis
    using i pc n q'(2) used_moved_fields [OF q'(1)] cells_moved [OF q'(1)] rings_ok_moved [OF q'(1)]
    by (cases b) (simp_all add: notify_inv_defs)
qed

lemma look_keeps:
  assumes i: "notify_inv mm s" and pc: "nt_pc s = Draining" and n: "queue_len mm (nt_h s) (nt_q s) = Some n"
  shows "notify_inv mm (s\<lparr>nt_pc := if n = 0 \<or> actual_size (nt_q s) = 0 then Finishing else Taking\<rparr>)"
proof -
  have st: "in_step mm s" using i by (simp add: notify_inv_def)
  have "nt_popped s < nt_published s" if "n \<noteq> 0"
  proof -
    have "nt_published s \<noteq> nt_popped s" using n that drained_queue_len [OF st] by auto
    then show ?thesis using in_step_bounds(2) [OF st] by simp
  qed
  then show ?thesis using i pc by (auto simp: notify_inv_defs)
qed

lemma fetch_keeps:
  assumes i: "notify_inv mm s" and pc: "nt_pc s = Fetching j"
    and c: "checked_new mm (nt_h s) (q_desc_table (nt_q s)) (actual_size (nt_q s)) j = Some c"
  shows "notify_inv mm (s\<lparr>nt_q := (nt_q s)\<lparr>q_next_avail := q_next_avail (nt_q s) + 1\<rparr>,
      nt_popped := nt_popped s + 1, nt_pc := Handling c\<rparr>)"
proof -
  have ok: "rings_ok mm (nt_q s)" using i by (simp add: notify_inv_defs)
  have "dc_index c < q_size (nt_q s)" "0 < dc_ttl c"
    using checked_new_Some [OF c] ok actual_size_ok [of "nt_q s"] by (auto simp: rings_ok_def word_greater_zero_iff)
  then show ?thesis using i pc by (auto simp: notify_inv_defs cells_popped rings_ok_popped)
qed

lemma element_keeps:
  assumes i: "notify_inv mm s" and pc: "nt_pc s = Returning j len"
    and e: "used_element mm (nt_h s) (nt_q s) j len = Ok (q', h')"
  shows "notify_inv mm (s\<lparr>nt_q := q', nt_h := h', nt_pc := Publishing\<rparr>)"
proof -
  have ok: "rings_ok mm (nt_q s)" and st: "in_step mm s" using i by (simp_all add: notify_inv_defs)
  have q': "q' = (nt_q s)\<lparr>q_next_used := q_next_used (nt_q s) + 1, q_num_added := q_num_added (nt_q s) + 1\<rparr>"
    by (rule used_element_cells(1) [OF ok e])
  have m: "used_moved (nt_q s) q'" by (simp add: q' used_moved_def)
  have c: "cells mm h' q' = cells mm (nt_h s) (nt_q s)" using cells_moved [OF m] used_element_cells(2) [OF ok e] by simp
  have n: "q_next_used q' = q_next_used (nt_q s) + 1" "q_num_added q' = q_num_added (nt_q s) + 1" by (simp_all add: q')
  show ?thesis
    using i pc rings_ok_moved [OF m, of mm] in_step_bounds(6) [OF st]
    by (simp add: notify_inv_defs c n used_moved_fields [OF m] Suc_diff_le)
qed

lemma publish_index_keeps:
  assumes i: "notify_inv mm s" and pc: "nt_pc s = Publishing"
    and p: "publish_used mm (nt_h s) (nt_q s) = (h', res)"
  shows "notify_inv mm (s\<lparr>nt_h := h', nt_used_any := True, nt_used := nt_used s + 1,
      nt_wrapped := nt_wrapped s \<or> 2 ^ 16 \<le> nt_used s + 1 - nt_told s, nt_pc := Draining\<rparr>)"
proof -
  have ok: "rings_ok mm (nt_q s)" using i by (simp add: notify_inv_defs)
  show ?thesis using i pc publish_used_cells [OF ok p] by (auto simp: notify_inv_defs)
qed

section \<open>Handlers\<close>

text \<open>
  What the protocol relies on: a handler refuses its chain and does nothing, or writes to the
  chain's buffers and returns it.
\<close>

locale returning_handler =
  fixes legal :: "'p \<Rightarrow> bool"
    and handle :: "'p \<Rightarrow> memory_manager \<Rightarrow> 's handler"
    and data :: "'p \<Rightarrow> memory_manager \<Rightarrow> 's data_phase"
  assumes concludes: "handle p mm c q h s = conclude mm c q (data p mm c h s)"
    and refuses_or_returns: "legal p \<Longrightarrow> mm_wf mm \<Longrightarrow> 0 < dc_ttl c \<Longrightarrow>
    handle p mm c q h s = Some (q', h', s', u) \<Longrightarrow>
    (q', h', u) = (q, h, False) \<or>
    (\<exists>len h1. same_view mm (- write_area mm h c) h h1 \<and>
       return_chain mm c len q h1 s' = Some (q', h', s', u))"
begin

text \<open>On a queue of size 0 nothing is written to the used ring, which shows what the work on the chain did.\<close>

lemma data_frame:
  assumes "legal p" "mm_wf mm" "0 < dc_ttl c" and d: "data p mm c h s = Some (h', s', out)"
  shows "same_view mm (- write_area mm h c) h h'"
proof -
  obtain q :: queue where q: "q_size q = 0" by (metis queue.select_convs(2))
  have rc: "return_chain mm c len q g t = Some (q, g, t, True)" for len g and t :: 's
    using q by (simp add: return_chain_def add_used_def)
  then have "handle p mm c q h s = Some (q, h', s', out \<noteq> Refused)"
    using d by (cases out) (simp_all add: concludes conclude_def)
  from refuses_or_returns [OF assms(1-3) this] show ?thesis by (auto simp: rc)
qed

lemma handle_keeps:
  assumes "legal p" and i: "notify_inv mm s" and pc: "nt_pc s = Handling c"
    and ap: "write_area mm (nt_h s) c \<inter> (ring_area (nt_q s) \<union> avail_area (nt_q s)) = {}"
    and d: "data p mm c (nt_h s) (nt_dev s) = Some (h', d', out)"
  shows "notify_inv mm (s\<lparr>nt_h := h', nt_dev := d', nt_pc := Returning (dc_index c) len\<rparr>)"
    and "notify_inv mm (s\<lparr>nt_h := h', nt_dev := d', nt_refused := True, nt_pc := Draining\<rparr>)"
proof -
  have c: "0 < dc_ttl c" and wf: "mm_wf mm" using i pc by (auto simp: notify_inv_defs rings_ok_def)
  have "same_view mm (ring_area (nt_q s) \<union> avail_area (nt_q s)) (nt_h s) h'"
    by (rule same_view_mono [OF data_frame [OF assms(1) wf c d]]) (use ap in blast)
  then have c1: "cells mm h' (nt_q s) = cells mm (nt_h s) (nt_q s)" by (rule cells_same_view)
  show "notify_inv mm (s\<lparr>nt_h := h', nt_dev := d', nt_pc := Returning (dc_index c) len\<rparr>)"
    using i pc c1 by (auto simp: notify_inv_defs)
  show "notify_inv mm (s\<lparr>nt_h := h', nt_dev := d', nt_refused := True, nt_pc := Draining\<rparr>)"
    using i pc c1 by (auto simp: notify_inv_defs)
qed

lemma worker_step_keeps:
  assumes "legal p" and i: "notify_inv mm s" and "notify_step mm (data p mm) s s'"
  shows "notify_inv mm s'"
  using assms(3)
proof cases
  case wake
  then show ?thesis using i by (auto simp: notify_inv_defs)
next
  case (disable h')
  then show ?thesis using disable_keeps [OF i] by simp
next
  case (look n)
  then show ?thesis using look_keeps [OF i] by simp
next
  case (entry j)
  then show ?thesis using i by (auto simp: notify_inv_defs)
next
  case (fetch j c)
  then show ?thesis using fetch_keeps [OF i] by simp
next
  case (no_chain j)
  then show ?thesis using i by (auto simp: notify_inv_defs)
next
  case (handle c h' d' len)
  then show ?thesis using handle_keeps(1) [OF assms(1) i] by simp
next
  case (refuse c h' d')
  then show ?thesis using handle_keeps(2) [OF assms(1) i] by simp
next
  case (element j len q' h')
  then show ?thesis using element_keeps [OF i] by simp
next
  case (no_element j len e)
  have "rings_ok mm (nt_q s)" "j < q_size (nt_q s)" using i no_element(2) by (auto simp: notify_inv_defs)
  from used_element_ok [OF this] show ?thesis using no_element(3) by (metis result.distinct(1))
next
  case (publish_index h' res)
  then show ?thesis using publish_index_keeps [OF i] by simp
next
  case (finish q' b)
  then show ?thesis using finish_keeps [OF i] by simp
next
  case signal
  then show ?thesis using i by (auto simp: notify_inv_defs)
next
  case (enable h')
  then show ?thesis using enable_keeps [OF i] by simp
next
  case (check j)
  then show ?thesis using check_keeps [OF i] by simp
next
  case (memory_writes h')
  then show ?thesis using driver_step_keeps(2) [OF i] by simp
next
  case (publish h')
  then show ?thesis using driver_step_keeps(1) [OF i] by simp
next
  case notify
  then show ?thesis using notify_keeps [OF i] by simp
next
  case kick
  then show ?thesis using i by (auto simp: notify_inv_defs)
next
  case take_used
  then show ?thesis using driver_step_keeps(3) [OF i] by simp
next
  case (arm h')
  then show ?thesis using driver_step_keeps(4) [OF i] by simp
next
  case recheck
  then show ?thesis using driver_step_keeps(5) [OF i] by simp
next
  case interrupt
  then show ?thesis using driver_step_keeps(6) [OF i] by simp
qed

lemma reach_inv:
  assumes "legal p" "notify_reach mm (data p mm) s"
  shows "notify_inv mm s"
  using assms(2) by induction (auto intro: notify_init_inv worker_step_keeps [OF assms(1)])

lemma quiet_means_finished:
  assumes "legal p" "notify_reach mm (data p mm) s"
    and "nt_pc s = WaitEvent" "\<not> nt_event s" "nt_checked s = nt_published s" "\<not> nt_kick s"
  shows "nt_popped s = nt_published s \<and> queue_len mm (nt_h s) (nt_q s) = Some 0 \<and>
    (nt_drv s = Asleep \<and> \<not> nt_irq s \<and> \<not> nt_wrapped s \<longrightarrow>
       nt_seen s = nt_used s \<and> (\<not> nt_refused s \<longrightarrow> nt_seen s = nt_published s))"
proof -
  note i = reach_inv [OF assms(1,2)]
  then have p: "nt_popped s = nt_published s" using assms(3-6) by (auto simp: notify_inv_defs)
  moreover have "queue_len mm (nt_h s) (nt_q s) = Some 0"
    using i p drained_queue_len [of mm s] by (simp add: notify_inv_def)
  ultimately show ?thesis using i assms(3) by (auto simp: notify_inv_defs)
qed

end

section \<open>The steps are those of the loop\<close>

text \<open>
  Run without interruption, the steps from the event to the next wait do what the loop does, and
  leave what belongs to the driver alone.
\<close>

abbreviation driver_side :: "'s notify \<Rightarrow> bool \<times> bool \<times> nat \<times> nat \<times> nat \<times> driver_pc" where
  "driver_side s \<equiv> (nt_event s, nt_kick s, nt_published s, nt_checked s, nt_seen s, nt_drv s)"

text \<open>\<^verbatim>\<open>pop\<close>, the end of \<^verbatim>\<open>add_used\<close> and the end of a batch, as steps.\<close>

lemma take_steps:
  assumes "nt_pc s = Draining" "pop mm (nt_h s) (nt_q s) = Some (q1, Some c)"
  shows "(notify_step mm data)\<^sup>*\<^sup>* s (s\<lparr>nt_q := q1, nt_popped := nt_popped s + 1, nt_pc := Handling c\<rparr>)"
proof -
  obtain n where n: "queue_len mm (nt_h s) (nt_q s) = Some n" "n \<noteq> 0" "actual_size (nt_q s) \<noteq> 0"
    "avail_entry mm (nt_h s) (nt_q s) (q_next_avail (nt_q s)) = Ok (dc_index c)"
    "checked_new mm (nt_h s) (q_desc_table (nt_q s)) (actual_size (nt_q s)) (dc_index c) = Some c"
    "q1 = (nt_q s)\<lparr>q_next_avail := q_next_avail (nt_q s) + 1\<rparr>"
    using pop_Some [OF assms(2)] .
  have "notify_step mm data s (s\<lparr>nt_pc := Taking\<rparr>)"
    using notify_step.look [OF assms(1) n(1), of data] n(2,3) by simp
  moreover have "notify_step mm data (s\<lparr>nt_pc := Taking\<rparr>) (s\<lparr>nt_pc := Fetching (dc_index c)\<rparr>)"
    using notify_step.entry [of "s\<lparr>nt_pc := Taking\<rparr>" mm "dc_index c" data] n(4) by simp
  moreover have "notify_step mm data (s\<lparr>nt_pc := Fetching (dc_index c)\<rparr>)
      (s\<lparr>nt_q := q1, nt_popped := nt_popped s + 1, nt_pc := Handling c\<rparr>)"
    using notify_step.fetch [of "s\<lparr>nt_pc := Fetching (dc_index c)\<rparr>" "dc_index c" mm c data] n(5,6) by simp
  ultimately show ?thesis by (meson converse_rtranclp_into_rtranclp rtranclp.rtrancl_refl)
qed

lemma drained_steps:
  assumes "nt_pc s = Draining" "pop mm (nt_h s) (nt_q s) = Some (q1, None)"
  shows "(notify_step mm data)\<^sup>*\<^sup>* s (s\<lparr>nt_pc := Finishing\<rparr>)"
proof -
  obtain n where n: "queue_len mm (nt_h s) (nt_q s) = Some n"
    using assms(2) by (auto simp: pop_accesses split: option.splits)
  show ?thesis
  proof (cases "n = 0 \<or> actual_size (nt_q s) = 0")
    case True
    then show ?thesis using notify_step.look [OF assms(1) n, of data] by auto
  next
    case False
    then obtain i where i: "avail_entry mm (nt_h s) (nt_q s) (q_next_avail (nt_q s)) = Ok i"
      "checked_new mm (nt_h s) (q_desc_table (nt_q s)) (actual_size (nt_q s)) i = None"
      using assms(2) n by (auto simp: pop_accesses split: option.splits result.splits)
    have "notify_step mm data s (s\<lparr>nt_pc := Taking\<rparr>)" using notify_step.look [OF assms(1) n, of data] False by simp
    moreover have "notify_step mm data (s\<lparr>nt_pc := Taking\<rparr>) (s\<lparr>nt_pc := Fetching i\<rparr>)"
      using notify_step.entry [of "s\<lparr>nt_pc := Taking\<rparr>" mm i data] i(1) by simp
    moreover have "notify_step mm data (s\<lparr>nt_pc := Fetching i\<rparr>) (s\<lparr>nt_pc := Finishing\<rparr>)"
      using notify_step.no_chain [of "s\<lparr>nt_pc := Fetching i\<rparr>" i mm data] i(2) by simp
    ultimately show ?thesis by (meson converse_rtranclp_into_rtranclp rtranclp.rtrancl_refl)
  qed
qed

lemma return_steps:
  assumes "nt_pc s = Returning i len" "add_used mm (nt_h s) (nt_q s) i len = (q', h', res)"
  shows "\<exists>s'. (notify_step mm data)\<^sup>*\<^sup>* s s' \<and> nt_pc s' = Draining \<and> nt_q s' = q' \<and> nt_h s' = h' \<and>
    nt_dev s' = nt_dev s \<and> nt_used_any s' \<and> driver_side s' = driver_side s"
proof (cases "used_element mm (nt_h s) (nt_q s) i len")
  case (Err e)
  then show ?thesis
    using notify_step.no_element [OF assms(1) Err, of data] assms(2)
    by (intro exI [of _ "s\<lparr>nt_used_any := True, nt_pc := Draining\<rparr>"]) (auto simp: add_used_accesses)
next
  case (Ok x)
  then obtain q1 h1 where e: "used_element mm (nt_h s) (nt_q s) i len = Ok (q1, h1)" by (cases x) simp
  let ?s1 = "s\<lparr>nt_q := q1, nt_h := h1, nt_pc := Publishing\<rparr>"
  obtain h2 res2 where p: "publish_used mm h1 q1 = (h2, res2)" by fastforce
  let ?s2 = "?s1\<lparr>nt_h := h2, nt_used_any := True, nt_used := nt_used ?s1 + 1,
      nt_wrapped := nt_wrapped ?s1 \<or> 2 ^ 16 \<le> nt_used ?s1 + 1 - nt_told ?s1, nt_pc := Draining\<rparr>"
  have q: "q' = q1" "h' = h2" using assms(2) e p by (simp_all add: add_used_accesses)
  have "notify_step mm data s ?s1" by (rule notify_step.element [OF assms(1) e])
  moreover have "notify_step mm data ?s1 ?s2" by (rule notify_step.publish_index) (use p in simp_all)
  ultimately have "(notify_step mm data)\<^sup>*\<^sup>* s ?s2" by (meson converse_rtranclp_into_rtranclp rtranclp.rtrancl_refl)
  then show ?thesis by (intro exI [of _ ?s2] conjI) (simp_all add: q)
qed

lemma finish_steps:
  assumes "nt_pc s = Finishing" "batch_notifies mm (nt_h s) (nt_q s) (nt_used_any s) = Some (q', b)"
  shows "(notify_step mm data)\<^sup>*\<^sup>* s (s\<lparr>nt_q := q', nt_told := nt_used s, nt_irq := nt_irq s \<or> b, nt_pc := Enabling\<rparr>)"
proof (cases b)
  case True
  let ?s1 = "s\<lparr>nt_q := q', nt_told := nt_used s, nt_pc := Signalling\<rparr>"
  have "notify_step mm data s ?s1" using notify_step.finish [OF assms, of data] True by simp
  moreover have "notify_step mm data ?s1 (s\<lparr>nt_q := q', nt_told := nt_used s, nt_irq := nt_irq s \<or> b, nt_pc := Enabling\<rparr>)"
    using notify_step.signal [of ?s1 mm data] True by simp
  ultimately show ?thesis by (meson converse_rtranclp_into_rtranclp rtranclp.rtrancl_refl)
next
  case False
  then show ?thesis using notify_step.finish [OF assms, of data] by auto
qed

locale notifying_handler = chain_handler legal minimum handle + returning_handler legal handle data
  for legal :: "'p \<Rightarrow> bool" and minimum :: nat and handle :: "'p \<Rightarrow> memory_manager \<Rightarrow> 's handler"
    and data :: "'p \<Rightarrow> memory_manager \<Rightarrow> 's data_phase"
begin

lemma chain_steps:
  assumes "nt_pc s = Draining" "pop mm (nt_h s) (nt_q s) = Some (q1, Some c)"
    and "write_area mm (nt_h s) c \<inter> (ring_area q1 \<union> avail_area q1) = {}"
    and "handle p mm c q1 (nt_h s) (nt_dev s) = Some (q2, h2, d2, u)"
  shows "\<exists>s'. (notify_step mm (data p mm))\<^sup>*\<^sup>* s s' \<and> nt_pc s' = Draining \<and> nt_q s' = q2 \<and> nt_h s' = h2 \<and>
    nt_dev s' = d2 \<and> nt_used_any s' = (nt_used_any s \<or> u) \<and> driver_side s' = driver_side s"
proof -
  let ?s1 = "s\<lparr>nt_q := q1, nt_popped := nt_popped s + 1, nt_pc := Handling c\<rparr>"
  have t: "(notify_step mm (data p mm))\<^sup>*\<^sup>* s ?s1" by (rule take_steps [OF assms(1,2)])
  obtain h1 d1 out where d: "data p mm c (nt_h s) (nt_dev s) = Some (h1, d1, out)"
    and cn: "conclude mm c q1 (Some (h1, d1, out)) = Some (q2, h2, d2, u)"
    using assms(4) unfolding concludes by (cases "data p mm c (nt_h s) (nt_dev s)") (auto simp: conclude_def)
  show ?thesis
  proof (cases out)
    case Refused
    let ?s2 = "?s1\<lparr>nt_h := h1, nt_dev := d1, nt_refused := True, nt_pc := Draining\<rparr>"
    have "notify_step mm (data p mm) ?s1 ?s2"
      by (rule notify_step.refuse [of _ c]) (use assms(3) d Refused in simp_all)
    with t have "(notify_step mm (data p mm))\<^sup>*\<^sup>* s ?s2" by (rule rtranclp.rtrancl_into_rtrancl)
    then show ?thesis using cn Refused by (intro exI [of _ ?s2] conjI) (simp_all add: conclude_def)
  next
    case (Returned len)
    let ?s2 = "?s1\<lparr>nt_h := h1, nt_dev := d1, nt_pc := Returning (dc_index c) len\<rparr>"
    have t2: "(notify_step mm (data p mm))\<^sup>*\<^sup>* s ?s2"
      by (rule rtranclp.rtrancl_into_rtrancl [OF t], rule notify_step.handle) (use assms(3) d Returned in simp_all)
    obtain res where a: "add_used mm h1 q1 (dc_index c) len = (q2, h2, res)" "d2 = d1" "u"
      using cn Returned by (auto simp: conclude_def return_chain_def split: prod.splits)
    obtain s' where s': "(notify_step mm (data p mm))\<^sup>*\<^sup>* ?s2 s'" "nt_pc s' = Draining" "nt_q s' = q2" "nt_h s' = h2"
      "nt_dev s' = nt_dev ?s2" "nt_used_any s'" "driver_side s' = driver_side ?s2"
      using return_steps [of ?s2 "dc_index c" len mm q2 h2 res "data p mm"] a(1) by auto
    then show ?thesis using rtranclp_trans [OF t2 s'(1)] a(2,3) by (intro exI [of _ s']) simp
  qed
qed

lemma serve_steps:
  assumes "legal p" "driver_ok mm h q cs" "\<forall>c \<in> set cs. write_area mm h c \<inter> ring_area q = {}"
    and "serve (handle p mm) cs q h d u = Some (q', h', d', u')"
    and "nt_pc s = Draining" "nt_q s = q" "nt_h s = h" "nt_dev s = d" "nt_used_any s = u"
  shows "\<exists>s'. (notify_step mm (data p mm))\<^sup>*\<^sup>* s s' \<and> nt_pc s' = Draining \<and> nt_q s' = q' \<and> nt_h s' = h' \<and>
    nt_dev s' = d' \<and> nt_used_any s' = u' \<and> driver_ok mm h' q' [] \<and> driver_side s' = driver_side s"
  using assms(2-9)
proof (induction cs arbitrary: q h d u s)
  case Nil
  then show ?case by auto
next
  case (Cons c cs)
  let ?q1 = "q\<lparr>q_next_avail := q_next_avail q + 1\<rparr>"
  obtain q2 h2 d2 b where st: "handle p mm c ?q1 h d = Some (q2, h2, d2, b)"
    "driver_ok mm h2 q2 cs" "same_view mm (driver_area q) h h2" "q_size q2 = q_size q"
    by (rule handle_step [OF assms(1) Cons(2), of d]) blast
  have wf: "mm_wf mm" "used_ok mm ?q1" using Cons(2) by (simp_all add: driver_ok_def driver_ok_next_fields)
  have "used_moved ?q1 q2" using handle_frame [OF assms(1) wf(1) driver_ok_Cons(3) [OF Cons(2)] wf(2) st(1)] by simp
  then have ring: "ring_area q2 = ring_area q" using used_moved_fields(9) [of ?q1 q2] by (simp add: ring_area_def)
  have iter: "write_area mm h2 x = write_area mm h x" if "x \<in> set cs" for x
    using chain_iter_driver [OF Cons(2) st(3), of x] that by (simp add: write_area_def)
  have ap: "write_area mm h c \<inter> (ring_area ?q1 \<union> avail_area ?q1) = {}"
    using Cons(2,3) by (auto simp: driver_ok_def driver_area_def avail_area_def ring_area_def)
  have pre: "pop mm (nt_h s) (nt_q s) = Some (?q1, Some c)" "handle p mm c ?q1 (nt_h s) (nt_dev s) = Some (q2, h2, d2, b)"
    "write_area mm (nt_h s) c \<inter> (ring_area ?q1 \<union> avail_area ?q1) = {}"
    using Cons(5-9) driver_ok_Cons(1) [OF Cons(2)] ap st(1) by simp_all
  obtain s1 where one: "(notify_step mm (data p mm))\<^sup>*\<^sup>* s s1" and s1: "nt_pc s1 = Draining" "nt_q s1 = q2"
    "nt_h s1 = h2" "nt_dev s1 = d2" "nt_used_any s1 = (u \<or> b)" and side: "driver_side s1 = driver_side s"
    using chain_steps [OF Cons(5) pre(1,3,2)] Cons(9) by blast
  have "\<forall>x \<in> set cs. write_area mm h2 x \<inter> ring_area q2 = {}" using Cons(3) iter ring by simp
  from Cons(1) [OF st(2) this _ s1] Cons(4) st(1)
  obtain s' where "(notify_step mm (data p mm))\<^sup>*\<^sup>* s1 s'" "nt_pc s' = Draining" "nt_q s' = q'" "nt_h s' = h'"
    "nt_dev s' = d'" "nt_used_any s' = u'" "driver_ok mm h' q' []" "driver_side s' = driver_side s"
    unfolding side by auto
  then show ?case using rtranclp_trans [OF one] by blast
qed

lemma event_steps:
  assumes "legal p" "driver_ok mm h q cs" "\<forall>c \<in> set cs. write_area mm h c \<inter> ring_area q = {}" "length cs < fuel"
    and s: "nt_pc s = Disabling" "nt_q s = q" "nt_h s = h" "nt_dev s = d"
  shows "\<exists>q' h' d' il' s'.
    process_virtio_queues fuel mm (process_batch (finish_batch env mm) fuel mm (handle p mm)) q h (d, il) =
      Some (Some (q', h', d', il')) \<and>
    (notify_step mm (data p mm))\<^sup>*\<^sup>* s s' \<and> nt_pc s' = WaitEvent \<and> nt_q s' = q' \<and> nt_h s' = h' \<and> nt_dev s' = d' \<and>
    driver_side s' = driver_side s"
proof -
  obtain n where n: "fuel = Suc n" using assms(4) by (cases fuel) auto
  have wf: "mm_wf mm" "used_ok mm q" using assms(2) by (simp_all add: driver_ok_def)
  obtain h1 where h1: "disable_notification mm h q = Ok h1" "same_view mm (- ring_area q) h h1"
    using set_notification_ok [OF wf] unfolding disable_notification_def by metis
  note v1 = driver_ok_outside [OF assms(2) h1(2)]
  have ok1: "driver_ok mm h1 q cs" by (rule driver_ok_frame [OF assms(2) v1 used_moved_refl])
  have ap1: "\<forall>c \<in> set cs. write_area mm h1 c \<inter> ring_area q = {}"
    using assms(3) chain_iter_driver [OF assms(2) v1] by (simp add: write_area_def)
  obtain q2 h2 d2 u where sv: "serve (handle p mm) cs q h1 d False = Some (q2, h2, d2, u)"
    using serve_result [OF assms(1) ok1, of d False] by metis
  let ?s1 = "s\<lparr>nt_h := h1, nt_used_any := False, nt_pc := Draining\<rparr>"
  have t1: "notify_step mm (data p mm) s ?s1" by (rule notify_step.disable) (use s h1(1) in simp_all)
  obtain s2 where s2: "(notify_step mm (data p mm))\<^sup>*\<^sup>* ?s1 s2" "nt_pc s2 = Draining" "nt_q s2 = q2" "nt_h s2 = h2"
    "nt_dev s2 = d2" "nt_used_any s2 = u" "driver_ok mm h2 q2 []" "driver_side s2 = driver_side s"
    using serve_steps [OF assms(1) ok1 ap1 sv, of ?s1] s by auto
  let ?f = "s2\<lparr>nt_pc := Finishing\<rparr>"
  have t2: "(notify_step mm (data p mm))\<^sup>*\<^sup>* s2 ?f"
    by (rule drained_steps) (use s2(2-4) driver_ok_Nil(1) [OF s2(7)] in simp_all)
  obtain q3 b where nn: "needs_notification mm h2 q2 = (q3, Ok b)" "used_moved q2 q3"
    using needs_notification_ok [OF s2(7)] by metis
  define q4 where "q4 = (if u then q3 else q2)"
  have f: "finish_batch env mm h2 q2 il u = Some (q4, if u \<and> b then signal_used_queue env il else il)"
    "batch_notifies mm h2 q2 u = Some (q4, u \<and> b)" "used_moved q2 q4"
    using nn by (auto simp: finish_batch_def batch_notifies_def q4_def)
  let ?s3 = "s2\<lparr>nt_q := q4, nt_told := nt_used s2, nt_irq := nt_irq s2 \<or> (u \<and> b), nt_pc := Enabling\<rparr>"
  have t3: "(notify_step mm (data p mm))\<^sup>*\<^sup>* ?f ?s3"
    using finish_steps [of ?f mm q4 "u \<and> b" "data p mm"] f(2) s2 by simp
  have ok4: "driver_ok mm h2 q4 []" by (rule driver_ok_frame [OF s2(7) same_view_refl f(3)])
  obtain h4 where h4: "enable_notification mm h2 q4 = (h4, Ok False)" using enable_notification_ok [OF ok4] .
  then have e: "set_notification mm h2 q4 True = Ok h4" "avail_idx mm h4 q4 = Ok (q_next_avail q4)"
    by (auto simp: enable_notification_def split: result.splits)
  have t4: "notify_step mm (data p mm) ?s3 (?s3\<lparr>nt_h := h4, nt_pc := Checking\<rparr>)"
    by (rule notify_step.enable) (use e s2(4) in simp_all)
  let ?s5 = "?s3\<lparr>nt_h := h4, nt_pc := WaitEvent\<rparr>"
  have t5: "notify_step mm (data p mm) (?s3\<lparr>nt_h := h4, nt_pc := Checking\<rparr>) ?s5"
    using notify_step.check [of "?s3\<lparr>nt_h := h4, nt_pc := Checking\<rparr>" mm _ "data p mm"] e by simp
  have "(notify_step mm (data p mm))\<^sup>*\<^sup>* s ?s5"
    using rtranclp_trans [OF rtranclp_trans [OF converse_rtranclp_into_rtranclp [OF t1 s2(1)] t2] t3] t4 t5
    by (meson rtranclp.rtrancl_into_rtrancl)
  moreover have "process_virtio_queues fuel mm (process_batch (finish_batch env mm) fuel mm (handle p mm)) q h (d, il) =
      Some (Some (q4, h4, d2, if u \<and> b then signal_used_queue env il else il))"
    using drain_serves [OF assms(1) ok1 assms(4), of d False] sv f(1) h1(1) h4 unfolding n
    by (simp add: process_batch_def)
  moreover have "nt_pc ?s5 = WaitEvent \<and> nt_q ?s5 = q4 \<and> nt_h ?s5 = h4 \<and> nt_dev ?s5 = d2 \<and>
      driver_side ?s5 = driver_side s" using s2(5,8) by simp
  ultimately show ?thesis by blast
qed

end

lemma rng_refuses_or_returns:
  assumes "fills_buffer gen" "mm_wf mm" "0 < dc_ttl c" "rng_handle gen mm c q h s = Some (q', h', s', u)"
  shows "(q', h', u) = (q, h, False) \<or>
    (\<exists>len h1. same_view mm (- write_area mm h c) h h1 \<and> return_chain mm c len q h1 s' = Some (q', h', s', u))"
  using assms(2,3)
proof (cases rule: writer_new_cases [of mm c h])
  case (err e)
  then show ?thesis using assms(4) by (simp add: rng_handle_def)
next
  case (ok w)
  then have "\<forall>d \<in> set (writable (chain_iter mm h c)). mapped mm d"
    using writer_new_spec [OF assms(2,3), of h] by (auto split: if_splits)
  then obtain len h1 r' where "rng_handle gen mm c q h s = return_chain mm c len q h1 r'"
    "same_view mm (- write_area mm h c) h h1"
    using rng_handle_mapped [OF assms(1-3)] unfolding write_area_def by metis
  moreover from this have "s' = r'" using assms(4) by (auto simp: return_chain_def split: prod.splits)
  ultimately show ?thesis using assms(4) by metis
qed

lemma block_refuses_or_returns:
  assumes "block_legal p" "mm_wf mm" "0 < dc_ttl c" "block_handle p mm c q h s = Some (q', h', s', u)"
  shows "(q', h', u) = (q, h, False) \<or>
    (\<exists>len h1. same_view mm (- write_area mm h c) h h1 \<and> return_chain mm c len q h1 s' = Some (q', h', s', u))"
  using assms(1-3)
proof (cases rule: block_handle_cases [of p mm c q h s])
  case skipped
  then show ?thesis using assms(4) by simp
next
  case (returned len h1 f1)
  moreover from this have "s' = f1" using assms(4) by (auto simp: return_chain_def split: prod.splits)
  ultimately show ?thesis using assms(4) by metis
qed

interpretation rng_notify: notifying_handler fills_buffer 0 rng_handle rng_data
  by unfold_locales (rule rng_data_concludes, rule rng_refuses_or_returns)

interpretation blk_notify: notifying_handler block_legal 16 block_handle block_data
  by unfold_locales (rule block_data_concludes, rule block_refuses_or_returns)

section \<open>Properties\<close>

text \<open>
  C17.  No wake-up is lost between the driver and the worker of the block device, however their accesses to
  the rings interleave, as long as no batch is so long that \<^verbatim>\<open>num_added\<close> wraps: when the worker waits, its
  event is not signalled and the driver has looked whether to notify and has done so, every published
  request has been taken; and when the driver sleeps without an interrupt on the way and no batch had
  \<open>2^16\<close> elements or more, it has seen every request the device returned, so all requests are completed unless one was
  refused.  (After a batch of \<open>2^16\<close> elements or more the interrupt can be lost, see
  \<open>wrapped_batch_not_notified\<close>.)
\<close>

theorem no_lost_wakeups:
  assumes "block_legal p" "notify_reach mm (block_data p mm) s"
    and "nt_pc s = WaitEvent" "\<not> nt_event s" "nt_checked s = nt_published s" "\<not> nt_kick s"
  shows "nt_popped s = nt_published s \<and> queue_len mm (nt_h s) (nt_q s) = Some 0 \<and>
    (nt_drv s = Asleep \<and> \<not> nt_irq s \<and> \<not> nt_wrapped s \<longrightarrow>
       nt_seen s = nt_used s \<and> (\<not> nt_refused s \<longrightarrow> nt_seen s = nt_published s))"
  by (rule blk_notify.quiet_means_finished [OF assms])

text \<open>
  The steps of the worker are those of its loop: run without interruption from the event to the
  next wait, they take the queue, the memory and the disk where \<^verbatim>\<open>process_virtio_queues\<close> takes them.
\<close>

theorem worker_steps_refine_loop:
  assumes "block_legal p" "driver_ok mm h q cs" "\<forall>c \<in> set cs. write_area mm h c \<inter> ring_area q = {}"
    and "length cs < fuel" "nt_pc s = Disabling" "nt_q s = q" "nt_h s = h" "nt_dev s = f"
  shows "\<exists>q' h' f' il' s'.
    block_process_virtio_queues env fuel p mm q h (f, il) = Some (Some (q', h', f', il')) \<and>
    (notify_step mm (block_data p mm))\<^sup>*\<^sup>* s s' \<and> nt_pc s' = WaitEvent \<and>
    nt_q s' = q' \<and> nt_h s' = h' \<and> nt_dev s' = f' \<and> driver_side s' = driver_side s"
  using blk_notify.event_steps [OF assms, of env il]
  unfolding block_process_virtio_queues_def block_process_queue_def .

text \<open>The same for the entropy device.\<close>

theorem rng_no_lost_wakeups:
  assumes "fills_buffer gen" "notify_reach mm (rng_data gen mm) s"
    and "nt_pc s = WaitEvent" "\<not> nt_event s" "nt_checked s = nt_published s" "\<not> nt_kick s"
  shows "nt_popped s = nt_published s \<and> queue_len mm (nt_h s) (nt_q s) = Some 0 \<and>
    (nt_drv s = Asleep \<and> \<not> nt_irq s \<and> \<not> nt_wrapped s \<longrightarrow>
       nt_seen s = nt_used s \<and> (\<not> nt_refused s \<longrightarrow> nt_seen s = nt_published s))"
  by (rule rng_notify.quiet_means_finished [OF assms])

text \<open>
  The condition on the length of a batch is needed: \<^verbatim>\<open>num_added\<close> counts modulo \<open>2^16\<close>, so after a
  batch of \<open>2^16 + 1\<close> elements the worker takes the window to be the last one only, and does not
  interrupt a driver that waits for the last three.
\<close>

theorem wrapped_batch_not_notified:
  assumes "rings_ok mm q" "q_event_idx_enabled q" "q_num_added q = of_nat (2 ^ 16 + 1)"
    and "ce_used_event (cells mm h q) = q_next_used q - 3"
  shows "needs_notification mm h q = (q\<lparr>q_num_added := 0\<rparr>, Ok False)"
proof -
  have n: "q_num_added q = 1" using assms(3) by simp
  have "\<not> (q_next_used q - (q_next_used q - 3) - 1 < (1 :: u16))" by (simp add: word_less_nat_alt)
  then show ?thesis
    using used_event_cell [OF assms(1), of h] assms(2,4) n
    by (simp add: needs_notification_def Let_def)
qed

section \<open>A head that is never taken\<close>

text \<open>The next entry of the available ring is an index outside the descriptor table.\<close>

definition bad_head :: "memory_manager \<Rightarrow> heap \<Rightarrow> queue \<Rightarrow> bool" where
  "bad_head mm h q \<longleftrightarrow>
     (\<exists>n i. queue_len mm h q = Some n \<and> n \<noteq> 0 \<and> avail_entry mm h q (q_next_avail q) = Ok i \<and> q_size q \<le> i)"

lemma bad_head_pop:
  assumes "rings_ok mm q" "bad_head mm h q"
  shows "pop mm h q = Some (q, None)"
proof -
  have "actual_size q = q_size q" "q_size q \<noteq> 0" using assms(1) actual_size_ok [of q] by (auto simp: rings_ok_def)
  then show ?thesis
    using assms(2) by (auto simp: bad_head_def pop_def Let_def avail_entry_def avail_slot_def checked_new_def)
qed

lemma bad_head_same_view:
  assumes ok: "rings_ok mm q" and b: "bad_head mm h q" and v: "same_view mm (- ring_area q) h h'"
  shows "bad_head mm h' q"
proof -
  have va: "same_view mm (avail_area q) h h'"
    by (rule same_view_mono [OF v]) (use ok in \<open>auto simp: rings_ok_def\<close>)
  then have "guest_u16 mm h' (q_avail_ring q + of_nat 2) = guest_u16 mm h (q_avail_ring q + of_nat 2)"
    by (rule guest_u16_same_view) (unfold avail_area_def, rule set_addrs_sub, simp)
  then have "queue_len mm h' q = queue_len mm h q"
    using avail_idx_cell [OF ok, of h] avail_idx_cell [OF ok, of h'] by (simp add: queue_len_def cells_def)
  moreover have "avail_entry mm h' q k = avail_entry mm h q k" for k
    using avail_entry_same_view [of mm q h h' k] ok va by (simp add: rings_ok_def avail_area_def)
  ultimately show ?thesis using b by (simp add: bad_head_def)
qed

text \<open>The loop around a \<^verbatim>\<open>process_queue\<close> that finds no chain and leaves the queue as it is.\<close>

lemma bad_head_loop:
  assumes ok: "rings_ok mm q" and bad: "bad_head mm h q"
    and idle: "\<And>h s. bad_head mm h q \<Longrightarrow>
      process_queue q h s = None \<or> (\<exists>s'. process_queue q h s = Some (Some (q, h, s')))"
  shows "process_virtio_queues n mm process_queue q h s = None"
  using bad
proof (induction n arbitrary: h s)
  case 0
  then show ?case by simp
next
  case (Suc n)
  have wf: "mm_wf mm" "used_ok mm q" using ok by (simp_all add: rings_ok_def)
  obtain h1 where h1: "disable_notification mm h q = Ok h1" "same_view mm (- ring_area q) h h1"
    using set_notification_ok [OF wf] unfolding disable_notification_def by metis
  have b1: "bad_head mm h1 q" by (rule bad_head_same_view [OF ok Suc(2) h1(2)])
  obtain h2 where h2: "set_notification mm h1 q True = Ok h2" "same_view mm (- ring_area q) h1 h2"
    using set_notification_ok [OF wf] by metis
  have b2: "bad_head mm h2 q" by (rule bad_head_same_view [OF ok b1 h2(2)])
  then have "enable_notification mm h1 q = (h2, Ok True)"
    using h2(1) avail_idx_cell [OF ok, of h2] by (auto simp: enable_notification_def bad_head_def queue_len_def)
  then show ?case using h1(1) idle [OF b1, of s] Suc(1) [OF b2] by auto
qed

lemma bad_head_batch:
  assumes "rings_ok mm q" "bad_head mm h q" "\<And>il. finish h q il False = Some (q, il)"
  shows "process_batch finish fuel mm handle q h s = None \<or> process_batch finish fuel mm handle q h s = Some (Some (q, h, s))"
  using bad_head_pop [OF assms(1,2)] assms(3) by (cases fuel) (simp_all add: process_batch_def)


text \<open>A ring whose only entry is the index 9, with a table of four descriptors.\<close>

definition demo_bad_heap :: heap where
  "demo_bad_heap = copy_to demo_heap 0x10204 [9, 0]"

lemma demo_rings_ok: "rings_ok demo_mm demo_queue"
proof -
  obtain r p where "access_ok demo_mm (q_avail_ring demo_queue) (6 + 2 * unat (q_size demo_queue)) r p"
    "perms_contain (rg_perms r) PERM_READ"
    using driver_ok_avail_perms [OF demo_driver_ok] .
  then show ?thesis
    using demo_driver_ok by (auto simp: driver_ok_def rings_ok_def driver_area_def avail_area_def)
qed


text \<open>
  A driver that publishes one request and notifies: the worker takes it, returns it and waits again.
\<close>

definition demo_notify :: "heap \<Rightarrow> nat \<Rightarrow> u8 list notify" where
  "demo_notify h n =
     \<lparr>nt_q = demo_queue, nt_h = h, nt_dev = replicate 4096 0, nt_used_any = False, nt_pc = WaitEvent,
      nt_event = False, nt_published = n, nt_checked = 0, nt_kick = False, nt_seen = 0, nt_drv = Running, nt_irq = False,
      nt_popped = 0, nt_used = 0, nt_told = 0, nt_refused = False, nt_wrapped = False\<rparr>"

lemma demo_cells:
  "cells demo_mm (\<lambda>_. 0) demo_queue =
     \<lparr>ce_avail_idx = 0, ce_used_event = 0, ce_used_flags = 0, ce_used_idx = 0, ce_avail_event = 0\<rparr>"
  "cells demo_mm demo_heap demo_queue =
     \<lparr>ce_avail_idx = 1, ce_used_event = 0, ce_used_flags = 0, ce_used_idx = 0, ce_avail_event = 0\<rparr>"
  by (simp_all add: cells_def guest_u16_def view_range_def guest_view_def demo_queue_def demo_eval host_addr_def upt_rec
      demo_heap_def copy_to_def descriptor_bytes_def unat_minus_one_u64)

lemma demo_notified:
  "notify_reach demo_mm data ((demo_notify demo_heap 1)\<lparr>nt_checked := 1, nt_pc := Disabling\<rparr>)"
proof -
  let ?s = "demo_notify (\<lambda>_. 0) 0" and ?p = "demo_notify demo_heap 1"
  have i: "notify_init demo_mm ?s"
    using demo_rings_ok demo_cells(1) by (simp add: notify_init_def demo_notify_def demo_queue_def)
  have p: "notify_step demo_mm data ?s ?p"
    using notify_step.publish [of ?s demo_mm demo_heap data] demo_cells
    by (simp add: demo_notify_def demo_queue_def)
  have n: "notify_step demo_mm data ?p (?p\<lparr>nt_kick := True, nt_checked := 1\<rparr>)"
    using notify_step.notify [of demo_mm data ?p] demo_cells(2)
    by (simp add: demo_notify_def must_notify_def demo_queue_def)
  have k: "notify_step demo_mm data (?p\<lparr>nt_kick := True, nt_checked := 1\<rparr>) (?p\<lparr>nt_event := True, nt_checked := 1\<rparr>)"
    using notify_step.kick [of "?p\<lparr>nt_kick := True, nt_checked := 1\<rparr>" demo_mm data] by (simp add: demo_notify_def)
  have w: "notify_step demo_mm data (?p\<lparr>nt_event := True, nt_checked := 1\<rparr>) (?p\<lparr>nt_checked := 1, nt_pc := Disabling\<rparr>)"
    using notify_step.wake [of "?p\<lparr>nt_event := True, nt_checked := 1\<rparr>" demo_mm data]
    by (simp add: demo_notify_def)
  show ?thesis
    by (rule notify_reach.step [OF notify_reach.step [OF notify_reach.step [OF notify_reach.step
        [OF notify_reach.start [OF i] p] n] k] w])
qed

lemma notify_reach_steps:
  assumes "(notify_step mm data)\<^sup>*\<^sup>* s s'" "notify_reach mm data s"
  shows "notify_reach mm data s'"
  using assms by (induction rule: rtranclp_induct) (auto intro: notify_reach.step)

theorem no_lost_wakeups_witness:
  "\<exists>s. notify_reach demo_mm (block_data (demo_blk, demo_ops,
        \<lparr>dp_cache_type = Writeback, dp_nsectors = 8, dp_image_id = []\<rparr>) demo_mm) s \<and>
     nt_pc s = WaitEvent \<and> nt_published s = 1 \<and> nt_popped s = 1 \<and> queue_len demo_mm (nt_h s) (nt_q s) = Some 0"
proof -
  let ?p = "(demo_blk, demo_ops, \<lparr>dp_cache_type = Writeback, dp_nsectors = 8, dp_image_id = []\<rparr>)"
  let ?s = "(demo_notify demo_heap 1)\<lparr>nt_checked := 1, nt_pc := Disabling\<rparr>"
  have ap: "\<forall>c \<in> set [demo_chain]. write_area demo_mm demo_heap c \<inter> ring_area demo_queue = {}"
    using demo_buffers_apart(2) by (simp add: write_area_def demo_chain_parts)
  obtain s' where s': "(notify_step demo_mm (block_data ?p demo_mm))\<^sup>*\<^sup>* ?s s'" "nt_pc s' = WaitEvent"
    "driver_side s' = driver_side ?s"
    using worker_steps_refine_loop [OF demo_block_legal
        [of "\<lparr>dp_cache_type = Writeback, dp_nsectors = 8, dp_image_id = []\<rparr>"] demo_driver_ok ap,
        of 2 ?s "replicate 4096 0" demo_env demo_link] by (auto simp: demo_notify_def)
  have r: "notify_reach demo_mm (block_data ?p demo_mm) s'" by (rule notify_reach_steps [OF s'(1) demo_notified])
  have "\<not> nt_event s'" "nt_checked s' = nt_published s'" "\<not> nt_kick s'" "nt_published s' = 1"
    using s'(3) by (simp_all add: demo_notify_def)
  then show ?thesis using no_lost_wakeups [OF demo_block_legal r s'(2)] r s'(2) by auto
qed

end
