(* ===== verification/Worker_Threads.thy ===== *)
theory Worker_Threads
  imports Rng_Worker Block_Worker Console_Worker Net_Worker
begin

text \<open>
  The threads of the device workers: the \<^verbatim>\<open>work\<close> loops of \<^verbatim>\<open>rng/worker.rs\<close>, \<^verbatim>\<open>block/worker.rs\<close>,
  \<^verbatim>\<open>console/worker.rs\<close> and \<^verbatim>\<open>net/worker.rs\<close>, which wait for events and serve the queue an event
  stands for, and the events of \<^verbatim>\<open>src/devices/event.rs\<close>.

  An event is a flag: it is signalled or not.  \<^verbatim>\<open>WaitForMultipleObjects\<close> is the parameter \<open>wait\<close>
  on the flags of the handles in their order: \<open>None\<close> while it blocks, else the flags it leaves and
  its result.  The other threads of the program and the guest act between two rounds of a loop;
  what they do is a list of functions on the thread's state.  The hypothesis \<open>wakes_on_first\<close>
  says what the documentation of Windows says of auto-reset events.
\<close>

section \<open>Events\<close>

definition WAIT_OBJECT_0 :: u32 where "WAIT_OBJECT_0 = 0"
definition WAIT_FAILED :: u32 where "WAIT_FAILED = 0xFFFFFFFF"

text \<open>
  \<^verbatim>\<open>WindowsEvent\<close> over the calls of the system: the results of \<^verbatim>\<open>CreateEventW\<close> (with the arguments
  for auto-reset and not signalled), \<^verbatim>\<open>SetEvent\<close>, \<^verbatim>\<open>WaitForSingleObject\<close> and \<^verbatim>\<open>CloseHandle\<close> on
  the state \<open>'o\<close> of the system; the error of a failed call is its code.
\<close>

type_synonym handle = u64

record 'o event_ops =
  create_event :: "bool \<Rightarrow> bool \<Rightarrow> 'o \<Rightarrow> 'o \<times> (int, handle) result"
  set_event :: "handle \<Rightarrow> 'o \<Rightarrow> 'o \<times> (int, unit) result"
  wait_for_single_object :: "handle \<Rightarrow> u32 \<Rightarrow> 'o \<Rightarrow> 'o \<times> u32"
  close_handle :: "handle \<Rightarrow> 'o \<Rightarrow> 'o"
  last_os_error :: "'o \<Rightarrow> int"

record windows_event =
  we_handle :: handle

definition is_invalid :: "handle \<Rightarrow> bool" where
  "is_invalid hnd \<longleftrightarrow> hnd = 0 \<or> hnd = - 1"

definition event_new :: "'o event_ops \<Rightarrow> 'o \<Rightarrow> 'o \<times> (int, windows_event) result" where
  "event_new ops os =
     (case create_event ops False False os of
        (os', Err code) \<Rightarrow> (os', Err code)
      | (os', Ok hnd) \<Rightarrow>
          if is_invalid hnd then (os', Err (last_os_error ops os')) else (os', Ok \<lparr>we_handle = hnd\<rparr>))"

definition event_signal :: "'o event_ops \<Rightarrow> windows_event \<Rightarrow> 'o \<Rightarrow> 'o \<times> (int, unit) result" where
  "event_signal ops ev os =
     (case set_event ops (we_handle ev) os of
        (os', Err _) \<Rightarrow> (os', Err (last_os_error ops os'))
      | (os', Ok _) \<Rightarrow> (os', Ok ()))"

definition event_wait :: "'o event_ops \<Rightarrow> windows_event \<Rightarrow> u32 \<Rightarrow> 'o \<Rightarrow> 'o \<times> bool" where
  "event_wait ops ev timeout_ms os =
     (case wait_for_single_object ops (we_handle ev) timeout_ms os of
        (os', res) \<Rightarrow> (os', res = WAIT_OBJECT_0))"

definition event_drop :: "'o event_ops \<Rightarrow> windows_event \<Rightarrow> 'o \<Rightarrow> 'o" where
  "event_drop ops ev os =
     (if \<not> is_invalid (we_handle ev) then close_handle ops (we_handle ev) os else os)"

section \<open>The loop\<close>

text \<open>What a round of a loop ends with: go on, \<^verbatim>\<open>return\<close>, or \<^verbatim>\<open>break\<close>.\<close>

datatype 'w turn = Continue 'w | Return 'w | Break 'w

datatype 'w thread = Waiting 'w | Ended 'w | Panicked | OutOfFuel

type_synonym wait_call = "bool list \<Rightarrow> (bool list \<times> u32) option"

fun work ::
  "wait_call \<Rightarrow> ('w \<Rightarrow> bool list) \<Rightarrow> (bool list \<Rightarrow> 'w \<Rightarrow> 'w) \<Rightarrow> (u32 \<Rightarrow> 'w \<Rightarrow> 'w turn panics option) \<Rightarrow>
   ('w \<Rightarrow> 'w) list \<Rightarrow> 'w \<Rightarrow> 'w thread" where
  "work wait signals put dispatch [] w = Waiting w"
| "work wait signals put dispatch (act # acts) w =
     (let w1 = act w
      in case wait (signals w1) of
           None \<Rightarrow> work wait signals put dispatch acts w1
         | Some (fs, r) \<Rightarrow>
             (case dispatch r (put fs w1) of
                None \<Rightarrow> OutOfFuel
              | Some None \<Rightarrow> Panicked
              | Some (Some (Continue w2)) \<Rightarrow> work wait signals put dispatch acts w2
              | Some (Some (Return w2)) \<Rightarrow> Ended w2
              | Some (Some (Break w2)) \<Rightarrow> Ended w2))"

subsection \<open>Workers with one queue\<close>

record 's queue_thread =
  qt_queue :: queue
  qt_heap :: heap
  qt_state :: "'s \<times> irq_link"
  qt_queue_event :: bool
  qt_stop_event :: bool

definition queue_signals :: "'s queue_thread \<Rightarrow> bool list" where
  "queue_signals w = [qt_queue_event w, qt_stop_event w]"

definition queue_put :: "bool list \<Rightarrow> 's queue_thread \<Rightarrow> 's queue_thread" where
  "queue_put fs w = w\<lparr>qt_queue_event := fs ! 0, qt_stop_event := fs ! 1\<rparr>"

definition queue_round ::
  "(queue \<Rightarrow> heap \<Rightarrow> 's \<times> irq_link \<Rightarrow> (queue \<times> heap \<times> 's \<times> irq_link) panics option) \<Rightarrow>
   's queue_thread \<Rightarrow> 's queue_thread turn panics option" where
  "queue_round process w =
     (case process (qt_queue w) (qt_heap w) (qt_state w) of
        None \<Rightarrow> None
      | Some None \<Rightarrow> Some None
      | Some (Some (q, h, s)) \<Rightarrow> Some (Some (Continue (w\<lparr>qt_queue := q, qt_heap := h, qt_state := s\<rparr>))))"

definition queue_dispatch where
  "queue_dispatch process r w =
     (if r = WAIT_OBJECT_0 then queue_round process w
      else if r = WAIT_OBJECT_0 + 1 then Some (Some (Return w))
      else if r = WAIT_FAILED then Some (Some (Break w))
      else Some (Some (Continue w)))"

definition rng_worker_new :: "queue \<Rightarrow> heap \<Rightarrow> irq_link \<Rightarrow> 'r \<Rightarrow> bool \<Rightarrow> bool \<Rightarrow> 'r queue_thread" where
  "rng_worker_new device_queue mem interrupt rand queue_event stop_event =
     \<lparr>qt_queue = device_queue, qt_heap = mem, qt_state = (rand, interrupt),
      qt_queue_event = queue_event, qt_stop_event = stop_event\<rparr>"

definition rng_work where
  "rng_work wait env fuel gen mm =
     work wait queue_signals queue_put (queue_dispatch (rng_process_virtio_queues env fuel gen mm))"

text \<open>\<^verbatim>\<open>stop_worker\<close>; the \<^verbatim>\<open>reset\<close> of every device signals the same event before it joins the thread.\<close>

definition stop_worker :: "'s queue_thread \<Rightarrow> 's queue_thread" where
  "stop_worker w = w\<lparr>qt_stop_event := True\<rparr>"

definition block_worker_new :: "queue \<Rightarrow> heap \<Rightarrow> irq_link \<Rightarrow> 'f \<Rightarrow> bool \<Rightarrow> bool \<Rightarrow> 'f queue_thread" where
  "block_worker_new device_queue mem interrupt disk queue_event stop_fd =
     \<lparr>qt_queue = device_queue, qt_heap = mem, qt_state = (disk, interrupt),
      qt_queue_event = queue_event, qt_stop_event = stop_fd\<rparr>"

definition process_queue_event where
  "process_queue_event env fuel p mm = block_process_virtio_queues env fuel p mm"

text \<open>\<^verbatim>\<open>Drop for DiskProperties\<close>; a failure of the image library is only logged.\<close>

definition disk_properties_drop :: "'f disk_ops \<Rightarrow> disk_properties \<Rightarrow> 'f \<Rightarrow> 'f" where
  "disk_properties_drop ops disk f =
     (case dp_cache_type disk of
        Writeback \<Rightarrow> fst (op_sync ops (fst (op_flush ops f)))
      | Unsafe \<Rightarrow> f)"

text \<open>\<^verbatim>\<open>work\<close> owns the worker, so the disk properties are dropped when it ends.\<close>

definition block_work where
  "block_work wait env fuel p mm acts w =
     (case work wait queue_signals queue_put (queue_dispatch (process_queue_event env fuel p mm)) acts w of
        Ended w' \<Rightarrow>
          (case p of (_, ops, disk) \<Rightarrow>
             Ended (w'\<lparr>qt_state := (disk_properties_drop ops disk (fst (qt_state w')), snd (qt_state w'))\<rparr>))
      | t \<Rightarrow> t)"

subsection \<open>The console\<close>

record console_thread =
  ct_rx_queue :: queue
  ct_tx_queue :: queue
  ct_heap :: heap
  ct_io :: console_io
  ct_interrupt :: irq_link
  ct_tx_event :: bool
  ct_stop_event :: bool

definition console_worker_new where
  "console_worker_new rx_queue tx_queue interrupt mem tx_event stop_event io =
     \<lparr>ct_rx_queue = rx_queue, ct_tx_queue = tx_queue, ct_heap = mem, ct_io = io,
      ct_interrupt = interrupt, ct_tx_event = tx_event, ct_stop_event = stop_event\<rparr>"

definition console_signals :: "console_thread \<Rightarrow> bool list" where
  "console_signals w = [ct_tx_event w, ci_event (ct_io w), ct_stop_event w]"

definition console_put :: "bool list \<Rightarrow> console_thread \<Rightarrow> console_thread" where
  "console_put fs w =
     w\<lparr>ct_tx_event := fs ! 0, ct_io := (ct_io w)\<lparr>ci_event := fs ! 1\<rparr>, ct_stop_event := fs ! 2\<rparr>"

definition console_tx_round :: "mmio_env \<Rightarrow> nat \<Rightarrow> memory_manager \<Rightarrow> console_thread \<Rightarrow> console_thread turn panics option" where
  "console_tx_round env fuel mm w =
     (case console_process_tx_virtio_queue env fuel mm (ct_tx_queue w) (ct_heap w) (ct_io w, ct_interrupt w) of
        None \<Rightarrow> None
      | Some None \<Rightarrow> Some None
      | Some (Some (q, h, io, il)) \<Rightarrow>
          Some (Some (Continue (w\<lparr>ct_tx_queue := q, ct_heap := h, ct_io := io, ct_interrupt := il\<rparr>))))"

definition console_rx_round :: "mmio_env \<Rightarrow> nat \<Rightarrow> memory_manager \<Rightarrow> console_thread \<Rightarrow> console_thread turn panics option" where
  "console_rx_round env fuel mm w =
     (case console_process_rx_input env fuel mm (ct_rx_queue w) (ct_heap w) (ct_io w, ct_interrupt w) of
        None \<Rightarrow> None
      | Some None \<Rightarrow> Some None
      | Some (Some (q, h, io, il)) \<Rightarrow>
          Some (Some (Continue (w\<lparr>ct_rx_queue := q, ct_heap := h, ct_io := io, ct_interrupt := il\<rparr>))))"

definition console_dispatch where
  "console_dispatch env fuel mm r w =
     (if r = WAIT_OBJECT_0 then console_tx_round env fuel mm w
      else if r = WAIT_OBJECT_0 + 1 then console_rx_round env fuel mm w
      else if r = WAIT_OBJECT_0 + 2 then Some (Some (Return w))
      else if r = WAIT_FAILED then Some (Some (Break w))
      else Some (Some (Continue w)))"

definition console_work where
  "console_work wait env fuel mm = work wait console_signals console_put (console_dispatch env fuel mm)"

subsection \<open>The network device\<close>

text \<open>
  \<open>nt_arriving\<close> are the frames the reader thread will append while the worker delivers the pending
  ones; \<open>nt_child\<close> is whether the proxy process is running.
\<close>

record net_thread =
  nt_rx_queue :: queue
  nt_tx_queue :: queue
  nt_heap :: heap
  nt_worker :: net_worker
  nt_interrupt :: irq_link
  nt_tx_event :: bool
  nt_stop_event :: bool
  nt_arriving :: "u8 list list"
  nt_child :: bool

definition net_thread_new where
  "net_thread_new rx_queue tx_queue interrupt mem tx_event stop_event =
     \<lparr>nt_rx_queue = rx_queue, nt_tx_queue = tx_queue, nt_heap = mem, nt_worker = net_worker_new,
      nt_interrupt = interrupt, nt_tx_event = tx_event, nt_stop_event = stop_event,
      nt_arriving = [], nt_child = True\<rparr>"

text \<open>
  \<^verbatim>\<open>run\<close>: the ends of the child's pipes are taken, the output for the reader thread and the input
  for the worker; it panics when one of them is gone.
\<close>

definition net_run :: "u8 list option \<Rightarrow> child_stdin option \<Rightarrow> net_thread \<Rightarrow> (net_thread \<times> u8 list) panics" where
  "net_run child_stdout child_stdin w =
     (case child_stdout of
        None \<Rightarrow> None
      | Some stdout \<Rightarrow>
          (case child_stdin of
             None \<Rightarrow> None
           | Some stdin \<Rightarrow> Some (w\<lparr>nt_worker := (nt_worker w)\<lparr>nw_stdin := Some stdin\<rparr>\<rparr>, stdout)))"

definition net_signals :: "net_thread \<Rightarrow> bool list" where
  "net_signals w = [nt_tx_event w, nw_rx_ready (nt_worker w), nt_stop_event w]"

definition net_put :: "bool list \<Rightarrow> net_thread \<Rightarrow> net_thread" where
  "net_put fs w =
     w\<lparr>nt_tx_event := fs ! 0, nt_worker := (nt_worker w)\<lparr>nw_rx_ready := fs ! 1\<rparr>, nt_stop_event := fs ! 2\<rparr>"

definition net_tx_round :: "mmio_env \<Rightarrow> nat \<Rightarrow> memory_manager \<Rightarrow> net_thread \<Rightarrow> net_thread turn panics option" where
  "net_tx_round env fuel mm w =
     (case process_tx_virtio_queue env fuel mm (nt_tx_queue w) (nt_heap w) (nt_worker w, nt_interrupt w) of
        None \<Rightarrow> None
      | Some None \<Rightarrow> Some None
      | Some (Some (q, h, nw, il)) \<Rightarrow>
          Some (Some (Continue (w\<lparr>nt_tx_queue := q, nt_heap := h, nt_worker := nw, nt_interrupt := il\<rparr>))))"

definition net_rx_round :: "mmio_env \<Rightarrow> memory_manager \<Rightarrow> net_thread \<Rightarrow> net_thread turn panics option" where
  "net_rx_round env mm w =
     (case process_rx_virtio_queue env mm (nt_arriving w) (nt_rx_queue w) (nt_heap w)
             (nt_worker w, nt_interrupt w) of
        None \<Rightarrow> Some None
      | Some (q, h, nw, il) \<Rightarrow>
          Some (Some (Continue
            (w\<lparr>nt_rx_queue := q, nt_heap := h, nt_worker := nw, nt_interrupt := il, nt_arriving := []\<rparr>))))"

definition net_dispatch where
  "net_dispatch env fuel mm r w =
     (if r = WAIT_OBJECT_0 then net_tx_round env fuel mm w
      else if r = WAIT_OBJECT_0 + 1 then net_rx_round env mm w
      else if r = WAIT_OBJECT_0 + 2 then Some (Some (Break w))
      else if r = WAIT_FAILED then Some (Some (Break w))
      else Some (Some (Continue w)))"

text \<open>After the loop the child is killed; the reader thread then sees the end of its output and is joined.\<close>

definition net_work where
  "net_work wait env fuel mm acts w =
     (case work wait net_signals net_put (net_dispatch env fuel mm) acts w of
        Ended w' \<Rightarrow> Ended (w'\<lparr>nt_child := False\<rparr>)
      | t \<Rightarrow> t)"

section \<open>What the threads share\<close>

text \<open>
  The documentation of \<^verbatim>\<open>WaitForMultipleObjects\<close> for auto-reset events and \<^verbatim>\<open>bWaitAll\<close> false: the
  call blocks while none of the handles (at most 64) is signalled; else it returns the lowest
  index of a signalled one and resets that event only.
\<close>

definition wakes_on_first :: "wait_call \<Rightarrow> bool" where
  "wakes_on_first wait \<longleftrightarrow>
     (\<forall>fs. length fs \<le> 64 \<longrightarrow>
        (True \<notin> set fs \<longrightarrow> wait fs = None) \<and>
        (\<forall>i < length fs. fs ! i \<and> (\<forall>j < i. \<not> fs ! j) \<longrightarrow> wait fs = Some (fs[i := False], of_nat i)))"

text \<open>
  The events still signalled are served one after the other in the order of their handles, an
  event that is signalled meanwhile included.
\<close>

fun settle ::
  "('w \<Rightarrow> bool list) \<Rightarrow> (bool list \<Rightarrow> 'w \<Rightarrow> 'w) \<Rightarrow> (u32 \<Rightarrow> 'w \<Rightarrow> 'w turn panics option) \<Rightarrow>
   nat list \<Rightarrow> 'w \<Rightarrow> 'w option" where
  "settle signals put dispatch [] w = Some w"
| "settle signals put dispatch (i # is) w =
     (if signals w ! i then
        (case dispatch (of_nat i) (put ((signals w)[i := False]) w) of
           Some (Some (Continue w')) \<Rightarrow> settle signals put dispatch is w'
         | _ \<Rightarrow> None)
      else settle signals put dispatch is w)"

text \<open>
  The interface of a worker to its loop: \<open>signals\<close> are the events it waits for, the last of them
  the stop event with index \<open>stop\<close>; serving an event leaves the stop event and the events with
  lower handles alone.
\<close>

locale worker_thread =
  fixes signals :: "'w \<Rightarrow> bool list"
    and put :: "bool list \<Rightarrow> 'w \<Rightarrow> 'w"
    and dispatch :: "u32 \<Rightarrow> 'w \<Rightarrow> 'w turn panics option"
    and stop :: nat
  assumes stop_small: "stop < 64"
    and length_signals: "length (signals w) = Suc stop"
    and signals_put: "length fs = Suc stop \<Longrightarrow> signals (put fs w) = fs"
    and on_stop: "dispatch (of_nat stop) w = Some (Some (Return w)) \<or>
      dispatch (of_nat stop) w = Some (Some (Break w))"
    and on_failure: "dispatch WAIT_FAILED w = Some (Some (Break w))"
    and on_unexpected: "of_nat stop < r \<Longrightarrow> r \<noteq> WAIT_FAILED \<Longrightarrow> dispatch r w = Some (Some (Continue w))"
    and on_event: "i < stop \<Longrightarrow> dispatch (of_nat i) w = Some (Some t) \<Longrightarrow>
      \<exists>w'. t = Continue w' \<and> (\<forall>j. j = stop \<or> j \<le> i \<longrightarrow> signals w' ! j = signals w ! j)"
begin

lemma wait_first:
  assumes "wakes_on_first wait" "i \<le> stop" "signals w ! i" "\<forall>j < i. \<not> signals w ! j"
  shows "wait (signals w) = Some ((signals w)[i := False], of_nat i)"
  using assms length_signals [of w] stop_small unfolding wakes_on_first_def by simp

lemma wait_none:
  assumes "wakes_on_first wait" "\<forall>i \<le> stop. \<not> signals w ! i"
  shows "wait (signals w) = None"
proof -
  have "True \<notin> set (signals w)" using assms(2) length_signals [of w]
    by (metis in_set_conv_nth less_Suc_eq_le)
  then show ?thesis using assms(1) length_signals [of w] stop_small unfolding wakes_on_first_def by simp
qed

text \<open>While nothing is signalled the thread waits.\<close>

lemma idle:
  assumes "wakes_on_first wait" "\<forall>i \<le> stop. \<not> signals w ! i"
  shows "work wait signals put dispatch (replicate n id) w = Waiting w"
  using wait_none [OF assms] by (induction n) simp_all

text \<open>One round with only the event \<open>i\<close> signalled.\<close>

lemma serve_one:
  assumes "wakes_on_first wait" "i \<le> stop" "signals (act w) ! i" "\<forall>j < i. \<not> signals (act w) ! j"
    and "dispatch (of_nat i) (put ((signals (act w))[i := False]) (act w)) = Some (Some (Continue w'))"
  shows "work wait signals put dispatch (act # acts) w = work wait signals put dispatch acts w'"
  using wait_first [OF assms(1-4)] assms(5) by simp

text \<open>
  Once the stop event is signalled and the other threads are quiet, the thread serves what is
  still signalled and ends, and the stop event is reset.
\<close>

lemma stops_from:
  assumes "wakes_on_first wait" "signals w ! stop" "\<forall>k < j. \<not> signals w ! k" "j \<le> stop"
    and "settle signals put dispatch [j..<stop] w = Some w'" "stop - j < n"
  shows "work wait signals put dispatch (replicate n id) w = Ended (put ((signals w')[stop := False]) w') \<and>
    signals w' ! stop"
  using assms(2-6)
proof (induction "stop - j" arbitrary: j w n)
  case 0
  then obtain m where n: "n = Suc m" and j: "j = stop" by (cases n) auto
  have "wait (signals w) = Some ((signals w)[stop := False], of_nat stop)"
    using wait_first [OF assms(1), of stop] 0(2,3) j by simp
  then show ?case using 0(2,5) n j on_stop [of "put ((signals w)[stop := False]) w"] by auto
next
  case (Suc d)
  then have j: "j < stop" by simp
  then have up: "[j..<stop] = j # [Suc j..<stop]" by (simp add: upt_conv_Cons)
  obtain m where n: "n = Suc m" using Suc(7) by (cases n) auto
  show ?case
  proof (cases "signals w ! j")
    case True
    let ?w = "put ((signals w)[j := False]) w"
    have s: "signals ?w = (signals w)[j := False]" using signals_put length_signals by simp
    obtain w1 where d: "dispatch (of_nat j) ?w = Some (Some (Continue w1))"
      and rest: "settle signals put dispatch [Suc j..<stop] w1 = Some w'"
      using Suc(6) True unfolding up by (auto split: option.splits turn.splits)
    have keep: "\<forall>k. k = stop \<or> k \<le> j \<longrightarrow> signals w1 ! k = signals ?w ! k"
      using on_event [OF j d] by auto
    have "signals w1 ! stop" "\<forall>k < Suc j. \<not> signals w1 ! k"
      using keep s Suc(3,4) j length_signals [of w] by (auto simp: nth_list_update less_Suc_eq)
    then have "work wait signals put dispatch (replicate m id) w1 =
        Ended (put ((signals w')[stop := False]) w') \<and> signals w' ! stop"
      using Suc(1) [of "Suc j" w1 m] Suc(2,7) rest j n by simp
    then show ?thesis
      using serve_one [OF assms(1), of j id w w1 "replicate m id"] True Suc(4) j d n by simp
  next
    case False
    then have "\<forall>k < Suc j. \<not> signals w ! k" using Suc(4) by (auto simp: less_Suc_eq)
    then show ?thesis using Suc(1) [of "Suc j" w n] Suc(2,3,6,7) False j unfolding up by simp
  qed
qed

lemma stops:
  assumes "wakes_on_first wait" "signals w ! stop"
    and "settle signals put dispatch [0..<stop] w = Some w'" "stop < n"
  shows "work wait signals put dispatch (replicate n id) w = Ended (put ((signals w')[stop := False]) w')"
  using stops_from [OF assms(1,2), of 0 w' n] assms(3,4) by simp

text \<open>A wait that fails ends the thread, and an unexpected result changes nothing.\<close>

lemma failed_wait:
  assumes "wait (signals (act w)) = Some (signals (act w), WAIT_FAILED)"
  shows "work wait signals put dispatch (act # acts) w = Ended (put (signals (act w)) (act w))"
  using assms by (simp add: on_failure Let_def)

lemma unexpected_wait:
  assumes "wait (signals (act w)) = Some (signals (act w), r)" "of_nat stop < r" "r \<noteq> WAIT_FAILED"
  shows "work wait signals put dispatch (act # acts) w =
    work wait signals put dispatch acts (put (signals (act w)) (act w))"
  using assms by (simp add: on_unexpected Let_def)

end

lemma less_u32: "(1 :: u32) < r \<Longrightarrow> r \<noteq> 0 \<and> r \<noteq> 1" "(2 :: u32) < r \<Longrightarrow> r \<noteq> 0 \<and> r \<noteq> 1 \<and> r \<noteq> 2"
  by (auto simp: word_less_nat_alt)

lemmas wait_results = WAIT_OBJECT_0_def WAIT_FAILED_def

interpretation qthread: worker_thread queue_signals queue_put "queue_dispatch process" 1
proof
  fix w :: "'a queue_thread" and fs i t and r :: u32
  show "length (queue_signals w) = Suc 1" by (simp add: queue_signals_def)
  show "length fs = Suc 1 \<Longrightarrow> queue_signals (queue_put fs w) = fs"
    by (auto simp: queue_signals_def queue_put_def length_Suc_conv)
  assume "i < (1 :: nat)" "queue_dispatch process (of_nat i) w = Some (Some t)"
  then show "\<exists>w'. t = Continue w' \<and>
      (\<forall>j. j = 1 \<or> j \<le> i \<longrightarrow> queue_signals w' ! j = queue_signals w ! j)"
    by (auto simp: queue_dispatch_def queue_round_def queue_signals_def wait_results split: option.splits)
qed (auto simp: queue_dispatch_def wait_results dest: less_u32)

lemma console_rx_keeps:
  "console_process_rx_input env fuel mm q h (io, il) = Some (Some (q', h', io', il')) \<Longrightarrow>
   io' = io\<lparr>ci_input := []\<rparr>"
  by (auto simp: console_process_rx_input_def Let_def split: option.splits if_splits)

lemma net_rx_keeps:
  "process_rx_virtio_queue env mm arrived q h (nw, il) = Some (q', h', nw', il') \<Longrightarrow>
   nw_rx_ready nw' = nw_rx_ready nw"
  by (auto simp: process_rx_virtio_queue_def Let_def split: option.splits if_splits)

interpretation cthread: worker_thread console_signals console_put "console_dispatch env fuel mm" 2
proof
  fix w :: console_thread and fs i t and r :: u32
  show "length (console_signals w) = Suc 2" by (simp add: console_signals_def)
  show "length fs = Suc 2 \<Longrightarrow> console_signals (console_put fs w) = fs"
    by (auto simp: console_signals_def console_put_def length_Suc_conv numeral_2_eq_2)
  assume i: "i < (2 :: nat)" and d: "console_dispatch env fuel mm (of_nat i) w = Some (Some t)"
  from i consider "i = 0" | "i = 1" by linarith
  then show "\<exists>w'. t = Continue w' \<and>
      (\<forall>j. j = 2 \<or> j \<le> i \<longrightarrow> console_signals w' ! j = console_signals w ! j)"
  proof cases
    case 1
    then show ?thesis using d
      by (auto simp: console_dispatch_def console_tx_round_def console_signals_def wait_results
          split: option.splits)
  next
    case 2
    then show ?thesis using d console_rx_keeps [of env fuel mm "ct_rx_queue w" "ct_heap w" "ct_io w"]
      by (fastforce simp: console_dispatch_def console_rx_round_def console_signals_def wait_results
          nth_Cons' split: option.splits)
  qed
qed (auto simp: console_dispatch_def wait_results dest: less_u32)

interpretation nthread: worker_thread net_signals net_put "net_dispatch env fuel mm" 2
proof
  fix w :: net_thread and fs i t and r :: u32
  show "length (net_signals w) = Suc 2" by (simp add: net_signals_def)
  show "length fs = Suc 2 \<Longrightarrow> net_signals (net_put fs w) = fs"
    by (auto simp: net_signals_def net_put_def length_Suc_conv numeral_2_eq_2)
  assume i: "i < (2 :: nat)" and d: "net_dispatch env fuel mm (of_nat i) w = Some (Some t)"
  from i consider "i = 0" | "i = 1" by linarith
  then show "\<exists>w'. t = Continue w' \<and>
      (\<forall>j. j = 2 \<or> j \<le> i \<longrightarrow> net_signals w' ! j = net_signals w ! j)"
  proof cases
    case 1
    then show ?thesis using d
      by (auto simp: net_dispatch_def net_tx_round_def net_signals_def wait_results split: option.splits)
  next
    case 2
    then show ?thesis
      using d net_rx_keeps [of env mm "nt_arriving w" "nt_rx_queue w" "nt_heap w" "nt_worker w" "nt_interrupt w"]
      by (fastforce simp: net_dispatch_def net_rx_round_def net_signals_def wait_results
          nth_Cons' split: option.splits)
  qed
qed (auto simp: net_dispatch_def wait_results dest: less_u32)

section \<open>Threads that keep up with the driver\<close>

lemma work_append:
  "work wait signals put dispatch (acts @ acts') w =
     (case work wait signals put dispatch acts w of
        Waiting w' \<Rightarrow> work wait signals put dispatch acts' w' | t \<Rightarrow> t)"
  by (induction acts arbitrary: w) (auto simp: Let_def split: option.splits turn.splits)

text \<open>Acts that signal nothing leave the thread waiting.\<close>

lemma work_unnoticed:
  assumes "\<And>fs. length fs \<le> 64 \<Longrightarrow> True \<notin> set fs \<Longrightarrow> wait fs = None"
    and "\<And>w. length (signals w) \<le> 64" "True \<notin> set (signals w)"
    and "\<forall>act \<in> set acts. \<forall>w. signals (act w) = signals w"
  shows "work wait signals put dispatch acts w = Waiting (fold (\<lambda>act. act) acts w)"
  using assms(3,4) by (induction acts arbitrary: w) (simp_all add: assms(1,2))

text \<open>
  A thread with nothing to do: the queue is empty, every chain taken from it was returned, no
  event is signalled.  And a thread woken for a batch of chains.
\<close>

definition drained :: "memory_manager \<Rightarrow> 's queue_thread \<Rightarrow> bool" where
  "drained mm w \<longleftrightarrow> queue_len mm (qt_heap w) (qt_queue w) = Some 0 \<and>
     q_next_used (qt_queue w) = q_next_avail (qt_queue w) \<and> \<not> qt_queue_event w \<and> \<not> qt_stop_event w"

definition batch_ready :: "nat \<Rightarrow> memory_manager \<Rightarrow> nat \<Rightarrow> 's queue_thread \<Rightarrow> bool" where
  "batch_ready k mm fuel w \<longleftrightarrow>
     (\<exists>cs. driver_ok mm (qt_heap w) (qt_queue w) cs \<and> length cs < fuel \<and>
        (\<forall>c \<in> set cs. accepted k mm (qt_heap w) c)) \<and>
     q_next_used (qt_queue w) = q_next_avail (qt_queue w) \<and> qt_queue_event w \<and> \<not> qt_stop_event w"

text \<open>Each act of the other threads gives the thread, run that far by \<open>run\<close>, one batch.\<close>

fun batches ::
  "nat \<Rightarrow> memory_manager \<Rightarrow> nat \<Rightarrow> (('s queue_thread \<Rightarrow> 's queue_thread) list \<Rightarrow> 's queue_thread \<Rightarrow> 's queue_thread thread) \<Rightarrow>
   ('s queue_thread \<Rightarrow> 's queue_thread) list \<Rightarrow> 's queue_thread \<Rightarrow> bool" where
  "batches k mm fuel run [] w \<longleftrightarrow> True"
| "batches k mm fuel run (act # acts) w \<longleftrightarrow>
     batch_ready k mm fuel (act w) \<and> (\<forall>w'. run [act] w = Waiting w' \<longrightarrow> batches k mm fuel run acts w')"

definition serves_batches where
  "serves_batches k mm fuel process \<longleftrightarrow>
     (\<forall>q h s cs. driver_ok mm h q cs \<and> length cs < fuel \<and> (\<forall>c \<in> set cs. accepted k mm h c) \<longrightarrow>
        (\<exists>q' h' s'. process q h s = Some (Some (q', h', s')) \<and> queue_len mm h' q' = Some 0 \<and>
           q_next_avail q' = q_next_avail q + of_nat (length cs) \<and>
           q_next_used q' = q_next_used q + of_nat (length cs)))"

lemma serve_batch:
  assumes "serves_batches k mm fuel process" "batch_ready k mm fuel w"
  shows "\<exists>w'. (\<forall>b. queue_dispatch process 0 (w\<lparr>qt_queue_event := False, qt_stop_event := b\<rparr>) =
      Some (Some (Continue (w'\<lparr>qt_stop_event := b\<rparr>)))) \<and> drained mm w'"
proof -
  obtain cs where cs: "driver_ok mm (qt_heap w) (qt_queue w) cs" "length cs < fuel"
    "\<forall>c \<in> set cs. accepted k mm (qt_heap w) c" "q_next_used (qt_queue w) = q_next_avail (qt_queue w)"
    using assms(2) by (auto simp: batch_ready_def)
  obtain q h s where "process (qt_queue w) (qt_heap w) (qt_state w) = Some (Some (q, h, s))"
    "queue_len mm h q = Some 0" "q_next_used q = q_next_avail q"
    using assms(1) cs unfolding serves_batches_def by metis
  then show ?thesis
    by (intro exI [of _ "w\<lparr>qt_queue := q, qt_heap := h, qt_state := s, qt_queue_event := False,
        qt_stop_event := False\<rparr>"])
      (simp add: queue_dispatch_def queue_round_def wait_results drained_def)
qed

lemma queue_thread_serves:
  assumes "wakes_on_first wait" "serves_batches k mm fuel process"
    and "batches k mm fuel (work wait queue_signals queue_put (queue_dispatch process)) acts w"
    and "drained mm w"
  shows "\<exists>w'. work wait queue_signals queue_put (queue_dispatch process) acts w = Waiting w' \<and> drained mm w'"
  using assms(3,4)
proof (induction acts arbitrary: w)
  case Nil
  then show ?case by simp
next
  case (Cons act acts)
  have b: "batch_ready k mm fuel (act w)" using Cons(2) by simp
  obtain w1 where w1: "\<And>b. queue_dispatch process 0 ((act w)\<lparr>qt_queue_event := False, qt_stop_event := b\<rparr>) =
      Some (Some (Continue (w1\<lparr>qt_stop_event := b\<rparr>)))" "drained mm w1"
    using serve_batch [OF assms(2) b] by blast
  have d: "queue_dispatch process (of_nat 0) (queue_put ((queue_signals (act w))[0 := False]) (act w)) =
      Some (Some (Continue w1))"
    using w1(1) [of False] w1(2) b
    by (simp add: queue_put_def queue_signals_def batch_ready_def drained_def)
  have s: "queue_signals (act w) ! 0" using b by (simp add: queue_signals_def batch_ready_def)
  have r: "work wait queue_signals queue_put (queue_dispatch process) (act # as) w =
      work wait queue_signals queue_put (queue_dispatch process) as w1" for as
    using qthread.serve_one [OF assms(1), of 0 act w process w1 as] s d by simp
  show ?case using Cons(1) [of w1] Cons(2) w1(2) r [of "[]"] r [of acts] by simp
qed

lemma queue_thread_stops:
  assumes "wakes_on_first wait" "serves_batches k mm fuel process" "batch_ready k mm fuel (act w)" "1 \<le> n"
  shows "\<exists>w'. work wait queue_signals queue_put (queue_dispatch process) ((stop_worker \<circ> act) # replicate n id) w =
    Ended w' \<and> drained mm w'"
proof -
  obtain w1 where w1: "\<And>b. queue_dispatch process 0 ((act w)\<lparr>qt_queue_event := False, qt_stop_event := b\<rparr>) =
      Some (Some (Continue (w1\<lparr>qt_stop_event := b\<rparr>)))" "drained mm w1"
    using serve_batch [OF assms(2,3)] by blast
  let ?w = "(stop_worker \<circ> act) w"
  have sig: "queue_signals ?w = [True, True]"
    using assms(3) by (simp add: stop_worker_def queue_signals_def batch_ready_def)
  have "?w\<lparr>qt_queue_event := False, qt_stop_event := True\<rparr> = (act w)\<lparr>qt_queue_event := False, qt_stop_event := True\<rparr>"
    by (simp add: stop_worker_def)
  then have "settle queue_signals queue_put (queue_dispatch process) [0..<1] ?w = Some (w1\<lparr>qt_stop_event := True\<rparr>)"
    using sig w1(1) [of True] by (simp add: queue_put_def)
  from qthread.stops [OF assms(1) _ this, of "Suc n"] assms(4) sig
  have "work wait queue_signals queue_put (queue_dispatch process) (replicate (Suc n) id) ?w =
      Ended (queue_put ((queue_signals (w1\<lparr>qt_stop_event := True\<rparr>))[1 := False]) (w1\<lparr>qt_stop_event := True\<rparr>))"
    by simp
  moreover have "queue_put ((queue_signals (w1\<lparr>qt_stop_event := True\<rparr>))[1 := False]) (w1\<lparr>qt_stop_event := True\<rparr>) = w1"
    using w1(2) by (simp add: queue_put_def queue_signals_def drained_def)
  ultimately show ?thesis using w1(2) by simp
qed

lemma batches_prefix:
  assumes "wakes_on_first wait" "serves_batches k mm fuel process" "drained mm w"
    and "batches k mm fuel (work wait queue_signals queue_put (queue_dispatch process)) (acts @ acts') w"
  shows "\<exists>w'. work wait queue_signals queue_put (queue_dispatch process) acts w = Waiting w' \<and> drained mm w' \<and>
    batches k mm fuel (work wait queue_signals queue_put (queue_dispatch process)) acts' w'"
  using assms(3,4)
proof (induction acts arbitrary: w)
  case Nil
  then show ?case by simp
next
  case (Cons act acts)
  let ?run = "work wait queue_signals queue_put (queue_dispatch process)"
  have "batches k mm fuel ?run [act] w" using Cons(3) by simp
  then obtain w1 where w1: "?run [act] w = Waiting w1" "drained mm w1"
    using queue_thread_serves [OF assms(1,2), of "[act]" w] Cons(2) by blast
  have "?run (act # acts) w = ?run acts w1"
    using work_append [of wait queue_signals queue_put "queue_dispatch process" "[act]" acts w]
    unfolding w1(1) by simp
  then show ?case using Cons(1) [OF w1(2)] Cons(3) w1(1) by simp
qed

lemma queue_thread_serves_and_stops:
  assumes "wakes_on_first wait" "serves_batches k mm fuel process" "drained mm w" "1 \<le> n"
    and "batches k mm fuel (work wait queue_signals queue_put (queue_dispatch process)) (acts @ [act]) w"
  shows "(\<exists>w'. work wait queue_signals queue_put (queue_dispatch process) (acts @ [act]) w = Waiting w' \<and> drained mm w') \<and>
    (\<exists>w'. work wait queue_signals queue_put (queue_dispatch process) (acts @ (stop_worker \<circ> act) # replicate n id) w =
       Ended w' \<and> drained mm w')"
proof
  show "\<exists>w'. work wait queue_signals queue_put (queue_dispatch process) (acts @ [act]) w = Waiting w' \<and> drained mm w'"
    by (rule queue_thread_serves [OF assms(1,2,5,3)])
  obtain w1 where w1: "work wait queue_signals queue_put (queue_dispatch process) acts w = Waiting w1"
    "batch_ready k mm fuel (act w1)"
    using batches_prefix [OF assms(1-3,5)] by auto
  then show "\<exists>w'. work wait queue_signals queue_put (queue_dispatch process)
      (acts @ (stop_worker \<circ> act) # replicate n id) w = Ended w' \<and> drained mm w'"
    using queue_thread_stops [OF assms(1,2), of act w1 n] w1(2) assms(4) unfolding work_append w1(1) thread.case by simp
qed

lemma batches_cong:
  assumes "\<And>acts w w'. run acts w = Waiting w' \<longleftrightarrow> run' acts w = Waiting w'"
  shows "batches k mm fuel run acts w = batches k mm fuel run' acts w"
  by (induction acts arbitrary: w) (simp_all add: assms)

lemma block_work_waiting [simp]:
  "block_work wait env fuel p mm acts w = Waiting w' \<longleftrightarrow>
   work wait queue_signals queue_put (queue_dispatch (process_queue_event env fuel p mm)) acts w = Waiting w'"
  by (auto simp: block_work_def split: thread.splits prod.splits)

lemma rng_serves_batches: "fills_buffer gen \<Longrightarrow> serves_batches 0 mm fuel (rng_process_virtio_queues env fuel gen mm)"
proof -
  assume g: "fills_buffer gen"
  have "\<exists>q' h' s'. rng_process_virtio_queues env fuel gen mm q h s = Some (Some (q', h', s')) \<and>
      queue_len mm h' q' = Some 0 \<and> q_next_avail q' = q_next_avail q + of_nat (length cs) \<and>
      q_next_used q' = q_next_used q + of_nat (length cs)"
    if cs: "driver_ok mm h q cs" "length cs < fuel" "\<forall>c \<in> set cs. accepted 0 mm h c" for q h s cs
  proof -
    obtain n where n: "fuel = Suc n" using cs(2) by (cases fuel) auto
    show ?thesis
      using rng.event_returns_all [OF g cs, where finish = "finish_batch env mm" and n = n and s = s,
          OF finish_batch_done] n
      unfolding rng_process_virtio_queues_def rng_process_queue_def by simp
  qed
  then show ?thesis unfolding serves_batches_def by blast
qed

lemma block_serves_batches: "block_legal p \<Longrightarrow> serves_batches 16 mm fuel (process_queue_event env fuel p mm)"
proof -
  assume g: "block_legal p"
  have "\<exists>q' h' s'. process_queue_event env fuel p mm q h s = Some (Some (q', h', s')) \<and>
      queue_len mm h' q' = Some 0 \<and> q_next_avail q' = q_next_avail q + of_nat (length cs) \<and>
      q_next_used q' = q_next_used q + of_nat (length cs)"
    if cs: "driver_ok mm h q cs" "length cs < fuel" "\<forall>c \<in> set cs. accepted 16 mm h c" for q h s cs
  proof -
    obtain n where n: "fuel = Suc n" using cs(2) by (cases fuel) auto
    show ?thesis
      using blk.event_returns_all [OF g cs, where finish = "finish_batch env mm" and n = n and s = s,
          OF finish_batch_done] n
      unfolding process_queue_event_def block_process_virtio_queues_def block_process_queue_def by simp
  qed
  then show ?thesis unfolding serves_batches_def by blast
qed

section \<open>Properties\<close>

text \<open>
  The call the hypothesis of the properties is about, on the flags: it can hold.
\<close>

definition demo_wait :: wait_call where
  "demo_wait fs =
     (let i = length (takeWhile Not fs) in if i < length fs then Some (fs[i := False], of_nat i) else None)"

lemma demo_wait_wakes: "wakes_on_first demo_wait"
proof -
  have none: "length (takeWhile Not fs) = length fs" if "True \<notin> set fs" for fs
    using that by (induction fs) auto
  have first: "length (takeWhile Not fs) = i" if "i < length fs" "fs ! i" "\<forall>j < i. \<not> fs ! j" for fs i
    using that takeWhile_eq_take_P_nth [of i fs Not] by simp
  show ?thesis
    unfolding wakes_on_first_def demo_wait_def by (auto simp: none first)
qed


lemma demo_batch_ready:
  assumes "k \<le> 16"
  shows "batch_ready k demo_mm 2
    \<lparr>qt_queue = demo_queue, qt_heap = demo_heap, qt_state = s, qt_queue_event = True, qt_stop_event = False\<rparr>"
  unfolding batch_ready_def using demo_driver_ok demo_accepted [OF assms]
  by (auto simp: demo_queue_def intro!: exI [of _ "[demo_chain]"])

text \<open>The driver's last state when it has made nothing available.\<close>

lemma demo_drained:
  "drained demo_mm
    \<lparr>qt_queue = demo_queue\<lparr>q_next_avail := 1, q_next_used := 1\<rparr>, qt_heap = demo_heap, qt_state = s,
     qt_queue_event = False, qt_stop_event = False\<rparr>"
  by (simp add: drained_def queue_eval demo_ring)


text \<open>The same for the thread of the entropy device.\<close>

theorem rng_thread_serves_and_stops:
  assumes "wakes_on_first wait" "fills_buffer gen" "drained mm w" "1 \<le> n"
    and "batches 0 mm fuel (rng_work wait env fuel gen mm) (acts @ [act]) w"
  shows "(\<exists>w'. rng_work wait env fuel gen mm (acts @ [act]) w = Waiting w' \<and> drained mm w') \<and>
    (\<exists>w'. rng_work wait env fuel gen mm (acts @ (stop_worker \<circ> act) # replicate n id) w = Ended w' \<and>
       drained mm w')"
  using queue_thread_serves_and_stops [OF assms(1) rng_serves_batches [OF assms(2)] assms(3,4)]
    assms(5) unfolding rng_work_def by blast

text \<open>
  The stop event outlives a thread that has died.  When the worker panics on a batch, the reset
  that follows signals the event with no thread left to consume it; the thread of the next
  activation, which shares the event, then ends at its first wait, and serves nothing that the
  driver makes available later.
\<close>

theorem stale_stop_signal:
  assumes "wakes_on_first wait" "rng_work wait env fuel gen mm [act] w = Panicked"
  shows "rng_work wait env fuel gen mm (act # stop_worker # acts) w = Panicked \<and>
    rng_work wait env fuel gen mm (id # acts)
      (rng_worker_new q h il r False (qt_stop_event (stop_worker (act w)))) =
    Ended (rng_worker_new q h il r False False)"
proof
  show "rng_work wait env fuel gen mm (act # stop_worker # acts) w = Panicked"
    using work_append [of wait queue_signals queue_put _ "[act]" "stop_worker # acts" w] assms(2)
    by (simp add: rng_work_def)
  let ?w = "rng_worker_new q h il r False True"
  have "queue_signals ?w = [False, True]" by (simp add: queue_signals_def rng_worker_new_def)
  then have "wait (queue_signals ?w) = Some ([False, False], 1)"
    using qthread.wait_first [OF assms(1), of 1 ?w] by simp
  then show "rng_work wait env fuel gen mm (id # acts)
      (rng_worker_new q h il r False (qt_stop_event (stop_worker (act w)))) =
    Ended (rng_worker_new q h il r False False)"
    by (simp add: rng_work_def stop_worker_def queue_dispatch_def wait_results queue_put_def rng_worker_new_def)
qed

theorem stale_stop_signal_witness:
  "rng_work demo_wait demo_env 2 demo_random demo_mm [id]
      (rng_worker_new (demo_queue\<lparr>q_used_ring := 0x100000, q_event_idx_enabled := False\<rparr>) demo_heap demo_link 0 True False) = Panicked \<and>
    rng_work demo_wait demo_env 2 demo_random demo_mm [id]
      (rng_worker_new demo_queue demo_heap demo_link 0 False True) =
    Ended (rng_worker_new demo_queue demo_heap demo_link 0 False False)"
proof -
  have "\<not> is_ok (disable_notification demo_mm demo_heap (demo_queue\<lparr>q_used_ring := 0x100000, q_event_idx_enabled := False\<rparr>))"
    by (simp add: disable_notification_def set_notification_def set_used_flags_def accessor_defs demo_eval
        demo_queue_def checked_add_def)
  then obtain e where "disable_notification demo_mm demo_heap
      (demo_queue\<lparr>q_used_ring := 0x100000, q_event_idx_enabled := False\<rparr>) = Err e"
    by (cases "disable_notification demo_mm demo_heap
      (demo_queue\<lparr>q_used_ring := 0x100000, q_event_idx_enabled := False\<rparr>)") simp_all
  then have p: "rng_work demo_wait demo_env 2 demo_random demo_mm [id] (rng_worker_new
      (demo_queue\<lparr>q_used_ring := 0x100000, q_event_idx_enabled := False\<rparr>) demo_heap demo_link 0 True False) = Panicked"
    by (simp add: rng_work_def rng_worker_new_def queue_signals_def queue_put_def demo_wait_def
        queue_dispatch_def queue_round_def wait_results rng_process_virtio_queues_def numeral_2_eq_2)
  then show ?thesis
    using stale_stop_signal [OF demo_wait_wakes p, of "[]" demo_queue demo_heap demo_link 0]
    by (simp add: stop_worker_def)
qed

text \<open>
  A console thread told to stop: output the guest has queued is still written, and the answer to a
  cursor query in it, or input that was waiting, still goes to the receive queue, before the thread
  ends with no event signalled.
\<close>

theorem console_thread_stops:
  assumes "wakes_on_first wait" "ct_tx_event w" "ct_stop_event w" "2 < n"
    and "console_process_tx_virtio_queue env fuel mm (ct_tx_queue w) (ct_heap w) (ct_io w, ct_interrupt w) =
      Some (Some (tq, h1, io1, il1))"
    and "console_process_rx_input env fuel mm (ct_rx_queue w) h1 (io1\<lparr>ci_event := False\<rparr>, il1) =
      Some (Some (rq, h2, io2, il2))"
  shows "console_work wait env fuel mm (replicate n id) w = Ended
    (if ci_event io1
     then console_worker_new rq tq il2 h2 False False (io1\<lparr>ci_input := [], ci_event := False\<rparr>)
     else console_worker_new (ct_rx_queue w) tq il1 h1 False False io1)"
proof -
  have io2: "io2 = io1\<lparr>ci_input := [], ci_event := False\<rparr>" using console_rx_keeps [OF assms(6)] by simp
  have tx: "console_dispatch env fuel mm 0 (console_put [False, ci_event (ct_io w), True] w) =
      Some (Some (Continue (console_worker_new (ct_rx_queue w) tq il1 h1 False True io1)))"
    using assms(3,5)
    by (cases w) (simp add: console_dispatch_def console_tx_round_def console_put_def console_worker_new_def wait_results)
  have rx: "console_dispatch env fuel mm 1
      (console_put [False, False, True] (console_worker_new (ct_rx_queue w) tq il1 h1 False True io1)) =
      Some (Some (Continue (console_worker_new rq tq il2 h2 False True io2)))"
    using assms(6)
    by (simp add: console_dispatch_def console_rx_round_def console_put_def console_worker_new_def wait_results)
  let ?w = "if ci_event io1 then console_worker_new rq tq il2 h2 False True io2
    else console_worker_new (ct_rx_queue w) tq il1 h1 False True io1"
  have "settle console_signals console_put (console_dispatch env fuel mm) [0..<2] w = Some ?w"
    using tx rx assms(2,3) by (simp add: console_signals_def console_worker_new_def upt_rec numeral_2_eq_2)
  from cthread.stops [OF assms(1) _ this] assms(3,4)
  show ?thesis
    by (auto simp: console_work_def console_signals_def console_put_def console_worker_new_def io2)
qed

text \<open>
  Frames put back for want of a receive buffer: the worker does not wait for the event of the
  receive queue, so whatever buffers the driver makes available afterwards, the frames stay
  pending until the reader thread signals another one.
\<close>

theorem net_frames_wait_for_frames:
  assumes "wakes_on_first wait" "\<forall>act \<in> set acts. \<exists>f g. \<forall>w. act w = w\<lparr>nt_rx_queue := f w, nt_heap := g w\<rparr>"
    and "\<not> nt_tx_event w" "\<not> nw_rx_ready (nt_worker w)" "\<not> nt_stop_event w"
  shows "\<exists>w'. net_work wait env fuel mm acts w = Waiting w' \<and> nt_worker w' = nt_worker w"
proof -
  have keep: "\<forall>act \<in> set acts. \<forall>w. nt_worker (act w) = nt_worker w \<and> net_signals (act w) = net_signals w"
  proof (intro ballI allI)
    fix act w
    assume "act \<in> set acts"
    then obtain f g where "act w = w\<lparr>nt_rx_queue := f w, nt_heap := g w\<rparr>" using assms(2) by blast
    then show "nt_worker (act w) = nt_worker w \<and> net_signals (act w) = net_signals w"
      by (simp add: net_signals_def)
  qed
  have "work wait net_signals net_put (net_dispatch env fuel mm) acts w = Waiting (fold (\<lambda>act. act) acts w)"
    by (rule work_unnoticed) (use assms keep in \<open>auto simp: wakes_on_first_def net_signals_def\<close>)
  moreover have "nt_worker (fold (\<lambda>act. act) acts w) = nt_worker w"
    using keep by (induction acts arbitrary: w) simp_all
  ultimately show ?thesis by (simp add: net_work_def)
qed

end
