(* ===== verification/Bus.thy ===== *)
theory Bus
  imports Prelude
begin

text \<open>
  Routing an address space to devices (\<^verbatim>\<open>src/devices/bus.rs\<close>).  The \<^verbatim>\<open>BTreeMap\<close> keyed by the
  start of a range is a list of entries in ascending order of their start; a device is a value of
  an abstract type, and a write returns the bus with the device changed.
\<close>

section \<open>The bus\<close>

datatype bus_error = Overlap

type_synonym bus_range = "u64 \<times> u64"
type_synonym 'd bus = "(bus_range \<times> 'd) list"

definition bus_new :: "'d bus" where "bus_new = []"

definition first_before :: "'d bus \<Rightarrow> u64 \<Rightarrow> (bus_range \<times> 'd) option" where
  "first_before b addr = find (\<lambda>(range, dev). fst range \<le> addr) (rev b)"

definition get_device :: "'d bus \<Rightarrow> u64 \<Rightarrow> (u64 \<times> 'd) option" where
  "get_device b addr =
     (case first_before b addr of
        Some ((start, len), dev) \<Rightarrow>
          let offset = addr - start in if offset < len then Some (offset, dev) else None
      | None \<Rightarrow> None)"

text \<open>Insertion into the ordered map: an equal key keeps its place and gets the new value.\<close>

fun map_insert :: "bus_range \<Rightarrow> 'd \<Rightarrow> 'd bus \<Rightarrow> 'd bus \<times> 'd option" where
  "map_insert k v [] = ([(k, v)], None)"
| "map_insert k v ((k', v') # b) =
     (if fst k < fst k' then ((k, v) # (k', v') # b, None)
      else if fst k = fst k' then ((k', v) # b, Some v')
      else case map_insert k v b of (b', old) \<Rightarrow> ((k', v') # b', old))"

definition bus_insert :: "'d bus \<Rightarrow> 'd \<Rightarrow> u64 \<Rightarrow> u64 \<Rightarrow> 'd bus \<times> (bus_error, unit) result" where
  "bus_insert b dev base len =
     (if len = 0 then (b, Err Overlap)
      else if get_device b base \<noteq> None then (b, Err Overlap)
      else case first_before b (base + len - 1) of
        Some ((start, _), _) \<Rightarrow>
          if base \<le> start then (b, Err Overlap)
          else (case map_insert (base, len) dev b of
                  (b', Some _) \<Rightarrow> (b', Err Overlap) | (b', None) \<Rightarrow> (b', Ok ()))
      | None \<Rightarrow>
          (case map_insert (base, len) dev b of
             (b', Some _) \<Rightarrow> (b', Err Overlap) | (b', None) \<Rightarrow> (b', Ok ())))"

definition bus_read :: "('d \<Rightarrow> u64 \<Rightarrow> u8 list \<Rightarrow> u8 list) \<Rightarrow> 'd bus \<Rightarrow> u64 \<Rightarrow> u8 list \<Rightarrow> u8 list \<times> bool" where
  "bus_read dev_read b addr data =
     (case get_device b addr of
        Some (offset, dev) \<Rightarrow> (dev_read dev offset data, True)
      | None \<Rightarrow> (data, False))"

definition bus_write :: "('d \<Rightarrow> u64 \<Rightarrow> u8 list \<Rightarrow> 'd) \<Rightarrow> 'd bus \<Rightarrow> u64 \<Rightarrow> u8 list \<Rightarrow> 'd bus \<times> bool" where
  "bus_write dev_write b addr data =
     (case first_before b addr of
        Some ((start, len), dev) \<Rightarrow>
          if addr - start < len
          then (map (\<lambda>(r, d). (r, if fst r = start then dev_write d (addr - start) data else d)) b, True)
          else (b, False)
      | None \<Rightarrow> (b, False))"

section \<open>Disjoint ranges\<close>

definition in_range :: "bus_range \<Rightarrow> u64 \<Rightarrow> bool" where
  "in_range r a \<longleftrightarrow> unat (fst r) \<le> unat a \<and> unat a < unat (fst r) + unat (snd r)"

text \<open>Non-empty ranges that do not wrap, each one ending before the next one starts.\<close>

definition bus_wf :: "'d bus \<Rightarrow> bool" where
  "bus_wf b \<longleftrightarrow>
     (\<forall>e \<in> set b. 0 < unat (snd (fst e)) \<and> unat (fst (fst e)) + unat (snd (fst e)) \<le> 2 ^ 64) \<and>
     sorted_wrt (\<lambda>e f. unat (fst (fst e)) + unat (snd (fst e)) \<le> unat (fst (fst f))) b"

lemma bus_wf_Cons:
  "bus_wf (e # b) \<longleftrightarrow> 0 < unat (snd (fst e)) \<and> unat (fst (fst e)) + unat (snd (fst e)) \<le> 2 ^ 64 \<and>
     (\<forall>f \<in> set b. unat (fst (fst e)) + unat (snd (fst e)) \<le> unat (fst (fst f))) \<and> bus_wf b"
  by (auto simp: bus_wf_def)

lemma bus_wf_append:
  "bus_wf (a @ b) \<longleftrightarrow> bus_wf a \<and> bus_wf b \<and>
     (\<forall>e \<in> set a. \<forall>f \<in> set b. unat (fst (fst e)) + unat (snd (fst e)) \<le> unat (fst (fst f)))"
  by (auto simp: bus_wf_def sorted_wrt_append)

text \<open>The last entry that starts at or before an address splits the list.\<close>

lemma first_before_split:
  assumes "bus_wf b"
  obtains l r where "b = l @ r" "\<forall>e \<in> set l. fst (fst e) \<le> addr" "\<forall>e \<in> set r. addr < fst (fst e)"
    "first_before b addr = (if l = [] then None else Some (last l))"
  using assms
proof (induction b arbitrary: thesis)
  case Nil
  then show ?case by (simp add: first_before_def)
next
  case (Cons e b)
  obtain l r where lr: "b = l @ r" "\<forall>e \<in> set l. fst (fst e) \<le> addr" "\<forall>e \<in> set r. addr < fst (fst e)"
    "first_before b addr = (if l = [] then None else Some (last l))"
    using Cons.IH Cons.prems(2) by (auto simp: bus_wf_Cons)
  have fb: "first_before (e # b) addr =
      (case first_before b addr of Some x \<Rightarrow> Some x | None \<Rightarrow> if fst (fst e) \<le> addr then Some e else None)"
    by (auto simp: first_before_def find_append case_prod_beta split: option.splits)
  show ?case
  proof (cases "fst (fst e) \<le> addr")
    case True
    then show ?thesis using Cons.prems(1) [of "e # l" r] lr fb by auto
  next
    case False
    have "l = []"
    proof (rule ccontr)
      assume "l \<noteq> []"
      then obtain f where "f \<in> set l" by (cases l) auto
      then have "unat (fst (fst e)) + unat (snd (fst e)) \<le> unat (fst (fst f))" "fst (fst f) \<le> addr"
        using Cons.prems(2) lr by (auto simp: bus_wf_Cons)
      then show False using False by (simp add: word_le_nat_alt)
    qed
    then show ?thesis using Cons.prems(1) [of "[]" "e # b"] lr fb False by auto
  qed
qed


lemma last_start_max:
  assumes "bus_wf l" "e \<in> set l"
  shows "unat (fst (fst e)) \<le> unat (fst (fst (last l)))"
    and "e \<noteq> last l \<Longrightarrow> unat (fst (fst e)) + unat (snd (fst e)) \<le> unat (fst (fst (last l)))"
proof -
  have l: "l = butlast l @ [last l]" using assms(2) by (cases l) auto
  then have before: "\<forall>e \<in> set (butlast l). unat (fst (fst e)) + unat (snd (fst e)) \<le> unat (fst (fst (last l)))"
    using assms(1) bus_wf_append [of "butlast l" "[last l]"] by auto
  have e: "e \<in> set (butlast l) \<or> e = last l" using assms(2) l by (metis Un_iff set_append set_ConsD empty_iff list.set(1))
  then show "unat (fst (fst e)) \<le> unat (fst (fst (last l)))"
    using before by fastforce
  show "e \<noteq> last l \<Longrightarrow> unat (fst (fst e)) + unat (snd (fst e)) \<le> unat (fst (fst (last l)))"
    using before e by blast
qed

lemma get_device_iff:
  assumes wf: "bus_wf b"
  shows "get_device b addr = Some (off, dev) \<longleftrightarrow>
    (\<exists>r. (r, dev) \<in> set b \<and> in_range r addr \<and> off = addr - fst r)"
proof -
  obtain l r where lr: "b = l @ r" "\<forall>e \<in> set l. fst (fst e) \<le> addr" "\<forall>e \<in> set r. addr < fst (fst e)"
    "first_before b addr = (if l = [] then None else Some (last l))"
    using first_before_split [OF wf] by metis
  have wfl: "bus_wf l" using wf lr(1) by (simp add: bus_wf_append)
  have off: "addr - s < n \<longleftrightarrow> in_range (s, n) addr" if "s \<le> addr" for s n
    using that by (auto simp: in_range_def word_less_nat_alt word_le_nat_alt unat_sub)
  have in_l: "e \<in> set l" if "e \<in> set b" "in_range (fst e) addr" for e
    using that lr by (auto simp: in_range_def word_less_nat_alt)
  have last: "e = last l" if "e \<in> set l" "in_range (fst e) addr" for e
  proof (rule ccontr)
    assume "e \<noteq> last l"
    then have "unat (fst (fst e)) + unat (snd (fst e)) \<le> unat (fst (fst (last l)))"
      using last_start_max(2) [OF wfl that(1)] by simp
    moreover have "fst (fst (last l)) \<le> addr" using lr(2) that(1) by (cases l) auto
    ultimately show False using that(2) by (simp add: in_range_def word_le_nat_alt)
  qed
  show ?thesis
  proof (cases "l = []")
    case True
    then show ?thesis using lr in_l by (force simp: get_device_def)
  next
    case False
    obtain s n d where e: "last l = ((s, n), d)" by (metis surj_pair)
    have "((s, n), d) \<in> set l" using False e by (metis last_in_set)
    then have s: "s \<le> addr" and b: "((s, n), d) \<in> set b" using lr by auto
    have "get_device b addr = (if in_range (s, n) addr then Some (addr - s, d) else None)"
      using False lr(4) e off [OF s] by (simp add: get_device_def Let_def)
    moreover have "(r', dev) \<in> set b \<Longrightarrow> in_range r' addr \<Longrightarrow> (r', dev) = ((s, n), d)" for r'
      using in_l [of "(r', dev)"] last [of "(r', dev)"] e by simp
    ultimately show ?thesis using b by auto
  qed
qed

lemma map_insert_split:
  assumes "\<forall>e \<in> set l. fst (fst e) < fst k" "\<forall>e \<in> set r. fst k < fst (fst e)"
  shows "map_insert k v (l @ r) = (l @ (k, v) # r, None)"
  using assms
proof (induction l)
  case Nil
  then show ?case by (cases r) auto
next
  case (Cons e l)
  then show ?case by (cases e) (auto simp: not_less_iff_gr_or_eq)
qed

definition ranges_meet :: "bus_range \<Rightarrow> bus_range \<Rightarrow> bool" where
  "ranges_meet r s \<longleftrightarrow> (\<exists>a. in_range r a \<and> in_range s a)"

lemma in_range_start: "bus_wf b \<Longrightarrow> e \<in> set b \<Longrightarrow> in_range (fst e) (fst (fst e))"
  by (auto simp: bus_wf_def in_range_def)

lemma unat_range_end:
  assumes "0 < unat len" "unat base + unat len \<le> 2 ^ 64"
  shows "unat (base + len - 1 :: u64) = unat base + unat len - 1"
proof -
  have "1 \<le> len" using assms(1) by (simp add: word_le_nat_alt)
  then have l: "unat (len - 1) = unat len - 1" by (simp add: unat_sub)
  have "unat base + unat (len - 1) < 2 ^ LENGTH(64)" using l assms by simp
  from unat_add_no_wrap [OF this] show ?thesis using l assms(1) by (simp add: add_diff_eq)
qed

lemma bus_insert_overlap:
  assumes wf: "bus_wf b" and len: "0 < unat len" "unat base + unat len \<le> 2 ^ 64"
    and e: "e \<in> set b" "ranges_meet (fst e) (base, len)"
  shows "bus_insert b dev base len = (b, Err Overlap)"
proof (cases "get_device b base")
  case (Some x)
  then show ?thesis using len(1) by (auto simp: bus_insert_def unat_gt_0)
next
  case None
  have notin: "\<not> in_range (fst e) base"
    using None get_device_iff [OF wf, of base] e(1) by (cases e) (metis fst_conv option.distinct(1))
  obtain a where a: "in_range (fst e) a" "in_range (base, len) a" using e(2) by (auto simp: ranges_meet_def)
  then have st: "unat base < unat (fst (fst e))" "unat (fst (fst e)) < unat base + unat len"
    using notin by (auto simp: in_range_def)
  obtain l r where lr: "b = l @ r" "\<forall>f \<in> set l. fst (fst f) \<le> base + len - 1"
    "\<forall>f \<in> set r. base + len - 1 < fst (fst f)"
    "first_before b (base + len - 1) = (if l = [] then None else Some (last l))"
    using first_before_split [OF wf] by metis
  have el: "e \<in> set l"
    using e(1) lr(1,3) st unat_range_end [OF len] by (auto simp: word_less_nat_alt)
  have "bus_wf l" using wf lr(1) by (simp add: bus_wf_append)
  from last_start_max(1) [OF this el] have "base \<le> fst (fst (last l))"
    using st by (simp add: word_le_nat_alt)
  moreover have "l \<noteq> []" using el by auto
  ultimately show ?thesis
    using lr(4) None len(1) by (cases "last l") (auto simp: bus_insert_def unat_gt_0)
qed

lemma bus_insert_fresh:
  assumes wf: "bus_wf b" and len: "0 < unat len" "unat base + unat len \<le> 2 ^ 64"
    and apart: "\<forall>e \<in> set b. \<not> ranges_meet (fst e) (base, len)"
  obtains l r where "b = l @ r" "bus_wf (l @ ((base, len), dev) # r)"
    "bus_insert b dev base len = (l @ ((base, len), dev) # r, Ok ())"
proof -
  have new: "in_range (base, len) a \<longleftrightarrow> unat base \<le> unat a \<and> unat a < unat base + unat len" for a
    by (simp add: in_range_def)
  have none: "get_device b base = None"
  proof (rule ccontr)
    assume "get_device b base \<noteq> None"
    then obtain r d where "(r, d) \<in> set b" "in_range r base" using get_device_iff [OF wf, of base] by force
    then show False using apart len(1) new by (fastforce simp: ranges_meet_def)
  qed
  obtain l r where lr: "b = l @ r" "\<forall>e \<in> set l. fst (fst e) \<le> base" "\<forall>e \<in> set r. base < fst (fst e)"
    using first_before_split [OF wf] by metis
  have left: "unat (fst (fst e)) + unat (snd (fst e)) \<le> unat base" if "e \<in> set l" for e
  proof (rule ccontr)
    assume "\<not> ?thesis"
    then have "in_range (fst e) base" using lr(2) that by (auto simp: in_range_def word_le_nat_alt)
    then show False using apart lr(1) that len(1) new by (force simp: ranges_meet_def)
  qed
  have right: "unat base + unat len \<le> unat (fst (fst e))" if "e \<in> set r" for e
  proof (rule ccontr)
    assume "\<not> ?thesis"
    then have "in_range (base, len) (fst (fst e))"
      using lr(3) that new by (auto simp: word_less_nat_alt dest: less_imp_le)
    moreover have "e \<in> set b" using lr(1) that by simp
    ultimately show False
      using apart in_range_start [OF wf] unfolding ranges_meet_def by blast
  qed
  have wf': "bus_wf (l @ ((base, len), dev) # r)"
    using wf lr(1) left right len by (auto simp: bus_wf_append bus_wf_Cons)
  have "\<forall>e \<in> set l. fst (fst e) < base"
  proof
    fix e
    assume "e \<in> set l"
    moreover from this have "0 < unat (snd (fst e))" using wf lr(1) by (auto simp: bus_wf_def)
    ultimately show "fst (fst e) < base" using left [of e] by (simp add: word_less_nat_alt)
  qed
  then have ins: "map_insert (base, len) dev b = (l @ ((base, len), dev) # r, None)"
    using map_insert_split [of l "(base, len)" r dev] lr(1,3) by simp
  have before: "\<not> base \<le> fst (fst e)" if "first_before b (base + len - 1) = Some e" for e
  proof
    assume le: "base \<le> fst (fst e)"
    have eb: "e \<in> set b" "fst (fst e) \<le> base + len - 1"
      using that find_SomeD by (force simp: first_before_def)+
    then have "in_range (base, len) (fst (fst e))"
      using le unat_range_end [OF len] len(1) new by (simp add: word_le_nat_alt)
    then show False using apart eb(1) in_range_start [OF wf] unfolding ranges_meet_def by blast
  qed
  have "bus_insert b dev base len = (l @ ((base, len), dev) # r, Ok ())"
    using none ins before len(1)
    by (auto simp: bus_insert_def unat_gt_0 split: option.splits)
  then show thesis using that lr(1) wf' by blast
qed

section \<open>Properties\<close>

text \<open>
  C15.  Adding a device to the bus succeeds exactly when its range overlaps no range that is
  already there; then every address of the new range is routed to it, with the offset into its
  range, every other address is routed as before, and the ranges stay disjoint.  (The range must
  not wrap around the end of the address space.)
\<close>

theorem bus_insert_routes:
  assumes "bus_wf b" "0 < unat len" "unat base + unat len \<le> 2 ^ 64"
  shows "if \<exists>e \<in> set b. ranges_meet (fst e) (base, len) then bus_insert b dev base len = (b, Err Overlap)
    else \<exists>b'. bus_insert b dev base len = (b', Ok ()) \<and> bus_wf b' \<and>
      (\<forall>addr. get_device b' addr =
         (if in_range (base, len) addr then Some (addr - base, dev) else get_device b addr))"
proof (cases "\<exists>e \<in> set b. ranges_meet (fst e) (base, len)")
  case True
  then show ?thesis using bus_insert_overlap [OF assms] by auto
next
  case False
  then obtain l r where lr: "b = l @ r" "bus_wf (l @ ((base, len), dev) # r)"
    "bus_insert b dev base len = (l @ ((base, len), dev) # r, Ok ())"
    using bus_insert_fresh [OF assms] by metis
  let ?b = "l @ ((base, len), dev) # r"
  have "get_device ?b addr = Some x \<longleftrightarrow>
      (if in_range (base, len) addr then Some (addr - base, dev) else get_device b addr) = Some x" for addr x
  proof -
    obtain off d where x: "x = (off, d)" by fastforce
    have "\<not> ((rg, d') \<in> set b \<and> in_range rg addr)" if "in_range (base, len) addr" for rg d'
      using that False by (force simp: ranges_meet_def)
    then show ?thesis
      using get_device_iff [OF lr(2), of addr off d] get_device_iff [OF assms(1), of addr off d] x lr(1) by auto
  qed
  then have "get_device ?b addr =
      (if in_range (base, len) addr then Some (addr - base, dev) else get_device b addr)" for addr
    by (metis option.exhaust)
  then show ?thesis using False lr by auto
qed

theorem bus_insert_routes_witness:
  "\<exists>b'. bus_insert [((0x1000, 0x100), ''rtc'')] ''pm'' 0x2000 8 = (b', Ok ()) \<and>
     get_device b' 0x2004 = Some (4, ''pm'')"
proof -
  have wf: "bus_wf [((0x1000, 0x100), ''rtc'')]" by (simp add: bus_wf_def)
  have "\<not> (\<exists>e \<in> set [((0x1000, 0x100), ''rtc'')]. ranges_meet (fst e) (0x2000, 8))"
    by (auto simp: ranges_meet_def in_range_def)
  then show ?thesis
    using bus_insert_routes [OF wf, of 8 "0x2000" "''pm''"] by (auto simp: in_range_def)
qed

end
