(* ===== verification/Platform.thy ===== *)
theory Platform
  imports Bus Layout
begin

text \<open>
  What the guest is told about its platform: the processors (\<^verbatim>\<open>src/cpu.rs\<close>), the device manager
  with its port bus, PCI segment and list of virtio devices (\<^verbatim>\<open>src/device_manager.rs\<close>), and the
  ACPI power-management timer (\<^verbatim>\<open>src/acpi.rs\<close>).

  The AML objects are built with constructors of the \<^verbatim>\<open>acpi_tables\<close> crate; they are the free
  datatype \<open>aml\<close> here, and how the crate encodes a term is a parameter of the theory \<open>Acpi\<close>.
\<close>

section \<open>AML terms\<close>

datatype aml =
    AmlDevice string "aml list"
  | AmlScope string "aml list"
  | AmlName string aml
  | AmlMethod string nat bool "aml list"
  | AmlReturn aml
  | AmlPackage "aml list"
  | AmlResourceTemplate "aml list"
  | AmlEISAName string
  | AmlString string
  | AmlU8 u8
  | AmlU16 u16
  | AmlU32 u32
  | AmlZero
  | AmlBusNumber u16 u16
  | AmlMemoryRange bool bool u64 u64 "u64 option"
  | AmlIO u16 u16 u8 u8
  | AmlMemory32Fixed bool u32 u32
  | AmlInterrupt bool bool bool bool u32

text \<open>\<^verbatim>\<open>format!("{:02X}", n)\<close>\<close>

definition hex_digit :: "nat \<Rightarrow> char" where
  "hex_digit d = (if d < 10 then char_of (48 + d) else char_of (55 + d))"

fun hex_digits :: "nat \<Rightarrow> string" where
  "hex_digits n = (if n < 16 then [hex_digit n] else hex_digits (n div 16) @ [hex_digit (n mod 16)])"

declare hex_digits.simps [simp del]

definition format_02X :: "nat \<Rightarrow> string" where
  "format_02X n = (if n < 16 then ''0'' else '''') @ hex_digits n"

section \<open>Processors\<close>

definition ACPI_X2APIC_PROCESSOR :: u8 where "ACPI_X2APIC_PROCESSOR = 9"
definition ACPI_APIC_PROCESSOR :: u8 where "ACPI_APIC_PROCESSOR = 0"
definition ACPI_APIC_IO :: u8 where "ACPI_APIC_IO = 1"
definition ACPI_APIC_XRUPT_OVERRIDE :: u8 where "ACPI_APIC_XRUPT_OVERRIDE = 2"

record cpu = cpu_id :: u32

definition cpu_aml :: "cpu \<Rightarrow> aml list" where
  "cpu_aml c =
     [AmlDevice (''CP'' @ format_02X (unat (cpu_id c)))
        [AmlName ''_HID'' (AmlString ''ACPI0007''),
         AmlName ''_UID'' (AmlU32 (cpu_id c)),
         AmlMethod ''_STA'' 0 False [AmlReturn (AmlU8 0xf)]]]"

text \<open>The packed structures of the interrupt controller table, as their bytes.\<close>

record local_apic =
  la_type :: u8
  la_length :: u8
  la_apic_id :: u8
  la_flags :: u32
  la_processor_id :: u8

definition local_apic_bytes :: "local_apic \<Rightarrow> u8 list" where
  "local_apic_bytes a =
     [la_type a, la_length a, la_apic_id a] @ to_le 4 (la_flags a) @ [la_processor_id a]"

record madt_ioapic =
  mi_type :: u8
  mi_length :: u8
  mi_ioapic_id :: u8
  mi_reserved :: u8
  mi_apic_address :: u32
  mi_gsi_base :: u32

definition madt_ioapic_bytes :: "madt_ioapic \<Rightarrow> u8 list" where
  "madt_ioapic_bytes a =
     [mi_type a, mi_length a, mi_ioapic_id a, mi_reserved a] @ to_le 4 (mi_apic_address a) @
     to_le 4 (mi_gsi_base a)"

record interrupt_source_override =
  so_type :: u8
  so_length :: u8
  so_bus :: u8
  so_source :: u8
  so_gsi :: u32
  so_flags :: u16

definition interrupt_source_override_bytes :: "interrupt_source_override \<Rightarrow> u8 list" where
  "interrupt_source_override_bytes a =
     [so_type a, so_length a, so_bus a, so_source a] @ to_le 4 (so_gsi a) @ to_le 2 (so_flags a)"

record cpu_manager =
  cm_cpus :: u32
  cm_acpi_address :: "u64 option"

definition cpu_manager_new :: cpu_manager where
  "cpu_manager_new = \<lparr>cm_cpus = 0, cm_acpi_address = None\<rparr>"

definition set_cpu_count :: "u32 \<Rightarrow> cpu_manager \<Rightarrow> cpu_manager" where
  "set_cpu_count count m = m\<lparr>cm_cpus := count\<rparr>"

definition get_cpu_count :: "cpu_manager \<Rightarrow> u32" where
  "get_cpu_count m = cm_cpus m"

definition cpu_ids :: "cpu_manager \<Rightarrow> u32 list" where
  "cpu_ids m = map of_nat [0..<unat (cm_cpus m)]"

definition cpu_manager_aml :: "cpu_manager \<Rightarrow> aml list" where
  "cpu_manager_aml m = [AmlScope (CHR 0x5C # ''_SB_'') (concat (map (\<lambda>i. cpu_aml \<lparr>cpu_id = i\<rparr>) (cpu_ids m)))]"

section \<open>The power-management timer\<close>

text \<open>Points of time are nanoseconds.\<close>

record acpi_pm_timer = pm_start :: nat

definition PM_TIMER_FREQUENCY_HZ :: nat where "PM_TIMER_FREQUENCY_HZ = 3579545"
definition NANOS_PER_SECOND :: nat where "NANOS_PER_SECOND = 1000000000"

definition pm_timer_read :: "nat \<Rightarrow> acpi_pm_timer \<Rightarrow> u8 list \<Rightarrow> u8 list" where
  "pm_timer_read now t data =
     (if length data \<noteq> 4 then data
      else let nanos = now - pm_start t;
               counter = (nanos * PM_TIMER_FREQUENCY_HZ) div NANOS_PER_SECOND
           in to_le 4 (of_nat counter :: u32))"

section \<open>The device manager\<close>

datatype generic_address = IoPortAddress nat u16

record acpi_platform_addresses =
  pa_pm_timer_address :: "generic_address option"
  pa_reset_reg_address :: "generic_address option"
  pa_sleep_control_reg_address :: "generic_address option"
  pa_sleep_status_reg_address :: "generic_address option"

definition acpi_platform_addresses_new :: acpi_platform_addresses where
  "acpi_platform_addresses_new =
     \<lparr>pa_pm_timer_address = None, pa_reset_reg_address = None,
      pa_sleep_control_reg_address = None, pa_sleep_status_reg_address = None\<rparr>"

record pci_segment =
  ps_id :: u16
  ps_mmio_config_address :: u64
  ps_start_of_mem32_area :: u64
  ps_end_of_mem32_area :: u64
  ps_start_of_mem64_area :: u64
  ps_end_of_mem64_area :: u64

definition pci_segment_aml :: "pci_segment \<Rightarrow> aml list" where
  "pci_segment_aml s =
     [AmlDevice (''PC'' @ format_02X (unat (ps_id s)))
        [AmlName ''_HID'' (AmlEISAName ''PNP0A08''),
         AmlName ''_CID'' (AmlEISAName ''PNP0A03''),
         AmlName ''_SEG'' (AmlU16 (ps_id s)),
         AmlName ''_UID'' (AmlU16 (ps_id s)),
         AmlName ''_BBN'' AmlZero,
         AmlName ''_CRS'' (AmlResourceTemplate
           [AmlBusNumber 0 0xff,
            AmlIO 0xcf8 0xcf8 1 8,
            AmlMemory32Fixed True (ucast (ps_mmio_config_address s)) (ucast PCI_MMIO_CONFIG_SIZE_PER_SEGMENT),
            AmlMemoryRange False True (ps_start_of_mem32_area s) (ps_end_of_mem32_area s) None,
            AmlMemoryRange False True (ps_start_of_mem64_area s) (ps_end_of_mem64_area s) None])]]"

record serial_device =
  sd_name :: string
  sd_uid :: u8
  sd_irq :: u32
  sd_port :: u16

definition serial_device_aml :: "serial_device \<Rightarrow> aml list" where
  "serial_device_aml d =
     [AmlDevice (''_SB_.'' @ sd_name d)
        [AmlName ''_HID'' (AmlEISAName ''PNP0501''),
         AmlName ''_UID'' (AmlU8 (sd_uid d)),
         AmlName ''_CRS'' (AmlResourceTemplate
           [AmlInterrupt True True False False (sd_irq d),
            AmlIO (sd_port d) (sd_port d) 1 8])]]"

record virtio_mmio_device =
  vm_name :: string
  vm_uid :: u8
  vm_base_address :: u64
  vm_size :: u64
  vm_irq :: u32

definition virtio_mmio_device_aml :: "virtio_mmio_device \<Rightarrow> aml list" where
  "virtio_mmio_device_aml d =
     [AmlDevice (''_SB_.'' @ vm_name d)
        [AmlName ''_HID'' (AmlString ''LNRO0005''),
         AmlName ''_UID'' (AmlU8 (vm_uid d)),
         AmlName ''_CRS'' (AmlResourceTemplate
           [AmlMemory32Fixed True (ucast (vm_base_address d)) (ucast (vm_size d)),
            AmlInterrupt True True False False (vm_irq d)])]]"

record device_manager =
  dm_io_bus :: "acpi_pm_timer bus"
  dm_pci_segments :: "pci_segment list"
  dm_serial_devices :: "serial_device list"
  dm_virtio_mmio_devices :: "virtio_mmio_device list"
  dm_acpi_platform_addresses :: acpi_platform_addresses

definition device_manager_new :: "u64 \<Rightarrow> device_manager" where
  "device_manager_new total_memory_gpa =
     \<lparr>dm_io_bus = bus_new,
      dm_pci_segments =
        [\<lparr>ps_id = 0,
          ps_mmio_config_address = PCI_MMCONFIG_START,
          ps_start_of_mem32_area = MEM_32BIT_DEVICES_START,
          ps_end_of_mem32_area = MEM_32BIT_DEVICES_START + MEM_32BIT_DEVICES_SIZE - 1,
          ps_start_of_mem64_area = total_memory_gpa + 1,
          ps_end_of_mem64_area = 0x3fffffffffff\<rparr>],
      dm_serial_devices = [],
      dm_virtio_mmio_devices = [],
      dm_acpi_platform_addresses = acpi_platform_addresses_new\<rparr>"

definition add_acpi_platform_device :: "nat \<Rightarrow> device_manager \<Rightarrow> device_manager" where
  "add_acpi_platform_device now d =
     (let pm_timer_pio_address = 0x608;
          bus' = fst (bus_insert (dm_io_bus d) \<lparr>pm_start = now\<rparr> (ucast (pm_timer_pio_address :: u16)) 4)
      in d\<lparr>dm_io_bus := bus',
           dm_acpi_platform_addresses := (dm_acpi_platform_addresses d)
             \<lparr>pa_pm_timer_address := Some (IoPortAddress 4 pm_timer_pio_address)\<rparr>\<rparr>)"

definition device_manager_init :: "nat \<Rightarrow> device_manager \<Rightarrow> device_manager" where
  "device_manager_init now d = add_acpi_platform_device now d"

definition register_virtio_mmio ::
  "string \<Rightarrow> u8 \<Rightarrow> u64 \<Rightarrow> u64 \<Rightarrow> u32 \<Rightarrow> device_manager \<Rightarrow> device_manager" where
  "register_virtio_mmio name uid base_address s irq d =
     d\<lparr>dm_virtio_mmio_devices := dm_virtio_mmio_devices d @
       [\<lparr>vm_name = name, vm_uid = uid, vm_base_address = base_address, vm_size = s, vm_irq = irq\<rparr>]\<rparr>"

definition device_manager_aml :: "device_manager \<Rightarrow> aml list" where
  "device_manager_aml d =
     concat (map pci_segment_aml (dm_pci_segments d)) @
     concat (map serial_device_aml (dm_serial_devices d)) @
     concat (map virtio_mmio_device_aml (dm_virtio_mmio_devices d)) @
     [AmlName ''_S5_'' (AmlPackage [AmlU8 5])]"

section \<open>The port bus\<close>

text \<open>After initialisation the four ports of the timer, and no others, belong to it.\<close>

lemma init_io_bus:
  shows "dm_io_bus (device_manager_init now (device_manager_new g)) = [((0x608, 4), \<lparr>pm_start = now\<rparr>)]"
  by (auto simp: device_manager_new_def device_manager_init_def add_acpi_platform_device_def bus_new_def
      bus_insert_def get_device_def first_before_def split: option.splits)

lemma timer_port:
  "get_device [((0x608, 4), t)] p = (if 0x608 \<le> p \<and> p < 0x60c then Some (p - 0x608, t) else None)"
proof -
  have "(0x608 \<le> p \<and> p < 0x60c) = (0x608 \<le> p \<and> p - 0x608 < 4)"
    by (auto simp: word_le_nat_alt word_less_nat_alt unat_sub)
  then show ?thesis by (auto simp: get_device_def first_before_def)
qed

end
