(* ===== verification/Partition.thy ===== *)
theory Partition
  imports Platform Mmio_Transport
begin

text \<open>
  The partition (\<^verbatim>\<open>src/partition.rs\<close>) and the registration of its devices
  (\<^verbatim>\<open>src/device_manager.rs\<close>): guest memory, the windows of the memory-mapped devices, and the handler
  behind each window.

  Calls of the hypervisor and of the host's memory allocator are arguments: the address
  \<^verbatim>\<open>VirtualAlloc\<close> returns (or none) and whether \<^verbatim>\<open>WHvMapGpaRange\<close> succeeds.  The interrupt controller
  is shared by the I/O APIC's handler and the virtio transports; it is a field of its own.
\<close>

section \<open>The partition\<close>

datatype mmio_handler = HandlerIoApic | HandlerPciEcam | HandlerVirtio mmio_transport

record partition =
  pt_memory :: memory_manager
  pt_device_manager :: device_manager
  pt_cpu_manager :: cpu_manager
  pt_mmio_handlers :: "string \<rightharpoonup> mmio_handler"
  pt_irqchip :: irqchip_device
  pt_pci_address_config :: u32
  pt_vm_start_tsc :: u64
  pt_tsc_reference_gpa :: "u64 option"
  pt_guest_os_id :: u64
  pt_guest_memory_base :: "u64 option"
  pt_guest_memory_size :: u64

datatype partition_error =
    HypervisorCallFailed
  | AllocationFailed
  | MmioSizeOverflow
  | MmioOverlapsMemory
  | MmioOverlapsMmio
  | MemoryError mem_error
  | DeviceError

definition partition_new :: "nat \<Rightarrow> u64 \<Rightarrow> usize \<Rightarrow> partition" where
  "partition_new now tsc memory_size =
     \<lparr>pt_memory = memory_manager_new,
      pt_device_manager = device_manager_init now (device_manager_new memory_size),
      pt_cpu_manager = cpu_manager_new,
      pt_mmio_handlers = (\<lambda>_. None),
      pt_irqchip = ChipIoApic ioapic_new,
      pt_pci_address_config = 0,
      pt_vm_start_tsc = tsc,
      pt_tsc_reference_gpa = None,
      pt_guest_os_id = 0,
      pt_guest_memory_base = None,
      pt_guest_memory_size = 0\<rparr>"

definition configure :: "bool \<Rightarrow> u32 \<Rightarrow> partition \<Rightarrow> partition \<times> (partition_error, unit) result" where
  "configure set_ok processor_count pt =
     (if set_ok
      then (pt\<lparr>pt_cpu_manager := set_cpu_count processor_count (pt_cpu_manager pt)\<rparr>, Ok ())
      else (pt, Err HypervisorCallFailed))"

definition allocate_memory_with_size ::
  "u64 option \<Rightarrow> bool \<Rightarrow> bool \<Rightarrow> u64 \<Rightarrow> partition \<Rightarrow> partition \<times> (partition_error, unit) result" where
  "allocate_memory_with_size virtual_alloc map_ok map_high_ok total_memory pt =
     (case virtual_alloc of
        None \<Rightarrow> (pt, Err AllocationFailed)
      | Some source \<Rightarrow>
          let pt = pt\<lparr>pt_guest_memory_base := Some source, pt_guest_memory_size := total_memory\<rparr>
          in if total_memory \<le> MEM_32BIT_RESERVED_START then
               (if \<not> map_ok then (pt, Err HypervisorCallFailed)
                else (pt\<lparr>pt_memory := register_region (pt_memory pt)
                           (memory_region_new 0 total_memory PERM_RWX (Some source))\<rparr>, Ok ()))
             else if \<not> map_ok then (pt, Err HypervisorCallFailed)
             else
               let low_size = MEM_32BIT_DEVICES_START;
                   pt = pt\<lparr>pt_memory := register_region (pt_memory pt)
                          (memory_region_new 0 low_size PERM_RWX (Some source))\<rparr>;
                   gpa = RAM_64BIT_START;
                   high_size = total_memory - low_size;
                   high_source = source + low_size
               in if \<not> map_high_ok then (pt, Err HypervisorCallFailed)
                  else (pt\<lparr>pt_memory := register_region (pt_memory pt)
                             (memory_region_new gpa high_size PERM_RWX (Some high_source))\<rparr>, Ok ()))"

definition write_code :: "partition \<Rightarrow> heap \<Rightarrow> u8 list \<Rightarrow> guest_address \<Rightarrow> (mem_error, heap) result" where
  "write_code pt h code gpa = write_guest_memory (pt_memory pt) h code gpa"

text \<open>\<^verbatim>\<open>Partition::read_memory\<close> repeats the checks of \<^verbatim>\<open>read_guest_memory\<close>.\<close>

definition read_memory :: "partition \<Rightarrow> heap \<Rightarrow> guest_address \<Rightarrow> nat \<Rightarrow> (mem_error, u8 list) result" where
  "read_memory pt h gpa n =
     (case find_region (pt_memory pt) gpa of
        None \<Rightarrow> Err MemoryNotAllocated
      | Some region \<Rightarrow>
          if last_addr region < unchecked_add gpa (of_nat n) then Err ReadExceedsMemory
          else if \<not> perms_contain (rg_perms region) PERM_READ then Err MemoryNotReadable
          else (case rg_hpa region of
                  None \<Rightarrow> Err NoHostAddress
                | Some hpa \<Rightarrow> Ok (copy_from h (hpa + (gpa - start_addr region)) n)))"

text \<open>\<^verbatim>\<open>load_file\<close>: \<open>data\<close> is the content of the file, if it could be read.\<close>

definition load_file ::
  "partition \<Rightarrow> heap \<Rightarrow> u8 list option \<Rightarrow> guest_address \<Rightarrow> (mem_error option, heap \<times> nat) result" where
  "load_file pt h data gpa =
     (case data of
        None \<Rightarrow> Err None
      | Some bs \<Rightarrow>
          (case write_code pt h bs gpa of Err e \<Rightarrow> Err (Some e) | Ok h' \<Rightarrow> Ok (h', length bs)))"

definition get_memory_size :: "partition \<Rightarrow> u64" where
  "get_memory_size pt = fold max (map (\<lambda>r. start_addr r + rg_size r) (mm_regions (pt_memory pt))) 0"

definition register_mmio_region ::
  "u64 \<Rightarrow> u64 \<Rightarrow> string \<Rightarrow> string option \<Rightarrow> partition \<Rightarrow> (partition_error, partition) result" where
  "register_mmio_region gpa n name handler_name pt =
     (case checked_add gpa n of
        None \<Rightarrow> Err MmioSizeOverflow
      | Some mmio_end \<Rightarrow>
          if \<exists>region \<in> set (mm_regions (pt_memory pt)).
               gpa < last_addr region \<and> start_addr region < mmio_end
          then Err MmioOverlapsMemory
          else if \<exists>existing \<in> set (mm_mmio_regions (pt_memory pt)).
               gpa < mr_gpa existing + mr_size existing \<and> mr_gpa existing < mmio_end
          then Err MmioOverlapsMmio
          else Ok (pt\<lparr>pt_memory := register_mmio (pt_memory pt)
                 \<lparr>mr_gpa = gpa, mr_size = n, mr_name = name, mr_handler = handler_name\<rparr>\<rparr>))"

definition register_mmio_handler :: "string \<Rightarrow> mmio_handler \<Rightarrow> partition \<Rightarrow> partition" where
  "register_mmio_handler name handler pt =
     pt\<lparr>pt_mmio_handlers := (pt_mmio_handlers pt)(name \<mapsto> handler)\<rparr>"

section \<open>Registering the devices\<close>

definition VIRTIO_BLOCK_IRQ :: u32 where "VIRTIO_BLOCK_IRQ = 20"
definition VIRTIO_RNG_IRQ :: u32 where "VIRTIO_RNG_IRQ = 21"
definition VIRTIO_CONSOLE_IRQ :: u32 where "VIRTIO_CONSOLE_IRQ = 22"
definition VIRTIO_NET_IRQ :: u32 where "VIRTIO_NET_IRQ = 23"
definition DEFAULT_MAC :: "u8 list" where "DEFAULT_MAC = [0x52, 0x54, 0x00, 0x12, 0x34, 0x56]"

definition setup_ioapic :: "partition \<Rightarrow> (partition_error, partition) result" where
  "setup_ioapic pt =
     (case register_mmio_region IOAPIC_START IOAPIC_SIZE ''IOAPIC'' (Some ''ioapic'')
        (pt\<lparr>pt_irqchip := ChipIoApic ioapic_new\<rparr>) of
        Err e \<Rightarrow> Err e
      | Ok pt' \<Rightarrow> Ok (register_mmio_handler ''ioapic'' HandlerIoApic pt'))"

definition setup_pci_ecam :: "partition \<Rightarrow> (partition_error, partition) result" where
  "setup_pci_ecam pt =
     (case register_mmio_region PCI_MMCONFIG_START PCI_MMCONFIG_SIZE ''PCI ECAM'' (Some ''pci_ecam'') pt of
        Err e \<Rightarrow> Err e
      | Ok pt' \<Rightarrow> Ok (register_mmio_handler ''pci_ecam'' HandlerPciEcam pt'))"

text \<open>
  The part the four virtio devices share: transport, interrupt line, window, handler, ACPI.  \<open>ev\<close> says which
  events can be created for the device.
\<close>

definition setup_virtio ::
  "(event_site \<Rightarrow> bool) \<Rightarrow> virtio_device \<Rightarrow> u32 \<Rightarrow> u64 \<Rightarrow> string \<Rightarrow> string \<Rightarrow> string \<Rightarrow> u8 \<Rightarrow> partition \<Rightarrow>
   (partition_error, partition) result" where
  "setup_virtio ev device irq base name handler_name acpi_name uid pt =
     (case mmio_transport_new ev (pt_memory pt) device of
        Err _ \<Rightarrow> Err DeviceError
      | Ok t \<Rightarrow>
          let n = VIRTIO_MMIO_SIZE_PER_DEVICE; transport = set_irq_line irq t
          in case register_mmio_region base n name (Some handler_name) pt of
               Err e \<Rightarrow> Err e
             | Ok pt' \<Rightarrow>
                 let pt2 = register_mmio_handler handler_name (HandlerVirtio transport) pt'
                 in Ok (pt2\<lparr>pt_device_manager :=
                          register_virtio_mmio acpi_name uid base n irq (pt_device_manager pt2)\<rparr>))"

text \<open>\<open>opened\<close> is the result of opening the disk image: its size and alignment.\<close>

definition setup_virtio_block ::
  "(event_site \<Rightarrow> bool) \<Rightarrow> virtio_bits \<Rightarrow> u8 list \<Rightarrow> (unit, u64 \<times> u64) result \<Rightarrow> partition \<Rightarrow>
   (partition_error, partition) result" where
  "setup_virtio_block ev vb image_id opened pt =
     (case block_new ev vb ''vda1'' None Writeback image_id opened False SyncFull of
        Err _ \<Rightarrow> Err DeviceError
      | Ok block_device \<Rightarrow>
          setup_virtio ev (DevBlock block_device) VIRTIO_BLOCK_IRQ VIRTIO_MMIO_START
            ''Virtio Block Device'' ''virtio_block'' ''VBLK'' 1 pt)"

text \<open>The constructors of the other devices panic when their event cannot be created.\<close>

definition setup_virtio_rng ::
  "(event_site \<Rightarrow> bool) \<Rightarrow> virtio_bits \<Rightarrow> partition \<Rightarrow> (partition_error, partition) result panics" where
  "setup_virtio_rng ev vb pt =
     map_option (\<lambda>rng_device.
       setup_virtio ev (DevRng rng_device) VIRTIO_RNG_IRQ (VIRTIO_MMIO_START + VIRTIO_MMIO_SIZE_PER_DEVICE)
         ''Virtio RNG Device'' ''virtio_rng'' ''VRNG'' 2 pt) (rng_new ev vb)"

definition setup_virtio_console ::
  "(event_site \<Rightarrow> bool) \<Rightarrow> virtio_bits \<Rightarrow> partition \<Rightarrow> (partition_error, partition) result panics" where
  "setup_virtio_console ev vb pt =
     map_option (\<lambda>console_device.
       setup_virtio ev (DevConsole console_device) VIRTIO_CONSOLE_IRQ
         (VIRTIO_MMIO_START + 2 * VIRTIO_MMIO_SIZE_PER_DEVICE)
         ''Virtio Console Device'' ''virtio_console'' ''VCON'' 3 pt) (console_new ev vb 200 200)"

definition setup_virtio_net ::
  "(event_site \<Rightarrow> bool) \<Rightarrow> virtio_bits \<Rightarrow> partition \<Rightarrow> (partition_error, partition) result panics" where
  "setup_virtio_net ev vb pt =
     map_option (\<lambda>net_device.
       setup_virtio ev (DevNet net_device) VIRTIO_NET_IRQ
         (VIRTIO_MMIO_START + 3 * VIRTIO_MMIO_SIZE_PER_DEVICE)
         ''Virtio Net Device'' ''virtio_net'' ''VNET'' 4 pt) (net_new ev vb DEFAULT_MAC)"

text \<open>\<open>ev n\<close> are the events for the device with the handler name \<open>n\<close>.\<close>

definition register_devices ::
  "(string \<Rightarrow> event_site \<Rightarrow> bool) \<Rightarrow> virtio_bits \<Rightarrow> u8 list \<Rightarrow> (unit, u64 \<times> u64) result \<Rightarrow> partition \<Rightarrow>
   (partition_error, partition) result panics" where
  "register_devices ev vb image_id opened pt =
     bind_fallible (Some (setup_ioapic pt)) (\<lambda>pt.
     bind_fallible (Some (setup_pci_ecam pt)) (\<lambda>pt.
     bind_fallible (Some (setup_virtio_block (ev ''virtio_block'') vb image_id opened pt)) (\<lambda>pt.
     bind_fallible (setup_virtio_rng (ev ''virtio_rng'') vb pt) (\<lambda>pt.
     bind_fallible (setup_virtio_console (ev ''virtio_console'') vb pt) (\<lambda>pt.
     setup_virtio_net (ev ''virtio_net'') vb pt)))))"

section \<open>Registering a window\<close>

lemma register_mmio_region_free:
  assumes "checked_add gpa n = Some e"
    and "\<forall>r \<in> set (mm_regions (pt_memory pt)). \<not> (gpa < last_addr r \<and> start_addr r < e)"
    and "\<forall>m \<in> set (mm_mmio_regions (pt_memory pt)). \<not> (gpa < mr_gpa m + mr_size m \<and> mr_gpa m < e)"
  shows "register_mmio_region gpa n name hn pt = Ok (pt\<lparr>pt_memory := register_mmio (pt_memory pt)
    \<lparr>mr_gpa = gpa, mr_size = n, mr_name = name, mr_handler = hn\<rparr>\<rparr>)"
  using assms by (auto simp: register_mmio_region_def)

text \<open>Windows that do not wrap around and do not share an address.\<close>

definition mmio_apart :: "mmio_region \<Rightarrow> mmio_region \<Rightarrow> bool" where
  "mmio_apart m k \<longleftrightarrow> ranges_apart (mr_gpa m) (mr_size m) (mr_gpa k) (mr_size k)"

definition mmio_wf :: "mmio_region list \<Rightarrow> bool" where
  "mmio_wf ms \<longleftrightarrow>
     (\<forall>m \<in> set ms. unat (mr_gpa m) + unat (mr_size m) < 2 ^ 64) \<and> sorted_wrt mmio_apart ms"

lemma register_mmio_region_Ok:
  assumes "register_mmio_region gpa n name hn pt = Ok pt'" "mmio_wf (mm_mmio_regions (pt_memory pt))"
  shows "mmio_wf (mm_mmio_regions (pt_memory pt'))" "mm_regions (pt_memory pt') = mm_regions (pt_memory pt)"
    "\<forall>r \<in> set (mm_regions (pt_memory pt)). region_wf r \<longrightarrow>
       unat gpa + unat n \<le> unat (rg_gpa r) \<or> unat (rg_gpa r) + unat (rg_size r) \<le> unat gpa + 1"
proof -
  let ?new = "\<lparr>mr_gpa = gpa, mr_size = n, mr_name = name, mr_handler = hn\<rparr>"
  obtain e where e: "checked_add gpa n = Some e"
    and ram: "\<forall>r \<in> set (mm_regions (pt_memory pt)). \<not> (gpa < last_addr r \<and> start_addr r < e)"
    and mmio: "\<forall>m \<in> set (mm_mmio_regions (pt_memory pt)). \<not> (gpa < mr_gpa m + mr_size m \<and> mr_gpa m < e)"
    and pt': "pt' = pt\<lparr>pt_memory := register_mmio (pt_memory pt) ?new\<rparr>"
    using assms(1) by (auto simp: register_mmio_region_def split: option.splits if_splits)
  have ue: "unat e = unat gpa + unat n" "unat gpa + unat n < 2 ^ 64"
    using e by (auto simp: checked_add_def unat_word_ariths split: if_splits)
  show "mm_regions (pt_memory pt') = mm_regions (pt_memory pt)" by (simp add: pt' register_mmio_def)
  have "mmio_apart m ?new" if "m \<in> set (mm_mmio_regions (pt_memory pt))" for m
  proof -
    have "unat (mr_gpa m + mr_size m) = unat (mr_gpa m) + unat (mr_size m)"
      using assms(2) that by (auto simp: mmio_wf_def unat_word_ariths)
    then show ?thesis using mmio that ue
      by (auto simp: mmio_apart_def ranges_apart_def word_less_nat_alt not_less)
  qed
  then show "mmio_wf (mm_mmio_regions (pt_memory pt'))"
    using assms(2) ue by (auto simp: mmio_wf_def pt' register_mmio_def sorted_wrt_append)
  show "\<forall>r \<in> set (mm_regions (pt_memory pt)). region_wf r \<longrightarrow>
      unat gpa + unat n \<le> unat (rg_gpa r) \<or> unat (rg_gpa r) + unat (rg_size r) \<le> unat gpa + 1"
  proof (intro ballI impI)
    fix r
    assume r: "r \<in> set (mm_regions (pt_memory pt))" "region_wf r"
    have "unat (last_addr r) = unat (rg_gpa r) + unat (rg_size r) - 1" by (rule unat_last_addr [OF r(2)])
    then show "unat gpa + unat n \<le> unat (rg_gpa r) \<or> unat (rg_gpa r) + unat (rg_size r) \<le> unat gpa + 1"
      using ram r(1) ue by (auto simp: start_addr_def word_less_nat_alt not_less)
  qed
qed

section \<open>Guest memory\<close>

text \<open>The regions of a guest with \<open>t\<close> bytes of memory, backed by the host's block at \<open>p\<close>.\<close>

definition ram_regions :: "u64 \<Rightarrow> u64 \<Rightarrow> memory_region list" where
  "ram_regions p t =
     (if t \<le> MEM_32BIT_RESERVED_START then [memory_region_new 0 t PERM_RWX (Some p)]
      else [memory_region_new 0 MEM_32BIT_DEVICES_START PERM_RWX (Some p),
            memory_region_new RAM_64BIT_START (t - MEM_32BIT_DEVICES_START) PERM_RWX
              (Some (p + MEM_32BIT_DEVICES_START))])"

lemma allocate_regions:
  assumes "mm_regions (pt_memory pt) = []"
  shows "\<exists>pt'. allocate_memory_with_size (Some p) True True t pt = (pt', Ok ()) \<and>
    pt_memory pt' = (pt_memory pt)\<lparr>mm_regions := ram_regions p t\<rparr> \<and> pt_device_manager pt' = pt_device_manager pt"
  using assms by (auto simp: allocate_memory_with_size_def ram_regions_def register_region_def Let_def)

lemmas ram_consts = MEM_32BIT_RESERVED_START_def MEM_32BIT_DEVICES_START_def RAM_64BIT_START_def

lemma unat_minus_3g: "MEM_32BIT_RESERVED_START < t \<Longrightarrow> unat (t - 0xc0000000 :: u64) = unat t - 0xc0000000"
  by (simp add: ram_consts word_less_nat_alt unat_sub word_le_nat_alt)

lemma ram_regions_wf:
  assumes "0 < t" "unat p + unat t \<le> 2 ^ 64" "unat t \<le> 2 ^ 62" "mm_regions mm = ram_regions p t"
  shows "mm_wf mm"
proof (cases "t \<le> MEM_32BIT_RESERVED_START")
  case True
  then show ?thesis
    using assms by (simp add: mm_wf_def ram_regions_def region_wf_def memory_region_new_def)
next
  case False
  then have t: "0xfec00000 < unat t" "unat (t - 0xc0000000) = unat t - 0xc0000000"
    using unat_minus_3g [of t] by (simp_all add: ram_consts word_less_nat_alt not_le)
  have p: "unat (p + 0xc0000000) = unat p + 0xc0000000"
    using assms(2) t(1) by (simp add: unat_word_ariths)
  have "0 < t - 0xc0000000" using t by (simp add: word_less_nat_alt)
  then show ?thesis
    using assms False t p
    by (simp add: mm_wf_def ram_regions_def region_wf_def memory_region_new_def regions_apart_def
        ranges_apart_def ram_consts)
qed

lemma ram_regions_backed:
  assumes "0 < t" "unat p + unat t \<le> 2 ^ 64" "unat t \<le> 2 ^ 62" "r \<in> set (ram_regions p t)"
  shows "\<exists>q. rg_hpa r = Some q \<and> unat p \<le> unat q \<and> unat q + unat (rg_size r) \<le> unat p + unat t \<and> rg_perms r = PERM_RWX"
proof (cases "t \<le> MEM_32BIT_RESERVED_START")
  case True
  then show ?thesis using assms by (simp add: ram_regions_def memory_region_new_def)
next
  case False
  then have t: "0xfec00000 < unat t" "unat (t - 0xc0000000) = unat t - 0xc0000000"
    using unat_minus_3g [of t] by (simp_all add: ram_consts word_less_nat_alt not_le)
  have "unat (p + 0xc0000000) = unat p + 0xc0000000" using assms(2) t(1) by (simp add: unat_word_ariths)
  then show ?thesis using assms(4) False t by (auto simp: ram_regions_def memory_region_new_def ram_consts)
qed

definition is_ram :: "u64 \<Rightarrow> guest_address \<Rightarrow> bool" where
  "is_ram t a \<longleftrightarrow>
     (if unat t \<le> 0xfec00000 then unat a < unat t
      else unat a < 0xc0000000 \<or> (0x100000000 \<le> unat a \<and> unat a < 0x100000000 + (unat t - 0xc0000000)))"

lemma address_in_range_iff:
  assumes "mm_wf mm"
  shows "address_in_range mm a \<longleftrightarrow> (\<exists>r \<in> set (mm_regions mm). in_region r a)"
proof
  assume "address_in_range mm a"
  then obtain r where "find_region mm a = Some r" by (auto simp: address_in_range_def)
  from find_regionD [OF this] show "\<exists>r \<in> set (mm_regions mm). in_region r a" by blast
next
  assume "\<exists>r \<in> set (mm_regions mm). in_region r a"
  then show "address_in_range mm a" using find_region_eq [OF assms] by (auto simp: address_in_range_def)
qed

lemma ram_regions_range:
  assumes "0 < t" "unat p + unat t \<le> 2 ^ 64" "unat t \<le> 2 ^ 62" "mm_regions mm = ram_regions p t"
  shows "address_in_range mm a \<longleftrightarrow> is_ram t a"
proof -
  have wf: "mm_wf mm" by (rule ram_regions_wf [OF assms])
  have i: "in_region r a \<longleftrightarrow> unat (rg_gpa r) \<le> unat a \<and> unat a < unat (rg_gpa r) + unat (rg_size r)"
    if "r \<in> set (ram_regions p t)" for r
    using in_region_iff [OF mm_wf_region [OF wf], of r a] that assms(4) by simp
  show ?thesis
  proof (cases "t \<le> MEM_32BIT_RESERVED_START")
    case True
    then show ?thesis
      using i unfolding address_in_range_iff [OF wf] assms(4)
      by (simp add: is_ram_def ram_regions_def memory_region_new_def ram_consts word_le_nat_alt)
  next
    case False
    then show ?thesis
      using i unat_minus_3g [of t] unfolding address_in_range_iff [OF wf] assms(4)
      by (simp add: is_ram_def ram_regions_def memory_region_new_def ram_consts word_le_nat_alt word_less_nat_alt)
  qed
qed

section \<open>All devices\<close>

text \<open>The windows and handlers after registration, in the order of \<^verbatim>\<open>register_devices\<close>.\<close>

definition device_mmio :: "mmio_region list" where
  "device_mmio =
     [\<lparr>mr_gpa = 0xfec00000, mr_size = 0x1000, mr_name = ''IOAPIC'', mr_handler = Some ''ioapic''\<rparr>,
      \<lparr>mr_gpa = 0xe8000000, mr_size = 0x10000000, mr_name = ''PCI ECAM'', mr_handler = Some ''pci_ecam''\<rparr>,
      \<lparr>mr_gpa = 0xfeb00000, mr_size = 0x1000, mr_name = ''Virtio Block Device'', mr_handler = Some ''virtio_block''\<rparr>,
      \<lparr>mr_gpa = 0xfeb01000, mr_size = 0x1000, mr_name = ''Virtio RNG Device'', mr_handler = Some ''virtio_rng''\<rparr>,
      \<lparr>mr_gpa = 0xfeb02000, mr_size = 0x1000, mr_name = ''Virtio Console Device'', mr_handler = Some ''virtio_console''\<rparr>,
      \<lparr>mr_gpa = 0xfeb03000, mr_size = 0x1000, mr_name = ''Virtio Net Device'', mr_handler = Some ''virtio_net''\<rparr>]"

text \<open>Memory that leaves the windows free, up to the byte the check ignores.\<close>

definition windows_free :: "memory_region list \<Rightarrow> bool" where
  "windows_free rs \<longleftrightarrow>
     (\<forall>r \<in> set rs. \<forall>m \<in> set device_mmio. \<not> (mr_gpa m < last_addr r \<and> start_addr r < mr_gpa m + mr_size m))"

lemmas window_consts = IOAPIC_START_def IOAPIC_SIZE_def PCI_MMCONFIG_START_def PCI_MMCONFIG_SIZE_def
  VIRTIO_MMIO_START_def VIRTIO_MMIO_SIZE_PER_DEVICE_def

lemma register_window:
  assumes "windows_free (mm_regions (pt_memory pt))" "mm_mmio_regions (pt_memory pt) = take i device_mmio" "i < 6"
  shows "register_mmio_region (mr_gpa (device_mmio ! i)) (mr_size (device_mmio ! i)) (mr_name (device_mmio ! i))
      (mr_handler (device_mmio ! i)) pt =
    Ok (pt\<lparr>pt_memory := (pt_memory pt)\<lparr>mm_mmio_regions := take (Suc i) device_mmio\<rparr>\<rparr>)"
proof -
  let ?m = "device_mmio ! i"
  have len: "length device_mmio = 6" by (simp add: device_mmio_def)
  have "\<forall>m \<in> set device_mmio. checked_add (mr_gpa m) (mr_size m) = Some (mr_gpa m + mr_size m)"
    by (simp add: device_mmio_def checked_add_def)
  then have ce: "checked_add (mr_gpa ?m) (mr_size ?m) = Some (mr_gpa ?m + mr_size ?m)"
    using assms(3) len nth_mem by metis
  have "sorted_wrt (\<lambda>k m. \<not> (mr_gpa m < mr_gpa k + mr_size k \<and> mr_gpa k < mr_gpa m + mr_size m)) device_mmio"
    by (simp add: device_mmio_def)
  from sorted_wrt_nth_less [OF this]
  have mm: "\<forall>k \<in> set (take i device_mmio). \<not> (mr_gpa ?m < mr_gpa k + mr_size k \<and> mr_gpa k < mr_gpa ?m + mr_size ?m)"
    using assms(3) len by (auto simp: in_set_conv_nth)
  have ram: "\<forall>r \<in> set (mm_regions (pt_memory pt)). \<not> (mr_gpa ?m < last_addr r \<and> start_addr r < mr_gpa ?m + mr_size ?m)"
    using assms(1,3) len by (simp add: windows_free_def)
  have t: "take (Suc i) device_mmio = take i device_mmio @ [?m]"
    using assms(3) len by (simp add: take_Suc_conv_app_nth)
  show ?thesis
    using register_mmio_region_free [OF ce ram, of "mr_name ?m" "mr_handler ?m"] mm assms(2) t
    by (simp add: register_mmio_def)
qed

definition device_stage :: "nat \<Rightarrow> partition \<Rightarrow> bool" where
  "device_stage i pt \<longleftrightarrow> windows_free (mm_regions (pt_memory pt)) \<and>
     mm_mmio_regions (pt_memory pt) = take i device_mmio \<and> pt_irqchip pt = ChipIoApic ioapic_new"

text \<open>The handler a name stands for: a controller, the stub, or the transport of a virtio device.\<close>

definition virtio_names :: "string list" where
  "virtio_names = [''virtio_block'', ''virtio_rng'', ''virtio_console'', ''virtio_net'']"

fun handler_ok :: "string \<Rightarrow> mmio_handler \<Rightarrow> bool" where
  "handler_ok n HandlerIoApic \<longleftrightarrow> n = ''ioapic''"
| "handler_ok n HandlerPciEcam \<longleftrightarrow> n = ''pci_ecam''"
| "handler_ok n (HandlerVirtio t) \<longleftrightarrow>
     n \<in> set virtio_names \<and> transport_ok t \<and> length (config_bytes (mt_device t)) < 2 ^ 63"

definition handlers_ok :: "(string \<rightharpoonup> mmio_handler) \<Rightarrow> bool" where
  "handlers_ok hs \<longleftrightarrow> (\<forall>m \<in> set device_mmio. \<exists>n hd. mr_handler m = Some n \<and> hs n = Some hd \<and> handler_ok n hd)"

lemma fresh_transport_ok:
  assumes "acked_features d = 0" "\<not> is_activated d" "worker_queues d = None"
  shows "transport_ok (set_irq_line irq (fresh_transport mem d))"
    "mt_device (set_irq_line irq (fresh_transport mem d)) = d"
proof -
  have "mmio_transport_new (\<lambda>_. True) mem d = Ok (fresh_transport mem d)"
    by (simp add: mmio_transport_new_Ok transport_events_def)
  then show "transport_ok (set_irq_line irq (fresh_transport mem d))"
    by (intro transport_reach_ok transport_reach.irq_line transport_reach.new [OF assms])
  show "mt_device (set_irq_line irq (fresh_transport mem d)) = d"
    by (simp add: set_irq_line_def fresh_transport_def)
qed

lemma setup_window:
  assumes "device_stage i pt" "i < 6" "device_mmio ! i = \<lparr>mr_gpa = g, mr_size = n, mr_name = nm, mr_handler = hn\<rparr>"
  shows "\<exists>pt'. register_mmio_region g n nm hn pt = Ok pt' \<and> device_stage (Suc i) pt' \<and>
    pt_mmio_handlers pt' = pt_mmio_handlers pt"
  using register_window [of pt i] assms by (simp add: device_stage_def)

text \<open>The events a device with \<open>k\<close> queues needs, and those of all devices.\<close>

definition dev_events :: "(event_site \<Rightarrow> bool) \<Rightarrow> nat \<Rightarrow> bool" where
  "dev_events ev k \<longleftrightarrow> ev StopEvent \<and> (\<forall>i < k. ev (QueueEvent i)) \<and> ev InterruptEvent"

definition device_events_ok :: "(string \<Rightarrow> event_site \<Rightarrow> bool) \<Rightarrow> bool" where
  "device_events_ok ev \<longleftrightarrow> dev_events (ev ''virtio_block'') 1 \<and> dev_events (ev ''virtio_rng'') 1 \<and>
     dev_events (ev ''virtio_console'') 2 \<and> dev_events (ev ''virtio_net'') 2"

lemma transport_events_dev:
  "ev StopEvent \<Longrightarrow> transport_events ev d \<longleftrightarrow> dev_events ev (length (queue_config d))"
  by (simp add: transport_events_def dev_events_def)

text \<open>A device that was registered: its window and handler are in place.\<close>

definition stage_done :: "nat \<Rightarrow> string \<Rightarrow> partition \<Rightarrow> partition \<Rightarrow> virtio_device \<Rightarrow> bool" where
  "stage_done i hn pt pt' d \<longleftrightarrow> device_stage (Suc i) pt' \<and>
     (\<exists>tr. pt_mmio_handlers pt' = (pt_mmio_handlers pt)(hn \<mapsto> HandlerVirtio tr) \<and> transport_ok tr \<and> mt_device tr = d)"

lemma setup_virtio_stage:
  assumes "device_stage i pt" "i < 6"
    and "device_mmio ! i = \<lparr>mr_gpa = base, mr_size = 0x1000, mr_name = nm, mr_handler = Some hn\<rparr>"
    and "acked_features device = 0" "\<not> is_activated device" "worker_queues device = None"
  shows "if transport_events ev device
    then \<exists>pt'. setup_virtio ev device irq base nm hn an uid pt = Ok pt' \<and> stage_done i hn pt pt' device
    else setup_virtio ev device irq base nm hn an uid pt = Err DeviceError"
  using setup_window [OF assms(1-3)] fresh_transport_ok [OF assms(4-6), of irq "pt_memory pt"]
  by (auto simp: setup_virtio_def mmio_transport_new_cases register_mmio_handler_def Let_def window_consts
      device_stage_def stage_done_def)

lemma fresh_devices:
  "acked_features (DevRng (fresh_rng vb)) = 0" "\<not> is_activated (DevRng (fresh_rng vb))" "worker_queues (DevRng (fresh_rng vb)) = None"
  "acked_features (DevConsole (fresh_console vb c r)) = 0" "\<not> is_activated (DevConsole (fresh_console vb c r))"
  "worker_queues (DevConsole (fresh_console vb c r)) = None"
  "acked_features (DevNet (fresh_net vb a)) = 0" "\<not> is_activated (DevNet (fresh_net vb a))" "worker_queues (DevNet (fresh_net vb a)) = None"
  by (simp_all add: fresh_rng_def fresh_console_def fresh_net_def)

lemma config_small:
  "length (config_bytes (DevBlock b)) < 2 ^ 63" "length (config_bytes (DevRng r)) < 2 ^ 63"
  "length (config_bytes (DevConsole c)) < 2 ^ 63" "length (config_bytes (DevNet (fresh_net vb DEFAULT_MAC))) < 2 ^ 63"
  by (simp_all add: blk_config_bytes_def console_config_bytes_def net_config_bytes_def fresh_net_def DEFAULT_MAC_def)

lemma setup_windows:
  assumes "windows_free (mm_regions (pt_memory pt))" "mm_mmio_regions (pt_memory pt) = []"
  obtains p1 p2 where "setup_ioapic pt = Ok p1" "setup_pci_ecam p1 = Ok p2" "device_stage 2 p2"
    "pt_mmio_handlers p2 = (pt_mmio_handlers pt)(''ioapic'' \<mapsto> HandlerIoApic, ''pci_ecam'' \<mapsto> HandlerPciEcam)"
proof -
  have "device_stage 0 (pt\<lparr>pt_irqchip := ChipIoApic ioapic_new\<rparr>)" using assms by (simp add: device_stage_def)
  then obtain p1 where p1: "setup_ioapic pt = Ok p1" "device_stage 1 p1"
    "pt_mmio_handlers p1 = (pt_mmio_handlers pt)(''ioapic'' \<mapsto> HandlerIoApic)"
    using setup_window [of 0 "pt\<lparr>pt_irqchip := ChipIoApic ioapic_new\<rparr>"]
    by (auto simp: setup_ioapic_def device_mmio_def window_consts register_mmio_handler_def device_stage_def)
  then obtain p2 where p2: "setup_pci_ecam p1 = Ok p2" "device_stage 2 p2"
    "pt_mmio_handlers p2 = (pt_mmio_handlers p1)(''pci_ecam'' \<mapsto> HandlerPciEcam)"
    using setup_window [of 1 p1]
    by (auto simp: setup_pci_ecam_def device_mmio_def window_consts register_mmio_handler_def device_stage_def
        numeral_2_eq_2)
  then show thesis using that p1 by simp
qed

text \<open>Each device: registered when its events can be created, otherwise a panic or an error.\<close>

lemma setup_block_stage:
  assumes "device_stage 2 pt"
  shows "if dev_events ev 1
    then \<exists>pt' b. setup_virtio_block ev vb image_id (Ok sz) pt = Ok pt' \<and> stage_done 2 ''virtio_block'' pt pt' (DevBlock b)
    else setup_virtio_block ev vb image_id (Ok sz) pt = Err DeviceError"
proof (cases "ev StopEvent")
  case True
  then obtain b where b: "block_new ev vb ''vda1'' None Writeback image_id (Ok sz :: (unit, u64 \<times> u64) result) False SyncFull = Ok b"
    "acked_features (DevBlock b) = 0" "\<not> is_activated (DevBlock b)" "worker_queues (DevBlock b) = None"
    by (cases sz) (simp add: block_new_def Let_def)
  have "transport_events ev (DevBlock b) \<longleftrightarrow> dev_events ev 1"
    using transport_events_dev [of ev "DevBlock b"] True by (simp add: BLOCK_QUEUE_CONFIG_def)
  then show ?thesis
    using setup_virtio_stage [OF assms _ _ b(2-4), of "0xfeb00000" "''Virtio Block Device''" "''virtio_block''" ev
        VIRTIO_BLOCK_IRQ "''VBLK''" 1] b(1)
    by (auto simp: setup_virtio_block_def window_consts device_mmio_def split: if_splits)
next
  case False
  then show ?thesis by (cases sz) (simp add: dev_events_def setup_virtio_block_def block_new_def)
qed

lemma setup_rng_stage:
  assumes "device_stage 3 pt"
  shows "if dev_events ev 1
    then \<exists>pt'. setup_virtio_rng ev vb pt = Some (Ok pt') \<and> stage_done 3 ''virtio_rng'' pt pt' (DevRng (fresh_rng vb))
    else setup_virtio_rng ev vb pt = None \<or> setup_virtio_rng ev vb pt = Some (Err DeviceError)"
  using setup_virtio_stage [OF assms _ _ fresh_devices(1-3), of "0xfeb01000" "''Virtio RNG Device''" "''virtio_rng''" ev vb]
    transport_events_dev [of ev "DevRng (fresh_rng vb)"]
  by (auto simp: setup_virtio_rng_def rng_new_def window_consts device_mmio_def RNG_QUEUE_CONFIG_def dev_events_def
      split: if_splits)

lemma setup_console_stage:
  assumes "device_stage 4 pt"
  shows "if dev_events ev 2
    then \<exists>pt'. setup_virtio_console ev vb pt = Some (Ok pt') \<and>
      stage_done 4 ''virtio_console'' pt pt' (DevConsole (fresh_console vb 200 200))
    else setup_virtio_console ev vb pt = None \<or> setup_virtio_console ev vb pt = Some (Err DeviceError)"
  using setup_virtio_stage [OF assms _ _ fresh_devices(4-6), of "0xfeb02000" "''Virtio Console Device''" "''virtio_console''" ev vb 200 200]
    transport_events_dev [of ev "DevConsole (fresh_console vb 200 200)"]
  by (auto simp: setup_virtio_console_def console_new_def window_consts device_mmio_def CONSOLE_QUEUE_CONFIG_def dev_events_def
      numeral_2_eq_2 split: if_splits)

lemma setup_net_stage:
  assumes "device_stage 5 pt"
  shows "if dev_events ev 2
    then \<exists>pt'. setup_virtio_net ev vb pt = Some (Ok pt') \<and>
      stage_done 5 ''virtio_net'' pt pt' (DevNet (fresh_net vb DEFAULT_MAC))
    else setup_virtio_net ev vb pt = None \<or> setup_virtio_net ev vb pt = Some (Err DeviceError)"
  using setup_virtio_stage [OF assms _ _ fresh_devices(7-9), of "0xfeb03000" "''Virtio Net Device''" "''virtio_net''" ev vb DEFAULT_MAC]
    transport_events_dev [of ev "DevNet (fresh_net vb DEFAULT_MAC)"]
  by (auto simp: setup_virtio_net_def net_new_def window_consts device_mmio_def NET_QUEUE_CONFIG_def dev_events_def
      numeral_2_eq_2 split: if_splits)

lemma register_devices_ok:
  assumes "windows_free (mm_regions (pt_memory pt))" "mm_mmio_regions (pt_memory pt) = []" "device_events_ok ev"
  shows "\<exists>pt'. register_devices ev vb image_id (Ok sz) pt = Some (Ok pt') \<and> mm_mmio_regions (pt_memory pt') = device_mmio \<and>
    pt_irqchip pt' = ChipIoApic ioapic_new \<and> handlers_ok (pt_mmio_handlers pt')"
proof -
  obtain p1 p2 where p1: "setup_ioapic pt = Ok p1" "setup_pci_ecam p1 = Ok p2" and p2: "device_stage 2 p2"
    "pt_mmio_handlers p2 = (pt_mmio_handlers pt)(''ioapic'' \<mapsto> HandlerIoApic, ''pci_ecam'' \<mapsto> HandlerPciEcam)"
    by (rule setup_windows [OF assms(1,2)])
  note e = assms(3) [unfolded device_events_ok_def]
  obtain p3 b where p3: "setup_virtio_block (ev ''virtio_block'') vb image_id (Ok sz) p2 = Ok p3"
    "stage_done 2 ''virtio_block'' p2 p3 (DevBlock b)"
    using setup_block_stage [OF p2(1), of "ev ''virtio_block''" vb image_id sz] e by auto
  then have s3: "device_stage 3 p3" by (simp add: stage_done_def)
  obtain p4 where p4: "setup_virtio_rng (ev ''virtio_rng'') vb p3 = Some (Ok p4)"
    "stage_done 3 ''virtio_rng'' p3 p4 (DevRng (fresh_rng vb))"
    using setup_rng_stage [OF s3, of "ev ''virtio_rng''" vb] e by auto
  then have s4: "device_stage 4 p4" by (simp add: stage_done_def)
  obtain p5 where p5: "setup_virtio_console (ev ''virtio_console'') vb p4 = Some (Ok p5)"
    "stage_done 4 ''virtio_console'' p4 p5 (DevConsole (fresh_console vb 200 200))"
    using setup_console_stage [OF s4, of "ev ''virtio_console''" vb] e by auto
  then have s5: "device_stage 5 p5" by (simp add: stage_done_def)
  obtain p6 where p6: "setup_virtio_net (ev ''virtio_net'') vb p5 = Some (Ok p6)"
    "stage_done 5 ''virtio_net'' p5 p6 (DevNet (fresh_net vb DEFAULT_MAC))"
    using setup_net_stage [OF s5, of "ev ''virtio_net''" vb] e by auto
  then have s6: "device_stage 6 p6" by (simp add: stage_done_def)
  have "register_devices ev vb image_id (Ok sz) pt = Some (Ok p6)"
    using p1 p3(1) p4(1) p5(1) p6(1) by (simp add: register_devices_def)
  moreover have "mm_mmio_regions (pt_memory p6) = device_mmio" "pt_irqchip p6 = ChipIoApic ioapic_new"
    using s6 by (simp_all add: device_stage_def) (simp add: device_mmio_def)
  moreover have "handlers_ok (pt_mmio_handlers p6)"
    using p3(2) p4(2) p5(2) p6(2) config_small p2(2) unfolding handlers_ok_def stage_done_def
    by (auto simp: device_mmio_def virtio_names_def)
  ultimately show ?thesis by blast
qed

lemma register_devices_no_events:
  assumes "windows_free (mm_regions (pt_memory pt))" "mm_mmio_regions (pt_memory pt) = []" "\<not> device_events_ok ev"
  shows "register_devices ev vb image_id (Ok sz) pt = None \<or>
    register_devices ev vb image_id (Ok sz) pt = Some (Err DeviceError)"
proof -
  obtain p1 p2 where p1: "setup_ioapic pt = Ok p1" "setup_pci_ecam p1 = Ok p2" and p2: "device_stage 2 p2"
    by (rule setup_windows [OF assms(1,2)])
  show ?thesis
  proof (cases "dev_events (ev ''virtio_block'') 1")
    case False
    then show ?thesis
      using setup_block_stage [OF p2, of "ev ''virtio_block''" vb image_id sz] p1 by (simp add: register_devices_def)
  next
    case b: True
    then obtain p3 where p3: "setup_virtio_block (ev ''virtio_block'') vb image_id (Ok sz) p2 = Ok p3" "device_stage 3 p3"
      using setup_block_stage [OF p2, of "ev ''virtio_block''" vb image_id sz] by (auto simp: stage_done_def)
    show ?thesis
    proof (cases "dev_events (ev ''virtio_rng'') 1")
      case False
      then show ?thesis
        using setup_rng_stage [OF p3(2), of "ev ''virtio_rng''" vb] p1 p3(1) by (auto simp: register_devices_def)
    next
      case r: True
      then obtain p4 where p4: "setup_virtio_rng (ev ''virtio_rng'') vb p3 = Some (Ok p4)" "device_stage 4 p4"
        using setup_rng_stage [OF p3(2), of "ev ''virtio_rng''" vb] by (auto simp: stage_done_def)
      show ?thesis
      proof (cases "dev_events (ev ''virtio_console'') 2")
        case False
        then show ?thesis
          using setup_console_stage [OF p4(2), of "ev ''virtio_console''" vb] p1 p3(1) p4(1)
          by (auto simp: register_devices_def)
      next
        case c: True
        then obtain p5 where p5: "setup_virtio_console (ev ''virtio_console'') vb p4 = Some (Ok p5)" "device_stage 5 p5"
          using setup_console_stage [OF p4(2), of "ev ''virtio_console''" vb] by (auto simp: stage_done_def)
        have "\<not> dev_events (ev ''virtio_net'') 2" using assms(3) b r c by (simp add: device_events_ok_def)
        then show ?thesis
          using setup_net_stage [OF p5(2), of "ev ''virtio_net''" vb] p1 p3(1) p4(1) p5(1)
          by (auto simp: register_devices_def)
      qed
    qed
  qed
qed

lemma windows_free_ram:
  assumes "0 < t" "unat t \<le> 2 ^ 62"
  shows "windows_free (ram_regions p t) \<longleftrightarrow> unat t \<le> 0xe8000001 \<or> 0xfec00000 < unat t"
proof (cases "t \<le> MEM_32BIT_RESERVED_START")
  case True
  have u: "unat (t - 1) = unat t - 1" using assms(1) by (simp add: unat_sub word_le_nat_alt word_less_nat_alt Suc_leI)
  have "windows_free (ram_regions p t) \<longleftrightarrow> \<not> 0xe8000000 < t - 1 \<and> \<not> 0xfec00000 < t - 1 \<and>
      \<not> 0xfeb00000 < t - 1 \<and> \<not> 0xfeb01000 < t - 1 \<and> \<not> 0xfeb02000 < t - 1 \<and> \<not> 0xfeb03000 < t - 1"
    using True by (auto simp: windows_free_def ram_regions_def device_mmio_def memory_region_new_def last_addr_def
        start_addr_def unchecked_add_def)
  also have "\<dots> \<longleftrightarrow> unat t \<le> 0xe8000001" unfolding word_less_nat_alt u by auto
  finally show ?thesis using True by (simp add: ram_consts word_le_nat_alt)
next
  case False
  then have "windows_free (ram_regions p t)"
    by (simp add: windows_free_def ram_regions_def device_mmio_def memory_region_new_def last_addr_def
        start_addr_def unchecked_add_def ram_consts)
  then show ?thesis using False by (simp add: ram_consts word_less_nat_alt not_le)
qed

lemma find_mmio_eq:
  assumes "mmio_wf (mm_mmio_regions mm)" "m \<in> set (mm_mmio_regions mm)"
    and "unat (mr_gpa m) \<le> unat a" "unat a < unat (mr_gpa m) + unat (mr_size m)"
  shows "find_mmio mm a = Some m"
  unfolding find_mmio_def
proof (rule find_unique [OF assms(2)])
  have u: "unat (mr_gpa k + mr_size k) = unat (mr_gpa k) + unat (mr_size k)"
    if "k \<in> set (mm_mmio_regions mm)" for k
    using assms(1) that by (auto simp: mmio_wf_def unat_word_ariths)
  show "mr_gpa m \<le> a \<and> a < mr_gpa m + mr_size m"
    using assms(3,4) u [OF assms(2)] by (simp add: word_le_nat_alt word_less_nat_alt)
  fix k
  assume k: "k \<in> set (mm_mmio_regions mm)" "mr_gpa k \<le> a \<and> a < mr_gpa k + mr_size k"
  show "k = m"
  proof (rule ccontr)
    assume "k \<noteq> m"
    moreover have "sorted_wrt mmio_apart (mm_mmio_regions mm)" using assms(1) by (simp add: mmio_wf_def)
    ultimately have "mmio_apart k m"
      using sorted_wrt_pair [of mmio_apart "mm_mmio_regions mm" k m] k(1) assms(2)
      by (auto simp: mmio_apart_def ranges_apart_sym)
    then show False
      using k(2) u [OF k(1)] assms(3,4)
      by (auto simp: mmio_apart_def ranges_apart_def word_le_nat_alt word_less_nat_alt)
  qed
qed

lemma device_mmio_wf: "mmio_wf device_mmio"
  by (simp add: mmio_wf_def device_mmio_def mmio_apart_def ranges_apart_def)

lemma register_devices_not_free:
  assumes "mm_regions (pt_memory pt) = ram_regions p t" "mm_mmio_regions (pt_memory pt) = []"
    and "0 < t" "unat t \<le> 2 ^ 62" and False: "\<not> (unat t \<le> 0xe8000001 \<or> 0xfec00000 < unat t)"
  shows "register_devices ev vb image_id (Ok sz) pt = Some (Err MmioOverlapsMemory)"
proof -
  have u: "unat (t - 1) = unat t - 1" using assms(3) by (simp add: unat_sub word_le_nat_alt word_less_nat_alt Suc_leI)
  have r: "ram_regions p t = [memory_region_new 0 t PERM_RWX (Some p)]"
    using False by (simp add: ram_regions_def ram_consts word_le_nat_alt)
  have l: "\<not> 0xfec00000 < t - 1" "0xe8000000 < t - 1" using False u by (auto simp: word_less_nat_alt)
  obtain p1 where p1: "setup_ioapic pt = Ok p1" "mm_regions (pt_memory p1) = ram_regions p t"
    using l(1) assms(1,2) r
    by (auto simp: setup_ioapic_def register_mmio_region_def checked_add_def window_consts memory_region_new_def
        last_addr_def start_addr_def unchecked_add_def register_mmio_handler_def register_mmio_def)
  have "setup_pci_ecam p1 = Err MmioOverlapsMemory"
    using l(2) p1(2) r
    by (auto simp: setup_pci_ecam_def register_mmio_region_def checked_add_def window_consts memory_region_new_def
        last_addr_def start_addr_def unchecked_add_def)
  then show ?thesis using p1(1) by (simp add: register_devices_def)
qed

text \<open>How many addresses are RAM, and which window may have RAM behind it.\<close>

lemma card_unat_range:
  assumes "a + n \<le> 2 ^ 64"
  shows "card {x :: u64. a \<le> unat x \<and> unat x < a + n} = n"
proof -
  have "{x :: u64. a \<le> unat x \<and> unat x < a + n} = of_nat ` {a..<a + n}"
  proof (intro subset_antisym subsetI)
    fix x :: u64
    assume "x \<in> {x. a \<le> unat x \<and> unat x < a + n}"
    then show "x \<in> of_nat ` {a..<a + n}" by (intro image_eqI [of _ _ "unat x"]) simp_all
  qed (use assms in \<open>auto simp: unat_of_nat_small\<close>)
  moreover have "inj_on (of_nat :: nat \<Rightarrow> u64) {a..<a + n}"
  proof (rule inj_onI)
    fix x y
    assume r: "x \<in> {a..<a + n}" "y \<in> {a..<a + n}" and eq: "of_nat x = (of_nat y :: u64)"
    from r have "unat (of_nat x :: u64) = x" "unat (of_nat y :: u64) = y"
      using assms by (auto simp: unat_of_nat_small)
    then show "x = y" using eq by metis
  qed
  ultimately show ?thesis by (simp add: card_image)
qed

lemma card_is_ram:
  assumes "unat t \<le> 2 ^ 62"
  shows "card {a. is_ram t a} = unat t"
proof (cases "unat t \<le> 0xfec00000")
  case True
  then have "{a. is_ram t a} = {a. 0 \<le> unat a \<and> unat a < 0 + unat t}" by (simp add: is_ram_def)
  then show ?thesis using card_unat_range [of 0 "unat t"] assms by simp
next
  case False
  let ?low = "{a :: u64. 0 \<le> unat a \<and> unat a < 0 + 0xc0000000}"
  let ?high = "{a :: u64. 0x100000000 \<le> unat a \<and> unat a < 0x100000000 + (unat t - 0xc0000000)}"
  have "{a. is_ram t a} = ?low \<union> ?high" using False by (auto simp: is_ram_def)
  moreover have "?low \<inter> ?high = {}" by auto
  moreover have "card ?low = 0xc0000000" "card ?high = unat t - 0xc0000000"
    using card_unat_range [of 0 "0xc0000000"] card_unat_range [of "0x100000000" "unat t - 0xc0000000"] assms by simp_all
  ultimately show ?thesis using False by (simp add: card_Un_disjoint)
qed

lemma ram_behind_windows:
  assumes "unat t \<le> 0xe8000001 \<or> 0xfec00000 < unat t"
  shows "(\<exists>w \<in> set device_mmio. \<exists>a. unat (mr_gpa w) \<le> unat a \<and> unat a < unat (mr_gpa w) + unat (mr_size w) \<and> is_ram t a) \<longleftrightarrow>
    unat t = 0xe8000001"
proof
  assume "unat t = 0xe8000001"
  then have "is_ram t 0xe8000000" by (simp add: is_ram_def)
  then show "\<exists>w \<in> set device_mmio. \<exists>a. unat (mr_gpa w) \<le> unat a \<and> unat a < unat (mr_gpa w) + unat (mr_size w) \<and> is_ram t a"
    by (intro bexI [of _ "device_mmio ! 1"] exI [of _ "0xe8000000"]) (simp_all add: device_mmio_def)
qed (use assms in \<open>auto simp: device_mmio_def is_ram_def\<close>)

section \<open>Properties\<close>

text \<open>
  C34.  Allocating guest memory succeeds for every size the host can provide, and says where RAM is: the
  regions share no guest and no host address and stay inside the host's block, and as many addresses are RAM as
  bytes were asked for.  Memory of more than \<^verbatim>\<open>0xfec00000\<close> bytes leaves the hole from 3 GiB to 4 GiB free
  and goes on above it; smaller memory starts at 0 without a hole, so that a size above 3 GiB reaches into it.
\<close>

theorem memory_allocation_sound:
  assumes "mm_regions (pt_memory pt) = []" "0 < t" "unat p + unat t \<le> 2 ^ 64" "unat t \<le> 2 ^ 62"
  shows "\<exists>pt'. allocate_memory_with_size (Some p) True True t pt = (pt', Ok ()) \<and> mm_wf (pt_memory pt') \<and>
    (\<forall>a. address_in_range (pt_memory pt') a \<longleftrightarrow> is_ram t a) \<and> card {a. is_ram t a} = unat t \<and>
    (\<forall>a. 0xc0000000 \<le> unat a \<and> unat a < 0x100000000 \<longrightarrow>
       (address_in_range (pt_memory pt') a \<longleftrightarrow> unat t \<le> 0xfec00000 \<and> unat a < unat t)) \<and>
    (\<forall>r \<in> set (mm_regions (pt_memory pt')). \<exists>q. rg_hpa r = Some q \<and> unat p \<le> unat q \<and>
       unat q + unat (rg_size r) \<le> unat p + unat t)"
proof -
  obtain pt' where pt': "allocate_memory_with_size (Some p) True True t pt = (pt', Ok ())"
    "pt_memory pt' = (pt_memory pt)\<lparr>mm_regions := ram_regions p t\<rparr>"
    using allocate_regions [OF assms(1)] by blast
  have r: "mm_regions (pt_memory pt') = ram_regions p t" using pt'(2) by simp
  have range: "address_in_range (pt_memory pt') a \<longleftrightarrow> is_ram t a" for a
    by (rule ram_regions_range [OF assms(2-4) r])
  have "\<forall>a. 0xc0000000 \<le> unat a \<and> unat a < 0x100000000 \<longrightarrow>
      (address_in_range (pt_memory pt') a \<longleftrightarrow> unat t \<le> 0xfec00000 \<and> unat a < unat t)"
    unfolding range is_ram_def by auto
  then show ?thesis
    using pt'(1) ram_regions_wf [OF assms(2-4) r] range card_is_ram [OF assms(4)]
      ram_regions_backed [OF assms(2-4)] r by metis
qed

definition demo_partition :: partition where
  "demo_partition = partition_new 0 0 0x140000000"

lemma demo_partition_fields:
  "mm_regions (pt_memory demo_partition) = []" "mm_mmio_regions (pt_memory demo_partition) = []"
  by (simp_all add: demo_partition_def partition_new_def memory_manager_new_def)

theorem memory_allocation_sound_witness:
  "\<exists>pt'. allocate_memory_with_size (Some 0x10000) True True 0x140000000 demo_partition = (pt', Ok ()) \<and>
    address_in_range (pt_memory pt') 0x17fffffff \<and> \<not> address_in_range (pt_memory pt') 0xfeb00000"
proof -
  obtain pt' where "allocate_memory_with_size (Some 0x10000) True True 0x140000000 demo_partition = (pt', Ok ())"
    "\<forall>a. address_in_range (pt_memory pt') a \<longleftrightarrow> is_ram 0x140000000 a"
    using memory_allocation_sound [OF demo_partition_fields(1), of "0x140000000" "0x10000"] by auto
  then show ?thesis by (auto simp: is_ram_def)
qed

text \<open>
  C35.  Registering the devices, once the disk image is open: when guest memory has at most
  \<^verbatim>\<open>0xe8000001\<close> bytes or reaches beyond the 32-bit hole and every event can be created, it succeeds, with every window of the
  address map in place, no two of them overlapping and behind each the handler of its device (transports in their initial
  state).  For a size in between it fails, as memory lies over the windows; without the events it is an error or a panic.
  The bound is one byte too large: with exactly \<^verbatim>\<open>0xe8000001\<close> bytes RAM lies behind the first byte of a window, for the
  other sizes no address is both.
\<close>

theorem register_devices_outcome:
  assumes "mm_regions (pt_memory pt) = ram_regions p t" "mm_mmio_regions (pt_memory pt) = []"
    and "0 < t" "unat t \<le> 2 ^ 62"
  shows "if unat t \<le> 0xe8000001 \<or> 0xfec00000 < unat t
    then
      (if device_events_ok ev
       then \<exists>pt'. register_devices ev vb image_id (Ok sz) pt = Some (Ok pt') \<and>
         mm_mmio_regions (pt_memory pt') = device_mmio \<and> mmio_wf (mm_mmio_regions (pt_memory pt')) \<and>
         handlers_ok (pt_mmio_handlers pt')
       else register_devices ev vb image_id (Ok sz) pt = None \<or>
         register_devices ev vb image_id (Ok sz) pt = Some (Err DeviceError)) \<and>
      ((\<exists>w \<in> set device_mmio. \<exists>a. unat (mr_gpa w) \<le> unat a \<and> unat a < unat (mr_gpa w) + unat (mr_size w) \<and> is_ram t a) \<longleftrightarrow>
         unat t = 0xe8000001)
    else register_devices ev vb image_id (Ok sz) pt = Some (Err MmioOverlapsMemory)"
proof (cases "unat t \<le> 0xe8000001 \<or> 0xfec00000 < unat t")
  case True
  then have free: "windows_free (mm_regions (pt_memory pt))" using windows_free_ram [OF assms(3,4)] assms(1) by simp
  show ?thesis
  proof (cases "device_events_ok ev")
    case ev: True
    obtain pt' where "register_devices ev vb image_id (Ok sz) pt = Some (Ok pt')"
      "mm_mmio_regions (pt_memory pt') = device_mmio" "handlers_ok (pt_mmio_handlers pt')"
      using register_devices_ok [OF free assms(2) ev, of vb image_id sz] by blast
    then show ?thesis
      unfolding if_P [OF True] if_P [OF ev] using ram_behind_windows [OF True] device_mmio_wf by auto
  next
    case False
    show ?thesis
      unfolding if_P [OF True] if_not_P [OF False]
      using register_devices_no_events [OF free assms(2) False, of vb image_id sz] ram_behind_windows [OF True] by blast
  qed
next
  case False
  then show ?thesis using register_devices_not_free [OF assms] by simp
qed

theorem register_devices_outcome_witness:
  "(\<exists>pt'. register_devices (\<lambda>_ _. True) demo_bits [] (Ok (0x40000000, 512))
      (fst (allocate_memory_with_size (Some 0x10000) True True 0x140000000 demo_partition)) = Some (Ok pt')) \<and>
   register_devices (\<lambda>_ _. True) demo_bits [] (Ok (0x40000000, 512))
      (fst (allocate_memory_with_size (Some 0x10000) True True 0xf0000000 demo_partition)) = Some (Err MmioOverlapsMemory)"
proof -
  have a: "mm_regions (pt_memory (fst (allocate_memory_with_size (Some p) True True t demo_partition))) = ram_regions p t"
    "mm_mmio_regions (pt_memory (fst (allocate_memory_with_size (Some p) True True t demo_partition))) = []" for p t
    using allocate_regions [OF demo_partition_fields(1), of p t] demo_partition_fields(2) by auto
  have e: "device_events_ok (\<lambda>_ _. True)" by (simp add: device_events_ok_def dev_events_def)
  show ?thesis
    using register_devices_outcome [OF a [of "0x10000" "0x140000000"], of "\<lambda>_ _. True" demo_bits "[]" "(0x40000000, 512)"]
      register_devices_outcome [OF a [of "0x10000" "0xf0000000"], of "\<lambda>_ _. True" demo_bits "[]" "(0x40000000, 512)"] e by auto
qed

end
