(* ===== verification/Emulator.thy ===== *)
theory Emulator
  imports Partition
begin

text \<open>
  The callbacks of the instruction emulator (\<^verbatim>\<open>src/emulator.rs\<close>): an access of the guest to an I/O
  port, or to a guest address without memory, is taken to the device that owns it.

  The machine is the partition, the counters the source keeps in static variables, and what the
  devices asked of the world outside: interrupt requests and the effects of register writes.  The
  time a device sees is an argument.
\<close>

section \<open>The machine\<close>

record machine =
  m_partition :: partition
  m_rtc_time :: u64
  m_rtc_counter :: u64
  m_internal_counter :: u64
  m_injected :: "interrupt_control list"
  m_effects :: "mmio_effect list"

text \<open>The results the callbacks return to the emulator.\<close>

datatype hresult = S_OK | ERROR_INVALID_PARAMETER | ERROR_NOT_FOUND

datatype direction = DirRead | DirWrite | DirOther

section \<open>I/O ports\<close>

text \<open>\<^verbatim>\<open>OUT\<close>: the address register of the PCI configuration space, otherwise the port bus.\<close>

definition io_out :: "u16 \<Rightarrow> u16 \<Rightarrow> u32 \<Rightarrow> machine \<Rightarrow> machine" where
  "io_out port access_size data m =
     (let pt = m_partition m; dm = pt_device_manager pt
      in if port = 0xCF8 then m\<lparr>m_partition := pt\<lparr>pt_pci_address_config := data\<rparr>\<rparr>
         else
           let bytes = take (min (unat access_size) 4) (to_le 4 data);
               io_bus = fst (bus_write (\<lambda>d offset bs. d) (dm_io_bus dm) (ucast port) bytes)
           in m\<lparr>m_partition := pt\<lparr>pt_device_manager := dm\<lparr>dm_io_bus := io_bus\<rparr>\<rparr>\<rparr>)"

text \<open>
  \<^verbatim>\<open>IN\<close>: a few fixed ports, otherwise the port bus.  Port 43 is decimal in the source, next to
  the ports \<^verbatim>\<open>0x40\<close> and \<^verbatim>\<open>0x43\<close> of the timer.
\<close>

definition io_in :: "nat \<Rightarrow> u16 \<Rightarrow> u16 \<Rightarrow> machine \<Rightarrow> machine \<times> u32" where
  "io_in now port access_size m =
     (if port = 43 then (m, 99)
      else if port = 0x40 \<or> port = 0x43 then
        let counter = m_rtc_counter m + 1;
            time = (if counter mod 100 = 0 then m_rtc_time m + 1 else m_rtc_time m)
        in (m\<lparr>m_rtc_counter := counter, m_rtc_time := time\<rparr>, ucast time)
      else if port = 0x61 then
        let counter = m_internal_counter m + 1;
            bit4 = push_bit 4 (drop_bit 7 counter AND 1);
            bit5 = push_bit 5 (drop_bit 6 counter AND 1)
        in (m\<lparr>m_internal_counter := counter\<rparr>, ucast (bit4 OR bit5))
      else if port = 0x70 \<or> port = 0x71 then (m, 0)
      else if port = 0xCF8 then (m, pt_pci_address_config (m_partition m))
      else if port = 0xCFC then (m, 0xFFFFFFFF)
      else
        let n = min (unat access_size) 4;
            (data, found) = bus_read (\<lambda>d offset bs. pm_timer_read now d bs)
              (dm_io_bus (pt_device_manager (m_partition m))) (ucast port) (replicate n 0)
        in (m, if found then from_le (data @ replicate (4 - n) 0) else 0))"

definition io_port_callback ::
  "nat \<Rightarrow> u16 \<Rightarrow> bool \<Rightarrow> u16 \<Rightarrow> u32 \<Rightarrow> machine \<Rightarrow> machine \<times> u32 \<times> hresult" where
  "io_port_callback now port is_out access_size data m =
     (if is_out then (io_out port access_size data m, data, S_OK)
      else case io_in now port access_size m of (m', v) \<Rightarrow> (m', v, S_OK))"

section \<open>Memory-mapped devices\<close>

text \<open>The handlers behind the windows, as \<^verbatim>\<open>BusDevice\<close>.\<close>

fun handler_read :: "irqchip_device \<Rightarrow> mmio_handler \<Rightarrow> u64 \<Rightarrow> u8 list \<Rightarrow> u8 list panics" where
  "handler_read chip HandlerIoApic offset data = Some (irqchip_read chip offset data)"
| "handler_read chip HandlerPciEcam offset data = Some (replicate (length data) 0xFF)"
| "handler_read chip (HandlerVirtio t) offset data = mmio_read t offset data"

fun handler_write ::
  "mmio_env \<Rightarrow> u64 \<Rightarrow> u8 list \<Rightarrow> mmio_handler \<Rightarrow> irqchip_device \<Rightarrow>
   (mmio_handler \<times> irqchip_device \<times> interrupt_control list \<times> mmio_effect list) panics" where
  "handler_write env offset data HandlerIoApic chip =
     (case irqchip_write (env_whv env) offset data chip of (chip', out) \<Rightarrow> Some (HandlerIoApic, chip', out, []))"
| "handler_write env offset data HandlerPciEcam chip = Some (HandlerPciEcam, chip, [], [])"
| "handler_write env offset data (HandlerVirtio t) chip =
     (case mmio_write env offset data t chip of
        None \<Rightarrow> None
      | Some (t', chip', effs) \<Rightarrow> Some (HandlerVirtio t', chip', [], effs))"

definition memory_callback ::
  "mmio_env \<Rightarrow> guest_address \<Rightarrow> direction \<Rightarrow> u8 \<Rightarrow> u8 list \<Rightarrow> machine \<Rightarrow> (machine \<times> u8 list \<times> hresult) panics" where
  "memory_callback env gpa dir access_size data m =
     (let pt = m_partition m
      in case find_mmio (pt_memory pt) gpa of
           None \<Rightarrow> Some (m, data, ERROR_NOT_FOUND)
         | Some mmio_region \<Rightarrow>
             let offset = gpa - mr_gpa mmio_region; n = unat access_size
             in case mr_handler mmio_region of
                  None \<Rightarrow> Some (m, data, ERROR_NOT_FOUND)
                | Some handler_name \<Rightarrow>
                    (case pt_mmio_handlers pt handler_name of
                       None \<Rightarrow> Some (m, data, ERROR_NOT_FOUND)
                     | Some handler \<Rightarrow>
                         (case dir of
                            DirRead \<Rightarrow>
                              if length data < n then None
                              else (case handler_read (pt_irqchip pt) handler offset (take n data) of
                                      None \<Rightarrow> None
                                    | Some bs \<Rightarrow> Some (m, bs @ drop n data, S_OK))
                          | DirWrite \<Rightarrow>
                              if length data < n then None
                              else (case handler_write env offset (take n data) handler (pt_irqchip pt) of
                                      None \<Rightarrow> None
                                    | Some (handler', chip', out, effs) \<Rightarrow>
                                        Some (m\<lparr>m_partition := pt\<lparr>pt_mmio_handlers :=
                                                    (pt_mmio_handlers pt)(handler_name \<mapsto> handler'),
                                                  pt_irqchip := chip'\<rparr>,
                                                m_injected := m_injected m @ out,
                                                m_effects := m_effects m @ effs\<rparr>, data, S_OK))
                          | DirOther \<Rightarrow> Some (m, data, ERROR_INVALID_PARAMETER))))"

end
