(* ===== verification/Vm.thy ===== *)
theory Vm
  imports Emulator
begin

text \<open>
  Handling the exits of the virtual processor (\<^verbatim>\<open>src/vm.rs\<close>).  The exit context is a union tagged
  by the exit reason; it is the datatype \<open>vp_exit\<close>.  Registers are set by lists of names and
  values; whether the hypervisor accepts them is an argument.  The instruction emulator is code of
  the host: it is an argument that, given the replies to its accesses so far, makes the next
  access or ends with a status.
\<close>

section \<open>Exits\<close>

record cpuid_access =
  ca_rax :: u64
  ca_default_rax :: u64
  ca_default_rbx :: u64
  ca_default_rcx :: u64
  ca_default_rdx :: u64

record msr_access =
  ma_number :: u32
  ma_info :: u32
  ma_rax :: u64
  ma_rdx :: u64

datatype vp_exit =
    ExitNone
  | ExitMemoryAccess u64 u32
  | ExitIoPortAccess
  | ExitException
  | ExitUnrecoverableException
  | ExitInvalidVpRegisterValue
  | ExitUnsupportedFeature
  | ExitInterruptWindow
  | ExitHalt
  | ExitCanceled
  | ExitApicEoi u32
  | ExitCpuid cpuid_access
  | ExitMsrAccess msr_access
  | ExitOther u32

record vp_context =
  vc_rip :: u64
  vc_bitfield :: u8

record memory_access_violation =
  mv_gpa :: guest_address
  mv_action :: memory_perms
  mv_access_size :: u32
  mv_instruction_rip :: u64

definition from_exit_context :: "vp_context \<Rightarrow> vp_exit \<Rightarrow> memory_access_violation option" where
  "from_exit_context ctx e =
     (case e of
        ExitMemoryAccess gpa access_info \<Rightarrow>
          let is_write = access_info AND 1 \<noteq> 0; is_execute = access_info AND 2 \<noteq> 0;
              action = (case (is_write, is_execute) of
                  (False, False) \<Rightarrow> PERM_READ
                | (True, False) \<Rightarrow> PERM_WRITE
                | (False, True) \<Rightarrow> PERM_EXECUTE
                | (True, True) \<Rightarrow> PERM_WRITE OR PERM_EXECUTE)
          in Some \<lparr>mv_gpa = gpa, mv_action = action, mv_access_size = drop_bit 2 access_info AND 7,
                   mv_instruction_rip = vc_rip ctx\<rparr>
      | _ \<Rightarrow> None)"

datatype register = Rax | Rbx | Rcx | Rdx | Rip

text \<open>The machine with its memory, the registers the host set, and the static variables of the file.\<close>

record vm_state =
  vs_machine :: machine
  vs_heap :: heap
  vs_registers :: "(register \<times> u64) list"
  vs_last_interrupt_time :: u64
  vs_start_time :: "nat option"
  vs_tsc_invariant_control :: u64

datatype vm_error = RegisterError | EmulationError | VmMemoryError mem_error | NoViolation

text \<open>The part of the host a run depends on.\<close>

datatype emulator_request = EmuMemory guest_address direction u8 "u8 list" | EmuIo u16 bool u16 u32
datatype emulator_reply = ReplyMemory "u8 list" hresult | ReplyIo u32 hresult

record host =
  ho_env :: mmio_env
  ho_now :: nat
  ho_millis :: u64
  ho_registers_ok :: bool
  ho_emulator :: "vp_exit \<Rightarrow> emulator_reply list \<Rightarrow> emulator_request + u32 option"
  ho_cpuid15 :: "u32 \<times> u32 \<times> u32"
  ho_cpuid16 :: u32

section \<open>Emulation\<close>

text \<open>
  A run of the emulator: it makes accesses until it ends, with a status or with a failure of the
  call.  Outer \<open>None\<close>: out of fuel, inner \<open>None\<close>: a panic.
\<close>

fun run_emulator ::
  "nat \<Rightarrow> host \<Rightarrow> (emulator_reply list \<Rightarrow> emulator_request + u32 option) \<Rightarrow> emulator_reply list \<Rightarrow>
   machine \<Rightarrow> (machine \<times> u32 option) panics option" where
  "run_emulator 0 ho emu replies m = None"
| "run_emulator (Suc fuel) ho emu replies m =
     (case emu replies of
        Inr status \<Rightarrow> Some (Some (m, status))
      | Inl (EmuMemory gpa dir n data) \<Rightarrow>
          (case memory_callback (ho_env ho) gpa dir n data m of
             None \<Rightarrow> Some None
           | Some (m', data', hr) \<Rightarrow> run_emulator fuel ho emu (replies @ [ReplyMemory data' hr]) m')
      | Inl (EmuIo port is_out n data) \<Rightarrow>
          (case io_port_callback (ho_now ho) port is_out n data m of
             (m', data', hr) \<Rightarrow> run_emulator fuel ho emu (replies @ [ReplyIo data' hr]) m'))"

section \<open>The handlers\<close>

definition handle_interrupt_window :: "host \<Rightarrow> vm_state \<Rightarrow> vm_state \<times> bool" where
  "handle_interrupt_window ho s =
     (let now = ho_millis ho; last_time = vs_last_interrupt_time s
      in if 1 \<le> saturating_sub now last_time \<or> last_time = 0 then
           (s\<lparr>vs_last_interrupt_time := now,
              vs_machine := (vs_machine s)\<lparr>m_injected := m_injected (vs_machine s) @
                [\<lparr>ic_bitfield = scast (whv_fixed (env_whv (ho_env ho))), ic_destination = 0, ic_vector = 0x20\<rparr>]\<rparr>\<rparr>, True)
         else (s, True))"

definition le_word :: "string \<Rightarrow> u64" where
  "le_word s = ucast (from_le (map of_char s) :: u32)"

definition cpuid_leaf :: "cpuid_access \<Rightarrow> u64 \<times> u64 \<times> u64 \<times> u64" where
  "cpuid_leaf a =
     (let leaf = ca_rax a
      in if leaf = 0x40000000 then (0x40000005, le_word ''Micr'', le_word ''osof'', le_word ''t Hv'')
         else if leaf = 0x40000001 then (le_word ''Hv#1'', 0, 0, 0)
         else if leaf = 0x40000002 then (0, push_bit 16 10, 0, 0)
         else if leaf = 0x40000003 then (push_bit 1 1 OR push_bit 9 1 OR push_bit 15 1, 0, 0, 0)
         else if leaf = 0x40000004 \<or> leaf = 0x40000005 then (0, 0, 0, 0)
         else (ca_default_rax a, ca_default_rbx a, ca_default_rcx a, ca_default_rdx a))"

definition next_rip :: "vp_context \<Rightarrow> u64" where
  "next_rip ctx = vc_rip ctx + ucast (vc_bitfield ctx AND 0x0F)"

definition set_registers :: "host \<Rightarrow> (register \<times> u64) list \<Rightarrow> vm_state \<Rightarrow> (vm_error, vm_state) result" where
  "set_registers ho rs s =
     (if ho_registers_ok ho then Ok (s\<lparr>vs_registers := vs_registers s @ rs\<rparr>) else Err RegisterError)"

definition handle_cpuid ::
  "host \<Rightarrow> vp_context \<Rightarrow> cpuid_access \<Rightarrow> vm_state \<Rightarrow> (vm_error, vm_state \<times> bool) result" where
  "handle_cpuid ho ctx a s =
     (case cpuid_leaf a of
        (rax, rbx, rcx, rdx) \<Rightarrow>
          (case set_registers ho [(Rax, rax), (Rbx, rbx), (Rcx, rcx), (Rdx, rdx), (Rip, next_rip ctx)] s of
             Err e \<Rightarrow> Err e
           | Ok s' \<Rightarrow> Ok (s', True)))"

definition advance_rip :: "host \<Rightarrow> vp_context \<Rightarrow> vm_state \<Rightarrow> (vm_error, vm_state) result" where
  "advance_rip ho ctx s = set_registers ho [(Rip, next_rip ctx)] s"

definition get_tsc_frequency_hz :: "host \<Rightarrow> u64" where
  "get_tsc_frequency_hz ho =
     (case ho_cpuid15 ho of
        (eax, ebx, ecx) \<Rightarrow>
          if eax \<noteq> 0 \<and> ebx \<noteq> 0 \<and> ecx \<noteq> 0 then (ucast ecx * ucast ebx) div ucast eax
          else if ho_cpuid16 ho \<noteq> 0 then ucast (ho_cpuid16 ho) * 1000000
          else 2712000000)"

text \<open>
  The reference page; the arithmetic on 128-bit integers is on natural numbers.  The scale and
  the product are cut to 64 bits as the casts do.
\<close>

definition tsc_scale :: "u64 \<Rightarrow> u64 panics" where
  "tsc_scale tsc_freq =
     (if tsc_freq = 0 then None else Some (of_nat ((10000000 * 2 ^ 64) div unat tsc_freq)))"

definition tsc_offset :: "u64 \<Rightarrow> u64 \<Rightarrow> u64" where
  "tsc_offset start scale = - of_nat (unat start * unat scale div 2 ^ 64)"

definition tsc_reference_page :: "u64 \<Rightarrow> u64 \<Rightarrow> u8 list" where
  "tsc_reference_page scale offset =
     to_le 4 (1 :: u32) @ replicate 4 0 @ to_le 8 scale @ to_le 8 offset @ replicate 4072 0"

definition write_tsc_reference_page ::
  "host \<Rightarrow> u64 \<Rightarrow> vm_state \<Rightarrow> (vm_error, vm_state) result panics" where
  "write_tsc_reference_page ho gpa s =
     (let pt = m_partition (vs_machine s)
      in case tsc_scale (get_tsc_frequency_hz ho) of
           None \<Rightarrow> None
         | Some scale \<Rightarrow>
             let offset = tsc_offset (pt_vm_start_tsc pt) scale
             in Some (case write_guest_memory (pt_memory pt) (vs_heap s) (tsc_reference_page scale offset) gpa of
                        Err e \<Rightarrow> Err (VmMemoryError e)
                      | Ok h \<Rightarrow> Ok (s\<lparr>vs_heap := h\<rparr>)))"

definition set_partition :: "(partition \<Rightarrow> partition) \<Rightarrow> vm_state \<Rightarrow> vm_state" where
  "set_partition f s = s\<lparr>vs_machine := (vs_machine s)\<lparr>m_partition := f (m_partition (vs_machine s))\<rparr>\<rparr>"

definition msr_value :: "msr_access \<Rightarrow> u64" where
  "msr_value a = push_bit 32 (ma_rdx a) OR (ma_rax a AND 0xFFFFFFFF)"

definition halves :: "u64 \<Rightarrow> u64 \<times> u64" where
  "halves v = (v AND 0xFFFFFFFF, drop_bit 32 v)"

text \<open>One register: the state after a write, or the values of \<^verbatim>\<open>rax\<close> and \<^verbatim>\<open>rdx\<close> after a read.\<close>

definition access_msr ::
  "host \<Rightarrow> msr_access \<Rightarrow> bool \<Rightarrow> vm_state \<Rightarrow> (vm_error, vm_state \<times> u64 \<times> u64) result panics" where
  "access_msr ho a is_write s =
     (let pt = m_partition (vs_machine s); n = ma_number a
      in if n = 0x40000000 then
           Some (Ok (if is_write then (set_partition (\<lambda>p. p\<lparr>pt_guest_os_id := msr_value a\<rparr>) s, 0, 0)
                     else (s, halves (pt_guest_os_id pt))))
         else if n = 0x40000001 then Some (Ok (s, if is_write then 0 else 1, 0))
         else if n = 0x40000020 then
           (let start = (case vs_start_time s of None \<Rightarrow> ho_now ho | Some t \<Rightarrow> t);
                ticks = (ho_now ho - start) div 100
            in Some (Ok (s\<lparr>vs_start_time := Some start\<rparr>,
                 of_nat (ticks mod 2 ^ 32), of_nat (ticks div 2 ^ 32 mod 2 ^ 32))))
         else if n = 0x40000021 then
           (if is_write then
              (if msr_value a AND 1 \<noteq> 0 then
                 let gpa = msr_value a AND NOT 0xFFF
                 in case write_tsc_reference_page ho gpa s of
                      None \<Rightarrow> None
                    | Some (Err e) \<Rightarrow> Some (Err e)
                    | Some (Ok s') \<Rightarrow>
                        Some (Ok (set_partition (\<lambda>p. p\<lparr>pt_tsc_reference_gpa := Some gpa\<rparr>) s', 0, 0))
               else Some (Ok (set_partition (\<lambda>p. p\<lparr>pt_tsc_reference_gpa := None\<rparr>) s, 0, 0)))
            else Some (Ok (s, case pt_tsc_reference_gpa pt of
                   Some gpa \<Rightarrow> halves (gpa OR 1) | None \<Rightarrow> (0, 0))))
         else if n = 0x40000118 then
           Some (Ok (if is_write then (s\<lparr>vs_tsc_invariant_control := msr_value a\<rparr>, 0, 0)
                     else (s, halves (vs_tsc_invariant_control s))))
         else Some (Ok (s, 0, 0)))"

definition handle_msr_access ::
  "host \<Rightarrow> vp_context \<Rightarrow> msr_access \<Rightarrow> vm_state \<Rightarrow> (vm_error, vm_state \<times> bool) result panics" where
  "handle_msr_access ho ctx a s =
     (let is_write = ma_info a AND 1 \<noteq> 0
      in case access_msr ho a is_write s of
           None \<Rightarrow> None
         | Some (Err e) \<Rightarrow> Some (Err e)
         | Some (Ok (s1, rax, rdx)) \<Rightarrow>
             (case (if is_write then Ok s1 else set_registers ho [(Rax, rax), (Rdx, rdx)] s1) of
                Err e \<Rightarrow> Some (Err e)
              | Ok s2 \<Rightarrow>
                  Some (case advance_rip ho ctx s2 of Err e \<Rightarrow> Err e | Ok s3 \<Rightarrow> Ok (s3, True))))"

definition handle_apic_eoi :: "host \<Rightarrow> u32 \<Rightarrow> vm_state \<Rightarrow> vm_state panics" where
  "handle_apic_eoi ho vector s =
     (let m = vs_machine s; pt = m_partition m
      in case pt_mmio_handlers pt ''ioapic'' of
           None \<Rightarrow> Some s
         | Some handler \<Rightarrow>
             (case handler_write (ho_env ho) 0x40 (to_le 4 vector) handler (pt_irqchip pt) of
                None \<Rightarrow> None
              | Some (handler', chip', out, effs) \<Rightarrow>
                  Some (s\<lparr>vs_machine := m\<lparr>m_partition := pt\<lparr>pt_mmio_handlers :=
                              (pt_mmio_handlers pt)(''ioapic'' \<mapsto> handler'), pt_irqchip := chip'\<rparr>,
                            m_injected := m_injected m @ out, m_effects := m_effects m @ effs\<rparr>\<rparr>)))"

text \<open>The lowest bit of the status says that the instruction was emulated.\<close>

definition handle_emulation ::
  "nat \<Rightarrow> host \<Rightarrow> vp_exit \<Rightarrow> (vm_state \<Rightarrow> (vm_error, vm_state \<times> bool) result) \<Rightarrow> vm_state \<Rightarrow>
   (vm_error, vm_state \<times> bool) result panics option" where
  "handle_emulation fuel ho e on_failure s =
     (case run_emulator fuel ho (ho_emulator ho e) [] (vs_machine s) of
        None \<Rightarrow> None
      | Some None \<Rightarrow> Some None
      | Some (Some (m, None)) \<Rightarrow> Some (Some (on_failure (s\<lparr>vs_machine := m\<rparr>)))
      | Some (Some (m, Some status)) \<Rightarrow> Some (Some (Ok (s\<lparr>vs_machine := m\<rparr>, status AND 1 = 1))))"

definition handle_io_port ::
  "nat \<Rightarrow> host \<Rightarrow> vp_exit \<Rightarrow> vm_state \<Rightarrow> (vm_error, vm_state \<times> bool) result panics option" where
  "handle_io_port fuel ho e s = handle_emulation fuel ho e (\<lambda>s. Err EmulationError) s"

definition handle_exit ::
  "nat \<Rightarrow> host \<Rightarrow> vp_context \<Rightarrow> vp_exit \<Rightarrow> vm_state \<Rightarrow>
   (vm_error, vm_state \<times> bool) result panics option" where
  "handle_exit fuel ho ctx e s =
     (case e of
        ExitNone \<Rightarrow> Some (Some (Ok (s, False)))
      | ExitMemoryAccess gpa info \<Rightarrow>
          (case from_exit_context ctx e of
             None \<Rightarrow> Some (Some (Err NoViolation))
           | Some violation \<Rightarrow>
               if find_mmio (pt_memory (m_partition (vs_machine s))) (mv_gpa violation) \<noteq> None
               then handle_emulation fuel ho e (\<lambda>s. Ok (s, False)) s
               else Some (Some (Ok (s, False))))
      | ExitIoPortAccess \<Rightarrow> handle_io_port fuel ho e s
      | ExitInterruptWindow \<Rightarrow> Some (Some (Ok (handle_interrupt_window ho s)))
      | ExitHalt \<Rightarrow> Some (Some (Ok (s, True)))
      | ExitApicEoi vector \<Rightarrow>
          Some (case handle_apic_eoi ho vector s of None \<Rightarrow> None | Some s' \<Rightarrow> Some (Ok (s', True)))
      | ExitCpuid a \<Rightarrow> Some (Some (handle_cpuid ho ctx a s))
      | ExitMsrAccess a \<Rightarrow> Some (handle_msr_access ho ctx a s)
      | _ \<Rightarrow> Some (Some (Ok (s, False))))"

text \<open>
  The loop that runs the processor: \<open>exits\<close> are the results of \<^verbatim>\<open>run_vp\<close> as long as the partition
  is running (\<open>None\<close>: the call failed), and the list ends when it is stopped.  What the loop
  keeps besides is only logged.  After an error the loop ends and the machine is not used again;
  the state returned then is the one before that exit.
\<close>

fun vm_run ::
  "nat \<Rightarrow> host \<Rightarrow> (vp_context \<times> vp_exit) option list \<Rightarrow> vm_state \<Rightarrow> vm_state panics option" where
  "vm_run fuel ho [] s = Some (Some s)"
| "vm_run fuel ho (None # exits) s = Some (Some s)"
| "vm_run fuel ho (Some (ctx, e) # exits) s =
     (case handle_exit fuel ho ctx e s of
        None \<Rightarrow> None
      | Some None \<Rightarrow> Some None
      | Some (Some (Ok (s', True))) \<Rightarrow> vm_run fuel ho exits s'
      | Some (Some (Ok (s', False))) \<Rightarrow> Some (Some s')
      | Some (Some (Err _)) \<Rightarrow> Some (Some s))"

section \<open>The reference time\<close>

text \<open>
  How the guest computes the time, in units of 100 nanoseconds, from its counter and the page
  (the formula in the comment of \<^verbatim>\<open>write_tsc_reference_page\<close>), and the time that has passed since
  the machine was started.
\<close>

definition reference_time :: "u64 \<Rightarrow> u64 \<Rightarrow> u64 \<Rightarrow> u64" where
  "reference_time scale offset tsc = of_nat (unat tsc * unat scale div 2 ^ 64) + offset"

definition elapsed_ticks :: "u64 \<Rightarrow> u64 \<Rightarrow> u64 \<Rightarrow> nat" where
  "elapsed_ticks freq start tsc = (unat tsc - unat start) * 10000000 div unat freq"

lemma div_add_bounds:
  "(x :: nat) div m + y div m \<le> (x + y) div m" "0 < m \<Longrightarrow> (x + y) div m \<le> x div m + y div m + 1"
proof -
  show "x div m + y div m \<le> (x + y) div m"
    by (cases "m = 0") (simp_all add: less_eq_div_iff_mult_less_eq add_mult_distrib add_mono)
  assume "0 < m"
  then have "x + y < (x div m + 1) * m + (y div m + 1) * m"
    using dividend_less_div_times [of m x] dividend_less_div_times [of m y]
    by (simp add: algebra_simps add_less_mono)
  then have "x + y < (x div m + y div m + 2) * m" by (simp add: algebra_simps)
  then have "(x + y) div m < x div m + y div m + 2" using \<open>0 < m\<close> by (simp add: div_less_iff_less_mult)
  then show "(x + y) div m \<le> x div m + y div m + 1" by simp
qed

lemma div_diff_bounds:
  assumes "0 < (m :: nat)"
  shows "y div m \<le> (x + y) div m - x div m" "(x + y) div m - x div m \<le> y div m + 1"
proof -
  have *: "b \<le> c - a" "c - a \<le> b + 1" if "a + b \<le> c" "c \<le> a + b + 1" for a b c :: nat using that by simp_all
  show "y div m \<le> (x + y) div m - x div m" "(x + y) div m - x div m \<le> y div m + 1"
    by (rule * [OF div_add_bounds(1) div_add_bounds(2) [OF assms]])+
qed

lemma scaled_ticks:
  fixes d f K M :: nat
  assumes "0 < f" "d < M"
  defines "s \<equiv> K * M div f"
  shows "d * s div M \<le> d * K div f" "d * K div f \<le> d * s div M + 1"
proof -
  have M: "0 < M" using assms(2) by simp
  have sf: "s * f \<le> K * M" "K * M < (s + 1) * f"
    using assms(1) dividend_less_div_times [of f "K * M"] by (simp_all add: s_def algebra_simps)
  let ?q = "d * s div M" and ?e = "d * K div f"
  have "?q * M * f \<le> d * (s * f)" using mult_le_mono1 [of "?q * M" "d * s" f] by (simp add: algebra_simps)
  also have "\<dots> \<le> d * (K * M)" using sf(1) by (rule mult_le_mono2)
  finally have "?q * f \<le> d * K" using M by (simp add: algebra_simps)
  then show "?q \<le> ?e" using assms(1) by (simp add: less_eq_div_iff_mult_less_eq)
  have "?e * f * M \<le> d * K * M" by (rule mult_le_mono1) simp
  also have "\<dots> \<le> d * ((s + 1) * f)" using mult_le_mono2 [OF less_imp_le [OF sf(2)], of d] by (simp add: algebra_simps)
  finally have "?e * M * f \<le> d * (s + 1) * f" by (simp only: ac_simps)
  then have "?e * M \<le> d * (s + 1)" using assms(1) by simp
  also have "\<dots> < (?q + 1) * M + M"
    using dividend_less_div_times [OF M, of "d * s"] assms(2) by (simp add: algebra_simps add_less_mono)
  finally have "?e * M < (?q + 2) * M" by (simp add: algebra_simps)
  then have "?e < ?q + 2" by (simp only: mult_less_cancel2)
  then show "?e \<le> ?q + 1" by simp
qed

lemma reference_time_accurate:
  assumes "10000000 < unat f" "tsc_scale f = Some scale" "offset = tsc_offset start scale" "start \<le> tsc"
  shows "unat (reference_time scale offset tsc) \<le> elapsed_ticks f start tsc + 1"
    "elapsed_ticks f start tsc \<le> unat (reference_time scale offset tsc) + 1"
proof -
  let ?M = "2 ^ 64 :: nat"
  define s where "s = 10000000 * ?M div unat f"
  have "s < ?M" using assms(1) unfolding s_def by (subst div_less_iff_less_mult) simp_all
  then have us: "unat scale = s" using assms(2) by (auto simp: tsc_scale_def s_def unat_of_nat split: if_splits)
  have off: "offset = - of_nat (unat start * s div ?M)"
    using assms(3) us by (simp add: tsc_offset_def)
  let ?d = "unat tsc - unat start"
  have le: "unat start \<le> unat tsc" using assms(4) by (simp add: word_le_nat_alt)
  have sum: "unat tsc * s = unat start * s + ?d * s" using le by (simp add: algebra_simps flip: add_mult_distrib)
  let ?a = "unat tsc * s div ?M" and ?b = "unat start * s div ?M"
  have "unat tsc * s < ?M * ?M" using \<open>s < ?M\<close> unat_bounds(4) [of tsc] by (intro mult_strict_mono) simp_all
  then have a: "?a < ?M" by (subst div_less_iff_less_mult) simp_all
  have ba: "?b \<le> ?a" using sum by (simp add: div_le_mono)
  have "unat (of_nat ?a - of_nat ?b :: u64) = ?a - ?b"
    using a ba by (simp add: unat_of_nat word_le_nat_alt unat_sub)
  then have T: "unat (reference_time scale offset tsc) = ?a - ?b" by (simp add: reference_time_def us off)
  have "?d < ?M" using unat_bounds(4) [of tsc] by simp
  note q = scaled_ticks [of "unat f" ?d ?M 10000000, OF _ this, folded s_def]
  have "?d * s div ?M \<le> ?a - ?b" "?a - ?b \<le> ?d * s div ?M + 1"
    unfolding sum by (rule div_diff_bounds, simp)+
  then show "unat (reference_time scale offset tsc) \<le> elapsed_ticks f start tsc + 1"
    "elapsed_ticks f start tsc \<le> unat (reference_time scale offset tsc) + 1"
    unfolding T elapsed_ticks_def using q assms(1) by linarith+
qed

lemma reference_page_parts:
  "length (tsc_reference_page scale offset) = 4096"
  "take 24 (tsc_reference_page scale offset) = to_le 4 (1 :: u32) @ replicate 4 0 @ to_le 8 scale @ to_le 8 offset"
  by (simp_all add: tsc_reference_page_def)

lemma write_tsc_reference_page_ok:
  assumes "mm_wf (pt_memory (m_partition (vs_machine s)))"
    and "access_ok (pt_memory (m_partition (vs_machine s))) gpa 4097 r p" "perms_contain (rg_perms r) PERM_WRITE"
    and "10000000 < unat (get_tsc_frequency_hz ho)"
  obtains s' scale offset where "write_tsc_reference_page ho gpa s = Some (Ok s')"
    "tsc_scale (get_tsc_frequency_hz ho) = Some scale"
    "offset = tsc_offset (pt_vm_start_tsc (m_partition (vs_machine s))) scale"
    "vs_machine s' = vs_machine s"
    "view_range (guest_view (pt_memory (m_partition (vs_machine s))) (vs_heap s')) gpa 24 =
      map Some (to_le 4 (1 :: u32) @ replicate 4 0 @ to_le 8 scale @ to_le 8 offset)"
proof -
  let ?mm = "pt_memory (m_partition (vs_machine s))" and ?f = "get_tsc_frequency_hz ho"
  have "?f \<noteq> 0" using assms(4) by auto
  then obtain scale where sc: "tsc_scale ?f = Some scale" by (simp add: tsc_scale_def)
  define offset where of: "offset = tsc_offset (pt_vm_start_tsc (m_partition (vs_machine s))) scale"
  let ?page = "tsc_reference_page scale offset"
  note len = reference_page_parts(1) [of scale offset]
  obtain h' where w: "write_guest_memory ?mm (vs_heap s) ?page gpa = Ok h'"
    using write_guest_memory_success [OF assms(1) _ _ assms(3), of gpa ?page p] assms(2) len by auto
  have "guest_view ?mm h' = view_update (guest_view ?mm (vs_heap s)) gpa ?page"
    using write_guest_memory_view [OF assms(1) _ w] len by simp
  then have "view_range (guest_view ?mm h') gpa 4096 = map Some ?page"
    using view_range_written [of ?page "guest_view ?mm (vs_heap s)" gpa] len by simp
  then have "view_range (guest_view ?mm h') gpa 24 = map Some (take 24 ?page)"
    using view_range_part [of 0 24 4096 "guest_view ?mm h'" gpa] by (simp add: take_map)
  then show thesis
    by (intro that [of "s\<lparr>vs_heap := h'\<rparr>" scale offset])
      (use sc of w in \<open>simp_all add: write_tsc_reference_page_def reference_page_parts(2)\<close>)
qed

section \<open>Properties\<close>


definition demo_host :: host where
  "demo_host =
     \<lparr>ho_env = demo_env, ho_now = 0, ho_millis = 1, ho_registers_ok = True,
      ho_emulator = \<lambda>_ _. Inr (Some 1), ho_cpuid15 = (0, 0, 0), ho_cpuid16 = 0\<rparr>"

definition demo_machine :: machine where
  "demo_machine =
     \<lparr>m_partition = fst (allocate_memory_with_size (Some 0x10000) True True 0x140000000 demo_partition),
      m_rtc_time = 0, m_rtc_counter = 0, m_internal_counter = 0, m_injected = [], m_effects = []\<rparr>"

definition demo_vm :: vm_state where
  "demo_vm =
     \<lparr>vs_machine = demo_machine, vs_heap = \<lambda>_. 0, vs_registers = [], vs_last_interrupt_time = 0,
      vs_start_time = None, vs_tsc_invariant_control = 0\<rparr>"

lemma demo_vm_memory:
  "mm_regions (pt_memory (m_partition (vs_machine demo_vm))) = ram_regions 0x10000 0x140000000"
  "mm_wf (pt_memory (m_partition (vs_machine demo_vm)))"
  "pt_vm_start_tsc (m_partition (vs_machine demo_vm)) = 0"
proof -
  show r: "mm_regions (pt_memory (m_partition (vs_machine demo_vm))) = ram_regions 0x10000 0x140000000"
    using allocate_regions [OF demo_partition_fields(1), of "0x10000" "0x140000000"]
    by (auto simp: demo_vm_def demo_machine_def)
  show "mm_wf (pt_memory (m_partition (vs_machine demo_vm)))" by (rule ram_regions_wf [OF _ _ _ r]) simp_all
  show "pt_vm_start_tsc (m_partition (vs_machine demo_vm)) = 0"
    by (simp add: demo_vm_def demo_machine_def allocate_memory_with_size_def Let_def demo_partition_def
        partition_new_def)
qed

lemma demo_vm_access:
  "access_ok (pt_memory (m_partition (vs_machine demo_vm))) 0x1000 4097
     (memory_region_new 0 MEM_32BIT_DEVICES_START PERM_RWX (Some 0x10000)) 0x10000"
  by (simp add: access_ok_def find_region_def demo_vm_memory(1) ram_regions_def memory_region_new_def ram_consts
      start_addr_def last_addr_def unchecked_add_def)


end
