(* ===== verification/Machine.thy ===== *)
theory Machine
  imports Vm
begin

text \<open>
  The running machine as a whole: the exits of the virtual processor (\<^verbatim>\<open>src/vm.rs\<close>) and the
  interrupts of the device threads (\<^verbatim>\<open>InterruptTransport\<close> of \<^verbatim>\<open>src/devices/virtio/mmio.rs\<close>) as the
  steps of one state machine, with an invariant that joins those of the interrupt controller and
  of the transports, and the way of a guest access to its device.
\<close>

section \<open>The invariant\<close>

text \<open>
  The windows are the ones that were registered, each with the handler of its device; the
  controller is the I/O APIC in a good state, and every transport is in a good state.
\<close>

definition partition_ok :: "partition \<Rightarrow> bool" where
  "partition_ok pt \<longleftrightarrow>
     mm_mmio_regions (pt_memory pt) = device_mmio \<and>
     (\<exists>st. pt_irqchip pt = ChipIoApic st \<and> ioapic_wf st \<and> quiescent st) \<and>
     handlers_ok (pt_mmio_handlers pt)"

abbreviation machine_ok :: "machine \<Rightarrow> bool" where
  "machine_ok m \<equiv> partition_ok (m_partition m)"

abbreviation vm_ok :: "vm_state \<Rightarrow> bool" where
  "vm_ok s \<equiv> machine_ok (vs_machine s)"

lemma partition_ok_chip:
  "partition_ok pt \<Longrightarrow> \<exists>st. chip = ChipIoApic st \<and> ioapic_wf st \<and> quiescent st \<Longrightarrow> partition_ok (pt\<lparr>pt_irqchip := chip\<rparr>)"
  by (simp add: partition_ok_def)

lemma handlers_ok_update:
  assumes "handlers_ok hs" "handler_ok n hdl"
  shows "handlers_ok (hs(n \<mapsto> hdl))"
  using assms unfolding handlers_ok_def by (metis fun_upd_apply option.inject)

lemma handlers_ok_lookup:
  assumes "handlers_ok hs" "m \<in> set device_mmio" "mr_handler m = Some n" "hs n = Some hdl"
  shows "handler_ok n hdl"
  using assms unfolding handlers_ok_def by fastforce

section \<open>Device handlers keep it\<close>

lemma config_bytes_laws:
  "config_bytes (ack_features_by_page avail_features acked_features set_acked_features page v d) = config_bytes d"
  "device_activate st gv mem qs d = Some (d', r) \<Longrightarrow> config_bytes d' = config_bytes d"
  "device_reset d = (d', b) \<Longrightarrow> config_bytes d' = config_bytes d"
proof -
  have "config_bytes (set_acked_features f d) = config_bytes d" for f
    by (cases d) (simp_all add: block_set_acked_features_def console_set_acked_features_def net_set_acked_features_def)
  then show "config_bytes (ack_features_by_page avail_features acked_features set_acked_features page v d) = config_bytes d"
    by (simp add: ack_features_by_page_def Let_def)
  show "device_activate st gv mem qs d = Some (d', r) \<Longrightarrow> config_bytes d' = config_bytes d"
    by (cases d) (auto simp: wrap_device_def block_activate_def rng_activate_def console_activate_def net_activate_def
        split: if_splits list.splits)
  show "device_reset d = (d', b) \<Longrightarrow> config_bytes d' = config_bytes d"
    by (cases d) (auto simp: block_reset_def rng_reset_def console_reset_def net_reset_def)
qed

lemma transport_activate_config:
  "transport_activate env t = Some t' \<Longrightarrow> config_bytes (mt_device t') = config_bytes (mt_device t)"
  by (auto simp: transport_activate_def Let_def dest: config_bytes_laws(2) split: option.splits prod.splits result.splits)

lemma status_reset_config: "config_bytes (mt_device (status_reset t)) = config_bytes (mt_device t)"
  by (auto simp: status_reset_def Let_def transport_reset_def config_bytes_laws(3) split: prod.splits)

lemma mmio_write_config:
  assumes "mmio_write env offset data t chip = Some (t', chip', effs)"
  shows "config_bytes (mt_device t') = config_bytes (mt_device t)"
  using assms
proof (cases rule: mmio_write_cases)
  case (select v)
  then show ?thesis by (auto simp: select_register_def split: if_splits)
next
  case (queue v f)
  then show ?thesis by (auto simp: update_queue_field_def with_queue_mut_def Let_def split: option.splits)
next
  case (features v)
  then show ?thesis by (simp add: config_bytes_laws(1))
next
  case (ack v)
  then show ?thesis by (auto simp: interrupt_ack_def Let_def split: if_splits)
next
  case status
  then show ?thesis
    by (auto simp: set_device_status_def Let_def status_reset_config dest: transport_activate_config split: if_splits)
qed simp

lemma mmio_write_chip:
  assumes "mmio_write env offset data t chip = Some (t', chip', effs)"
  shows "chip' = chip \<or> (\<exists>line. chip' = irqchip_clear_irq line chip)"
  using assms
proof (cases rule: mmio_write_cases)
  case (ack v)
  then show ?thesis by (auto simp: interrupt_ack_def try_clear_irq_def Let_def split: if_splits)
qed blast+

lemma handler_write_ok:
  assumes "handler_write env offset data hdl (ChipIoApic st) = Some (hdl', chip', out, effs)"
    and "handler_ok n hdl" "ioapic_wf st" "quiescent st"
  shows "handler_ok n hdl' \<and> (\<exists>st'. chip' = ChipIoApic st' \<and> ioapic_wf st' \<and> quiescent st')"
proof (cases hdl)
  case HandlerIoApic
  then show ?thesis
    using assms ioapic_write_wf [OF assms(3,4), of "env_whv env" offset data] by (auto split: prod.splits)
next
  case HandlerPciEcam
  then show ?thesis using assms by auto
next
  case (HandlerVirtio t)
  then obtain t' where w: "mmio_write env offset data t (ChipIoApic st) = Some (t', chip', effs)" "hdl' = HandlerVirtio t'"
    using assms(1) by (auto split: option.splits prod.splits)
  then show ?thesis
    using assms(2-4) HandlerVirtio mmio_write_ok [OF _ w(1)] mmio_write_chip [OF w(1)]
      mmio_write_config [OF w(1)] ioapic_clear_irq_wf [OF assms(3,4)] by auto
qed

lemma update_handler_ok:
  assumes "partition_ok pt" "pt_mmio_handlers pt n = Some hdl" "handler_ok n hdl"
    and "handler_write env offset data hdl (pt_irqchip pt) = Some (hdl', chip', out, effs)"
  shows "partition_ok (pt\<lparr>pt_mmio_handlers := (pt_mmio_handlers pt)(n \<mapsto> hdl'), pt_irqchip := chip'\<rparr>)"
proof -
  obtain st where st: "pt_irqchip pt = ChipIoApic st" "ioapic_wf st" "quiescent st"
    using assms(1) by (auto simp: partition_ok_def)
  note handler_write_ok [OF assms(4) [unfolded st(1)] assms(3) st(2,3)]
  then show ?thesis using assms(1) handlers_ok_update by (simp add: partition_ok_def)
qed

lemma find_mmio_in: "find_mmio mm a = Some m \<Longrightarrow> m \<in> set (mm_mmio_regions mm)"
  by (auto simp: find_mmio_def find_Some_iff)

lemma memory_callback_ok:
  assumes ok: "machine_ok m" and cb: "memory_callback env gpa dir n data m = Some (m', data', hr)"
  shows "machine_ok m'"
proof (cases "find_mmio (pt_memory (m_partition m)) gpa")
  case None
  then show ?thesis using assms by (simp add: memory_callback_def)
next
  case (Some r)
  let ?pt = "m_partition m"
  have r: "r \<in> set device_mmio" using find_mmio_in [OF Some] ok by (simp add: partition_ok_def)
  have ho: "handlers_ok (pt_mmio_handlers ?pt)" using ok by (simp add: partition_ok_def)
  obtain nm hdl where hdl: "mr_handler r = Some nm" "pt_mmio_handlers ?pt nm = Some hdl" "handler_ok nm hdl"
    using ho r unfolding handlers_ok_def by blast
  show ?thesis
  proof (cases dir)
    case DirWrite
    then obtain hdl' chip' out effs where
      w: "handler_write env (gpa - mr_gpa r) (take (unat n) data) hdl (pt_irqchip ?pt) = Some (hdl', chip', out, effs)"
      and "m_partition m' = ?pt\<lparr>pt_mmio_handlers := (pt_mmio_handlers ?pt)(nm \<mapsto> hdl'), pt_irqchip := chip'\<rparr>"
      using cb Some hdl by (auto simp: memory_callback_def Let_def split: if_splits option.splits)
    then show ?thesis using update_handler_ok [OF ok hdl(2,3) w] by simp
  qed (use cb Some hdl ok in \<open>auto simp: memory_callback_def Let_def split: if_splits option.splits\<close>)
qed

lemma io_port_callback_ok:
  assumes "machine_ok m" "io_port_callback now port is_out n data m = (m', data', hr)"
  shows "machine_ok m'"
  using assms
  by (auto simp: io_port_callback_def io_out_def io_in_def Let_def partition_ok_def case_prod_beta split: if_splits)

lemma run_emulator_ok:
  "machine_ok m \<Longrightarrow> run_emulator fuel ho emu replies m = Some (Some (m', status)) \<Longrightarrow> machine_ok m'"
proof (induction fuel arbitrary: replies m)
  case (Suc fuel)
  show ?case
  proof (cases "emu replies")
    case (Inr s)
    then show ?thesis using Suc.prems by simp
  next
    case (Inl r)
    then show ?thesis
    proof (cases r)
      case (EmuMemory gpa dir n data)
      then obtain m1 data1 hr where "memory_callback (ho_env ho) gpa dir n data m = Some (m1, data1, hr)"
        "run_emulator fuel ho emu (replies @ [ReplyMemory data1 hr]) m1 = Some (Some (m', status))"
        using Suc.prems(2) Inl by (auto split: option.splits)
      then show ?thesis using Suc.IH memory_callback_ok [OF Suc.prems(1)] by blast
    next
      case (EmuIo port is_out n data)
      then obtain m1 data1 hr where "io_port_callback (ho_now ho) port is_out n data m = (m1, data1, hr)"
        "run_emulator fuel ho emu (replies @ [ReplyIo data1 hr]) m1 = Some (Some (m', status))"
        using Suc.prems(2) Inl by (auto split: prod.splits)
      then show ?thesis using Suc.IH io_port_callback_ok [OF Suc.prems(1)] by blast
    qed
  qed
qed simp

section \<open>Exits and interrupts keep it\<close>

lemma vm_ok_parts [simp]:
  "partition_ok (p\<lparr>pt_guest_os_id := x\<rparr>) = partition_ok p"
  "partition_ok (p\<lparr>pt_tsc_reference_gpa := y\<rparr>) = partition_ok p"
  by (simp_all add: partition_ok_def)

lemma handle_emulation_ok:
  assumes "vm_ok s" "handle_emulation fuel ho e f s = Some (Some (Ok (s', b)))"
    and "\<And>u. f u = Ok (s', b) \<Longrightarrow> s' = u"
  shows "vm_ok s'"
  using assms(2,3) run_emulator_ok [OF assms(1)]
  by (fastforce simp: handle_emulation_def split: option.splits)

lemma handle_apic_eoi_ok:
  assumes "vm_ok s" "handle_apic_eoi ho v s = Some s'"
  shows "vm_ok s'"
proof -
  have "\<lparr>mr_gpa = 0xfec00000, mr_size = 0x1000, mr_name = ''IOAPIC'', mr_handler = Some ''ioapic''\<rparr> \<in> set device_mmio"
    by (simp add: device_mmio_def)
  then obtain hdl where hdl: "pt_mmio_handlers (m_partition (vs_machine s)) ''ioapic'' = Some hdl" "handler_ok ''ioapic'' hdl"
    using assms(1) unfolding partition_ok_def handlers_ok_def by fastforce
  obtain hdl' chip' out effs where
    w: "handler_write (ho_env ho) 0x40 (to_le 4 v) hdl (pt_irqchip (m_partition (vs_machine s))) = Some (hdl', chip', out, effs)"
    and "m_partition (vs_machine s') = (m_partition (vs_machine s))\<lparr>pt_mmio_handlers :=
      (pt_mmio_handlers (m_partition (vs_machine s)))(''ioapic'' \<mapsto> hdl'), pt_irqchip := chip'\<rparr>"
    using assms(2) hdl(1) by (auto simp: handle_apic_eoi_def Let_def split: option.splits)
  then show ?thesis using update_handler_ok [OF assms(1) hdl w] by simp
qed

lemma handle_cpuid_ok: "vm_ok s \<Longrightarrow> handle_cpuid ho ctx a s = Ok (s', b) \<Longrightarrow> vm_ok s'"
  by (auto simp: handle_cpuid_def set_registers_def split: prod.splits if_splits)

lemma access_msr_ok: "vm_ok s \<Longrightarrow> access_msr ho a w s = Some (Ok (s', x, y)) \<Longrightarrow> vm_ok s'"
  by (auto simp: access_msr_def set_partition_def write_tsc_reference_page_def Let_def
      split: if_splits option.splits result.splits)

lemma handle_msr_access_ok:
  assumes "vm_ok s" "handle_msr_access ho ctx a s = Some (Ok (s', b))"
  shows "vm_ok s'"
proof -
  obtain s1 x y where a: "access_msr ho a (ma_info a AND 1 \<noteq> 0) s = Some (Ok (s1, x, y))"
    and "vs_machine s' = vs_machine s1"
    using assms(2) by (auto simp: handle_msr_access_def advance_rip_def set_registers_def Let_def
        split: option.splits result.splits if_splits)
  then show ?thesis using access_msr_ok [OF assms(1) a] by simp
qed

lemma handle_exit_ok:
  assumes ok: "vm_ok s" and e: "handle_exit fuel ho ctx e s = Some (Some (Ok (s', b)))"
  shows "vm_ok s'"
proof (cases e)
  case (ExitMemoryAccess gpa info)
  then show ?thesis using assms
    by (auto simp: handle_exit_def elim!: handle_emulation_ok [OF ok] split: option.splits if_splits)
next
  case ExitIoPortAccess
  then show ?thesis using assms by (auto simp: handle_exit_def handle_io_port_def elim!: handle_emulation_ok [OF ok])
next
  case (ExitApicEoi v)
  then show ?thesis using e handle_apic_eoi_ok [OF ok] by (auto simp: handle_exit_def split: option.splits)
next
  case (ExitCpuid a)
  then show ?thesis using e handle_cpuid_ok [OF ok] by (simp add: handle_exit_def)
next
  case (ExitMsrAccess a)
  then show ?thesis using e handle_msr_access_ok [OF ok] by (simp add: handle_exit_def)
qed (use assms in \<open>auto simp: handle_exit_def handle_interrupt_window_def Let_def split: if_splits\<close>)

section \<open>No access panics\<close>

lemma device_activate_total:
  assumes "worker_queues d = None" "length qs = length (queue_config d)" "st" "gv"
  shows "\<exists>d'. device_activate st gv mem qs d = Some (d', Ok ())"
proof (cases d)
  case (DevBlock b)
  then show ?thesis using assms
    by (auto simp: wrap_device_def block_activate_def BLOCK_QUEUE_CONFIG_def length_Suc_conv)
next
  case (DevRng r)
  then show ?thesis using assms
    by (auto simp: wrap_device_def rng_activate_def RNG_QUEUE_CONFIG_def length_Suc_conv)
next
  case (DevConsole c)
  then show ?thesis using assms
    by (auto simp: wrap_device_def console_activate_def CONSOLE_QUEUE_CONFIG_def length_Suc_conv)
next
  case (DevNet n)
  then show ?thesis using assms
    by (auto simp: wrap_device_def net_activate_def NET_QUEUE_CONFIG_def length_Suc_conv)
qed

lemma transport_activate_total:
  assumes "transport_ok t" "\<not> is_activated (mt_device t)" "env_start_ok env" "env_gvproxy_ok env"
  shows "transport_activate env (t\<lparr>mt_device_status := st\<rparr>) \<noteq> None"
proof (cases "mt_queues t")
  case None
  then show ?thesis by (simp add: transport_activate_def)
next
  case (Some qs)
  have w: "worker_queues (mt_device t) = None" using assms(1,2) by (auto simp: transport_ok_def device_ok_def)
  have "length qs = length (queue_config (mt_device t))" "mt_queue_evts t = length qs"
    using assms(1) Some by (auto simp: transport_ok_def dest: arg_cong [where f = length])
  then show ?thesis
    using device_activate_total [OF w _ assms(3,4)] Some by (simp add: transport_activate_def Let_def)
      (metis (mono_tags, lifting) case_prod_conv length_map option.case(2) option.discI result.case(2))
qed

lemma mmio_write_total:
  assumes "transport_ok t" "env_signal_ok env" "env_start_ok env" "env_gvproxy_ok env"
  shows "mmio_write env offset data t chip \<noteq> None"
proof -
  have "action_register env offset v t chip \<noteq> None" for v
  proof -
    have "set_device_status env v t \<noteq> None"
      using transport_activate_total [OF assms(1) _ assms(3,4)] by (simp add: set_device_status_def Let_def)
    then obtain u where "set_device_status env v t = Some u" by blast
    then show ?thesis using assms(2) by (simp add: action_register_def split: prod.split)
  qed
  then show ?thesis by (simp add: mmio_write_def Let_def split: option.split)
qed

lemma mmio_read_total:
  assumes "length (config_bytes (mt_device t)) < 2 ^ 63" "length data < 2 ^ 63"
  shows "\<exists>data'. mmio_read t offset data = Some data'"
  using read_config_slice_reads [OF assms, of "offset - 0x100"]
  by (auto simp: mmio_read_def read_config_bytes split: option.split)

lemma handler_total:
  assumes "handler_ok n hdl" "env_signal_ok env" "env_start_ok env" "env_gvproxy_ok env" "length data < 2 ^ 63"
  shows "\<exists>r. handler_write env offset data hdl chip = Some r" "\<exists>data'. handler_read chip hdl offset data = Some data'"
proof -
  show "\<exists>r. handler_write env offset data hdl chip = Some r"
    using assms mmio_write_total [of _ env offset data chip]
    by (cases hdl) (auto split: prod.split option.split)
  show "\<exists>data'. handler_read chip hdl offset data = Some data'"
    using assms mmio_read_total [of _ data offset] by (cases hdl) auto
qed

section \<open>The machine as a state machine\<close>

text \<open>
  Memory is allocated and the devices are registered; then the processor exits, a device thread
  raises its interrupt, or a device thread writes guest memory.
\<close>

inductive vm_reach :: "vm_state \<Rightarrow> bool" where
  start: "allocate_memory_with_size (Some p) True True t (fst (configure c n (partition_new now tsc t))) = (pt, Ok ()) \<Longrightarrow>
    0 < t \<Longrightarrow> unat t \<le> 2 ^ 62 \<Longrightarrow> register_devices ev vb image_id (Ok sz) pt = Some (Ok (m_partition (vs_machine s))) \<Longrightarrow> vm_reach s"
| exit: "vm_reach s \<Longrightarrow> handle_exit fuel ho ctx e s = Some (Some (Ok (s', b))) \<Longrightarrow> vm_reach s'"
| signal: "vm_reach s \<Longrightarrow> pt = m_partition (vs_machine s) \<Longrightarrow> n \<in> set virtio_names \<Longrightarrow>
    pt_mmio_handlers pt n = Some (HandlerVirtio t) \<Longrightarrow>
    try_signal env status (mt_interrupt t) (pt_irqchip pt) = (it, chip, out, r) \<Longrightarrow>
    vm_reach (s\<lparr>vs_machine := (vs_machine s)\<lparr>m_partition := pt\<lparr>pt_mmio_handlers :=
      (pt_mmio_handlers pt)(n \<mapsto> HandlerVirtio (t\<lparr>mt_interrupt := it\<rparr>)), pt_irqchip := chip\<rparr>,
      m_injected := m_injected (vs_machine s) @ out\<rparr>\<rparr>)"
| memory: "vm_reach s \<Longrightarrow> vm_reach (s\<lparr>vs_heap := h\<rparr>)"

inductive_cases vm_reach_elims: "vm_reach s"

lemma start_ok:
  assumes "allocate_memory_with_size (Some p) True True t (fst (configure c n (partition_new now tsc t))) = (pt, Ok ())"
    and "0 < t" "unat t \<le> 2 ^ 62" "register_devices ev vb image_id (Ok sz) pt = Some (Ok pt')"
  shows "partition_ok pt'"
proof -
  let ?p0 = "fst (configure c n (partition_new now tsc t))"
  have p0: "mm_regions (pt_memory ?p0) = []" "mm_mmio_regions (pt_memory ?p0) = []"
    by (simp_all add: configure_def partition_new_def memory_manager_new_def)
  have m: "mm_regions (pt_memory pt) = ram_regions p t" "mm_mmio_regions (pt_memory pt) = []"
    using allocate_regions [OF p0(1), of p t] assms(1) p0(2) by auto
  have free: "windows_free (mm_regions (pt_memory pt))"
    using register_devices_not_free [OF m assms(2,3), of ev vb image_id sz] windows_free_ram [OF assms(2,3), of p] assms(4) m(1)
    by fastforce
  have ev: "device_events_ok ev"
    using register_devices_no_events [OF free m(2), of ev vb image_id sz] assms(4) by auto
  show ?thesis
    using register_devices_ok [OF free m(2) ev, of vb image_id sz] assms(4) ioapic_new_wf by (auto simp: partition_ok_def)
qed

lemma signal_ok:
  assumes "partition_ok pt" "n \<in> set virtio_names" "pt_mmio_handlers pt n = Some (HandlerVirtio t)"
    and "try_signal env status (mt_interrupt t) (pt_irqchip pt) = (it, chip, out, r)"
  shows "partition_ok (pt\<lparr>pt_mmio_handlers := (pt_mmio_handlers pt)(n \<mapsto> HandlerVirtio (t\<lparr>mt_interrupt := it\<rparr>)),
    pt_irqchip := chip\<rparr>)"
proof -
  obtain st where st: "pt_irqchip pt = ChipIoApic st" "ioapic_wf st" "quiescent st"
    using assms(1) by (auto simp: partition_ok_def)
  have hs: "handlers_ok (pt_mmio_handlers pt)" using assms(1) by (simp add: partition_ok_def)
  obtain m where m: "m \<in> set device_mmio" "mr_handler m = Some n"
    using assms(2) by (fastforce simp: virtio_names_def device_mmio_def)
  have "handler_ok n (HandlerVirtio t)" by (rule handlers_ok_lookup [OF hs m assms(3)])
  then have "handler_ok n (HandlerVirtio (t\<lparr>mt_interrupt := it\<rparr>))" by (simp add: transport_ok_def)
  moreover have "\<exists>st'. chip = ChipIoApic st' \<and> ioapic_wf st' \<and> quiescent st'"
    using assms(4) st(1) ioapic_set_irq_wf [OF st(2,3), of "env_whv env" "it_irq_line (mt_interrupt t)"]
    by (auto simp: try_signal_def Let_def split: prod.splits)
  ultimately show ?thesis using assms(1) handlers_ok_update by (simp add: partition_ok_def)
qed

lemma vm_reach_ok: "vm_reach s \<Longrightarrow> vm_ok s"
proof (induction rule: vm_reach.induct)
  case start
  then show ?case using start_ok by blast
next
  case exit
  then show ?case using handle_exit_ok by blast
next
  case signal
  then show ?case using signal_ok by simp
qed simp

section \<open>Properties\<close>

text \<open>
  C1.  The machine as a whole keeps its invariants: whatever the guest executes, however the
  emulator and the host answer and whenever device threads raise interrupts, in every state that is
  reached the device windows are the registered ones, no deliverable interrupt is left undelivered
  in the I/O APIC, and every virtio device has a transport whose device has acknowledged only
  features it offers and is active exactly while its worker holds the queues.
\<close>

theorem machine_invariant:
  assumes "vm_reach s"
  defines "pt \<equiv> m_partition (vs_machine s)"
  shows "mm_mmio_regions (pt_memory pt) = device_mmio \<and>
    (\<exists>st. pt_irqchip pt = ChipIoApic st \<and> length (io_ioredtbl st) = 24 \<and>
       (\<forall>i. bit (io_irr st) i \<longrightarrow> i < 24 \<and>
          (e_masked (io_ioredtbl st ! i) \<or> e_level (io_ioredtbl st ! i) \<and> e_remote (io_ioredtbl st ! i)))) \<and>
    (\<forall>n \<in> set virtio_names. \<exists>t. pt_mmio_handlers pt n = Some (HandlerVirtio t) \<and>
       acked_features (mt_device t) AND NOT (avail_features (mt_device t)) = 0 \<and>
       (is_activated (mt_device t) \<longleftrightarrow> worker_queues (mt_device t) \<noteq> None))"
proof -
  have ok: "partition_ok pt" using vm_reach_ok [OF assms(1)] by (simp add: pt_def)
  then obtain st where st: "pt_irqchip pt = ChipIoApic st" "ioapic_wf st" "quiescent st" by (auto simp: partition_ok_def)
  have "length (io_ioredtbl st) = 24 \<and> (\<forall>i. bit (io_irr st) i \<longrightarrow> i < 24 \<and>
      (e_masked (io_ioredtbl st ! i) \<or> e_level (io_ioredtbl st ! i) \<and> e_remote (io_ioredtbl st ! i)))"
    using st(2,3) by (auto simp: ioapic_wf_def quiescent_def deliverable_def IOAPIC_NUM_PINS_def)
  moreover have "\<exists>t. pt_mmio_handlers pt n = Some (HandlerVirtio t) \<and> transport_ok t" if n: "n \<in> set virtio_names" for n
  proof -
    have "\<exists>m \<in> set device_mmio. mr_handler m = Some n" using n by (auto simp: virtio_names_def device_mmio_def)
    then obtain hdl where hdl: "pt_mmio_handlers pt n = Some hdl" "handler_ok n hdl"
      using ok unfolding partition_ok_def handlers_ok_def by (metis option.inject)
    have "n \<noteq> ''ioapic''" "n \<noteq> ''pci_ecam''" using n by (auto simp: virtio_names_def)
    then show ?thesis using hdl by (cases hdl) auto
  qed
  ultimately show ?thesis using ok st(1) by (simp add: partition_ok_def transport_ok_def device_ok_def) blast
qed

text \<open>A machine with 5 GiB of memory and a disk of 1 GiB, just after its devices were registered.\<close>

definition demo_start :: partition where
  "demo_start = fst (allocate_memory_with_size (Some 0x10000) True True 0x140000000
     (fst (configure True 1 (partition_new 0 0 0x140000000))))"

definition demo_running :: vm_state where
  "demo_running = demo_vm\<lparr>vs_machine := demo_machine\<lparr>m_partition :=
     (case register_devices (\<lambda>_ _. True) demo_bits [] (Ok (0x40000000, 512)) demo_start of Some (Ok p) \<Rightarrow> p | _ \<Rightarrow> demo_start)\<rparr>\<rparr>"

lemma demo_running_reach: "vm_reach demo_running"
proof -
  let ?p0 = "fst (configure True 1 (partition_new 0 0 0x140000000))"
  have p0: "mm_regions (pt_memory ?p0) = []" "mm_mmio_regions (pt_memory ?p0) = []"
    by (simp_all add: configure_def partition_new_def memory_manager_new_def)
  have a: "allocate_memory_with_size (Some 0x10000) True True 0x140000000 ?p0 = (demo_start, Ok ())"
    "mm_regions (pt_memory demo_start) = ram_regions 0x10000 0x140000000" "mm_mmio_regions (pt_memory demo_start) = []"
    using allocate_regions [OF p0(1), of "0x10000" "0x140000000"] p0(2) by (auto simp: demo_start_def)
  have "windows_free (mm_regions (pt_memory demo_start))" unfolding a(2) by (subst windows_free_ram) simp_all
  then obtain pt' where "register_devices (\<lambda>_ _. True) demo_bits [] (Ok (0x40000000, 512)) demo_start = Some (Ok pt')"
    using register_devices_ok [OF _ a(3), of "\<lambda>_ _. True" demo_bits "[]" "(0x40000000, 512)"]
    by (auto simp: device_events_ok_def dev_events_def)
  then show ?thesis
    by (intro vm_reach.start [OF a(1), of "\<lambda>_ _. True" demo_bits "[]" "(0x40000000, 512)"]) (simp_all add: demo_running_def)
qed

theorem machine_invariant_witness:
  "mm_mmio_regions (pt_memory (m_partition (vs_machine demo_running))) = device_mmio \<and>
   (\<exists>t. pt_mmio_handlers (m_partition (vs_machine demo_running)) ''virtio_net'' = Some (HandlerVirtio t))"
  using machine_invariant [OF demo_running_reach] by (auto simp: virtio_names_def)

text \<open>
  An access served by the handler of a window: a read returns what that handler reads at the offset
  from the start of the window, and a write replaces that handler, and the controller, by what the
  handler makes of it and touches nothing else of the devices and of the memory map.
\<close>

abbreviation in_window :: "mmio_region \<Rightarrow> guest_address \<Rightarrow> bool" where
  "in_window w gpa \<equiv> unat (mr_gpa w) \<le> unat gpa \<and> unat gpa < unat (mr_gpa w) + unat (mr_size w)"

definition read_served :: "mmio_env \<Rightarrow> mmio_region \<Rightarrow> guest_address \<Rightarrow> u8 \<Rightarrow> u8 list \<Rightarrow> machine \<Rightarrow> bool" where
  "read_served env w gpa n data m \<longleftrightarrow>
     (\<exists>name hdl bs. mr_handler w = Some name \<and> pt_mmio_handlers (m_partition m) name = Some hdl \<and>
        handler_read (pt_irqchip (m_partition m)) hdl (gpa - mr_gpa w) (take (unat n) data) = Some bs \<and>
        memory_callback env gpa DirRead n data m = Some (m, bs @ drop (unat n) data, S_OK))"

definition write_served :: "mmio_env \<Rightarrow> mmio_region \<Rightarrow> guest_address \<Rightarrow> u8 \<Rightarrow> u8 list \<Rightarrow> machine \<Rightarrow> bool" where
  "write_served env w gpa n data m \<longleftrightarrow>
     (\<exists>name hdl hdl' chip' out effs m'.
        mr_handler w = Some name \<and> pt_mmio_handlers (m_partition m) name = Some hdl \<and>
        handler_write env (gpa - mr_gpa w) (take (unat n) data) hdl (pt_irqchip (m_partition m)) =
          Some (hdl', chip', out, effs) \<and>
        memory_callback env gpa DirWrite n data m = Some (m', data, S_OK) \<and>
        m_partition m' = (m_partition m)\<lparr>pt_mmio_handlers := (pt_mmio_handlers (m_partition m))(name \<mapsto> hdl'),
          pt_irqchip := chip'\<rparr> \<and>
        m_injected m' = m_injected m @ out \<and> m_effects m' = m_effects m @ effs)"

lemma window_served:
  assumes ok: "machine_ok m" and w: "w \<in> set device_mmio" "in_window w gpa"
    and env: "env_signal_ok env" "env_start_ok env" "env_gvproxy_ok env" and len: "length data = 8" "unat n \<le> 8"
  shows "read_served env w gpa n data m \<and> write_served env w gpa n data m"
proof -
  let ?pt = "m_partition m"
  have f: "find_mmio (pt_memory ?pt) gpa = Some w"
    using find_mmio_eq [of "pt_memory ?pt" w gpa] ok w device_mmio_wf by (simp add: partition_ok_def)
  obtain name hdl where hdl: "mr_handler w = Some name" "pt_mmio_handlers ?pt name = Some hdl" "handler_ok name hdl"
    using ok w(1) unfolding partition_ok_def handlers_ok_def by blast
  have l: "length (take (unat n) data) < 2 ^ 63" using len by simp
  obtain hdl' chip' out effs where
    wr: "handler_write env (gpa - mr_gpa w) (take (unat n) data) hdl (pt_irqchip ?pt) = Some (hdl', chip', out, effs)"
    using handler_total(1) [OF hdl(3) env l] by (metis prod_cases4)
  obtain bs where rd: "handler_read (pt_irqchip ?pt) hdl (gpa - mr_gpa w) (take (unat n) data) = Some bs"
    using handler_total(2) [OF hdl(3) env l] by blast
  show ?thesis
    using f hdl(1,2) wr rd len by (simp add: read_served_def write_served_def memory_callback_def Let_def)
qed



end
