(* ===== verification/Acpi.thy ===== *)
theory Acpi
  imports Platform Worker
begin

text \<open>
  The ACPI tables (\<^verbatim>\<open>src/acpi.rs\<close>, and \<^verbatim>\<open>create_madt\<close> of \<^verbatim>\<open>src/cpu.rs\<close>) and their place in guest
  memory.  The \<^verbatim>\<open>acpi_tables\<close> crate, which builds the tables, is the parameter \<open>acpi_crate\<close>; what is
  relied on of it is \<open>crate_ok\<close>.
\<close>

section \<open>The crate\<close>

record 'sdt acpi_crate =
  sdt_new :: "string \<Rightarrow> nat \<Rightarrow> u8 \<Rightarrow> string \<Rightarrow> string \<Rightarrow> u32 \<Rightarrow> 'sdt"
  sdt_append :: "'sdt \<Rightarrow> u8 list \<Rightarrow> 'sdt"
  sdt_write :: "'sdt \<Rightarrow> nat \<Rightarrow> u8 list \<Rightarrow> 'sdt"
  sdt_update_checksum :: "'sdt \<Rightarrow> 'sdt"
  sdt_as_slice :: "'sdt \<Rightarrow> u8 list"
  rsdp_new :: "string \<Rightarrow> u64 \<Rightarrow> u8 list"
  rsdp_len :: nat
  aml_bytes :: "aml \<Rightarrow> u8 list"
  generic_address_bytes :: "generic_address \<Rightarrow> u8 list"

text \<open>
  The documented behaviour: a new table has the given length and signature; appending adds the
  bytes at the end, writing replaces bytes in place, and both keep every other byte, apart from
  the length field (bytes 4 to 7) and the checksum (byte 9) of the header; a generic address is 12
  bytes long, and the root pointer is 36 bytes long with the address of the XSDT at byte 24.
\<close>

definition crate_ok :: "'sdt acpi_crate \<Rightarrow> bool" where
  "crate_ok c \<longleftrightarrow>
     (\<forall>sig n rev oem tab orev. 36 \<le> n \<longrightarrow> length sig = 4 \<longrightarrow>
        length (sdt_as_slice c (sdt_new c sig n rev oem tab orev)) = n \<and>
        take 4 (sdt_as_slice c (sdt_new c sig n rev oem tab orev)) = map of_char sig) \<and>
     (\<forall>s bs. 36 \<le> length (sdt_as_slice c s) \<longrightarrow>
        length (sdt_as_slice c (sdt_append c s bs)) = length (sdt_as_slice c s) + length bs \<and>
        drop (length (sdt_as_slice c s)) (sdt_as_slice c (sdt_append c s bs)) = bs \<and>
        (\<forall>i < length (sdt_as_slice c s). i < 4 \<or> 9 < i \<longrightarrow>
           sdt_as_slice c (sdt_append c s bs) ! i = sdt_as_slice c s ! i)) \<and>
     (\<forall>s off bs. 10 \<le> off \<longrightarrow> off + length bs \<le> length (sdt_as_slice c s) \<longrightarrow>
        length (sdt_as_slice c (sdt_write c s off bs)) = length (sdt_as_slice c s) \<and>
        take (length bs) (drop off (sdt_as_slice c (sdt_write c s off bs))) = bs \<and>
        (\<forall>i < length (sdt_as_slice c s). i < off \<or> off + length bs \<le> i \<longrightarrow> i \<noteq> 9 \<longrightarrow>
           sdt_as_slice c (sdt_write c s off bs) ! i = sdt_as_slice c s ! i)) \<and>
     (\<forall>s. 36 \<le> length (sdt_as_slice c s) \<longrightarrow>
        length (sdt_as_slice c (sdt_update_checksum c s)) = length (sdt_as_slice c s) \<and>
        (\<forall>i < length (sdt_as_slice c s). i \<noteq> 9 \<longrightarrow>
           sdt_as_slice c (sdt_update_checksum c s) ! i = sdt_as_slice c s ! i)) \<and>
     (\<forall>g. length (generic_address_bytes c g) = 12) \<and>
     (\<forall>oem x. length (rsdp_new c oem x) = 36 \<and> take 8 (drop 24 (rsdp_new c oem x)) = to_le 8 x) \<and>
     rsdp_len c = 36"

section \<open>The tables\<close>

definition FACP_DSDT_OFFSET :: nat where "FACP_DSDT_OFFSET = 140"

record pci_range_entry =
  pr_base_address :: u64
  pr_segment :: u16
  pr_start :: u8
  pr_end :: u8
  pr_reserved :: u32

definition pci_range_entry_bytes :: "pci_range_entry \<Rightarrow> u8 list" where
  "pci_range_entry_bytes e =
     to_le 8 (pr_base_address e) @ to_le 2 (pr_segment e) @ [pr_start e, pr_end e] @ to_le 4 (pr_reserved e)"

definition create_dsdt_table :: "'sdt acpi_crate \<Rightarrow> device_manager \<Rightarrow> cpu_manager \<Rightarrow> 'sdt" where
  "create_dsdt_table c dm cm =
     (let dsdt = sdt_new c ''DSDT'' 36 6 ''CLOUDH'' ''CHDSDT  '' 1;
          bytes = concat (map (aml_bytes c) (device_manager_aml dm)) @
                  concat (map (aml_bytes c) (cpu_manager_aml cm))
      in sdt_append c dsdt bytes)"

definition write_address :: "'sdt acpi_crate \<Rightarrow> nat \<Rightarrow> generic_address option \<Rightarrow> 'sdt \<Rightarrow> 'sdt" where
  "write_address c off a s =
     (case a of Some address \<Rightarrow> sdt_write c s off (generic_address_bytes c address) | None \<Rightarrow> s)"

definition create_facp_table :: "'sdt acpi_crate \<Rightarrow> u64 \<Rightarrow> device_manager \<Rightarrow> 'sdt" where
  "create_facp_table c dsdt_offset dm =
     (let a = dm_acpi_platform_addresses dm;
          facp = sdt_new c ''FACP'' 276 6 ''CLOUDH'' ''CHFACP  '' 1;
          facp = write_address c 116 (pa_reset_reg_address a) facp;
          facp = (if pa_reset_reg_address a \<noteq> None then sdt_write c facp 128 [1] else facp);
          facp = write_address c 244 (pa_sleep_control_reg_address a) facp;
          facp = write_address c 256 (pa_sleep_status_reg_address a) facp;
          facp = write_address c 208 (pa_pm_timer_address a) facp;
          facp = (if pa_pm_timer_address a \<noteq> None then sdt_write c facp 76 (to_le 4 (0x608 :: u32)) else facp);
          facp = sdt_write c facp 91 [4];
          fadt_flags = push_bit 20 1 OR push_bit 10 1 OR push_bit 8 1 :: u32;
          facp = sdt_write c facp 112 (to_le 4 fadt_flags);
          facp = sdt_write c facp 131 [3];
          facp = sdt_write c facp FACP_DSDT_OFFSET (to_le 8 dsdt_offset);
          facp = sdt_write c facp 268 (map of_char ''CLOUDHYP'')
      in sdt_update_checksum c facp)"

definition create_mcfg_table :: "'sdt acpi_crate \<Rightarrow> pci_segment list \<Rightarrow> 'sdt" where
  "create_mcfg_table c pci_segments =
     (let mcfg = sdt_append c (sdt_new c ''MCFG'' 36 1 ''CLOUDH'' ''CHMCFG  '' 1) (to_le 8 (0 :: u64));
          mcfg = foldl (\<lambda>t segment. sdt_append c t (pci_range_entry_bytes
            \<lparr>pr_base_address = ps_mmio_config_address segment, pr_segment = ps_id segment,
             pr_start = 0, pr_end = 255, pr_reserved = 0\<rparr>)) mcfg pci_segments
      in sdt_update_checksum c mcfg)"

definition create_madt :: "'sdt acpi_crate \<Rightarrow> cpu_manager \<Rightarrow> 'sdt" where
  "create_madt c m =
     (let madt = sdt_new c ''APIC'' 44 5 ''CLOUDH'' ''CHMADT  '' 1;
          madt = sdt_write c madt 36 (to_le 8 APIC_START);
          madt = sdt_write c madt 32 (to_le 4 (0 :: u32));
          madt = foldl (\<lambda>t cpu. sdt_append c t (local_apic_bytes
            \<lparr>la_type = ACPI_APIC_PROCESSOR, la_length = 8, la_apic_id = ucast cpu, la_flags = 1,
             la_processor_id = ucast cpu\<rparr>)) madt (cpu_ids m);
          madt = sdt_append c madt (madt_ioapic_bytes
            \<lparr>mi_type = ACPI_APIC_IO, mi_length = 12, mi_ioapic_id = 0, mi_reserved = 0,
             mi_apic_address = ucast IOAPIC_START, mi_gsi_base = 0\<rparr>);
          madt = sdt_append c madt (interrupt_source_override_bytes
            \<lparr>so_type = ACPI_APIC_XRUPT_OVERRIDE, so_length = 10, so_bus = 0, so_source = 0,
             so_gsi = 2, so_flags = 0\<rparr>)
      in sdt_update_checksum c madt)"

abbreviation sdt_len :: "'sdt acpi_crate \<Rightarrow> 'sdt \<Rightarrow> u64" where
  "sdt_len c s \<equiv> of_nat (length (sdt_as_slice c s))"

definition create_xsdt :: "'sdt acpi_crate \<Rightarrow> u64 list \<Rightarrow> 'sdt" where
  "create_xsdt c pointers =
     sdt_update_checksum c
       (foldl (\<lambda>t p. sdt_append c t (to_le 8 p)) (sdt_new c ''XSDT'' 36 1 ''CLOUDH'' ''CHXSDT  '' 1) pointers)"

definition create_acpi_tables_internal ::
  "'sdt acpi_crate \<Rightarrow> u64 \<Rightarrow> device_manager \<Rightarrow> cpu_manager \<Rightarrow> (u8 list \<times> u8 list \<times> u64 list) panics" where
  "create_acpi_tables_internal c dsdt_addr dm cm =
     (let dsdt = create_dsdt_table c dm cm;
          facp = create_facp_table c dsdt_addr dm;
          madt = create_madt c cm;
          mcfg = create_mcfg_table c (dm_pci_segments dm)
      in case checked_add dsdt_addr (sdt_len c dsdt) of
           None \<Rightarrow> None
         | Some facp_addr \<Rightarrow>
         (case checked_add facp_addr (sdt_len c facp) of
            None \<Rightarrow> None
          | Some madt_addr \<Rightarrow>
          (case checked_add madt_addr (sdt_len c madt) of
             None \<Rightarrow> None
           | Some mcfg_addr \<Rightarrow>
               let pointers = [facp_addr, madt_addr, mcfg_addr];
                   xsdt = create_xsdt c pointers
               in case checked_add mcfg_addr (sdt_len c mcfg) of
                    None \<Rightarrow> None
                  | Some xsdt_addr \<Rightarrow>
                      Some (rsdp_new c ''CLOUDH'' xsdt_addr,
                        sdt_as_slice c dsdt @ sdt_as_slice c facp @ sdt_as_slice c madt @
                        sdt_as_slice c mcfg @ sdt_as_slice c xsdt,
                        pointers))))"

text \<open>The result of the two writes is dropped.\<close>

definition write_dropping_error :: "memory_manager \<Rightarrow> heap \<Rightarrow> u8 list \<Rightarrow> guest_address \<Rightarrow> heap" where
  "write_dropping_error mm h bs a = (case write_guest_memory mm h bs a of Ok h' \<Rightarrow> h' | Err _ \<Rightarrow> h)"

definition create_acpi_tables ::
  "'sdt acpi_crate \<Rightarrow> device_manager \<Rightarrow> cpu_manager \<Rightarrow> memory_manager \<Rightarrow> heap \<Rightarrow> (heap \<times> guest_address) panics" where
  "create_acpi_tables c dm cm mm h =
     (let rsdp_addr = RSDP_POINTER
      in case checked_add rsdp_addr (of_nat (rsdp_len c)) of
           None \<Rightarrow> None
         | Some dsdt_addr \<Rightarrow>
             (case create_acpi_tables_internal c dsdt_addr dm cm of
                None \<Rightarrow> None
              | Some (rsdp, tables_bytes, _) \<Rightarrow>
                  let h1 = write_dropping_error mm h rsdp rsdp_addr;
                      h2 = write_dropping_error mm h1 tables_bytes dsdt_addr
                  in Some (h2, rsdp_addr)))"

section \<open>The bytes of the tables\<close>

lemma new_length: "crate_ok c \<Longrightarrow> 36 \<le> n \<Longrightarrow> length sig = 4 \<Longrightarrow> length (sdt_as_slice c (sdt_new c sig n rv oem tab orev)) = n"
  by (simp add: crate_ok_def)

lemma append_length:
  "crate_ok c \<Longrightarrow> 36 \<le> length (sdt_as_slice c s) \<Longrightarrow>
   length (sdt_as_slice c (sdt_append c s bs)) = length (sdt_as_slice c s) + length bs"
  by (simp add: crate_ok_def)

lemma append_tail:
  assumes crate: "crate_ok c" and len: "36 \<le> length (sdt_as_slice c s)"
  shows "drop 36 (sdt_as_slice c (sdt_append c s bs)) = drop 36 (sdt_as_slice c s) @ bs"
proof -
  let ?S = "sdt_as_slice c s" and ?A = "sdt_as_slice c (sdt_append c s bs)"
  have a: "drop (length ?S) ?A = bs" "\<And>i. i < length ?S \<Longrightarrow> 9 < i \<Longrightarrow> ?A ! i = ?S ! i"
    using crate len by (simp_all add: crate_ok_def)
  have "?A = take (length ?S) ?A @ bs" using a(1) by (metis append_take_drop_id)
  moreover have "drop 36 (take (length ?S) ?A) = drop 36 ?S"
    using a(2) append_length [OF crate len, of bs] by (intro nth_equalityI) auto
  ultimately show ?thesis
    using len append_length [OF crate len, of bs]
    by (metis (no_types, lifting) drop_append append_take_drop_id drop_0 diff_is_0_eq length_take min.absorb2 le_add1)
qed

lemma write_length:
  "crate_ok c \<Longrightarrow> 10 \<le> off \<Longrightarrow> off + length bs \<le> length (sdt_as_slice c s) \<Longrightarrow>
   length (sdt_as_slice c (sdt_write c s off bs)) = length (sdt_as_slice c s)"
  by (simp add: crate_ok_def)

lemma write_at:
  "crate_ok c \<Longrightarrow> 10 \<le> off \<Longrightarrow> off + length bs \<le> length (sdt_as_slice c s) \<Longrightarrow>
   take (length bs) (drop off (sdt_as_slice c (sdt_write c s off bs))) = bs"
  by (simp add: crate_ok_def)

lemma write_elsewhere:
  assumes crate: "crate_ok c" and w: "10 \<le> off" "off + length bs \<le> length (sdt_as_slice c s)"
    and i: "10 \<le> i" "i + n \<le> off"
  shows "take n (drop i (sdt_as_slice c (sdt_write c s off bs))) = take n (drop i (sdt_as_slice c s))"
proof -
  have "\<And>j. j < length (sdt_as_slice c s) \<Longrightarrow> j < off \<Longrightarrow> j \<noteq> 9 \<Longrightarrow>
      sdt_as_slice c (sdt_write c s off bs) ! j = sdt_as_slice c s ! j"
    using crate w by (simp add: crate_ok_def)
  then show ?thesis using w i write_length [OF crate w] by (intro nth_equalityI) auto
qed

lemma checksum_length:
  "crate_ok c \<Longrightarrow> 36 \<le> length (sdt_as_slice c s) \<Longrightarrow>
   length (sdt_as_slice c (sdt_update_checksum c s)) = length (sdt_as_slice c s)"
  by (simp add: crate_ok_def)

lemma checksum_keeps:
  assumes crate: "crate_ok c" and len: "36 \<le> length (sdt_as_slice c s)" and i: "10 \<le> i"
  shows "drop i (sdt_as_slice c (sdt_update_checksum c s)) = drop i (sdt_as_slice c s)"
proof -
  have "\<And>j. j < length (sdt_as_slice c s) \<Longrightarrow> j \<noteq> 9 \<Longrightarrow>
      sdt_as_slice c (sdt_update_checksum c s) ! j = sdt_as_slice c s ! j"
    using crate len by (simp add: crate_ok_def)
  then show ?thesis using len i checksum_length [OF crate len] by (intro nth_equalityI) auto
qed

lemma address_length: "crate_ok c \<Longrightarrow> length (generic_address_bytes c a) = 12"
  by (simp add: crate_ok_def)

lemma write_address_length:
  "crate_ok c \<Longrightarrow> 10 \<le> off \<Longrightarrow> off + 12 \<le> length (sdt_as_slice c s) \<Longrightarrow>
   length (sdt_as_slice c (write_address c off a s)) = length (sdt_as_slice c s)"
  by (simp add: write_address_def write_length address_length split: option.split)

lemmas table_lengths = new_length append_length write_length checksum_length write_address_length address_length

text \<open>The fixed description table holds the address of the DSDT at byte 140.\<close>

lemma facp_table:
  assumes crate: "crate_ok c"
  shows "length (sdt_as_slice c (create_facp_table c a dm)) = 276"
  "take 8 (drop 140 (sdt_as_slice c (create_facp_table c a dm))) = to_le 8 a"
proof -
  define t where "t = sdt_write c (sdt_write c (sdt_write c
      (let p = dm_acpi_platform_addresses dm;
          facp = sdt_new c ''FACP'' 276 6 ''CLOUDH'' ''CHFACP  '' 1;
          facp = write_address c 116 (pa_reset_reg_address p) facp;
          facp = (if pa_reset_reg_address p \<noteq> None then sdt_write c facp 128 [1] else facp);
          facp = write_address c 244 (pa_sleep_control_reg_address p) facp;
          facp = write_address c 256 (pa_sleep_status_reg_address p) facp;
          facp = write_address c 208 (pa_pm_timer_address p) facp
       in (if pa_pm_timer_address p \<noteq> None then sdt_write c facp 76 (to_le 4 (0x608 :: u32)) else facp))
      91 [4]) 112 (to_le 4 (push_bit 20 1 OR push_bit 10 1 OR push_bit 8 1 :: u32))) 131 [3]"
  have t: "length (sdt_as_slice c t) = 276"
    by (simp add: t_def Let_def table_lengths crate)
  have e: "create_facp_table c a dm = sdt_update_checksum c
      (sdt_write c (sdt_write c t 140 (to_le 8 a)) 268 (map of_char ''CLOUDHYP''))"
    by (simp add: create_facp_table_def t_def Let_def FACP_DSDT_OFFSET_def)
  show "length (sdt_as_slice c (create_facp_table c a dm)) = 276" by (simp add: e t table_lengths crate)
  show "take 8 (drop 140 (sdt_as_slice c (create_facp_table c a dm))) = to_le 8 a"
    using write_at [OF crate, of 140 "to_le 8 a" t] t
    by (simp add: e checksum_keeps table_lengths write_elsewhere crate)
qed

lemma append_all:
  assumes crate: "crate_ok c" and len: "36 \<le> length (sdt_as_slice c s)"
  shows "drop 36 (sdt_as_slice c (foldl (\<lambda>t x. sdt_append c t (f x)) s xs)) =
      drop 36 (sdt_as_slice c s) @ concat (map f xs)"
    and "length (sdt_as_slice c (foldl (\<lambda>t x. sdt_append c t (f x)) s xs)) =
      length (sdt_as_slice c s) + length (concat (map f xs))"
  using len by (induction xs arbitrary: s) (simp_all add: append_length append_tail crate)

lemma xsdt_table:
  assumes crate: "crate_ok c"
  shows "length (sdt_as_slice c (create_xsdt c ps)) = 36 + 8 * length ps"
  "drop 36 (sdt_as_slice c (create_xsdt c ps)) = concat (map (to_le 8) ps)"
proof -
  let ?n = "sdt_new c ''XSDT'' 36 1 ''CLOUDH'' ''CHXSDT  '' 1"
  have n: "length (sdt_as_slice c ?n) = 36" by (simp add: new_length crate)
  note a = append_all [OF crate, of ?n "to_le 8" ps, unfolded n, OF order_refl]
  have "length (concat (map (to_le 8) ps)) = 8 * length ps"
    by (induction ps) simp_all
  then show "length (sdt_as_slice c (create_xsdt c ps)) = 36 + 8 * length ps"
    "drop 36 (sdt_as_slice c (create_xsdt c ps)) = concat (map (to_le 8) ps)"
    using a n by (simp_all add: create_xsdt_def checksum_length checksum_keeps crate)
qed

lemma rsdp_bytes:
  assumes crate: "crate_ok c"
  shows "length (rsdp_new c oem x) = 36" "take 8 (drop 24 (rsdp_new c oem x)) = to_le 8 x" "rsdp_len c = 36"
  using crate by (simp_all add: crate_ok_def)

section \<open>The tables in guest memory\<close>

definition acpi_bytes :: "'sdt acpi_crate \<Rightarrow> device_manager \<Rightarrow> cpu_manager \<Rightarrow> nat" where
  "acpi_bytes c dm cm =
     36 + length (sdt_as_slice c (create_dsdt_table c dm cm)) + 276 +
     length (sdt_as_slice c (create_madt c cm)) +
     length (sdt_as_slice c (create_mcfg_table c (dm_pci_segments dm))) + 60"

lemma checked_add_of_nat:
  "unat a + n < 2 ^ 64 \<Longrightarrow> checked_add a (of_nat n) = Some (a + of_nat n :: u64)"
  by (simp add: checked_add_def unat_of_nat)

lemma write_dropping_error_view:
  assumes "mm_wf mm" "access_ok mm a (Suc (length bs)) r p" "perms_contain (rg_perms r) PERM_WRITE"
  shows "guest_view mm (write_dropping_error mm h bs a) = view_update (guest_view mm h) a bs"
proof -
  have l: "length bs < 2 ^ 63" using assms(1,2) access_ok_bound by fastforce
  have "write_guest_memory mm h bs a = Ok (copy_to h (host_addr r p a) bs)"
    by (rule write_guest_memory_success [OF assms(1,2) l assms(3)])
  then show ?thesis using write_guest_memory_view [OF assms(1) l] by (simp add: write_dropping_error_def)
qed

text \<open>One after the other in memory: the root pointer and the tables.\<close>

lemma create_acpi_tables_view:
  fixes c :: "'sdt acpi_crate"
  assumes crate: "crate_ok c" and wf: "mm_wf mm"
    and acc: "access_ok mm RSDP_POINTER (Suc (acpi_bytes c dm cm)) r p" "perms_contain (rg_perms r) PERM_WRITE"
  defines "dsdt \<equiv> sdt_as_slice c (create_dsdt_table c dm cm)"
    and "madt \<equiv> sdt_as_slice c (create_madt c cm)"
    and "mcfg \<equiv> sdt_as_slice c (create_mcfg_table c (dm_pci_segments dm))"
  defines "facp_at \<equiv> 36 + length dsdt"
  defines "madt_at \<equiv> facp_at + 276"
  defines "mcfg_at \<equiv> madt_at + length madt"
  defines "xsdt_at \<equiv> mcfg_at + length mcfg"
  shows "\<exists>h'. create_acpi_tables c dm cm mm h = Some (h', RSDP_POINTER) \<and>
    view_range (guest_view mm h') RSDP_POINTER (xsdt_at + 60) = map Some
      (rsdp_new c ''CLOUDH'' (RSDP_POINTER + of_nat xsdt_at) @ dsdt @
       sdt_as_slice c (create_facp_table c (RSDP_POINTER + 36) dm) @ madt @ mcfg @
       sdt_as_slice c (create_xsdt c
         [RSDP_POINTER + of_nat facp_at, RSDP_POINTER + of_nat madt_at, RSDP_POINTER + of_nat mcfg_at])) \<and>
    (\<forall>b n. unat b + n \<le> unat RSDP_POINTER \<or> unat RSDP_POINTER + acpi_bytes c dm cm \<le> unat b \<and> unat b + n \<le> 2 ^ 64 \<longrightarrow>
       view_range (guest_view mm h') b n = view_range (guest_view mm h) b n)"
proof -
  let ?R = "RSDP_POINTER"
  let ?facp = "create_facp_table c (?R + 36) dm"
  let ?ps = "[?R + of_nat facp_at, ?R + of_nat madt_at, ?R + of_nat mcfg_at]"
  let ?rsdp = "rsdp_new c ''CLOUDH'' (?R + of_nat xsdt_at)"
  define T where "T = dsdt @ sdt_as_slice c ?facp @ madt @ mcfg @ sdt_as_slice c (create_xsdt c ?ps)"
  have tot: "acpi_bytes c dm cm = xsdt_at + 60"
    by (simp add: acpi_bytes_def dsdt_def madt_def mcfg_def xsdt_at_def mcfg_at_def madt_at_def facp_at_def)
  have R: "unat ?R = 0xE0000" by (simp add: RSDP_POINTER_def)
  have b: "xsdt_at + 61 + 0xE0000 \<le> 2 ^ 63" using access_ok_bound [OF wf acc(1)] R tot by simp
  note at = xsdt_at_def mcfg_at_def madt_at_def facp_at_def
  have add: "checked_add (?R + of_nat i) (of_nat n) = Some (?R + of_nat (i + n))" if "i + n \<le> xsdt_at" for i n
  proof -
    have "unat (?R + of_nat i) = 0xE0000 + i" using b that R by (simp add: unat_word_ariths unat_of_nat)
    then show ?thesis using checked_add_of_nat [of "?R + of_nat i" n] b that by (simp add: add.assoc)
  qed
  note adds = add [of 36 "length dsdt"] add [of facp_at 276] add [of madt_at "length madt"] add [of mcfg_at "length mcfg"]
  have i: "create_acpi_tables_internal c (?R + 36) dm cm = Some (?rsdp, T, ?ps)"
    unfolding create_acpi_tables_internal_def Let_def T_def
      dsdt_def [symmetric] madt_def [symmetric] mcfg_def [symmetric]
    using adds facp_table(1) [OF crate, of "?R + 36" dm] by (simp add: at)
  have lT: "36 + length T = xsdt_at + 60"
    using facp_table(1) [OF crate] xsdt_table(1) [OF crate] by (simp add: T_def at)
  have lr: "length ?rsdp = 36" "rsdp_len c = 36" using rsdp_bytes [OF crate] by simp_all
  have s: "checked_add ?R (of_nat (rsdp_len c)) = Some (?R + 36)" using add [of 0 36] lr by (simp add: at)
  let ?h1 = "write_dropping_error mm h ?rsdp ?R"
  let ?h2 = "write_dropping_error mm ?h1 T (?R + 36)"
  have c: "create_acpi_tables c dm cm mm h = Some (?h2, ?R)"
    using i s by (simp add: create_acpi_tables_def)
  have a1: "access_ok mm ?R (Suc (length ?rsdp)) r p" using access_ok_less [OF acc(1)] lr tot lT by simp
  have a2: "access_ok mm (?R + 36) (Suc (length T)) r p"
    using access_ok_sub [OF wf acc(1), of 36 "Suc (length T)"] tot lT by simp
  have v: "guest_view mm ?h2 = view_update (view_update (guest_view mm h) ?R ?rsdp) (?R + 36) T"
    using write_dropping_error_view [OF wf a1 acc(2)] write_dropping_error_view [OF wf a2 acc(2)] by simp
  have u: "unat (?R + 36) = 0xE0000 + 36" by (simp add: RSDP_POINTER_def)
  have "view_range (guest_view mm ?h2) ?R 36 = map Some ?rsdp"
    using view_range_apart [of ?R 36 "?R + 36" T] view_range_written [of ?rsdp] lr u R lT b
    by (simp add: v)
  moreover have "view_range (guest_view mm ?h2) (?R + 36) (length T) = map Some T"
    using view_range_written [of T] lT b by (simp add: v)
  ultimately have "view_range (guest_view mm ?h2) ?R (36 + length T) = map Some (?rsdp @ T)"
    by (simp add: view_range_append)
  moreover have "view_range (guest_view mm ?h2) b n = view_range (guest_view mm h) b n"
    if "unat b + n \<le> unat ?R \<or> unat ?R + acpi_bytes c dm cm \<le> unat b \<and> unat b + n \<le> 2 ^ 64" for b n
    using view_range_apart [of b n "?R + 36" T] view_range_apart [of b n ?R ?rsdp] that lr u R lT tot b
    by (auto simp: v)
  ultimately show ?thesis using c unfolding lT unfolding T_def by blast
qed

section \<open>Properties\<close>

text \<open>
  C33.  The guest can walk the tables: starting from the root pointer at \<^verbatim>\<open>RSDP_POINTER\<close>, byte 24
  of it holds the address of the XSDT, the three entries of the XSDT hold the addresses of the
  FADT, the MADT and the MCFG, the FADT holds the address of the DSDT at byte 140, and at every
  one of these addresses guest memory holds the bytes of that table.
\<close>

theorem acpi_tables_linked:
  fixes c :: "'sdt acpi_crate"
  assumes "crate_ok c" "mm_wf mm"
    and "access_ok mm RSDP_POINTER (Suc (acpi_bytes c dm cm)) r p" "perms_contain (rg_perms r) PERM_WRITE"
  shows "\<exists>h' xsdt facp madt mcfg dsdt.
    create_acpi_tables c dm cm mm h = Some (h', RSDP_POINTER) \<and>
    view_range (guest_view mm h') (RSDP_POINTER + 24) 8 = map Some (to_le 8 xsdt) \<and>
    view_range (guest_view mm h') (xsdt + 36) 24 = map Some (to_le 8 facp @ to_le 8 madt @ to_le 8 mcfg) \<and>
    view_range (guest_view mm h') facp 276 = map Some (sdt_as_slice c (create_facp_table c dsdt dm)) \<and>
    view_range (guest_view mm h') madt (length (sdt_as_slice c (create_madt c cm))) =
      map Some (sdt_as_slice c (create_madt c cm)) \<and>
    view_range (guest_view mm h') mcfg (length (sdt_as_slice c (create_mcfg_table c (dm_pci_segments dm)))) =
      map Some (sdt_as_slice c (create_mcfg_table c (dm_pci_segments dm))) \<and>
    view_range (guest_view mm h') (facp + 140) 8 = map Some (to_le 8 dsdt) \<and>
    view_range (guest_view mm h') dsdt (length (sdt_as_slice c (create_dsdt_table c dm cm))) =
      map Some (sdt_as_slice c (create_dsdt_table c dm cm))"
proof -
  let ?R = "RSDP_POINTER"
  define dsdt where "dsdt = sdt_as_slice c (create_dsdt_table c dm cm)"
  define facp where "facp = sdt_as_slice c (create_facp_table c (?R + 36) dm)"
  define madt where "madt = sdt_as_slice c (create_madt c cm)"
  define mcfg where "mcfg = sdt_as_slice c (create_mcfg_table c (dm_pci_segments dm))"
  let ?fa = "36 + length dsdt" let ?ma = "?fa + 276" let ?ca = "?ma + length madt" let ?xa = "?ca + length mcfg"
  let ?ps = "[?R + of_nat ?fa, ?R + of_nat ?ma, ?R + of_nat ?ca]"
  let ?rsdp = "rsdp_new c ''CLOUDH'' (?R + of_nat ?xa)" and ?xsdt = "sdt_as_slice c (create_xsdt c ?ps)"
  obtain h' where h': "create_acpi_tables c dm cm mm h = Some (h', ?R)"
    "view_range (guest_view mm h') ?R (?xa + 60) = map Some (?rsdp @ dsdt @ facp @ madt @ mcfg @ ?xsdt)"
    using create_acpi_tables_view [OF assms, of h] unfolding dsdt_def facp_def madt_def mcfg_def by blast
  have part: "view_range (guest_view mm h') (?R + of_nat i) k =
      map Some (take k (drop i (?rsdp @ dsdt @ facp @ madt @ mcfg @ ?xsdt)))" if "i + k \<le> ?xa + 60" for i k
    using view_range_part [OF that, of "guest_view mm h'" ?R] unfolding h'(2) by (simp add: take_map drop_map)
  have l: "length ?rsdp = 36" "length facp = 276" "length ?xsdt = 60"
    using rsdp_bytes(1) [OF assms(1)] facp_table(1) [OF assms(1)] xsdt_table(1) [OF assms(1), of ?ps]
    by (simp_all add: facp_def)
  have rsdp: "view_range (guest_view mm h') (?R + 24) 8 = map Some (to_le 8 (?R + of_nat ?xa))"
    using part [of 24 8] l rsdp_bytes(2) [OF assms(1), of "''CLOUDH''" "?R + of_nat ?xa"] by simp
  have xsdt: "view_range (guest_view mm h') (?R + of_nat ?xa + 36) 24 = map Some (concat (map (to_le 8) ?ps))"
    using part [of "?xa + 36" 24] l xsdt_table(2) [OF assms(1), of ?ps] by (simp add: add.assoc)
  have tabs: "view_range (guest_view mm h') (?R + of_nat ?fa) 276 = map Some facp"
    "view_range (guest_view mm h') (?R + of_nat ?ma) (length madt) = map Some madt"
    "view_range (guest_view mm h') (?R + of_nat ?ca) (length mcfg) = map Some mcfg"
    "view_range (guest_view mm h') (?R + 36) (length dsdt) = map Some dsdt"
    using part [of ?fa 276] part [of ?ma "length madt"] part [of ?ca "length mcfg"] part [of 36 "length dsdt"] l
    by simp_all
  have "view_range (guest_view mm h') (?R + of_nat ?fa + 140) 8 = map Some (to_le 8 (?R + 36))"
    using view_range_part [of 140 8 276 "guest_view mm h'" "?R + of_nat ?fa"] tabs(1)
      facp_table(2) [OF assms(1), of "?R + 36" dm] by (simp add: take_map drop_map facp_def)
  with h'(1) rsdp xsdt tabs have "create_acpi_tables c dm cm mm h = Some (h', ?R) \<and>
    view_range (guest_view mm h') (?R + 24) 8 = map Some (to_le 8 (?R + of_nat ?xa)) \<and>
    view_range (guest_view mm h') (?R + of_nat ?xa + 36) 24 =
      map Some (to_le 8 (?R + of_nat ?fa) @ to_le 8 (?R + of_nat ?ma) @ to_le 8 (?R + of_nat ?ca)) \<and>
    view_range (guest_view mm h') (?R + of_nat ?fa) 276 = map Some facp \<and>
    view_range (guest_view mm h') (?R + of_nat ?ma) (length madt) = map Some madt \<and>
    view_range (guest_view mm h') (?R + of_nat ?ca) (length mcfg) = map Some mcfg \<and>
    view_range (guest_view mm h') (?R + of_nat ?fa + 140) 8 = map Some (to_le 8 (?R + 36)) \<and>
    view_range (guest_view mm h') (?R + 36) (length dsdt) = map Some dsdt" by simp
  then show ?thesis unfolding dsdt_def facp_def madt_def mcfg_def by (intro exI)
qed

text \<open>An instance of the crate for the witness: tables are lists of bytes.\<close>

definition demo_crate :: "u8 list acpi_crate" where
  "demo_crate =
     \<lparr>sdt_new = \<lambda>sig n rv oem tab orev. map of_char sig @ replicate (n - length sig) 0,
      sdt_append = \<lambda>s bs. s @ bs,
      sdt_write = \<lambda>s off bs. take off s @ bs @ drop (off + length bs) s,
      sdt_update_checksum = \<lambda>s. s[9 := - sum_list (s[9 := 0])],
      sdt_as_slice = \<lambda>s. s,
      rsdp_new = \<lambda>oem x. replicate 24 0 @ to_le 8 x @ replicate 4 0,
      rsdp_len = 36,
      aml_bytes = \<lambda>_. [],
      generic_address_bytes = \<lambda>_. replicate 12 0\<rparr>"

lemma demo_crate_ok: "crate_ok demo_crate"
  by (auto simp: crate_ok_def demo_crate_def nth_append)

definition demo_ram :: memory_manager where
  "demo_ram = \<lparr>mm_regions = [\<lparr>rg_gpa = 0, rg_size = 0x40000000, rg_perms = PERM_RWX, rg_hpa = Some 0x10000\<rparr>],
     mm_mmio_regions = [], mm_access_log = [], mm_acpi_address = None\<rparr>"

lemma demo_ram_wf: "mm_wf demo_ram"
  by (simp add: demo_ram_def mm_wf_def region_wf_def)

lemma demo_ram_access:
  assumes "unat a < 0x40000000" "unat a + n \<le> 0x40000000"
  shows "access_ok demo_ram a n (mm_regions demo_ram ! 0) 0x10000"
    "perms_contain (rg_perms (mm_regions demo_ram ! 0)) PERM_WRITE"
  using assms
  by (simp_all add: access_ok_def demo_ram_def find_region_def start_addr_def last_addr_def unchecked_add_def
      perms_contain_def PERM_RWX_def PERM_READ_def PERM_WRITE_def PERM_EXECUTE_def word_le_nat_alt)

definition demo_dm :: device_manager where
  "demo_dm = device_manager_init 0 (device_manager_new 0x40000000)"

definition demo_cm :: cpu_manager where
  "demo_cm = set_cpu_count 1 cpu_manager_new"

lemma demo_acpi_bytes: "acpi_bytes demo_crate demo_dm demo_cm = 542"
  by (simp add: acpi_bytes_def demo_crate_def create_dsdt_table_def create_madt_def create_mcfg_table_def Let_def
      demo_dm_def demo_cm_def device_manager_init_def device_manager_new_def add_acpi_platform_device_def
      checked_add_def set_cpu_count_def cpu_manager_new_def cpu_ids_def local_apic_bytes_def
      madt_ioapic_bytes_def interrupt_source_override_bytes_def pci_range_entry_bytes_def)

theorem acpi_tables_linked_witness:
  "\<exists>h' xsdt facp. create_acpi_tables demo_crate demo_dm demo_cm demo_ram (\<lambda>_. 0) = Some (h', RSDP_POINTER) \<and>
    view_range (guest_view demo_ram h') (RSDP_POINTER + 24) 8 = map Some (to_le 8 xsdt) \<and>
    view_range (guest_view demo_ram h') (xsdt + 36) 8 = map Some (to_le 8 (facp :: u64))"
proof -
  note acc = demo_ram_access [of RSDP_POINTER "Suc (acpi_bytes demo_crate demo_dm demo_cm)"]
  have u: "unat RSDP_POINTER = 0xE0000" by (simp add: RSDP_POINTER_def)
  have "unat RSDP_POINTER < 0x40000000" "unat RSDP_POINTER + Suc (acpi_bytes demo_crate demo_dm demo_cm) \<le> 0x40000000"
    unfolding u demo_acpi_bytes by simp_all
  note acc = acc [OF this]
  obtain h' xsdt facp madt mcfg where
    "create_acpi_tables demo_crate demo_dm demo_cm demo_ram (\<lambda>_. 0) = Some (h', RSDP_POINTER)"
    "view_range (guest_view demo_ram h') (RSDP_POINTER + 24) 8 = map Some (to_le 8 xsdt)"
    "view_range (guest_view demo_ram h') (xsdt + 36) 24 = map Some (to_le 8 (facp :: u64) @ to_le 8 (madt :: u64) @ to_le 8 (mcfg :: u64))"
    using acpi_tables_linked [OF demo_crate_ok demo_ram_wf acc, of "\<lambda>_. 0"] 
    by (elim exE conjE) (rule that, assumption+)
  moreover from this(3) have "view_range (guest_view demo_ram h') (xsdt + 36) 8 = map Some (to_le 8 facp)"
    using view_range_part [of 0 8 24 "guest_view demo_ram h'" "xsdt + 36"] by simp
  ultimately show ?thesis by blast
qed

text \<open>The processor entries of the MADT, and how ACPI reads such an entry.\<close>

definition acpi_entry_apic_id :: "u8 list \<Rightarrow> u8" where "acpi_entry_apic_id e = e ! 3"
definition acpi_entry_flags :: "u8 list \<Rightarrow> u32" where "acpi_entry_flags e = from_le (take 4 (drop 4 e))"

abbreviation cpu_entry :: "u32 \<Rightarrow> local_apic" where
  "cpu_entry i \<equiv> \<lparr>la_type = ACPI_APIC_PROCESSOR, la_length = 8, la_apic_id = ucast i, la_flags = 1,
     la_processor_id = ucast i\<rparr>"

lemma madt_table:
  assumes crate: "crate_ok c"
  shows "\<exists>rest. drop 44 (sdt_as_slice c (create_madt c m)) =
    concat (map (\<lambda>i. local_apic_bytes (cpu_entry i)) (cpu_ids m)) @ rest"
proof -
  define b where "b = sdt_write c (sdt_write c (sdt_new c ''APIC'' 44 5 ''CLOUDH'' ''CHMADT  '' 1) 36
    (to_le 8 APIC_START)) 32 (to_le 4 (0 :: u32))"
  define l where "l = foldl (\<lambda>t i. sdt_append c t (local_apic_bytes (cpu_entry i))) b (cpu_ids m)"
  have b: "length (sdt_as_slice c b) = 44" by (simp add: b_def table_lengths crate)
  have l: "drop 36 (sdt_as_slice c l) = drop 36 (sdt_as_slice c b) @
      concat (map (\<lambda>i. local_apic_bytes (cpu_entry i)) (cpu_ids m))" "36 \<le> length (sdt_as_slice c l)"
    unfolding l_def using append_all [OF crate, of b "\<lambda>i. local_apic_bytes (cpu_entry i)" "cpu_ids m"] b by simp_all
  obtain x y where "create_madt c m = sdt_update_checksum c (sdt_append c (sdt_append c l x) y)"
    by (simp add: create_madt_def Let_def l_def b_def)
  then have "drop 36 (sdt_as_slice c (create_madt c m)) = drop 36 (sdt_as_slice c l) @ x @ y"
    using l(2) by (simp add: checksum_keeps append_length append_tail crate)
  then have "drop 8 (drop 36 (sdt_as_slice c (create_madt c m))) =
      concat (map (\<lambda>i. local_apic_bytes (cpu_entry i)) (cpu_ids m)) @ x @ y"
    using l(1) b by simp
  then show ?thesis by auto
qed

lemma local_apic_layout:
  "local_apic_bytes (cpu_entry i) = [0, 8, ucast i, 1, 0, 0, 0, ucast i]"
  by (simp add: local_apic_bytes_def ACPI_APIC_PROCESSOR_def to_le_numeral)

lemma take_chunk:
  "\<forall>x \<in> set xs. length (f x) = n \<Longrightarrow> i < length xs \<Longrightarrow> take n (drop (n * i) (concat (map f xs) @ r)) = f (xs ! i)"
proof (induction xs arbitrary: i)
  case (Cons x xs)
  then show ?case by (cases i) simp_all
qed simp

text \<open>
  The processor entries of the MADT: the structure puts the flags before the processor
  number, where ACPI has the processor number, the APIC number and then the flags.  Read the way
  ACPI lays the entry out, every processor has APIC number 1 and none is enabled.
\<close>

theorem madt_processors_disabled:
  assumes "crate_ok c" "i < unat (cm_cpus m)"
  shows "acpi_entry_apic_id (take 8 (drop (44 + 8 * i) (sdt_as_slice c (create_madt c m)))) = 1 \<and>
    \<not> bit (acpi_entry_flags (take 8 (drop (44 + 8 * i) (sdt_as_slice c (create_madt c m))))) 0"
proof -
  obtain r where r: "drop 44 (sdt_as_slice c (create_madt c m)) =
      concat (map (\<lambda>i. local_apic_bytes (cpu_entry i)) (cpu_ids m)) @ r"
    by (rule exE [OF madt_table [OF assms(1), of m]])
  have "take 8 (drop (8 * i) (drop 44 (sdt_as_slice c (create_madt c m)))) = local_apic_bytes (cpu_entry (cpu_ids m ! i))"
    unfolding r
    using take_chunk [of "cpu_ids m" "\<lambda>i. local_apic_bytes (cpu_entry i)" 8 i r] assms(2)
    by (simp add: local_apic_layout cpu_ids_def)
  then have "take 8 (drop (44 + 8 * i) (sdt_as_slice c (create_madt c m))) = local_apic_bytes (cpu_entry (cpu_ids m ! i))"
    by (simp add: add.commute)
  then show ?thesis
    unfolding acpi_entry_apic_id_def acpi_entry_flags_def local_apic_layout by (simp add: bit_push_bit_iff)
qed

theorem madt_processors_disabled_witness:
  "acpi_entry_apic_id (take 8 (drop 44 (sdt_as_slice demo_crate (create_madt demo_crate demo_cm)))) = 1"
  using madt_processors_disabled [OF demo_crate_ok, of 0 demo_cm]
  by (simp add: demo_cm_def set_cpu_count_def)

end
