(* ===== verification/Linux_Boot.thy ===== *)
theory Linux_Boot
  imports Acpi Partition
begin

text \<open>
  Loading a Linux kernel (\<^verbatim>\<open>src/linux_boot.rs\<close>): the two image formats, the boot parameters in the
  zero page with the memory map, the page tables and the registers the kernel starts with.

  A file is the list of its bytes.  Errors are values, and a panic (a slice out of bounds, a
  vector that is too long) is \<open>None\<close>.
\<close>

section \<open>Image formats\<close>

definition le_at :: "nat \<Rightarrow> nat \<Rightarrow> u8 list \<Rightarrow> 'a::len word" where
  "le_at off n bs = from_le (take n (drop off bs))"

text \<open>
  \<^verbatim>\<open>seek\<close> and \<^verbatim>\<open>read_exact\<close> of a file: a position is a signed 64-bit number, and reading nothing
  past the end succeeds.
\<close>

definition read_file_at :: "u8 list \<Rightarrow> nat \<Rightarrow> nat \<Rightarrow> u8 list option" where
  "read_file_at f off n = (if off < 2 ^ 63 \<and> (off + n \<le> length f \<or> n = 0) then Some (take n (drop off f)) else None)"

definition ELF_MAGIC :: "u8 list" where "ELF_MAGIC = [0x7f, 0x45, 0x4c, 0x46]"
definition ELFCLASS64 :: u8 where "ELFCLASS64 = 2"
definition ELFDATA2LSB :: u8 where "ELFDATA2LSB = 1"
definition EM_X86_64 :: u16 where "EM_X86_64 = 62"
definition PT_LOAD :: u32 where "PT_LOAD = 1"

record elf64_ehdr =
  e_ident :: "u8 list"
  e_type :: u16
  e_machine :: u16
  e_version :: u32
  e_entry :: u64
  e_phoff :: u64
  e_shoff :: u64
  e_flags :: u32
  e_ehsize :: u16
  e_phentsize :: u16
  e_phnum :: u16
  e_shentsize :: u16
  e_shnum :: u16
  e_shstrndx :: u16

definition ehdr_of_bytes :: "u8 list \<Rightarrow> elf64_ehdr" where
  "ehdr_of_bytes bs =
     \<lparr>e_ident = take 16 bs, e_type = le_at 16 2 bs, e_machine = le_at 18 2 bs, e_version = le_at 20 4 bs,
      e_entry = le_at 24 8 bs, e_phoff = le_at 32 8 bs, e_shoff = le_at 40 8 bs, e_flags = le_at 48 4 bs,
      e_ehsize = le_at 52 2 bs, e_phentsize = le_at 54 2 bs, e_phnum = le_at 56 2 bs,
      e_shentsize = le_at 58 2 bs, e_shnum = le_at 60 2 bs, e_shstrndx = le_at 62 2 bs\<rparr>"

record elf64_phdr =
  p_type :: u32
  p_flags :: u32
  p_offset :: u64
  p_vaddr :: u64
  p_paddr :: u64
  p_filesz :: u64
  p_memsz :: u64
  p_align :: u64

definition phdr_of_bytes :: "u8 list \<Rightarrow> elf64_phdr" where
  "phdr_of_bytes bs =
     \<lparr>p_type = le_at 0 4 bs, p_flags = le_at 4 4 bs, p_offset = le_at 8 8 bs, p_vaddr = le_at 16 8 bs,
      p_paddr = le_at 24 8 bs, p_filesz = le_at 32 8 bs, p_memsz = le_at 40 8 bs, p_align = le_at 48 8 bs\<rparr>"

text \<open>The setup header of a bzImage, a packed structure of 123 bytes (\<^verbatim>\<open>src/bootparam.rs\<close>).\<close>

record setup_header =
  sh_setup_sects :: u8
  sh_root_flags :: u16
  sh_syssize :: u32
  sh_ram_size :: u16
  sh_vid_mode :: u16
  sh_root_dev :: u16
  sh_boot_flag :: u16
  sh_jump :: u16
  sh_header :: u32
  sh_version :: u16
  sh_realmode_swtch :: u32
  sh_start_sys_seg :: u16
  sh_kernel_version :: u16
  sh_type_of_loader :: u8
  sh_loadflags :: u8
  sh_setup_move_size :: u16
  sh_code32_start :: u32
  sh_ramdisk_image :: u32
  sh_ramdisk_size :: u32
  sh_bootsect_kludge :: u32
  sh_heap_end_ptr :: u16
  sh_ext_loader_ver :: u8
  sh_ext_loader_type :: u8
  sh_cmd_line_ptr :: u32
  sh_initrd_addr_max :: u32
  sh_kernel_alignment :: u32
  sh_relocatable_kernel :: u8
  sh_min_alignment :: u8
  sh_xloadflags :: u16
  sh_cmdline_size :: u32
  sh_hardware_subarch :: u32
  sh_hardware_subarch_data :: u64
  sh_payload_offset :: u32
  sh_payload_length :: u32
  sh_setup_data :: u64
  sh_pref_address :: u64
  sh_init_size :: u32
  sh_handover_offset :: u32
  sh_kernel_info_offset :: u32

definition setup_header_of_bytes :: "u8 list \<Rightarrow> setup_header" where
  "setup_header_of_bytes bs =
     \<lparr>sh_setup_sects = le_at 0 1 bs, sh_root_flags = le_at 1 2 bs, sh_syssize = le_at 3 4 bs,
      sh_ram_size = le_at 7 2 bs, sh_vid_mode = le_at 9 2 bs, sh_root_dev = le_at 11 2 bs,
      sh_boot_flag = le_at 13 2 bs, sh_jump = le_at 15 2 bs, sh_header = le_at 17 4 bs,
      sh_version = le_at 21 2 bs, sh_realmode_swtch = le_at 23 4 bs, sh_start_sys_seg = le_at 27 2 bs,
      sh_kernel_version = le_at 29 2 bs, sh_type_of_loader = le_at 31 1 bs, sh_loadflags = le_at 32 1 bs,
      sh_setup_move_size = le_at 33 2 bs, sh_code32_start = le_at 35 4 bs, sh_ramdisk_image = le_at 39 4 bs,
      sh_ramdisk_size = le_at 43 4 bs, sh_bootsect_kludge = le_at 47 4 bs, sh_heap_end_ptr = le_at 51 2 bs,
      sh_ext_loader_ver = le_at 53 1 bs, sh_ext_loader_type = le_at 54 1 bs, sh_cmd_line_ptr = le_at 55 4 bs,
      sh_initrd_addr_max = le_at 59 4 bs, sh_kernel_alignment = le_at 63 4 bs, sh_relocatable_kernel = le_at 67 1 bs,
      sh_min_alignment = le_at 68 1 bs, sh_xloadflags = le_at 69 2 bs, sh_cmdline_size = le_at 71 4 bs,
      sh_hardware_subarch = le_at 75 4 bs, sh_hardware_subarch_data = le_at 79 8 bs, sh_payload_offset = le_at 87 4 bs,
      sh_payload_length = le_at 91 4 bs, sh_setup_data = le_at 95 8 bs, sh_pref_address = le_at 103 8 bs,
      sh_init_size = le_at 111 4 bs, sh_handover_offset = le_at 115 4 bs, sh_kernel_info_offset = le_at 119 4 bs\<rparr>"

datatype boot_error =
    OpenFailed
  | ReadFailed
  | MissingHdrS u32
  | UnsupportedVersion u16
  | NotElf
  | Not64Bit
  | NotLittleEndian
  | NotX86_64
  | BadPhentsize
  | NoLoadSegments
  | SetRegistersFailed
  | BootMemory mem_error

section \<open>The zero page\<close>

text \<open>Replacing a slice of the page; out of bounds the source panics.\<close>

definition put :: "nat \<Rightarrow> u8 list \<Rightarrow> u8 list \<Rightarrow> u8 list" where
  "put off bs page = take off page @ bs @ drop (off + length bs) page"

definition e820_entry :: "u64 \<Rightarrow> u64 \<Rightarrow> u32 \<Rightarrow> u8 list" where
  "e820_entry mem_addr mem_size mem_type = to_le 8 mem_addr @ to_le 8 mem_size @ to_le 4 mem_type"

definition write_e820 :: "u8 list \<Rightarrow> nat \<Rightarrow> u64 \<Rightarrow> u64 \<Rightarrow> u32 \<Rightarrow> u8 list panics" where
  "write_e820 boot_params off mem_addr mem_size mem_type =
     (if off + 20 \<le> length boot_params
      then Some (put (off + 16) (to_le 4 mem_type) (put (off + 8) (to_le 8 mem_size)
             (put off (to_le 8 mem_addr) boot_params)))
      else None)"

fun write_e820s :: "(u64 \<times> u64 \<times> u32) list \<Rightarrow> nat \<Rightarrow> u8 list \<Rightarrow> u8 list panics" where
  "write_e820s [] off bp = Some bp"
| "write_e820s ((a, n, t) # es) off bp =
     (case write_e820 bp off a n t of None \<Rightarrow> None | Some bp' \<Rightarrow> write_e820s es (off + 20) bp')"

text \<open>The three loops that fill the memory map, in their order.\<close>

definition e820_entries :: "partition \<Rightarrow> (u64 \<times> u64 \<times> u32) list" where
  "e820_entries pt =
     map (\<lambda>r. (start_addr r, rg_size r, 1)) (mm_regions (pt_memory pt)) @
     (if MEM_32BIT_RESERVED_START < get_memory_size pt
      then [(MEM_32BIT_RESERVED_START, MEM_32BIT_RESERVED_SIZE, 2)] else []) @
     map (\<lambda>r. (mr_gpa r, mr_size r, 2)) (mm_mmio_regions (pt_memory pt))"

definition cmd_line :: string where
  "cmd_line = ''console=hvc0 8250.nr_uarts=0 root=/dev/vda rw loglevel=7 '' @
     ''ip=192.168.127.2::192.168.127.1:255.255.255.0:virtio-hostname:eth0:off''"

definition cmd_line_vec :: "u8 list" where
  "cmd_line_vec = map of_char cmd_line @ [0]"

definition HdrS :: "u8 list" where "HdrS = map of_char ''HdrS''"

definition fill_boot_params ::
  "'sdt acpi_crate \<Rightarrow> partition \<Rightarrow> u8 list \<Rightarrow> guest_address \<Rightarrow> u64 \<Rightarrow> heap \<Rightarrow>
   (boot_error, heap \<times> u8 list) result panics" where
  "fill_boot_params c pt boot_params gpa code32_start h =
     (let bp = put 0x210 [0xFF] boot_params;
          bp = put 0x211 [bp ! 0x211 OR 0x81] bp;
          bp = put 0x214 (to_le 4 (ucast code32_start :: u32)) bp;
          bp = put 0x224 (to_le 2 (0xFE00 :: u16)) bp
      in case write_code pt h cmd_line_vec CMDLINE_START of
           Err e \<Rightarrow> Some (Err (BootMemory e))
         | Ok h1 \<Rightarrow>
             let bp = put 0x228 (to_le 4 (ucast CMDLINE_START :: u32)) bp;
                 bp = put 0x1E0 (replicate 15 0) bp;
                 bp = put 0x202 HdrS bp
             in case write_e820s (e820_entries pt) 0x2D0 bp of
                  None \<Rightarrow> None
                | Some bp \<Rightarrow>
                    let bp = put 0x1E8 [of_nat (length (e820_entries pt))] bp
                    in case write_code pt h1 bp gpa of
                         Err e \<Rightarrow> Some (Err (BootMemory e))
                       | Ok h2 \<Rightarrow>
                           (case create_acpi_tables c (pt_device_manager pt) (pt_cpu_manager pt) (pt_memory pt) h2 of
                              None \<Rightarrow> None
                            | Some (h3, _) \<Rightarrow> Some (Ok (h3, bp))))"

definition setup_bzimage_boot_params ::
  "'sdt acpi_crate \<Rightarrow> partition \<Rightarrow> guest_address \<Rightarrow> u8 list \<Rightarrow> u64 \<Rightarrow> heap \<Rightarrow>
   (boot_error, heap \<times> u32) result panics" where
  "setup_bzimage_boot_params c pt gpa kfile code32_start h =
     (case read_file_at kfile 0x201 1 of
        None \<Rightarrow> Some (Err ReadFailed)
      | Some setup_header_size_byte \<Rightarrow>
          let setup_header_end = 0x202 + unat (setup_header_size_byte ! 0);
              setup_header_size = setup_header_end - 0x1f1
          in case read_file_at kfile 0x1f1 setup_header_size of
               None \<Rightarrow> Some (Err ReadFailed)
             | Some hdr \<Rightarrow>
                 (case fill_boot_params c pt (put 0x1f1 hdr (replicate 4096 0)) gpa code32_start h of
                    None \<Rightarrow> None
                  | Some (Err e) \<Rightarrow> Some (Err e)
                  | Some (Ok (h', bp)) \<Rightarrow> Some (Ok (h', le_at 0x260 4 bp))))"

definition setup_elf_boot_params ::
  "'sdt acpi_crate \<Rightarrow> partition \<Rightarrow> guest_address \<Rightarrow> u64 \<Rightarrow> u64 \<Rightarrow> heap \<Rightarrow>
   (boot_error, heap \<times> u32) result panics" where
  "setup_elf_boot_params c pt gpa code32_start kernel_size h =
     (let bp = put 0x1F1 [0] (replicate 4096 0);
          bp = put 0x202 HdrS bp;
          bp = put 0x206 (to_le 2 (0x020F :: u16)) bp;
          init_size = ucast ((kernel_size + 0xFFF) AND NOT 0xFFF) :: u32;
          bp = put 0x260 (to_le 4 init_size) bp
      in case fill_boot_params c pt bp gpa code32_start h of
           None \<Rightarrow> None
         | Some (Err e) \<Rightarrow> Some (Err e)
         | Some (Ok (h', _)) \<Rightarrow> Some (Ok (h', init_size)))"

section \<open>Loading\<close>

text \<open>
  The source also computes \<^verbatim>\<open>_kernel_size = total_size - setup_size\<close>, which nothing uses.  For a file that is shorter
  than its setup part the subtraction underflows: a release build goes on with the empty payload, as here; a build with
  overflow checks panics there.
\<close>

definition load_bzimage_kernel ::
  "'sdt acpi_crate \<Rightarrow> partition \<Rightarrow> u8 list \<Rightarrow> heap \<Rightarrow> (boot_error, heap \<times> u64) result panics" where
  "load_bzimage_kernel c pt kfile h =
     (case read_file_at kfile 0x1f1 123 of
        None \<Rightarrow> Some (Err ReadFailed)
      | Some header_bytes \<Rightarrow>
          let boot_header = setup_header_of_bytes header_bytes
          in if sh_header boot_header \<noteq> 0x53726448 then Some (Err (MissingHdrS (sh_header boot_header)))
             else if sh_version boot_header < 0x0200 \<or> sh_loadflags boot_header AND 1 = 0
             then Some (Err (UnsupportedVersion (sh_version boot_header)))
             else
               let sects = unat (sh_setup_sects boot_header);
                   setup_size = ((if sects = 0 then 4 else sects) + 1) * 512;
                   code32_start = ucast (sh_code32_start boot_header)
               in case write_code pt h (drop setup_size kfile) HIGH_RAM_START of
                    Err e \<Rightarrow> Some (Err (BootMemory e))
                  | Ok h1 \<Rightarrow>
                      (case setup_bzimage_boot_params c pt ZERO_PAGE_START kfile code32_start h1 of
                         None \<Rightarrow> None
                       | Some (Err e) \<Rightarrow> Some (Err e)
                       | Some (Ok (h2, _)) \<Rightarrow> Some (Ok (h2, HIGH_RAM_START + 0x200))))"

text \<open>The data of one segment; a buffer of \<open>2 ^ 63\<close> bytes or more panics.\<close>

definition load_segment :: "partition \<Rightarrow> u8 list \<Rightarrow> elf64_phdr \<Rightarrow> heap \<Rightarrow> (boot_error, heap) result panics" where
  "load_segment pt kfile phdr h =
     (if 0 < p_filesz phdr then
        if 2 ^ 63 \<le> unat (p_filesz phdr) then None
        else (case read_file_at kfile (unat (p_offset phdr)) (unat (p_filesz phdr)) of
                None \<Rightarrow> Some (Err ReadFailed)
              | Some data \<Rightarrow> Some (map_err BootMemory (write_code pt h data (p_paddr phdr))))
      else Some (Ok h))"

text \<open>
  The loop over the segments: the memory, the lowest address, the highest end and the distance of
  virtual and physical addresses of the first one.
\<close>

fun load_segments ::
  "partition \<Rightarrow> u8 list \<Rightarrow> elf64_phdr list \<Rightarrow> heap \<times> u64 \<times> u64 \<times> u64 option \<Rightarrow>
   (boot_error, heap \<times> u64 \<times> u64 \<times> u64 option) result panics" where
  "load_segments pt kfile [] s = Some (Ok s)"
| "load_segments pt kfile (phdr # phdrs) (h, lowest_paddr, highest_end, delta) =
     (if p_type phdr \<noteq> PT_LOAD then load_segments pt kfile phdrs (h, lowest_paddr, highest_end, delta)
      else
        let delta' = (case delta of None \<Rightarrow> Some (p_vaddr phdr - p_paddr phdr) | Some d \<Rightarrow> Some d)
        in case load_segment pt kfile phdr h of
             None \<Rightarrow> None
           | Some (Err e) \<Rightarrow> Some (Err e)
           | Some (Ok h') \<Rightarrow>
               load_segments pt kfile phdrs
                 (h', min lowest_paddr (p_paddr phdr), max highest_end (p_paddr phdr + p_memsz phdr), delta'))"

definition entry_is_physical :: "elf64_phdr list \<Rightarrow> u64 \<Rightarrow> bool" where
  "entry_is_physical phdrs entry \<longleftrightarrow>
     (\<exists>ph \<in> set phdrs. p_type ph = PT_LOAD \<and> p_paddr ph \<le> entry \<and> entry < p_paddr ph + p_memsz ph)"

definition read_phdrs :: "u8 list \<Rightarrow> elf64_ehdr \<Rightarrow> elf64_phdr list option" where
  "read_phdrs kfile ehdr =
     (case read_file_at kfile (unat (e_phoff ehdr)) (56 * unat (e_phnum ehdr)) of
        None \<Rightarrow> None
      | Some bs \<Rightarrow> Some (map (\<lambda>i. phdr_of_bytes (take 56 (drop (56 * i) bs))) [0..<unat (e_phnum ehdr)]))"

definition load_elf_kernel ::
  "'sdt acpi_crate \<Rightarrow> partition \<Rightarrow> u8 list \<Rightarrow> heap \<Rightarrow> (boot_error, heap \<times> u64) result panics" where
  "load_elf_kernel c pt kfile h =
     (case read_file_at kfile 0 64 of
        None \<Rightarrow> Some (Err ReadFailed)
      | Some bs \<Rightarrow>
          let ehdr = ehdr_of_bytes bs; entry = e_entry ehdr
          in if take 4 (e_ident ehdr) \<noteq> ELF_MAGIC then Some (Err NotElf)
             else if e_ident ehdr ! 4 \<noteq> ELFCLASS64 then Some (Err Not64Bit)
             else if e_ident ehdr ! 5 \<noteq> ELFDATA2LSB then Some (Err NotLittleEndian)
             else if e_machine ehdr \<noteq> EM_X86_64 then Some (Err NotX86_64)
             else if unat (e_phentsize ehdr) \<noteq> 56 then Some (Err BadPhentsize)
             else case read_phdrs kfile ehdr of
               None \<Rightarrow> Some (Err ReadFailed)
             | Some phdrs \<Rightarrow>
                 (case load_segments pt kfile phdrs (h, - 1, 0, None) of
                    None \<Rightarrow> None
                  | Some (Err e) \<Rightarrow> Some (Err e)
                  | Some (Ok (h1, lowest_paddr, highest_end, delta)) \<Rightarrow>
                      if lowest_paddr = - 1 then Some (Err NoLoadSegments)
                      else
                        let phys_entry = (if entry_is_physical phdrs entry then entry
                                          else entry - (case delta of None \<Rightarrow> 0 | Some d \<Rightarrow> d))
                        in case setup_elf_boot_params c pt ZERO_PAGE_START lowest_paddr
                                  (highest_end - lowest_paddr) h1 of
                             None \<Rightarrow> None
                           | Some (Err e) \<Rightarrow> Some (Err e)
                           | Some (Ok (h2, _)) \<Rightarrow> Some (Ok (h2, phys_entry))))"

text \<open>\<open>kfile\<close> is the content of the file, if it can be opened.\<close>

definition load_linux_kernel ::
  "'sdt acpi_crate \<Rightarrow> partition \<Rightarrow> u8 list option \<Rightarrow> heap \<Rightarrow> (boot_error, heap \<times> u64) result panics" where
  "load_linux_kernel c pt kfile h =
     (case kfile of
        None \<Rightarrow> Some (Err OpenFailed)
      | Some k \<Rightarrow>
          (case read_file_at k 0 4 of
             None \<Rightarrow> Some (Err ReadFailed)
           | Some magic \<Rightarrow>
               if magic = ELF_MAGIC then load_elf_kernel c pt k h else load_bzimage_kernel c pt k h))"

section \<open>Starting the processor\<close>

definition page_tables :: "u8 list" where
  "page_tables =
     (let tables = put 0 (to_le 8 (PDPTE_START OR 0x3)) (replicate 8192 0);
          pdpte_offset = unat (PDPTE_START - PML4_START)
      in foldl (\<lambda>t i. put (pdpte_offset + i * 8) (to_le 8 (push_bit 30 (of_nat i :: u64) OR 0x83)) t)
           tables [0..<4])"

text \<open>\<^verbatim>\<open>max_addr\<close> and the number of entries it needs are computed and not used.\<close>

definition setup_identity_paging ::
  "partition \<Rightarrow> heap \<Rightarrow> u64 \<Rightarrow> u32 \<Rightarrow> (boot_error, heap) result" where
  "setup_identity_paging pt h kernel_load_addr init_size =
     map_err BootMemory (write_code pt h page_tables PML4_START)"

datatype boot_register =
    Gdtr | Cr3 | Cr4 | Efer | Cr0 | SegCs | SegDs | SegEs | SegSs | RegRip | RegRsi | RegRsp | RegRflags

record segment_register =
  sr_base :: u64
  sr_limit :: u32
  sr_selector :: u16
  sr_attributes :: u16

datatype register_value = Reg64 u64 | Table u64 u16 | Segment segment_register

definition boot_gdt :: "u8 list" where
  "boot_gdt = concat (map (to_le 8) [0, 0, 0x00AF9A000000FFFF, 0x00CF93000000FFFF :: u64])"

definition cs_desc :: segment_register where
  "cs_desc = \<lparr>sr_base = 0, sr_limit = 0xffffffff, sr_selector = 0x10, sr_attributes = 0xA09B\<rparr>"

definition ds_desc :: segment_register where
  "ds_desc = \<lparr>sr_base = 0, sr_limit = 0xffffffff, sr_selector = 0x18, sr_attributes = 0xC093\<rparr>"

definition boot_registers :: "u64 \<Rightarrow> (boot_register \<times> register_value) list" where
  "boot_registers kernel_entry =
     [(Gdtr, Table BOOT_GDT_START 31), (Cr3, Reg64 PML4_START), (Cr4, Reg64 0x20), (Efer, Reg64 0x100),
      (Cr0, Reg64 0x80050033), (SegCs, Segment cs_desc), (SegDs, Segment ds_desc), (SegEs, Segment ds_desc),
      (SegSs, Segment ds_desc), (RegRip, Reg64 kernel_entry), (RegRsi, Reg64 ZERO_PAGE_START),
      (RegRsp, Reg64 BOOT_STACK_POINTER), (RegRflags, Reg64 0x2)]"

text \<open>The registers set, on success; \<open>set_ok\<close> is the result of the hypervisor.\<close>

definition setup_linux_registers ::
  "bool \<Rightarrow> partition \<Rightarrow> heap \<Rightarrow> u64 \<Rightarrow> (boot_error, heap \<times> (boot_register \<times> register_value) list) result" where
  "setup_linux_registers set_ok pt h kernel_entry =
     (case write_code pt h boot_gdt BOOT_GDT_START of
        Err e \<Rightarrow> Err (BootMemory e)
      | Ok h' \<Rightarrow> if set_ok then Ok (h', boot_registers kernel_entry) else Err SetRegistersFailed)"

text \<open>\<^verbatim>\<open>Partition::setup_linux_registers\<close>: the size of the kernel is read back from the zero page.\<close>

definition partition_setup_linux_registers ::
  "bool \<Rightarrow> partition \<Rightarrow> heap \<Rightarrow> u64 \<Rightarrow>
   (boot_error, heap \<times> (boot_register \<times> register_value) list) result" where
  "partition_setup_linux_registers set_ok pt h kernel_entry =
     (case read_memory pt h ZERO_PAGE_START 4096 of
        Err e \<Rightarrow> Err (BootMemory e)
      | Ok boot_params \<Rightarrow>
          let init_size = (if 0x260 + 4 < length boot_params then le_at 0x260 4 boot_params
                           else ucast HIGH_RAM_START)
          in case setup_identity_paging pt h kernel_entry init_size of
               Err e \<Rightarrow> Err e
             | Ok h' \<Rightarrow> setup_linux_registers set_ok pt h' kernel_entry)"

section \<open>Page tables\<close>

text \<open>
  What the processor does with the tables: a word in memory, and the translation of an address
  through a four-level table in which the third level maps pages of 1 GiB.
\<close>

definition memory_word :: "(guest_address \<rightharpoonup> u8) \<Rightarrow> guest_address \<Rightarrow> u64" where
  "memory_word v a = from_le (map the (view_range v a 8))"

definition translate :: "(guest_address \<rightharpoonup> u8) \<Rightarrow> u64 \<Rightarrow> u64 \<Rightarrow> guest_address option" where
  "translate v cr3 va =
     (let pml4e = memory_word v (cr3 + 8 * (drop_bit 39 va AND 0x1ff))
      in if \<not> bit pml4e 0 then None
         else
           let pdpte = memory_word v ((pml4e AND 0x000ffffffffff000) + 8 * (drop_bit 30 va AND 0x1ff))
           in if \<not> bit pdpte 0 \<or> \<not> bit pdpte 7 then None
              else Some ((pdpte AND 0x000fffffc0000000) OR (va AND 0x3fffffff)))"

lemma from_le_zeros: "from_le (replicate n 0) = 0"
  by (induction n) simp_all

lemma put_zeros:
  assumes "length xs \<le> off" "off + length bs \<le> length xs + n"
  shows "put off bs (xs @ replicate n 0) =
    (xs @ replicate (off - length xs) 0 @ bs) @ replicate (n - (off - length xs) - length bs) 0"
  using assms by (simp add: put_def)

lemma page_tables_eq:
  "page_tables = to_le 8 (0xb003 :: u64) @ replicate 4088 0 @ to_le 8 (0x83 :: u64) @
     to_le 8 (0x40000083 :: u64) @ to_le 8 (0x80000083 :: u64) @ to_le 8 (0xc0000083 :: u64) @ replicate 4064 0"
proof -
  define a b c d e where "a = to_le 8 (0xb003 :: u64)" "b = to_le 8 (0x83 :: u64)" "c = to_le 8 (0x40000083 :: u64)"
    "d = to_le 8 (0x80000083 :: u64)" "e = to_le 8 (0xc0000083 :: u64)"
  have l: "length a = 8" "length b = 8" "length c = 8" "length d = 8" "length e = 8"
    by (simp_all add: a_b_c_d_e_def)
  have u: "[0..<4] = [0, 1, 2, 3 :: nat]" by (simp add: upt_rec)
  have "page_tables = put 4120 e (put 4112 d (put 4104 c (put 4096 b (put 0 a ([] @ replicate 8192 0)))))"
    unfolding page_tables_def Let_def u
    by (simp add: PDPTE_START_def PML4_START_def a_b_c_d_e_def)
  also have "put 0 a ([] @ replicate 8192 0) = a @ replicate 8184 0" by (subst put_zeros) (simp_all add: l)
  also have "put 4096 b (a @ replicate 8184 0) = (a @ replicate 4088 0 @ b) @ replicate 4088 0"
    by (subst put_zeros) (simp_all add: l)
  also have "put 4104 c ((a @ replicate 4088 0 @ b) @ replicate 4088 0) =
      (a @ replicate 4088 0 @ b @ c) @ replicate 4080 0"
    by (subst put_zeros) (simp_all add: l)
  also have "put 4112 d ((a @ replicate 4088 0 @ b @ c) @ replicate 4080 0) =
      (a @ replicate 4088 0 @ b @ c @ d) @ replicate 4072 0"
    by (subst put_zeros) (simp_all add: l)
  also have "put 4120 e ((a @ replicate 4088 0 @ b @ c @ d) @ replicate 4072 0) =
      a @ replicate 4088 0 @ b @ c @ d @ e @ replicate 4064 0"
    by (subst put_zeros) (simp_all add: l)
  finally show ?thesis by (simp only: a_b_c_d_e_def)
qed

definition table_word :: "nat \<Rightarrow> u64" where
  "table_word i = (if i = 0 then 0xb003 else if 512 \<le> i \<and> i < 516 then push_bit 30 (of_nat (i - 512)) OR 0x83 else 0)"

lemma le_to_le: "from_le (to_le 8 (w :: u64)) = w"
  by (rule from_le_to_le) simp

lemma page_tables_words:
  assumes "i < 1024"
  shows "from_le (take 8 (drop (8 * i) page_tables)) = table_word i"
proof -
  consider "i = 0" | "0 < i" "i < 512" | "i = 512" | "i = 513" | "i = 514" | "i = 515" | "516 \<le> i" by linarith
  then show ?thesis
  proof cases
    case 2
    then have "take 8 (drop (8 * i) page_tables) = replicate 8 0"
      by (auto simp: page_tables_eq drop_append take_append min_def)
    then show ?thesis using 2 by (simp only: from_le_zeros) (simp add: table_word_def)
  next
    case 7
    then have "take 8 (drop (8 * i) page_tables) = replicate 8 0"
      using assms by (auto simp: page_tables_eq)
    then show ?thesis using 7 by (simp only: from_le_zeros) (simp add: table_word_def)
  qed (simp_all add: page_tables_eq le_to_le table_word_def)
qed

lemma memory_word_table:
  assumes "view_range v PML4_START 8192 = map Some page_tables" "i < 1024"
  shows "memory_word v (PML4_START + of_nat (8 * i)) = table_word i"
  using view_range_part [of "8 * i" 8 8192 v PML4_START] assms page_tables_words [OF assms(2)]
  by (simp add: memory_word_def take_map drop_map comp_def)

lemma unat_index:
  "unat (drop_bit n va AND 0x1ff :: u64) = unat va div 2 ^ n mod 512"
proof -
  have "(0x1ff :: u64) = mask 9" by (simp add: mask_eq_exp_minus_1)
  then have "drop_bit n va AND 0x1ff = take_bit 9 (drop_bit n va)" by (simp only: take_bit_eq_mask)
  then show ?thesis by (simp add: unat_drop_bit_eq unsigned_take_bit_eq) (simp add: take_bit_eq_mod drop_bit_eq_div)
qed

lemma page_bits: "push_bit 30 (drop_bit 30 va) OR (va AND 0x3fffffff) = (va :: u64)"
proof (rule bit_eqI)
  fix n
  assume n: "possible_bit TYPE(u64) n"
  have "(0x3fffffff :: u64) = mask 30" by (simp add: mask_eq_exp_minus_1)
  then have "bit (0x3fffffff :: u64) n \<longleftrightarrow> n < 30" using n by (simp only: bit_mask_iff) simp
  then show "bit (push_bit 30 (drop_bit 30 va) OR (va AND 0x3fffffff)) n = bit va n"
    using n by (auto simp: bit_simps)
qed

lemma identity_tables:
  assumes t: "view_range v PML4_START 8192 = map Some page_tables" and va: "unat va < 2 ^ 48"
  shows "translate v PML4_START va = (if unat va < 2 ^ 32 then Some va else None)"
proof -
  let ?j = "unat va div 2 ^ 39 mod 512" and ?i = "unat va div 2 ^ 30 mod 512"
  have w: "8 * x = of_nat (8 * unat x)" for x :: u64 by simp
  have pml4e: "memory_word v (PML4_START + 8 * (drop_bit 39 va AND 0x1ff)) = table_word ?j"
    unfolding w unat_index by (rule memory_word_table [OF t]) simp
  have "(0xb003 AND 0x000ffffffffff000 :: u64) = PML4_START + of_nat (8 * 512)" by (simp add: PML4_START_def)
  then have "(0xb003 AND 0x000ffffffffff000 :: u64) + 8 * (drop_bit 30 va AND 0x1ff) =
      PML4_START + of_nat (8 * (512 + ?i))" unfolding w unat_index by (simp add: algebra_simps)
  then have pdpte: "memory_word v ((0xb003 AND 0x000ffffffffff000) + 8 * (drop_bit 30 va AND 0x1ff)) = table_word (512 + ?i)"
    by (simp only:) (rule memory_word_table [OF t], simp)
  show ?thesis
  proof (cases "unat va < 2 ^ 39")
    case False
    then have "0 < ?j" "?j < 512" using va by (auto simp: div_greater_zero_iff less_mult_imp_div_less)
    then have "table_word ?j = 0" by (simp add: table_word_def)
    then show ?thesis using pml4e False by (simp add: translate_def)
  next
    case True
    then have j: "table_word ?j = 0xb003" by (simp add: table_word_def)
    have i: "?i = unat va div 2 ^ 30" using True by (simp add: less_mult_imp_div_less)
    have tr: "translate v PML4_START va = (let e = table_word (512 + ?i) in
        if \<not> bit e 0 \<or> \<not> bit e 7 then None else Some ((e AND 0x000fffffc0000000) OR (va AND 0x3fffffff)))"
      using pml4e pdpte j by (simp add: translate_def Let_def)
    show ?thesis
    proof (cases "unat va < 2 ^ 32")
      case True
      then have lt: "?i < 4" using i by (simp add: less_mult_imp_div_less)
      have "unat (drop_bit 30 va) = ?i" unfolding i unat_drop_bit_eq by (rule drop_bit_eq_div)
      then have "of_nat ?i = drop_bit 30 va" by (metis of_nat_unat ucast_id)
      moreover have "table_word (512 + ?i) = push_bit 30 (of_nat ?i) OR 0x83" using lt by (simp add: table_word_def)
      moreover consider "?i = 0" | "?i = 1" | "?i = 2" | "?i = 3" using lt by linarith
      then have "bit (push_bit 30 (of_nat ?i) OR 0x83 :: u64) 0" "bit (push_bit 30 (of_nat ?i) OR 0x83 :: u64) 7"
        "(push_bit 30 (of_nat ?i) OR 0x83 :: u64) AND 0x000fffffc0000000 = push_bit 30 (of_nat ?i)"
        by (cases; simp)+
      ultimately show ?thesis using True page_bits [of va] by (simp add: tr Let_def)
    next
      case False
      then have "4 \<le> ?i" using i by (simp add: less_eq_div_iff_mult_less_eq)
      then have "table_word (512 + ?i) = 0" by (simp add: table_word_def)
      then show ?thesis using False by (simp add: tr)
    qed
  qed
qed

lemma gdt_words:
  assumes "view_range v BOOT_GDT_START 32 = map Some boot_gdt"
  shows "memory_word v (BOOT_GDT_START + ucast (sr_selector cs_desc)) = 0x00AF9A000000FFFF"
    "memory_word v (BOOT_GDT_START + ucast (sr_selector ds_desc)) = 0x00CF93000000FFFF"
  using view_range_part [of 16 8 32 v BOOT_GDT_START] view_range_part [of 24 8 32 v BOOT_GDT_START] assms
  by (simp_all add: memory_word_def take_map drop_map comp_def cs_desc_def ds_desc_def boot_gdt_def le_to_le)

lemma read_memory_eq: "read_memory pt h = read_guest_memory (pt_memory pt) h"
  by (auto simp: fun_eq_iff read_memory_def read_guest_memory_def start_addr_def split: option.split)

text \<open>Writes and reads at an address inside one region that starts at 0.\<close>

lemma low_access:
  assumes "mm_wf mm" "access_ok mm 0 n r p" "unat a < n" "unat a + k \<le> n"
  shows "access_ok mm a k r p"
  using access_ok_sub [OF assms(1,2,3,4)] by simp

lemma write_code_low:
  assumes wf: "mm_wf (pt_memory pt)" and acc: "access_ok (pt_memory pt) 0 n r p"
    and w: "perms_contain (rg_perms r) PERM_WRITE" and a: "unat a + length bs < n"
  shows "\<exists>h'. write_code pt h bs a = Ok h' \<and>
    guest_view (pt_memory pt) h' = view_update (guest_view (pt_memory pt) h) a bs"
proof -
  have "access_ok (pt_memory pt) a (Suc (length bs)) r p" using low_access [OF wf acc, of a] a by simp
  moreover have l: "length bs < 2 ^ 63" using access_ok_bound [OF wf acc] a by simp
  ultimately have "write_guest_memory (pt_memory pt) h bs a = Ok (copy_to h (host_addr r p a) bs)"
    using write_guest_memory_success [OF wf] w by blast
  then show ?thesis using write_guest_memory_view [OF wf l] by (simp add: write_code_def)
qed

lemma read_memory_low:
  assumes wf: "mm_wf (pt_memory pt)" and acc: "access_ok (pt_memory pt) 0 n r p"
    and rd: "perms_contain (rg_perms r) PERM_READ" and a: "unat a + k < n"
  shows "\<exists>bs. read_memory pt h a k = Ok bs \<and> length bs = k"
proof -
  have "access_ok (pt_memory pt) a (Suc k) r p" using low_access [OF wf acc, of a] a by simp
  moreover have "k < 2 ^ 63" using access_ok_bound [OF wf acc] a by simp
  ultimately have "read_guest_memory (pt_memory pt) h a k = Ok (copy_from h (host_addr r p a) k)"
    using read_guest_memory_success [OF wf] rd by blast
  then show ?thesis by (simp add: read_memory_eq)
qed

section \<open>The bytes of the zero page\<close>

definition slice_at :: "nat \<Rightarrow> nat \<Rightarrow> u8 list \<Rightarrow> u8 list" where
  "slice_at i n bs = take n (drop i bs)"

lemma length_put [simp]: "off + length bs \<le> length page \<Longrightarrow> length (put off bs page) = length page"
  by (simp add: put_def)

lemma slice_put_same: "off + length bs \<le> length page \<Longrightarrow> n = length bs \<Longrightarrow> slice_at off n (put off bs page) = bs"
  by (simp add: put_def slice_at_def)

lemma slice_put_apart:
  assumes "i + n \<le> off \<or> off + length bs \<le> i" "off + length bs \<le> length page"
  shows "slice_at i n (put off bs page) = slice_at i n page"
proof -
  have "slice_at i n (put off bs page) ! k = slice_at i n page ! k" if "k < n" "i + k < length page" for k
    using that assms by (auto simp: slice_at_def put_def nth_append)
  then show ?thesis
    using assms by (intro nth_equalityI) (auto simp: slice_at_def simp del: nth_take)
qed

lemma put_put_next:
  "off + length bs + length cs \<le> length page \<Longrightarrow> put (off + length bs) cs (put off bs page) = put off (bs @ cs) page"
  by (simp add: put_def ac_simps)

definition e820_bytes :: "u64 \<times> u64 \<times> u32 \<Rightarrow> u8 list" where
  "e820_bytes = (\<lambda>(a, n, t). e820_entry a n t)"

lemma length_e820_bytes [simp]: "length (e820_bytes x) = 20"
  by (simp add: e820_bytes_def e820_entry_def split: prod.split)

lemma write_e820_put:
  assumes "off + 20 \<le> length bp"
  shows "write_e820 bp off a n t = Some (put off (e820_bytes (a, n, t)) bp)"
  using assms put_put_next [of off "to_le 8 a" "to_le 8 n" bp] put_put_next [of off "to_le 8 a @ to_le 8 n" "to_le 4 t" bp]
  by (simp add: write_e820_def e820_bytes_def e820_entry_def)

lemma write_e820s_put:
  "off + 20 * length es \<le> length bp \<Longrightarrow> write_e820s es off bp = Some (put off (concat (map e820_bytes es)) bp)"
proof (induction es arbitrary: off bp)
  case Nil
  then show ?case by (simp add: put_def)
next
  case (Cons e es)
  obtain a n t where e: "e = (a, n, t)" by (cases e)
  have "length (concat (map e820_bytes es)) = 20 * length es" by (induction es) simp_all
  then have "put (off + 20) (concat (map e820_bytes es)) (put off (e820_bytes e) bp) =
      put off (e820_bytes e @ concat (map e820_bytes es)) bp"
    using put_put_next [of off "e820_bytes e" "concat (map e820_bytes es)" bp] Cons.prems by simp
  then show ?case using Cons by (simp add: e write_e820_put)
qed

lemma concat_block:
  "i < length es \<Longrightarrow> slice_at (20 * i) 20 (concat (map e820_bytes es)) = e820_bytes (es ! i)"
  by (induction es arbitrary: i) (auto simp: slice_at_def less_Suc_eq_0_disj)

lemma length_e820_table [simp]: "length (concat (map e820_bytes es)) = 20 * length es"
  by (induction es) simp_all

lemma slice_slice: "i + n \<le> k \<Longrightarrow> slice_at i n (slice_at off k bs) = slice_at (off + i) n bs"
  by (simp add: slice_at_def take_drop min_def add.commute)

text \<open>The fields of the page that \<^verbatim>\<open>fill_boot_params\<close> leaves, later ones not touching earlier ones.\<close>

lemma zero_page_fields:
  assumes b1: "b1 = put 0x202 HdrS (put 0x1E0 (replicate 15 0) (put 0x228 (to_le 4 (ucast CMDLINE_START :: u32))
      (put 0x224 (to_le 2 (0xFE00 :: u16)) (put 0x214 (to_le 4 (ucast code32_start :: u32))
      (put 0x211 [put 0x210 [0xFF] boot_params ! 0x211 OR 0x81] (put 0x210 [0xFF] boot_params))))))"
    and b2: "b2 = put 0x2D0 (concat (map e820_bytes es)) b1"
    and bp: "bp = put 0x1E8 [of_nat (length es)] b2"
    and len: "length boot_params = 4096" "length es \<le> 168"
  shows "ucast (le_at 0x228 4 bp :: u32) = CMDLINE_START" "le_at 0x214 4 bp = (ucast code32_start :: u32)"
    "unat (bp ! 0x1E8) = length es"
    "i < length es \<Longrightarrow> slice_at (0x2D0 + 20 * i) 20 bp = e820_bytes (es ! i)"
proof -
  have l: "length b1 = 4096" "length b2 = 4096" "length HdrS = 4" using len by (simp_all add: b1 b2 HdrS_def)
  have s: "slice_at off n bp = slice_at off n b1" if "off + n \<le> 0x1E8 \<or> 0x1E9 \<le> off" "off + n \<le> 0x2D0" for off n
    using that l len by (simp add: bp b2 slice_put_apart)
  have "slice_at 0x228 4 bp = to_le 4 (ucast CMDLINE_START :: u32)" "slice_at 0x214 4 bp = to_le 4 (ucast code32_start :: u32)"
    using s [of "0x228" 4] s [of "0x214" 4] len l(3) by (simp_all add: b1 slice_put_apart slice_put_same)
  then show "ucast (le_at 0x228 4 bp :: u32) = CMDLINE_START" "le_at 0x214 4 bp = (ucast code32_start :: u32)"
    by (simp_all add: le_at_def slice_at_def from_le_to_le layout_defs)
  show "unat (bp ! 0x1E8) = length es" using l len(2) by (simp add: bp put_def nth_append unat_of_nat)
  show "slice_at (0x2D0 + 20 * i) 20 bp = e820_bytes (es ! i)" if i: "i < length es"
  proof -
    have "slice_at (0x2D0 + 20 * i) 20 bp = slice_at (20 * i) 20 (slice_at 0x2D0 (20 * length es) b2)"
      using i l by (simp add: bp slice_put_apart slice_slice)
    also have "slice_at 0x2D0 (20 * length es) b2 = concat (map e820_bytes es)"
      using l len(2) by (simp add: b2 slice_put_same)
    finally show ?thesis using concat_block [OF i] by simp
  qed
qed

section \<open>The segments of an ELF image\<close>

definition segment_data :: "u8 list \<Rightarrow> elf64_phdr \<Rightarrow> u8 list" where
  "segment_data kfile ph = slice_at (unat (p_offset ph)) (unat (p_filesz ph)) kfile"

definition apart :: "elf64_phdr \<Rightarrow> guest_address \<Rightarrow> nat \<Rightarrow> bool" where
  "apart ph a n \<longleftrightarrow> unat (p_paddr ph) + unat (p_filesz ph) \<le> unat a \<or> unat a + n \<le> unat (p_paddr ph)"

abbreviation loadable :: "elf64_phdr list \<Rightarrow> elf64_phdr list" where
  "loadable \<equiv> filter (\<lambda>ph. p_type ph = PT_LOAD)"

lemma load_segment_view:
  assumes wf: "mm_wf (pt_memory pt)" and l: "load_segment pt kfile ph h = Some (Ok h')"
  shows "guest_view (pt_memory pt) h' = view_update (guest_view (pt_memory pt) h) (p_paddr ph) (segment_data kfile ph)"
    and "length (segment_data kfile ph) = unat (p_filesz ph)"
    and "0 < p_filesz ph \<Longrightarrow> unat (p_paddr ph) + unat (p_filesz ph) \<le> 2 ^ 63"
proof -
  let ?d = "segment_data kfile ph"
  have "guest_view (pt_memory pt) h' = view_update (guest_view (pt_memory pt) h) (p_paddr ph) ?d \<and>
      length ?d = unat (p_filesz ph) \<and> (0 < p_filesz ph \<longrightarrow> unat (p_paddr ph) + unat (p_filesz ph) \<le> 2 ^ 63)"
  proof (cases "0 < p_filesz ph")
    case True
    then have n: "0 < unat (p_filesz ph)" by (simp add: word_less_nat_alt)
    have w: "length ?d = unat (p_filesz ph)" "write_guest_memory (pt_memory pt) h ?d (p_paddr ph) = Ok h'"
      "unat (p_filesz ph) < 2 ^ 63"
      using l True n by (auto simp: load_segment_def read_file_at_def segment_data_def slice_at_def write_code_def
          split: if_splits)
    obtain r p where "access_ok (pt_memory pt) (p_paddr ph) (length ?d) r p"
      by (rule write_guest_memory_Ok [OF wf _ w(2)]) (use w in simp_all)
    then show ?thesis using access_ok_bound [OF wf] write_guest_memory_view [OF wf _ w(2)] w by auto
  next
    case False
    then have z: "p_filesz ph = 0" by (simp add: word_neq_0_conv [symmetric])
    then have "?d = []" by (simp add: segment_data_def slice_at_def)
    then show ?thesis using l z by (simp add: load_segment_def view_update_def)
  qed
  then show "guest_view (pt_memory pt) h' = view_update (guest_view (pt_memory pt) h) (p_paddr ph) ?d"
    "length ?d = unat (p_filesz ph)" "0 < p_filesz ph \<Longrightarrow> unat (p_paddr ph) + unat (p_filesz ph) \<le> 2 ^ 63"
    by simp_all
qed

lemma load_segments_Cons:
  assumes "load_segments pt kfile (ph # phs) (h, lo, hi, d) = Some (Ok s)" "p_type ph = PT_LOAD"
  obtains h1 d1 where "load_segment pt kfile ph h = Some (Ok h1)"
    "load_segments pt kfile phs (h1, min lo (p_paddr ph), max hi (p_paddr ph + p_memsz ph), d1) = Some (Ok s)"
  using assms by (auto simp: Let_def split: option.splits result.splits)

lemma load_segments_bounds:
  assumes "load_segments pt kfile phs (h, lo, hi, d) = Some (Ok (h', lo', hi', d'))"
  shows "lo' \<le> lo \<and> hi \<le> hi' \<and> (\<forall>ph \<in> set (loadable phs). lo' \<le> p_paddr ph \<and> p_paddr ph + p_memsz ph \<le> hi')"
  using assms
proof (induction phs arbitrary: h lo hi d)
  case (Cons ph phs)
  show ?case
  proof (cases "p_type ph = PT_LOAD")
    case True
    obtain h1 d1 where *:
      "load_segments pt kfile phs (h1, min lo (p_paddr ph), max hi (p_paddr ph + p_memsz ph), d1) = Some (Ok (h', lo', hi', d'))"
      using load_segments_Cons [OF Cons.prems True] by metis
    then show ?thesis using Cons.IH [OF *] True by simp
  qed (use Cons in simp)
qed simp

lemma load_segments_frame:
  assumes wf: "mm_wf (pt_memory pt)" and "load_segments pt kfile phs (h, lo, hi, d) = Some (Ok (h', lo', hi', d'))"
    and "\<forall>ph \<in> set (loadable phs). apart ph a n" "unat a + n \<le> 2 ^ 64"
  shows "view_range (guest_view (pt_memory pt) h') a n = view_range (guest_view (pt_memory pt) h) a n"
  using assms(2,3)
proof (induction phs arbitrary: h lo hi d)
  case (Cons ph phs)
  show ?case
  proof (cases "p_type ph = PT_LOAD")
    case True
    obtain h1 d1 where *: "load_segment pt kfile ph h = Some (Ok h1)"
      "load_segments pt kfile phs (h1, min lo (p_paddr ph), max hi (p_paddr ph + p_memsz ph), d1) = Some (Ok (h', lo', hi', d'))"
      using load_segments_Cons [OF Cons.prems(1) True] by metis
    note v = load_segment_view [OF wf *(1)]
    have b: "unat (p_paddr ph) + length (segment_data kfile ph) \<le> 2 ^ 64"
      using v(2,3) unat_bounds(4) [of "p_paddr ph"] by (cases "p_filesz ph = 0") (auto simp: word_neq_0_conv)
    have "view_range (guest_view (pt_memory pt) h1) a n = view_range (guest_view (pt_memory pt) h) a n"
      unfolding v(1) by (rule view_range_apart) (use Cons.prems(2) True b v(2) assms(4) in \<open>auto simp: apart_def\<close>)
    then show ?thesis using Cons.IH [OF *(2)] Cons.prems(2) by simp
  qed (use Cons in simp)
qed simp

lemma boot_state_established:
  assumes wf: "mm_wf (pt_memory pt)" and acc: "access_ok (pt_memory pt) 0 n r p" "0xc000 < n"
    and perms: "perms_contain (rg_perms r) PERM_READ" "perms_contain (rg_perms r) PERM_WRITE"
  shows "\<exists>h' v. partition_setup_linux_registers True pt h kernel_entry = Ok (h', boot_registers kernel_entry) \<and>
    v = guest_view (pt_memory pt) h' \<and>
    (\<forall>va. unat va < 2 ^ 48 \<longrightarrow> translate v PML4_START va = (if unat va < 2 ^ 32 then Some va else None)) \<and>
    memory_word v (BOOT_GDT_START + ucast (sr_selector cs_desc)) = 0x00AF9A000000FFFF \<and>
    memory_word v (BOOT_GDT_START + ucast (sr_selector ds_desc)) = 0x00CF93000000FFFF"
proof -
  let ?m = "pt_memory pt"
  have lp: "length page_tables = 8192" by (simp add: page_tables_eq)
  have lg: "length boot_gdt = 32" by (simp add: boot_gdt_def)
  obtain bp where bp: "read_memory pt h ZERO_PAGE_START 4096 = Ok bp" "length bp = 4096"
    using read_memory_low [OF wf acc(1) perms(1), of ZERO_PAGE_START 4096 h] acc(2) by (auto simp: layout_defs)
  obtain h1 where h1: "write_code pt h page_tables PML4_START = Ok h1"
    "guest_view ?m h1 = view_update (guest_view ?m h) PML4_START page_tables"
    using write_code_low [OF wf acc(1) perms(2), of PML4_START page_tables h] acc(2) lp by (auto simp: layout_defs)
  obtain h2 where h2: "write_code pt h1 boot_gdt BOOT_GDT_START = Ok h2"
    "guest_view ?m h2 = view_update (guest_view ?m h1) BOOT_GDT_START boot_gdt"
    using write_code_low [OF wf acc(1) perms(2), of BOOT_GDT_START boot_gdt h1] acc(2) lg by (auto simp: layout_defs)
  have "partition_setup_linux_registers True pt h kernel_entry = Ok (h2, boot_registers kernel_entry)"
    using bp h1(1) h2(1)
    by (simp add: partition_setup_linux_registers_def setup_identity_paging_def setup_linux_registers_def)
  moreover have "view_range (guest_view ?m h2) PML4_START 8192 = map Some page_tables"
    using view_range_apart [of PML4_START 8192 BOOT_GDT_START boot_gdt "guest_view ?m h1"] lg
      view_range_written [of page_tables] lp by (simp add: h1(2) h2(2) layout_defs)
  moreover have "view_range (guest_view ?m h2) BOOT_GDT_START 32 = map Some boot_gdt"
    using view_range_written [of boot_gdt] lg by (simp add: h2(2))
  ultimately show ?thesis using identity_tables gdt_words by blast
qed

lemma fill_boot_params_delivers:
  fixes c :: "'sdt acpi_crate"
  assumes crate: "crate_ok c" and wf: "mm_wf (pt_memory pt)"
    and acc: "access_ok (pt_memory pt) 0 n r p" "perms_contain (rg_perms r) PERM_WRITE"
      "0xE0000 + acpi_bytes c (pt_device_manager pt) (pt_cpu_manager pt) < n"
    and len: "length boot_params = 4096" "length (e820_entries pt) \<le> 168"
  shows "\<exists>h' bp v. fill_boot_params c pt boot_params ZERO_PAGE_START code32_start h = Some (Ok (h', bp)) \<and>
    v = guest_view (pt_memory pt) h' \<and>
    view_range v ZERO_PAGE_START 4096 = map Some bp \<and>
    view_range v (ucast (le_at 0x228 4 bp :: u32)) (length cmd_line_vec) = map Some cmd_line_vec \<and>
    le_at 0x214 4 bp = (ucast code32_start :: u32) \<and>
    unat (bp ! 0x1E8) = length (e820_entries pt) \<and>
    (\<forall>i < length (e820_entries pt). slice_at (0x2D0 + 20 * i) 20 bp = e820_bytes (e820_entries pt ! i)) \<and>
    (\<forall>b n. 0xE0000 + acpi_bytes c (pt_device_manager pt) (pt_cpu_manager pt) \<le> unat b \<and> unat b + n \<le> 2 ^ 64 \<longrightarrow>
       view_range v b n = view_range (guest_view (pt_memory pt) h) b n)"
proof -
  let ?m = "pt_memory pt" and ?es = "e820_entries pt"
  define b1 where "b1 = put 0x202 HdrS (put 0x1E0 (replicate 15 0) (put 0x228 (to_le 4 (ucast CMDLINE_START :: u32))
    (put 0x224 (to_le 2 (0xFE00 :: u16)) (put 0x214 (to_le 4 (ucast code32_start :: u32))
    (put 0x211 [put 0x210 [0xFF] boot_params ! 0x211 OR 0x81] (put 0x210 [0xFF] boot_params))))))"
  define b2 where "b2 = put 0x2D0 (concat (map e820_bytes ?es)) b1"
  define bp where "bp = put 0x1E8 [of_nat (length ?es)] b2"
  have l: "length b1 = 4096" "length b2 = 4096" "length bp = 4096" "length HdrS = 4"
    using len by (simp_all add: b1_def b2_def bp_def HdrS_def)
  have lc: "length cmd_line_vec < 1024" by (simp add: cmd_line_vec_def cmd_line_def)
  obtain h1 where h1: "write_code pt h cmd_line_vec CMDLINE_START = Ok h1"
    "guest_view ?m h1 = view_update (guest_view ?m h) CMDLINE_START cmd_line_vec"
    using write_code_low [OF wf acc(1,2), of CMDLINE_START cmd_line_vec h] acc(3) lc by (auto simp: layout_defs)
  obtain h2 where h2: "write_code pt h1 bp ZERO_PAGE_START = Ok h2"
    "guest_view ?m h2 = view_update (guest_view ?m h1) ZERO_PAGE_START bp"
    using write_code_low [OF wf acc(1,2), of ZERO_PAGE_START bp h1] acc(3) l by (auto simp: layout_defs)
  have a: "access_ok ?m RSDP_POINTER (Suc (acpi_bytes c (pt_device_manager pt) (pt_cpu_manager pt))) r p"
    using low_access [OF wf acc(1), of RSDP_POINTER] acc(3) by (simp add: layout_defs)
  obtain h3 where h3: "create_acpi_tables c (pt_device_manager pt) (pt_cpu_manager pt) ?m h2 = Some (h3, RSDP_POINTER)"
    "\<forall>b n. unat b + n \<le> unat RSDP_POINTER \<or>
        unat RSDP_POINTER + acpi_bytes c (pt_device_manager pt) (pt_cpu_manager pt) \<le> unat b \<and> unat b + n \<le> 2 ^ 64 \<longrightarrow>
      view_range (guest_view ?m h3) b n = view_range (guest_view ?m h2) b n"
    using create_acpi_tables_view [OF crate wf a acc(2), of h2] by (elim exE conjE) (rule that, assumption+)
  have "fill_boot_params c pt boot_params ZERO_PAGE_START code32_start h = Some (Ok (h3, bp))"
    using h1(1) h2(1) h3(1) write_e820s_put [of "0x2D0" ?es b1] l len(2)
    by (simp add: fill_boot_params_def Let_def b1_def [symmetric] b2_def [symmetric] bp_def [symmetric])
  moreover have "view_range (guest_view ?m h3) ZERO_PAGE_START 4096 = map Some bp"
    using h3(2) view_range_written [of bp "guest_view ?m h1" ZERO_PAGE_START] l by (simp add: h2(2) layout_defs)
  moreover have cmd: "view_range (guest_view ?m h3) CMDLINE_START (length cmd_line_vec) = map Some cmd_line_vec"
    using h3(2) view_range_written [of cmd_line_vec "guest_view ?m h" CMDLINE_START] l lc
      view_range_apart [of CMDLINE_START "length cmd_line_vec" ZERO_PAGE_START bp "guest_view ?m h1"]
    by (simp add: h1(2) h2(2) layout_defs)
  moreover have "view_range (guest_view ?m h3) b n = view_range (guest_view ?m h) b n"
    if "0xE0000 + acpi_bytes c (pt_device_manager pt) (pt_cpu_manager pt) \<le> unat b \<and> unat b + n \<le> 2 ^ 64" for b n
    using h3(2) that l lc view_range_apart [of b n CMDLINE_START cmd_line_vec] view_range_apart [of b n ZERO_PAGE_START bp]
    by (simp add: h1(2) h2(2) layout_defs)
  ultimately show ?thesis using zero_page_fields [OF b1_def b2_def bp_def len] by auto
qed

text \<open>
  An image the loader accepts: the setup header is complete, with its magic, a version from 2.00 on
  and a protected-mode part that is loaded high.
\<close>

definition bzimage_ok :: "u8 list \<Rightarrow> bool" where
  "bzimage_ok k \<longleftrightarrow>
     (let header = setup_header_of_bytes (slice_at 0x1f1 123 k)
      in 0x26c \<le> length k \<and> 0x202 + unat (k ! 0x201) \<le> length k \<and> length k < 2 ^ 63 \<and>
         sh_header header = 0x53726448 \<and> 0x0200 \<le> sh_version header \<and> sh_loadflags header AND 1 \<noteq> 0)"

definition bzimage_payload :: "u8 list \<Rightarrow> u8 list" where
  "bzimage_payload k =
     (let sects = unat (sh_setup_sects (setup_header_of_bytes (slice_at 0x1f1 123 k)))
      in drop (((if sects = 0 then 4 else sects) + 1) * 512) k)"

lemma load_bzimage_delivers:
  fixes c :: "'sdt acpi_crate"
  assumes crate: "crate_ok c" and wf: "mm_wf (pt_memory pt)"
    and acc: "access_ok (pt_memory pt) 0 n r p" "perms_contain (rg_perms r) PERM_WRITE"
    and acpi: "0xE0000 + acpi_bytes c (pt_device_manager pt) (pt_cpu_manager pt) \<le> 0x100000"
    and len: "length (e820_entries pt) \<le> 168"
    and image: "bzimage_ok k" "0x100000 + length (bzimage_payload k) < n"
  shows "\<exists>h' bp v. load_bzimage_kernel c pt k h = Some (Ok (h', HIGH_RAM_START + 0x200)) \<and>
    v = guest_view (pt_memory pt) h' \<and>
    view_range v HIGH_RAM_START (length (bzimage_payload k)) = map Some (bzimage_payload k) \<and>
    view_range v ZERO_PAGE_START 4096 = map Some bp \<and>
    (le_at 0x214 4 bp :: u32) = sh_code32_start (setup_header_of_bytes (slice_at 0x1f1 123 k))"
proof -
  let ?m = "pt_memory pt" and ?hdr = "setup_header_of_bytes (slice_at 0x1f1 123 k)" and ?pl = "bzimage_payload k"
  let ?start = "ucast (sh_code32_start ?hdr) :: u64"
  have k: "0x26c \<le> length k" "0x202 + unat (k ! 0x201) \<le> length k" "length k < 2 ^ 63" "sh_header ?hdr = 0x53726448"
    "\<not> (sh_version ?hdr < 0x0200 \<or> sh_loadflags ?hdr AND 1 = 0)"
    using image(1) by (auto simp: bzimage_ok_def Let_def)
  have r1: "read_file_at k 0x1f1 123 = Some (slice_at 0x1f1 123 k)" using k(1) by (simp add: read_file_at_def slice_at_def)
  have r2: "read_file_at k 0x201 1 = Some [k ! 0x201]"
    using k(1) by (simp add: read_file_at_def take_Suc_conv_app_nth)
  have r3: "read_file_at k 0x1f1 (0x202 + unat (k ! 0x201) - 0x1f1) = Some (slice_at 0x1f1 (17 + unat (k ! 0x201)) k)"
    using k(2) by (simp add: read_file_at_def slice_at_def)
  have pl: "length ?pl \<le> length k" by (simp add: bzimage_payload_def Let_def)
  obtain h1 where h1: "write_code pt h ?pl HIGH_RAM_START = Ok h1"
    "guest_view ?m h1 = view_update (guest_view ?m h) HIGH_RAM_START ?pl"
    using write_code_low [OF wf acc, of HIGH_RAM_START ?pl h] image(2) by (auto simp: layout_defs)
  let ?page = "put 0x1f1 (slice_at 0x1f1 (17 + unat (k ! 0x201)) k) (replicate 4096 0)"
  have page: "length ?page = 4096"
    using k(2) unat_bounds(1) [of "k ! 0x201"] by (simp add: slice_at_def)
  have a: "0xE0000 + acpi_bytes c (pt_device_manager pt) (pt_cpu_manager pt) < n" using acpi image(2) by simp
  obtain h2 bp where h2: "fill_boot_params c pt ?page ZERO_PAGE_START ?start h1 = Some (Ok (h2, bp))"
    "view_range (guest_view ?m h2) ZERO_PAGE_START 4096 = map Some bp"
    "(le_at 0x214 4 bp :: u32) = ucast ?start"
    and frame: "\<forall>b n. 0xE0000 + acpi_bytes c (pt_device_manager pt) (pt_cpu_manager pt) \<le> unat b \<and> unat b + n \<le> 2 ^ 64 \<longrightarrow>
      view_range (guest_view ?m h2) b n = view_range (guest_view ?m h1) b n"
    using fill_boot_params_delivers [OF crate wf acc a page len, of ?start h1]
    by (elim exE conjE) (rule that, simp_all)
  have "load_bzimage_kernel c pt k h = Some (Ok (h2, HIGH_RAM_START + 0x200))"
    using r1 r2 r3 k(4,5) h1(1) h2(1)
    by (simp add: load_bzimage_kernel_def setup_bzimage_boot_params_def Let_def bzimage_payload_def)
  moreover have "view_range (guest_view ?m h2) HIGH_RAM_START (length ?pl) = map Some ?pl"
    using frame acpi pl k(3) view_range_written [of ?pl] by (simp add: h1(2) layout_defs)
  ultimately show ?thesis using h2(2,3) by auto
qed

section \<open>Properties\<close>

text \<open>
  The state in which a kernel starts.  Given a region of memory at address 0 that reaches past the page
  tables, setting up the registers succeeds, and then: the page
  tables that CR3 points to translate every address below 4 GiB to itself and fault on all others of the lower half,
  and the descriptors that the segment selectors choose are in the table that GDTR points to.
\<close>

theorem boot_state:
  assumes wf: "mm_wf (pt_memory pt)" and acc: "access_ok (pt_memory pt) 0 n r p" "0xc000 < n"
    and perms: "perms_contain (rg_perms r) PERM_READ" "perms_contain (rg_perms r) PERM_WRITE"
  shows "\<exists>h' v. partition_setup_linux_registers True pt h kernel_entry = Ok (h', boot_registers kernel_entry) \<and>
    v = guest_view (pt_memory pt) h' \<and>
    (\<forall>va. unat va < 2 ^ 48 \<longrightarrow> translate v PML4_START va = (if unat va < 2 ^ 32 then Some va else None)) \<and>
    memory_word v (BOOT_GDT_START + ucast (sr_selector cs_desc)) = 0x00AF9A000000FFFF \<and>
    memory_word v (BOOT_GDT_START + ucast (sr_selector ds_desc)) = 0x00CF93000000FFFF"
  by (rule boot_state_established [OF assms])

definition demo_boot :: partition where
  "demo_boot = demo_partition\<lparr>pt_memory := demo_ram, pt_device_manager := demo_dm, pt_cpu_manager := demo_cm\<rparr>"

lemma demo_boot_fields:
  "pt_memory demo_boot = demo_ram" "pt_device_manager demo_boot = demo_dm" "pt_cpu_manager demo_boot = demo_cm"
  by (simp_all add: demo_boot_def)

lemma demo_boot_perms:
  "perms_contain (rg_perms (mm_regions demo_ram ! 0)) PERM_READ"
  "perms_contain (rg_perms (mm_regions demo_ram ! 0)) PERM_WRITE"
  by (simp_all add: demo_ram_def perms_contain_def PERM_RWX_def PERM_READ_def PERM_WRITE_def PERM_EXECUTE_def)

theorem boot_state_witness:
  "\<exists>h'. partition_setup_linux_registers True demo_boot (\<lambda>_. 0) 0x1000000 = Ok (h', boot_registers 0x1000000) \<and>
    translate (guest_view (pt_memory demo_boot) h') PML4_START 0xfee00000 = Some 0xfee00000 \<and>
    translate (guest_view (pt_memory demo_boot) h') PML4_START 0x100000000 = None"
proof -
  obtain h' where "partition_setup_linux_registers True demo_boot (\<lambda>_. 0) 0x1000000 = Ok (h', boot_registers 0x1000000)"
    "\<forall>va. unat va < 2 ^ 48 \<longrightarrow> translate (guest_view (pt_memory demo_boot) h') PML4_START va =
       (if unat va < 2 ^ 32 then Some va else None)"
    using boot_state [of demo_boot "0x10000" "mm_regions demo_ram ! 0" "0x10000" "\<lambda>_. 0" "0x1000000"]
      demo_ram_wf demo_ram_access(1) [of 0 "0x10000"] demo_boot_perms by (auto simp: demo_boot_fields)
  then show ?thesis by auto
qed

text \<open>
  The boot parameters reach the guest: with memory from address 0 past the ACPI tables, filling them in succeeds; the zero page in guest memory
  is the page that was filled in, the command line it points to is in guest memory, and its memory map holds, in
  order, one entry per region of RAM, the reserved hole when memory reaches beyond it and one
  entry per device window, with their number in the byte at \<^verbatim>\<open>0x1E8\<close>.
\<close>

theorem zero_page_delivered:
  fixes c :: "'sdt acpi_crate"
  assumes crate: "crate_ok c" and wf: "mm_wf (pt_memory pt)"
    and acc: "access_ok (pt_memory pt) 0 n r p" "perms_contain (rg_perms r) PERM_WRITE"
      "0xE0000 + acpi_bytes c (pt_device_manager pt) (pt_cpu_manager pt) < n"
    and len: "length boot_params = 4096" "length (e820_entries pt) \<le> 168"
  shows "\<exists>h' bp v. fill_boot_params c pt boot_params ZERO_PAGE_START code32_start h = Some (Ok (h', bp)) \<and>
    v = guest_view (pt_memory pt) h' \<and>
    view_range v ZERO_PAGE_START 4096 = map Some bp \<and>
    view_range v (ucast (le_at 0x228 4 bp :: u32)) (length cmd_line_vec) = map Some cmd_line_vec \<and>
    le_at 0x214 4 bp = (ucast code32_start :: u32) \<and>
    unat (bp ! 0x1E8) = length (e820_entries pt) \<and>
    (\<forall>i < length (e820_entries pt). slice_at (0x2D0 + 20 * i) 20 bp = e820_bytes (e820_entries pt ! i))"
  using fill_boot_params_delivers [OF assms, of code32_start h] by metis

lemma demo_boot_entries: "e820_entries demo_boot = [(0, 0x40000000, 1)]"
  by (simp add: e820_entries_def demo_boot_def demo_ram_def start_addr_def get_memory_size_def demo_partition_def
      partition_new_def MEM_32BIT_RESERVED_START_def)

theorem zero_page_delivered_witness:
  "\<exists>h' bp. fill_boot_params demo_crate demo_boot (replicate 4096 0) ZERO_PAGE_START 0x1000000 (\<lambda>_. 0) = Some (Ok (h', bp)) \<and>
    view_range (guest_view demo_ram h') ZERO_PAGE_START 4096 = map Some bp \<and> unat (bp ! 0x1E8) = 1 \<and>
    slice_at 0x2D0 20 bp = e820_entry 0 0x40000000 1"
proof -
  have acc: "access_ok (pt_memory demo_boot) 0 0x200000 (mm_regions demo_ram ! 0) 0x10000"
    using demo_ram_access(1) [of 0 "0x200000"] by (simp add: demo_boot_fields)
  have b: "0xE0000 + acpi_bytes demo_crate (pt_device_manager demo_boot) (pt_cpu_manager demo_boot) < 0x200000"
    unfolding demo_boot_fields demo_acpi_bytes by simp
  have w: "mm_wf (pt_memory demo_boot)" using demo_ram_wf by (simp add: demo_boot_fields)
  have e: "length (e820_entries demo_boot) \<le> 168" by (simp add: demo_boot_entries)
  obtain h' bp where
    "fill_boot_params demo_crate demo_boot (replicate 4096 0) ZERO_PAGE_START 0x1000000 (\<lambda>_. 0) = Some (Ok (h', bp))"
    "view_range (guest_view demo_ram h') ZERO_PAGE_START 4096 = map Some bp"
    "unat (bp ! 0x1E8) = length (e820_entries demo_boot)"
    "\<forall>i < length (e820_entries demo_boot). slice_at (0x2D0 + 20 * i) 20 bp = e820_bytes (e820_entries demo_boot ! i)"
    using zero_page_delivered [OF demo_crate_ok w acc demo_boot_perms(2) b _ e, of "replicate 4096 0" "0x1000000" "\<lambda>_. 0"]
    unfolding demo_boot_fields length_replicate by blast
  then show ?thesis by (auto simp: demo_boot_entries e820_bytes_def)
qed

text \<open>
  C32.  A loaded ELF image: when the segments to load do not overlap in memory and loading succeeds, guest memory holds
  the bytes of the file for each of them at its physical address, and the recorded range covers
  all of them with their zero-filled tails.
\<close>

theorem elf_segments_loaded:
  assumes wf: "mm_wf (pt_memory pt)"
    and load: "load_segments pt kfile phdrs (h, - 1, 0, None) = Some (Ok (h', lowest_paddr, highest_end, delta))"
    and disjoint: "sorted_wrt (\<lambda>a b. apart b (p_paddr a) (unat (p_filesz a))) (loadable phdrs)"
  shows "\<forall>ph \<in> set (loadable phdrs).
    view_range (guest_view (pt_memory pt) h') (p_paddr ph) (unat (p_filesz ph)) = map Some (segment_data kfile ph) \<and>
    lowest_paddr \<le> p_paddr ph \<and> p_paddr ph + p_memsz ph \<le> highest_end"
proof -
  have "\<forall>ph \<in> set (loadable phdrs).
    view_range (guest_view (pt_memory pt) h') (p_paddr ph) (unat (p_filesz ph)) = map Some (segment_data kfile ph)"
    if "load_segments pt kfile phdrs (h, lo, hi, d) = Some (Ok (h', lowest_paddr, highest_end, delta))" for lo hi d
    using that disjoint
  proof (induction phdrs arbitrary: h lo hi d)
    case (Cons ph phs)
    show ?case
    proof (cases "p_type ph = PT_LOAD")
      case True
      obtain h1 d1 where *: "load_segment pt kfile ph h = Some (Ok h1)"
        "load_segments pt kfile phs (h1, min lo (p_paddr ph), max hi (p_paddr ph + p_memsz ph), d1) = Some (Ok (h', lowest_paddr, highest_end, delta))"
        using load_segments_Cons [OF Cons.prems(1) True] by metis
      note v = load_segment_view [OF wf *(1)]
      have b: "unat (p_paddr ph) + unat (p_filesz ph) \<le> 2 ^ 64"
        using v(3) unat_bounds(4) [of "p_paddr ph"] by (cases "p_filesz ph = 0") (auto simp: word_neq_0_conv)
      have "view_range (guest_view (pt_memory pt) h1) (p_paddr ph) (unat (p_filesz ph)) = map Some (segment_data kfile ph)"
        using view_range_written [of "segment_data kfile ph"] b v(2) unfolding v(1) by simp
      moreover have "\<forall>x \<in> set (loadable phs). apart x (p_paddr ph) (unat (p_filesz ph))"
        using Cons.prems(2) True by simp
      ultimately show ?thesis
        using load_segments_frame [OF wf *(2) _ b] Cons.IH [OF *(2)] Cons.prems(2) True by simp
    qed (use Cons in simp)
  qed simp
  then show ?thesis using load load_segments_bounds [OF load] by blast
qed

definition demo_phdrs :: "elf64_phdr list" where
  "demo_phdrs =
     [\<lparr>p_type = PT_LOAD, p_flags = 0, p_offset = 1, p_vaddr = 0xffffffff81000000, p_paddr = 0x1000000,
       p_filesz = 2, p_memsz = 16, p_align = 0\<rparr>,
      \<lparr>p_type = PT_LOAD, p_flags = 0, p_offset = 0, p_vaddr = 0xffffffff82000000, p_paddr = 0x2000000,
       p_filesz = 1, p_memsz = 8, p_align = 0\<rparr>]"

theorem elf_segments_loaded_witness:
  "\<exists>h'. load_segments demo_boot [7, 8, 9] demo_phdrs (\<lambda>_. 0, - 1, 0, None) =
      Some (Ok (h', 0x1000000, 0x2000008, Some 0xffffffff80000000)) \<and>
    view_range (guest_view demo_ram h') 0x1000000 2 = [Some 8, Some 9] \<and>
    view_range (guest_view demo_ram h') 0x2000000 1 = [Some 7]"
proof -
  have acc: "access_ok (pt_memory demo_boot) 0 0x40000000 (mm_regions demo_ram ! 0) 0x10000"
    using demo_ram_access(1) [of 0 "0x40000000"] by (simp add: demo_boot_fields)
  have w: "mm_wf (pt_memory demo_boot)" using demo_ram_wf by (simp add: demo_boot_fields)
  have p: "perms_contain (rg_perms (mm_regions demo_ram ! 0)) PERM_WRITE" by (rule demo_boot_perms)
  obtain h1 where h1: "write_code demo_boot (\<lambda>_. 0) [8, 9] 0x1000000 = Ok h1"
    using write_code_low [OF w acc p, of "0x1000000" "[8, 9]" "\<lambda>_. 0"] by auto
  obtain h2 where h2: "write_code demo_boot h1 [7] 0x2000000 = Ok h2"
    using write_code_low [OF w acc p, of "0x2000000" "[7]" h1] by auto
  have m: "\<not> (- 1 :: u64) \<le> 0x1000000" by (simp add: word_order.extremum_unique)
  have l: "load_segments demo_boot [7, 8, 9] demo_phdrs (\<lambda>_. 0, - 1, 0, None) =
      Some (Ok (h2, 0x1000000, 0x2000008, Some 0xffffffff80000000))"
    using h1 h2 m by (simp add: demo_phdrs_def load_segment_def read_file_at_def min_def max_def
        take_Cons' drop_Cons')
  have s: "sorted_wrt (\<lambda>a b. apart b (p_paddr a) (unat (p_filesz a))) (loadable demo_phdrs)"
    by (simp add: demo_phdrs_def apart_def)
  show ?thesis
    using l elf_segments_loaded [OF w l s]
    by (simp add: demo_phdrs_def segment_data_def slice_at_def demo_boot_fields take_Cons' drop_Cons')
qed

text \<open>
  C22.  A bzImage is loaded: for an image with a valid setup header that fits into memory, in a guest whose ACPI
  tables end below 1 MiB, loading succeeds; guest memory then holds the protected-mode part of the file from 1 MiB
  on, untouched by what is written after it, the zero page carries the entry address of the header, and
  the processor starts at the 64-bit entry point, \<^verbatim>\<open>0x200\<close> bytes into the kernel.
\<close>

theorem bzimage_loaded:
  fixes c :: "'sdt acpi_crate"
  assumes "crate_ok c" "mm_wf (pt_memory pt)"
    and "access_ok (pt_memory pt) 0 n r p" "perms_contain (rg_perms r) PERM_WRITE"
    and "0xE0000 + acpi_bytes c (pt_device_manager pt) (pt_cpu_manager pt) \<le> 0x100000"
    and "length (e820_entries pt) \<le> 168"
    and "bzimage_ok k" "0x100000 + length (bzimage_payload k) < n"
  shows "\<exists>h' bp v. load_bzimage_kernel c pt k h = Some (Ok (h', HIGH_RAM_START + 0x200)) \<and>
    v = guest_view (pt_memory pt) h' \<and>
    view_range v HIGH_RAM_START (length (bzimage_payload k)) = map Some (bzimage_payload k) \<and>
    view_range v ZERO_PAGE_START 4096 = map Some bp \<and>
    (le_at 0x214 4 bp :: u32) = sh_code32_start (setup_header_of_bytes (slice_at 0x1f1 123 k))"
  by (rule load_bzimage_delivers [OF assms])

text \<open>The smallest image: one sector of setup code, and two bytes of kernel.\<close>

definition demo_kernel :: "u8 list" where
  "demo_kernel = put 0x1f1 [1] (put 0x201 [0x66] (put 0x202 HdrS (put 0x206 [0x0f, 0x02]
     (put 0x211 [1] (put 0x214 (to_le 4 (0x100000 :: u32)) (replicate 1024 0)))))) @ [0x90, 0xf4]"

lemma le_at_slice: "off + n \<le> m \<Longrightarrow> le_at off n (slice_at i m bs) = from_le (slice_at (i + off) n bs)"
  by (simp add: le_at_def slice_at_def drop_take ac_simps)

lemma slice_append: "i + n \<le> length bs \<Longrightarrow> slice_at i n (bs @ cs) = slice_at i n bs"
  by (simp add: slice_at_def)

lemma demo_kernel_ok: "bzimage_ok demo_kernel" "bzimage_payload demo_kernel = [0x90, 0xf4]"
proof -
  note ev = demo_kernel_def slice_append slice_put_same slice_put_apart HdrS_def
  have l: "length demo_kernel = 1026" by (simp add: demo_kernel_def HdrS_def)
  have "slice_at 0x201 1 demo_kernel = [0x66]" by (simp add: ev)
  then have n: "demo_kernel ! 0x201 = 0x66" using l by (simp add: slice_at_def take_Suc_conv_app_nth)
  have "slice_at 0x202 4 demo_kernel = HdrS" "slice_at 0x206 2 demo_kernel = [0x0f, 0x02]"
    "slice_at 0x211 1 demo_kernel = [1]" "slice_at 0x1f1 1 demo_kernel = [1]" by (simp_all add: ev)
  then have h: "sh_header (setup_header_of_bytes (slice_at 0x1f1 123 demo_kernel)) = 0x53726448"
    "sh_version (setup_header_of_bytes (slice_at 0x1f1 123 demo_kernel)) = 0x20f"
    "sh_loadflags (setup_header_of_bytes (slice_at 0x1f1 123 demo_kernel)) = 1"
    "sh_setup_sects (setup_header_of_bytes (slice_at 0x1f1 123 demo_kernel)) = 1"
    by (simp_all add: setup_header_of_bytes_def le_at_slice HdrS_def)
  show "bzimage_ok demo_kernel" using l n h by (simp add: bzimage_ok_def Let_def)
  show "bzimage_payload demo_kernel = [0x90, 0xf4]"
    using h(4) by (simp add: bzimage_payload_def Let_def) (simp add: demo_kernel_def HdrS_def)
qed

theorem bzimage_loaded_witness:
  "\<exists>h'. load_bzimage_kernel demo_crate demo_boot demo_kernel (\<lambda>_. 0) = Some (Ok (h', 0x100200)) \<and>
    view_range (guest_view demo_ram h') 0x100000 2 = [Some 0x90, Some 0xf4]"
proof -
  have acc: "access_ok (pt_memory demo_boot) 0 0x200000 (mm_regions demo_ram ! 0) 0x10000"
    using demo_ram_access(1) [of 0 "0x200000"] by (simp add: demo_boot_fields)
  have a: "0xE0000 + acpi_bytes demo_crate (pt_device_manager demo_boot) (pt_cpu_manager demo_boot) \<le> 0x100000"
    unfolding demo_boot_fields demo_acpi_bytes by simp
  have w: "mm_wf (pt_memory demo_boot)" using demo_ram_wf by (simp add: demo_boot_fields)
  have e: "length (e820_entries demo_boot) \<le> 168" by (simp add: demo_boot_entries)
  have p: "0x100000 + length (bzimage_payload demo_kernel) < 0x200000" by (simp add: demo_kernel_ok(2))
  show ?thesis
    using bzimage_loaded [OF demo_crate_ok w acc demo_boot_perms(2) a e demo_kernel_ok(1) p, of "\<lambda>_. 0"]
    unfolding demo_boot_fields demo_kernel_ok(2) by (auto simp: layout_defs numeral_2_eq_2)
qed

end
