(* ===== verification/Startup.thy ===== *)
theory Startup
  imports Machine Linux_Boot
begin

text \<open>
  The start of the program (\<^verbatim>\<open>src/config.rs\<close>, \<^verbatim>\<open>src/main.rs\<close>): the configuration from the environment,
  the sequence of calls that builds the machine, and the run of the processor.

  The environment, the file system, the answers of the hypervisor and of \<^verbatim>\<open>VirtualAlloc\<close> are fields of
  \<open>start_host\<close>, and so is whether the Windows events of the devices, the event of the console's input
  and the input thread can be created.  Raw mode and what the input thread does (see \<open>Terminal\<close>) do not
  touch the machine; the log messages are left out.
\<close>

section \<open>Configuration\<close>

record vm_config =
  cfg_kernel_path :: string
  cfg_initram_path :: string
  cfg_rootfs_path :: string
  cfg_memory_size :: usize

datatype config_error = FileNotFound string string | FileSystemError

text \<open>\<^verbatim>\<open>str::parse::<usize>\<close>: an optional plus sign, then digits only, and no overflow.\<close>

definition digit_value :: "char \<Rightarrow> nat option" where
  "digit_value c = (let n = (of_char c :: nat) in if 48 \<le> n \<and> n \<le> 57 then Some (n - 48) else None)"

fun parse_digits :: "nat \<Rightarrow> string \<Rightarrow> nat option" where
  "parse_digits acc [] = Some acc"
| "parse_digits acc (c # cs) =
     (case digit_value c of None \<Rightarrow> None | Some d \<Rightarrow> parse_digits (10 * acc + d) cs)"

definition parse_usize :: "string \<Rightarrow> usize option" where
  "parse_usize s =
     (let ds = (case s of [] \<Rightarrow> [] | c # cs \<Rightarrow> if c = CHR ''+'' then cs else s)
      in if ds = [] then None
         else case parse_digits 0 ds of
                None \<Rightarrow> None
              | Some n \<Rightarrow> if n < 2 ^ 64 then Some (of_nat n) else None)"

definition require_file :: "(string \<Rightarrow> (unit, bool) result) \<Rightarrow> string \<Rightarrow> string \<Rightarrow> (config_error, unit) result" where
  "require_file exists path label =
     (case exists path of
        Err _ \<Rightarrow> Err FileSystemError
      | Ok found \<Rightarrow> if \<not> found then Err (FileNotFound label path) else Ok ())"

definition env_or :: "(string \<Rightarrow> string option) \<Rightarrow> string \<Rightarrow> string \<Rightarrow> string" where
  "env_or var name dflt = (case var name of None \<Rightarrow> dflt | Some v \<Rightarrow> v)"

definition from_env ::
  "(string \<Rightarrow> string option) \<Rightarrow> (string \<Rightarrow> (unit, bool) result) \<Rightarrow> (config_error, vm_config) result" where
  "from_env var exists =
     (let kernel_path = env_or var ''KERNEL_PATH'' ''kernels/fedora-kernel'';
          initram_path = env_or var ''INITRAM_PATH'' ''kernels/initramfs.img'';
          rootfs_path = env_or var ''ROOTFS_PATH'' ''kernels/fedora-rootfs.img'';
          memory_gb = (case Option.bind (var ''MEMORY_GB'') parse_usize of None \<Rightarrow> 5 | Some n \<Rightarrow> n);
          memory_size = memory_gb * 1024 * 1024 * 1024
      in bind_result (require_file exists kernel_path ''Kernel'') (\<lambda>_.
         bind_result (require_file exists initram_path ''Initramfs'') (\<lambda>_.
         bind_result (require_file exists rootfs_path ''Rootfs'') (\<lambda>_.
         Ok \<lparr>cfg_kernel_path = kernel_path, cfg_initram_path = initram_path,
             cfg_rootfs_path = rootfs_path, cfg_memory_size = memory_size\<rparr>))))"

section \<open>Building the machine\<close>

datatype hypervisor_call =
    CreatePartition
  | CreateEmulator
  | SetProcessorCount u32
  | SetLocalApicEmulation u32
  | SetCpuidExitList "u32 list"
  | SetupPartition
  | CreateVirtualProcessor u32
  | MapLowMemory
  | MapHighMemory
  | SetRegisters

record 'sdt start_host =
  sh_var :: "string \<Rightarrow> string option"
  sh_exists :: "string \<Rightarrow> (unit, bool) result"
  sh_file :: "string \<Rightarrow> u8 list option"
  sh_hv :: "hypervisor_call \<Rightarrow> bool"
  sh_virtual_alloc :: "u64 \<Rightarrow> u64 option"
  sh_open_image :: "string \<Rightarrow> (unit, u64 \<times> u64) result"
  sh_image_id :: "string \<Rightarrow> u8 list"
  sh_stdin_event :: bool
  sh_stdin_thread :: bool
  sh_events :: "string \<Rightarrow> event_site \<Rightarrow> bool"
  sh_bits :: virtio_bits
  sh_acpi :: "'sdt acpi_crate"
  sh_now :: nat
  sh_tsc :: u64
  sh_heap :: heap

datatype start_error = ConfigError config_error | PartitionError partition_error | BootError boot_error

definition CPUID_EXIT_LIST :: "u32 list" where
  "CPUID_EXIT_LIST = [0x40000000, 0x40000001, 0x40000002, 0x40000003, 0x40000004, 0x40000005]"

definition partition_setup :: "(hypervisor_call \<Rightarrow> bool) \<Rightarrow> (partition_error, unit) result" where
  "partition_setup hv =
     (if \<not> hv (SetLocalApicEmulation 1) then Err HypervisorCallFailed
      else if \<not> hv (SetCpuidExitList CPUID_EXIT_LIST) then Err HypervisorCallFailed
      else if \<not> hv SetupPartition then Err HypervisorCallFailed
      else Ok ())"

definition create_vp :: "(hypervisor_call \<Rightarrow> bool) \<Rightarrow> u32 \<Rightarrow> (partition_error, unit) result" where
  "create_vp hv vp_id = (if hv (CreateVirtualProcessor vp_id) then Ok () else Err HypervisorCallFailed)"

text \<open>The part of \<^verbatim>\<open>main\<close> up to the registered devices.\<close>

definition fallible :: "partition \<times> (partition_error, unit) result \<Rightarrow> (partition_error, partition) result" where
  "fallible r = (case r of (pt, Ok _) \<Rightarrow> Ok pt | (pt, Err e) \<Rightarrow> Err e)"

text \<open>The reader of the host's input is started with two \<^verbatim>\<open>expect\<close>s.\<close>

definition spawn_stdin_reader :: "bool \<Rightarrow> bool \<Rightarrow> ('e, unit) result panics" where
  "spawn_stdin_reader event_ok thread_ok =
     (if \<not> event_ok then None else if \<not> thread_ok then None else Some (Ok ()))"

definition build_partition :: "'sdt start_host \<Rightarrow> vm_config \<Rightarrow> (partition_error, partition) result panics" where
  "build_partition sh cfg =
     (if \<not> sh_hv sh CreatePartition \<or> \<not> sh_hv sh CreateEmulator then Some (Err HypervisorCallFailed)
      else
        bind_fallible (Some (fallible (configure (sh_hv sh (SetProcessorCount 1)) 1
          (partition_new (sh_now sh) (sh_tsc sh) (cfg_memory_size cfg))))) (\<lambda>pt.
        bind_fallible (Some (partition_setup (sh_hv sh))) (\<lambda>_.
        bind_fallible (Some (create_vp (sh_hv sh) 0)) (\<lambda>_.
        bind_fallible (Some (fallible (allocate_memory_with_size (sh_virtual_alloc sh (cfg_memory_size cfg))
          (sh_hv sh MapLowMemory) (sh_hv sh MapHighMemory) (cfg_memory_size cfg) pt))) (\<lambda>pt.
        bind_fallible (spawn_stdin_reader (sh_stdin_event sh) (sh_stdin_thread sh)) (\<lambda>_.
        register_devices (sh_events sh) (sh_bits sh) (sh_image_id sh (cfg_rootfs_path cfg))
          (sh_open_image sh (cfg_rootfs_path cfg)) pt))))))"

text \<open>The machine before its first instruction; the counters are the initial values of the statics.\<close>

definition initial_vm :: "partition \<Rightarrow> heap \<Rightarrow> vm_state" where
  "initial_vm pt h =
     \<lparr>vs_machine = \<lparr>m_partition = pt, m_rtc_time = 0, m_rtc_counter = 0, m_internal_counter = 0,
        m_injected = [], m_effects = []\<rparr>,
      vs_heap = h, vs_registers = [], vs_last_interrupt_time = 0, vs_start_time = None,
      vs_tsc_invariant_control = 0\<rparr>"

definition start_kernel ::
  "'sdt start_host \<Rightarrow> vm_config \<Rightarrow> partition \<Rightarrow>
   (start_error, vm_state \<times> (boot_register \<times> register_value) list) result panics" where
  "start_kernel sh cfg pt =
     (case load_linux_kernel (sh_acpi sh) pt (sh_file sh (cfg_kernel_path cfg)) (sh_heap sh) of
        None \<Rightarrow> None
      | Some (Err e) \<Rightarrow> Some (Err (BootError e))
      | Some (Ok (h, kernel_entry)) \<Rightarrow>
          Some (case partition_setup_linux_registers (sh_hv sh SetRegisters) pt h kernel_entry of
                  Err e \<Rightarrow> Err (BootError e)
                | Ok (h', registers) \<Rightarrow> Ok (initial_vm pt h', registers)))"

definition main_start ::
  "'sdt start_host \<Rightarrow> (start_error, vm_state \<times> (boot_register \<times> register_value) list) result panics" where
  "main_start sh =
     (case from_env (sh_var sh) (sh_exists sh) of
        Err e \<Rightarrow> Some (Err (ConfigError e))
      | Ok cfg \<Rightarrow>
          (case build_partition sh cfg of
             None \<Rightarrow> None
           | Some (Err e) \<Rightarrow> Some (Err (PartitionError e))
           | Some (Ok pt) \<Rightarrow> start_kernel sh cfg pt))"

text \<open>
  \<^verbatim>\<open>main\<close>: the result of the program once the processor has made the given exits (see \<open>vm_run\<close>);
  the outer \<open>None\<close> is an emulation that used up its fuel.
\<close>

definition main ::
  "'sdt start_host \<Rightarrow> nat \<Rightarrow> host \<Rightarrow> (vp_context \<times> vp_exit) option list \<Rightarrow>
   (start_error, vm_state) result panics option" where
  "main sh fuel ho exits =
     (case main_start sh of
        None \<Rightarrow> Some None
      | Some (Err e) \<Rightarrow> Some (Some (Err e))
      | Some (Ok (s, _)) \<Rightarrow>
          (case vm_run fuel ho exits s of
             None \<Rightarrow> None
           | Some None \<Rightarrow> Some None
           | Some (Some s') \<Rightarrow> Some (Some (Ok s'))))"

section \<open>The size of guest memory\<close>

lemma gigabytes:
  fixes w :: u64
  shows "unat (w * 1024 * 1024 * 1024) = (unat w mod 2 ^ 34) * 2 ^ 30"
proof -
  have "w * 1024 * 1024 * 1024 = push_bit 30 w" by (simp add: push_bit_eq_mult)
  then have "unat (w * 1024 * 1024 * 1024) = unat (push_bit 30 w)" by simp
  also have "\<dots> = take_bit 64 (push_bit 30 (unat w))" by (simp add: unsigned_push_bit_eq)
  also have "\<dots> = push_bit 30 (take_bit 34 (unat w))" by (simp add: take_bit_push_bit)
  finally show ?thesis by (simp add: push_bit_eq_mult take_bit_eq_mod)
qed

text \<open>A whole number of gigabytes never ends between the PCI window and the 32-bit hole.\<close>

lemma gigabytes_free:
  fixes w :: u64
  assumes "t = w * 1024 * 1024 * 1024"
  shows "unat t \<le> 0xe8000001 \<or> 0xfec00000 < unat t"
proof -
  define k where "k = unat w mod 2 ^ 34"
  have "unat t = k * 2 ^ 30" using gigabytes [of w] assms by (simp add: k_def)
  moreover have "k \<le> 3 \<or> 4 \<le> k" by arith
  ultimately show ?thesis by auto
qed

lemma from_env_size:
  assumes "from_env var exists = Ok cfg"
  shows "\<exists>w :: u64. cfg_memory_size cfg = w * 1024 * 1024 * 1024"
  using assms by (auto simp: from_env_def Let_def)

section \<open>The machine that is built\<close>

text \<open>
  What is documented of \<^verbatim>\<open>VirtualAlloc\<close>: it refuses a size of zero, and what it returns lies in the
  user part of a 47-bit address space.
\<close>

definition virtual_alloc_ok :: "(u64 \<Rightarrow> u64 option) \<Rightarrow> bool" where
  "virtual_alloc_ok va \<longleftrightarrow> (\<forall>n p. va n = Some p \<longrightarrow> 0 < n \<and> unat p + unat n \<le> 2 ^ 47)"

text \<open>What registering a device leaves alone: RAM, the processors and the PCI segments.\<close>

definition same_platform :: "partition \<Rightarrow> partition \<Rightarrow> bool" where
  "same_platform pt pt' \<longleftrightarrow> mm_regions (pt_memory pt') = mm_regions (pt_memory pt) \<and>
     pt_cpu_manager pt' = pt_cpu_manager pt \<and>
     dm_pci_segments (pt_device_manager pt') = dm_pci_segments (pt_device_manager pt)"

lemma register_mmio_region_same: "register_mmio_region g n nm hn pt = Ok pt' \<Longrightarrow> same_platform pt pt'"
  by (auto simp: same_platform_def register_mmio_region_def register_mmio_def split: option.splits if_splits)

lemma setup_virtio_same: "setup_virtio ev d irq base nm hn an uid pt = Ok pt' \<Longrightarrow> same_platform pt pt'"
  by (auto simp: setup_virtio_def register_mmio_handler_def register_virtio_mmio_def same_platform_def Let_def
      dest!: register_mmio_region_same split: result.splits)

lemma register_devices_same:
  assumes "register_devices ev vb image_id opened pt = Some (Ok pt')"
  shows "same_platform pt pt'"
  using assms
  by (auto simp: same_platform_def register_devices_def setup_ioapic_def setup_pci_ecam_def setup_virtio_block_def
      setup_virtio_rng_def setup_virtio_console_def setup_virtio_net_def register_mmio_handler_def
      dest!: register_mmio_region_same setup_virtio_same split: result.splits)

lemma register_devices_image: "register_devices ev vb image_id (Err e) pt \<noteq> Some (Ok pt')"
  by (auto simp: register_devices_def setup_virtio_block_def block_new_def)

lemma fallible_Ok [simp]: "fallible r = Ok pt \<longleftrightarrow> r = (pt, Ok ())"
  by (auto simp: fallible_def split: prod.splits result.splits)

lemma build_partition_reach:
  assumes "build_partition sh cfg = Some (Ok pt)" "virtual_alloc_ok (sh_virtual_alloc sh)"
  obtains p where "sh_virtual_alloc sh (cfg_memory_size cfg) = Some p" "0 < cfg_memory_size cfg"
    "unat p + unat (cfg_memory_size cfg) \<le> 2 ^ 47"
    "mm_regions (pt_memory pt) = ram_regions p (cfg_memory_size cfg)"
    "\<And>s. m_partition (vs_machine s) = pt \<Longrightarrow> vm_reach s"
proof -
  let ?t = "cfg_memory_size cfg" and ?new = "partition_new (sh_now sh) (sh_tsc sh) (cfg_memory_size cfg)"
  obtain p1 p2 where p1: "configure (sh_hv sh (SetProcessorCount 1)) 1 ?new = (p1, Ok ())"
    and p2: "allocate_memory_with_size (sh_virtual_alloc sh ?t) (sh_hv sh MapLowMemory) (sh_hv sh MapHighMemory) ?t p1 = (p2, Ok ())"
    and pt: "register_devices (sh_events sh) (sh_bits sh) (sh_image_id sh (cfg_rootfs_path cfg))
      (sh_open_image sh (cfg_rootfs_path cfg)) p2 = Some (Ok pt)"
    using assms(1) by (auto simp: build_partition_def split: if_splits)
  obtain p where p: "sh_virtual_alloc sh ?t = Some p" using p2
    by (auto simp: allocate_memory_with_size_def split: option.splits)
  have va: "0 < ?t" "unat p + unat ?t \<le> 2 ^ 47" using assms(2) p by (auto simp: virtual_alloc_ok_def)
  have p2': "allocate_memory_with_size (Some p) True True ?t p1 = (p2, Ok ())"
    using p2 p by (auto simp: allocate_memory_with_size_def Let_def split: if_splits)
  obtain sz where sz: "sh_open_image sh (cfg_rootfs_path cfg) = Ok sz"
    using pt register_devices_image by (cases "sh_open_image sh (cfg_rootfs_path cfg)") auto
  have "mm_regions (pt_memory p1) = []" using p1
    by (auto simp: configure_def partition_new_def memory_manager_new_def split: if_splits)
  then have "mm_regions (pt_memory p2) = ram_regions p ?t"
    using allocate_regions [of p1 p ?t] p2' by auto
  then have "mm_regions (pt_memory pt) = ram_regions p ?t" using register_devices_same [OF pt] by (simp add: same_platform_def)
  moreover have "vm_reach s" if "m_partition (vs_machine s) = pt" for s
  proof (rule vm_reach.start)
    show "allocate_memory_with_size (Some p) True True ?t
        (fst (configure (sh_hv sh (SetProcessorCount 1)) 1 ?new)) = (p2, Ok ())" using p1 p2' by simp
    show "register_devices (sh_events sh) (sh_bits sh) (sh_image_id sh (cfg_rootfs_path cfg)) (Ok sz) p2 =
        Some (Ok (m_partition (vs_machine s)))"
      using pt sz that by simp
    show "0 < ?t" "unat ?t \<le> 2 ^ 62" using va by simp_all
  qed
  ultimately show thesis using that p va by blast
qed

text \<open>The run of the processor stays in the reachable states.\<close>

lemma vm_run_reach:
  "vm_reach s \<Longrightarrow> vm_run fuel ho exits s = Some (Some s') \<Longrightarrow> vm_reach s'"
proof (induction exits arbitrary: s)
  case (Cons x exits)
  show ?case
  proof (cases x)
    case (Some ce)
    then obtain ctx e where x: "x = Some (ctx, e)" by (cases ce) simp
    show ?thesis
      using Cons.prems Cons.IH vm_reach.exit [OF Cons.prems(1)]
      by (fastforce simp: x split: option.splits result.splits bool.splits)
  qed (use Cons.prems in simp)
qed simp

lemma ram_low_access:
  assumes "mm_wf mm" "mm_regions mm = ram_regions p t" "0x40000000 \<le> unat t"
  obtains r where "access_ok mm 0 0x40000000 r p" "rg_perms r = PERM_RWX"
proof -
  let ?r = "hd (mm_regions mm)"
  have r: "?r \<in> set (mm_regions mm)" "rg_gpa ?r = 0" "rg_hpa ?r = Some p" "rg_perms ?r = PERM_RWX"
    "0x40000000 \<le> unat (rg_size ?r)"
    using assms(2,3) by (simp_all add: ram_regions_def memory_region_new_def ram_consts)
  then have "in_region ?r 0" using in_region_iff [OF mm_wf_region [OF assms(1)]] by simp
  from find_region_eq [OF assms(1) r(1) this] show thesis
    using that r by (simp add: access_ok_def)
qed

lemma from_env_free:
  assumes "from_env var exists = Ok cfg"
  shows "unat (cfg_memory_size cfg) \<le> 0xe8000001 \<or> 0xfec00000 < unat (cfg_memory_size cfg)"
  using from_env_size [OF assms] gigabytes_free by blast

lemma gigabytes_min:
  fixes w :: u64
  assumes "t = w * 1024 * 1024 * 1024" "0 < t"
  shows "0x40000000 \<le> unat t"
proof -
  have t: "unat t = (unat w mod 2 ^ 34) * 2 ^ 30" using gigabytes [of w] assms(1) by simp
  then have "0 < unat w mod 2 ^ 34" using assms(2) by (simp add: word_less_nat_alt)
  then have "1 * 2 ^ 30 \<le> (unat w mod 2 ^ 34) * 2 ^ 30" by (intro mult_le_mono1) simp
  then show ?thesis unfolding t by simp
qed

text \<open>What holds of the memory of a machine that was built from a configuration.\<close>

lemma built_memory:
  assumes "from_env var exists = Ok cfg" "0 < cfg_memory_size cfg" "unat p + unat (cfg_memory_size cfg) \<le> 2 ^ 47"
    and "mm_regions mm = ram_regions p (cfg_memory_size cfg)"
  shows "mm_wf mm" "address_in_range mm a \<longleftrightarrow> is_ram (cfg_memory_size cfg) a"
    "\<exists>r. access_ok mm 0 0x40000000 r p \<and> perms_contain (rg_perms r) PERM_READ \<and> perms_contain (rg_perms r) PERM_WRITE"
proof -
  have b: "unat p + unat (cfg_memory_size cfg) \<le> 2 ^ 64" "unat (cfg_memory_size cfg) \<le> 2 ^ 62" using assms(3) by simp_all
  show wf: "mm_wf mm" by (rule ram_regions_wf [OF assms(2) b assms(4)])
  show "address_in_range mm a \<longleftrightarrow> is_ram (cfg_memory_size cfg) a" by (rule ram_regions_range [OF assms(2) b assms(4)])
  have "0x40000000 \<le> unat (cfg_memory_size cfg)" using from_env_size [OF assms(1)] gigabytes_min assms(2) by blast
  from ram_low_access [OF wf assms(4) this] obtain r where "access_ok mm 0 0x40000000 r p" "rg_perms r = PERM_RWX" .
  then show "\<exists>r. access_ok mm 0 0x40000000 r p \<and> perms_contain (rg_perms r) PERM_READ \<and> perms_contain (rg_perms r) PERM_WRITE"
    by (auto simp: perms_contain_def perm_defs)
qed

lemma registers_set: "partition_setup_linux_registers set_ok pt h e = Ok r \<Longrightarrow> set_ok"
  by (auto simp: partition_setup_linux_registers_def setup_linux_registers_def Let_def split: result.splits if_splits)

text \<open>What the input thread and the devices need of the host.\<close>

definition threads_and_events :: "'sdt start_host \<Rightarrow> bool" where
  "threads_and_events sh \<longleftrightarrow> sh_stdin_event sh \<and> sh_stdin_thread sh \<and> device_events_ok (sh_events sh)"

lemma build_partition_devices:
  assumes cfg: "from_env (sh_var sh) (sh_exists sh) = Ok cfg" and hv: "\<forall>c. sh_hv sh c"
    and va: "virtual_alloc_ok (sh_virtual_alloc sh)" "sh_virtual_alloc sh (cfg_memory_size cfg) = Some p"
    and img: "sh_open_image sh (cfg_rootfs_path cfg) = Ok sz"
  obtains p2 where "allocate_memory_with_size (Some p) True True (cfg_memory_size cfg)
      (fst (configure True 1 (partition_new (sh_now sh) (sh_tsc sh) (cfg_memory_size cfg)))) = (p2, Ok ())"
    "windows_free (mm_regions (pt_memory p2))" "mm_mmio_regions (pt_memory p2) = []"
    "mm_regions (pt_memory p2) = ram_regions p (cfg_memory_size cfg)"
    "pt_cpu_manager p2 = set_cpu_count 1 cpu_manager_new"
    "pt_device_manager p2 = device_manager_init (sh_now sh) (device_manager_new (cfg_memory_size cfg))"
    "build_partition sh cfg = bind_fallible (spawn_stdin_reader (sh_stdin_event sh) (sh_stdin_thread sh)) (\<lambda>_.
        register_devices (sh_events sh) (sh_bits sh) (sh_image_id sh (cfg_rootfs_path cfg)) (Ok sz) p2)"
proof -
  let ?t = "cfg_memory_size cfg"
  let ?p1 = "fst (configure True 1 (partition_new (sh_now sh) (sh_tsc sh) ?t))"
  have t: "0 < ?t" "unat p + unat ?t \<le> 2 ^ 47" using va by (auto simp: virtual_alloc_ok_def)
  have p1: "configure True 1 (partition_new (sh_now sh) (sh_tsc sh) ?t) = (?p1, Ok ())" by (simp add: configure_def)
  have "mm_regions (pt_memory ?p1) = []" "mm_mmio_regions (pt_memory ?p1) = []"
    by (simp_all add: configure_def partition_new_def memory_manager_new_def)
  then obtain p2 where p2: "allocate_memory_with_size (Some p) True True ?t ?p1 = (p2, Ok ())"
    "mm_regions (pt_memory p2) = ram_regions p ?t" "mm_mmio_regions (pt_memory p2) = []"
    using allocate_regions [of ?p1 p ?t] by auto
  have pl: "pt_cpu_manager p2 = set_cpu_count 1 cpu_manager_new"
    "pt_device_manager p2 = device_manager_init (sh_now sh) (device_manager_new ?t)"
    using p2(1) by (auto simp: allocate_memory_with_size_def configure_def partition_new_def Let_def split: if_splits)
  have w: "windows_free (mm_regions (pt_memory p2))"
    using windows_free_ram [OF t(1), of p] t(2) p2(2) from_env_free [OF cfg] by simp
  have "fallible (configure True 1 (partition_new (sh_now sh) (sh_tsc sh) ?t)) = Ok ?p1"
    "fallible (allocate_memory_with_size (Some p) True True ?t ?p1) = Ok p2"
    unfolding fallible_Ok using p1 p2(1) by simp_all
  then have "build_partition sh cfg = bind_fallible (spawn_stdin_reader (sh_stdin_event sh) (sh_stdin_thread sh)) (\<lambda>_.
        register_devices (sh_events sh) (sh_bits sh) (sh_image_id sh (cfg_rootfs_path cfg)) (Ok sz) p2)"
    using hv va(2) img by (simp add: build_partition_def partition_setup_def create_vp_def del: fallible_Ok)
  then show thesis using that p2 pl w by blast
qed

lemma build_partition_succeeds:
  assumes "from_env (sh_var sh) (sh_exists sh) = Ok cfg" "\<forall>c. sh_hv sh c"
    and va: "virtual_alloc_ok (sh_virtual_alloc sh)" "sh_virtual_alloc sh (cfg_memory_size cfg) = Some p"
    and "sh_open_image sh (cfg_rootfs_path cfg) = Ok sz" and ev: "threads_and_events sh"
  obtains p1 pt where "build_partition sh cfg = Some (Ok pt)" "partition_ok pt" "same_platform p1 pt"
    "mm_regions (pt_memory pt) = ram_regions p (cfg_memory_size cfg)"
    "pt_cpu_manager p1 = set_cpu_count 1 cpu_manager_new"
    "pt_device_manager p1 = device_manager_init (sh_now sh) (device_manager_new (cfg_memory_size cfg))"
proof -
  obtain p2 where p2: "allocate_memory_with_size (Some p) True True (cfg_memory_size cfg)
      (fst (configure True 1 (partition_new (sh_now sh) (sh_tsc sh) (cfg_memory_size cfg)))) = (p2, Ok ())"
    and w: "windows_free (mm_regions (pt_memory p2))" "mm_mmio_regions (pt_memory p2) = []"
    and r: "mm_regions (pt_memory p2) = ram_regions p (cfg_memory_size cfg)"
      "pt_cpu_manager p2 = set_cpu_count 1 cpu_manager_new"
      "pt_device_manager p2 = device_manager_init (sh_now sh) (device_manager_new (cfg_memory_size cfg))"
    and b: "build_partition sh cfg = bind_fallible (spawn_stdin_reader (sh_stdin_event sh) (sh_stdin_thread sh)) (\<lambda>_.
        register_devices (sh_events sh) (sh_bits sh) (sh_image_id sh (cfg_rootfs_path cfg)) (Ok sz) p2)"
    using build_partition_devices [OF assms(1-5)] .
  obtain pt where pt: "register_devices (sh_events sh) (sh_bits sh) (sh_image_id sh (cfg_rootfs_path cfg)) (Ok sz) p2 = Some (Ok pt)"
    using register_devices_ok [OF w, of "sh_events sh"] ev unfolding threads_and_events_def by blast
  have t: "0 < cfg_memory_size cfg" "unat (cfg_memory_size cfg) \<le> 2 ^ 62" using va by (force simp: virtual_alloc_ok_def)+
  have ok: "partition_ok pt" by (rule start_ok [OF p2 t pt])
  have bp: "build_partition sh cfg = Some (Ok pt)"
    using b pt ev by (simp add: threads_and_events_def spawn_stdin_reader_def)
  show thesis
    using that [OF bp ok register_devices_same [OF pt]] register_devices_same [OF pt] r by (simp add: same_platform_def)
qed

lemma build_partition_no_events:
  assumes "from_env (sh_var sh) (sh_exists sh) = Ok cfg" "\<forall>c. sh_hv sh c"
    and "virtual_alloc_ok (sh_virtual_alloc sh)" "sh_virtual_alloc sh (cfg_memory_size cfg) = Some p"
    and "sh_open_image sh (cfg_rootfs_path cfg) = Ok sz" and ev: "\<not> threads_and_events sh"
  shows "build_partition sh cfg = None \<or> build_partition sh cfg = Some (Err DeviceError)"
proof -
  obtain p2 where w: "windows_free (mm_regions (pt_memory p2))" "mm_mmio_regions (pt_memory p2) = []"
    and b: "build_partition sh cfg = bind_fallible (spawn_stdin_reader (sh_stdin_event sh) (sh_stdin_thread sh)) (\<lambda>_.
        register_devices (sh_events sh) (sh_bits sh) (sh_image_id sh (cfg_rootfs_path cfg)) (Ok sz) p2)"
    using build_partition_devices [OF assms(1-5)] by metis
  show ?thesis
    using b ev register_devices_no_events [OF w, of "sh_events sh" "sh_bits sh" "sh_image_id sh (cfg_rootfs_path cfg)" sz]
    by (auto simp: threads_and_events_def spawn_stdin_reader_def)
qed

lemma start_kernel_registers:
  assumes cfg: "from_env var exists = Ok cfg" and t: "0 < cfg_memory_size cfg" "unat p + unat (cfg_memory_size cfg) \<le> 2 ^ 47"
    and "mm_regions (pt_memory pt) = ram_regions p (cfg_memory_size cfg)" and hv: "\<forall>c. sh_hv sh c"
    and load: "load_linux_kernel (sh_acpi sh) pt (sh_file sh (cfg_kernel_path cfg)) (sh_heap sh) = Some (Ok (h, e))"
  shows "\<exists>h'. start_kernel sh cfg pt = Some (Ok (initial_vm pt h', boot_registers e))"
proof -
  note mem = built_memory [OF cfg t assms(4)]
  obtain rg where rg: "access_ok (pt_memory pt) 0 0x40000000 rg p" "perms_contain (rg_perms rg) PERM_READ"
    "perms_contain (rg_perms rg) PERM_WRITE" using mem(3) by blast
  have "\<exists>h'. partition_setup_linux_registers True pt h e = Ok (h', boot_registers e)"
    using boot_state_established [OF mem(1) rg(1) _ rg(2,3), of h e] by auto
  then show ?thesis using hv load by (auto simp: start_kernel_def)
qed

section \<open>Properties\<close>

text \<open>
  C5.  When the start sequence succeeds, the processor starts in a machine that satisfies every
  invariant of the running machine: the memory is what the configuration asks for, the registers
  are those of the boot protocol with the entry point of the kernel, and paging maps the lowest 4 GiB
  to themselves; and every state in which the program then ends is a reachable one.
\<close>

theorem startup_reaches_machine:
  assumes "main_start sh = Some (Ok (s, registers))" "virtual_alloc_ok (sh_virtual_alloc sh)"
  defines "mm \<equiv> pt_memory (m_partition (vs_machine s))"
  shows "\<exists>cfg kernel_entry. from_env (sh_var sh) (sh_exists sh) = Ok cfg \<and> vm_reach s \<and>
    registers = boot_registers kernel_entry \<and> mm_wf mm \<and>
    (\<forall>a. address_in_range mm a \<longleftrightarrow> is_ram (cfg_memory_size cfg) a) \<and>
    (\<forall>va. unat va < 2 ^ 48 \<longrightarrow>
       translate (guest_view mm (vs_heap s)) PML4_START va = (if unat va < 2 ^ 32 then Some va else None)) \<and>
    (\<forall>fuel ho exits s'. main sh fuel ho exits = Some (Some (Ok s')) \<longrightarrow> vm_reach s')"
proof -
  obtain cfg pt where cfg: "from_env (sh_var sh) (sh_exists sh) = Ok cfg" and pt: "build_partition sh cfg = Some (Ok pt)"
    and k: "start_kernel sh cfg pt = Some (Ok (s, registers))"
    using assms(1) by (auto simp: main_start_def split: result.splits option.splits)
  from build_partition_reach [OF pt assms(2)] obtain p where p: "0 < cfg_memory_size cfg"
    "unat p + unat (cfg_memory_size cfg) \<le> 2 ^ 47" "mm_regions (pt_memory pt) = ram_regions p (cfg_memory_size cfg)"
    and r: "\<And>s. m_partition (vs_machine s) = pt \<Longrightarrow> vm_reach s" by metis
  note mem = built_memory [OF cfg p]
  obtain h e h' where e: "partition_setup_linux_registers (sh_hv sh SetRegisters) pt h e = Ok (h', registers)"
    and s: "s = initial_vm pt h'"
    using k by (auto simp: start_kernel_def split: option.splits result.splits prod.splits)
  obtain rg where rg: "access_ok (pt_memory pt) 0 0x40000000 rg p" "perms_contain (rg_perms rg) PERM_READ"
    "perms_contain (rg_perms rg) PERM_WRITE" using mem(3) by blast
  have ms: "m_partition (vs_machine s) = pt" "vs_heap s = h'" by (simp_all add: s initial_vm_def)
  have reach: "vm_reach s" by (rule r [OF ms(1)])
  have "registers = boot_registers e \<and> (\<forall>va. unat va < 2 ^ 48 \<longrightarrow>
      translate (guest_view (pt_memory pt) h') PML4_START va = (if unat va < 2 ^ 32 then Some va else None))"
    using boot_state_established [OF mem(1) rg(1) _ rg(2,3), of h e] e registers_set [OF e] by auto
  moreover have "vm_reach s'" if "main sh fuel ho exits = Some (Some (Ok s'))" for fuel ho exits s'
    using that assms(1) vm_run_reach [OF reach] by (auto simp: main_def split: option.splits)
  ultimately show ?thesis using cfg reach mem(1,2) ms unfolding mm_def by metis
qed

text \<open>
  C6.  When the start sequence succeeds: given an accepted configuration, a hypervisor and an allocator that do
  what they are asked and a disk image that opens, the outcome depends only on the Windows events, the input thread and the
  kernel image.  If the events of the devices and of the input can be created and the input thread starts, the devices register
  (no whole number of gigabytes collides with their windows), and the program fails only if the kernel image
  cannot be loaded, in the way the loader fails.  If one of them cannot be created, the program panics or ends with the error of
  the device.
\<close>

theorem startup_succeeds:
  assumes cfg: "from_env (sh_var sh) (sh_exists sh) = Ok cfg" and hv: "\<forall>c. sh_hv sh c"
    and va: "virtual_alloc_ok (sh_virtual_alloc sh)" "sh_virtual_alloc sh (cfg_memory_size cfg) = Some p"
    and img: "sh_open_image sh (cfg_rootfs_path cfg) = Ok sz"
  shows "if sh_stdin_event sh \<and> sh_stdin_thread sh \<and> device_events_ok (sh_events sh)
    then \<exists>pt. partition_ok pt \<and>
      (case load_linux_kernel (sh_acpi sh) pt (sh_file sh (cfg_kernel_path cfg)) (sh_heap sh) of
         None \<Rightarrow> main_start sh = None
       | Some (Err e) \<Rightarrow> main_start sh = Some (Err (BootError e))
       | Some (Ok (h, kernel_entry)) \<Rightarrow>
           \<exists>h'. main_start sh = Some (Ok (initial_vm pt h', boot_registers kernel_entry)))
    else main_start sh = None \<or> main_start sh = Some (Err (PartitionError DeviceError))"
proof (cases "threads_and_events sh")
  case True
  have t: "0 < cfg_memory_size cfg" "unat p + unat (cfg_memory_size cfg) \<le> 2 ^ 47" using va by (auto simp: virtual_alloc_ok_def)
  from build_partition_succeeds [OF assms True] obtain pt where pt: "build_partition sh cfg = Some (Ok pt)" "partition_ok pt"
    "mm_regions (pt_memory pt) = ram_regions p (cfg_memory_size cfg)" by metis
  note k = start_kernel_registers [OF cfg t pt(3) hv]
  have "main_start sh = start_kernel sh cfg pt" using cfg pt(1) by (simp add: main_start_def)
  then have "\<exists>pt. partition_ok pt \<and>
      (case load_linux_kernel (sh_acpi sh) pt (sh_file sh (cfg_kernel_path cfg)) (sh_heap sh) of
         None \<Rightarrow> main_start sh = None
       | Some (Err e) \<Rightarrow> main_start sh = Some (Err (BootError e))
       | Some (Ok (h, kernel_entry)) \<Rightarrow>
           \<exists>h'. main_start sh = Some (Ok (initial_vm pt h', boot_registers kernel_entry)))"
    using pt(2) k by (intro exI [of _ pt]) (auto simp: start_kernel_def split: option.split result.split)
  then show ?thesis using True by (simp add: threads_and_events_def)
next
  case False
  then show ?thesis
    using build_partition_no_events [OF assms False] cfg by (auto simp: main_start_def threads_and_events_def)
qed

section \<open>A host that starts the smallest kernel\<close>

definition demo_startup :: "u8 list start_host" where
  "demo_startup =
     \<lparr>sh_var = \<lambda>_. None, sh_exists = \<lambda>_. Ok True, sh_file = \<lambda>_. Some demo_kernel, sh_hv = \<lambda>_. True,
      sh_virtual_alloc = \<lambda>n. if n = 0x140000000 then Some 0x10000 else None,
      sh_open_image = \<lambda>_. Ok (0x40000000, 512), sh_image_id = \<lambda>_. [], sh_stdin_event = True, sh_stdin_thread = True,
      sh_events = \<lambda>_ _. True, sh_bits = demo_bits,
      sh_acpi = demo_crate, sh_now = 0, sh_tsc = 0, sh_heap = \<lambda>_. 0\<rparr>"

definition demo_config :: vm_config where
  "demo_config =
     \<lparr>cfg_kernel_path = ''kernels/fedora-kernel'', cfg_initram_path = ''kernels/initramfs.img'',
      cfg_rootfs_path = ''kernels/fedora-rootfs.img'', cfg_memory_size = 0x140000000\<rparr>"

lemma demo_startup_host:
  "from_env (sh_var demo_startup) (sh_exists demo_startup) = Ok demo_config" "\<forall>c. sh_hv demo_startup c"
  "virtual_alloc_ok (sh_virtual_alloc demo_startup)"
  "sh_virtual_alloc demo_startup (cfg_memory_size demo_config) = Some 0x10000"
  "sh_open_image demo_startup (cfg_rootfs_path demo_config) = Ok (0x40000000, 512)"
  "threads_and_events demo_startup"
  by (simp_all add: threads_and_events_def device_events_ok_def dev_events_def demo_startup_def demo_config_def from_env_def env_or_def require_file_def virtual_alloc_ok_def)

lemma demo_crate_bytes:
  assumes "length (dm_pci_segments dm) = 1"
  shows "acpi_bytes demo_crate dm demo_cm = 542"
proof -
  obtain x where x: "dm_pci_segments dm = [x]" using assms by (auto simp: length_Suc_conv)
  have n: "concat (map (\<lambda>_. []) xs) = []" for xs by (induction xs) simp_all
  have "length (sdt_as_slice demo_crate (create_dsdt_table demo_crate dm demo_cm)) = 36"
    by (simp add: create_dsdt_table_def demo_crate_def Let_def n)
  moreover have "length (sdt_as_slice demo_crate (create_mcfg_table demo_crate (dm_pci_segments dm))) = 60"
    by (simp add: x create_mcfg_table_def demo_crate_def Let_def pci_range_entry_bytes_def)
  moreover have "length (sdt_as_slice demo_crate (create_madt demo_crate demo_cm)) = 74"
    by (simp add: create_madt_def demo_crate_def Let_def demo_cm_def set_cpu_count_def cpu_manager_new_def cpu_ids_def
        local_apic_bytes_def madt_ioapic_bytes_def interrupt_source_override_bytes_def)
  ultimately show ?thesis by (simp add: acpi_bytes_def)
qed

lemma demo_startup_boots: "\<exists>s. main_start demo_startup = Some (Ok (s, boot_registers 0x100200))"
proof -
  from build_partition_succeeds [OF demo_startup_host] obtain p1 pt where
    pt: "build_partition demo_startup demo_config = Some (Ok pt)" "partition_ok pt" "same_platform p1 pt"
      "mm_regions (pt_memory pt) = ram_regions 0x10000 (cfg_memory_size demo_config)"
    and pl: "pt_cpu_manager p1 = set_cpu_count 1 cpu_manager_new"
      "pt_device_manager p1 = device_manager_init (sh_now demo_startup) (device_manager_new (cfg_memory_size demo_config))" .
  have t: "0 < cfg_memory_size demo_config" "unat (0x10000 :: u64) + unat (cfg_memory_size demo_config) \<le> 2 ^ 47"
    by (simp_all add: demo_config_def)
  note mem = built_memory [OF demo_startup_host(1) t pt(4)]
  obtain rg where rg: "access_ok (pt_memory pt) 0 0x40000000 rg 0x10000" "perms_contain (rg_perms rg) PERM_WRITE"
    using mem(3) by blast
  have "length (dm_pci_segments (pt_device_manager pt)) = 1"
    using pt(3) pl(2) by (simp add: same_platform_def device_manager_init_def device_manager_new_def
        add_acpi_platform_device_def)
  moreover have "pt_cpu_manager pt = demo_cm" using pt(3) pl(1) by (simp add: same_platform_def demo_cm_def)
  ultimately have a: "0xE0000 + acpi_bytes demo_crate (pt_device_manager pt) (pt_cpu_manager pt) \<le> 0x100000"
    using demo_crate_bytes by simp
  have e: "length (e820_entries pt) \<le> 168"
    using pt(2,4) by (simp add: e820_entries_def partition_ok_def device_mmio_def ram_regions_def)
  have "0x100000 + length (bzimage_payload demo_kernel) < 0x40000000" by (simp add: demo_kernel_ok(2))
  from load_bzimage_delivers [OF demo_crate_ok mem(1) rg a e demo_kernel_ok(1) this, of "\<lambda>_. 0"]
  obtain h where h: "load_bzimage_kernel demo_crate pt demo_kernel (\<lambda>_. 0) = Some (Ok (h, 0x100200))"
    by (auto simp: layout_defs)
  have "slice_at 0 4 demo_kernel = replicate 4 0" "4 \<le> length demo_kernel"
    by (simp_all add: demo_kernel_def slice_append slice_put_apart HdrS_def) (simp add: slice_at_def)
  moreover have "hd (replicate 4 0) \<noteq> hd ELF_MAGIC" by (simp add: ELF_MAGIC_def)
  ultimately have "slice_at 0 4 demo_kernel \<noteq> ELF_MAGIC" "4 \<le> length demo_kernel" by metis+
  then have "load_linux_kernel (sh_acpi demo_startup) pt (sh_file demo_startup (cfg_kernel_path demo_config)) (sh_heap demo_startup) =
      Some (Ok (h, 0x100200))"
    using h by (simp add: load_linux_kernel_def demo_startup_def read_file_at_def slice_at_def)
  from start_kernel_registers [OF demo_startup_host(1) t pt(4) demo_startup_host(2) this]
  show ?thesis using demo_startup_host(1) pt(1) by (auto simp: main_start_def)
qed

theorem startup_reaches_machine_witness:
  "\<exists>s. main_start demo_startup = Some (Ok (s, boot_registers 0x100200)) \<and> vm_reach s \<and>
    address_in_range (pt_memory (m_partition (vs_machine s))) 0x17fffffff"
proof -
  obtain s where s: "main_start demo_startup = Some (Ok (s, boot_registers 0x100200))" using demo_startup_boots by blast
  show ?thesis
    using startup_reaches_machine [OF s demo_startup_host(3)] s demo_startup_host(1)
    by (auto simp: demo_config_def is_ram_def)
qed

theorem startup_succeeds_witness:
  "\<exists>pt. partition_ok pt \<and> (\<forall>h e. load_linux_kernel demo_crate pt (Some demo_kernel) (\<lambda>_. 0) = Some (Ok (h, e)) \<longrightarrow>
     (\<exists>h'. main_start demo_startup = Some (Ok (initial_vm pt h', boot_registers e))))"
  using startup_succeeds [OF demo_startup_host(1-5)] demo_startup_host(6)
  by (auto simp: demo_startup_def threads_and_events_def)

end
