(* ===== verification/Terminal.thy ===== *)
theory Terminal
  imports Prelude
begin

text \<open>
  The input side of the host terminal (\<^verbatim>\<open>src/terminal.rs\<close>): the filter for cursor position reports
  and the thread that reads standard input; the modes of the console are in \<open>Host\<close>.  Also the translation of error numbers (\<^verbatim>\<open>src/devices/virtio/bindings.rs\<close>).
\<close>

section \<open>Cursor position reports\<close>

definition ESCAPE_KEY :: u8 where "ESCAPE_KEY = 0x1D"

definition report_char :: "u8 \<Rightarrow> bool" where
  "report_char b \<longleftrightarrow> 0x30 \<le> b \<and> b \<le> 0x39 \<or> b = 0x3b"

text \<open>The inner loop: the first position from \<open>j\<close> on that holds no digit and no semicolon.\<close>

function scan_report :: "u8 list \<Rightarrow> nat \<Rightarrow> nat" where
  "scan_report bytes j = (if j < length bytes \<and> report_char (bytes ! j) then scan_report bytes (j + 1) else j)"
  by pat_completeness auto
termination by (relation "measure (\<lambda>(bytes, j). length bytes - j)") auto

declare scan_report.simps [simp del]

lemma scan_report_eq: "scan_report bytes j = j + length (takeWhile report_char (drop j bytes))"
proof (induction bytes j rule: scan_report.induct)
  case (1 bytes j)
  show ?case
  proof (cases "j < length bytes")
    case True
    then have "drop j bytes = bytes ! j # drop (j + 1) bytes" by (simp add: Cons_nth_drop_Suc)
    then show ?thesis using 1 True by (subst scan_report.simps) auto
  next
    case False
    then show ?thesis by (subst scan_report.simps) simp
  qed
qed

function strip_loop :: "u8 list \<Rightarrow> nat \<Rightarrow> u8 list \<Rightarrow> u8 list" where
  "strip_loop bytes i result =
     (if i < length bytes then
        let j = scan_report bytes (i + 2)
        in if bytes ! i = 0x1b \<and> i + 2 < length bytes \<and> bytes ! (i + 1) = 0x5b \<and>
              i + 2 < j \<and> j < length bytes \<and> bytes ! j = 0x52
           then strip_loop bytes (j + 1) result
           else strip_loop bytes (i + 1) (result @ [bytes ! i])
      else result)"
  by pat_completeness auto
termination by (relation "measure (\<lambda>(bytes, i, result). length bytes - i)") (auto simp: scan_report_eq)

declare strip_loop.simps [simp del]

definition strip_cpr_responses :: "u8 list \<Rightarrow> u8 list" where
  "strip_cpr_responses bytes = strip_loop bytes 0 []"

section \<open>The reader thread\<close>

text \<open>What the thread shares with the console device, and the request to stop the machine.\<close>

record stdin_state =
  sd_buffer :: "u8 list"
  sd_signals :: nat
  sd_shutdown :: bool

definition signal_shutdown :: "stdin_state \<Rightarrow> stdin_state" where
  "signal_shutdown s = s\<lparr>sd_shutdown := True\<rparr>"

definition strip_response_and_signal :: "u8 list \<Rightarrow> stdin_state \<Rightarrow> stdin_state" where
  "strip_response_and_signal bytes s =
     (let filtered = strip_cpr_responses bytes
      in if filtered \<noteq> [] then s\<lparr>sd_buffer := sd_buffer s @ filtered, sd_signals := sd_signals s + 1\<rparr> else s)"

text \<open>
  The loop over the results of \<^verbatim>\<open>read\<close>: \<open>None\<close> is a failure, the empty list the end of the
  input.  The end of the list of results is a read that never returns.
\<close>

fun stdin_reader :: "u8 list option list \<Rightarrow> stdin_state \<Rightarrow> stdin_state" where
  "stdin_reader [] s = s"
| "stdin_reader (None # reads) s = s"
| "stdin_reader (Some bytes # reads) s =
     (if bytes = [] then s
      else if ESCAPE_KEY \<in> set bytes then
        let before = takeWhile (\<lambda>b. b \<noteq> ESCAPE_KEY) bytes
        in signal_shutdown (if before \<noteq> [] then strip_response_and_signal before s else s)
      else stdin_reader reads (strip_response_and_signal bytes s))"

section \<open>Error numbers\<close>

definition LINUX_EACCES :: i32 where "LINUX_EACCES = 13"
definition LINUX_ENODATA :: i32 where "LINUX_ENODATA = 61"
definition LINUX_ENOSYS :: i32 where "LINUX_ENOSYS = 38"
definition LINUX_ENOTEMPTY :: i32 where "LINUX_ENOTEMPTY = 39"

text \<open>The arms in their order; the second arm for 5 is never taken.\<close>

definition win_to_linux_errno :: "u32 \<Rightarrow> i32" where
  "win_to_linux_errno e =
     (if e = 0 then 0
      else if e = 1 \<or> e = 1314 then 1
      else if e = 2 \<or> e = 3 then 2
      else if e = 5 then LINUX_EACCES
      else if e = 5 \<or> e = 6 \<or> e = 21 then 6
      else if e = 1117 then 5
      else if e = 112 then 28
      else if e = 4 then 24
      else if e = 8 \<or> e = 14 then 12
      else if e = 80 \<or> e = 183 then 17
      else if e = 87 \<or> e = 161 then 22
      else if e = 145 then LINUX_ENOTEMPTY
      else if e = 120 then LINUX_ENOSYS
      else if e = 4331 then LINUX_ENODATA
      else 5)"

section \<open>The filter on lists\<close>

text \<open>A report at the front of the input, and what follows it.\<close>

definition report_tail :: "u8 list \<Rightarrow> u8 list option" where
  "report_tail bs =
     (let ds = takeWhile report_char (drop 2 bs); rest = dropWhile report_char (drop 2 bs)
      in if take 2 bs = [0x1b, 0x5b] \<and> ds \<noteq> [] \<and> rest \<noteq> [] \<and> hd rest = 0x52 then Some (tl rest) else None)"

lemma report_tail_shorter: "report_tail bs = Some rest \<Longrightarrow> length rest < length bs"
proof -
  assume r: "report_tail bs = Some rest"
  then have "take 2 bs = [0x1b, 0x5b]" "rest = tl (dropWhile report_char (drop 2 bs))"
    by (auto simp: report_tail_def Let_def split: if_splits)
  then have "2 \<le> length bs" "length rest \<le> length (dropWhile report_char (drop 2 bs))"
    by (auto dest: arg_cong [where f = length])
  then show ?thesis using length_dropWhile_le [of report_char "drop 2 bs"] by simp
qed

function strip_list :: "u8 list \<Rightarrow> u8 list" where
  "strip_list [] = []"
| "strip_list (b # bs) = (case report_tail (b # bs) of Some rest \<Rightarrow> strip_list rest | None \<Rightarrow> b # strip_list bs)"
  by pat_completeness auto

termination by (relation "measure length") (auto dest: report_tail_shorter)

declare strip_list.simps(2) [simp del]

lemma scan_parts:
  assumes "i + 2 \<le> length bytes"
  defines "j \<equiv> scan_report bytes (i + 2)" and "ds \<equiv> takeWhile report_char (drop (i + 2) bytes)"
  shows "drop j bytes = dropWhile report_char (drop (i + 2) bytes)" "i + 2 < j \<longleftrightarrow> ds \<noteq> []"
proof -
  have "drop (length ds) (drop (i + 2) bytes) = dropWhile report_char (drop (i + 2) bytes)"
    unfolding ds_def by (simp only: dropWhile_eq_drop)
  then show "drop j bytes = dropWhile report_char (drop (i + 2) bytes)"
    by (simp add: j_def scan_report_eq ds_def add.commute)
  show "i + 2 < j \<longleftrightarrow> ds \<noteq> []" by (simp add: j_def scan_report_eq ds_def)
qed

lemma report_tail_drop:
  assumes "i < length bytes"
  defines "j \<equiv> scan_report bytes (i + 2)"
  shows "report_tail (drop i bytes) =
    (if bytes ! i = 0x1b \<and> i + 2 < length bytes \<and> bytes ! (i + 1) = 0x5b \<and> i + 2 < j \<and> j < length bytes \<and> bytes ! j = 0x52
     then Some (drop (j + 1) bytes) else None)"
proof (cases "i + 2 < length bytes")
  case True
  have t: "take 2 (drop i bytes) = [bytes ! i, bytes ! (i + 1)]"
    using True by (intro nth_equalityI) (auto simp: less_2_cases_iff)
  note p = scan_parts [of i bytes, folded j_def]
  have "drop 2 (drop i bytes) = drop (i + 2) bytes" by (simp add: add.commute)
  moreover have "hd (drop j bytes) = bytes ! j" if "j < length bytes" using that by (simp add: hd_drop_conv_nth)
  moreover have "tl (drop j bytes) = drop (j + 1) bytes" by (simp add: drop_Suc tl_drop)
  moreover have "drop j bytes \<noteq> [] \<longleftrightarrow> j < length bytes" by auto
  ultimately show ?thesis using True t p unfolding report_tail_def Let_def by auto
next
  case False
  then show ?thesis by (auto simp: report_tail_def)
qed

text \<open>The loop over positions is the filter on lists.\<close>

lemma strip_loop_eq: "strip_loop bytes i result = result @ strip_list (drop i bytes)"
proof (induction bytes i result rule: strip_loop.induct)
  case (1 bytes i result)
  show ?case
  proof (cases "i < length bytes")
    case True
    then have d: "drop i bytes = bytes ! i # drop (i + 1) bytes" by (simp add: Cons_nth_drop_Suc)
    show ?thesis
      using 1 [OF True refl] report_tail_drop [OF True]
      by (subst strip_loop.simps) (simp add: True d strip_list.simps(2) Let_def)
  next
    case False
    then show ?thesis by (subst strip_loop.simps) simp
  qed
qed

section \<open>Properties\<close>

text \<open>
  What a terminal sends, as units: a byte, a key sequence \<^verbatim>\<open>ESC [ digits final\<close>, or a cursor
  position report \<^verbatim>\<open>ESC [ digits R\<close>.
\<close>

datatype input_unit = Key u8 | Sequence "u8 list" u8 | Report "u8 list"

fun unit_ok :: "input_unit \<Rightarrow> bool" where
  "unit_ok (Key b) \<longleftrightarrow> b \<noteq> 0x1b"
| "unit_ok (Sequence ds f) \<longleftrightarrow> (\<forall>d \<in> set ds. report_char d) \<and> \<not> report_char f \<and> f \<noteq> 0x1b \<and> (f = 0x52 \<longrightarrow> ds = [])"
| "unit_ok (Report ds) \<longleftrightarrow> ds \<noteq> [] \<and> (\<forall>d \<in> set ds. report_char d)"

fun unit_bytes :: "input_unit \<Rightarrow> u8 list" where
  "unit_bytes (Key b) = [b]"
| "unit_bytes (Sequence ds f) = [0x1b, 0x5b] @ ds @ [f]"
| "unit_bytes (Report ds) = [0x1b, 0x5b] @ ds @ [0x52]"

fun is_report :: "input_unit \<Rightarrow> bool" where
  "is_report (Report ds) = True"
| "is_report u = False"

lemma strip_plain: "\<forall>b \<in> set bs. b \<noteq> 0x1b \<Longrightarrow> strip_list (bs @ cs) = bs @ strip_list cs"
  by (induction bs) (auto simp: strip_list.simps(2) report_tail_def)

lemma takeWhile_report:
  "\<forall>d \<in> set ds. report_char d \<Longrightarrow> \<not> report_char f \<Longrightarrow>
   takeWhile report_char (ds @ f # cs) = ds \<and> dropWhile report_char (ds @ f # cs) = f # cs"
  by (induction ds) auto

lemma strip_unit:
  assumes "unit_ok u"
  shows "strip_list (unit_bytes u @ cs) = (if is_report u then [] else unit_bytes u) @ strip_list cs"
proof (cases u)
  case (Key b)
  then show ?thesis using assms strip_plain [of "[b]" cs] by simp
next
  case (Sequence ds f)
  have "report_tail (0x1b # 0x5b # ds @ f # cs) = None"
    using assms Sequence takeWhile_report [of ds f cs] by (auto simp: report_tail_def)
  moreover have "\<forall>b \<in> set (0x5b # ds @ [f]). b \<noteq> 0x1b"
    using assms Sequence by (auto simp: report_char_def word_le_nat_alt)
  ultimately show ?thesis using Sequence strip_plain [of "0x5b # ds @ [f]" cs] by (simp add: strip_list.simps(2))
next
  case (Report ds)
  have "\<not> report_char 0x52" by (simp add: report_char_def)
  then have "report_tail (0x1b # 0x5b # ds @ 0x52 # cs) = Some cs"
    using assms Report takeWhile_report [of ds "0x52" cs] by (simp add: report_tail_def)
  then show ?thesis using Report by (simp add: strip_list.simps(2))
qed

text \<open>
  The input filter: from any sequence of bytes other than ESC, key sequences and cursor
  position reports, exactly the reports are removed and everything else passes in order.
\<close>

theorem strip_removes_reports:
  assumes "\<forall>u \<in> set us. unit_ok u"
  shows "strip_cpr_responses (concat (map unit_bytes us)) = concat (map unit_bytes (filter (\<lambda>u. \<not> is_report u) us))"
  using assms by (induction us) (simp_all add: strip_cpr_responses_def strip_loop_eq strip_unit)

theorem strip_removes_reports_witness:
  "strip_cpr_responses [0x61, 0x1b, 0x5b, 0x33, 0x3b, 0x35, 0x52, 0x1b, 0x5b, 0x41] = [0x61, 0x1b, 0x5b, 0x41]"
  using strip_removes_reports [of "[Key 0x61, Report [0x33, 0x3b, 0x35], Sequence [] 0x41]"]
  by (simp add: report_char_def)



end
