(* ===== verification/Host.thy ===== *)
theory Host
  imports Partition Terminal Net_Worker
begin

text \<open>
  What the program takes from its host and gives back: the network proxy process
  (\<^verbatim>\<open>src/devices/virtio/net/gvproxy.rs\<close>), the modes of the host's console (\<^verbatim>\<open>src/terminal.rs\<close>), and
  the resources of the partition, which its \<^verbatim>\<open>Drop\<close> releases (\<^verbatim>\<open>src/partition.rs\<close>).  The calls of
  the system and of the hypervisor are parameters or, where only their order matters, emitted
  actions.
\<close>

section \<open>The network proxy\<close>

text \<open>A path is the list of its components.\<close>

type_synonym path = "string list"

definition path_parent :: "path \<Rightarrow> path option" where
  "path_parent p = (if p = [] then None else Some (butlast p))"

datatype spawn_error = NotFound | SpawnFailed string | TimedOut

record child =
  ch_stdin :: "child_stdin option"
  ch_stdout :: "u8 list option"

record gvproxy =
  gp_child :: child
  gp_pid_file :: path
  gp_log_file :: path

definition gvproxy_stdout :: "gvproxy \<Rightarrow> gvproxy \<times> u8 list option" where
  "gvproxy_stdout g = (g\<lparr>gp_child := (gp_child g)\<lparr>ch_stdout := None\<rparr>\<rparr>, ch_stdout (gp_child g))"

definition gvproxy_stdin :: "gvproxy \<Rightarrow> gvproxy \<times> child_stdin option" where
  "gvproxy_stdin g = (g\<lparr>gp_child := (gp_child g)\<lparr>ch_stdin := None\<rparr>\<rparr>, ch_stdin (gp_child g))"

text \<open>
  The host: the program's own path, the files that exist, the search of \<^verbatim>\<open>PATH\<close>, the directory for
  temporary files, the number of the process as it is printed, and the start of a program with its
  arguments.  \<open>px_clock i\<close> and \<open>px_ready i\<close> are the time in milliseconds and whether the file with
  the proxy's process number exists, at the \<open>i\<close>-th look.
\<close>

record proxy_env =
  px_current_exe :: "path option"
  px_exists :: "path \<Rightarrow> bool"
  px_which :: "path option"
  px_temp_dir :: path
  px_process_id :: string
  px_spawn :: "path \<Rightarrow> (string + path) list \<Rightarrow> (string, child) result"
  px_clock :: "nat \<Rightarrow> nat"
  px_ready :: "nat \<Rightarrow> bool"

definition find_gvproxy :: "proxy_env \<Rightarrow> path option" where
  "find_gvproxy env =
     (case px_current_exe env of
        Some exe \<Rightarrow>
          let candidate = (case path_parent exe of Some p \<Rightarrow> p | None \<Rightarrow> [''.'']) @ [''gvproxy.exe'']
          in if px_exists env candidate then Some candidate else px_which env
      | None \<Rightarrow> px_which env)"

text \<open>
  The loop until the deadline; it gives the number of looks, one for each round, and runs on fuel.
\<close>

fun await_ready :: "nat \<Rightarrow> proxy_env \<Rightarrow> nat \<Rightarrow> nat \<Rightarrow> nat option" where
  "await_ready 0 env deadline i = None"
| "await_ready (Suc fuel) env deadline i =
     (if px_clock env i < deadline then
        if px_ready env i then Some (Suc i) else await_ready fuel env deadline (Suc i)
      else Some (Suc i))"

text \<open>
  \<^verbatim>\<open>GvProxy::spawn\<close>: the result, and whether a proxy process is running afterwards.  The outer
  \<open>None\<close> is out of fuel.  Dropping a \<^verbatim>\<open>Child\<close> does not end the process.
\<close>

definition gvproxy_spawn :: "nat \<Rightarrow> proxy_env \<Rightarrow> (bool \<times> (spawn_error, gvproxy) result) option" where
  "gvproxy_spawn fuel env =
     (case find_gvproxy env of
        None \<Rightarrow> Some (False, Err NotFound)
      | Some gvproxy \<Rightarrow>
          let pid_file = px_temp_dir env @ [''gvproxy-'' @ px_process_id env @ ''.pid''];
              log_file = px_temp_dir env @ [''gvproxy-'' @ px_process_id env @ ''.log'']
          in case px_spawn env gvproxy
                 [Inl ''-listen-stdio'', Inl ''accept'', Inl ''-pid-file'', Inr pid_file,
                  Inl ''-log-file'', Inr log_file] of
               Err e \<Rightarrow> Some (False, Err (SpawnFailed e))
             | Ok ch \<Rightarrow>
                 let deadline = px_clock env 0 + 5000
                 in case await_ready fuel env deadline 1 of
                      None \<Rightarrow> None
                    | Some i \<Rightarrow>
                        if \<not> px_ready env i then Some (True, Err TimedOut)
                        else Some (True, Ok \<lparr>gp_child = ch, gp_pid_file = pid_file, gp_log_file = log_file\<rparr>))"

text \<open>\<^verbatim>\<open>Drop for GvProxy\<close>: the process is killed and waited for, and its file removed.\<close>

datatype proxy_action = KillChild | WaitChild | RemoveFile path

definition gvproxy_drop :: "gvproxy \<Rightarrow> proxy_action list" where
  "gvproxy_drop g = [KillChild, WaitChild, RemoveFile (gp_pid_file g)]"

section \<open>The modes of the console\<close>

text \<open>
  The calls on the console with its state \<open>'c\<close>: the handles of the streams, reading and setting
  the mode of a handle, and registering the control handler.
\<close>

definition ENABLE_PROCESSED_INPUT :: u32 where "ENABLE_PROCESSED_INPUT = 1"
definition ENABLE_LINE_INPUT :: u32 where "ENABLE_LINE_INPUT = 2"
definition ENABLE_ECHO_INPUT :: u32 where "ENABLE_ECHO_INPUT = 4"
definition ENABLE_VIRTUAL_TERMINAL_INPUT :: u32 where "ENABLE_VIRTUAL_TERMINAL_INPUT = 0x200"
definition ENABLE_PROCESSED_OUTPUT :: u32 where "ENABLE_PROCESSED_OUTPUT = 1"
definition ENABLE_VIRTUAL_TERMINAL_PROCESSING :: u32 where "ENABLE_VIRTUAL_TERMINAL_PROCESSING = 4"

lemmas console_bits = ENABLE_PROCESSED_INPUT_def ENABLE_LINE_INPUT_def ENABLE_ECHO_INPUT_def
  ENABLE_VIRTUAL_TERMINAL_INPUT_def ENABLE_PROCESSED_OUTPUT_def ENABLE_VIRTUAL_TERMINAL_PROCESSING_def

record 'c console_ops =
  std_input :: "'c \<Rightarrow> u64 option"
  std_output :: "'c \<Rightarrow> u64 option"
  get_mode :: "u64 \<Rightarrow> 'c \<Rightarrow> u32 option"
  set_mode :: "u64 \<Rightarrow> u32 \<Rightarrow> 'c \<Rightarrow> 'c"
  set_ctrl_handler :: "bool \<Rightarrow> 'c \<Rightarrow> 'c"

record host_console =
  saved_stdin_mode :: "(u64 \<times> u32) option"

definition setup_stdin :: "'c console_ops \<Rightarrow> 'c \<Rightarrow> 'c \<times> (u64 \<times> u32) option" where
  "setup_stdin ops c =
     (case std_input ops c of
        None \<Rightarrow> (c, None)
      | Some h \<Rightarrow>
          (case get_mode ops h c of
             None \<Rightarrow> (c, None)
           | Some mode \<Rightarrow>
               let raw = (mode AND NOT (ENABLE_ECHO_INPUT OR ENABLE_LINE_INPUT OR ENABLE_PROCESSED_INPUT))
                     OR ENABLE_VIRTUAL_TERMINAL_INPUT
               in (set_mode ops h raw c, Some (h, mode))))"

definition setup_stdout :: "'c console_ops \<Rightarrow> 'c \<Rightarrow> 'c" where
  "setup_stdout ops c =
     (case std_output ops c of
        None \<Rightarrow> c
      | Some h \<Rightarrow>
          (case get_mode ops h c of
             None \<Rightarrow> c
           | Some mode \<Rightarrow>
               set_mode ops h (mode OR ENABLE_PROCESSED_OUTPUT OR ENABLE_VIRTUAL_TERMINAL_PROCESSING) c))"

definition enter_raw_mode :: "'c console_ops \<Rightarrow> 'c \<Rightarrow> 'c \<times> host_console" where
  "enter_raw_mode ops c =
     (case setup_stdin ops c of
        (c1, saved) \<Rightarrow> (set_ctrl_handler ops True (setup_stdout ops c1), \<lparr>saved_stdin_mode = saved\<rparr>))"

definition host_console_drop :: "'c console_ops \<Rightarrow> host_console \<Rightarrow> 'c \<Rightarrow> 'c" where
  "host_console_drop ops hc c =
     (let c1 = set_ctrl_handler ops False c
      in case saved_stdin_mode hc of
           None \<Rightarrow> c1
         | Some (h, saved) \<Rightarrow> set_mode ops h saved c1)"

section \<open>The partition\<close>

text \<open>The flags that stop the run loop, and the handles whose running processor is cancelled.\<close>

record run_flags =
  rf_running :: bool
  rf_cancel_handle :: u64

definition cancel_vp :: "run_flags \<Rightarrow> run_flags \<times> u64 list" where
  "cancel_vp f =
     (let f' = f\<lparr>rf_running := False\<rparr>; h = rf_cancel_handle f
      in (f', if h \<noteq> 0 then [h] else []))"

text \<open>\<^verbatim>\<open>ctrl_handler\<close>: whatever the event, a shutdown; the result is \<^verbatim>\<open>TRUE\<close>.\<close>

definition ctrl_handler :: "u32 \<Rightarrow> run_flags \<Rightarrow> run_flags \<times> u64 list \<times> bool" where
  "ctrl_handler ctrl_type f = (case cancel_vp f of (f', cancelled) \<Rightarrow> (f', cancelled, True))"

text \<open>What is released, in the order of the calls.\<close>

datatype release =
    StopWorker string
  | DeleteVirtualProcessor u32
  | UnmapGpaRange u64 u64
  | DestroyEmulator
  | DeletePartition
  | VirtualFree u64

text \<open>\<^verbatim>\<open>Drop\<close> of the devices: a device with a worker is reset, which stops and joins it.\<close>

definition device_drop :: "string \<Rightarrow> virtio_device \<Rightarrow> virtio_device \<times> release list" where
  "device_drop name d =
     (if worker_queues d \<noteq> None then (fst (device_reset d), [StopWorker name]) else (d, []))"

definition handler_drop :: "string \<Rightarrow> mmio_handler \<Rightarrow> release list" where
  "handler_drop name hn =
     (case hn of HandlerVirtio t \<Rightarrow> snd (device_drop name (mt_device t)) | _ \<Rightarrow> [])"

text \<open>\<open>order\<close> is the order in which the hash map hands out its entries.\<close>

definition clear_handlers :: "string list \<Rightarrow> (string \<rightharpoonup> mmio_handler) \<Rightarrow> release list" where
  "clear_handlers order handlers =
     concat (map (\<lambda>n. case handlers n of None \<Rightarrow> [] | Some hn \<Rightarrow> handler_drop n hn) order)"

definition partition_drop :: "string list \<Rightarrow> bool \<Rightarrow> partition \<Rightarrow> release list" where
  "partition_drop order emulator_live pt =
     clear_handlers order (pt_mmio_handlers pt) @
     map DeleteVirtualProcessor (map of_nat [0..<unat (get_cpu_count (pt_cpu_manager pt))]) @
     map (\<lambda>r. UnmapGpaRange (start_addr r) (rg_size r)) (mm_regions (pt_memory pt)) @
     (if emulator_live then [DestroyEmulator] else []) @
     [DeletePartition] @
     (case pt_guest_memory_base pt of None \<Rightarrow> [] | Some base \<Rightarrow> [VirtualFree base])"

section \<open>Waiting for the proxy\<close>

text \<open>\<^verbatim>\<open>sleep\<close> lasts at least as long as it says, and the clock does not go back.\<close>

definition clock_advances :: "proxy_env \<Rightarrow> bool" where
  "clock_advances env \<longleftrightarrow>
     px_clock env 0 \<le> px_clock env 1 \<and> (\<forall>i \<ge> 1. px_clock env i + 20 \<le> px_clock env (Suc i))"

lemma clock_after: "clock_advances env \<Longrightarrow> px_clock env 0 + 20 * i \<le> px_clock env (Suc i)"
proof (induction i)
  case 0
  then show ?case by (simp add: clock_advances_def)
next
  case (Suc i)
  then have "px_clock env (Suc i) + 20 \<le> px_clock env (Suc (Suc i))" by (simp add: clock_advances_def)
  then show ?case using Suc by simp
qed

lemma await_ready_ends:
  assumes "clock_advances env" "1 \<le> i" "252 \<le> i + fuel"
  shows "fuel = 0 \<or> (\<exists>j. await_ready fuel env (px_clock env 0 + 5000) i = Some j \<and> i < j)"
  using assms(2,3)
proof (induction fuel arbitrary: i)
  case 0
  then show ?case by simp
next
  case (Suc fuel)
  show ?case
  proof (cases "px_clock env i < px_clock env 0 + 5000 \<and> \<not> px_ready env i")
    case True
    then have "i < 251" using clock_after [OF assms(1), of "i - 1"] Suc(2) by auto
    then have "fuel \<noteq> 0" using Suc(3) by simp
    then obtain j where "await_ready fuel env (px_clock env 0 + 5000) (Suc i) = Some j" "Suc i < j"
      using Suc(1) [of "Suc i"] Suc(3) by auto
    then show ?thesis using True by auto
  next
    case False
    then show ?thesis by auto
  qed
qed

lemma clock_mono: "clock_advances env \<Longrightarrow> i \<le> j \<Longrightarrow> px_clock env i \<le> px_clock env j"
proof (rule lift_Suc_mono_le [of "px_clock env"])
  fix n
  assume "clock_advances env"
  then show "px_clock env n \<le> px_clock env (Suc n)"
    by (cases n) (auto simp: clock_advances_def dest: spec [of _ n])
qed

lemma await_ready_seen:
  assumes "clock_advances env" "px_ready env k" "\<forall>j < k. \<not> px_ready env j" "px_clock env k < deadline"
    and "i \<le> k" "k - i < fuel"
  shows "await_ready fuel env deadline i = Some (Suc k)"
  using assms(5,6)
proof (induction fuel arbitrary: i)
  case 0
  then show ?case by simp
next
  case (Suc fuel)
  have "px_clock env i < deadline" using clock_mono [OF assms(1) Suc(2)] assms(4) by simp
  then show ?case using Suc(1) [of "Suc i"] Suc(2,3) assms(2,3) by (cases "i = k") auto
qed

section \<open>What is held\<close>

text \<open>
  The resources a partition holds, and which of them a call may release: a processor, a mapping or
  the partition itself only while the partition exists; the partition when it has no processors and
  mappings any more; the memory when no worker runs that may touch it and nothing maps it.
\<close>

record held =
  held_workers :: "string set"
  held_processors :: "u32 set"
  held_mappings :: "(u64 \<times> u64) set"
  held_emulator :: bool
  held_partition :: bool
  held_memory :: "u64 option"

fun release_one :: "release \<Rightarrow> held \<Rightarrow> held option" where
  "release_one (StopWorker n) s =
     (if n \<in> held_workers s then Some (s\<lparr>held_workers := held_workers s - {n}\<rparr>) else None)"
| "release_one (DeleteVirtualProcessor i) s =
     (if held_partition s \<and> i \<in> held_processors s
      then Some (s\<lparr>held_processors := held_processors s - {i}\<rparr>) else None)"
| "release_one (UnmapGpaRange a n) s =
     (if held_partition s \<and> (a, n) \<in> held_mappings s
      then Some (s\<lparr>held_mappings := held_mappings s - {(a, n)}\<rparr>) else None)"
| "release_one DestroyEmulator s = (if held_emulator s then Some (s\<lparr>held_emulator := False\<rparr>) else None)"
| "release_one DeletePartition s =
     (if held_partition s \<and> held_processors s = {} \<and> held_mappings s = {}
      then Some (s\<lparr>held_partition := False\<rparr>) else None)"
| "release_one (VirtualFree base) s =
     (if held_memory s = Some base \<and> held_workers s = {} \<and> held_mappings s = {} \<and> \<not> held_partition s
      then Some (s\<lparr>held_memory := None\<rparr>) else None)"

fun release_all :: "release list \<Rightarrow> held \<Rightarrow> held option" where
  "release_all [] s = Some s"
| "release_all (r # rs) s = (case release_one r s of None \<Rightarrow> None | Some s' \<Rightarrow> release_all rs s')"

definition running_workers :: "(string \<rightharpoonup> mmio_handler) \<Rightarrow> string set" where
  "running_workers handlers =
     {n. \<exists>t. handlers n = Some (HandlerVirtio t) \<and> worker_queues (mt_device t) \<noteq> None}"

definition held_by :: "bool \<Rightarrow> partition \<Rightarrow> held" where
  "held_by emulator_live pt =
     \<lparr>held_workers = running_workers (pt_mmio_handlers pt),
      held_processors = of_nat ` {0..<unat (get_cpu_count (pt_cpu_manager pt))},
      held_mappings = (\<lambda>r. (rg_gpa r, rg_size r)) ` set (mm_regions (pt_memory pt)),
      held_emulator = emulator_live, held_partition = True, held_memory = pt_guest_memory_base pt\<rparr>"

lemma release_all_append:
  "release_all (rs @ rs') s = (case release_all rs s of None \<Rightarrow> None | Some s' \<Rightarrow> release_all rs' s')"
  by (induction rs arbitrary: s) (auto split: option.splits)

lemma release_workers:
  assumes "distinct order" "set order \<inter> running_workers handlers \<subseteq> held_workers s"
  shows "release_all (clear_handlers order handlers) s =
    Some (s\<lparr>held_workers := held_workers s - (set order \<inter> running_workers handlers)\<rparr>)"
  using assms
proof (induction order arbitrary: s)
  case Nil
  then show ?case by (simp add: clear_handlers_def)
next
  case (Cons n order)
  have c: "clear_handlers (n # order) handlers =
      (if n \<in> running_workers handlers then [StopWorker n] else []) @ clear_handlers order handlers"
    by (auto simp: clear_handlers_def running_workers_def handler_drop_def device_drop_def
        split: option.splits mmio_handler.splits)
  show ?case
  proof (cases "n \<in> running_workers handlers")
    case True
    let ?s = "s\<lparr>held_workers := held_workers s - {n}\<rparr>"
    have "set order \<inter> running_workers handlers \<subseteq> held_workers ?s" using Cons(2,3) by auto
    from Cons(1) [OF _ this] show ?thesis using True Cons(2,3) unfolding c by (auto intro!: arg_cong [of _ _ "\<lambda>w. s\<lparr>held_workers := w\<rparr>"])
  next
    case False
    then show ?thesis using Cons(1) [of s] Cons(2,3) unfolding c by simp
  qed
qed

lemma release_processors:
  assumes "distinct is" "set is \<subseteq> held_processors s" "held_partition s"
  shows "release_all (map DeleteVirtualProcessor is) s =
    Some (s\<lparr>held_processors := held_processors s - set is\<rparr>)"
  using assms
proof (induction "is" arbitrary: s)
  case Nil
  then show ?case by simp
next
  case (Cons i "is")
  let ?s = "s\<lparr>held_processors := held_processors s - {i}\<rparr>"
  have "set is \<subseteq> held_processors ?s" "held_partition ?s" using Cons(2-4) by auto
  moreover have "held_processors s - {i} - set is = held_processors s - set (i # is)" by auto
  ultimately show ?case using Cons(1) [of ?s] Cons(2-4) by simp
qed

lemma release_mappings:
  assumes "distinct ms" "set ms \<subseteq> held_mappings s" "held_partition s"
  shows "release_all (map (\<lambda>(a, n). UnmapGpaRange a n) ms) s =
    Some (s\<lparr>held_mappings := held_mappings s - set ms\<rparr>)"
  using assms
proof (induction ms arbitrary: s)
  case Nil
  then show ?case by simp
next
  case (Cons m ms)
  let ?s = "s\<lparr>held_mappings := held_mappings s - {m}\<rparr>"
  have "set ms \<subseteq> held_mappings ?s" "held_partition ?s" using Cons(2-4) by auto
  moreover have "held_mappings s - {m} - set ms = held_mappings s - set (m # ms)" by auto
  ultimately show ?case using Cons(1) [of ?s] Cons(2-4) by (cases m) simp
qed

lemma distinct_regions:
  assumes "mm_wf mm"
  shows "distinct (map (\<lambda>r. (rg_gpa r, rg_size r)) (mm_regions mm))"
proof -
  have "distinct (map (\<lambda>r. (rg_gpa r, rg_size r)) rs)"
    if "list_all region_wf rs" "sorted_wrt regions_apart rs" for rs
    using that
    by (induction rs) (fastforce simp: regions_apart_def ranges_apart_def region_wf_def word_less_nat_alt)+
  then show ?thesis using assms by (simp add: mm_wf_def)
qed

lemma distinct_ids: "distinct (map of_nat [0..<unat (n :: u32)] :: u32 list)"
proof -
  have u: "unat (of_nat i :: u32) = i" if "i < unat n" for i
    using that unsigned_less [of n, where 'a = nat] by (simp add: unat_of_nat take_bit_nat_eq_self)
  have "inj_on (of_nat :: nat \<Rightarrow> u32) {0..<unat n}"
  proof (rule inj_onI)
    fix i j
    assume "i \<in> {0..<unat n}" "j \<in> {0..<unat n}" and e: "(of_nat i :: u32) = of_nat j"
    then show "i = j" using u [of i] u [of j] by (metis atLeastLessThan_iff)
  qed
  then show ?thesis by (simp add: distinct_map)
qed

section \<open>Properties\<close>

text \<open>
  C7.  Dropping the partition releases everything it holds, each resource once and in an order in
  which none is released too early: when the guest memory is freed every worker has been stopped,
  every mapping is gone and the partition is deleted, whatever order the map of handlers has.
\<close>

theorem teardown_releases_all:
  assumes "distinct order" "set order = dom (pt_mmio_handlers pt)" "mm_wf (pt_memory pt)"
  shows "release_all (partition_drop order emulator_live pt) (held_by emulator_live pt) =
    Some \<lparr>held_workers = {}, held_processors = {}, held_mappings = {}, held_emulator = False,
      held_partition = False, held_memory = None\<rparr>"
proof -
  let ?ms = "map (\<lambda>r. (rg_gpa r, rg_size r)) (mm_regions (pt_memory pt))"
  have w: "set order \<inter> running_workers (pt_mmio_handlers pt) = running_workers (pt_mmio_handlers pt)"
    using assms(2) by (auto simp: running_workers_def)
  have m: "map (\<lambda>r. UnmapGpaRange (start_addr r) (rg_size r)) (mm_regions (pt_memory pt)) =
      map (\<lambda>(a, n). UnmapGpaRange a n) ?ms"
    by (simp add: start_addr_def)
  show ?thesis
    unfolding partition_drop_def m
    using release_workers [OF assms(1), of "pt_mmio_handlers pt"] w
      release_processors [OF distinct_ids] release_mappings [OF distinct_regions [OF assms(3)]]
    by (auto simp: release_all_append held_by_def split: option.splits)
qed

definition demo_running_rng :: rng where
  "demo_running_rng = \<lparr>rng_avail_features = 0, rng_acked_features = 0, rng_device_state = Activated demo_mm,
     rng_worker_thread = Some [demo_queue]\<rparr>"

definition demo_host_partition :: partition where
  "demo_host_partition = (partition_new 0 0 0x2000)
     \<lparr>pt_memory := demo_mm, pt_cpu_manager := set_cpu_count 1 cpu_manager_new,
      pt_mmio_handlers := [''ioapic'' \<mapsto> HandlerIoApic,
        ''virtio_rng'' \<mapsto> HandlerVirtio (fresh_transport demo_mm (DevRng demo_running_rng))],
      pt_guest_memory_base := Some 0x10000\<rparr>"

theorem teardown_releases_all_witness:
  "partition_drop [''virtio_rng'', ''ioapic''] True demo_host_partition =
     [StopWorker ''virtio_rng'', DeleteVirtualProcessor 0, UnmapGpaRange 0 0x1000,
      UnmapGpaRange 0x100000000 0x1000, DestroyEmulator, DeletePartition, VirtualFree 0x10000] \<and>
   release_all (partition_drop [''virtio_rng'', ''ioapic''] True demo_host_partition)
     (held_by True demo_host_partition) =
   Some \<lparr>held_workers = {}, held_processors = {}, held_mappings = {}, held_emulator = False,
      held_partition = False, held_memory = None\<rparr>"
proof
  show "partition_drop [''virtio_rng'', ''ioapic''] True demo_host_partition =
     [StopWorker ''virtio_rng'', DeleteVirtualProcessor 0, UnmapGpaRange 0 0x1000,
      UnmapGpaRange 0x100000000 0x1000, DestroyEmulator, DeletePartition, VirtualFree 0x10000]"
    by (simp add: partition_drop_def demo_host_partition_def clear_handlers_def handler_drop_def device_drop_def
        fresh_transport_def demo_running_rng_def get_cpu_count_def set_cpu_count_def demo_mm_def start_addr_def)
  have "set [''virtio_rng'', ''ioapic''] = dom (pt_mmio_handlers demo_host_partition)"
    "mm_wf (pt_memory demo_host_partition)"
    using demo_mm_wf by (auto simp: demo_host_partition_def)
  from teardown_releases_all [OF _ this, of True]
  show "release_all (partition_drop [''virtio_rng'', ''ioapic''] True demo_host_partition)
     (held_by True demo_host_partition) =
   Some \<lparr>held_workers = {}, held_processors = {}, held_mappings = {}, held_emulator = False,
      held_partition = False, held_memory = None\<rparr>" by simp
qed

text \<open>
  Starting the proxy: the wait ends within the deadline of five seconds; it succeeds when the file
  with the process number appears in that time and stays, and otherwise fails, but leaves the
  process it has started running.
\<close>

theorem proxy_spawn_outcome:
  assumes "clock_advances env" "find_gvproxy env = Some g" "\<forall>args. px_spawn env g args = Ok ch" "251 \<le> fuel"
  shows "\<exists>res. gvproxy_spawn fuel env = Some (True, res) \<and>
    (\<forall>k \<ge> 1. (\<forall>j. px_ready env j \<longleftrightarrow> k \<le> j) \<and> px_clock env k < px_clock env 0 + 5000 \<longrightarrow>
       (\<exists>p. res = Ok p \<and> gp_child p = ch)) \<and>
    ((\<forall>j. \<not> px_ready env j) \<longrightarrow> res = Err TimedOut)"
proof -
  obtain j where j: "await_ready fuel env (px_clock env 0 + 5000) 1 = Some j"
    using await_ready_ends [OF assms(1), of 1 fuel] assms(4) by auto
  have seen: "px_ready env j" if k: "1 \<le> k" "\<forall>j. px_ready env j \<longleftrightarrow> k \<le> j" "px_clock env k < px_clock env 0 + 5000" for k
  proof -
    have "px_clock env 0 + 20 * (k - 1) \<le> px_clock env k" using clock_after [OF assms(1), of "k - 1"] k(1) by simp
    then have "k - 1 < fuel" using k(3) assms(4) by auto
    then have "await_ready fuel env (px_clock env 0 + 5000) 1 = Some (Suc k)"
      using await_ready_seen [OF assms(1) _ _ k(3) k(1)] k(2) by auto
    then show ?thesis using j k(2) by simp
  qed
  show ?thesis using seen assms(2,3) j by (auto simp: gvproxy_spawn_def Let_def)
qed

text \<open>
  The documentation of the console calls: a mode that is set is the mode that is read, of that
  handle only, and neither it nor the control handler changes the handles of the streams.
\<close>

definition console_laws :: "'c console_ops \<Rightarrow> bool" where
  "console_laws ops \<longleftrightarrow>
     (\<forall>h m c. get_mode ops h c \<noteq> None \<longrightarrow> get_mode ops h (set_mode ops h m c) = Some m) \<and>
     (\<forall>h h' m c. h \<noteq> h' \<longrightarrow> get_mode ops h' (set_mode ops h m c) = get_mode ops h' c) \<and>
     (\<forall>b h c. get_mode ops h (set_ctrl_handler ops b c) = get_mode ops h c) \<and>
     (\<forall>h m c. std_output ops (set_mode ops h m c) = std_output ops c)"

text \<open>
  Raw mode: between entering and dropping it the input has no echo, no line editing and no
  processed control keys; afterwards the mode of the input is the one found, but that of the output
  keeps the bits that were set.
\<close>

theorem console_mode_restored:
  assumes "console_laws ops" "std_input ops c = Some hi" "std_output ops c = Some ho" "hi \<noteq> ho"
    and "get_mode ops hi c = Some mi" "get_mode ops ho c = Some mo" "enter_raw_mode ops c = (c1, hc)"
  shows "(\<exists>raw. get_mode ops hi c1 = Some raw \<and> raw AND 7 = 0 \<and> raw AND 0x200 = 0x200) \<and>
    get_mode ops hi (host_console_drop ops hc c1) = Some mi \<and>
    get_mode ops ho (host_console_drop ops hc c1) = Some (mo OR 5)"
proof -
  have e: "c1 = set_ctrl_handler ops True (set_mode ops ho (mo OR 1 OR 4) (set_mode ops hi ((mi AND NOT (4 OR 2 OR 1)) OR 0x200) c))"
    "hc = \<lparr>saved_stdin_mode = Some (hi, mi)\<rparr>"
    using assms by (auto simp: enter_raw_mode_def setup_stdin_def setup_stdout_def console_laws_def console_bits Let_def)
  have i: "get_mode ops hi c1 = Some ((mi AND NOT 7) OR 0x200)" and o: "get_mode ops ho c1 = Some (mo OR 5)"
    using assms unfolding e by (auto simp: console_laws_def or.assoc)
  have "((mi AND NOT 7) OR 0x200) AND 7 = 0" "((mi AND NOT 7) OR 0x200) AND 0x200 = 0x200"
    by (simp_all add: bit.conj_disj_distrib2 and.assoc)
  then show ?thesis
    using i o assms(1,4) e(2) by (auto simp: host_console_drop_def console_laws_def Let_def)
qed

end
