(* ===== verification/Processor.thy ===== *)
theory Processor
  imports Startup Host
begin

text \<open>
  The virtual processor and the instruction emulator as the hypervisor offers them
  (\<^verbatim>\<open>run_vp\<close>, \<^verbatim>\<open>verify_rip\<close> and \<^verbatim>\<open>is_running\<close> of \<^verbatim>\<open>src/partition.rs\<close>, the constructor, the entry points and the
  register and translation callbacks of \<^verbatim>\<open>src/emulator.rs\<close>) and the loop of \<^verbatim>\<open>src/vm.rs\<close> over them.
  The hypervisor is a parameter with a state of its own, to which belongs the flag that other threads clear
  to stop the loop; while the processor runs, guest memory changes.
\<close>

section \<open>The hypervisor\<close>

text \<open>
  A register value is a union of 16 bytes; an error is the code of an \<^verbatim>\<open>HRESULT\<close>.  The constants of the
  Windows interface, the name of the instruction pointer and the code for \<^verbatim>\<open>ERROR_INTERNAL_ERROR\<close>, belong to
  the parameter.
\<close>

type_synonym reg_value = "128 word"

record 'w hypervisor =
  hv_running :: "'w \<Rightarrow> bool"
  hv_rip_name :: u32
  hv_internal_error :: u32
  hv_run :: "u32 \<Rightarrow> heap \<Rightarrow> 'w \<Rightarrow> (u32, vp_context \<times> vp_exit) result \<times> heap \<times> 'w"
  hv_get :: "u32 \<Rightarrow> u32 list \<Rightarrow> reg_value list \<Rightarrow> 'w \<Rightarrow> (u32, unit) result \<times> reg_value list"
  hv_set :: "u32 \<Rightarrow> u32 list \<Rightarrow> reg_value list \<Rightarrow> 'w \<Rightarrow> (u32, unit) result \<times> 'w"
  hv_translate :: "u32 \<Rightarrow> u64 \<Rightarrow> u32 \<Rightarrow> heap \<Rightarrow> 'w \<Rightarrow> (u32, u32 \<times> u64) result"

definition is_running :: "'w hypervisor \<Rightarrow> 'w \<Rightarrow> bool" where
  "is_running hv w = hv_running hv w"

definition run_vp ::
  "'w hypervisor \<Rightarrow> u32 \<Rightarrow> heap \<Rightarrow> 'w \<Rightarrow> (u32, vp_context \<times> vp_exit) result \<times> heap \<times> 'w" where
  "run_vp hv vp_id h w = hv_run hv vp_id h w"

definition verify_rip :: "'w hypervisor \<Rightarrow> u32 \<Rightarrow> 'w \<Rightarrow> (u32, u64) result" where
  "verify_rip hv vp_id w =
     (case hv_get hv vp_id [hv_rip_name hv] [0] w of
        (Err e, _) \<Rightarrow> Err e
      | (Ok _, values) \<Rightarrow> Ok (ucast (hd values)))"

section \<open>The emulator\<close>

record emulator =
  em_handle :: u64

text \<open>\<open>created\<close>: the result of \<^verbatim>\<open>WHvEmulatorCreateEmulator\<close> and the handle it has stored.\<close>

definition emulator_new :: "(u32, unit) result \<times> u64 \<Rightarrow> ((u32, unit) result, emulator) result" where
  "emulator_new created =
     (case created of (r, raw) \<Rightarrow>
        if r = Ok () \<and> raw \<noteq> 0 then Ok \<lparr>em_handle = raw\<rparr> else Err r)"

text \<open>
  \<^verbatim>\<open>try_io_emulation\<close> and \<^verbatim>\<open>try_mmio_emulation\<close>, which differ in the kind of exit; the inner result is the
  status, or \<open>None\<close> where the function fails.
\<close>

definition try_io_emulation ::
  "nat \<Rightarrow> host \<Rightarrow> emulator \<Rightarrow> vp_exit \<Rightarrow> machine \<Rightarrow> (machine \<times> u32 option) panics option" where
  "try_io_emulation fuel ho em e m =
     (if em_handle em = 0 then Some (Some (m, None)) else run_emulator fuel ho (ho_emulator ho e) [] m)"

definition try_mmio_emulation ::
  "nat \<Rightarrow> host \<Rightarrow> emulator \<Rightarrow> vp_exit \<Rightarrow> machine \<Rightarrow> (machine \<times> u32 option) panics option" where
  "try_mmio_emulation fuel ho em e m =
     (if em_handle em = 0 then Some (Some (m, None)) else run_emulator fuel ho (ho_emulator ho e) [] m)"

text \<open>The callbacks always speak of processor 0.\<close>

definition get_vp_registers_callback ::
  "'w hypervisor \<Rightarrow> u32 list \<Rightarrow> reg_value list \<Rightarrow> 'w \<Rightarrow> reg_value list \<times> u32" where
  "get_vp_registers_callback hv names values w =
     (case hv_get hv 0 names values w of
        (Ok _, values') \<Rightarrow> (values', 0)
      | (Err _, values') \<Rightarrow> (values', hv_internal_error hv))"

definition set_vp_registers_callback ::
  "'w hypervisor \<Rightarrow> u32 list \<Rightarrow> reg_value list \<Rightarrow> 'w \<Rightarrow> 'w \<times> u32" where
  "set_vp_registers_callback hv names values w =
     (case hv_set hv 0 names values w of
        (Ok _, w') \<Rightarrow> (w', 0)
      | (Err _, w') \<Rightarrow> (w', hv_internal_error hv))"

text \<open>The result code and the page address are stored on success only.\<close>

definition translate_gva_page_callback ::
  "'w hypervisor \<Rightarrow> u64 \<Rightarrow> u32 \<Rightarrow> heap \<Rightarrow> 'w \<Rightarrow> u32 \<times> u64 \<Rightarrow> (u32 \<times> u64) \<times> u32" where
  "translate_gva_page_callback hv gva flags h w out =
     (case hv_translate hv 0 gva flags h w of
        Ok (code, gpa) \<Rightarrow> ((code, gpa), 0)
      | Err e \<Rightarrow> (out, e))"

section \<open>The loop\<close>

text \<open>
  \<^verbatim>\<open>run\<close> of \<^verbatim>\<open>src/vm.rs\<close> after the check of the first instruction pointer, whose result is only
  logged.  One unit of fuel per turn; the outer \<open>None\<close> is no fuel left, the inner one a panic.
\<close>

fun run_loop ::
  "nat \<Rightarrow> nat \<Rightarrow> host \<Rightarrow> 'w hypervisor \<Rightarrow> vm_state \<Rightarrow> 'w \<Rightarrow> (vm_state \<times> 'w) panics option" where
  "run_loop 0 fuel ho hv s w = None"
| "run_loop (Suc n) fuel ho hv s w =
     (if \<not> is_running hv w then Some (Some (s, w))
      else
        (case run_vp hv 0 (vs_heap s) w of
           (Err _, h, w') \<Rightarrow> Some (Some (s\<lparr>vs_heap := h\<rparr>, w'))
         | (Ok (ctx, e), h, w') \<Rightarrow>
             (case handle_exit fuel ho ctx e (s\<lparr>vs_heap := h\<rparr>) of
                None \<Rightarrow> None
              | Some None \<Rightarrow> Some None
              | Some (Some (Ok (s', True))) \<Rightarrow> run_loop n fuel ho hv s' w'
              | Some (Some (Ok (s', False))) \<Rightarrow> Some (Some (s', w'))
              | Some (Some (Err _)) \<Rightarrow> Some (Some (s\<lparr>vs_heap := h\<rparr>, w')))))"

lemma run_loop_reach:
  "vm_reach s \<Longrightarrow> run_loop n fuel ho hv s w = Some (Some (s', w')) \<Longrightarrow> vm_reach s'"
proof (induction n arbitrary: s w)
  case (Suc n)
  obtain r h w1 where r: "run_vp hv 0 (vs_heap s) w = (r, h, w1)" by (cases "run_vp hv 0 (vs_heap s) w") auto
  have m: "vm_reach (s\<lparr>vs_heap := h\<rparr>)" by (rule vm_reach.memory [OF Suc.prems(1)])
  show ?case
  proof (cases "is_running hv w \<and> (\<exists>ctx e. r = Ok (ctx, e))")
    case True
    then obtain ctx e where e: "is_running hv w" "r = Ok (ctx, e)" by blast
    consider err where "handle_exit fuel ho ctx e (s\<lparr>vs_heap := h\<rparr>) = Some (Some (Err err))"
      | s1 b where "handle_exit fuel ho ctx e (s\<lparr>vs_heap := h\<rparr>) = Some (Some (Ok (s1, b)))"
      using Suc.prems(2) by (auto simp: r e split: option.splits result.splits)
    then show ?thesis
    proof cases
      case 1
      then show ?thesis using Suc.prems(2) m by (simp add: r e)
    next
      case 2
      then show ?thesis using Suc.prems(2) vm_reach.exit [OF m 2] Suc.IH by (cases b) (simp_all add: r e)
    qed
  next
    case False
    then have "s' = s \<or> s' = s\<lparr>vs_heap := h\<rparr>" using Suc.prems(2) by (auto simp: r split: if_splits result.splits)
    then show ?thesis using m Suc.prems(1) by auto
  qed
qed simp

text \<open>
  A hypervisor on which the flag is cleared sooner or later: some number falls with every run of the
  processor, whatever the guest does.
\<close>

definition stops_within :: "'w hypervisor \<Rightarrow> ('w \<Rightarrow> nat) \<Rightarrow> bool" where
  "stops_within hv m \<longleftrightarrow>
     (\<forall>h w. hv_running hv w \<longrightarrow> m (snd (snd (hv_run hv 0 h w))) < m w)"

lemma run_loop_ends:
  assumes "stops_within hv m" "\<And>ctx e s. handle_exit fuel ho ctx e s \<noteq> None"
  shows "m w < n \<Longrightarrow> run_loop n fuel ho hv s w \<noteq> None"
proof (induction n arbitrary: s w)
  case (Suc n)
  obtain r h w1 where r: "run_vp hv 0 (vs_heap s) w = (r, h, w1)" by (cases "run_vp hv 0 (vs_heap s) w") auto
  show ?case
  proof (cases "is_running hv w")
    case True
    then have "m w1 < m w" using assms(1) r unfolding stops_within_def is_running_def run_vp_def by (metis snd_conv)
    then have "run_loop n fuel ho hv s' w1 \<noteq> None" for s' using Suc by simp
    moreover have "handle_exit fuel ho ctx e (s\<lparr>vs_heap := h\<rparr>) = None \<Longrightarrow> False" for ctx e
      using assms(2) by blast
    ultimately show ?thesis by (auto simp: r split: option.splits result.splits bool.splits)
  qed simp
qed simp

section \<open>The exits as a list\<close>

text \<open>
  The hypervisor that makes given exits, one after the other, without a change of memory, and is stopped after
  the last: over it the loop is the one of the theory \<open>Vm\<close>.
\<close>

definition scripted :: "(vp_context \<times> vp_exit) option list hypervisor" where
  "scripted =
     \<lparr>hv_running = \<lambda>w. w \<noteq> [], hv_rip_name = 0, hv_internal_error = 1,
      hv_run = \<lambda>_ h w. (case hd w of None \<Rightarrow> Err 0 | Some x \<Rightarrow> Ok x, h, tl w),
      hv_get = \<lambda>_ _ values _. (Ok (), values), hv_set = \<lambda>_ _ _ w. (Ok (), w),
      hv_translate = \<lambda>_ gva _ _ _. Ok (0, gva)\<rparr>"

lemma scripted_run:
  "length exits < n \<Longrightarrow>
   map_option (map_option fst) (run_loop n fuel ho scripted s exits) = vm_run fuel ho exits s"
proof (induction exits arbitrary: n s)
  case Nil
  then show ?case by (cases n) (simp_all add: is_running_def scripted_def)
next
  case (Cons x exits)
  then obtain k where n: "n = Suc k" "length exits < k" by (cases n) auto
  have run: "is_running scripted (x # exits)"
    "run_vp scripted 0 h (x # exits) = (case x of None \<Rightarrow> Err 0 | Some y \<Rightarrow> Ok y, h, exits)" for h
    by (simp_all add: is_running_def run_vp_def scripted_def)
  have same: "s\<lparr>vs_heap := vs_heap s\<rparr> = s" by simp
  show ?case
  proof (cases x)
    case (Some ce)
    then show ?thesis
      using Cons.IH [OF n(2)] run
      by (cases ce) (auto simp: n(1) same split: option.splits result.splits bool.splits)
  qed (use run in \<open>simp add: n(1) same\<close>)
qed

section \<open>Properties\<close>

text \<open>
  The loop of the processor ends when it is told to: over any hypervisor on which the flag is
  cleared after finitely many exits, and emulations that end, it returns or a handler panics; and the state it
  returns is a reachable one, although the guest changes memory while it runs.
\<close>

theorem run_loop_stops:
  assumes "vm_reach s" "stops_within hv m" "\<And>ctx e s. handle_exit fuel ho ctx e s \<noteq> None" "m w < n"
  shows "\<exists>r. run_loop n fuel ho hv s w = Some r \<and> (case r of None \<Rightarrow> True | Some (s', w') \<Rightarrow> vm_reach s')"
  using run_loop_ends [OF assms(2-4), of s] run_loop_reach [OF assms(1), of n fuel ho hv w]
  by (auto split: option.split)

text \<open>The loop over a list of exits, which \<^verbatim>\<open>main\<close> is stated with, is the loop over that hypervisor.\<close>

theorem vm_run_is_run_loop:
  "vm_run fuel ho exits s =
     map_option (map_option fst) (run_loop (Suc (length exits)) fuel ho scripted s exits)"
  by (rule scripted_run [symmetric]) simp

text \<open>
  What is documented of \<^verbatim>\<open>WHvSetVirtualProcessorRegisters\<close> and \<^verbatim>\<open>WHvGetVirtualProcessorRegisters\<close>: a value that
  was set is read back.
\<close>

definition keeps_registers :: "'w hypervisor \<Rightarrow> bool" where
  "keeps_registers hv \<longleftrightarrow>
     (\<forall>names values w w' i b. hv_set hv 0 names values w = (Ok (), w') \<and> distinct names \<and>
        length values = length names \<and> i < length names \<longrightarrow>
        hv_get hv 0 [names ! i] [b] w' = (Ok (), [values ! i]))"

text \<open>
  The registers the emulator sets are those the program and the emulator read afterwards; the emulator
  is told of a failure.
\<close>

theorem emulator_registers:
  assumes "keeps_registers hv" "distinct names" "length values = length names" "i < length names"
    and "set_vp_registers_callback hv names values w = (w', hr)"
  shows "fst (hv_set hv 0 names values w) \<noteq> Ok () \<and> hr = hv_internal_error hv \<or>
    hr = 0 \<and> get_vp_registers_callback hv [names ! i] [b] w' = ([values ! i], 0) \<and>
    (names ! i = hv_rip_name hv \<longrightarrow> verify_rip hv 0 w' = Ok (ucast (values ! i)))"
proof (cases "hv_set hv 0 names values w")
  case (Pair r w1)
  show ?thesis
  proof (cases r)
    case (Ok u)
    then have "hv_set hv 0 names values w = (Ok (), w1)" using Pair by simp
    then have get: "hv_get hv 0 [names ! i] [b] w1 = (Ok (), [values ! i])" for b
      using assms(1-4) unfolding keeps_registers_def by blast
    show ?thesis
      using assms(5) Pair Ok get [of b] get [of 0]
      by (auto simp: set_vp_registers_callback_def get_vp_registers_callback_def verify_rip_def)
  next
    case (Err e)
    then show ?thesis using assms(5) Pair by (auto simp: set_vp_registers_callback_def)
  qed
qed

text \<open>
  An emulator that was created has a handle, so the test for a null handle never fails and an
  exit is emulated as the theory \<open>Vm\<close> has it; a call that leaves the handle null is an error.
\<close>

theorem emulator_created:
  "(emulator_new created = Ok em \<longrightarrow>
      try_io_emulation fuel ho em e m = run_emulator fuel ho (ho_emulator ho e) [] m \<and>
      try_mmio_emulation fuel ho em e m = run_emulator fuel ho (ho_emulator ho e) [] m) \<and>
   (snd created = 0 \<longrightarrow> (\<exists>r. emulator_new created = Err r))"
  by (cases created) (auto simp: emulator_new_def try_io_emulation_def try_mmio_emulation_def split: if_splits)

text \<open>What is documented of \<^verbatim>\<open>WHvTranslateGva\<close>: it walks the page tables that CR3 points to.\<close>

definition walks_tables :: "'w hypervisor \<Rightarrow> memory_manager \<Rightarrow> u64 \<Rightarrow> 'w \<Rightarrow> bool" where
  "walks_tables hv mm cr3 w \<longleftrightarrow>
     (\<forall>gva flags h. unat gva < 2 ^ 48 \<longrightarrow> hv_translate hv 0 gva flags h w =
        (case translate (guest_view mm h) cr3 gva of None \<Rightarrow> Ok (1, 0) | Some gpa \<Rightarrow> Ok (0, gpa)))"

text \<open>
  With the page tables the program starts the kernel with, the emulator is given the address
  itself for every address below 4 GiB, so also for every device window there, and a missing page above.
\<close>

theorem emulator_translation_at_boot:
  assumes "mm_wf (pt_memory pt)" "access_ok (pt_memory pt) 0 n r p" "0xc000 < n"
    and "perms_contain (rg_perms r) PERM_READ" "perms_contain (rg_perms r) PERM_WRITE"
    and "walks_tables hv (pt_memory pt) PML4_START w" "unat gva < 2 ^ 48"
  shows "\<exists>h'. partition_setup_linux_registers True pt h kernel_entry = Ok (h', boot_registers kernel_entry) \<and>
    translate_gva_page_callback hv gva flags h' w out = (if unat gva < 2 ^ 32 then (0, gva) else (1, 0), 0)"
proof -
  obtain h' where h': "partition_setup_linux_registers True pt h kernel_entry = Ok (h', boot_registers kernel_entry)"
    "\<forall>va. unat va < 2 ^ 48 \<longrightarrow>
       translate (guest_view (pt_memory pt) h') PML4_START va = (if unat va < 2 ^ 32 then Some va else None)"
    using boot_state_established [OF assms(1-5), of h kernel_entry] by blast
  have "hv_translate hv 0 gva flags h' w =
      (case translate (guest_view (pt_memory pt) h') PML4_START gva of None \<Rightarrow> Ok (1, 0) | Some gpa \<Rightarrow> Ok (0, gpa))"
    using assms(6,7) unfolding walks_tables_def by blast
  then show ?thesis
    using h' assms(7) by (intro exI [of _ h']) (simp add: translate_gva_page_callback_def)
qed

end
