(* ===== verification/Interrupt_Path.thy ===== *)
theory Interrupt_Path
  imports Mmio_Transport
begin

text \<open>
  The way of a device interrupt through the transport (\<^verbatim>\<open>src/devices/virtio/mmio.rs\<close>) and the I/O
  APIC (\<^verbatim>\<open>src/devices/legacy/ioapic.rs\<close>) to the processor and back: raising it, the acknowledgement
  by the driver and the end of interrupt.
\<close>

section \<open>One level-triggered pin\<close>

lemma entry_or_remote:
  "entry_interrupt whv (e OR IOAPIC_LVT_REMOTE_IRR) = entry_interrupt whv e"
  "e_vector (e OR IOAPIC_LVT_REMOTE_IRR) = e_vector e"
  "e_masked (e OR IOAPIC_LVT_REMOTE_IRR) = e_masked e" "e_remote (e OR IOAPIC_LVT_REMOTE_IRR)"
proof -
  have "(e OR IOAPIC_LVT_REMOTE_IRR) AND NOT IOAPIC_LVT_REMOTE_IRR = e AND NOT IOAPIC_LVT_REMOTE_IRR"
    by (rule bit_word_eqI) (auto simp: bit_simps)
  then have p: "parse_entry (e OR IOAPIC_LVT_REMOTE_IRR) = parse_entry e"
    using parse_entry_and_not_remote by metis
  then show "entry_interrupt whv (e OR IOAPIC_LVT_REMOTE_IRR) = entry_interrupt whv e"
    by (simp add: entry_interrupt_def)
  have "(e OR IOAPIC_LVT_REMOTE_IRR) AND IOAPIC_VECTOR_MASK = e AND IOAPIC_VECTOR_MASK"
    by (simp add: bit.conj_disj_distrib2 ioapic_masks ioapic_shifts IOAPIC_VECTOR_MASK_def)
  then show "e_vector (e OR IOAPIC_LVT_REMOTE_IRR) = e_vector e" by (simp only: e_vector_def)
  show "e_masked (e OR IOAPIC_LVT_REMOTE_IRR) = e_masked e" "e_remote (e OR IOAPIC_LVT_REMOTE_IRR)"
    by (simp_all add: e_masked_def e_remote_def bit_simps)
qed

lemma raise_level:
  assumes wf: "ioapic_wf st" "quiescent st" and n: "n = unat irq" "n < IOAPIC_NUM_PINS"
    and e: "\<not> e_masked (io_ioredtbl st ! n)" "e_level (io_ioredtbl st ! n)" "\<not> e_remote (io_ioredtbl st ! n)"
    and s: "ioapic_set_irq whv (Some irq) st = (st', out)"
  shows "out = [entry_interrupt whv (io_ioredtbl st ! n)]" "ioapic_wf st'" "quiescent st'" "bit (io_irr st') n"
    "\<forall>j < IOAPIC_NUM_PINS. io_ioredtbl st' ! j =
       (if j = n then io_ioredtbl st ! n OR IOAPIC_LVT_REMOTE_IRR else io_ioredtbl st ! j)"
proof -
  let ?s = "st\<lparr>io_irr := io_irr st OR push_bit n 1\<rparr>"
  have bits: "bit (io_irr ?s) j \<longleftrightarrow> bit (io_irr st) j \<or> j = n" for j
    using n by (auto simp: bit_simps IOAPIC_NUM_PINS_def)
  have wf': "ioapic_wf ?s" by (rule raise_wf [OF wf(1) n(2)])
  have one: "filter (deliverable ?s) [0..<IOAPIC_NUM_PINS] = [n]"
    by (rule filter_upt_single [OF n(2)]) (use wf(2) bits e in \<open>auto simp: quiescent_def deliverable_def\<close>)
  have "service whv ?s = (st', out)" using s n by (simp add: ioapic_set_irq_def)
  then have t: "serviced ?s st'" "out = pin_interrupts whv ?s [n]"
    using service_spec [OF wf', of whv] one by auto
  show "out = [entry_interrupt whv (io_ioredtbl st ! n)]" using t(2) by (simp add: pin_interrupts_def)
  show "ioapic_wf st'" "quiescent st'" by (rule servicedD [OF wf' t(1)])+
  show "bit (io_irr st') n" using t(1) e bits by (simp add: serviced_def)
  show "\<forall>j < IOAPIC_NUM_PINS. io_ioredtbl st' ! j =
      (if j = n then io_ioredtbl st ! n OR IOAPIC_LVT_REMOTE_IRR else io_ioredtbl st ! j)"
    using t(1) e bits wf(2) or_remote_id by (auto simp: serviced_def quiescent_def deliverable_def)
qed

lemma eoi_single:
  assumes wf: "ioapic_wf st" "quiescent st" and n: "n < IOAPIC_NUM_PINS"
    and hit: "\<And>j. j < IOAPIC_NUM_PINS \<Longrightarrow> eoi_hits st v j \<longleftrightarrow> j = n"
    and w: "ioapic_write whv IO_EOI (to_le 4 (ucast v :: u32)) st = (st', out)"
  shows "out = (if redelivers st n then [entry_interrupt whv (io_ioredtbl st ! n)] else [])"
    "e_remote (io_ioredtbl st' ! n) \<longleftrightarrow> redelivers st n"
proof -
  have "ioapic_write whv IO_EOI (to_le 4 (ucast v :: u32)) st = fold (eoi_pin whv v) [0..<IOAPIC_NUM_PINS] (st, [])"
    by (simp add: ioapic_write_def IO_EOI_def IO_WIN_def IO_REG_SEL_def Let_def from_le_to_le)
  then obtain tbl where *: "st' = st\<lparr>io_ioredtbl := tbl\<rparr>"
    "out = pin_interrupts whv st (filter (\<lambda>i. eoi_hits st v i \<and> redelivers st i) [0..<IOAPIC_NUM_PINS])"
    "\<forall>j < IOAPIC_NUM_PINS. tbl ! j = (if eoi_hits st v j \<and> \<not> redelivers st j
        then io_ioredtbl st ! j AND NOT IOAPIC_LVT_REMOTE_IRR else io_ioredtbl st ! j)"
    using eoi_loop [OF wf order_refl, of whv v] w by auto
  have "filter (\<lambda>i. eoi_hits st v i \<and> redelivers st i) [0..<IOAPIC_NUM_PINS] = (if redelivers st n then [n] else [])"
  proof (cases "redelivers st n")
    case True
    then show ?thesis using filter_upt_single [OF n, of "\<lambda>i. eoi_hits st v i \<and> redelivers st i"] hit by auto
  next
    case False
    then show ?thesis using hit by (auto simp: filter_empty_conv)
  qed
  then show "out = (if redelivers st n then [entry_interrupt whv (io_ioredtbl st ! n)] else [])"
    using *(2) by (simp add: pin_interrupts_def)
  have "e_remote (io_ioredtbl st ! n)" using hit [OF n] by (simp add: eoi_hits_def)
  then show "e_remote (io_ioredtbl st' ! n) \<longleftrightarrow> redelivers st n"
    using *(1,3) n hit [OF n] by (auto simp: e_remote_def bit_simps)
qed

section \<open>Acknowledgement\<close>

text \<open>The status word is 64 bits wide, the register that shows and clears it 32.\<close>

lemma ucast_status: "ucast (ucast (x :: u32) :: u64) = x" "ucast x OR 1 = (ucast (x OR 1) :: u64)"
proof -
  show "ucast (ucast x :: u64) = x" by (rule bit_word_eqI) (simp add: bit_unsigned_iff)
  have "(1 :: u64) = ucast (1 :: u32)" by simp
  then show "ucast x OR 1 = (ucast (x OR 1) :: u64)" by (simp only: unsigned_or_eq)
qed

lemma ack_clears:
  assumes "check_device_status t DRIVER_OK 0" "it_status (mt_interrupt t) = ucast (v :: u32)"
    and "it_irq_line (mt_interrupt t) = Some irq"
  shows "mmio_write env 0x64 (to_le 4 v) t chip =
    Some (t\<lparr>mt_interrupt := (mt_interrupt t)\<lparr>it_status := 0\<rparr>\<rparr>, irqchip_clear_irq (Some irq) chip, [])"
proof -
  have "interrupt_ack v t chip =
      (t\<lparr>mt_interrupt := (mt_interrupt t)\<lparr>it_status := 0\<rparr>\<rparr>, irqchip_clear_irq (Some irq) chip)"
    using assms by (simp add: interrupt_ack_def try_clear_irq_def)
  then show ?thesis
    by (simp add: mmio_write_def select_register_def queue_register_def action_register_def read_le_u32_def array_of_def put_bytes_def from_le_to_le)
qed

section \<open>Properties\<close>

text \<open>
  C3.  The life of a level-triggered device interrupt.  When a worker signals used buffers and the entry
  of the device's line is unmasked and idle, exactly its interrupt is injected, and the driver
  finds the reason in the interrupt status register.  An end of interrupt before the driver has
  acknowledged injects the interrupt again; after the driver has written the status back to the
  acknowledge register the status is empty, and an end of interrupt injects nothing and leaves
  the pin idle, ready for the next signal.
\<close>

theorem interrupt_lifecycle:
  assumes reach: "ioapic_reach (env_whv env) st"
    and line: "it_irq_line (mt_interrupt t) = Some irq" "unat irq < 24"
    and drv: "check_device_status t DRIVER_OK 0" "it_status (mt_interrupt t) = ucast (isr :: u32)"
    and e: "e = io_ioredtbl st ! unat irq" "\<not> e_masked e" "e_level e" "\<not> e_remote e"
    and alone: "\<forall>j < 24. e_vector (io_ioredtbl st ! j) = e_vector e \<longrightarrow> \<not> e_remote (io_ioredtbl st ! j)"
  defines "eoi \<equiv> to_le 4 (ucast (e_vector e) :: u32)"
    and "ic \<equiv> inject_interrupt (env_whv env) (parse_entry e)"
  shows "\<exists>it st1 st2 t' chip' st3.
    try_signal_used_queue env (mt_interrupt t) (ChipIoApic st) = (it, ChipIoApic st1, [ic], Ok ()) \<and> bit (it_status it) 0 \<and>
    irqchip_write (env_whv env) IO_EOI eoi (ChipIoApic st1) = (ChipIoApic st2, [ic]) \<and>
    mmio_write env 0x64 (to_le 4 (ucast (it_status it) :: u32)) (t\<lparr>mt_interrupt := it\<rparr>) (ChipIoApic st1) = Some (t', chip', []) \<and>
    it_status (mt_interrupt t') = 0 \<and>
    irqchip_write (env_whv env) IO_EOI eoi chip' = (ChipIoApic st3, []) \<and> \<not> e_remote (io_ioredtbl st3 ! unat irq)"
proof -
  let ?whv = "env_whv env" and ?n = "unat irq"
  have wf: "ioapic_wf st" "quiescent st" using ioapic_reach_wf [OF reach] by auto
  have n: "?n < IOAPIC_NUM_PINS" using line(2) by (simp add: IOAPIC_NUM_PINS_def)
  obtain st1 out where s1: "ioapic_set_irq ?whv (Some irq) st = (st1, out)" by fastforce
  note r = raise_level [OF wf refl n e(2-4) [unfolded e(1)] s1]
  have hit: "eoi_hits u (e_vector e) j \<longleftrightarrow> j = ?n"
    if "j < IOAPIC_NUM_PINS" "io_ioredtbl u = io_ioredtbl st1" for j u
    using r(5) that alone e(1) n entry_or_remote(2,4)
    by (auto simp: eoi_hits_def IOAPIC_NUM_PINS_def)
  have ic: "entry_interrupt ?whv (io_ioredtbl st ! ?n) = ic" "entry_interrupt ?whv (io_ioredtbl st1 ! ?n) = ic"
    using r(5) n e(1) by (simp_all add: ic_def entry_or_remote(1)) (simp_all add: entry_interrupt_def)
  define it where "it = (mt_interrupt t)\<lparr>it_status := it_status (mt_interrupt t) OR 1\<rparr>"
  have sig: "try_signal_used_queue env (mt_interrupt t) (ChipIoApic st) = (it, ChipIoApic st1, [ic], Ok ())"
    using s1 r(1) ic(1) line(1) by (simp add: try_signal_used_queue_def try_signal_def it_def VIRTIO_MMIO_INT_VRING_def)
  have b: "bit (it_status it) 0" by (simp add: it_def bit_simps)
  obtain st2 out2 where s2: "ioapic_write ?whv IO_EOI eoi st1 = (st2, out2)" by fastforce
  have "redelivers st1 ?n" using r(4,5) n e entry_or_remote(3) by (simp add: redelivers_def)
  then have eoi1: "out2 = [ic]"
    using eoi_single(1) [OF r(2,3) n hit [OF _ refl] s2 [unfolded eoi_def]] ic(2) by simp
  have isr: "it_status it = ucast (isr OR 1)" using drv(2) ucast_status(2) by (simp add: it_def)
  have ack: "mmio_write env 0x64 (to_le 4 (ucast (it_status it) :: u32)) (t\<lparr>mt_interrupt := it\<rparr>) (ChipIoApic st1) =
      Some (t\<lparr>mt_interrupt := it\<lparr>it_status := 0\<rparr>\<rparr>, irqchip_clear_irq (Some irq) (ChipIoApic st1), [])"
    using ack_clears [of "t\<lparr>mt_interrupt := it\<rparr>" "isr OR 1" irq env "ChipIoApic st1"] drv(1) line(1) isr
    by (simp add: it_def check_device_status_def ucast_status)
  let ?c = "ioapic_clear_irq (Some irq) st1"
  have c: "ioapic_wf ?c" "quiescent ?c" "io_ioredtbl ?c = io_ioredtbl st1" "\<not> redelivers ?c ?n"
    using ioapic_clear_irq_wf [OF r(2,3), of "Some irq"] n
    by (simp_all add: ioapic_clear_irq_def redelivers_def bit_simps)
  obtain st3 out3 where s3: "ioapic_write ?whv IO_EOI eoi ?c = (st3, out3)" by fastforce
  have "out3 = []" "\<not> e_remote (io_ioredtbl st3 ! ?n)"
    using eoi_single [OF c(1,2) n hit [OF _ c(3)] s3 [unfolded eoi_def]] c(4) by simp_all
  then show ?thesis using sig b s2 eoi1 ack s3 by auto
qed

definition demo_driver :: mmio_transport where
  "demo_driver = demo_transport\<lparr>mt_device_status := ACKNOWLEDGE OR DRIVER OR FEATURES_OK OR DRIVER_OK,
     mt_interrupt := \<lparr>it_status = 0, it_irq_line = Some 3\<rparr>\<rparr>"

theorem interrupt_lifecycle_witness:
  "\<exists>it st1 ic. try_signal_used_queue demo_env (mt_interrupt demo_driver) (ChipIoApic demo_ioapic) =
      (it, ChipIoApic st1, [ic], Ok ()) \<and>
    (\<exists>st2. irqchip_write demo_whv IO_EOI (to_le 4 (0x31 :: u32)) (ChipIoApic st1) = (ChipIoApic st2, [ic]))"
proof -
  have v: "e_vector 0x8031 = 0x31" by (simp add: e_vector_def IOAPIC_VECTOR_MASK_def)
  have a: "\<forall>j < 24. e_vector (io_ioredtbl demo_ioapic ! j) = e_vector 0x8031 \<longrightarrow> \<not> e_remote (io_ioredtbl demo_ioapic ! j)"
  proof (intro allI impI)
    fix j :: nat
    assume "j < 24"
    then have "io_ioredtbl demo_ioapic ! j \<in> {0x10000, 0x8031}" by (simp add: demo_ioapic_def nth_list_update)
    then show "\<not> e_remote (io_ioredtbl demo_ioapic ! j)" by (auto simp: e_remote_def)
  qed
  have r: "ioapic_reach (env_whv demo_env) demo_ioapic" using demo_ioapic_reachable by (simp add: demo_env_def)
  have d: "it_irq_line (mt_interrupt demo_driver) = Some 3" "check_device_status demo_driver DRIVER_OK 0"
    "it_status (mt_interrupt demo_driver) = ucast (0 :: u32)"
    by (simp_all add: demo_driver_def check_device_status_def ACKNOWLEDGE_def DRIVER_def FEATURES_OK_def DRIVER_OK_def)
  note l = interrupt_lifecycle [OF r d(1) _ d(2,3), of "0x8031", simplified, OF a]
  show ?thesis using l by (auto simp: v demo_env_def)
qed

end
