(* ===== verification/Dirty_Bitmap.thy ===== *)
theory Dirty_Bitmap
  imports Prelude
begin

text \<open>
  Tracking of dirty pages (\<^verbatim>\<open>vm-memory/src/bitmap/\<close>): the trait \<^verbatim>\<open>Bitmap\<close> with its implementations for
  \<^verbatim>\<open>()\<close>, \<^verbatim>\<open>Option<B>\<close>, \<^verbatim>\<open>AtomicBitmap\<close> and \<^verbatim>\<open>BaseSlice<B>\<close>.

  The words of an \<^verbatim>\<open>AtomicBitmap\<close> are atomics changed through a shared reference; an operation
  returns the new bitmap.  Every index into the words is checked, as in Rust: an index out of range is a
  panic, and the invariant excludes it.  The locale \<open>tracking_bitmap\<close> is the trait.
\<close>

section \<open>Arithmetic\<close>

definition div_ceil :: "'a::len word \<Rightarrow> 'a word \<Rightarrow> 'a word" where
  "div_ceil a b = (if a mod b = 0 then a div b else a div b + 1)"

definition saturating_add :: "'a::len word \<Rightarrow> 'a word \<Rightarrow> 'a word" where
  "saturating_add a b = (case checked_add a b of None \<Rightarrow> - 1 | Some c \<Rightarrow> c)"

section \<open>The atomic bitmap\<close>

record atomic_bitmap =
  ab_map :: "u64 list"
  ab_size :: usize
  ab_byte_size :: usize
  ab_page_size :: usize

definition bitmap_new :: "usize \<Rightarrow> usize \<Rightarrow> atomic_bitmap" where
  "bitmap_new byte_size page_size =
     (let num_pages = div_ceil byte_size page_size;
          map_size = div_ceil num_pages 64
      in \<lparr>ab_map = replicate (unat map_size) 0, ab_size = num_pages, ab_byte_size = byte_size,
          ab_page_size = page_size\<rparr>)"

text \<open>\<^verbatim>\<open>Vec::resize_with\<close>, and the addition wraps as everywhere.\<close>

definition bitmap_enlarge :: "usize \<Rightarrow> atomic_bitmap \<Rightarrow> atomic_bitmap" where
  "bitmap_enlarge additional_size b =
     (let byte_size = ab_byte_size b + additional_size;
          sz = div_ceil byte_size (ab_page_size b);
          map_size = unat (div_ceil sz 64)
      in b\<lparr>ab_byte_size := byte_size, ab_size := sz,
           ab_map := take map_size (ab_map b) @ replicate (map_size - length (ab_map b)) 0\<rparr>)"

text \<open>One word: \<^verbatim>\<open>fetch_or\<close> and \<^verbatim>\<open>fetch_and\<close> on \<^verbatim>\<open>self.map[n >> 6]\<close>.\<close>

definition update_word :: "bool \<Rightarrow> usize \<Rightarrow> atomic_bitmap \<Rightarrow> atomic_bitmap panics" where
  "update_word on n b =
     (let i = unat (drop_bit 6 n); m = push_bit (unat (n AND 63)) 1
      in if i < length (ab_map b)
         then Some (b\<lparr>ab_map := (ab_map b)[i := if on then ab_map b ! i OR m else ab_map b ! i AND NOT m]\<rparr>)
         else None)"

definition is_bit_set :: "usize \<Rightarrow> atomic_bitmap \<Rightarrow> bool panics" where
  "is_bit_set index b =
     (if index < ab_size b then
        let i = unat (drop_bit 6 index)
        in if i < length (ab_map b) then Some ((ab_map b ! i) AND push_bit (unat (index AND 63)) 1 \<noteq> 0) else None
      else Some False)"

definition is_addr_set :: "usize \<Rightarrow> atomic_bitmap \<Rightarrow> bool panics" where
  "is_addr_set addr b = is_bit_set (addr div ab_page_size b) b"

text \<open>The loop over the pages of a range; it stops at the end of the bitmap.\<close>

primrec set_reset_bits :: "bool \<Rightarrow> nat list \<Rightarrow> atomic_bitmap \<Rightarrow> atomic_bitmap panics" where
  "set_reset_bits on [] b = Some b"
| "set_reset_bits on (n # ns) b =
     (if unat (ab_size b) \<le> n then Some b
      else case update_word on (of_nat n) b of
             None \<Rightarrow> None
           | Some b' \<Rightarrow> set_reset_bits on ns b')"

definition set_reset_addr_range :: "usize \<Rightarrow> usize \<Rightarrow> bool \<Rightarrow> atomic_bitmap \<Rightarrow> atomic_bitmap panics" where
  "set_reset_addr_range start_addr len on b =
     (if len = 0 then Some b
      else
        let first_bit = start_addr div ab_page_size b;
            last_bit = saturating_add start_addr (len - 1) div ab_page_size b
        in set_reset_bits on [unat first_bit..<Suc (unat last_bit)] b)"

definition set_addr_range :: "usize \<Rightarrow> usize \<Rightarrow> atomic_bitmap \<Rightarrow> atomic_bitmap panics" where
  "set_addr_range start_addr len b = set_reset_addr_range start_addr len True b"

definition reset_addr_range :: "usize \<Rightarrow> usize \<Rightarrow> atomic_bitmap \<Rightarrow> atomic_bitmap panics" where
  "reset_addr_range start_addr len b = set_reset_addr_range start_addr len False b"

definition bitmap_set_bit :: "usize \<Rightarrow> atomic_bitmap \<Rightarrow> atomic_bitmap panics" where
  "bitmap_set_bit index b = (if ab_size b \<le> index then Some b else update_word True index b)"

definition bitmap_reset_bit :: "usize \<Rightarrow> atomic_bitmap \<Rightarrow> atomic_bitmap panics" where
  "bitmap_reset_bit index b = (if ab_size b \<le> index then Some b else update_word False index b)"

definition get_and_reset :: "atomic_bitmap \<Rightarrow> atomic_bitmap \<times> u64 list" where
  "get_and_reset b = (b\<lparr>ab_map := map (\<lambda>u. u AND 0) (ab_map b)\<rparr>, ab_map b)"

definition bitmap_reset :: "atomic_bitmap \<Rightarrow> atomic_bitmap" where
  "bitmap_reset b = b\<lparr>ab_map := map (\<lambda>_. 0) (ab_map b)\<rparr>"

text \<open>The implementation of the trait; \<^verbatim>\<open>with_len\<close> asks Windows for the page size.\<close>

definition atomic_mark_dirty :: "usize \<Rightarrow> usize \<Rightarrow> atomic_bitmap \<Rightarrow> atomic_bitmap panics" where
  "atomic_mark_dirty offset len b = set_addr_range offset len b"

definition atomic_dirty_at :: "usize \<Rightarrow> atomic_bitmap \<Rightarrow> bool panics" where
  "atomic_dirty_at offset b = is_addr_set offset b"

definition bitmap_default :: atomic_bitmap where
  "bitmap_default = bitmap_new 0 0x1000"

definition bitmap_with_len :: "u32 \<Rightarrow> usize \<Rightarrow> atomic_bitmap panics" where
  "bitmap_with_len page_size len = (if page_size = 0 then None else Some (bitmap_new len (ucast page_size)))"

section \<open>Slices of a bitmap\<close>

record 'b base_slice =
  bs_inner :: 'b
  bs_base_offset :: usize

definition base_slice_new :: "'b \<Rightarrow> usize \<Rightarrow> 'b base_slice" where
  "base_slice_new inner offset = \<lparr>bs_inner = inner, bs_base_offset = offset\<rparr>"

definition base_mark_dirty ::
  "(usize \<Rightarrow> usize \<Rightarrow> 'b \<Rightarrow> 'b panics) \<Rightarrow> usize \<Rightarrow> usize \<Rightarrow> 'b base_slice \<Rightarrow> 'b base_slice panics" where
  "base_mark_dirty inner_mark offset len s =
     map_option (\<lambda>b. s\<lparr>bs_inner := b\<rparr>) (inner_mark (bs_base_offset s + offset) len (bs_inner s))"

definition base_dirty_at :: "(usize \<Rightarrow> 'b \<Rightarrow> bool panics) \<Rightarrow> usize \<Rightarrow> 'b base_slice \<Rightarrow> bool panics" where
  "base_dirty_at inner_dirty offset s = inner_dirty (bs_base_offset s + offset) (bs_inner s)"

definition base_slice_at :: "usize \<Rightarrow> 'b base_slice \<Rightarrow> 'b base_slice" where
  "base_slice_at offset s = s\<lparr>bs_base_offset := bs_base_offset s + offset\<rparr>"

definition atomic_slice_at :: "usize \<Rightarrow> atomic_bitmap \<Rightarrow> atomic_bitmap base_slice" where
  "atomic_slice_at offset b = base_slice_new b offset"

section \<open>No bitmap, and an optional one\<close>

definition unit_mark_dirty :: "usize \<Rightarrow> usize \<Rightarrow> unit \<Rightarrow> unit panics" where
  "unit_mark_dirty offset len b = Some ()"

definition unit_dirty_at :: "usize \<Rightarrow> unit \<Rightarrow> bool panics" where
  "unit_dirty_at offset b = Some False"

definition unit_slice_at :: "usize \<Rightarrow> unit \<Rightarrow> unit" where
  "unit_slice_at offset b = ()"

definition option_mark_dirty ::
  "(usize \<Rightarrow> usize \<Rightarrow> 'b \<Rightarrow> 'b panics) \<Rightarrow> usize \<Rightarrow> usize \<Rightarrow> 'b option \<Rightarrow> 'b option panics" where
  "option_mark_dirty mark offset len b =
     (case b of Some inner \<Rightarrow> map_option Some (mark offset len inner) | None \<Rightarrow> Some None)"

definition option_dirty_at :: "(usize \<Rightarrow> 'b \<Rightarrow> bool panics) \<Rightarrow> usize \<Rightarrow> 'b option \<Rightarrow> bool panics" where
  "option_dirty_at dirty offset b = (case b of Some inner \<Rightarrow> dirty offset inner | None \<Rightarrow> Some False)"

definition option_slice_at :: "(usize \<Rightarrow> 'b \<Rightarrow> 's) \<Rightarrow> usize \<Rightarrow> 'b option \<Rightarrow> 's option" where
  "option_slice_at inner_slice offset b = (case b of Some inner \<Rightarrow> Some (inner_slice offset inner) | None \<Rightarrow> None)"

section \<open>The invariant and the set of dirty pages\<close>

text \<open>
  There is a word for every 64 pages and a page for every \<open>page_size\<close> bytes, and no bit is set beyond
  the last page, so that enlarging a bitmap adds clean pages.
\<close>

definition bit_at :: "u64 list \<Rightarrow> nat \<Rightarrow> bool" where
  "bit_at m n \<longleftrightarrow> n div 64 < length m \<and> bit (m ! (n div 64)) (n mod 64)"

definition bitmap_wf :: "atomic_bitmap \<Rightarrow> bool" where
  "bitmap_wf b \<longleftrightarrow>
     ab_page_size b \<noteq> 0 \<and> ab_size b = div_ceil (ab_byte_size b) (ab_page_size b) \<and>
     length (ab_map b) = unat (div_ceil (ab_size b) 64) \<and>
     (\<forall>n. bit_at (ab_map b) n \<longrightarrow> n < unat (ab_size b))"

definition dirty_pages :: "atomic_bitmap \<Rightarrow> nat set" where
  "dirty_pages b = {n. bit_at (ab_map b) n}"

lemma unat_div_ceil:
  fixes a b :: "'a::len word"
  assumes "b \<noteq> 0"
  shows "unat (div_ceil a b) = (unat a + unat b - 1) div unat b"
proof -
  let ?a = "unat a" and ?b = "unat b"
  have b: "0 < ?b" using assms by (simp add: word_neq_0_conv [symmetric] unat_gt_0)
  have dm: "unat (a mod b) = ?a mod ?b" "unat (a div b) = ?a div ?b" by (simp_all add: unat_mod unat_div)
  define r where "r = ?a mod ?b + ?b - 1"
  have "?a + ?b - 1 = ?a div ?b * ?b + r" using b by (simp add: r_def)
  then have e: "(?a + ?b - 1) div ?b = ?a div ?b + r div ?b" using b by simp
  show ?thesis
  proof (cases "?a mod ?b = 0")
    case True
    then have z: "a mod b = 0" using dm(1) by (simp add: unat_eq_0)
    have "r div ?b = 0" using b True by (simp add: r_def)
    then show ?thesis using z dm(2) e by (simp add: div_ceil_def)
  next
    case False
    then have nz: "a mod b \<noteq> 0" using dm(1) by (metis unat_0)
    have lt: "?a mod ?b < ?b" using b by simp
    have "?b \<le> r" "r < 2 * ?b" using False lt unfolding r_def by linarith+
    then have "r div ?b = 1" by (intro div_nat_eqI) simp_all
    then have c: "(?a + ?b - 1) div ?b = ?a div ?b + 1" using e by simp
    have "?b \<noteq> 1" using False by auto
    moreover have "0 < ?a" using False by (cases "?a = 0") simp_all
    ultimately have "?a div ?b < ?a" using b by (intro div_less_dividend) simp_all
    then have "?a div ?b + 1 \<le> ?a" by simp
    also have "?a < 2 ^ LENGTH('a)" by (rule unsigned_less)
    finally have "?a div ?b + 1 < 2 ^ LENGTH('a)" .
    then have "unat (a div b + 1) = ?a div ?b + 1" using dm(2) by (simp add: unat_word_ariths)
    then show ?thesis using nz c by (simp add: div_ceil_def)
  qed
qed


lemma word_index:
  fixes n :: u64
  shows "unat (drop_bit 6 n) = unat n div 64" "unat (n AND 63) = unat n mod 64"
proof -
  show "unat (drop_bit 6 n) = unat n div 64"
    using unat_bounds(4) [of n] by (subst unsigned_drop_bit_eq) (simp add: drop_bit_eq_div take_bit_nat_eq_self)
  have "n AND 63 = take_bit 6 n" by (simp add: take_bit_eq_mask mask_eq_exp_minus_1)
  then show "unat (n AND 63) = unat n mod 64" by (simp add: take_bit_eq_mod unat_mod)
qed

lemma bitmap_wf_words:
  assumes "bitmap_wf b" "n < unat (ab_size b)"
  shows "n div 64 < length (ab_map b)"
proof -
  have "length (ab_map b) = (unat (ab_size b) + 63) div 64"
    using assms(1) unat_div_ceil [of "64 :: u64" "ab_size b"] by (simp add: bitmap_wf_def)
  then show ?thesis using assms(2) by simp
qed

lemma bit_at_update:
  assumes "n div 64 < length m"
  shows "bit_at (m[n div 64 := if on then m ! (n div 64) OR push_bit (n mod 64) 1
      else m ! (n div 64) AND NOT (push_bit (n mod 64) 1)]) k \<longleftrightarrow> (if k = n then on else bit_at m k)"
proof (cases "k div 64 = n div 64")
  case True
  then have "k = n \<longleftrightarrow> k mod 64 = n mod 64" by (metis div_mult_mod_eq)
  then show ?thesis using True assms by (auto simp: bit_at_def bit_simps)
next
  case False
  then show ?thesis by (auto simp: bit_at_def)
qed

lemma update_word_spec:
  assumes "bitmap_wf b" "n < unat (ab_size b)"
  obtains m where "update_word on (of_nat n) b = Some (b\<lparr>ab_map := m\<rparr>)" "bitmap_wf (b\<lparr>ab_map := m\<rparr>)"
    "\<And>k. bit_at m k \<longleftrightarrow> (if k = n then on else bit_at (ab_map b) k)"
proof -
  let ?m = "(ab_map b)[n div 64 := if on then ab_map b ! (n div 64) OR push_bit (n mod 64) 1
      else ab_map b ! (n div 64) AND NOT (push_bit (n mod 64) 1)]"
  have "n < 2 ^ 64" using assms(2) unat_bounds(4) [of "ab_size b"] by simp
  then have u: "unat (of_nat n :: u64) = n" by (intro unat_of_nat_small) simp
  note w = bitmap_wf_words [OF assms]
  note k = bit_at_update [OF w, of on]
  show thesis
  proof (rule that)
    show "update_word on (of_nat n) b = Some (b\<lparr>ab_map := ?m\<rparr>)"
      using w by (simp add: update_word_def Let_def word_index u)
    show "bitmap_wf (b\<lparr>ab_map := ?m\<rparr>)" using assms k by (auto simp: bitmap_wf_def)
    show "\<And>k. bit_at ?m k \<longleftrightarrow> (if k = n then on else bit_at (ab_map b) k)" by (rule k)
  qed
qed

definition marked :: "bool \<Rightarrow> nat set \<Rightarrow> nat set \<Rightarrow> nat set" where
  "marked on pages d = (if on then d \<union> pages else d - pages)"

lemma set_reset_bits_spec:
  assumes "bitmap_wf b"
  shows "\<exists>m. set_reset_bits on [i..<j] b = Some (b\<lparr>ab_map := m\<rparr>) \<and> bitmap_wf (b\<lparr>ab_map := m\<rparr>) \<and>
    dirty_pages (b\<lparr>ab_map := m\<rparr>) = marked on {n. i \<le> n \<and> n < j \<and> n < unat (ab_size b)} (dirty_pages b)"
  using assms
proof (induction "j - i" arbitrary: i b)
  case 0
  then show ?case by (intro exI [of _ "ab_map b"]) (auto simp: marked_def)
next
  case (Suc d)
  then have ij: "[i..<j] = i # [Suc i..<j]" by (simp add: upt_conv_Cons)
  show ?case
  proof (cases "unat (ab_size b) \<le> i")
    case True
    then show ?thesis using Suc.prems by (intro exI [of _ "ab_map b"]) (auto simp: ij marked_def)
  next
    case False
    then have i: "i < unat (ab_size b)" by simp
    from update_word_spec [OF Suc.prems i, of on] obtain m1 where
      m1: "update_word on (of_nat i) b = Some (b\<lparr>ab_map := m1\<rparr>)" "bitmap_wf (b\<lparr>ab_map := m1\<rparr>)"
        "\<And>k. bit_at m1 k \<longleftrightarrow> (if k = i then on else bit_at (ab_map b) k)" by blast
    have "d = j - Suc i" using Suc.hyps(2) by simp
    from Suc.hyps(1) [OF this m1(2)] obtain m where
      m: "set_reset_bits on [Suc i..<j] (b\<lparr>ab_map := m1\<rparr>) = Some (b\<lparr>ab_map := m\<rparr>)" "bitmap_wf (b\<lparr>ab_map := m\<rparr>)"
        "dirty_pages (b\<lparr>ab_map := m\<rparr>) = marked on {n. Suc i \<le> n \<and> n < j \<and> n < unat (ab_size b)} (dirty_pages (b\<lparr>ab_map := m1\<rparr>))"
      by auto
    have "set_reset_bits on [i..<j] b = Some (b\<lparr>ab_map := m\<rparr>)" using False m1(1) m(1) by (simp add: ij)
    moreover have "dirty_pages (b\<lparr>ab_map := m\<rparr>) = marked on {n. i \<le> n \<and> n < j \<and> n < unat (ab_size b)} (dirty_pages b)"
      using i Suc.hyps(2) m1(3) unfolding m(3)
      by (auto simp: marked_def dirty_pages_def le_less Suc_le_eq)
    ultimately show ?thesis using m(2) by blast
  qed
qed

text \<open>The pages that the bytes of a range lie on; a range that would wrap around is cut at the end.\<close>

definition pages_of :: "usize \<Rightarrow> usize \<Rightarrow> usize \<Rightarrow> nat set" where
  "pages_of page_size start len =
     {n. \<exists>i < unat len. unat start + i < 2 ^ 64 \<and> n = (unat start + i) div unat page_size}"

lemma unat_saturating_add:
  fixes a b :: "'a::len word"
  shows "unat (saturating_add a b) = min (unat a + unat b) (2 ^ LENGTH('a) - 1)"
  by (auto simp: saturating_add_def checked_add_def unat_add_no_wrap unsigned_minus_1_eq_mask mask_eq_exp_minus_1)

lemma pages_of_range:
  assumes "page_size \<noteq> 0" "len \<noteq> 0"
  shows "pages_of page_size start len =
    {n. unat (start div page_size) \<le> n \<and> n \<le> unat (saturating_add start (len - 1) div page_size)}"
proof -
  let ?s = "unat start" and ?l = "unat len" and ?p = "unat page_size"
  have p: "0 < ?p" and l: "0 < ?l" using assms by (simp_all add: unat_gt_0)
  have "1 \<le> len" using l by (simp add: word_le_nat_alt)
  then have l1: "unat (len - 1) = ?l - 1" by (simp add: unat_sub)
  define e where "e = min (?s + (?l - 1)) (2 ^ 64 - 1)"
  have e: "unat (saturating_add start (len - 1)) = e" by (simp add: unat_saturating_add l1 e_def)
  have s: "?s \<le> e" using unat_bounds(4) [of start] by (simp add: e_def)
  have ex: "(\<exists>i < ?l. ?s + i < 2 ^ 64 \<and> n = (?s + i) div ?p) \<longleftrightarrow> (\<exists>a. ?s \<le> a \<and> a \<le> e \<and> n = a div ?p)" for n
  proof
    assume "\<exists>i < ?l. ?s + i < 2 ^ 64 \<and> n = (?s + i) div ?p"
    then obtain i where "i < ?l" "?s + i < 2 ^ 64" "n = (?s + i) div ?p" by blast
    then show "\<exists>a. ?s \<le> a \<and> a \<le> e \<and> n = a div ?p" by (intro exI [of _ "?s + i"]) (simp add: e_def)
  next
    assume "\<exists>a. ?s \<le> a \<and> a \<le> e \<and> n = a div ?p"
    then obtain a where "?s \<le> a" "a \<le> e" "n = a div ?p" by blast
    then show "\<exists>i < ?l. ?s + i < 2 ^ 64 \<and> n = (?s + i) div ?p"
      using l by (intro exI [of _ "a - ?s"]) (auto simp: e_def)
  qed
  have "(\<exists>a. ?s \<le> a \<and> a \<le> e \<and> n = a div ?p) \<longleftrightarrow> ?s div ?p \<le> n \<and> n \<le> e div ?p" for n
  proof
    assume n: "?s div ?p \<le> n \<and> n \<le> e div ?p"
    show "\<exists>a. ?s \<le> a \<and> a \<le> e \<and> n = a div ?p"
    proof (cases "?s div ?p = n")
      case True
      then show ?thesis using s by auto
    next
      case False
      then have "?s div ?p < n" using n by simp
      then have "?s < n * ?p" using p by (simp add: div_less_iff_less_mult)
      moreover have "n * ?p \<le> e" using n p by (simp add: less_eq_div_iff_mult_less_eq)
      ultimately show ?thesis using p by (intro exI [of _ "n * ?p"]) simp
    qed
  qed (auto intro: div_le_mono)
  then show ?thesis unfolding pages_of_def ex by (simp add: e unat_div)
qed

lemma set_reset_addr_range_spec:
  assumes "bitmap_wf b"
  obtains m where "set_reset_addr_range start len on b = Some (b\<lparr>ab_map := m\<rparr>)" "bitmap_wf (b\<lparr>ab_map := m\<rparr>)"
    "dirty_pages (b\<lparr>ab_map := m\<rparr>) =
       marked on {n \<in> pages_of (ab_page_size b) start len. n < unat (ab_size b)} (dirty_pages b)"
proof (cases "len = 0")
  case True
  then have "pages_of (ab_page_size b) start len = {}" by (simp add: pages_of_def)
  then show thesis using that [of "ab_map b"] True assms by (simp add: set_reset_addr_range_def marked_def)
next
  case False
  have p: "ab_page_size b \<noteq> 0" using assms by (simp add: bitmap_wf_def)
  let ?i = "unat (start div ab_page_size b)" and ?j = "Suc (unat (saturating_add start (len - 1) div ab_page_size b))"
  have "{n \<in> pages_of (ab_page_size b) start len. n < unat (ab_size b)} = {n. ?i \<le> n \<and> n < ?j \<and> n < unat (ab_size b)}"
    unfolding pages_of_range [OF p False] by auto
  then show thesis
    using set_reset_bits_spec [OF assms, of on ?i ?j] False that
    by (auto simp: set_reset_addr_range_def Let_def simp del: upt_Suc)
qed

lemma is_bit_set_spec:
  assumes "bitmap_wf b"
  shows "is_bit_set n b = Some (unat n \<in> dirty_pages b)"
proof (cases "n < ab_size b")
  case True
  then have "unat n < unat (ab_size b)" by (simp add: word_less_nat_alt)
  note w = bitmap_wf_words [OF assms this]
  then show ?thesis
    using True by (simp add: is_bit_set_def Let_def word_index dirty_pages_def bit_at_def bit_iff_and_push_bit_not_eq_0)
next
  case False
  then show ?thesis using assms by (auto simp: is_bit_set_def bitmap_wf_def dirty_pages_def word_less_nat_alt)
qed

lemma is_addr_set_spec:
  "bitmap_wf b \<Longrightarrow> is_addr_set a b = Some (unat a div unat (ab_page_size b) \<in> dirty_pages b)"
  by (simp add: is_addr_set_def is_bit_set_spec unat_div)

lemma bitmap_new_wf:
  assumes "page_size \<noteq> 0"
  shows "bitmap_wf (bitmap_new byte_size page_size)" "dirty_pages (bitmap_new byte_size page_size) = {}"
  using assms by (auto simp: bitmap_wf_def bitmap_new_def Let_def dirty_pages_def bit_at_def)

lemma bitmap_cleared:
  assumes "bitmap_wf b"
  shows "bitmap_wf (fst (get_and_reset b))" "dirty_pages (fst (get_and_reset b)) = {}"
    "bitmap_wf (bitmap_reset b)" "dirty_pages (bitmap_reset b) = {}"
  using assms by (auto simp: bitmap_wf_def get_and_reset_def bitmap_reset_def dirty_pages_def bit_at_def)

lemma bitmap_enlarge_wf:
  assumes wf: "bitmap_wf b" and "unat (ab_byte_size b) + unat k < 2 ^ 64"
  shows "bitmap_wf (bitmap_enlarge k b)" "dirty_pages (bitmap_enlarge k b) = dirty_pages b"
    "unat (ab_size b) \<le> unat (ab_size (bitmap_enlarge k b))"
proof -
  let ?p = "ab_page_size b" and ?sz = "div_ceil (ab_byte_size b + k) (ab_page_size b)"
  let ?n = "unat (div_ceil ?sz 64)"
  have p: "?p \<noteq> 0" and sz: "ab_size b = div_ceil (ab_byte_size b) ?p" and len: "length (ab_map b) = unat (div_ceil (ab_size b) 64)"
    using wf by (simp_all add: bitmap_wf_def)
  have u: "unat (ab_byte_size b + k) = unat (ab_byte_size b) + unat k" using assms(2) by (simp add: unat_word_ariths)
  have s: "unat (ab_size b) \<le> unat ?sz" unfolding sz unat_div_ceil [OF p] u by (intro div_le_mono) simp
  then have n: "length (ab_map b) \<le> ?n" unfolding len using unat_div_ceil [of "64 :: u64"] by (simp add: div_le_mono)
  have m: "ab_map (bitmap_enlarge k b) = ab_map b @ replicate (?n - length (ab_map b)) 0"
    using n by (simp add: bitmap_enlarge_def Let_def)
  have d: "bit_at (ab_map (bitmap_enlarge k b)) i \<longleftrightarrow> bit_at (ab_map b) i" for i
    unfolding m by (auto simp: bit_at_def nth_append)
  show "unat (ab_size b) \<le> unat (ab_size (bitmap_enlarge k b))" using s by (simp add: bitmap_enlarge_def Let_def)
  show "dirty_pages (bitmap_enlarge k b) = dirty_pages b" by (simp add: dirty_pages_def d)
  have "length (ab_map (bitmap_enlarge k b)) = ?n" using n by (simp add: m)
  then show "bitmap_wf (bitmap_enlarge k b)"
    using wf s d by (auto simp: bitmap_wf_def bitmap_enlarge_def Let_def)
qed

section \<open>The contract of a bitmap\<close>

text \<open>
  What the users of a bitmap rely on: marking never fails, never cleans anything, and makes every byte of
  the range dirty that the bitmap tracks at all.
\<close>

locale tracking_bitmap =
  fixes mark :: "usize \<Rightarrow> usize \<Rightarrow> 'b \<Rightarrow> 'b panics"
    and dirty_at :: "usize \<Rightarrow> 'b \<Rightarrow> bool panics"
    and inv :: "'b \<Rightarrow> bool"
    and tracked :: "'b \<Rightarrow> usize \<Rightarrow> bool"
  assumes mark_total: "inv b \<Longrightarrow> \<exists>b'. mark off len b = Some b' \<and> inv b' \<and> tracked b' = tracked b"
    and dirty_total: "inv b \<Longrightarrow> dirty_at off b \<noteq> None"
    and mark_keeps: "inv b \<Longrightarrow> mark off len b = Some b' \<Longrightarrow> dirty_at x b = Some True \<Longrightarrow> dirty_at x b' = Some True"
    and mark_marks: "inv b \<Longrightarrow> mark off len b = Some b' \<Longrightarrow> i < unat len \<Longrightarrow> unat off + i < 2 ^ 64 \<Longrightarrow>
      tracked b (off + of_nat i) \<Longrightarrow> dirty_at (off + of_nat i) b' = Some True"
begin

text \<open>An optional bitmap, and a slice of a bitmap, keep the contract.\<close>

lemma option_tracking:
  "tracking_bitmap (option_mark_dirty mark) (option_dirty_at dirty_at) (\<lambda>b. \<forall>x. b = Some x \<longrightarrow> inv x)
     (\<lambda>b off. \<exists>x. b = Some x \<and> tracked x off)"
proof (unfold_locales, goal_cases)
  case (1 b off len)
  then show ?case using mark_total [of "the b" off len] by (cases b) (auto simp: option_mark_dirty_def)
next
  case (2 b off)
  then show ?case using dirty_total by (auto simp: option_dirty_at_def split: option.split)
next
  case (3 b off len b' x)
  then show ?case using mark_keeps by (auto simp: option_dirty_at_def option_mark_dirty_def split: option.splits)
next
  case (4 b off len b' i)
  then show ?case using mark_marks by (auto simp: option_dirty_at_def option_mark_dirty_def split: option.splits)
qed

lemma slice_tracking:
  "tracking_bitmap (base_mark_dirty mark) (base_dirty_at dirty_at) (\<lambda>s. inv (bs_inner s))
     (\<lambda>s off. unat (bs_base_offset s) + unat off < 2 ^ 64 \<and> tracked (bs_inner s) (bs_base_offset s + off))"
proof (unfold_locales, goal_cases)
  case (1 s off len)
  then show ?case using mark_total [of "bs_inner s" "bs_base_offset s + off" len] by (auto simp: base_mark_dirty_def)
next
  case (2 s off)
  then show ?case using dirty_total by (simp add: base_dirty_at_def)
next
  case (3 s off len s' x)
  then show ?case using mark_keeps by (auto simp: base_mark_dirty_def base_dirty_at_def)
next
  case (4 s off len s' i)
  have "unat (off + of_nat i) = unat off + i" using 4(4) by (simp add: unat_word_ariths unat_of_nat)
  then have "unat (bs_base_offset s + off) + i < 2 ^ 64"
    using 4(5) by (simp add: unat_word_ariths)
  then show ?case
    using 4 mark_marks [of "bs_inner s" "bs_base_offset s + off" len _ i]
    by (auto simp: base_mark_dirty_def base_dirty_at_def add.assoc)
qed

end

lemma atomic_mark_dirty_Some:
  assumes "bitmap_wf b" "atomic_mark_dirty off len b = Some b'"
  shows "bitmap_wf b'" "ab_page_size b' = ab_page_size b" "ab_size b' = ab_size b"
    "dirty_pages b' = dirty_pages b \<union> {n \<in> pages_of (ab_page_size b) off len. n < unat (ab_size b)}"
proof -
  from set_reset_addr_range_spec [OF assms(1), of off len True] obtain m where
    "set_reset_addr_range off len True b = Some (b\<lparr>ab_map := m\<rparr>)" "bitmap_wf (b\<lparr>ab_map := m\<rparr>)"
    "dirty_pages (b\<lparr>ab_map := m\<rparr>) = dirty_pages b \<union> {n \<in> pages_of (ab_page_size b) off len. n < unat (ab_size b)}"
    by (auto simp: marked_def)
  then show "bitmap_wf b'" "ab_page_size b' = ab_page_size b" "ab_size b' = ab_size b"
    "dirty_pages b' = dirty_pages b \<union> {n \<in> pages_of (ab_page_size b) off len. n < unat (ab_size b)}"
    using assms(2) by (auto simp: atomic_mark_dirty_def set_addr_range_def)
qed

definition page_tracked :: "atomic_bitmap \<Rightarrow> usize \<Rightarrow> bool" where
  "page_tracked b off \<longleftrightarrow> unat off div unat (ab_page_size b) < unat (ab_size b)"

interpretation atomic: tracking_bitmap atomic_mark_dirty atomic_dirty_at bitmap_wf page_tracked
proof (unfold_locales, goal_cases)
  case (1 b off len)
  from set_reset_addr_range_spec [OF 1, of off len True] obtain m where
    m: "set_reset_addr_range off len True b = Some (b\<lparr>ab_map := m\<rparr>)" "bitmap_wf (b\<lparr>ab_map := m\<rparr>)" by blast
  then show ?case by (auto simp: atomic_mark_dirty_def set_addr_range_def page_tracked_def fun_eq_iff)
next
  case (2 b off)
  then show ?case by (simp add: atomic_dirty_at_def is_addr_set_spec)
next
  case (3 b off len b' x)
  then show ?case
    using atomic_mark_dirty_Some [OF 3(1,2)] by (simp add: atomic_dirty_at_def is_addr_set_spec)
next
  case (4 b off len b' i)
  have "unat (off + of_nat i) = unat off + i" using 4(4) by (simp add: unat_word_ariths unat_of_nat)
  then show ?case
    using atomic_mark_dirty_Some [OF 4(1,2)] 4(1,3-5)
    by (auto simp: atomic_dirty_at_def is_addr_set_spec page_tracked_def pages_of_def)
qed

interpretation no_bitmap: tracking_bitmap unit_mark_dirty unit_dirty_at "\<lambda>_. True" "\<lambda>_ _. False"
  by unfold_locales (simp_all add: unit_mark_dirty_def unit_dirty_at_def)

interpretation ref_slice: tracking_bitmap "base_mark_dirty atomic_mark_dirty" "base_dirty_at atomic_dirty_at"
  "\<lambda>s. bitmap_wf (bs_inner s)"
  "\<lambda>s off. unat (bs_base_offset s) + unat off < 2 ^ 64 \<and> page_tracked (bs_inner s) (bs_base_offset s + off)"
  by (rule atomic.slice_tracking)

interpretation optional: tracking_bitmap "option_mark_dirty atomic_mark_dirty" "option_dirty_at atomic_dirty_at"
  "\<lambda>b. \<forall>x. b = Some x \<longrightarrow> bitmap_wf x" "\<lambda>b off. \<exists>x. b = Some x \<and> page_tracked x off"
  by (rule atomic.option_tracking)

section \<open>Properties\<close>

text \<open>
  C28.  The bitmap refines a set of pages.  Setting and resetting a range of bytes adds and removes exactly the
  pages its bytes lie on (as far as the bitmap reaches), querying a byte asks for its page, reading out
  returns all dirty pages as bits and leaves none, and enlarging keeps the dirty pages and adds clean
  ones; none of these operations panics and all keep the bitmap well-formed.
\<close>

theorem bitmap_refines_page_set:
  fixes start len :: usize
  assumes "bitmap_wf b"
  defines "touched \<equiv> {n \<in> pages_of (ab_page_size b) start len. n < unat (ab_size b)}"
  shows "(\<exists>b'. set_addr_range start len b = Some b' \<and> bitmap_wf b' \<and> dirty_pages b' = dirty_pages b \<union> touched) \<and>
    (\<exists>b'. reset_addr_range start len b = Some b' \<and> bitmap_wf b' \<and> dirty_pages b' = dirty_pages b - touched) \<and>
    is_addr_set start b = Some (unat start div unat (ab_page_size b) \<in> dirty_pages b) \<and>
    bitmap_wf (fst (get_and_reset b)) \<and> dirty_pages (fst (get_and_reset b)) = {} \<and>
    {n. bit_at (snd (get_and_reset b)) n} = dirty_pages b \<and>
    (unat (ab_byte_size b) + unat len < 2 ^ 64 \<longrightarrow>
       bitmap_wf (bitmap_enlarge len b) \<and> dirty_pages (bitmap_enlarge len b) = dirty_pages b)"
proof -
  have "\<exists>b'. set_reset_addr_range start len on b = Some b' \<and> bitmap_wf b' \<and> dirty_pages b' = marked on touched (dirty_pages b)" for on
    using set_reset_addr_range_spec [OF assms(1), of start len on] unfolding touched_def by metis
  from this [of True] this [of False] show ?thesis
    using is_addr_set_spec [OF assms(1), of start] bitmap_cleared [OF assms(1)] bitmap_enlarge_wf [OF assms(1), of len]
    by (simp add: set_addr_range_def reset_addr_range_def marked_def) (simp add: get_and_reset_def dirty_pages_def)
qed

theorem bitmap_refines_page_set_witness:
  "\<exists>b. set_addr_range 0x1fff 2 (bitmap_new 0x5000 0x1000) = Some b \<and> dirty_pages b = {1, 2}"
proof -
  have wf: "bitmap_wf (bitmap_new 0x5000 0x1000)" and d: "dirty_pages (bitmap_new 0x5000 0x1000) = {}"
    using bitmap_new_wf [of "0x1000" "0x5000"] by simp_all
  have f: "ab_page_size (bitmap_new 0x5000 0x1000) = 0x1000" "ab_size (bitmap_new 0x5000 0x1000) = 5"
    by (simp_all add: bitmap_new_def Let_def div_ceil_def)
  have "{n \<in> pages_of 0x1000 0x1fff 2. n < 5} = {1, 2}"
    by (subst pages_of_range) (auto simp: saturating_add_def checked_add_def)
  then show ?thesis using bitmap_refines_page_set [OF wf, of "0x1fff" 2] d f by auto
qed

end
