(* ===== verification/Vm_Address.thy ===== *)
theory Vm_Address
  imports Prelude
begin

text \<open>
  The bottom of the \<^verbatim>\<open>vm-memory\<close> library: addresses (\<^verbatim>\<open>vm-memory/src/address.rs\<close>), byte-order types
  (\<^verbatim>\<open>endian.rs\<close>) and values that are plain bytes (\<^verbatim>\<open>bytes.rs\<close>).

  An address type is a word; the operations of the trait \<^verbatim>\<open>Address\<close> are its operations on that
  word.  The program only builds for little-endian hosts.  A value of a type \<^verbatim>\<open>T: ByteValued\<close> is the list of its
  bytes; of the type only its size and alignment matter.
\<close>

section \<open>Addresses\<close>

definition addr_mask :: "'a::len word \<Rightarrow> 'a word \<Rightarrow> 'a word" where
  "addr_mask a m = a AND m"

definition addr_checked_offset_from :: "'a::len word \<Rightarrow> 'a word \<Rightarrow> 'a word option" where
  "addr_checked_offset_from a base = checked_sub a base"

definition addr_unchecked_offset_from :: "'a::len word \<Rightarrow> 'a word \<Rightarrow> 'a word" where
  "addr_unchecked_offset_from a base = a - base"

definition addr_checked_add :: "'a::len word \<Rightarrow> 'a word \<Rightarrow> 'a word option" where
  "addr_checked_add a other = checked_add a other"

definition addr_overflowing_add :: "'a::len word \<Rightarrow> 'a word \<Rightarrow> 'a word \<times> bool" where
  "addr_overflowing_add a other = overflowing_add a other"

definition addr_unchecked_add :: "'a::len word \<Rightarrow> 'a word \<Rightarrow> 'a word" where
  "addr_unchecked_add a offset = a + offset"

definition addr_checked_sub :: "'a::len word \<Rightarrow> 'a word \<Rightarrow> 'a word option" where
  "addr_checked_sub a other = checked_sub a other"

definition addr_overflowing_sub :: "'a::len word \<Rightarrow> 'a word \<Rightarrow> 'a word \<times> bool" where
  "addr_overflowing_sub a other = overflowing_sub a other"

definition addr_unchecked_sub :: "'a::len word \<Rightarrow> 'a word \<Rightarrow> 'a word" where
  "addr_unchecked_sub a other = a - other"

definition addr_checked_align_up :: "'a::len word \<Rightarrow> 'a word \<Rightarrow> 'a word option panics" where
  "addr_checked_align_up a power_of_two =
     (let mask = power_of_two - 1
      in if power_of_two = 0 then None
         else if power_of_two AND mask \<noteq> 0 then None
         else Some (map_option (\<lambda>x. x AND NOT mask) (addr_checked_add a mask)))"

definition addr_unchecked_align_up :: "'a::len word \<Rightarrow> 'a word \<Rightarrow> 'a word" where
  "addr_unchecked_align_up a power_of_two =
     (let mask = power_of_two - 1 in addr_unchecked_add a mask AND NOT mask)"

lemmas address_defs = addr_mask_def addr_checked_offset_from_def addr_unchecked_offset_from_def addr_checked_add_def
  addr_overflowing_add_def addr_unchecked_add_def addr_checked_sub_def addr_overflowing_sub_def addr_unchecked_sub_def

section \<open>Byte order\<close>

definition swap_bytes :: "nat \<Rightarrow> 'a::len word \<Rightarrow> 'a word" where
  "swap_bytes n w = from_le (rev (to_le n w))"

text \<open>
  The two families of types \<^verbatim>\<open>Le16\<close> to \<^verbatim>\<open>LeSize\<close> and \<^verbatim>\<open>Be16\<close> to \<^verbatim>\<open>BeSize\<close>: the stored word, with \<open>n\<close> its size in
  bytes.  On a little-endian host \<^verbatim>\<open>to_le\<close> and \<^verbatim>\<open>from_le\<close> are the identity.
\<close>

datatype byte_order = LittleEndian | BigEndian

definition to_order :: "byte_order \<Rightarrow> nat \<Rightarrow> 'a::len word \<Rightarrow> 'a word" where
  "to_order ord n w = (case ord of LittleEndian \<Rightarrow> w | BigEndian \<Rightarrow> swap_bytes n w)"

record 'a endian_type =
  et_raw :: 'a

definition endian_from :: "byte_order \<Rightarrow> nat \<Rightarrow> 'a::len word \<Rightarrow> 'a word endian_type" where
  "endian_from ord n v = \<lparr>et_raw = to_order ord n v\<rparr>"

definition to_native :: "byte_order \<Rightarrow> nat \<Rightarrow> 'a::len word endian_type \<Rightarrow> 'a word" where
  "to_native ord n e = to_order ord n (et_raw e)"

definition endian_eq_native :: "byte_order \<Rightarrow> nat \<Rightarrow> 'a::len word endian_type \<Rightarrow> 'a word \<Rightarrow> bool" where
  "endian_eq_native ord n e other \<longleftrightarrow> et_raw e = to_order ord n other"

definition native_eq_endian :: "byte_order \<Rightarrow> nat \<Rightarrow> 'a::len word \<Rightarrow> 'a word endian_type \<Rightarrow> bool" where
  "native_eq_endian ord n v e \<longleftrightarrow> to_order ord n (et_raw e) = v"

section \<open>Values as bytes\<close>

text \<open>
  \<^verbatim>\<open>from_slice\<close> reinterprets bytes in place, so the address of the bytes matters: \<^verbatim>\<open>align_to\<close> yields
  exactly one value only if the bytes are aligned and the type is not empty.
\<close>

record byte_type =
  bt_size :: nat
  bt_align :: nat

definition byte_valued_from_slice :: "byte_type \<Rightarrow> u64 \<Rightarrow> u8 list \<Rightarrow> u8 list option" where
  "byte_valued_from_slice ty ptr data =
     (if length data \<noteq> bt_size ty then None
      else if bt_size ty \<noteq> 0 \<and> unat ptr mod bt_align ty = 0 then Some data
      else None)"

definition byte_valued_zeroed :: "byte_type \<Rightarrow> u8 list" where
  "byte_valued_zeroed ty = replicate (bt_size ty) 0"

text \<open>\<^verbatim>\<open>read_exact_from\<close> over a reader that holds the given bytes: the value and what is left of them.\<close>

definition read_exact_from :: "byte_type \<Rightarrow> u8 list \<Rightarrow> (u8 list \<times> u8 list) option" where
  "read_exact_from ty reader =
     (let n = length (byte_valued_zeroed ty)
      in if n \<le> length reader then Some (take n reader, drop n reader) else None)"

definition write_all_to :: "u8 list \<Rightarrow> u8 list \<Rightarrow> u8 list" where
  "write_all_to val writer = writer @ val"

section \<open>Aligning\<close>

lemma and_not_mask_word:
  fixes x :: "'a::len word"
  shows "x AND NOT (mask k) = push_bit k (drop_bit k x)"
  by (rule bit_word_eqI) (auto simp: bit_simps)

lemma unat_align_down:
  fixes x :: "'a::len word"
  shows "unat (x AND NOT (mask k)) = unat x div 2 ^ k * 2 ^ k"
proof -
  have "unat (x AND NOT (mask k)) = unat (push_bit k (drop_bit k x))" by (simp add: and_not_mask_word)
  also have "\<dots> = take_bit LENGTH('a) (push_bit k (unat (drop_bit k x)))" by (simp add: unsigned_push_bit_eq)
  also have "unat (drop_bit k x) = unat x div 2 ^ k" 
    by (subst unsigned_drop_bit_eq) (simp add: drop_bit_eq_div take_bit_nat_eq_self)
  finally have e: "unat (x AND NOT (mask k)) = take_bit LENGTH('a) (unat x div 2 ^ k * 2 ^ k)"
    by (simp add: push_bit_eq_mult)
  have "unat x div 2 ^ k * 2 ^ k \<le> unat x" by simp
  also have "\<dots> < 2 ^ LENGTH('a)" by (rule unsigned_less)
  finally show ?thesis using e by (simp add: take_bit_nat_eq_self)
qed

lemma ceil_div_mult:
  fixes a m :: nat
  assumes "0 < m"
  shows "a \<le> (a + (m - 1)) div m * m" "(a + (m - 1)) div m * m < a + m" "m dvd b \<Longrightarrow> a \<le> b \<Longrightarrow> (a + (m - 1)) div m * m \<le> b"
proof -
  have e: "a + (m - 1) = (a + (m - 1)) div m * m + (a + (m - 1)) mod m" by simp
  have r: "(a + (m - 1)) mod m \<le> m - 1" using assms by (simp add: less_Suc_eq_le [symmetric])
  show "a \<le> (a + (m - 1)) div m * m" using e r by linarith
  show "(a + (m - 1)) div m * m < a + m" using e r assms by linarith
  show "(a + (m - 1)) div m * m \<le> b" if d: "m dvd b" "a \<le> b"
  proof -
    obtain k where k: "b = m * k" using d(1) by (rule dvdE)
    have "(a + (m - 1)) div m \<le> (m * k + (m - 1)) div m" using d(2) k by (intro div_le_mono) simp
    also have "\<dots> = k" using assms by (subst div_mult_self4) simp_all
    finally have "(a + (m - 1)) div m * m \<le> k * m" by (rule mult_le_mono1)
    then show ?thesis by (simp only: k mult.commute)
  qed
qed

lemma word_exp_minus:
  fixes p :: "'a::len word"
  assumes "p = 2 ^ k" "k < LENGTH('a)"
  shows "p - 1 = mask k" "unat (p - 1) = 2 ^ k - 1" "unat p = 2 ^ k"
proof -
  show m: "p - 1 = mask k" using assms(1) by (simp add: mask_eq_exp_minus_1)
  have "(2 :: nat) ^ k < 2 ^ LENGTH('a)" using assms(2) by simp
  from unat_of_nat_small [OF this] show e: "unat p = 2 ^ k" using assms(1) by simp
  then have "1 \<le> p" by (simp add: word_le_nat_alt)
  then show "unat (p - 1) = 2 ^ k - 1" using e by (simp add: unat_sub)
qed

section \<open>Properties\<close>

text \<open>
  Aligning an address up to a power of two gives the least multiple of it that is not below the
  address, and fails exactly when that multiple is not an address any more; any other alignment
  is a panic.
\<close>

theorem align_up_least:
  fixes a p :: "'a::len word"
  shows "case addr_checked_align_up a p of
      None \<Rightarrow> p = 0 \<or> p AND (p - 1) \<noteq> 0
    | Some None \<Rightarrow> \<not> (\<exists>b :: 'a word. a \<le> b \<and> unat p dvd unat b)
    | Some (Some b) \<Rightarrow> a \<le> b \<and> unat p dvd unat b \<and> unat b < unat a + unat p \<and> b = addr_unchecked_align_up a p \<and>
        (\<forall>b' :: 'a word. a \<le> b' \<and> unat p dvd unat b' \<longrightarrow> b \<le> b')"
proof (cases "p = 0 \<or> p AND (p - 1) \<noteq> 0")
  case True
  then have "addr_checked_align_up a p = None" by (auto simp: addr_checked_align_up_def Let_def)
  then show ?thesis using True by simp
next
  case False
  then obtain k where k: "p = 2 ^ k" "k < LENGTH('a)" using power_of_two_word [of p] by auto
  note m = word_exp_minus [OF k]
  define c where "c = (unat a + (2 ^ k - 1)) div 2 ^ k * 2 ^ k"
  have c: "unat a \<le> c" "c < unat a + 2 ^ k" "\<And>b. 2 ^ k dvd b \<Longrightarrow> unat a \<le> b \<Longrightarrow> c \<le> b"
    unfolding c_def by (rule ceil_div_mult; simp)+
  have cd: "2 ^ k dvd c" by (simp add: c_def)
  have ovf: "checked_add a (mask k) = None \<longleftrightarrow> \<not> c < 2 ^ LENGTH('a)"
  proof -
    have "(2 :: nat) ^ k dvd 2 ^ LENGTH('a)" using k(2) by (intro le_imp_power_dvd) simp
    have "unat (mask k :: 'a word) = 2 ^ k - 1" using m by simp
    moreover have "unat a + (2 ^ k - 1) < 2 ^ LENGTH('a) \<longleftrightarrow> c < 2 ^ LENGTH('a)"
    proof
      assume "unat a + (2 ^ k - 1) < 2 ^ LENGTH('a)"
      moreover have "c \<le> unat a + (2 ^ k - 1)" unfolding c_def by simp
      ultimately show "c < 2 ^ LENGTH('a)" by simp
    next
      assume "c < 2 ^ LENGTH('a)"
      moreover have "2 ^ k dvd 2 ^ LENGTH('a) - c" using cd \<open>2 ^ k dvd 2 ^ LENGTH('a)\<close> by (rule dvd_diff_nat [rotated])
      ultimately have "2 ^ k \<le> 2 ^ LENGTH('a) - c" by (intro dvd_imp_le) simp_all
      then show "unat a + (2 ^ k - 1) < 2 ^ LENGTH('a)" using c(1) \<open>c < 2 ^ LENGTH('a)\<close> by linarith
    qed
    ultimately have "unat a + unat (mask k :: 'a word) < 2 ^ LENGTH('a) \<longleftrightarrow> c < 2 ^ LENGTH('a)" by simp
    then show ?thesis by (simp add: checked_add_def)
  qed
  show ?thesis
  proof (cases "checked_add a (mask k)")
    case None
    have "\<not> (a \<le> b \<and> 2 ^ k dvd unat b)" for b :: "'a word"
    proof
      assume "a \<le> b \<and> 2 ^ k dvd unat b"
      then have "c \<le> unat b" using c(3) by (simp add: word_le_nat_alt)
      moreover have "unat b < 2 ^ LENGTH('a)" by (rule unsigned_less)
      ultimately have "c < 2 ^ LENGTH('a)" by (rule le_less_trans)
      then show False using ovf None by blast
    qed
    then show ?thesis
      using None False m(1,3) by (simp add: addr_checked_align_up_def addr_checked_add_def Let_def)
  next
    case (Some s)
    let ?b = "s AND NOT (mask k)"
    have "unat s = unat a + (2 ^ k - 1)" "s = a + mask k" using Some m by (auto simp: checked_add_Some)
    then have b: "unat ?b = c" by (simp add: unat_align_down c_def)
    have "?b \<le> b'" if "a \<le> b'" "2 ^ k dvd unat b'" for b' :: "'a word"
      using c(3) [OF that(2)] that(1) b by (simp add: word_le_nat_alt)
    then show ?thesis
      using Some False m(1,3) b c cd \<open>s = a + mask k\<close>
      by (simp add: addr_checked_align_up_def addr_checked_add_def addr_unchecked_align_up_def addr_unchecked_add_def
          Let_def word_le_nat_alt)
  qed
qed

theorem align_up_least_witness:
  "addr_checked_align_up (0x1234 :: u64) 0x1000 = Some (Some 0x2000) \<and>
   (\<forall>b :: u64. 0x1234 \<le> b \<and> 0x1000 dvd unat b \<longrightarrow> 0x2000 \<le> b)"
proof -
  have e: "addr_checked_align_up (0x1234 :: u64) 0x1000 = Some (Some 0x2000)"
    by (simp add: addr_checked_align_up_def addr_checked_add_def checked_add_def)
  then show ?thesis using align_up_least [where a = "0x1234 :: u64" and p = "0x1000"] unfolding e by simp
qed

lemma swap_bytes_bytes:
  fixes w :: "'a::len word"
  assumes "LENGTH('a) = 8 * n"
  shows "to_le n (swap_bytes n w) = rev (to_le n w)" "swap_bytes n (swap_bytes n w) = w"
proof -
  show b: "to_le n (swap_bytes n w) = rev (to_le n w)"
    using to_le_from_le [of "rev (to_le n w)", where 'a = 'a] assms by (simp add: swap_bytes_def)
  have "swap_bytes n (swap_bytes n w) = from_le (rev (to_le n (swap_bytes n w)))" by (simp only: swap_bytes_def [of n "swap_bytes n w"])
  also have "\<dots> = w" unfolding b using assms by (simp add: from_le_to_le)
  finally show "swap_bytes n (swap_bytes n w) = w" .
qed

text \<open>
  The byte-order types: converting to such a type and back gives the value, comparing with a native
  value (from either side) is comparing the values, and the bytes of a \<^verbatim>\<open>Be\<close> value are those of
  the number from the most to the least significant, of an \<^verbatim>\<open>Le\<close> value the other way round.
\<close>

theorem endian_roundtrip:
  fixes v u :: "'a::len word"
  assumes "LENGTH('a) = 8 * n"
  shows "to_native ord n (endian_from ord n v) = v \<and>
    (endian_eq_native ord n (endian_from ord n v) u \<longleftrightarrow> v = u) \<and>
    (native_eq_endian ord n u (endian_from ord n v) \<longleftrightarrow> v = u) \<and>
    to_le n (et_raw (endian_from ord n v)) = (case ord of LittleEndian \<Rightarrow> to_le n v | BigEndian \<Rightarrow> rev (to_le n v))"
proof -
  have inv: "to_order ord n (to_order ord n w) = w" for w :: "'a word"
    using swap_bytes_bytes(2) [OF assms] by (simp add: to_order_def split: byte_order.split)
  then have "to_order ord n v = to_order ord n u \<longleftrightarrow> v = u" by metis
  then show ?thesis
    using inv swap_bytes_bytes(1) [OF assms, of v]
    by (simp add: to_native_def endian_from_def endian_eq_native_def native_eq_endian_def) (simp add: to_order_def split: byte_order.split)
qed

theorem endian_roundtrip_witness:
  "to_native BigEndian 4 (endian_from BigEndian 4 (0x12345678 :: u32)) = 0x12345678 \<and>
   to_le 4 (et_raw (endian_from BigEndian 4 (0x12345678 :: u32))) = [0x12, 0x34, 0x56, 0x78]"
  using endian_roundtrip [of 4 BigEndian "0x12345678 :: u32" 0] by (simp add: to_le_numeral)

end
