(* ===== verification/Volatile_Memory.thy ===== *)
theory Volatile_Memory
  imports Guest_Memory Dirty_Bitmap Vm_Address
begin

text \<open>
  Volatile access to memory that a guest may change at any time
  (\<^verbatim>\<open>vm-memory/src/volatile_memory.rs\<close>): slices, references to one value, references to an array of values, and the
  copying routines below them.

  The state is the memory of the host process together with the dirty bitmaps; a slice of a bitmap
  names its bitmap, so that all slices of a region share one.  A type \<^verbatim>\<open>T: ByteValued\<close> is its size
  in bytes, a value of it its bytes, and a buffer of the caller is the address and the number of its
  elements.  The pointer guards only matter for Xen and are the pointers themselves.
\<close>

section \<open>State\<close>

record vmem =
  vm_heap :: heap
  vm_bitmaps :: "nat \<Rightarrow> atomic_bitmap"

text \<open>The two kinds of \<^verbatim>\<open>BitmapSlice\<close>: none, as in whypa itself, and a slice of an \<^verbatim>\<open>AtomicBitmap\<close>.\<close>

datatype bitmap_slice = NoBitmap | RefSlice nat usize

definition bitmap_slice_at :: "usize \<Rightarrow> bitmap_slice \<Rightarrow> bitmap_slice" where
  "bitmap_slice_at offset b =
     (case b of
        NoBitmap \<Rightarrow> NoBitmap
      | RefSlice i base \<Rightarrow> RefSlice i (bs_base_offset (base_slice_at offset (base_slice_new i base))))"

definition mark_dirty :: "bitmap_slice \<Rightarrow> usize \<Rightarrow> usize \<Rightarrow> vmem \<Rightarrow> vmem panics" where
  "mark_dirty b offset len m =
     (case b of
        NoBitmap \<Rightarrow> Some m
      | RefSlice i base \<Rightarrow>
          map_option (\<lambda>s. m\<lparr>vm_bitmaps := (vm_bitmaps m)(i := bs_inner s)\<rparr>)
            (base_mark_dirty atomic_mark_dirty offset len (base_slice_new (vm_bitmaps m i) base)))"

datatype vm_io_error = IoInterrupted | IoUnexpectedEof | IoWriteZero | IoOther nat

datatype vol_error =
    OutOfBounds usize
  | Overflow usize usize
  | TooBig usize usize
  | Misaligned usize usize
  | IOError vm_io_error
  | PartialBuffer usize usize

record vol_slice =
  sl_addr :: u64
  sl_size :: usize
  sl_bitmap :: bitmap_slice

record vol_ref =
  rf_addr :: u64
  rf_bitmap :: bitmap_slice

record vol_array_ref =
  ar_addr :: u64
  ar_nelem :: usize
  ar_bitmap :: bitmap_slice

section \<open>Slices\<close>

definition with_bitmap :: "u64 \<Rightarrow> usize \<Rightarrow> bitmap_slice \<Rightarrow> vol_slice" where
  "with_bitmap addr sz b = \<lparr>sl_addr = addr, sl_size = sz, sl_bitmap = b\<rparr>"

definition slice_new :: "u64 \<Rightarrow> usize \<Rightarrow> vol_slice" where
  "slice_new addr sz = with_bitmap addr sz NoBitmap"

definition compute_offset :: "usize \<Rightarrow> usize \<Rightarrow> (vol_error, usize) result" where
  "compute_offset base offset =
     (case checked_add base offset of None \<Rightarrow> Err (Overflow base offset) | Some m \<Rightarrow> Ok m)"

definition compute_end_offset :: "usize \<Rightarrow> usize \<Rightarrow> usize \<Rightarrow> (vol_error, usize) result" where
  "compute_end_offset len base offset =
     (case compute_offset base offset of
        Err e \<Rightarrow> Err e
      | Ok mem_end \<Rightarrow> if len < mem_end then Err (OutOfBounds mem_end) else Ok mem_end)"

definition subslice :: "vol_slice \<Rightarrow> usize \<Rightarrow> usize \<Rightarrow> (vol_error, vol_slice) result" where
  "subslice s offset count =
     (case compute_end_offset (sl_size s) offset count of
        Err e \<Rightarrow> Err e
      | Ok _ \<Rightarrow> Ok (with_bitmap (sl_addr s + offset) count (bitmap_slice_at offset (sl_bitmap s))))"

definition slice_offset :: "vol_slice \<Rightarrow> usize \<Rightarrow> (vol_error, vol_slice) result" where
  "slice_offset s count =
     (case checked_add (sl_addr s) count of
        None \<Rightarrow> Err (Overflow (sl_addr s) count)
      | Some new_addr \<Rightarrow>
          (case checked_sub (sl_size s) count of
             None \<Rightarrow> Err (OutOfBounds new_addr)
           | Some new_size \<Rightarrow>
               Ok (with_bitmap (sl_addr s + count) new_size (bitmap_slice_at count (sl_bitmap s)))))"

definition slice_split_at :: "vol_slice \<Rightarrow> usize \<Rightarrow> (vol_error, vol_slice \<times> vol_slice) result" where
  "slice_split_at s mid =
     (case slice_offset s mid of
        Err e \<Rightarrow> Err e
      | Ok tail \<Rightarrow> Ok (with_bitmap (sl_addr s) mid (sl_bitmap s), tail))"

text \<open>\<^verbatim>\<open>VolatileMemory for VolatileSlice\<close>, and the default methods of the trait.\<close>

definition slice_get_slice :: "vol_slice \<Rightarrow> usize \<Rightarrow> usize \<Rightarrow> (vol_error, vol_slice) result" where
  "slice_get_slice s offset count = subslice s offset count"

definition slice_as_volatile_slice :: "vol_slice \<Rightarrow> vol_slice panics" where
  "slice_as_volatile_slice s = ok (slice_get_slice s 0 (sl_size s))"

definition slice_is_empty :: "vol_slice \<Rightarrow> bool" where
  "slice_is_empty s \<longleftrightarrow> sl_size s = 0"

definition check_alignment :: "vol_slice \<Rightarrow> usize \<Rightarrow> (vol_error, unit) result" where
  "check_alignment s al =
     (if sl_addr s AND (al - 1) \<noteq> 0 then Err (Misaligned (sl_addr s) al) else Ok ())"

text \<open>\<open>n\<close> is the size of the type; the outer \<open>None\<close> is the failure of the assertion on the length.\<close>

definition get_ref :: "usize \<Rightarrow> vol_slice \<Rightarrow> usize \<Rightarrow> (vol_error, vol_ref) result panics" where
  "get_ref n s offset =
     (case slice_get_slice s offset n of
        Err e \<Rightarrow> Some (Err e)
      | Ok sl \<Rightarrow>
          if sl_size sl \<noteq> n then None
          else Some (Ok \<lparr>rf_addr = sl_addr sl, rf_bitmap = sl_bitmap sl\<rparr>))"

definition checked_bytes :: "usize \<Rightarrow> usize \<Rightarrow> (vol_error, usize) result" where
  "checked_bytes n nelem =
     (if unat nelem < 2 ^ 63 \<and> unat nelem * unat n < 2 ^ 63 then Ok (nelem * n) else Err (TooBig nelem n))"

definition get_array_ref :: "usize \<Rightarrow> vol_slice \<Rightarrow> usize \<Rightarrow> usize \<Rightarrow> (vol_error, vol_array_ref) result panics" where
  "get_array_ref n s offset nelem =
     (case checked_bytes n nelem of
        Err e \<Rightarrow> Some (Err e)
      | Ok nbytes \<Rightarrow>
          (case slice_get_slice s offset nbytes of
             Err e \<Rightarrow> Some (Err e)
           | Ok sl \<Rightarrow>
               if sl_size sl \<noteq> nbytes then None
               else Some (Ok \<lparr>ar_addr = sl_addr sl, ar_nelem = nelem, ar_bitmap = sl_bitmap sl\<rparr>)))"

text \<open>References into the memory itself; the result is the address.\<close>

definition aligned_as_ref :: "usize \<Rightarrow> usize \<Rightarrow> vol_slice \<Rightarrow> usize \<Rightarrow> (vol_error, u64) result panics" where
  "aligned_as_ref n al s offset =
     (case slice_get_slice s offset n of
        Err e \<Rightarrow> Some (Err e)
      | Ok sl \<Rightarrow>
          (case check_alignment sl al of
             Err e \<Rightarrow> Some (Err e)
           | Ok _ \<Rightarrow> if sl_size sl \<noteq> n then None else Some (Ok (sl_addr sl))))"

definition aligned_as_mut :: "usize \<Rightarrow> usize \<Rightarrow> vol_slice \<Rightarrow> usize \<Rightarrow> (vol_error, u64) result panics" where
  "aligned_as_mut n al s offset =
     (case slice_get_slice s offset n of
        Err e \<Rightarrow> Some (Err e)
      | Ok sl \<Rightarrow>
          (case check_alignment sl al of
             Err e \<Rightarrow> Some (Err e)
           | Ok _ \<Rightarrow> if sl_size sl \<noteq> n then None else Some (Ok (sl_addr sl))))"

definition get_atomic_ref :: "usize \<Rightarrow> usize \<Rightarrow> vol_slice \<Rightarrow> usize \<Rightarrow> (vol_error, u64) result panics" where
  "get_atomic_ref n al s offset =
     (case slice_get_slice s offset n of
        Err e \<Rightarrow> Some (Err e)
      | Ok sl \<Rightarrow>
          (case check_alignment sl al of
             Err e \<Rightarrow> Some (Err e)
           | Ok _ \<Rightarrow> if sl_size sl \<noteq> n then None else Some (Ok (sl_addr sl))))"

section \<open>Copying\<close>

definition alignment :: "usize \<Rightarrow> usize" where
  "alignment addr = addr AND (NOT addr + 1)"

definition copy_single :: "nat \<Rightarrow> u64 \<Rightarrow> u64 \<Rightarrow> heap \<Rightarrow> heap panics" where
  "copy_single align src_addr dst_addr h =
     (if align = 8 \<or> align = 4 \<or> align = 2 \<or> align = 1
      then Some (copy_to h dst_addr (copy_from h src_addr align)) else None)"

text \<open>
  The loop of the closure \<^verbatim>\<open>copy_aligned_slice\<close>, over the bytes left, the two pointers and memory.  It
  is called for 8, 4, 2 and 1; the test for 0 makes it total.
\<close>

function copy_aligned ::
  "nat \<Rightarrow> nat \<Rightarrow> u64 \<Rightarrow> u64 \<Rightarrow> heap \<Rightarrow> (nat \<times> u64 \<times> u64 \<times> heap) panics" where
  "copy_aligned min_align left src dst h =
     (if left < min_align \<or> min_align = 0 then Some (left, src, dst, h)
      else case copy_single min_align src dst h of
             None \<Rightarrow> None
           | Some h' \<Rightarrow>
               if left - min_align = 0 then Some (0, src, dst, h')
               else copy_aligned min_align (left - min_align) (src + of_nat min_align) (dst + of_nat min_align) h')"
  by pat_completeness auto
termination
  by (relation "measure (\<lambda>(_, left, _). left)") auto

definition copy_aligned_slice ::
  "usize \<Rightarrow> nat \<Rightarrow> nat \<times> u64 \<times> u64 \<times> heap \<Rightarrow> (nat \<times> u64 \<times> u64 \<times> heap) panics" where
  "copy_aligned_slice align min_align s =
     (case s of (left, src, dst, h) \<Rightarrow>
        if align < of_nat min_align then Some (left, src, dst, h) else copy_aligned min_align left src dst h)"

definition copy_slice_volatile :: "u64 \<Rightarrow> u64 \<Rightarrow> nat \<Rightarrow> heap \<Rightarrow> heap panics" where
  "copy_slice_volatile dst src amount h =
     (let align = min (alignment src) (alignment dst)
      in case Option.bind (copy_aligned_slice align 8 (amount, src, dst, h)) (\<lambda>s.
              Option.bind (copy_aligned_slice align 4 s) (\<lambda>s.
              Option.bind (copy_aligned_slice align 2 s) (copy_aligned_slice align 1))) of
           None \<Rightarrow> None
         | Some (left, src, dst, h') \<Rightarrow> Some h')"

text \<open>\<^verbatim>\<open>ptr::copy\<close> and \<^verbatim>\<open>ptr::copy_nonoverlapping\<close>: all bytes are read before any is written.\<close>

definition ptr_copy :: "u64 \<Rightarrow> u64 \<Rightarrow> nat \<Rightarrow> heap \<Rightarrow> heap" where
  "ptr_copy src dst n h = copy_to h dst (copy_from h src n)"

definition copy_slice :: "u64 \<Rightarrow> u64 \<Rightarrow> nat \<Rightarrow> heap \<Rightarrow> (heap \<times> nat) panics" where
  "copy_slice dst src amount h =
     (if amount \<le> 8 then map_option (\<lambda>h'. (h', amount)) (copy_slice_volatile dst src amount h)
      else Some (ptr_copy src dst amount h, amount))"

definition copy_from_volatile :: "u64 \<Rightarrow> vol_slice \<Rightarrow> nat \<Rightarrow> vmem \<Rightarrow> (vmem \<times> nat) panics" where
  "copy_from_volatile dst s amount m =
     map_option (\<lambda>(h, count). (m\<lparr>vm_heap := h\<rparr>, count)) (copy_slice dst (sl_addr s) amount (vm_heap m))"

definition copy_to_volatile :: "vol_slice \<Rightarrow> u64 \<Rightarrow> nat \<Rightarrow> vmem \<Rightarrow> (vmem \<times> nat) panics" where
  "copy_to_volatile s src amount m =
     (case copy_slice (sl_addr s) src amount (vm_heap m) of
        None \<Rightarrow> None
      | Some (h, count) \<Rightarrow>
          map_option (\<lambda>m'. (m', count)) (mark_dirty (sl_bitmap s) 0 (of_nat count) (m\<lparr>vm_heap := h\<rparr>)))"

section \<open>References and arrays\<close>

definition ref_to_slice :: "usize \<Rightarrow> vol_ref \<Rightarrow> vol_slice" where
  "ref_to_slice n r = with_bitmap (rf_addr r) n (rf_bitmap r)"

definition ref_store :: "usize \<Rightarrow> vol_ref \<Rightarrow> u8 list \<Rightarrow> vmem \<Rightarrow> vmem panics" where
  "ref_store n r v m = mark_dirty (rf_bitmap r) 0 n (m\<lparr>vm_heap := copy_to (vm_heap m) (rf_addr r) v\<rparr>)"

definition ref_load :: "usize \<Rightarrow> vol_ref \<Rightarrow> vmem \<Rightarrow> u8 list" where
  "ref_load n r m = copy_from (vm_heap m) (rf_addr r) (unat n)"

definition array_to_slice :: "usize \<Rightarrow> vol_array_ref \<Rightarrow> vol_slice" where
  "array_to_slice n a = with_bitmap (ar_addr a) (ar_nelem a * n) (ar_bitmap a)"

definition array_of_slice :: "vol_slice \<Rightarrow> vol_array_ref" where
  "array_of_slice s = \<lparr>ar_addr = sl_addr s, ar_nelem = sl_size s, ar_bitmap = sl_bitmap s\<rparr>"

definition ref_at :: "usize \<Rightarrow> vol_array_ref \<Rightarrow> usize \<Rightarrow> vol_ref panics" where
  "ref_at n a index =
     (if index < ar_nelem a then
        let byteofs = n * index
        in Some \<lparr>rf_addr = ar_addr a + byteofs, rf_bitmap = bitmap_slice_at byteofs (ar_bitmap a)\<rparr>
      else None)"

definition array_load :: "usize \<Rightarrow> vol_array_ref \<Rightarrow> usize \<Rightarrow> vmem \<Rightarrow> u8 list panics" where
  "array_load n a index m = map_option (\<lambda>r. ref_load n r m) (ref_at n a index)"

definition array_store :: "usize \<Rightarrow> vol_array_ref \<Rightarrow> usize \<Rightarrow> u8 list \<Rightarrow> vmem \<Rightarrow> vmem panics" where
  "array_store n a index v m = Option.bind (ref_at n a index) (\<lambda>r. ref_store n r v m)"

text \<open>The loops that copy element by element: from \<open>src\<close> to \<open>dst\<close>, \<open>k\<close> elements of \<open>n\<close> bytes.\<close>

primrec copy_elements :: "nat \<Rightarrow> nat \<Rightarrow> u64 \<Rightarrow> u64 \<Rightarrow> heap \<Rightarrow> heap" where
  "copy_elements 0 n src dst h = h"
| "copy_elements (Suc k) n src dst h =
     copy_elements k n (src + of_nat n) (dst + of_nat n) (copy_to h dst (copy_from h src n))"

definition array_copy_to :: "usize \<Rightarrow> vol_array_ref \<Rightarrow> u64 \<Rightarrow> nat \<Rightarrow> vmem \<Rightarrow> (vmem \<times> nat) panics" where
  "array_copy_to n a buf buf_len m =
     (if n = 1 then
        let source = array_to_slice n a; amount = min buf_len (unat (sl_size source))
        in copy_from_volatile buf source amount m
      else
        let k = min buf_len (unat (ar_nelem a))
        in Some (m\<lparr>vm_heap := copy_elements k (unat n) (ar_addr a) buf (vm_heap m)\<rparr>, k))"

definition array_copy_from :: "usize \<Rightarrow> vol_array_ref \<Rightarrow> u64 \<Rightarrow> nat \<Rightarrow> vmem \<Rightarrow> vmem panics" where
  "array_copy_from n a buf buf_len m =
     (if n = 1 then
        let destination = array_to_slice n a; amount = min buf_len (unat (sl_size destination))
        in map_option fst (copy_to_volatile destination buf amount m)
      else
        let k = min buf_len (unat (ar_nelem a))
        in mark_dirty (ar_bitmap a) 0 (of_nat (k * unat n))
             (m\<lparr>vm_heap := copy_elements k (unat n) buf (ar_addr a) (vm_heap m)\<rparr>))"

definition array_copy_to_volatile_slice :: "usize \<Rightarrow> vol_array_ref \<Rightarrow> vol_slice \<Rightarrow> vmem \<Rightarrow> vmem panics" where
  "array_copy_to_volatile_slice n a s m =
     (let count = min (ar_nelem a * n) (sl_size s)
      in mark_dirty (sl_bitmap s) 0 count
           (m\<lparr>vm_heap := ptr_copy (ar_addr a) (sl_addr s) (unat count) (vm_heap m)\<rparr>))"

definition slice_copy_to_volatile_slice :: "vol_slice \<Rightarrow> vol_slice \<Rightarrow> vmem \<Rightarrow> vmem panics" where
  "slice_copy_to_volatile_slice s t m =
     (let count = min (sl_size s) (sl_size t)
      in mark_dirty (sl_bitmap t) 0 count
           (m\<lparr>vm_heap := ptr_copy (sl_addr s) (sl_addr t) (unat count) (vm_heap m)\<rparr>))"

text \<open>\<^verbatim>\<open>self.size / size_of::<T>()\<close> panics for a type without bytes.\<close>

definition slice_copy_to :: "usize \<Rightarrow> vol_slice \<Rightarrow> u64 \<Rightarrow> nat \<Rightarrow> vmem \<Rightarrow> (vmem \<times> nat) panics" where
  "slice_copy_to n s buf buf_len m =
     (if n = 1 then copy_from_volatile buf s (min buf_len (unat (sl_size s))) m
      else if n = 0 then None
      else case get_array_ref n s 0 (sl_size s div n) of
             Some (Ok source) \<Rightarrow> array_copy_to n source buf buf_len m
           | _ \<Rightarrow> None)"

definition slice_copy_from :: "usize \<Rightarrow> vol_slice \<Rightarrow> u64 \<Rightarrow> nat \<Rightarrow> vmem \<Rightarrow> vmem panics" where
  "slice_copy_from n s buf buf_len m =
     (if n = 1 then map_option fst (copy_to_volatile s buf (min buf_len (unat (sl_size s))) m)
      else if n = 0 then None
      else case get_array_ref n s 0 (sl_size s div n) of
             Some (Ok dest) \<Rightarrow> array_copy_from n dest buf buf_len m
           | _ \<Rightarrow> None)"

section \<open>Bytes in memory\<close>

lemma copy_to_Nil [simp]: "copy_to h p [] = h"
  by (simp add: copy_to_def)

lemma copy_from_0 [simp]: "copy_from h p 0 = []"
  by (simp add: copy_from_def)

lemma copy_from_add: "copy_from h p (n + k) = copy_from h p n @ copy_from h (p + of_nat n) k"
  by (rule nth_equalityI) (auto simp: nth_append)

lemma unat_sub_wrap:
  fixes d e :: u64
  shows "unat d < unat e \<Longrightarrow> unat (d - e) = 2 ^ 64 + unat d - unat e"
  by (simp add: unat_sub_if_size word_size)

lemma copy_to_append:
  assumes "length bs + length cs \<le> 2 ^ 64"
  shows "copy_to h p (bs @ cs) = copy_to (copy_to h p bs) (p + of_nat (length bs)) cs"
proof
  fix a
  let ?d = "a - p"
  show "copy_to h p (bs @ cs) a = copy_to (copy_to h p bs) (p + of_nat (length bs)) cs a"
  proof (cases "unat ?d < length bs")
    case True
    have "length cs \<le> unat (a - (p + of_nat (length bs)))"
    proof (cases "length bs < 2 ^ 64")
      case lt: True
      have "a - (p + of_nat (length bs)) = ?d - of_nat (length bs)" by (simp add: algebra_simps)
      moreover have "unat (of_nat (length bs) :: u64) = length bs" using lt by (intro unat_of_nat_small) simp
      ultimately have "unat (a - (p + of_nat (length bs))) = 2 ^ 64 + unat ?d - length bs"
        using True unat_sub_wrap [of ?d "of_nat (length bs)"] by presburger
      then show ?thesis using assms by simp
    qed (use assms in simp)
    then show ?thesis using True by (simp add: copy_to_def nth_append)
  next
    case False
    then have lt: "length bs < 2 ^ 64" using unat_bounds(4) [of ?d] by simp
    then have u: "unat (of_nat (length bs) :: u64) = length bs" by (intro unat_of_nat_small) simp
    then have "of_nat (length bs) \<le> ?d" using False by (simp add: word_le_nat_alt)
    then have "unat (?d - of_nat (length bs)) = unat ?d - length bs" using u by (simp add: unat_sub)
    moreover have "a - (p + of_nat (length bs)) = ?d - of_nat (length bs)" by (simp add: algebra_simps)
    ultimately have "unat (a - (p + of_nat (length bs))) = unat ?d - length bs" by presburger
    then show ?thesis using False by (auto simp: copy_to_def nth_append)
  qed
qed

text \<open>An address outside the written range keeps its byte.\<close>

lemma copy_to_outside:
  assumes "unat a < unat p \<or> unat p + length bs \<le> unat a" "unat p + length bs \<le> 2 ^ 64"
  shows "copy_to h p bs a = h a"
proof -
  have "length bs \<le> unat (a - p)"
  proof (cases "p \<le> a")
    case True
    then show ?thesis using assms by (auto simp: unat_sub word_le_nat_alt)
  next
    case False
    then have "unat (a - p) = 2 ^ 64 + unat a - unat p"
      using unat_sub_wrap [of a p] by (simp add: word_le_nat_alt)
    then show ?thesis using assms(2) by simp
  qed
  then show ?thesis by (simp add: copy_to_def)
qed

lemma copy_to_inside:
  assumes "i < length bs" "length bs \<le> 2 ^ 64"
  shows "copy_to h p bs (p + of_nat i) = bs ! i"
proof -
  have "unat (of_nat i :: u64) = i" using assms by (intro unat_of_nat_small) simp
  then show ?thesis using assms(1) by (simp add: copy_to_def)
qed

lemma copy_from_copy_to:
  assumes "length bs \<le> 2 ^ 64"
  shows "copy_from (copy_to h p bs) p (length bs) = bs"
  using assms by (intro nth_equalityI) (simp_all add: copy_to_inside)

lemma copy_from_apart:
  assumes "unat a + n \<le> unat p \<or> unat p + length bs \<le> unat a" "unat a + n \<le> 2 ^ 64" "unat p + length bs \<le> 2 ^ 64"
  shows "copy_from (copy_to h p bs) a n = copy_from h a n"
proof (rule nth_equalityI)
  fix i
  assume "i < length (copy_from (copy_to h p bs) a n)"
  then have i: "i < n" by simp
  then have "unat (a + of_nat i) = unat a + i" using assms(2) by (simp add: unat_word_ariths unat_of_nat)
  then show "copy_from (copy_to h p bs) a n ! i = copy_from h a n ! i"
    using assms i copy_to_outside [of "a + of_nat i" p bs h] by auto
qed simp

section \<open>The copying routines\<close>

text \<open>Source and destination do not overlap, are not null and do not wrap around.\<close>

definition copyable :: "u64 \<Rightarrow> u64 \<Rightarrow> nat \<Rightarrow> bool" where
  "copyable src dst n \<longleftrightarrow> src \<noteq> 0 \<and> dst \<noteq> 0 \<and> unat src + n \<le> 2 ^ 64 \<and> unat dst + n \<le> 2 ^ 64 \<and>
     (unat src + n \<le> unat dst \<or> unat dst + n \<le> unat src)"

text \<open>Where a copy of \<open>n\<close> bytes stands with \<open>left\<close> bytes to go.\<close>

definition progress :: "u64 \<Rightarrow> u64 \<Rightarrow> heap \<Rightarrow> nat \<Rightarrow> nat \<times> u64 \<times> u64 \<times> heap \<Rightarrow> bool" where
  "progress src dst h n s \<longleftrightarrow>
     (case s of (left, src', dst', h') \<Rightarrow>
        \<exists>k. k + left = n \<and> h' = ptr_copy src dst k h \<and>
          (left \<noteq> 0 \<longrightarrow> src' = src + of_nat k \<and> dst' = dst + of_nat k))"

lemma ptr_copy_add:
  assumes "copyable src dst (k + n)"
  shows "ptr_copy (src + of_nat k) (dst + of_nat k) n (ptr_copy src dst k h) = ptr_copy src dst (k + n) h"
proof (cases "n = 0")
  case False
  let ?h = "ptr_copy src dst k h"
  have b: "unat src + (k + n) \<le> 2 ^ 64" "unat dst + (k + n) \<le> 2 ^ 64"
    "unat src + (k + n) \<le> unat dst \<or> unat dst + (k + n) \<le> unat src"
    using assms by (auto simp: copyable_def)
  have "unat (src + of_nat k) = unat src + k" using b(1) False by (simp add: unat_word_ariths unat_of_nat)
  then have f: "copy_from ?h (src + of_nat k) n = copy_from h (src + of_nat k) n"
    using b copy_from_apart [of "src + of_nat k" n dst "copy_from h src k" h] by (auto simp: ptr_copy_def)
  have "ptr_copy src dst (k + n) h = copy_to h dst (copy_from h src k @ copy_from h (src + of_nat k) n)"
    by (simp add: ptr_copy_def copy_from_add)
  also have "\<dots> = copy_to ?h (dst + of_nat k) (copy_from h (src + of_nat k) n)"
    using b by (subst copy_to_append) (simp_all add: ptr_copy_def)
  finally show ?thesis unfolding f [symmetric] by (simp add: ptr_copy_def)
qed (simp add: ptr_copy_def)

declare copy_aligned.simps [simp del]

lemma copy_aligned_progress:
  assumes "copyable src dst n" "al \<in> {1, 2, 4, 8}" "progress src dst h n (left, src', dst', h')"
  shows "\<exists>s. copy_aligned al left src' dst' h' = Some s \<and> progress src dst h n s \<and> fst s < al"
  using assms(3)
proof (induction left arbitrary: src' dst' h' rule: less_induct)
  case (less left)
  show ?case
  proof (cases "left < al")
    case True
    then show ?thesis using less.prems by (simp add: copy_aligned.simps)
  next
    case False
    have al: "al \<noteq> 0" "al \<le> left" using assms(2) False by auto
    obtain k where k: "k + left = n" "h' = ptr_copy src dst k h" "src' = src + of_nat k" "dst' = dst + of_nat k"
      using less.prems al by (auto simp: progress_def)
    have c: "copyable src dst (k + al)" using assms(1) k(1) al(2) by (auto simp: copyable_def)
    have s: "copy_single al src' dst' h' = Some (ptr_copy src dst (k + al) h)"
      using assms(2) ptr_copy_add [OF c, of h] by (auto simp: copy_single_def k(2-4) ptr_copy_def)
    have p: "progress src dst h n (left - al, src' + of_nat al, dst' + of_nat al, ptr_copy src dst (k + al) h)"
      unfolding progress_def prod.case using k al(2) by (intro exI [of _ "k + al"]) simp
    show ?thesis
    proof (cases "left - al = 0")
      case True
      then have "progress src dst h n (0, src', dst', ptr_copy src dst (k + al) h)"
        using p by (simp add: progress_def)
      moreover have "copy_aligned al left src' dst' h' = Some (0, src', dst', ptr_copy src dst (k + al) h)"
        using s al True by (subst copy_aligned.simps) simp
      ultimately show ?thesis using al by auto
    next
      case nz: False
      then have "copy_aligned al left src' dst' h' =
          copy_aligned al (left - al) (src' + of_nat al) (dst' + of_nat al) (ptr_copy src dst (k + al) h)"
        using s al False by (subst copy_aligned.simps) simp
      then show ?thesis using less.IH [OF _ p] al by simp
    qed
  qed
qed

lemma alignment_zero: "alignment a = 0 \<longleftrightarrow> a = 0"
proof
  assume z: "alignment a = 0"
  have "alignment a = a AND - a" by (simp add: alignment_def not_eq_complement)
  then have "bit (a AND - a) n = False" for n using z by simp
  then have "a + - a = a OR - a" by (intro disjunctive_add) (metis bit_and_iff)
  then show "a = 0" by (metis add.right_inverse or_eq_0_iff)
qed (simp add: alignment_def)

lemma copy_aligned_slice_progress:
  assumes "copyable src dst n" "al \<in> {1, 2, 4, 8}" "progress src dst h n s"
  shows "\<exists>s'. copy_aligned_slice align al s = Some s' \<and> progress src dst h n s' \<and> (of_nat al \<le> align \<longrightarrow> fst s' < al)"
  using copy_aligned_progress [OF assms(1,2), of h] assms(3)
  by (cases s) (auto simp: copy_aligned_slice_def not_less)

lemma copy_slice_volatile_copies:
  assumes "copyable src dst n"
  shows "copy_slice_volatile dst src n h = Some (ptr_copy src dst n h)"
proof -
  let ?al = "min (alignment src) (alignment dst)"
  have "src \<noteq> 0" "dst \<noteq> 0" using assms by (simp_all add: copyable_def)
  then have "0 < ?al" using alignment_zero by (simp add: word_neq_0_conv [symmetric] min_def)
  then have al: "1 \<le> ?al" by (simp add: word_le_nat_alt word_less_nat_alt)
  have "progress src dst h n (n, src, dst, h)" by (auto simp: progress_def ptr_copy_def)
  from copy_aligned_slice_progress [OF assms _ this, of 8 ?al] obtain s1 where
    s1: "copy_aligned_slice ?al 8 (n, src, dst, h) = Some s1" "progress src dst h n s1" by auto
  from copy_aligned_slice_progress [OF assms _ s1(2), of 4 ?al] obtain s2 where
    s2: "copy_aligned_slice ?al 4 s1 = Some s2" "progress src dst h n s2" by auto
  from copy_aligned_slice_progress [OF assms _ s2(2), of 2 ?al] obtain s3 where
    s3: "copy_aligned_slice ?al 2 s2 = Some s3" "progress src dst h n s3" by auto
  from copy_aligned_slice_progress [OF assms _ s3(2), of 1 ?al] al obtain s4 where
    s4: "copy_aligned_slice ?al 1 s3 = Some s4" "progress src dst h n s4" "fst s4 = 0" by auto
  obtain src' dst' h' where "s4 = (0, src', dst', h')" using s4(3) by (cases s4) auto
  then show ?thesis using s1(1) s2(1) s3(1) s4 by (simp add: copy_slice_volatile_def Let_def progress_def)
qed

lemma copy_slice_copies: "copyable src dst n \<Longrightarrow> copy_slice dst src n h = Some (ptr_copy src dst n h, n)"
  by (simp add: copy_slice_def copy_slice_volatile_copies)

lemma copy_elements_copies:
  assumes "copyable src dst (k * n)"
  shows "copy_elements k n src dst h = ptr_copy src dst (k * n) h"
proof -
  have "copy_elements k n (src + of_nat j) (dst + of_nat j) (ptr_copy src dst j h) = ptr_copy src dst (j + k * n) h"
    if "copyable src dst (j + k * n)" for j
    using that
  proof (induction k arbitrary: j)
    case (Suc k)
    have c: "copyable src dst (j + n)" using Suc.prems by (auto simp: copyable_def)
    have "copyable src dst ((j + n) + k * n)" using Suc.prems by (simp add: add.assoc)
    from Suc.IH [OF this] show ?case
      using ptr_copy_add [OF c, of h] by (simp add: ptr_copy_def [of "src + of_nat j", symmetric] add.assoc)
  qed simp
  from this [of 0] show ?thesis using assms by (simp add: ptr_copy_def)
qed

section \<open>Slices of slices\<close>

text \<open>
  A slice lies in another: it starts some distance into it and ends within it, and its part of the dirty
  bitmap starts at the same distance.
\<close>

definition slice_wf :: "vol_slice \<Rightarrow> bool" where
  "slice_wf s \<longleftrightarrow> unat (sl_addr s) + unat (sl_size s) \<le> 2 ^ 64"

definition inside :: "vol_slice \<Rightarrow> vol_slice \<Rightarrow> bool" where
  "inside s t \<longleftrightarrow> (\<exists>d. unat d + unat (sl_size t) \<le> unat (sl_size s) \<and> sl_addr t = sl_addr s + d \<and>
     sl_bitmap t = bitmap_slice_at d (sl_bitmap s))"

lemma bitmap_slice_at_0 [simp]: "bitmap_slice_at 0 b = b"
  by (cases b) (simp_all add: bitmap_slice_at_def base_slice_at_def base_slice_new_def)

lemma bitmap_slice_at_add: "bitmap_slice_at d (bitmap_slice_at e b) = bitmap_slice_at (e + d) b"
  by (cases b) (simp_all add: bitmap_slice_at_def base_slice_at_def base_slice_new_def ac_simps)

lemma inside_refl: "inside s s"
  unfolding inside_def by (intro exI [of _ 0]) simp

lemma inside_trans:
  assumes "inside s t" "inside t u"
  shows "inside s u"
proof -
  obtain d e where d: "unat d + unat (sl_size t) \<le> unat (sl_size s)" "sl_addr t = sl_addr s + d"
      "sl_bitmap t = bitmap_slice_at d (sl_bitmap s)"
    and e: "unat e + unat (sl_size u) \<le> unat (sl_size t)" "sl_addr u = sl_addr t + e"
      "sl_bitmap u = bitmap_slice_at e (sl_bitmap t)" using assms by (auto simp: inside_def)
  have "unat d + unat e < 2 ^ 64 \<or> sl_size u = 0"
  proof -
    have "unat d + unat e \<le> unat (sl_size s)" using d(1) e(1) by simp
    also have "\<dots> < 2 ^ 64" by (rule unat_bounds)
    finally show ?thesis by simp
  qed
  moreover have "unat d + unat e \<le> unat (sl_size s)" using d(1) e(1) by simp
  ultimately have "unat (d + e) = unat d + unat e"
    using unat_bounds(4) [of "sl_size s"] by (intro unat_add_no_wrap) simp
  then show ?thesis
    unfolding inside_def using d e by (intro exI [of _ "d + e"]) (simp add: bitmap_slice_at_add add.assoc)
qed

lemma inside_wf:
  assumes "slice_wf s" "inside s t"
  shows "slice_wf t"
proof -
  obtain d where "unat d + unat (sl_size t) \<le> unat (sl_size s)" "sl_addr t = sl_addr s + d"
    using assms(2) by (auto simp: inside_def)
  moreover have "unat (sl_addr s + d) \<le> unat (sl_addr s) + unat d" by (simp add: unat_word_ariths)
  ultimately show ?thesis using assms(1) by (simp add: slice_wf_def)
qed

lemma insideI:
  assumes "unat d + unat n \<le> unat (sl_size s)"
  shows "inside s (with_bitmap (sl_addr s + d) n (bitmap_slice_at d (sl_bitmap s)))"
  unfolding inside_def using assms by (intro exI [of _ d]) (simp add: with_bitmap_def)

lemma subslice_Ok:
  "subslice s off n = Ok t \<longleftrightarrow>
     unat off + unat n \<le> unat (sl_size s) \<and> t = with_bitmap (sl_addr s + off) n (bitmap_slice_at off (sl_bitmap s))"
proof -
  have "unat (sl_size s) < 2 ^ 64" by (rule unat_bounds)
  then show ?thesis
    by (auto simp: subslice_def compute_end_offset_def compute_offset_def checked_add_def word_less_nat_alt
        unat_add_no_wrap not_less split: option.splits if_splits)
qed

lemma slice_offset_Ok:
  assumes "slice_wf s"
  shows "slice_offset s n = Ok t \<longleftrightarrow> unat n \<le> unat (sl_size s) \<and> unat (sl_addr s) + unat n < 2 ^ 64 \<and>
    t = with_bitmap (sl_addr s + n) (sl_size s - n) (bitmap_slice_at n (sl_bitmap s))"
  by (auto simp: slice_offset_def checked_add_def checked_sub_def word_le_nat_alt split: option.splits if_splits)

lemma subslice_inside: "subslice s off n = Ok t \<Longrightarrow> inside s t"
  by (auto simp: subslice_Ok intro: insideI)

lemma slice_offset_inside:
  assumes "slice_wf s" "slice_offset s n = Ok t"
  shows "inside s t"
proof -
  have "unat n + unat (sl_size s - n) \<le> unat (sl_size s)"
    using assms by (auto simp: slice_offset_Ok unat_sub word_le_nat_alt)
  from insideI [OF this] show ?thesis using assms by (simp add: slice_offset_Ok)
qed

lemma get_ref_inside:
  assumes "get_ref n s off = Some (Ok r)"
  shows "inside s (ref_to_slice n r)"
proof -
  obtain t where "subslice s off n = Ok t" "r = \<lparr>rf_addr = sl_addr t, rf_bitmap = sl_bitmap t\<rparr>"
    using assms by (auto simp: get_ref_def slice_get_slice_def split: result.splits if_splits)
  moreover from this have "ref_to_slice n r = t" by (auto simp: ref_to_slice_def subslice_Ok with_bitmap_def)
  ultimately show ?thesis using subslice_inside by simp
qed

lemma get_array_ref_inside:
  assumes "get_array_ref n s off k = Some (Ok a)"
  shows "inside s (array_to_slice n a)" "ar_nelem a = k" "unat k * unat n < 2 ^ 63"
proof -
  obtain t where t: "subslice s off (k * n) = Ok t" "a = \<lparr>ar_addr = sl_addr t, ar_nelem = k, ar_bitmap = sl_bitmap t\<rparr>"
    and b: "unat k * unat n < 2 ^ 63"
    using assms by (auto simp: get_array_ref_def checked_bytes_def slice_get_slice_def split: result.splits if_splits)
  then have "array_to_slice n a = t" by (auto simp: array_to_slice_def subslice_Ok with_bitmap_def)
  then show "inside s (array_to_slice n a)" "ar_nelem a = k" "unat k * unat n < 2 ^ 63"
    using subslice_inside [OF t(1)] t(2) b by simp_all
qed

lemma ref_at_inside:
  assumes "ref_at n a i = Some r" "unat (ar_nelem a) * unat n < 2 ^ 64"
  shows "inside (array_to_slice n a) (ref_to_slice n r)"
proof -
  have i: "unat i < unat (ar_nelem a)" and r: "r = \<lparr>rf_addr = ar_addr a + n * i, rf_bitmap = bitmap_slice_at (n * i) (ar_bitmap a)\<rparr>"
    using assms(1) by (auto simp: ref_at_def Let_def word_less_nat_alt split: if_splits)
  have le: "unat i * unat n + unat n \<le> unat (ar_nelem a) * unat n"
    using mult_le_mono1 [of "Suc (unat i)" "unat (ar_nelem a)" "unat n"] i by simp
  have "unat (ar_nelem a * n) = unat (ar_nelem a) * unat n" using assms(2) by (simp add: unat_word_ariths)
  moreover have "unat (n * i) = unat i * unat n" using assms(2) le by (simp add: unat_word_ariths mult.commute)
  ultimately have "unat (n * i) + unat n \<le> unat (sl_size (array_to_slice n a))"
    using le by (simp add: array_to_slice_def with_bitmap_def)
  from insideI [OF this] show ?thesis by (simp add: r ref_to_slice_def array_to_slice_def with_bitmap_def)
qed

text \<open>Everything that can be obtained from a slice, in any number of steps.\<close>

inductive derived :: "vol_slice \<Rightarrow> vol_slice \<Rightarrow> bool" for s where
  self: "derived s s"
| sub: "derived s t \<Longrightarrow> subslice t off n = Ok u \<Longrightarrow> derived s u"
| offset: "derived s t \<Longrightarrow> slice_offset t n = Ok u \<Longrightarrow> derived s u"
| split: "derived s t \<Longrightarrow> slice_split_at t n = Ok (u, v) \<Longrightarrow> w = u \<or> w = v \<Longrightarrow> derived s w"
| single: "derived s t \<Longrightarrow> get_ref n t off = Some (Ok r) \<Longrightarrow> derived s (ref_to_slice n r)"
| array: "derived s t \<Longrightarrow> get_array_ref n t off k = Some (Ok a) \<Longrightarrow> derived s (array_to_slice n a)"
| element: "derived s t \<Longrightarrow> get_array_ref n t off k = Some (Ok a) \<Longrightarrow> ref_at n a i = Some r \<Longrightarrow>
    derived s (ref_to_slice n r)"

inductive_cases derived_elims: "derived s t"

lemma split_at_inside:
  assumes "slice_wf t" "slice_split_at t n = Ok (u, v)"
  shows "inside t u" "inside t v"
proof -
  have "slice_offset t n = Ok v" "u = with_bitmap (sl_addr t) n (sl_bitmap t)"
    using assms(2) by (auto simp: slice_split_at_def split: result.splits)
  then show "inside t v" "inside t u"
    using slice_offset_inside [OF assms(1)] insideI [of 0 n t] assms(1) by (simp_all add: slice_offset_Ok)
qed

lemma derived_inside:
  assumes "slice_wf s"
  shows "derived s t \<Longrightarrow> inside s t"
proof (induction rule: derived.induct)
  case self
  show ?case by (rule inside_refl)
next
  case sub
  then show ?case using subslice_inside inside_trans by blast
next
  case offset
  then show ?case using slice_offset_inside inside_trans inside_wf [OF assms] by blast
next
  case split
  then show ?case using split_at_inside inside_trans inside_wf [OF assms] by blast
next
  case single
  then show ?case using get_ref_inside inside_trans by blast
next
  case array
  then show ?case using get_array_ref_inside(1) inside_trans by blast
next
  case (element t n off k a i r)
  note a = get_array_ref_inside [OF element.hyps(2)]
  have "inside (array_to_slice n a) (ref_to_slice n r)" using ref_at_inside [OF element.hyps(3)] a(2,3) by simp
  then show ?case using inside_trans [OF element.IH inside_trans [OF a(1)]] by simp
qed


section \<open>Writes and the dirty bitmap\<close>

text \<open>
  What every write through a slice comes down to: some bytes are put at the start of the slice and as many
  are marked in its part of the bitmap.
\<close>

definition wrote :: "vol_slice \<Rightarrow> u8 list \<Rightarrow> vmem \<Rightarrow> vmem \<Rightarrow> bool" where
  "wrote t bs m m' \<longleftrightarrow> length bs \<le> unat (sl_size t) \<and>
     mark_dirty (sl_bitmap t) 0 (of_nat (length bs)) (m\<lparr>vm_heap := copy_to (vm_heap m) (sl_addr t) bs\<rparr>) = Some m'"

definition dirty_at :: "bitmap_slice \<Rightarrow> usize \<Rightarrow> vmem \<Rightarrow> bool panics" where
  "dirty_at b off m =
     (case b of
        NoBitmap \<Rightarrow> unit_dirty_at off ()
      | RefSlice i base \<Rightarrow> base_dirty_at atomic_dirty_at off (base_slice_new (vm_bitmaps m i) base))"

text \<open>The bitmap of a slice, if there is one, is well-formed and as long as the slice.\<close>

definition bitmap_covers :: "vol_slice \<Rightarrow> vmem \<Rightarrow> bool" where
  "bitmap_covers s m \<longleftrightarrow>
     (case sl_bitmap s of
        NoBitmap \<Rightarrow> True
      | RefSlice i base \<Rightarrow>
          bitmap_wf (vm_bitmaps m i) \<and> unat base + unat (sl_size s) \<le> unat (ab_byte_size (vm_bitmaps m i)))"

lemma bitmap_covers_inside:
  assumes "bitmap_covers s m" "inside s t"
  shows "bitmap_covers t m"
proof -
  obtain d where d: "unat d + unat (sl_size t) \<le> unat (sl_size s)" "sl_bitmap t = bitmap_slice_at d (sl_bitmap s)"
    using assms(2) by (auto simp: inside_def)
  show ?thesis
  proof (cases "sl_bitmap s")
    case (RefSlice i base)
    then have b: "unat base + unat d + unat (sl_size t) \<le> unat (ab_byte_size (vm_bitmaps m i))"
      and wf: "bitmap_wf (vm_bitmaps m i)" using assms(1) d(1) by (simp_all add: bitmap_covers_def)
    have "unat (base + d) \<le> unat base + unat d" by (simp add: unat_word_ariths)
    then show ?thesis using b wf RefSlice d(2)
      by (simp add: bitmap_covers_def bitmap_slice_at_def base_slice_at_def base_slice_new_def)
  qed (use d(2) in \<open>simp add: bitmap_covers_def bitmap_slice_at_def\<close>)
qed

lemma page_tracked_byte:
  assumes "bitmap_wf b" "unat off < unat (ab_byte_size b)"
  shows "page_tracked b off"
proof -
  have p: "ab_page_size b \<noteq> 0" and s: "ab_size b = div_ceil (ab_byte_size b) (ab_page_size b)"
    using assms(1) by (simp_all add: bitmap_wf_def)
  let ?p = "unat (ab_page_size b)" and ?o = "unat off" and ?n = "unat (ab_byte_size b)"
  have pos: "0 < ?p" using p by (simp add: unat_gt_0)
  have "?o div ?p * ?p \<le> ?o" by simp
  then have "Suc (?o div ?p) * ?p \<le> ?n + ?p - 1" unfolding mult_Suc using assms(2) pos by linarith
  then have "Suc (?o div ?p) \<le> (?n + ?p - 1) div ?p" using pos by (simp only: less_eq_div_iff_mult_less_eq)
  then show ?thesis unfolding page_tracked_def s unat_div_ceil [OF p] by simp
qed

lemma mark_dirty_spec:
  assumes "bitmap_covers t m"
  obtains f where "mark_dirty (sl_bitmap t) off len m = Some (m\<lparr>vm_bitmaps := f\<rparr>)"
    "\<And>s. bitmap_covers s m \<Longrightarrow> bitmap_covers s (m\<lparr>vm_bitmaps := f\<rparr>)"
    "\<And>b x. dirty_at b x m = Some True \<Longrightarrow> dirty_at b x (m\<lparr>vm_bitmaps := f\<rparr>) = Some True"
proof (cases "sl_bitmap t")
  case NoBitmap
  then show thesis using that [of "vm_bitmaps m"] by (simp add: mark_dirty_def)
next
  case (RefSlice i base)
  have wf: "bitmap_wf (vm_bitmaps m i)" using assms RefSlice by (simp add: bitmap_covers_def)
  from set_reset_addr_range_spec [OF wf, of "base + off" len True] obtain w where
    w: "atomic_mark_dirty (base + off) len (vm_bitmaps m i) = Some (vm_bitmaps m i\<lparr>ab_map := w\<rparr>)"
      "bitmap_wf (vm_bitmaps m i\<lparr>ab_map := w\<rparr>)" by (auto simp: atomic_mark_dirty_def set_addr_range_def)
  let ?f = "(vm_bitmaps m)(i := vm_bitmaps m i\<lparr>ab_map := w\<rparr>)"
  show thesis
  proof (rule that [of ?f])
    show "mark_dirty (sl_bitmap t) off len m = Some (m\<lparr>vm_bitmaps := ?f\<rparr>)"
      using w(1) RefSlice by (simp add: mark_dirty_def base_mark_dirty_def base_slice_new_def)
    show "bitmap_covers s (m\<lparr>vm_bitmaps := ?f\<rparr>)" if "bitmap_covers s m" for s
      using that w(2) by (auto simp: bitmap_covers_def split: bitmap_slice.splits)
    show "dirty_at b x (m\<lparr>vm_bitmaps := ?f\<rparr>) = Some True" if "dirty_at b x m = Some True" for b x
      using that atomic.mark_keeps [OF wf w(1)]
      by (auto simp: dirty_at_def base_dirty_at_def base_slice_new_def split: bitmap_slice.splits)
  qed
qed

lemma mark_dirty_marks:
  assumes "bitmap_covers t m" "mark_dirty (sl_bitmap t) 0 len m = Some m'" "sl_bitmap t \<noteq> NoBitmap"
    "k < unat len" "unat len \<le> unat (sl_size t)"
  shows "dirty_at (sl_bitmap t) (of_nat k) m' = Some True"
proof (cases "sl_bitmap t")
  case (RefSlice i base)
  let ?b = "vm_bitmaps m i"
  have wf: "bitmap_wf ?b" and c: "unat base + unat (sl_size t) \<le> unat (ab_byte_size ?b)"
    using assms(1) RefSlice by (simp_all add: bitmap_covers_def)
  obtain b' where b': "atomic_mark_dirty base len ?b = Some b'" "m' = m\<lparr>vm_bitmaps := (vm_bitmaps m)(i := b')\<rparr>"
    using assms(2) RefSlice by (auto simp: mark_dirty_def base_mark_dirty_def base_slice_new_def)
  have n: "unat base + k < unat (ab_byte_size ?b)" using c assms(4,5) by simp
  then have lt: "unat base + k < 2 ^ 64" using unat_bounds(4) [of "ab_byte_size ?b"] by simp
  then have "unat (base + of_nat k) = unat base + k" by (simp add: unat_word_ariths unat_of_nat)
  then have "page_tracked ?b (base + of_nat k)" using page_tracked_byte [OF wf] n by simp
  then show ?thesis
    using atomic.mark_marks [OF wf b'(1) assms(4) lt] RefSlice b'(2)
    by (simp add: dirty_at_def base_dirty_at_def base_slice_new_def)
qed (use assms(3) in simp)

text \<open>
  What a change of memory has to respect for the slice \<open>s\<close> of a whole region: only bytes of the region
  change, those that do are dirty afterwards, and dirty bytes stay dirty.
\<close>

definition tracked_change :: "vol_slice \<Rightarrow> vmem \<Rightarrow> vmem \<Rightarrow> bool" where
  "tracked_change s m m' \<longleftrightarrow> (\<forall>u. bitmap_covers u m \<longrightarrow> bitmap_covers u m') \<and>
     (\<forall>b x. dirty_at b x m = Some True \<longrightarrow> dirty_at b x m' = Some True) \<and>
     (\<forall>a. vm_heap m' a \<noteq> vm_heap m a \<longrightarrow>
        (\<exists>k < unat (sl_size s). a = sl_addr s + of_nat k \<and>
           (sl_bitmap s \<noteq> NoBitmap \<longrightarrow> dirty_at (sl_bitmap s) (of_nat k) m' = Some True)))"

lemma tracked_change_refl: "tracked_change s m m"
  by (simp add: tracked_change_def)

lemma tracked_change_trans:
  assumes "tracked_change s m m'" "tracked_change s m' m''"
  shows "tracked_change s m m''"
  unfolding tracked_change_def
proof (intro conjI allI impI)
  fix a
  assume ne: "vm_heap m'' a \<noteq> vm_heap m a"
  show "\<exists>k<unat (sl_size s). a = sl_addr s + of_nat k \<and>
      (sl_bitmap s \<noteq> NoBitmap \<longrightarrow> dirty_at (sl_bitmap s) (of_nat k) m'' = Some True)"
  proof (cases "vm_heap m'' a = vm_heap m' a")
    case True
    then have "vm_heap m' a \<noteq> vm_heap m a" using ne by simp
    then show ?thesis using assms unfolding tracked_change_def by blast
  next
    case False
    then show ?thesis using assms(2) unfolding tracked_change_def by blast
  qed
qed (use assms in \<open>simp_all add: tracked_change_def\<close>)

lemma dirty_at_slice_at: "dirty_at (bitmap_slice_at d b) x m = dirty_at b (d + x) m"
  by (cases b) (simp_all add: dirty_at_def bitmap_slice_at_def base_slice_at_def base_slice_new_def base_dirty_at_def
      add.assoc unit_dirty_at_def)

lemma wrote_total:
  assumes "bitmap_covers t m" "length bs \<le> unat (sl_size t)"
  shows "\<exists>m'. wrote t bs m m'"
proof -
  have "bitmap_covers t (m\<lparr>vm_heap := copy_to (vm_heap m) (sl_addr t) bs\<rparr>)"
    using assms(1) by (simp add: bitmap_covers_def split: bitmap_slice.splits)
  then show ?thesis by (rule mark_dirty_spec) (use assms(2) in \<open>auto simp: wrote_def\<close>)
qed

lemma wrote_heap:
  assumes "wrote t bs m m'"
  shows "vm_heap m' = copy_to (vm_heap m) (sl_addr t) bs"
  using assms by (auto simp: wrote_def mark_dirty_def split: bitmap_slice.splits)

lemma wrote_tracked:
  assumes "inside s t" "bitmap_covers s m" "wrote t bs m m'"
  shows "tracked_change s m m'"
proof -
  let ?m = "m\<lparr>vm_heap := copy_to (vm_heap m) (sl_addr t) bs\<rparr>"
  have len: "length bs \<le> unat (sl_size t)" and mk: "mark_dirty (sl_bitmap t) 0 (of_nat (length bs)) ?m = Some m'"
    using assms(3) by (simp_all add: wrote_def)
  have cs: "bitmap_covers s ?m" using assms(2) by (simp add: bitmap_covers_def split: bitmap_slice.splits)
  then have ct: "bitmap_covers t ?m" by (rule bitmap_covers_inside) (rule assms(1))
  have l64: "length bs < 2 ^ 64" using len unat_bounds(4) [of "sl_size t"] by simp
  then have ul: "unat (of_nat (length bs) :: u64) = length bs" by (intro unat_of_nat_small) simp
  obtain f where f: "m' = ?m\<lparr>vm_bitmaps := f\<rparr>" "\<And>u. bitmap_covers u ?m \<Longrightarrow> bitmap_covers u m'"
    "\<And>b x. dirty_at b x ?m = Some True \<Longrightarrow> dirty_at b x m' = Some True"
    using mark_dirty_spec [OF ct, of 0 "of_nat (length bs)"] mk by (metis option.inject)
  have cm: "bitmap_covers u ?m \<longleftrightarrow> bitmap_covers u m" for u
    by (simp add: bitmap_covers_def split: bitmap_slice.split)
  obtain d where d: "unat d + unat (sl_size t) \<le> unat (sl_size s)" "sl_addr t = sl_addr s + d"
    "sl_bitmap t = bitmap_slice_at d (sl_bitmap s)" using assms(1) by (auto simp: inside_def)
  have dm: "dirty_at b x ?m = dirty_at b x m" for b x
    by (simp add: dirty_at_def split: bitmap_slice.split)
  have "\<exists>k<unat (sl_size s). a = sl_addr s + of_nat k \<and>
      (sl_bitmap s \<noteq> NoBitmap \<longrightarrow> dirty_at (sl_bitmap s) (of_nat k) m' = Some True)"
    if ne: "vm_heap m' a \<noteq> vm_heap m a" for a
  proof -
    let ?k = "unat (a - sl_addr t)"
    have k: "?k < length bs" using ne f(1) by (auto simp: copy_to_def split: if_splits)
    have "sl_bitmap t \<noteq> NoBitmap" if "sl_bitmap s \<noteq> NoBitmap"
      using that d(3) by (cases "sl_bitmap s") (simp_all add: bitmap_slice_at_def)
    then have "sl_bitmap s \<noteq> NoBitmap \<longrightarrow> dirty_at (sl_bitmap s) (of_nat (unat d + ?k)) m' = Some True"
      using mark_dirty_marks [OF ct mk, of ?k] k ul len d(3) by (simp add: dirty_at_slice_at)
    moreover have "a = sl_addr s + of_nat (unat d + ?k)" using d(2) by simp
    ultimately show ?thesis using k len d(1) by (intro exI [of _ "unat d + ?k"]) simp
  qed
  then show ?thesis unfolding tracked_change_def using f(2,3) dm cm by simp
qed

lemma tracked_change_inside:
  assumes "inside s t" "tracked_change t m m'"
  shows "tracked_change s m m'"
proof -
  obtain d where d: "unat d + unat (sl_size t) \<le> unat (sl_size s)" "sl_addr t = sl_addr s + d"
    "sl_bitmap t = bitmap_slice_at d (sl_bitmap s)" using assms(1) by (auto simp: inside_def)
  have nb: "sl_bitmap t \<noteq> NoBitmap" if "sl_bitmap s \<noteq> NoBitmap"
    using that d(3) by (cases "sl_bitmap s") (simp_all add: bitmap_slice_at_def)
  have "\<exists>k<unat (sl_size s). a = sl_addr s + of_nat k \<and>
      (sl_bitmap s \<noteq> NoBitmap \<longrightarrow> dirty_at (sl_bitmap s) (of_nat k) m' = Some True)"
    if ne: "vm_heap m' a \<noteq> vm_heap m a" for a
  proof -
    obtain k where k: "k < unat (sl_size t)" "a = sl_addr t + of_nat k"
      "sl_bitmap t \<noteq> NoBitmap \<Longrightarrow> dirty_at (sl_bitmap t) (of_nat k) m' = Some True"
      using assms(2) ne unfolding tracked_change_def by blast
    then show ?thesis using d nb by (intro exI [of _ "unat d + k"]) (simp add: dirty_at_slice_at add.assoc)
  qed
  then show ?thesis using assms(2) unfolding tracked_change_def by blast
qed

text \<open>Every operation that writes does so in this way.\<close>

lemma ref_store_wrote: "length v = unat n \<Longrightarrow> ref_store n r v m = Some m' \<longleftrightarrow> wrote (ref_to_slice n r) v m m'"
  by (simp add: ref_store_def wrote_def ref_to_slice_def with_bitmap_def)

lemma copy_to_volatile_wrote:
  assumes "copyable src (sl_addr s) k" "k \<le> unat (sl_size s)"
  shows "copy_to_volatile s src k m = Some (m', c) \<longleftrightarrow> wrote s (copy_from (vm_heap m) src k) m m' \<and> c = k"
  using assms copy_slice_copies [OF assms(1), of "vm_heap m"] by (auto simp: copy_to_volatile_def wrote_def ptr_copy_def)

lemma slice_copy_to_volatile_slice_wrote:
  "slice_copy_to_volatile_slice s t m = Some m' \<longleftrightarrow>
     wrote t (copy_from (vm_heap m) (sl_addr s) (unat (min (sl_size s) (sl_size t)))) m m'"
  by (auto simp: slice_copy_to_volatile_slice_def wrote_def Let_def ptr_copy_def min_def word_le_nat_alt)

lemma array_copy_to_volatile_slice_wrote:
  "array_copy_to_volatile_slice n a t m = Some m' \<longleftrightarrow>
     wrote t (copy_from (vm_heap m) (ar_addr a) (unat (min (ar_nelem a * n) (sl_size t)))) m m'"
  by (auto simp: array_copy_to_volatile_slice_def wrote_def Let_def ptr_copy_def min_def word_le_nat_alt)

lemma array_copy_from_wrote:
  assumes "copyable buf (ar_addr a) (min len (unat (ar_nelem a)) * unat n)" "unat (ar_nelem a) * unat n < 2 ^ 64"
  shows "array_copy_from n a buf len m = Some m' \<longleftrightarrow>
    wrote (array_to_slice n a) (copy_from (vm_heap m) buf (min len (unat (ar_nelem a)) * unat n)) m m'"
proof -
  let ?k = "min len (unat (ar_nelem a))"
  have u: "unat (ar_nelem a * n) = unat (ar_nelem a) * unat n" using assms(2) by (simp add: unat_word_ariths)
  have f: "sl_size (array_to_slice n a) = ar_nelem a * n" "sl_addr (array_to_slice n a) = ar_addr a"
    "sl_bitmap (array_to_slice n a) = ar_bitmap a" by (simp_all add: array_to_slice_def with_bitmap_def)
  have le: "?k * unat n \<le> unat (ar_nelem a * n)" unfolding u by (intro mult_le_mono1) simp
  show ?thesis
  proof (cases "n = 1")
    case True
    then have "copyable buf (sl_addr (array_to_slice n a)) ?k" using assms(1) f by simp
    from copy_to_volatile_wrote [OF this, of m] show ?thesis using True f le
      by (auto simp: array_copy_from_def Let_def)
  next
    case False
    then show ?thesis using copy_elements_copies [OF assms(1), of "vm_heap m"] f le
      by (auto simp: array_copy_from_def Let_def wrote_def ptr_copy_def)
  qed
qed

lemma slice_copy_from_wrote:
  assumes "n \<noteq> 0" "unat (sl_size s) < 2 ^ 63" "copyable buf (sl_addr s) (min len (unat (sl_size s) div unat n) * unat n)"
  shows "slice_copy_from n s buf len m = Some m' \<longleftrightarrow>
    wrote s (copy_from (vm_heap m) buf (min len (unat (sl_size s) div unat n) * unat n)) m m'"
proof (cases "n = 1")
  case True
  then show ?thesis using assms(3) copy_to_volatile_wrote [of buf s "min len (unat (sl_size s))" m]
    by (auto simp: slice_copy_from_def)
next
  case False
  let ?k = "sl_size s div n" and ?j = "min len (unat (sl_size s) div unat n) * unat n"
  have uk: "unat ?k = unat (sl_size s) div unat n" by (simp add: unat_div)
  have b: "unat ?k * unat n \<le> unat (sl_size s)" unfolding uk by simp
  have ukn: "unat (?k * n) = unat ?k * unat n" using b assms(2) by (simp add: unat_word_ariths)
  define a where "a = \<lparr>ar_addr = sl_addr s, ar_nelem = ?k, ar_bitmap = sl_bitmap s\<rparr>"
  have "unat ?k \<le> unat (sl_size s)" unfolding uk by simp
  then have "checked_bytes n ?k = Ok (?k * n)" using assms(2) b by (simp add: checked_bytes_def)
  moreover have "subslice s 0 (?k * n) = Ok (with_bitmap (sl_addr s) (?k * n) (sl_bitmap s))"
    using b ukn by (simp add: subslice_Ok)
  ultimately have "get_array_ref n s 0 ?k = Some (Ok a)"
    by (simp add: get_array_ref_def slice_get_slice_def with_bitmap_def a_def)
  then have "slice_copy_from n s buf len m = array_copy_from n a buf len m"
    using False assms(1) by (simp add: slice_copy_from_def)
  moreover have "array_copy_from n a buf len m = Some m' \<longleftrightarrow> wrote (array_to_slice n a) (copy_from (vm_heap m) buf ?j) m m'"
    using array_copy_from_wrote [of buf a len n m m'] assms(3) le_less_trans [OF b, of "2 ^ 64"] assms(2) uk
    by (simp add: a_def)
  moreover have j: "?j \<le> unat ?k * unat n" unfolding uk by (intro mult_le_mono1) simp
  have "wrote (array_to_slice n a) (copy_from (vm_heap m) buf ?j) m m' \<longleftrightarrow> wrote s (copy_from (vm_heap m) buf ?j) m m'"
    using j order_trans [OF j b] ukn by (simp add: wrote_def array_to_slice_def with_bitmap_def a_def del: mult_le_cancel2)
  ultimately show ?thesis by simp
qed

lemmas wrote_rules = ref_store_wrote copy_to_volatile_wrote slice_copy_to_volatile_slice_wrote
  array_copy_to_volatile_slice_wrote array_copy_from_wrote slice_copy_from_wrote

section \<open>Properties\<close>

text \<open>
  C25.  No slice, reference or array obtained from a slice, by any number of steps, reaches outside it.  Each of its
  bytes is a byte of the original slice, it does not wrap around the address space, and its part of the
  dirty bitmap starts as far into the bitmap of the original as it starts in the original.
\<close>

theorem slices_stay_inside:
  assumes "slice_wf s" "derived s t"
  shows "slice_wf t \<and>
    (\<exists>d. unat d + unat (sl_size t) \<le> unat (sl_size s) \<and> sl_addr t = sl_addr s + d \<and>
       sl_bitmap t = bitmap_slice_at d (sl_bitmap s))"
  using derived_inside [OF assms] inside_wf [OF assms(1)] by (auto simp: inside_def)

theorem slices_stay_inside_witness:
  "slice_wf (with_bitmap 0x7008 4 (RefSlice 0 8)) \<and>
   (\<exists>d. unat d + 4 \<le> 0x1000 \<and> (0x7008 :: u64) = 0x7000 + d \<and> RefSlice 0 8 = bitmap_slice_at d (RefSlice 0 0))"
proof -
  have s: "slice_wf (with_bitmap 0x7000 0x1000 (RefSlice 0 0))" by (simp add: slice_wf_def with_bitmap_def)
  have "derived (with_bitmap 0x7000 0x1000 (RefSlice 0 0)) (with_bitmap 0x7008 4 (RefSlice 0 8))"
    by (rule derived.sub [OF derived.self, of _ 8 4])
      (simp add: subslice_Ok with_bitmap_def bitmap_slice_at_def base_slice_at_def base_slice_new_def)
  from slices_stay_inside [OF s this] show ?thesis
    by (simp add: with_bitmap_def bitmap_slice_at_def base_slice_at_def base_slice_new_def)
qed

text \<open>
  C30.  The copying routines copy.  For source and destination that do not overlap, the loop that copies in the
  largest units the alignment allows, the routine that chooses between that loop and a block copy, and
  the loops over the elements of an array all leave memory as one copy of all the bytes would; the loop
  in units takes care of every alignment and every length.
\<close>

theorem copies_agree:
  assumes "copyable src dst n" "k * e = n"
  shows "copy_slice_volatile dst src n h = Some (copy_to h dst (copy_from h src n)) \<and>
    copy_slice dst src n h = Some (copy_to h dst (copy_from h src n), n) \<and>
    copy_elements k e src dst h = copy_to h dst (copy_from h src n)"
  using copy_slice_volatile_copies [OF assms(1)] copy_slice_copies [OF assms(1)] copy_elements_copies [of src dst k e] assms
  by (simp add: ptr_copy_def)

theorem copies_agree_witness:
  "copy_slice_volatile 0x2002 0x1004 7 (\<lambda>a. ucast a) = Some (copy_to (\<lambda>a. ucast a) 0x2002 [4, 5, 6, 7, 8, 9, 10])"
proof -
  have c: "copyable 0x1004 0x2002 7" by (simp add: copyable_def)
  have "copy_from (\<lambda>a. ucast a) 0x1004 7 = [4, 5, 6, 7, 8, 9, 10 :: u8]" by (simp add: copy_from_def upt_rec)
  then show ?thesis using copies_agree [OF c, of 7 1 "\<lambda>a. ucast a"] by simp
qed

end
