(* ===== verification/Volatile_Io.thy ===== *)
theory Volatile_Io
  imports Volatile_Memory "HOL-Library.Extended_Nat"
begin

text \<open>
  Reading into and writing from volatile slices (\<^verbatim>\<open>vm-memory/src/io.rs\<close>), and \<^verbatim>\<open>Bytes<usize>\<close> for
  \<^verbatim>\<open>VolatileSlice\<close> (\<^verbatim>\<open>vm-memory/src/volatile_memory.rs\<close>), which is built on it.

  An operation of the traits \<^verbatim>\<open>ReadVolatile\<close> and \<^verbatim>\<open>WriteVolatile\<close> takes the object and memory to a
  result, the object and memory afterwards.  The loops that retry may run forever when the object keeps
  failing, so they are partial: \<open>None\<close> is a panic or a loop that does not end.  The locales
  \<open>volatile_source\<close> and \<open>volatile_sink\<close> are the contracts of the two traits; the default methods are
  proved correct once, on the contracts.  Files and sockets are reached through functions of Windows,
  which are parameters.
\<close>

type_synonym ('s, 'a) io_step = "'s \<times> vmem \<Rightarrow> ((vol_error, 'a) result \<times> 's \<times> vmem) panics"

section \<open>The traits and their default methods\<close>

partial_function (option) retry_eintr :: "('s, 'a) io_step \<Rightarrow> ('s, 'a) io_step" where
  "retry_eintr io_call st =
     Option.bind (io_call st) (\<lambda>(r, st').
       if r = Err (IOError IoInterrupted) then retry_eintr io_call st' else Some (r, st'))"

partial_function (option) read_exact_loop :: "(vol_slice \<Rightarrow> ('s, usize) io_step) \<Rightarrow> vol_slice \<Rightarrow> ('s, unit) io_step" where
  "read_exact_loop rd partial_buf st =
     (if slice_is_empty partial_buf then Some (Ok (), st)
      else Option.bind (retry_eintr (rd partial_buf) st) (\<lambda>(r, st').
        case r of
          Err e \<Rightarrow> Some (Err e, st')
        | Ok bytes_read \<Rightarrow>
            if bytes_read = 0 then Some (Err (IOError IoUnexpectedEof), st')
            else case slice_offset partial_buf bytes_read of
                   Err e \<Rightarrow> Some (Err e, st')
                 | Ok rest \<Rightarrow> read_exact_loop rd rest st'))"

definition default_read_exact_volatile :: "(vol_slice \<Rightarrow> ('s, usize) io_step) \<Rightarrow> vol_slice \<Rightarrow> ('s, unit) io_step" where
  "default_read_exact_volatile rd buf st =
     (case slice_offset buf 0 of Err e \<Rightarrow> Some (Err e, st) | Ok partial_buf \<Rightarrow> read_exact_loop rd partial_buf st)"

partial_function (option) write_all_loop :: "(vol_slice \<Rightarrow> ('s, usize) io_step) \<Rightarrow> vol_slice \<Rightarrow> ('s, unit) io_step" where
  "write_all_loop wr partial_buf st =
     (if slice_is_empty partial_buf then Some (Ok (), st)
      else Option.bind (retry_eintr (wr partial_buf) st) (\<lambda>(r, st').
        case r of
          Err e \<Rightarrow> Some (Err e, st')
        | Ok bytes_written \<Rightarrow>
            if bytes_written = 0 then Some (Err (IOError IoWriteZero), st')
            else case slice_offset partial_buf bytes_written of
                   Err e \<Rightarrow> Some (Err e, st')
                 | Ok rest \<Rightarrow> write_all_loop wr rest st'))"

definition default_write_all_volatile :: "(vol_slice \<Rightarrow> ('s, usize) io_step) \<Rightarrow> vol_slice \<Rightarrow> ('s, unit) io_step" where
  "default_write_all_volatile wr buf st =
     (case slice_offset buf 0 of Err e \<Rightarrow> Some (Err e, st) | Ok partial_buf \<Rightarrow> write_all_loop wr partial_buf st)"

section \<open>Buffers of the caller\<close>

text \<open>\<^verbatim>\<open>&[u8]\<close> and \<^verbatim>\<open>&mut [u8]\<close>: both advance past the bytes that were copied.\<close>

record byte_slice =
  bb_ptr :: u64
  bb_len :: usize

definition bytes_split_at :: "byte_slice \<Rightarrow> usize \<Rightarrow> byte_slice panics" where
  "bytes_split_at b mid =
     (if mid \<le> bb_len b then Some \<lparr>bb_ptr = bb_ptr b + mid, bb_len = bb_len b - mid\<rparr> else None)"

definition bytes_read_volatile :: "vol_slice \<Rightarrow> (byte_slice, usize) io_step" where
  "bytes_read_volatile buf st =
     (case st of (self, m) \<Rightarrow>
        let amount = min (sl_size buf) (bb_len self)
        in case copy_to_volatile buf (bb_ptr self) (unat amount) m of
             None \<Rightarrow> None
           | Some (m', count) \<Rightarrow>
               map_option (\<lambda>self'. (Ok (of_nat count), self', m')) (bytes_split_at self (of_nat count)))"

definition bytes_read_exact_volatile :: "vol_slice \<Rightarrow> (byte_slice, unit) io_step" where
  "bytes_read_exact_volatile buf st =
     (case st of (self, m) \<Rightarrow>
        if bb_len self < sl_size buf then Some (Err (IOError IoUnexpectedEof), st)
        else map_option (\<lambda>(r, st'). (case r of Ok _ \<Rightarrow> Ok () | Err e \<Rightarrow> Err e, st')) (bytes_read_volatile buf st))"

definition bytes_write_volatile :: "vol_slice \<Rightarrow> (byte_slice, usize) io_step" where
  "bytes_write_volatile buf st =
     (case st of (self, m) \<Rightarrow>
        let amount = min (sl_size buf) (bb_len self)
        in case copy_from_volatile (bb_ptr self) buf (unat amount) m of
             None \<Rightarrow> None
           | Some (m', count) \<Rightarrow>
               map_option (\<lambda>self'. (Ok (of_nat count), self', m')) (bytes_split_at self (of_nat count)))"

definition bytes_write_all_volatile :: "vol_slice \<Rightarrow> (byte_slice, unit) io_step" where
  "bytes_write_all_volatile buf st =
     map_option
       (\<lambda>(r, st'). (case r of
                      Err e \<Rightarrow> Err e
                    | Ok n \<Rightarrow> if n = sl_size buf then Ok () else Err (IOError IoWriteZero), st'))
       (bytes_write_volatile buf st)"

text \<open>\<^verbatim>\<open>Vec<u8>\<close>: its storage is reached through it alone, so it is its contents.\<close>

definition vec_write_volatile :: "vol_slice \<Rightarrow> (u8 list, usize) io_step" where
  "vec_write_volatile buf st =
     (case st of (self, m) \<Rightarrow>
        let count = sl_size buf;
            copied = copy_from (vm_heap m) (sl_addr buf) (unat count)
        in if length copied = unat count then Some (Ok count, self @ copied, m) else None)"

text \<open>\<^verbatim>\<open>Cursor\<close>: a buffer with a position; the position may lie beyond the end.\<close>

record byte_cursor =
  cu_inner :: byte_slice
  cu_pos :: u64

definition cursor_rest :: "byte_cursor \<Rightarrow> byte_slice panics" where
  "cursor_rest c = bytes_split_at (cu_inner c) (min (cu_pos c) (bb_len (cu_inner c)))"

definition cursor_read_volatile :: "vol_slice \<Rightarrow> (byte_cursor, usize) io_step" where
  "cursor_read_volatile buf st =
     (case st of (self, m) \<Rightarrow>
        Option.bind (cursor_rest self) (\<lambda>inner.
          map_option
            (\<lambda>(r, _, m'). case r of
                            Err e \<Rightarrow> (Err e, self, m')
                          | Ok n \<Rightarrow> (Ok n, self\<lparr>cu_pos := cu_pos self + n\<rparr>, m'))
            (bytes_read_volatile buf (inner, m))))"

definition cursor_read_exact_volatile :: "vol_slice \<Rightarrow> (byte_cursor, unit) io_step" where
  "cursor_read_exact_volatile buf st =
     (case st of (self, m) \<Rightarrow>
        let n = sl_size buf
        in Option.bind (cursor_rest self) (\<lambda>inner.
             map_option
               (\<lambda>(r, _, m'). case r of
                               Err e \<Rightarrow> (Err e, self, m')
                             | Ok _ \<Rightarrow> (Ok (), self\<lparr>cu_pos := cu_pos self + n\<rparr>, m'))
               (bytes_read_exact_volatile buf (inner, m))))"

definition cursor_write_volatile :: "vol_slice \<Rightarrow> (byte_cursor, usize) io_step" where
  "cursor_write_volatile buf st =
     (case st of (self, m) \<Rightarrow>
        Option.bind (cursor_rest self) (\<lambda>inner.
          map_option
            (\<lambda>(r, _, m'). case r of
                            Err e \<Rightarrow> (Err e, self, m')
                          | Ok n \<Rightarrow> (Ok n, self\<lparr>cu_pos := cu_pos self + n\<rparr>, m'))
            (bytes_write_volatile buf (inner, m))))"

section \<open>Handles and sockets\<close>

text \<open>
  A call of Windows gets the address and the length of the buffer and the memory of the process.  It
  returns its result code, the number of bytes it reports, and what \<^verbatim>\<open>last_os_error\<close> would say.
\<close>

type_synonym 's win_buffer_io = "u64 \<Rightarrow> u32 \<Rightarrow> 's \<times> heap \<Rightarrow> u32 \<times> u32 \<times> vm_io_error \<times> 's \<times> heap"

definition capped_len :: "vol_slice \<Rightarrow> u32" where
  "capped_len buf = ucast (min (sl_size buf) 0xffffffff)"

definition read_volatile_raw_handle :: "'s win_buffer_io \<Rightarrow> vol_slice \<Rightarrow> ('s, usize) io_step" where
  "read_volatile_raw_handle ReadFile buf st =
     (case st of (handle, m) \<Rightarrow>
        (case ReadFile (sl_addr buf) (capped_len buf) (handle, vm_heap m) of (res, bytes_read, e, handle', h) \<Rightarrow>
           if res \<noteq> 0 then
             let n = ucast bytes_read
             in map_option (\<lambda>m'. (Ok n, handle', m')) (mark_dirty (sl_bitmap buf) 0 n (m\<lparr>vm_heap := h\<rparr>))
           else Some (Err (IOError e), handle', m\<lparr>vm_heap := h\<rparr>)))"

definition write_volatile_raw_handle :: "'s win_buffer_io \<Rightarrow> vol_slice \<Rightarrow> ('s, usize) io_step" where
  "write_volatile_raw_handle WriteFile buf st =
     (case st of (handle, m) \<Rightarrow>
        (case WriteFile (sl_addr buf) (capped_len buf) (handle, vm_heap m) of (res, bytes_written, e, handle', h) \<Rightarrow>
           if res \<noteq> 0 then Some (Ok (ucast bytes_written), handle', m\<lparr>vm_heap := h\<rparr>)
           else Some (Err (IOError e), handle', m\<lparr>vm_heap := h\<rparr>)))"

definition read_volatile_raw_socket :: "'s win_buffer_io \<Rightarrow> vol_slice \<Rightarrow> ('s, usize) io_step" where
  "read_volatile_raw_socket WSARecv buf st =
     (case st of (raw_socket, m) \<Rightarrow>
        (case WSARecv (sl_addr buf) (capped_len buf) (raw_socket, vm_heap m) of (res, bytes_received, e, socket', h) \<Rightarrow>
           if res = 0 then
             let n = ucast bytes_received
             in map_option (\<lambda>m'. (Ok n, socket', m')) (mark_dirty (sl_bitmap buf) 0 n (m\<lparr>vm_heap := h\<rparr>))
           else Some (Err (IOError e), socket', m\<lparr>vm_heap := h\<rparr>)))"

definition write_volatile_raw_socket :: "'s win_buffer_io \<Rightarrow> vol_slice \<Rightarrow> ('s, usize) io_step" where
  "write_volatile_raw_socket WSASend buf st =
     (case st of (socket, m) \<Rightarrow>
        (case WSASend (sl_addr buf) (capped_len buf) (socket, vm_heap m) of (res, bytes_sent, e, socket', h) \<Rightarrow>
           if res = 0 then Some (Ok (ucast bytes_sent), socket', m\<lparr>vm_heap := h\<rparr>)
           else Some (Err (IOError e), socket', m\<lparr>vm_heap := h\<rparr>)))"

text \<open>The implementations for files, handles, standard output and sockets, by value and by reference, all forward.\<close>

definition handle_read_volatile :: "'s win_buffer_io \<Rightarrow> vol_slice \<Rightarrow> ('s, usize) io_step" where
  "handle_read_volatile ReadFile buf = read_volatile_raw_handle ReadFile buf"

definition handle_write_volatile :: "'s win_buffer_io \<Rightarrow> vol_slice \<Rightarrow> ('s, usize) io_step" where
  "handle_write_volatile WriteFile buf = write_volatile_raw_handle WriteFile buf"

definition stdout_write_volatile :: "'s win_buffer_io \<Rightarrow> vol_slice \<Rightarrow> ('s, usize) io_step" where
  "stdout_write_volatile WriteFile buf = write_volatile_raw_handle WriteFile buf"

definition tcp_read_volatile :: "'s win_buffer_io \<Rightarrow> vol_slice \<Rightarrow> ('s, usize) io_step" where
  "tcp_read_volatile WSARecv buf = read_volatile_raw_socket WSARecv buf"

definition tcp_write_volatile :: "'s win_buffer_io \<Rightarrow> vol_slice \<Rightarrow> ('s, usize) io_step" where
  "tcp_write_volatile WSASend buf = write_volatile_raw_socket WSASend buf"

section \<open>Bytes of a slice\<close>

text \<open>\<^verbatim>\<open>Bytes<usize> for VolatileSlice\<close>.  The buffer of the caller is a \<^typ>\<open>byte_slice\<close>.\<close>

definition drop_source :: "(vol_error, 'a) result \<times> 's \<times> vmem \<Rightarrow> (vol_error, 'a) result \<times> vmem" where
  "drop_source x = (case x of (r, _, m) \<Rightarrow> (r, m))"

definition slice_write :: "vol_slice \<Rightarrow> byte_slice \<Rightarrow> usize \<Rightarrow> vmem \<Rightarrow> ((vol_error, usize) result \<times> vmem) panics" where
  "slice_write s buf addr m =
     (if bb_len buf = 0 then Some (Ok 0, m)
      else if sl_size s \<le> addr then Some (Err (OutOfBounds addr), m)
      else case slice_offset s addr of
             Err e \<Rightarrow> Some (Err e, m)
           | Ok t \<Rightarrow> map_option drop_source (bytes_read_volatile t (buf, m)))"

definition slice_read :: "vol_slice \<Rightarrow> byte_slice \<Rightarrow> usize \<Rightarrow> vmem \<Rightarrow> ((vol_error, usize) result \<times> vmem) panics" where
  "slice_read s buf addr m =
     (if bb_len buf = 0 then Some (Ok 0, m)
      else if sl_size s \<le> addr then Some (Err (OutOfBounds addr), m)
      else case slice_offset s addr of
             Err e \<Rightarrow> Some (Err e, m)
           | Ok t \<Rightarrow> map_option drop_source (bytes_write_volatile t (buf, m)))"

definition slice_write_slice :: "vol_slice \<Rightarrow> byte_slice \<Rightarrow> usize \<Rightarrow> vmem \<Rightarrow> ((vol_error, unit) result \<times> vmem) panics" where
  "slice_write_slice s buf addr m =
     map_option
       (\<lambda>(r, m'). (case r of
                     Err e \<Rightarrow> Err e
                   | Ok len \<Rightarrow> if len \<noteq> bb_len buf then Err (PartialBuffer (bb_len buf) len) else Ok (), m'))
       (slice_write s buf addr m)"

definition slice_read_slice :: "vol_slice \<Rightarrow> byte_slice \<Rightarrow> usize \<Rightarrow> vmem \<Rightarrow> ((vol_error, unit) result \<times> vmem) panics" where
  "slice_read_slice s buf addr m =
     map_option
       (\<lambda>(r, m'). (case r of
                     Err e \<Rightarrow> Err e
                   | Ok len \<Rightarrow> if len \<noteq> bb_len buf then Err (PartialBuffer (bb_len buf) len) else Ok (), m'))
       (slice_read s buf addr m)"

definition slice_read_volatile_from ::
  "vol_slice \<Rightarrow> usize \<Rightarrow> (vol_slice \<Rightarrow> ('s, usize) io_step) \<Rightarrow> usize \<Rightarrow> ('s, usize) io_step" where
  "slice_read_volatile_from s addr rd count st =
     (case slice_offset s addr of
        Err e \<Rightarrow> Some (Err e, st)
      | Ok t \<Rightarrow>
          Option.bind (ok (subslice t 0 (min (sl_size t) count))) (\<lambda>u. retry_eintr (rd u) st))"

definition slice_read_exact_volatile_from ::
  "vol_slice \<Rightarrow> usize \<Rightarrow> (vol_slice \<Rightarrow> ('s, unit) io_step) \<Rightarrow> usize \<Rightarrow> ('s, unit) io_step" where
  "slice_read_exact_volatile_from s addr rd_exact count st =
     (case slice_get_slice s addr count of Err e \<Rightarrow> Some (Err e, st) | Ok t \<Rightarrow> rd_exact t st)"

definition slice_write_volatile_to ::
  "vol_slice \<Rightarrow> usize \<Rightarrow> (vol_slice \<Rightarrow> ('s, usize) io_step) \<Rightarrow> usize \<Rightarrow> ('s, usize) io_step" where
  "slice_write_volatile_to s addr wr count st =
     (case slice_offset s addr of
        Err e \<Rightarrow> Some (Err e, st)
      | Ok t \<Rightarrow>
          Option.bind (ok (subslice t 0 (min (sl_size t) count))) (\<lambda>u. retry_eintr (wr u) st))"

definition slice_write_all_volatile_to ::
  "vol_slice \<Rightarrow> usize \<Rightarrow> (vol_slice \<Rightarrow> ('s, unit) io_step) \<Rightarrow> usize \<Rightarrow> ('s, unit) io_step" where
  "slice_write_all_volatile_to s addr wr_all count st =
     (case slice_get_slice s addr count of Err e \<Rightarrow> Some (Err e, st) | Ok t \<Rightarrow> wr_all t st)"

text \<open>Atomic accesses of \<open>n\<close> bytes aligned to \<open>al\<close>.\<close>

definition slice_store :: "usize \<Rightarrow> usize \<Rightarrow> vol_slice \<Rightarrow> u8 list \<Rightarrow> usize \<Rightarrow> vmem \<Rightarrow> ((vol_error, unit) result \<times> vmem) panics" where
  "slice_store n al s val addr m =
     (case get_atomic_ref n al s addr of
        None \<Rightarrow> None
      | Some (Err e) \<Rightarrow> Some (Err e, m)
      | Some (Ok p) \<Rightarrow>
          map_option (\<lambda>m'. (Ok (), m')) (mark_dirty (sl_bitmap s) addr n (m\<lparr>vm_heap := copy_to (vm_heap m) p val\<rparr>)))"

definition slice_load :: "usize \<Rightarrow> usize \<Rightarrow> vol_slice \<Rightarrow> usize \<Rightarrow> vmem \<Rightarrow> (vol_error, u8 list) result panics" where
  "slice_load n al s addr m =
     map_option (\<lambda>r. case r of Err e \<Rightarrow> Err e | Ok p \<Rightarrow> Ok (copy_from (vm_heap m) p (unat n)))
       (get_atomic_ref n al s addr)"

section \<open>The contract of a source\<close>

text \<open>
  A slice as the loops need it: it ends before the end of the address space, so that the offset past its
  last byte can be computed.
\<close>

definition slice_low :: "vol_slice \<Rightarrow> bool" where
  "slice_low t \<longleftrightarrow> unat (sl_addr t) + unat (sl_size t) < 2 ^ 64"

definition slice_bytes :: "vol_slice \<Rightarrow> vmem \<Rightarrow> u8 list" where
  "slice_bytes t m = copy_from (vm_heap m) (sl_addr t) (unat (sl_size t))"

lemma slice_low_wf: "slice_low t \<Longrightarrow> slice_wf t"
  by (simp add: slice_low_def slice_wf_def)

lemma slice_low_inside:
  assumes "slice_low s" "inside s t"
  shows "slice_low t"
proof -
  obtain d where "unat d + unat (sl_size t) \<le> unat (sl_size s)" "sl_addr t = sl_addr s + d"
    using assms(2) by (auto simp: inside_def)
  moreover have "unat (sl_addr s + d) \<le> unat (sl_addr s) + unat d" by (simp add: unat_word_ariths)
  ultimately show ?thesis using assms(1) by (simp add: slice_low_def)
qed

lemma slice_offset_low:
  assumes "slice_low t" "unat n \<le> unat (sl_size t)"
  obtains u where "slice_offset t n = Ok u" "inside t u" "sl_addr u = sl_addr t + n" "sl_size u = sl_size t - n"
    "unat (sl_size u) = unat (sl_size t) - unat n" "unat (sl_addr u) = unat (sl_addr t) + unat n"
    "sl_bitmap u = bitmap_slice_at n (sl_bitmap t)"
proof -
  let ?u = "with_bitmap (sl_addr t + n) (sl_size t - n) (bitmap_slice_at n (sl_bitmap t))"
  have o: "slice_offset t n = Ok ?u"
    using assms by (subst slice_offset_Ok [OF slice_low_wf [OF assms(1)]]) (simp add: slice_low_def)
  have "unat (sl_size t - n) = unat (sl_size t) - unat n" using assms(2) by (simp add: unat_sub word_le_nat_alt)
  moreover have "unat (sl_addr t + n) = unat (sl_addr t) + unat n" using assms by (simp add: slice_low_def unat_word_ariths)
  moreover note slice_offset_inside [OF slice_low_wf [OF assms(1)] o]
  ultimately show thesis using that [OF o] by (simp add: with_bitmap_def)
qed

lemma read_exact_from_tracked:
  assumes "slice_read_exact_volatile_from s addr rd_exact count st = Some (r, st')"
    and "\<And>t. inside s t \<Longrightarrow> rd_exact t st = Some (r, st') \<Longrightarrow> tracked_change t (snd st) (snd st')"
  shows "tracked_change s (snd st) (snd st')"
proof (cases "subslice s addr count")
  case (Ok t)
  then have "rd_exact t st = Some (r, st')"
    using assms(1) by (simp add: slice_read_exact_volatile_from_def slice_get_slice_def)
  then show ?thesis using assms(2) tracked_change_inside subslice_inside [OF Ok] by blast
qed (use assms(1) in \<open>simp add: slice_read_exact_volatile_from_def slice_get_slice_def tracked_change_refl\<close>)

text \<open>
  The part of the contract that the dirty bitmap relies on: whatever a read does, also one that fails, the
  change is inside the slice and known to the bitmap.
\<close>

locale tracking_source =
  fixes rd :: "vol_slice \<Rightarrow> ('s, usize) io_step"
    and ready :: "vol_slice \<Rightarrow> 's \<times> vmem \<Rightarrow> bool"
  assumes ready_sub: "ready t st \<Longrightarrow> inside t u \<Longrightarrow> slice_low t \<Longrightarrow> ready u st"
    and rd_tracked: "ready t st \<Longrightarrow> slice_low t \<Longrightarrow> bitmap_covers t (snd st) \<Longrightarrow> rd t st = Some (r, st') \<Longrightarrow>
      ready t st' \<and> tracked_change t (snd st) (snd st')"
begin

lemma retry_tracked:
  assumes "retry_eintr io_call st = Some y" "io_call = rd t" "ready t st" "slice_low t" "bitmap_covers t (snd st)"
  shows "ready t (snd y) \<and> tracked_change t (snd st) (snd (snd y))"
  using assms
proof (induction rule: retry_eintr.raw_induct [rotated, consumes 1, case_names step])
  case (step again io_call st y)
  obtain r st1 where st1: "rd t st = Some (r, st1)"
    "(if r = Err (IOError IoInterrupted) then again io_call st1 else Some (r, st1)) = Some y"
    using step(2,3) by (auto simp: bind_eq_Some_conv)
  note a = rd_tracked [OF step(4,5,6) st1(1)]
  show ?case
  proof (cases "r = Err (IOError IoInterrupted)")
    case True
    have "bitmap_covers t (snd st1)" using a step(6) by (simp add: tracked_change_def)
    then show ?thesis using step(1) [of io_call st1 y] st1(2) True step(3,5) a tracked_change_trans by auto
  next
    case False
    then show ?thesis using st1(2) a by auto
  qed
qed

lemma read_exact_loop_tracked:
  assumes "read_exact_loop rd' t st = Some y" "rd' = rd" "ready t st" "slice_low t" "bitmap_covers t (snd st)"
  shows "tracked_change t (snd st) (snd (snd y))"
  using assms
proof (induction rule: read_exact_loop.raw_induct [rotated, consumes 1, case_names step])
  case (step again rd' t st y)
  show ?case
  proof (cases "slice_is_empty t")
    case True
    then show ?thesis using step(2) by (auto simp: tracked_change_refl)
  next
    case False
    obtain r st1 where st1: "retry_eintr (rd t) st = Some (r, st1)"
      "(case r of Err e \<Rightarrow> Some (Err e, st1)
        | Ok bytes_read \<Rightarrow> if bytes_read = 0 then Some (Err (IOError IoUnexpectedEof), st1)
            else case slice_offset t bytes_read of Err e \<Rightarrow> Some (Err e, st1) | Ok rest \<Rightarrow> again rd' rest st1) = Some y"
      using step(2,3) False by (auto simp: bind_eq_Some_conv)
    have a: "ready t st1" "tracked_change t (snd st) (snd st1)"
      using retry_tracked [OF st1(1) refl step(4,5,6)] by simp_all
    have "st1 = snd y \<or> (\<exists>u n. slice_offset t n = Ok u \<and> again rd' u st1 = Some y)"
      using st1(2) by (auto split: result.splits if_splits)
    then show ?thesis
    proof
      assume "\<exists>u n. slice_offset t n = Ok u \<and> again rd' u st1 = Some y"
      then obtain u n where u: "slice_offset t n = Ok u" "again rd' u st1 = Some y" by blast
      note i = slice_offset_inside [OF slice_low_wf [OF step(5)] u(1)]
      have "bitmap_covers u (snd st1)"
        using a(2) step(6) bitmap_covers_inside [OF _ i] by (simp add: tracked_change_def)
      from step(1) [OF u(2) step(3) ready_sub [OF a(1) i step(5)] slice_low_inside [OF step(5) i] this]
      show ?thesis using tracked_change_trans [OF a(2)] tracked_change_inside [OF i] by blast
    qed (use a(2) in simp)
  qed
qed

lemma read_volatile_from_tracked:
  assumes "slice_read_volatile_from s addr rd count st = Some (r, st')" "ready s st" "slice_low s" "bitmap_covers s (snd st)"
  shows "tracked_change s (snd st) (snd st')"
proof (cases "slice_offset s addr")
  case (Ok t)
  note i = slice_offset_inside [OF slice_low_wf [OF assms(3)] Ok]
  obtain u where u: "subslice t 0 (min (sl_size t) count) = Ok u" "retry_eintr (rd u) st = Some (r, st')"
    using assms(1) Ok by (auto simp: slice_read_volatile_from_def bind_eq_Some_conv)
  note iu = inside_trans [OF i subslice_inside [OF u(1)]]
  from retry_tracked [OF u(2) refl ready_sub [OF assms(2) iu assms(3)] slice_low_inside [OF assms(3) iu]
      bitmap_covers_inside [OF assms(4) iu]]
  show ?thesis using tracked_change_inside [OF iu] by simp
qed (use assms(1) in \<open>simp add: slice_read_volatile_from_def tracked_change_refl\<close>)

lemma read_exact_default_tracked:
  assumes "default_read_exact_volatile rd t st = Some (r, st')" "ready t st" "slice_low t" "bitmap_covers t (snd st)"
  shows "tracked_change t (snd st) (snd st')"
proof (cases "slice_offset t 0")
  case (Ok u)
  note i = slice_offset_inside [OF slice_low_wf [OF assms(3)] Ok]
  have "read_exact_loop rd u st = Some (r, st')" using assms(1) Ok by (simp add: default_read_exact_volatile_def)
  from read_exact_loop_tracked [OF this refl ready_sub [OF assms(2) i assms(3)] slice_low_inside [OF assms(3) i]
      bitmap_covers_inside [OF assms(4) i]]
  show ?thesis using tracked_change_inside [OF i] by simp
qed (use assms(1) in \<open>simp add: default_read_exact_volatile_def tracked_change_refl\<close>)

lemma exact_default_from_tracked:
  assumes "slice_read_exact_volatile_from s addr (default_read_exact_volatile rd) count st = Some (r, st')"
    and "ready s st" "slice_low s" "bitmap_covers s (snd st)"
  shows "tracked_change s (snd st) (snd st')"
proof (rule read_exact_from_tracked [OF assms(1)])
  fix t
  assume i: "inside s t" and e: "default_read_exact_volatile rd t st = Some (r, st')"
  show "tracked_change t (snd st) (snd st')"
    by (rule read_exact_default_tracked [OF e ready_sub [OF assms(2) i assms(3)] slice_low_inside [OF assms(3) i]
        bitmap_covers_inside [OF assms(4) i]])
qed

end

locale volatile_source =
  fixes rd :: "vol_slice \<Rightarrow> ('s, usize) io_step"
    and ready :: "vol_slice \<Rightarrow> 's \<times> vmem \<Rightarrow> bool"
    and stream :: "'s \<times> vmem \<Rightarrow> u8 list"
    and interrupts :: "'s \<times> vmem \<Rightarrow> nat"
  assumes ready_inside: "ready t st \<Longrightarrow> inside t u \<Longrightarrow> slice_low t \<Longrightarrow> ready u st"
    and rd_step: "ready t st \<Longrightarrow> slice_low t \<Longrightarrow> bitmap_covers t (snd st) \<Longrightarrow>
      \<exists>r st'. rd t st = Some (r, st') \<and> ready t st' \<and>
        (r = Err (IOError IoInterrupted) \<and> snd st' = snd st \<and> stream st' = stream st \<and> interrupts st' < interrupts st \<or>
         (\<exists>n. r = Ok n \<and> unat n \<le> length (stream st) \<and> (n = 0 \<longrightarrow> sl_size t = 0 \<or> stream st = []) \<and>
            wrote t (take (unat n) (stream st)) (snd st) (snd st') \<and> stream st' = drop (unat n) (stream st)))"
begin

lemma retry_returns:
  assumes "ready t st" "slice_low t" "bitmap_covers t (snd st)"
  shows "\<exists>n st'. retry_eintr (rd t) st = Some (Ok n, st') \<and> ready t st' \<and> unat n \<le> length (stream st) \<and>
    (n = 0 \<longrightarrow> sl_size t = 0 \<or> stream st = []) \<and> wrote t (take (unat n) (stream st)) (snd st) (snd st') \<and>
    stream st' = drop (unat n) (stream st)"
  using assms(1,3)
proof (induction "interrupts st" arbitrary: st rule: less_induct)
  case less
  from rd_step [OF less.prems(1) assms(2) less.prems(2)] obtain r st' where
    st': "rd t st = Some (r, st')" "ready t st'" and
    alt: "r = Err (IOError IoInterrupted) \<and> snd st' = snd st \<and> stream st' = stream st \<and> interrupts st' < interrupts st \<or>
      (\<exists>n. r = Ok n \<and> unat n \<le> length (stream st) \<and> (n = 0 \<longrightarrow> sl_size t = 0 \<or> stream st = []) \<and>
         wrote t (take (unat n) (stream st)) (snd st) (snd st') \<and> stream st' = drop (unat n) (stream st))"
    by blast
  from alt show ?case
  proof
    assume i: "r = Err (IOError IoInterrupted) \<and> snd st' = snd st \<and> stream st' = stream st \<and> interrupts st' < interrupts st"
    then have "retry_eintr (rd t) st = retry_eintr (rd t) st'" using st'(1) by (subst retry_eintr.simps) simp
    then show ?thesis using less.hyps [of st'] i st'(2) less.prems(2) by simp
  next
    assume n: "\<exists>n. r = Ok n \<and> unat n \<le> length (stream st) \<and> (n = 0 \<longrightarrow> sl_size t = 0 \<or> stream st = []) \<and>
      wrote t (take (unat n) (stream st)) (snd st) (snd st') \<and> stream st' = drop (unat n) (stream st)"
    then have "retry_eintr (rd t) st = Some (r, st')" using st'(1) by (subst retry_eintr.simps) auto
    then show ?thesis using n st'(2) by blast
  qed
qed

text \<open>
  The loop of \<^verbatim>\<open>read_exact_volatile\<close> returns.  As many bytes as the slice has, or the source still had, are in
  the slice and gone from the source, the rest of memory is as it was, and the bitmap knows of the change.
\<close>

lemma read_exact_loop_returns:
  assumes "ready t st" "slice_low t" "bitmap_covers t (snd st)"
  shows "\<exists>st'. read_exact_loop rd t st =
      Some (if unat (sl_size t) \<le> length (stream st) then Ok () else Err (IOError IoUnexpectedEof), st') \<and>
    tracked_change t (snd st) (snd st') \<and>
    vm_heap (snd st') = copy_to (vm_heap (snd st)) (sl_addr t) (take (unat (sl_size t)) (stream st)) \<and>
    stream st' = drop (unat (sl_size t)) (stream st)"
  using assms
proof (induction "unat (sl_size t)" arbitrary: t st rule: less_induct)
  case less
  show ?case
  proof (cases "sl_size t = 0")
    case True
    then show ?thesis by (subst read_exact_loop.simps) (simp add: slice_is_empty_def tracked_change_refl)
  next
    case False
    then have pos: "0 < unat (sl_size t)" by (simp add: unat_gt_0)
    from retry_returns [OF less.prems] obtain n st1 where
      n: "retry_eintr (rd t) st = Some (Ok n, st1)" "ready t st1" "unat n \<le> length (stream st)"
        "n = 0 \<longrightarrow> sl_size t = 0 \<or> stream st = []" "wrote t (take (unat n) (stream st)) (snd st) (snd st1)"
        "stream st1 = drop (unat n) (stream st)" by blast
    have tr: "tracked_change t (snd st) (snd st1)" using wrote_tracked [OF inside_refl less.prems(3) n(5)] .
    show ?thesis
    proof (cases "n = 0")
      case True
      then have "read_exact_loop rd t st = Some (Err (IOError IoUnexpectedEof), st1)"
        using False n(1) by (subst read_exact_loop.simps) (simp add: slice_is_empty_def)
      then show ?thesis using True False n(4,6) tr wrote_heap [OF n(5)] pos by simp
    next
      case nz: False
      have le: "unat n \<le> unat (sl_size t)" using n(3,5) by (simp add: wrote_def)
      from slice_offset_low [OF less.prems(2) le] obtain u where
        u: "slice_offset t n = Ok u" "inside t u" "sl_addr u = sl_addr t + n" "unat (sl_size u) = unat (sl_size t) - unat n"
        by blast
      have step: "read_exact_loop rd t st = read_exact_loop rd u st1"
        using False nz n(1) u(1) by (subst read_exact_loop.simps) (simp add: slice_is_empty_def)
      have "0 < unat n" using nz by (simp add: unat_gt_0)
      then have "unat (sl_size u) < unat (sl_size t)" using u(4) le by simp
      from less.hyps [OF this ready_inside [OF n(2) u(2) less.prems(2)] slice_low_inside [OF less.prems(2) u(2)]]
      obtain st2 where st2: "read_exact_loop rd u st1 =
          Some (if unat (sl_size u) \<le> length (stream st1) then Ok () else Err (IOError IoUnexpectedEof), st2)"
        "tracked_change u (snd st1) (snd st2)"
        "vm_heap (snd st2) = copy_to (vm_heap (snd st1)) (sl_addr u) (take (unat (sl_size u)) (stream st1))"
        "stream st2 = drop (unat (sl_size u)) (stream st1)"
        using bitmap_covers_inside [of t "snd st1" u] tr less.prems(3) u(2) unfolding tracked_change_def by blast
      have c: "unat n + unat (sl_size u) = unat (sl_size t)" using u(4) le by simp
      have "take (unat (sl_size t)) (stream st) = take (unat n) (stream st) @ take (unat (sl_size u)) (stream st1)"
        unfolding n(6) c [symmetric] by (rule take_add)
      moreover have "length (take (unat n) (stream st)) = unat n" using n(3) by simp
      ultimately have "vm_heap (snd st2) = copy_to (vm_heap (snd st)) (sl_addr t) (take (unat (sl_size t)) (stream st))"
        using st2(3) wrote_heap [OF n(5)] u(3) c unat_bounds(4) [of "sl_size t"]
        by (simp add: copy_to_append min_le_iff_disj)
      moreover have "tracked_change t (snd st) (snd st2)"
        using tracked_change_trans [OF tr tracked_change_inside [OF u(2) st2(2)]] .
      moreover have "stream st2 = drop (unat (sl_size t)) (stream st)" using st2(4) n(6) c by (simp add: add.commute)
      moreover have "unat (sl_size u) \<le> length (stream st1) \<longleftrightarrow> unat (sl_size t) \<le> length (stream st)"
        using n(3,6) c by auto
      ultimately show ?thesis using step st2(1) by simp
    qed
  qed
qed

end

sublocale volatile_source \<subseteq> tracking: tracking_source rd ready
proof (unfold_locales, goal_cases)
  case (1 t st u)
  then show ?case by (rule ready_inside)
next
  case (2 t st r st')
  show ?case using rd_step [OF 2(1-3)] 2(4) wrote_tracked [OF inside_refl 2(3)] by (auto simp: tracked_change_refl)
qed

section \<open>The contract of a sink\<close>

text \<open>A sink takes bytes as long as it has space; a vector always has.\<close>

locale volatile_sink =
  fixes wr :: "vol_slice \<Rightarrow> ('s, usize) io_step"
    and ready :: "vol_slice \<Rightarrow> 's \<times> vmem \<Rightarrow> bool"
    and accepted :: "'s \<times> vmem \<Rightarrow> u8 list"
    and space :: "'s \<times> vmem \<Rightarrow> enat"
    and interrupts :: "'s \<times> vmem \<Rightarrow> nat"
  assumes ready_inside: "ready t st \<Longrightarrow> inside t u \<Longrightarrow> slice_low t \<Longrightarrow> ready u st"
    and wr_step: "ready t st \<Longrightarrow> slice_low t \<Longrightarrow> 0 < unat (sl_size t) \<Longrightarrow>
      \<exists>r st'. wr t st = Some (r, st') \<and> ready t st' \<and> slice_bytes t (snd st') = slice_bytes t (snd st) \<and>
        vm_bitmaps (snd st') = vm_bitmaps (snd st) \<and>
        (r = Err (IOError IoInterrupted) \<and> accepted st' = accepted st \<and> space st' = space st \<and> interrupts st' < interrupts st \<or>
         (\<exists>n. r = Ok n \<and> unat n \<le> unat (sl_size t) \<and> enat (unat n) \<le> space st \<and> (n = 0 \<longrightarrow> space st = 0) \<and>
            accepted st' = accepted st @ take (unat n) (slice_bytes t (snd st)) \<and> space st' = space st - enat (unat n)))"
begin

lemma retry_returns:
  assumes "ready t st" "slice_low t" "0 < unat (sl_size t)"
  shows "\<exists>n st'. retry_eintr (wr t) st = Some (Ok n, st') \<and> ready t st' \<and> slice_bytes t (snd st') = slice_bytes t (snd st) \<and>
    vm_bitmaps (snd st') = vm_bitmaps (snd st) \<and> unat n \<le> unat (sl_size t) \<and> enat (unat n) \<le> space st \<and>
    (n = 0 \<longrightarrow> space st = 0) \<and> accepted st' = accepted st @ take (unat n) (slice_bytes t (snd st)) \<and>
    space st' = space st - enat (unat n)"
  using assms(1)
proof (induction "interrupts st" arbitrary: st rule: less_induct)
  case less
  from wr_step [OF less.prems(1) assms(2,3)] obtain r st' where
    st': "wr t st = Some (r, st')" "ready t st'" "slice_bytes t (snd st') = slice_bytes t (snd st)"
      "vm_bitmaps (snd st') = vm_bitmaps (snd st)" and
    alt: "r = Err (IOError IoInterrupted) \<and> accepted st' = accepted st \<and> space st' = space st \<and> interrupts st' < interrupts st \<or>
      (\<exists>n. r = Ok n \<and> unat n \<le> unat (sl_size t) \<and> enat (unat n) \<le> space st \<and> (n = 0 \<longrightarrow> space st = 0) \<and>
         accepted st' = accepted st @ take (unat n) (slice_bytes t (snd st)) \<and> space st' = space st - enat (unat n))"
    by blast
  from alt show ?case
  proof
    assume i: "r = Err (IOError IoInterrupted) \<and> accepted st' = accepted st \<and> space st' = space st \<and> interrupts st' < interrupts st"
    then have "retry_eintr (wr t) st = retry_eintr (wr t) st'" using st'(1) by (subst retry_eintr.simps) simp
    then show ?thesis using less.hyps [of st'] i st'(2-4) by simp
  next
    assume n: "\<exists>n. r = Ok n \<and> unat n \<le> unat (sl_size t) \<and> enat (unat n) \<le> space st \<and> (n = 0 \<longrightarrow> space st = 0) \<and>
      accepted st' = accepted st @ take (unat n) (slice_bytes t (snd st)) \<and> space st' = space st - enat (unat n)"
    then have "retry_eintr (wr t) st = Some (r, st')" using st'(1) by (subst retry_eintr.simps) auto
    then show ?thesis using n st'(2-4) by blast
  qed
qed

lemma write_all_loop_returns:
  assumes "ready t st" "slice_low t"
  shows "\<exists>k st'. write_all_loop wr t st =
      Some (if enat (unat (sl_size t)) \<le> space st then Ok () else Err (IOError IoWriteZero), st') \<and>
    enat k = min (enat (unat (sl_size t))) (space st) \<and> accepted st' = accepted st @ take k (slice_bytes t (snd st)) \<and>
    vm_bitmaps (snd st') = vm_bitmaps (snd st)"
  using assms
proof (induction "unat (sl_size t)" arbitrary: t st rule: less_induct)
  case less
  show ?case
  proof (cases "sl_size t = 0")
    case True
    then show ?thesis
      by (intro exI [of _ 0] exI [of _ st], subst write_all_loop.simps)
        (simp add: slice_is_empty_def zero_enat_def [symmetric])
  next
    case False
    then have pos: "0 < unat (sl_size t)" by (simp add: unat_gt_0)
    from retry_returns [OF less.prems this] obtain n st1 where
      n: "retry_eintr (wr t) st = Some (Ok n, st1)" "ready t st1" "slice_bytes t (snd st1) = slice_bytes t (snd st)"
        "vm_bitmaps (snd st1) = vm_bitmaps (snd st)" "unat n \<le> unat (sl_size t)" "enat (unat n) \<le> space st"
        "n = 0 \<longrightarrow> space st = 0" "accepted st1 = accepted st @ take (unat n) (slice_bytes t (snd st))"
        "space st1 = space st - enat (unat n)" by blast
    show ?thesis
    proof (cases "n = 0")
      case True
      then have "write_all_loop wr t st = Some (Err (IOError IoWriteZero), st1)"
        using False n(1) by (subst write_all_loop.simps) (simp add: slice_is_empty_def)
      then show ?thesis using True n(4,7,8) pos by (intro exI [of _ 0] exI [of _ st1]) (simp add: zero_enat_def)
    next
      case nz: False
      from slice_offset_low [OF less.prems(2) n(5)] obtain u where
        u: "slice_offset t n = Ok u" "inside t u" "sl_addr u = sl_addr t + n" "unat (sl_size u) = unat (sl_size t) - unat n"
        by blast
      have step: "write_all_loop wr t st = write_all_loop wr u st1"
        using False nz n(1) u(1) by (subst write_all_loop.simps) (simp add: slice_is_empty_def)
      have "0 < unat n" using nz by (simp add: unat_gt_0)
      then have "unat (sl_size u) < unat (sl_size t)" using u(4) n(5) by simp
      from less.hyps [OF this ready_inside [OF n(2) u(2) less.prems(2)] slice_low_inside [OF less.prems(2) u(2)]]
      obtain k st2 where st2: "write_all_loop wr u st1 =
          Some (if enat (unat (sl_size u)) \<le> space st1 then Ok () else Err (IOError IoWriteZero), st2)"
        "enat k = min (enat (unat (sl_size u))) (space st1)" "accepted st2 = accepted st1 @ take k (slice_bytes u (snd st1))"
        "vm_bitmaps (snd st2) = vm_bitmaps (snd st1)" by blast
      have c: "unat (sl_size t) = unat n + unat (sl_size u)" using u(4) n(5) by simp
      have "slice_bytes t (snd st) = take (unat n) (slice_bytes t (snd st)) @ slice_bytes u (snd st1)"
        unfolding n(3) [symmetric] by (simp add: slice_bytes_def c copy_from_add u(3))
      moreover have "length (take (unat n) (slice_bytes t (snd st))) = unat n" using n(5) by (simp add: slice_bytes_def)
      ultimately have "take (unat n + k) (slice_bytes t (snd st)) =
          take (unat n) (slice_bytes t (snd st)) @ take k (slice_bytes u (snd st1))"
        by (metis append_eq_conv_conj take_add)
      then have o: "accepted st2 = accepted st @ take (unat n + k) (slice_bytes t (snd st))" using st2(3) n(8) by simp
      have s: "enat (unat n + k) = min (enat (unat (sl_size t))) (space st)"
        "enat (unat (sl_size u)) \<le> space st1 \<longleftrightarrow> enat (unat (sl_size t)) \<le> space st"
        using st2(2) n(6,9) c by (cases "space st"; auto simp: min_def split: if_splits)+
      show ?thesis using step st2(1,4) o s n(4) by (intro exI [of _ "unat n + k"] exI [of _ st2]) simp
    qed
  qed
qed

end

section \<open>Buffers and cursors keep the contracts\<close>

text \<open>
  A buffer of the caller lies elsewhere than guest memory: the borrow rules exclude a \<^verbatim>\<open>&[u8]\<close> into memory
  that others may write.
\<close>

definition bytes_apart :: "vol_slice \<Rightarrow> byte_slice \<times> vmem \<Rightarrow> bool" where
  "bytes_apart t st \<longleftrightarrow>
     (case st of (b, m) \<Rightarrow>
        bb_ptr b \<noteq> 0 \<and> sl_addr t \<noteq> 0 \<and> unat (bb_ptr b) + unat (bb_len b) < 2 ^ 64 \<and>
        (unat (bb_ptr b) + unat (bb_len b) \<le> unat (sl_addr t) \<or>
         unat (sl_addr t) + unat (sl_size t) \<le> unat (bb_ptr b)))"

definition bytes_stream :: "byte_slice \<times> vmem \<Rightarrow> u8 list" where
  "bytes_stream st = (case st of (b, m) \<Rightarrow> copy_from (vm_heap m) (bb_ptr b) (unat (bb_len b)))"

lemma inside_addr:
  assumes "slice_low t" "inside t u"
  shows "unat (sl_addr t) \<le> unat (sl_addr u)" "unat (sl_addr u) + unat (sl_size u) \<le> unat (sl_addr t) + unat (sl_size t)"
proof -
  obtain d where d: "unat d + unat (sl_size u) \<le> unat (sl_size t)" "sl_addr u = sl_addr t + d"
    using assms(2) by (auto simp: inside_def)
  then have "unat (sl_addr u) = unat (sl_addr t) + unat d"
    using assms(1) by (simp add: slice_low_def unat_word_ariths)
  then show "unat (sl_addr t) \<le> unat (sl_addr u)" "unat (sl_addr u) + unat (sl_size u) \<le> unat (sl_addr t) + unat (sl_size t)"
    using d(1) by simp_all
qed

lemma bytes_apart_inside: "bytes_apart t st \<Longrightarrow> inside t u \<Longrightarrow> slice_low t \<Longrightarrow> bytes_apart u st"
  using inside_addr [of t u] by (auto simp: bytes_apart_def unat_eq_0 [symmetric])

definition advance :: "byte_slice \<Rightarrow> usize \<Rightarrow> byte_slice" where
  "advance b n = \<lparr>bb_ptr = bb_ptr b + n, bb_len = bb_len b - n\<rparr>"

lemma advance_addr:
  assumes "bytes_apart t (b, m)" "n \<le> bb_len b"
  shows "unat (bb_ptr (advance b n)) = unat (bb_ptr b) + unat n" "unat (bb_len (advance b n)) = unat (bb_len b) - unat n"
  using assms by (simp_all add: bytes_apart_def advance_def word_le_nat_alt unat_word_ariths unat_sub)

lemma bytes_apart_advance:
  assumes "bytes_apart t (b, m)" "n \<le> bb_len b"
  shows "bytes_apart t (advance b n, m')"
proof -
  have "0 < unat (bb_ptr b)" using assms(1) by (simp add: bytes_apart_def unat_gt_0)
  then have "bb_ptr (advance b n) \<noteq> 0" using advance_addr(1) [OF assms] by (auto simp: unat_eq_0 [symmetric])
  then show ?thesis using assms advance_addr [OF assms] by (auto simp: bytes_apart_def word_le_nat_alt)
qed

lemma bytes_copyable:
  assumes "bytes_apart t (b, m)" "slice_low t" "k \<le> unat (sl_size t)" "k \<le> unat (bb_len b)"
  shows "copyable (bb_ptr b) (sl_addr t) k" "copyable (sl_addr t) (bb_ptr b) k"
  using assms by (auto simp: bytes_apart_def slice_low_def copyable_def)

lemma bytes_stream_advance:
  assumes "n \<le> bb_len b"
  shows "bytes_stream (advance b n, m) = drop (unat n) (bytes_stream (b, m))"
proof -
  have "unat (bb_len b) = unat n + unat (bb_len b - n)" using assms by (simp add: unat_sub word_le_nat_alt)
  then show ?thesis by (simp add: bytes_stream_def advance_def copy_from_add)
qed

lemma bytes_stream_wrote:
  assumes "bytes_apart t (b, m)" "slice_low t" "wrote t bs m m'"
  shows "bytes_stream (b, m') = bytes_stream (b, m)"
  using assms copy_from_apart [of "bb_ptr b" "unat (bb_len b)" "sl_addr t" bs "vm_heap m"]
  by (auto simp: bytes_stream_def wrote_heap [OF assms(3)] bytes_apart_def slice_low_def wrote_def)

lemma bytes_read_volatile_wrote:
  assumes "bytes_apart t (b, m)" "slice_low t" "bitmap_covers t m"
  defines "n \<equiv> min (sl_size t) (bb_len b)"
  shows "\<exists>m'. bytes_read_volatile t (b, m) = Some (Ok n, advance b n, m') \<and> wrote t (take (unat n) (bytes_stream (b, m))) m m'"
proof -
  have n: "unat n \<le> unat (sl_size t)" "n \<le> bb_len b" "unat n \<le> unat (bb_len b)"
    by (auto simp: n_def min_def word_le_nat_alt)
  have tk: "take (unat n) (bytes_stream (b, m)) = copy_from (vm_heap m) (bb_ptr b) (unat n)"
    using n(3) by (simp add: bytes_stream_def copy_from_def take_map)
  obtain m' where w: "wrote t (copy_from (vm_heap m) (bb_ptr b) (unat n)) m m'"
    using wrote_total [OF assms(3), of "copy_from (vm_heap m) (bb_ptr b) (unat n)"] n(1) by auto
  have "copy_to_volatile t (bb_ptr b) (unat n) m = Some (m', unat n)"
    using copy_to_volatile_wrote [OF bytes_copyable(1) [OF assms(1,2) n(1,3)] n(1)] w by simp
  then have "bytes_read_volatile t (b, m) = Some (Ok n, advance b n, m')"
    using n(2) by (simp add: bytes_read_volatile_def Let_def n_def [symmetric] bytes_split_at_def advance_def)
  then show ?thesis using w tk by auto
qed

interpretation bytes_source: volatile_source bytes_read_volatile bytes_apart bytes_stream "\<lambda>_. 0"
proof (unfold_locales, goal_cases)
  case (1 t st u)
  then show ?case by (rule bytes_apart_inside)
next
  case (2 t st)
  obtain b m where st: "st = (b, m)" by (cases st)
  let ?n = "min (sl_size t) (bb_len b)"
  have le: "?n \<le> bb_len b" by simp
  from bytes_read_volatile_wrote [of t b m] 2 st obtain m' where
    m': "bytes_read_volatile t (b, m) = Some (Ok ?n, advance b ?n, m')" "wrote t (take (unat ?n) (bytes_stream (b, m))) m m'"
    by auto
  have "bytes_stream (advance b ?n, m') = drop (unat ?n) (bytes_stream (b, m))"
    using bytes_stream_advance [OF le] bytes_stream_wrote [OF _ 2(2) m'(2)] 2(1) st by simp
  moreover have "bytes_apart t (advance b ?n, m')" using bytes_apart_advance [OF _ le] 2(1) st by simp
  moreover have "?n = 0 \<longrightarrow> sl_size t = 0 \<or> bytes_stream (b, m) = []"
    by (auto simp: min_def bytes_stream_def split: if_splits)
  moreover have "unat ?n \<le> length (bytes_stream (b, m))" by (simp add: bytes_stream_def min_def word_le_nat_alt)
  ultimately show ?case using m' st by auto
qed

definition cursor_apart :: "vol_slice \<Rightarrow> byte_cursor \<times> vmem \<Rightarrow> bool" where
  "cursor_apart t st \<longleftrightarrow> bytes_apart t (cu_inner (fst st), snd st)"

definition cursor_at :: "byte_cursor \<Rightarrow> byte_slice" where
  "cursor_at c = advance (cu_inner c) (min (cu_pos c) (bb_len (cu_inner c)))"

definition cursor_stream :: "byte_cursor \<times> vmem \<Rightarrow> u8 list" where
  "cursor_stream st = bytes_stream (cursor_at (fst st), snd st)"

lemma cursor_rest_at [simp]: "cursor_rest c = Some (cursor_at c)"
  by (simp add: cursor_rest_def cursor_at_def bytes_split_at_def advance_def)

lemma cursor_at_apart: "cursor_apart t (c, m) \<Longrightarrow> bytes_apart t (cursor_at c, m')"
  unfolding cursor_at_def cursor_apart_def using bytes_apart_advance [of t "cu_inner c" m] by simp

lemma cursor_at_advance:
  assumes "n \<le> bb_len (cursor_at c)"
  shows "cursor_at (c\<lparr>cu_pos := cu_pos c + n\<rparr>) = advance (cursor_at c) n"
proof (cases "cu_pos c \<le> bb_len (cu_inner c)")
  case True
  then have "n \<le> bb_len (cu_inner c) - cu_pos c" using assms by (simp add: cursor_at_def advance_def)
  then have "unat (cu_pos c) + unat n \<le> unat (bb_len (cu_inner c))" using True by (simp add: word_le_nat_alt unat_sub)
  moreover from this have "unat (cu_pos c + n) = unat (cu_pos c) + unat n"
    using unat_bounds(4) [of "bb_len (cu_inner c)"] by (intro unat_add_no_wrap) simp
  ultimately have "cu_pos c + n \<le> bb_len (cu_inner c)" by (simp add: word_le_nat_alt)
  then show ?thesis using True by (simp add: cursor_at_def advance_def algebra_simps)
next
  case False
  then have "min (cu_pos c) (bb_len (cu_inner c)) = bb_len (cu_inner c)" by simp
  moreover from this have "n = 0" using assms by (simp add: cursor_at_def advance_def)
  ultimately show ?thesis by (simp add: cursor_at_def advance_def)
qed

interpretation cursor_source: volatile_source cursor_read_volatile cursor_apart cursor_stream "\<lambda>_. 0"
proof (unfold_locales, goal_cases)
  case (1 t st u)
  then show ?case using bytes_apart_inside by (auto simp: cursor_apart_def)
next
  case (2 t st)
  obtain c m where st: "st = (c, m)" by (cases st)
  have a: "bytes_apart t (cursor_at c, m)" using cursor_at_apart 2(1) st by simp
  from bytes_read_volatile_wrote [OF a 2(2)] 2(3) st obtain n m' where
    n: "n = min (sl_size t) (bb_len (cursor_at c))"
      "bytes_read_volatile t (cursor_at c, m) = Some (Ok n, advance (cursor_at c) n, m')"
      "wrote t (take (unat n) (bytes_stream (cursor_at c, m))) m m'" by auto
  have le: "n \<le> bb_len (cursor_at c)" by (simp add: n(1))
  let ?c = "c\<lparr>cu_pos := cu_pos c + n\<rparr>"
  have r: "cursor_read_volatile t st = Some (Ok n, ?c, m')" using n(2) st by (simp add: cursor_read_volatile_def)
  have "cursor_stream (?c, m') = drop (unat n) (cursor_stream (c, m))"
    using bytes_stream_advance [OF le] bytes_stream_wrote [OF a 2(2) n(3)] by (simp add: cursor_stream_def cursor_at_advance [OF le])
  moreover have "cursor_apart t (?c, m')" using 2(1) st by (simp add: cursor_apart_def bytes_apart_def)
  moreover have "n = 0 \<longrightarrow> sl_size t = 0 \<or> cursor_stream (c, m) = []"
    using n(1) by (auto simp: min_def cursor_stream_def bytes_stream_def split: if_splits)
  moreover have "unat n \<le> length (cursor_stream (c, m))"
    using le by (simp add: cursor_stream_def bytes_stream_def word_le_nat_alt)
  ultimately show ?case using r n(3) st by (auto simp: cursor_stream_def)
qed

interpretation vec_sink: volatile_sink vec_write_volatile "\<lambda>_ _. True" fst "\<lambda>_. \<infinity>" "\<lambda>_. 0"
proof (unfold_locales, goal_cases)
  case (2 t st)
  have "take (unat (sl_size t)) (slice_bytes t (snd st)) = slice_bytes t (snd st)" by (simp add: slice_bytes_def)
  then show ?case using 2(3)
    by (cases st) (auto simp: vec_write_volatile_def Let_def slice_bytes_def)
qed simp

text \<open>For a \<^verbatim>\<open>&mut [u8]\<close>, what has been taken lies between where it started and where it is now.\<close>

definition bytes_ready :: "u64 \<Rightarrow> vol_slice \<Rightarrow> byte_slice \<times> vmem \<Rightarrow> bool" where
  "bytes_ready start t st \<longleftrightarrow> bytes_apart t st \<and> unat start \<le> unat (bb_ptr (fst st))"

definition bytes_accepted :: "u64 \<Rightarrow> byte_slice \<times> vmem \<Rightarrow> u8 list" where
  "bytes_accepted start st = copy_from (vm_heap (snd st)) start (unat (bb_ptr (fst st)) - unat start)"

definition bytes_space :: "byte_slice \<times> vmem \<Rightarrow> enat" where
  "bytes_space st = enat (unat (bb_len (fst st)))"

lemma bytes_write_volatile_copies:
  assumes "bytes_apart t (b, m)" "slice_low t"
  defines "n \<equiv> min (sl_size t) (bb_len b)"
  shows "bytes_write_volatile t (b, m) =
    Some (Ok n, advance b n, m\<lparr>vm_heap := copy_to (vm_heap m) (bb_ptr b) (take (unat n) (slice_bytes t m))\<rparr>)"
proof -
  have n: "unat n \<le> unat (sl_size t)" "n \<le> bb_len b" "unat n \<le> unat (bb_len b)"
    by (auto simp: n_def min_def word_le_nat_alt)
  have "take (unat n) (slice_bytes t m) = copy_from (vm_heap m) (sl_addr t) (unat n)"
    using n(1) by (simp add: slice_bytes_def copy_from_def take_map)
  then show ?thesis
    using copy_slice_copies [OF bytes_copyable(2) [OF assms(1,2) n(1,3)], of "vm_heap m"] n(2)
    by (simp add: bytes_write_volatile_def Let_def n_def [symmetric] copy_from_volatile_def ptr_copy_def
        bytes_split_at_def advance_def)
qed

lemma slice_bytes_apart:
  assumes "bytes_apart t (b, m)" "slice_low t" "length bs \<le> unat (bb_len b)"
  shows "slice_bytes t (m\<lparr>vm_heap := copy_to (vm_heap m) (bb_ptr b) bs\<rparr>) = slice_bytes t m"
  using assms copy_from_apart [of "sl_addr t" "unat (sl_size t)" "bb_ptr b" bs "vm_heap m"]
  by (auto simp: slice_bytes_def bytes_apart_def slice_low_def)

lemma accepted_append:
  assumes "unat start \<le> unat p" "unat p + length bs < 2 ^ 64"
  shows "copy_from (copy_to h p bs) start (unat p + length bs - unat start) =
    copy_from h start (unat p - unat start) @ bs"
proof -
  have e: "unat p + length bs - unat start = (unat p - unat start) + length bs" using assms(1) by simp
  have "start + of_nat (unat p - unat start) = p" using assms(1) by (simp add: of_nat_diff)
  then show ?thesis
    unfolding e copy_from_add
    using assms copy_from_apart [of start "unat p - unat start" p bs h] copy_from_copy_to [of bs h p] by simp
qed

interpretation bytes_sink: volatile_sink bytes_write_volatile "bytes_ready start" "bytes_accepted start" bytes_space "\<lambda>_. 0"
  for start
proof (unfold_locales, goal_cases)
  case (1 t st u)
  then show ?case using bytes_apart_inside [of t st u] inside_addr [of t u] by (simp add: bytes_ready_def)
next
  case (2 t st)
  obtain b m where st: "st = (b, m)" by (cases st)
  have a: "bytes_apart t (b, m)" and base: "unat start \<le> unat (bb_ptr b)" using 2(1) st by (simp_all add: bytes_ready_def)
  define n where "n = min (sl_size t) (bb_len b)"
  let ?bs = "take (unat n) (slice_bytes t m)"
  let ?m = "m\<lparr>vm_heap := copy_to (vm_heap m) (bb_ptr b) ?bs\<rparr>"
  have le: "n \<le> bb_len b" "unat n \<le> unat (bb_len b)" "unat n \<le> unat (sl_size t)"
    by (auto simp: n_def min_def word_le_nat_alt)
  have len: "length ?bs = unat n" using le(3) by (simp add: slice_bytes_def)
  have w: "bytes_write_volatile t st = Some (Ok n, advance b n, ?m)"
    using bytes_write_volatile_copies [OF a 2(2)] st by (simp add: n_def)
  note adv = advance_addr [OF a le(1)]
  have "bytes_ready start t (advance b n, ?m)" using bytes_apart_advance [OF a le(1)] adv base by (simp add: bytes_ready_def)
  moreover have "slice_bytes t ?m = slice_bytes t m" using slice_bytes_apart [OF a 2(2)] len le(2) by simp
  moreover have "bytes_accepted start (advance b n, ?m) = bytes_accepted start (b, m) @ ?bs"
    using accepted_append [OF base, of ?bs "vm_heap m"] a len le(2) adv(1) by (simp add: bytes_accepted_def bytes_apart_def)
  moreover have "bytes_space (advance b n, ?m) = bytes_space (b, m) - enat (unat n)" using adv(2) by (simp add: bytes_space_def)
  moreover have "n = 0 \<longrightarrow> bytes_space (b, m) = 0"
    using 2(3) by (auto simp: n_def min_def bytes_space_def zero_enat_def split: if_splits)
  ultimately show ?case using w st le by (auto simp: bytes_space_def)
qed

definition cursor_accepted :: "byte_cursor \<times> vmem \<Rightarrow> u8 list" where
  "cursor_accepted st = bytes_accepted (bb_ptr (cu_inner (fst st))) (cursor_at (fst st), snd st)"

definition cursor_space :: "byte_cursor \<times> vmem \<Rightarrow> enat" where
  "cursor_space st = bytes_space (cursor_at (fst st), snd st)"

interpretation cursor_sink: volatile_sink cursor_write_volatile cursor_apart cursor_accepted cursor_space "\<lambda>_. 0"
proof (unfold_locales, goal_cases)
  case (1 t st u)
  then show ?case by (rule cursor_source.ready_inside)
next
  case (2 t st)
  obtain c m where st: "st = (c, m)" by (cases st)
  let ?s = "bb_ptr (cu_inner c)"
  have i: "bytes_apart t (cu_inner c, m)" using 2(1) st by (simp add: cursor_apart_def)
  have "min (cu_pos c) (bb_len (cu_inner c)) \<le> bb_len (cu_inner c)" by simp
  from advance_addr(1) [OF i this] have "bytes_ready ?s t (cursor_at c, m)"
    using cursor_at_apart [of t c m m] 2(1) st by (simp add: bytes_ready_def cursor_at_def)
  from bytes_sink.wr_step [OF this 2(2,3)] obtain r b m' where
    w: "bytes_write_volatile t (cursor_at c, m) = Some (r, b, m')" "slice_bytes t m' = slice_bytes t m"
      "vm_bitmaps m' = vm_bitmaps m" and
    n: "\<exists>n. r = Ok n \<and> unat n \<le> unat (sl_size t) \<and> enat (unat n) \<le> bytes_space (cursor_at c, m) \<and>
         (n = 0 \<longrightarrow> bytes_space (cursor_at c, m) = 0) \<and>
         bytes_accepted ?s (b, m') = bytes_accepted ?s (cursor_at c, m) @ take (unat n) (slice_bytes t m) \<and>
         bytes_space (b, m') = bytes_space (cursor_at c, m) - enat (unat n)" by fastforce
  from n obtain n where n: "r = Ok n" "unat n \<le> unat (sl_size t)" "enat (unat n) \<le> bytes_space (cursor_at c, m)"
      "n = 0 \<longrightarrow> bytes_space (cursor_at c, m) = 0"
      "bytes_accepted ?s (b, m') = bytes_accepted ?s (cursor_at c, m) @ take (unat n) (slice_bytes t m)"
      "bytes_space (b, m') = bytes_space (cursor_at c, m) - enat (unat n)" by blast
  have "b = advance (cursor_at c) n"
    using w(1) n(1) bytes_write_volatile_copies [OF cursor_at_apart [of t c m m] 2(2)] 2(1) st by simp
  moreover have "n \<le> bb_len (cursor_at c)" using n(3) by (simp add: bytes_space_def word_le_nat_alt)
  ultimately have "cursor_at (c\<lparr>cu_pos := cu_pos c + n\<rparr>) = b" using cursor_at_advance by simp
  moreover have "cursor_write_volatile t st = Some (Ok n, c\<lparr>cu_pos := cu_pos c + n\<rparr>, m')"
    using w(1) n(1) st by (simp add: cursor_write_volatile_def)
  moreover have "cursor_apart t (c\<lparr>cu_pos := cu_pos c + n\<rparr>, m')" using i by (simp add: cursor_apart_def bytes_apart_def)
  ultimately show ?case using w(2,3) n(2-6) st by (auto simp: cursor_accepted_def cursor_space_def)
qed

section \<open>Files\<close>

text \<open>
  What the dirty bitmap relies on of \<^verbatim>\<open>ReadFile\<close> and \<^verbatim>\<open>WSARecv\<close>: a call that succeeds puts as many bytes
  at the address as it reports, and not more than it was asked for; a call that fails, with whatever error, leaves the
  memory alone (the source marks nothing as dirty then).  The two differ in what result code means success.
\<close>

definition fills_reported :: "(u32 \<Rightarrow> bool) \<Rightarrow> 's win_buffer_io \<Rightarrow> bool" where
  "fills_reported succeeded io \<longleftrightarrow>
     (\<forall>p len s h res n e s' h'. io p len (s, h) = (res, n, e, s', h') \<longrightarrow>
       (if succeeded res then n \<le> len \<and> (\<exists>bs. length bs = unat n \<and> h' = copy_to h p bs) else h' = h))"

lemma fills_reportedD:
  assumes "fills_reported succeeded io" "io p len (s, h) = (res, n, e, s', h')"
  shows "if succeeded res then n \<le> len \<and> (\<exists>bs. length bs = unat n \<and> h' = copy_to h p bs) else h' = h"
  using assms unfolding fills_reported_def by blast

text \<open>
  What reading exactly relies on of \<^verbatim>\<open>ReadFile\<close>, for a file whose reads fail only by being interrupted: it puts at most
  as many bytes as asked for at the address, the next ones of the file, none only at the end of the file, or it reports an
  interruption and does nothing, which it does not do forever.  (Any other error ends the loop with that error.)
\<close>

definition reads_file :: "'s win_buffer_io \<Rightarrow> ('s \<Rightarrow> u8 list) \<Rightarrow> ('s \<Rightarrow> nat) \<Rightarrow> bool" where
  "reads_file ReadFile contents interrupts \<longleftrightarrow>
     (\<forall>p len s h res n e s' h'. ReadFile p len (s, h) = (res, n, e, s', h') \<longrightarrow>
       (if res \<noteq> 0 then
          n \<le> len \<and> unat n \<le> length (contents s) \<and> (n = 0 \<longrightarrow> len = 0 \<or> contents s = []) \<and>
          h' = copy_to h p (take (unat n) (contents s)) \<and> contents s' = drop (unat n) (contents s)
        else e = IoInterrupted \<and> h' = h \<and> contents s' = contents s \<and> interrupts s' < interrupts s))"

lemma reads_fileD:
  assumes "reads_file R contents interrupts" "R p len (s, h) = (res, n, e, s', h')"
  shows "if res \<noteq> 0 then
      n \<le> len \<and> unat n \<le> length (contents s) \<and> (n = 0 \<longrightarrow> len = 0 \<or> contents s = []) \<and>
      h' = copy_to h p (take (unat n) (contents s)) \<and> contents s' = drop (unat n) (contents s)
    else e = IoInterrupted \<and> h' = h \<and> contents s' = contents s \<and> interrupts s' < interrupts s"
  using assms unfolding reads_file_def by blast

lemma handle_read_volatile_raw: "handle_read_volatile R = read_volatile_raw_handle R"
  by (rule ext) (simp add: handle_read_volatile_def)

lemma tcp_read_volatile_raw: "tcp_read_volatile W = read_volatile_raw_socket W"
  by (rule ext) (simp add: tcp_read_volatile_def)

lemma unat_capped_len: "unat (capped_len t) = min (unat (sl_size t)) 0xffffffff"
proof -
  have "unat (min (sl_size t) 0xffffffff) = min (unat (sl_size t)) 0xffffffff"
    by (simp add: min_def word_le_nat_alt)
  moreover have "unat (ucast (min (sl_size t) 0xffffffff) :: u32) = unat (min (sl_size t) 0xffffffff) mod 2 ^ 32"
    by (simp add: unsigned_ucast_eq take_bit_eq_mod)
  ultimately show ?thesis by (simp add: capped_len_def)
qed

lemma reported_tracked:
  fixes n :: u32
  assumes "unat n \<le> unat (capped_len t)" "length bs = unat n" "bitmap_covers t m"
    and "mark_dirty (sl_bitmap t) 0 (ucast n) (m\<lparr>vm_heap := copy_to (vm_heap m) (sl_addr t) bs\<rparr>) = Some m'"
  shows "tracked_change t m m'"
proof -
  have "unat (ucast n :: usize) = unat n" using unat_bounds(3) [of n] by (simp add: unsigned_ucast_eq take_bit_nat_eq_self)
  then have "(of_nat (length bs) :: usize) = ucast n" using assms(2) by simp
  moreover have "length bs \<le> unat (sl_size t)" using assms(1,2) unat_capped_len [of t] by simp
  ultimately have "wrote t bs m m'" using assms(4) by (simp add: wrote_def)
  then show ?thesis by (rule wrote_tracked [OF inside_refl assms(3)])
qed

lemma raw_handle_tracking:
  assumes "fills_reported (\<lambda>res. res \<noteq> 0) ReadFile"
  shows "tracking_source (read_volatile_raw_handle ReadFile) (\<lambda>_ _. True)"
proof (unfold_locales, goal_cases)
  case (2 t st r st')
  obtain s m where st: "st = (s, m)" by (cases st)
  obtain res n e s' h' where c: "ReadFile (sl_addr t) (capped_len t) (s, vm_heap m) = (res, n, e, s', h')"
    by (metis surj_pair)
  note a = fills_reportedD [OF assms c]
  show ?case
  proof (cases "res = 0")
    case True
    then show ?thesis using a c st 2(4) by (auto simp: read_volatile_raw_handle_def tracked_change_refl)
  next
    case False
    then obtain bs where "unat n \<le> unat (capped_len t)" "length bs = unat n" "h' = copy_to (vm_heap m) (sl_addr t) bs"
      using a by (auto simp: word_le_nat_alt)
    then show ?thesis using reported_tracked [of n t bs m] c st 2(3,4) False by (auto simp: read_volatile_raw_handle_def Let_def)
  qed
qed simp

lemma raw_socket_tracking:
  assumes "fills_reported (\<lambda>res. res = 0) WSARecv"
  shows "tracking_source (read_volatile_raw_socket WSARecv) (\<lambda>_ _. True)"
proof (unfold_locales, goal_cases)
  case (2 t st r st')
  obtain s m where st: "st = (s, m)" by (cases st)
  obtain res n e s' h' where c: "WSARecv (sl_addr t) (capped_len t) (s, vm_heap m) = (res, n, e, s', h')"
    by (metis surj_pair)
  note a = fills_reportedD [OF assms c]
  show ?case
  proof (cases "res = 0")
    case False
    then show ?thesis using a c st 2(4) by (auto simp: read_volatile_raw_socket_def tracked_change_refl)
  next
    case True
    then obtain bs where "unat n \<le> unat (capped_len t)" "length bs = unat n" "h' = copy_to (vm_heap m) (sl_addr t) bs"
      using a by (auto simp: word_le_nat_alt)
    then show ?thesis using reported_tracked [of n t bs m] c st 2(3,4) True by (auto simp: read_volatile_raw_socket_def Let_def)
  qed
qed simp

lemma raw_handle_source:
  assumes "reads_file ReadFile contents interrupts"
  shows "volatile_source (read_volatile_raw_handle ReadFile) (\<lambda>_ _. True) (\<lambda>st. contents (fst st)) (\<lambda>st. interrupts (fst st))"
proof (unfold_locales, goal_cases)
  case (2 t st)
  obtain s m where st: "st = (s, m)" by (cases st)
  obtain res n e s' h' where c: "ReadFile (sl_addr t) (capped_len t) (s, vm_heap m) = (res, n, e, s', h')"
    by (metis surj_pair)
  have spec: "if res \<noteq> 0 then
      n \<le> capped_len t \<and> unat n \<le> length (contents s) \<and> (n = 0 \<longrightarrow> capped_len t = 0 \<or> contents s = []) \<and>
      h' = copy_to (vm_heap m) (sl_addr t) (take (unat n) (contents s)) \<and> contents s' = drop (unat n) (contents s)
    else e = IoInterrupted \<and> h' = vm_heap m \<and> contents s' = contents s \<and> interrupts s' < interrupts s"
    by (rule reads_fileD [OF assms c])
  show ?case
  proof (cases "res = 0")
    case True
    then show ?thesis using spec c st by (auto simp: read_volatile_raw_handle_def)
  next
    case False
    let ?n = "ucast n :: usize" and ?bs = "take (unat n) (contents s)"
    have u: "unat ?n = unat n" using unat_bounds(3) [of n] by (simp add: unsigned_ucast_eq take_bit_nat_eq_self)
    have n: "unat n \<le> unat (sl_size t)" "length ?bs = unat n"
      using spec False unat_capped_len [of t] by (simp_all add: word_le_nat_alt)
    obtain m' where m': "wrote t ?bs m m'" using wrote_total [of t m ?bs] 2(3) st n by auto
    then have "mark_dirty (sl_bitmap t) 0 ?n (m\<lparr>vm_heap := h'\<rparr>) = Some m'"
      using spec False n(2) u by (simp add: wrote_def)
    then have "read_volatile_raw_handle ReadFile t st = Some (Ok ?n, s', m')"
      using False c st by (simp add: read_volatile_raw_handle_def)
    moreover have "?n = 0 \<longrightarrow> sl_size t = 0 \<or> contents s = []"
      using spec False unat_capped_len [of t] u by (auto simp: unat_eq_0 [symmetric])
    ultimately show ?thesis using spec False m' u st by auto
  qed
qed simp

section \<open>Bytes of a slice\<close>

lemma slice_write_spec:
  assumes "bytes_apart s (b, m)" "slice_low s" "bitmap_covers s m" "bb_len b \<noteq> 0" "addr < sl_size s"
  obtains t m' where "slice_offset s addr = Ok t" "inside s t" "sl_addr t = sl_addr s + addr" "sl_size t = sl_size s - addr"
    "slice_write s b addr m = Some (Ok (min (sl_size s - addr) (bb_len b)), m')"
    "wrote t (take (unat (min (sl_size s - addr) (bb_len b))) (bytes_stream (b, m))) m m'"
proof -
  have "unat addr \<le> unat (sl_size s)" using assms(5) by (simp add: word_less_nat_alt)
  from slice_offset_low [OF assms(2) this] obtain t where
    t: "slice_offset s addr = Ok t" "inside s t" "sl_addr t = sl_addr s + addr" "sl_size t = sl_size s - addr" by blast
  from bytes_read_volatile_wrote [OF bytes_apart_inside [OF assms(1) t(2) assms(2)] slice_low_inside [OF assms(2) t(2)]
      bitmap_covers_inside [OF assms(3) t(2)]]
  obtain m' where "bytes_read_volatile t (b, m) =
      Some (Ok (min (sl_size t) (bb_len b)), advance b (min (sl_size t) (bb_len b)), m')"
    "wrote t (take (unat (min (sl_size t) (bb_len b))) (bytes_stream (b, m))) m m'" by blast
  then show thesis using that [OF t] assms(4,5) t(1,4) by (simp add: slice_write_def drop_source_def not_le)
qed

lemma slice_read_spec:
  assumes "bytes_apart s (b, m)" "slice_low s" "bb_len b \<noteq> 0" "addr < sl_size s"
  shows "slice_read s b addr m = Some (Ok (min (sl_size s - addr) (bb_len b)),
    m\<lparr>vm_heap := copy_to (vm_heap m) (bb_ptr b)
        (copy_from (vm_heap m) (sl_addr s + addr) (unat (min (sl_size s - addr) (bb_len b))))\<rparr>)"
proof -
  have "unat addr \<le> unat (sl_size s)" using assms(4) by (simp add: word_less_nat_alt)
  from slice_offset_low [OF assms(2) this] obtain t where
    t: "slice_offset s addr = Ok t" "inside s t" "sl_addr t = sl_addr s + addr" "sl_size t = sl_size s - addr" by blast
  let ?n = "min (sl_size t) (bb_len b)"
  have "unat ?n \<le> unat (sl_size t)" by (simp add: min_def word_le_nat_alt)
  then have "take (unat ?n) (slice_bytes t m) = copy_from (vm_heap m) (sl_addr t) (unat ?n)"
    by (simp add: slice_bytes_def copy_from_def take_map)
  then show ?thesis
    using bytes_write_volatile_copies [OF bytes_apart_inside [OF assms(1) t(2) assms(2)] slice_low_inside [OF assms(2) t(2)]]
      assms(3,4) t by (simp add: slice_read_def drop_source_def not_le)
qed

section \<open>All the ways to write\<close>

text \<open>
  One write to the memory below the slice \<open>s\<close> of a region, by an operation of the crate that keeps the bitmap: a store to
  a reference or to an element of an array, a copy from a buffer, from a slice or from an array, \<^verbatim>\<open>write\<close> and
  \<^verbatim>\<open>write_slice\<close> of \<^verbatim>\<open>Bytes\<close>, an atomic store, and \<^verbatim>\<open>read_volatile\<close> and \<^verbatim>\<open>read_exact_volatile\<close> from a file,
  a socket, a \<^verbatim>\<open>&[u8]\<close> or a \<^verbatim>\<open>Cursor\<close>.

  Not among them are writes through the plain references of \<^verbatim>\<open>aligned_as_mut\<close> and \<^verbatim>\<open>get_atomic_ref\<close> and through the
  pointers of the guards: they are ordinary memory accesses outside of the crate, which documents that the bitmap
  does not know of them.
\<close>

inductive guest_write :: "'s win_buffer_io \<Rightarrow> 't win_buffer_io \<Rightarrow> vol_slice \<Rightarrow> vmem \<Rightarrow> vmem \<Rightarrow> bool" for R W s where
  store: "derived s t \<Longrightarrow> get_ref n t off = Some (Ok r) \<Longrightarrow> length v = unat n \<Longrightarrow> ref_store n r v m = Some m' \<Longrightarrow>
    guest_write R W s m m'"
| array_store: "derived s t \<Longrightarrow> get_array_ref n t off k = Some (Ok a) \<Longrightarrow> length v = unat n \<Longrightarrow>
    array_store n a i v m = Some m' \<Longrightarrow> guest_write R W s m m'"
| array_fill: "derived s t \<Longrightarrow> get_array_ref n t off k = Some (Ok a) \<Longrightarrow>
    copyable buf (ar_addr a) (min len (unat (ar_nelem a)) * unat n) \<Longrightarrow> array_copy_from n a buf len m = Some m' \<Longrightarrow>
    guest_write R W s m m'"
| fill: "derived s t \<Longrightarrow> n \<noteq> 0 \<Longrightarrow> copyable buf (sl_addr t) (min len (unat (sl_size t) div unat n) * unat n) \<Longrightarrow>
    slice_copy_from n t buf len m = Some m' \<Longrightarrow> guest_write R W s m m'"
| copy: "derived s t \<Longrightarrow> slice_copy_to_volatile_slice u t m = Some m' \<Longrightarrow> guest_write R W s m m'"
| array_copy: "derived s t \<Longrightarrow> array_copy_to_volatile_slice n a t m = Some m' \<Longrightarrow> guest_write R W s m m'"
| bytes: "derived s t \<Longrightarrow> bytes_apart t (b, m) \<Longrightarrow> slice_write t b addr m = Some (r, m') \<Longrightarrow> guest_write R W s m m'"
| all_bytes: "derived s t \<Longrightarrow> bytes_apart t (b, m) \<Longrightarrow> slice_write_slice t b addr m = Some (r, m') \<Longrightarrow>
    guest_write R W s m m'"
| atomic: "derived s t \<Longrightarrow> length v = unat n \<Longrightarrow> slice_store n al t v addr m = Some (r, m') \<Longrightarrow> guest_write R W s m m'"
| from_file: "derived s t \<Longrightarrow>
    slice_read_volatile_from t addr (handle_read_volatile R) count (f, m) = Some (r, f', m') \<Longrightarrow> guest_write R W s m m'"
| exact_from_file: "derived s t \<Longrightarrow>
    slice_read_exact_volatile_from t addr (default_read_exact_volatile (handle_read_volatile R)) count (f, m) = Some (r, f', m') \<Longrightarrow>
    guest_write R W s m m'"
| from_socket: "derived s t \<Longrightarrow>
    slice_read_volatile_from t addr (tcp_read_volatile W) count (k, m) = Some (r, k', m') \<Longrightarrow> guest_write R W s m m'"
| exact_from_socket: "derived s t \<Longrightarrow>
    slice_read_exact_volatile_from t addr (default_read_exact_volatile (tcp_read_volatile W)) count (k, m) = Some (r, k', m') \<Longrightarrow>
    guest_write R W s m m'"
| from_bytes: "derived s t \<Longrightarrow> bytes_apart t (b, m) \<Longrightarrow>
    slice_read_volatile_from t addr bytes_read_volatile count (b, m) = Some (r, b', m') \<Longrightarrow> guest_write R W s m m'"
| exact_from_bytes: "derived s t \<Longrightarrow> bytes_apart t (b, m) \<Longrightarrow>
    slice_read_exact_volatile_from t addr bytes_read_exact_volatile count (b, m) = Some (r, b', m') \<Longrightarrow>
    guest_write R W s m m'"
| from_cursor: "derived s t \<Longrightarrow> cursor_apart t (c, m) \<Longrightarrow>
    slice_read_volatile_from t addr cursor_read_volatile count (c, m) = Some (r, c', m') \<Longrightarrow> guest_write R W s m m'"
| exact_from_cursor: "derived s t \<Longrightarrow> cursor_apart t (c, m) \<Longrightarrow>
    slice_read_exact_volatile_from t addr cursor_read_exact_volatile count (c, m) = Some (r, c', m') \<Longrightarrow>
    guest_write R W s m m'"

lemma mark_dirty_slice_at: "mark_dirty (bitmap_slice_at d b) 0 n m = mark_dirty b d n m"
  by (cases b) (simp_all add: mark_dirty_def bitmap_slice_at_def base_slice_at_def base_slice_new_def base_mark_dirty_def
      option.map_comp comp_def)

lemma slice_store_tracked:
  assumes "slice_store n al t v addr m = Some (r, m')" "length v = unat n" "bitmap_covers t m"
  shows "tracked_change t m m'"
proof -
  consider "m' = m" | u where "subslice t addr n = Ok u" "wrote u v m m'"
  proof (cases r)
    case (Ok x)
    with assms(1) obtain p where p: "get_atomic_ref n al t addr = Some (Ok p)"
      "mark_dirty (sl_bitmap t) addr n (m\<lparr>vm_heap := copy_to (vm_heap m) p v\<rparr>) = Some m'"
      by (auto simp: slice_store_def split: option.splits result.splits)
    then obtain u where u: "subslice t addr n = Ok u" "p = sl_addr u"
      by (auto simp: get_atomic_ref_def slice_get_slice_def split: result.splits if_splits)
    then have "wrote u v m m'"
      using p(2) assms(2) by (simp add: wrote_def subslice_Ok with_bitmap_def mark_dirty_slice_at)
    then show thesis using that(2) u(1) by blast
  next
    case (Err e)
    then show thesis using assms(1) that(1) by (auto simp: slice_store_def split: option.splits result.splits)
  qed
  then show ?thesis
  proof cases
    case (2 u)
    note i = subslice_inside [OF 2(1)]
    then show ?thesis using wrote_tracked [OF i assms(3) 2(2)] by simp
  qed (simp add: tracked_change_refl)
qed

lemma slice_write_tracked:
  assumes "slice_write s b addr m = Some (r, m')" "bytes_apart s (b, m)" "slice_low s" "bitmap_covers s m"
  shows "tracked_change s m m'"
proof (cases "bb_len b \<noteq> 0 \<and> addr < sl_size s")
  case True
  then obtain t m1 bs where "inside s t" "slice_write s b addr m = Some (Ok (min (sl_size s - addr) (bb_len b)), m1)"
    "wrote t bs m m1" using slice_write_spec [OF assms(2-4)] by metis
  then show ?thesis using wrote_tracked assms(1,4) by simp
next
  case False
  then have "m' = m" using assms(1) by (auto simp: slice_write_def not_le split: if_splits)
  then show ?thesis by (simp add: tracked_change_refl)
qed

lemma read_exact_volatile_loop: "slice_low t \<Longrightarrow> default_read_exact_volatile rd t st = read_exact_loop rd t st"
  by (cases t) (simp add: default_read_exact_volatile_def slice_offset_def slice_low_def checked_add_def checked_sub_def with_bitmap_def)

lemma write_all_volatile_loop: "slice_low t \<Longrightarrow> default_write_all_volatile wr t st = write_all_loop wr t st"
  by (cases t) (simp add: default_write_all_volatile_def slice_offset_def slice_low_def checked_add_def checked_sub_def with_bitmap_def)

lemma bytes_read_exact_tracked:
  assumes "bytes_read_exact_volatile t (b, m) = Some (r, st')" "bytes_apart t (b, m)" "slice_low t" "bitmap_covers t m"
  shows "tracked_change t m (snd st')"
  using assms bytes_source.tracking.rd_tracked [of t "(b, m)" _ st']
  by (auto simp: bytes_read_exact_volatile_def tracked_change_refl split: if_splits)

lemma cursor_read_exact_tracked:
  assumes "cursor_read_exact_volatile t (c, m) = Some (r, st')" "cursor_apart t (c, m)" "slice_low t" "bitmap_covers t m"
  shows "tracked_change t m (snd st')"
proof -
  obtain x where x: "bytes_read_exact_volatile t (cursor_at c, m) = Some x"
    using assms(1) by (auto simp: cursor_read_exact_volatile_def Let_def)
  obtain q b' m' where q: "x = (q, b', m')" by (metis surj_pair)
  have "snd st' = m'" using assms(1) x q by (cases q) (auto simp: cursor_read_exact_volatile_def Let_def)
  with x q show ?thesis
    using bytes_read_exact_tracked [of t "cursor_at c" m q "(b', m')"] cursor_at_apart [OF assms(2)] assms(3,4) by simp
qed

lemma guest_write_tracked:
  assumes "guest_write R W s m m'" and R: "fills_reported (\<lambda>res. res \<noteq> 0) R" and W: "fills_reported (\<lambda>res. res = 0) W"
    and "slice_low s" "unat (sl_size s) < 2 ^ 63" "bitmap_covers s m"
  shows "tracked_change s m m'"
proof -
  note ins = derived_inside [OF slice_low_wf [OF assms(4)]]
  note low = slice_low_inside [OF assms(4) ins] and cov = bitmap_covers_inside [OF assms(6) ins]
  have size63: "unat (sl_size t) < 2 ^ 63" if "derived s t" for t
    using ins [OF that] assms(5) by (auto simp: inside_def)
  note sub = tracked_change_inside [OF ins]
  note viaw = wrote_tracked [OF inside_trans [OF ins] assms(6)]
  note fh = raw_handle_tracking [OF R, folded handle_read_volatile_raw]
  note sk = raw_socket_tracking [OF W, folded tcp_read_volatile_raw]
  have into: "slice_low u" "bitmap_covers u m" if "derived s t" "inside t u" for t u
    using slice_low_inside [OF low [OF that(1)] that(2)] bitmap_covers_inside [OF cov [OF that(1)] that(2)] by simp_all
  from assms(1) show ?thesis
  proof cases
    case (store t n off r v)
    then show ?thesis using viaw [OF _ get_ref_inside] by (simp add: ref_store_wrote)
  next
    case (array_store t n off k a v i)
    then obtain r where r: "ref_at n a i = Some r" "ref_store n r v m = Some m'"
      by (auto simp: array_store_def bind_eq_Some_conv)
    note a = get_array_ref_inside [OF array_store(2)]
    have "inside t (ref_to_slice n r)" using inside_trans [OF a(1) ref_at_inside [OF r(1)]] a(2,3) by simp
    then show ?thesis using viaw [OF array_store(1)] r(2) array_store(3) by (simp add: ref_store_wrote)
  next
    case (array_fill t n off k a buf len)
    note a = get_array_ref_inside [OF array_fill(2)]
    then show ?thesis using viaw [OF array_fill(1) a(1)] array_copy_from_wrote [OF array_fill(3)] array_fill(4) by simp
  next
    case (fill t n buf len)
    then show ?thesis using wrote_tracked [OF ins assms(6)] slice_copy_from_wrote [OF _ size63] by blast
  next
    case (copy t u)
    then show ?thesis using wrote_tracked [OF ins assms(6)] slice_copy_to_volatile_slice_wrote by blast
  next
    case (array_copy t n a)
    then show ?thesis using wrote_tracked [OF ins assms(6)] array_copy_to_volatile_slice_wrote by blast
  next
    case (bytes t b addr r)
    then show ?thesis using sub slice_write_tracked low cov by blast
  next
    case (all_bytes t b addr r)
    then obtain q where "slice_write t b addr m = Some (q, m')" by (auto simp: slice_write_slice_def)
    then show ?thesis using sub slice_write_tracked low cov all_bytes(1,2) by blast
  next
    case (atomic t v n al addr r)
    then show ?thesis using sub slice_store_tracked cov by blast
  next
    case (from_file t addr count f r f')
    show ?thesis using sub [OF from_file(1)] tracking_source.read_volatile_from_tracked [OF fh from_file(2) TrueI]
      low [OF from_file(1)] cov [OF from_file(1)] by simp
  next
    case (exact_from_file t addr count f r f')
    show ?thesis using sub [OF exact_from_file(1)] tracking_source.exact_default_from_tracked [OF fh exact_from_file(2) TrueI]
      low [OF exact_from_file(1)] cov [OF exact_from_file(1)] by simp
  next
    case (from_socket t addr count k r k')
    show ?thesis using sub [OF from_socket(1)] tracking_source.read_volatile_from_tracked [OF sk from_socket(2) TrueI]
      low [OF from_socket(1)] cov [OF from_socket(1)] by simp
  next
    case (exact_from_socket t addr count k r k')
    show ?thesis using sub [OF exact_from_socket(1)] tracking_source.exact_default_from_tracked [OF sk exact_from_socket(2) TrueI]
      low [OF exact_from_socket(1)] cov [OF exact_from_socket(1)] by simp
  next
    case (from_bytes t b addr count r b')
    show ?thesis using sub [OF from_bytes(1)] bytes_source.tracking.read_volatile_from_tracked [OF from_bytes(3,2)]
      low [OF from_bytes(1)] cov [OF from_bytes(1)] by simp
  next
    case (exact_from_bytes t b addr count r b')
    have "tracked_change t (snd (b, m)) (snd (b', m'))"
    proof (rule read_exact_from_tracked [OF exact_from_bytes(3)])
      fix u
      assume u: "inside t u" "bytes_read_exact_volatile u (b, m) = Some (r, b', m')"
      show "tracked_change u (snd (b, m)) (snd (b', m'))"
        using bytes_read_exact_tracked [OF u(2) bytes_apart_inside [OF exact_from_bytes(2) u(1) low [OF exact_from_bytes(1)]]]
          into [OF exact_from_bytes(1) u(1)] by simp
    qed
    then show ?thesis using sub [OF exact_from_bytes(1)] by simp
  next
    case (from_cursor t c addr count r c')
    show ?thesis using sub [OF from_cursor(1)] cursor_source.tracking.read_volatile_from_tracked [OF from_cursor(3,2)]
      low [OF from_cursor(1)] cov [OF from_cursor(1)] by simp
  next
    case (exact_from_cursor t c addr count r c')
    have "tracked_change t (snd (c, m)) (snd (c', m'))"
    proof (rule read_exact_from_tracked [OF exact_from_cursor(3)])
      fix u
      assume u: "inside t u" "cursor_read_exact_volatile u (c, m) = Some (r, c', m')"
      show "tracked_change u (snd (c, m)) (snd (c', m'))"
        using cursor_read_exact_tracked [OF u(2) cursor_source.ready_inside [OF exact_from_cursor(2) u(1) low [OF exact_from_cursor(1)]]]
          into [OF exact_from_cursor(1) u(1)] by simp
    qed
    then show ?thesis using sub [OF exact_from_cursor(1)] by simp
  qed
qed

lemma guest_writes_tracked:
  assumes "(guest_write R W s)\<^sup>*\<^sup>* m m'" "fills_reported (\<lambda>res. res \<noteq> 0) R" "fills_reported (\<lambda>res. res = 0) W"
    "slice_low s" "unat (sl_size s) < 2 ^ 63" "bitmap_covers s m"
  shows "tracked_change s m m'"
  using assms(1)
proof (induction rule: rtranclp_induct)
  case base
  show ?case by (rule tracked_change_refl)
next
  case (step m1 m2)
  then have "bitmap_covers s m1" using assms(6) by (simp add: tracked_change_def)
  then show ?case using tracked_change_trans [OF step.IH] guest_write_tracked [OF step.hyps(2) assms(2-5)] by blast
qed

section \<open>Exact reads from buffers\<close>

lemma read_exact_one_step:
  assumes "rd t st = Some (Ok (sl_size t), st')" "slice_low t" "sl_size t \<noteq> 0"
  shows "read_exact_loop rd t st = Some (Ok (), st')"
proof -
  obtain u where u: "slice_offset t (sl_size t) = Ok u" "sl_size u = 0"
    using slice_offset_low [OF assms(2), of "sl_size t"] by (metis diff_self order_refl)
  have "retry_eintr (rd t) st = Some (Ok (sl_size t), st')" using assms(1) by (subst retry_eintr.simps) simp
  then have "read_exact_loop rd t st = read_exact_loop rd u st'"
    using u(1) assms(3) by (subst read_exact_loop.simps) (simp add: slice_is_empty_def)
  also have "\<dots> = Some (Ok (), st')" using u(2) by (subst read_exact_loop.simps) (simp add: slice_is_empty_def)
  finally show ?thesis .
qed

lemma wrote_Nil: "wrote t [] m m' \<Longrightarrow> m' = m"
  by (auto simp: wrote_def mark_dirty_def base_mark_dirty_def base_slice_new_def atomic_mark_dirty_def set_addr_range_def
      set_reset_addr_range_def split: bitmap_slice.splits)

lemma bytes_read_all:
  assumes "slice_low t" "bitmap_covers t m" "bytes_apart t (b, m)" "sl_size t \<le> bb_len b"
  obtains m' where "bytes_read_volatile t (b, m) = Some (Ok (sl_size t), advance b (sl_size t), m')"
    "sl_size t = 0 \<Longrightarrow> m' = m \<and> advance b (sl_size t) = b"
proof -
  have mn: "min (sl_size t) (bb_len b) = sl_size t" using assms(4) by simp
  from bytes_read_volatile_wrote [OF assms(3,1,2)] obtain m' where
    m': "bytes_read_volatile t (b, m) = Some (Ok (sl_size t), advance b (sl_size t), m')"
      "wrote t (take (unat (sl_size t)) (bytes_stream (b, m))) m m'" unfolding mn by blast
  show thesis by (rule that [OF m'(1)]) (use m'(2) wrote_Nil in \<open>auto simp: advance_def\<close>)
qed

lemma bytes_read_exact_cases:
  assumes "slice_low t" "bitmap_covers t m"
  shows "bytes_apart t (b, m) \<longrightarrow>
    (if sl_size t \<le> bb_len b then
       read_exact_loop bytes_read_volatile t (b, m) = bytes_read_exact_volatile t (b, m) \<and>
       (\<exists>st. bytes_read_exact_volatile t (b, m) = Some (Ok (), st))
     else
       bytes_read_exact_volatile t (b, m) = Some (Err (IOError IoUnexpectedEof), b, m) \<and>
       (\<exists>st. read_exact_loop bytes_read_volatile t (b, m) = Some (Err (IOError IoUnexpectedEof), st)))"
proof (cases "sl_size t \<le> bb_len b")
  case True
  show ?thesis
  proof
    assume a: "bytes_apart t (b, m)"
    obtain m' where m': "bytes_read_volatile t (b, m) = Some (Ok (sl_size t), advance b (sl_size t), m')"
      "sl_size t = 0 \<Longrightarrow> m' = m \<and> advance b (sl_size t) = b" using bytes_read_all [OF assms a True] by blast
    have "bytes_read_exact_volatile t (b, m) = Some (Ok (), advance b (sl_size t), m')"
      using m'(1) True by (simp add: bytes_read_exact_volatile_def)
    moreover have "read_exact_loop bytes_read_volatile t (b, m) = Some (Ok (), advance b (sl_size t), m')"
      using read_exact_one_step [of bytes_read_volatile t "(b, m)"] assms(1) m'
      by (cases "sl_size t = 0") (simp_all add: read_exact_loop.simps slice_is_empty_def)
    ultimately show "if sl_size t \<le> bb_len b then
        read_exact_loop bytes_read_volatile t (b, m) = bytes_read_exact_volatile t (b, m) \<and>
        (\<exists>st. bytes_read_exact_volatile t (b, m) = Some (Ok (), st))
      else bytes_read_exact_volatile t (b, m) = Some (Err (IOError IoUnexpectedEof), b, m) \<and>
        (\<exists>st. read_exact_loop bytes_read_volatile t (b, m) = Some (Err (IOError IoUnexpectedEof), st))"
      using True by simp
  qed
next
  case False
  then show ?thesis
    using bytes_source.read_exact_loop_returns [OF _ assms(1), of "(b, m)"] assms(2)
    by (auto simp: bytes_read_exact_volatile_def bytes_stream_def word_le_nat_alt word_less_nat_alt)
qed

lemma cursor_read_exact_cases:
  assumes "slice_low t" "bitmap_covers t m"
  shows "cursor_apart t (c, m) \<longrightarrow>
    (if sl_size t \<le> bb_len (cursor_at c) then
       read_exact_loop cursor_read_volatile t (c, m) = cursor_read_exact_volatile t (c, m) \<and>
       (\<exists>st. cursor_read_exact_volatile t (c, m) = Some (Ok (), st))
     else
       cursor_read_exact_volatile t (c, m) = Some (Err (IOError IoUnexpectedEof), c, m) \<and>
       (\<exists>st. read_exact_loop cursor_read_volatile t (c, m) = Some (Err (IOError IoUnexpectedEof), st)))"
proof (cases "sl_size t \<le> bb_len (cursor_at c)")
  case True
  show ?thesis
  proof
    assume "cursor_apart t (c, m)"
    then have a: "bytes_apart t (cursor_at c, m)" by (rule cursor_at_apart)
    let ?c = "c\<lparr>cu_pos := cu_pos c + sl_size t\<rparr>"
    obtain m' where m': "bytes_read_volatile t (cursor_at c, m) = Some (Ok (sl_size t), advance (cursor_at c) (sl_size t), m')"
      "sl_size t = 0 \<Longrightarrow> m' = m" using bytes_read_all [OF assms a True] by blast
    have "cursor_read_exact_volatile t (c, m) = Some (Ok (), ?c, m')"
      using m'(1) True by (simp add: cursor_read_exact_volatile_def bytes_read_exact_volatile_def Let_def not_less)
    moreover have "cursor_read_volatile t (c, m) = Some (Ok (sl_size t), ?c, m')"
      using m'(1) by (simp add: cursor_read_volatile_def)
    then have "read_exact_loop cursor_read_volatile t (c, m) = Some (Ok (), ?c, m')"
      using read_exact_one_step [of cursor_read_volatile t "(c, m)"] assms(1) m'(2)
      by (cases "sl_size t = 0") (simp_all add: read_exact_loop.simps slice_is_empty_def)
    ultimately show "if sl_size t \<le> bb_len (cursor_at c) then
        read_exact_loop cursor_read_volatile t (c, m) = cursor_read_exact_volatile t (c, m) \<and>
        (\<exists>st. cursor_read_exact_volatile t (c, m) = Some (Ok (), st))
      else cursor_read_exact_volatile t (c, m) = Some (Err (IOError IoUnexpectedEof), c, m) \<and>
        (\<exists>st. read_exact_loop cursor_read_volatile t (c, m) = Some (Err (IOError IoUnexpectedEof), st))"
      using True by simp
  qed
next
  case False
  then show ?thesis
    using cursor_source.read_exact_loop_returns [OF _ assms(1), of "(c, m)"] assms(2)
    by (auto simp: cursor_read_exact_volatile_def bytes_read_exact_volatile_def cursor_stream_def bytes_stream_def
        Let_def word_le_nat_alt word_less_nat_alt)
qed

section \<open>Properties\<close>

text \<open>
  C24.  No write that goes through the crate's volatile operations escapes the dirty bitmap.  Take the slice of a region whose
  bitmap is as long as the region, and any sequence of the writes of \<open>guest_write\<close> through slices, references and arrays
  obtained from it: stores, atomic stores, copies from buffers, slices and arrays, and reads from a file, a socket, a
  \<^verbatim>\<open>&[u8]\<close> or a \<^verbatim>\<open>Cursor\<close>, which may succeed, stop early or fail, provided that \<^verbatim>\<open>ReadFile\<close> and \<^verbatim>\<open>WSARecv\<close> write what
  they report and nothing when they fail.  Whatever byte of the whole memory differs afterwards is a byte of the region and
  reads as dirty, and nothing that was dirty before has become clean.  Writes through the plain references and pointers that
  \<^verbatim>\<open>aligned_as_mut\<close>, \<^verbatim>\<open>get_atomic_ref\<close> and the pointer guards hand out are not covered: the crate documents that they are not
  tracked.
\<close>

theorem writes_are_tracked:
  assumes "slice_low s" "unat (sl_size s) < 2 ^ 63" "sl_bitmap s \<noteq> NoBitmap" "bitmap_covers s m"
    and "fills_reported (\<lambda>res. res \<noteq> 0) R" "fills_reported (\<lambda>res. res = 0) W" "(guest_write R W s)\<^sup>*\<^sup>* m m'"
  shows "(\<forall>a. vm_heap m' a \<noteq> vm_heap m a \<longrightarrow>
      (\<exists>k < unat (sl_size s). a = sl_addr s + of_nat k \<and> dirty_at (sl_bitmap s) (of_nat k) m' = Some True)) \<and>
    (\<forall>b x. dirty_at b x m = Some True \<longrightarrow> dirty_at b x m' = Some True)"
  using guest_writes_tracked [OF assms(7,5,6,1,2,4)] assms(3) by (auto simp: tracked_change_def)

text \<open>A file read two bytes at a time, whose first read is interrupted.\<close>

definition demo_chunk_file :: "(bool \<times> u8 list) win_buffer_io" where
  "demo_chunk_file p len st =
     (case st of ((i, bs), h) \<Rightarrow>
        if i then (0, 0, IoInterrupted, (False, bs), h)
        else
          let n = min 2 (min (unat len) (length bs))
          in (1, of_nat n, IoOther 0, (False, drop n bs), copy_to h p (take n bs)))"

lemma demo_reads_file: "reads_file demo_chunk_file snd (\<lambda>s. if fst s then 1 else 0)"
proof -
  have u: "unat (of_nat (min 2 k) :: u32) = min 2 k" for k by (intro unat_of_nat_small) (simp add: min_def)
  have z: "(of_nat (min 2 k) :: u32) = 0 \<longleftrightarrow> k = 0" for k
    using u [of k] by (metis min_0R min_less_iff_conj not_gr_zero unat_0 unat_eq_0 zero_less_numeral)
  have mz: "min (unat len) (length bs) = 0 \<longleftrightarrow> len = 0 \<or> bs = []" for len :: u32 and bs :: "u8 list"
    by (auto simp: min_def unat_eq_0)
  show ?thesis
    unfolding reads_file_def
    by (auto simp: demo_chunk_file_def Let_def u z mz word_le_nat_alt split: if_splits)
qed

lemma demo_fills_reported: "fills_reported (\<lambda>res. res \<noteq> 0) demo_chunk_file"
proof -
  have u: "unat (of_nat (min 2 k) :: u32) = min 2 k" for k by (intro unat_of_nat_small) (simp add: min_def)
  have b: "\<exists>bs. length bs = min 2 (min (unat len) (length b)) \<and>
      copy_to h p (take (min 2 (min (unat len) (length b))) b) = copy_to h p bs" for h p and len :: u32 and b :: "u8 list"
    by (rule exI [of _ "take (min 2 (min (unat len) (length b))) b"]) simp
  show ?thesis
    unfolding fills_reported_def
    by (auto simp: demo_chunk_file_def Let_def u word_le_nat_alt b split: if_splits)
qed

text \<open>A socket whose every read fails.\<close>

definition demo_socket :: "unit win_buffer_io" where
  "demo_socket p len st = (1, 0, IoOther 10054, st)"

lemma demo_socket_fills: "fills_reported (\<lambda>res. res = 0) demo_socket"
  by (simp add: fills_reported_def demo_socket_def)

definition demo_region :: vol_slice where
  "demo_region = with_bitmap 0x7000 0x1000 (RefSlice 0 0)"

definition demo_memory :: vmem where
  "demo_memory = \<lparr>vm_heap = \<lambda>_. 0, vm_bitmaps = \<lambda>_. bitmap_new 0x1000 0x80\<rparr>"

lemma demo_region_ok:
  "slice_low demo_region" "sl_addr demo_region = 0x7000" "sl_size demo_region = 0x1000"
  "sl_bitmap demo_region = RefSlice 0 0" "bitmap_covers demo_region demo_memory"
proof -
  have "ab_byte_size (bitmap_new 0x1000 0x80) = 0x1000" by (simp add: bitmap_new_def Let_def)
  then show "bitmap_covers demo_region demo_memory"
    using bitmap_new_wf [of "0x80" "0x1000"] by (simp add: bitmap_covers_def demo_region_def with_bitmap_def demo_memory_def)
qed (simp_all add: slice_low_def demo_region_def with_bitmap_def)

theorem writes_are_tracked_witness:
  "\<exists>r m. get_ref 2 demo_region 8 = Some (Ok r) \<and> ref_store 2 r [1, 2] demo_memory = Some m \<and>
     dirty_at (RefSlice 0 0) 8 m = Some True"
proof -
  let ?r = "\<lparr>rf_addr = 0x7008, rf_bitmap = RefSlice 0 8\<rparr>"
  have "subslice demo_region 8 2 = Ok (with_bitmap 0x7008 2 (RefSlice 0 8))"
    by (simp add: subslice_Ok demo_region_ok bitmap_slice_at_def base_slice_at_def base_slice_new_def)
  then have r: "get_ref 2 demo_region 8 = Some (Ok ?r)" by (simp add: get_ref_def slice_get_slice_def with_bitmap_def)
  obtain m where w: "wrote (ref_to_slice 2 ?r) [1, 2] demo_memory m"
    using wrote_total [OF bitmap_covers_inside [OF demo_region_ok(5) get_ref_inside [OF r]], of "[1, 2]"]
    by (auto simp: ref_to_slice_def with_bitmap_def)
  then have st: "ref_store 2 ?r [1, 2] demo_memory = Some m" by (simp add: ref_store_wrote)
  have "guest_write demo_chunk_file demo_socket demo_region demo_memory m"
    by (rule guest_write.store [OF derived.self r _ st]) simp
  then have c: "(guest_write demo_chunk_file demo_socket demo_region)\<^sup>*\<^sup>* demo_memory m" by simp
  have "vm_heap m 0x7008 = 1"
    using wrote_heap [OF w] by (simp add: ref_to_slice_def with_bitmap_def copy_to_def)
  then have "vm_heap m 0x7008 \<noteq> vm_heap demo_memory 0x7008" by (simp add: demo_memory_def)
  with writes_are_tracked [OF demo_region_ok(1) _ _ demo_region_ok(5) demo_fills_reported demo_socket_fills c] obtain k where
    k: "0x7008 = 0x7000 + (of_nat k :: u64)" "dirty_at (RefSlice 0 0) (of_nat k) m = Some True"
    by (auto simp: demo_region_ok)
  have "(of_nat k :: u64) = 8" using k(1) by (simp add: algebra_simps)
  then show ?thesis using r st k(2) by auto
qed

text \<open>
  C29.  Reading exactly.  From a file that delivers its bytes in pieces of any size and may be interrupted any
  finite number of times, \<^verbatim>\<open>read_exact_volatile\<close> returns.  It fills the whole slice with the next bytes of
  the file when there are enough; otherwise it reports the unexpected end of the file, with what there was
  in the slice.  Memory outside the slice does not change.
\<close>

theorem read_exact_from_file:
  assumes "reads_file R contents interrupts" "slice_low t" "bitmap_covers t m"
  shows "\<exists>f' m'. default_read_exact_volatile (handle_read_volatile R) t (f, m) =
      Some (if unat (sl_size t) \<le> length (contents f) then Ok () else Err (IOError IoUnexpectedEof), f', m') \<and>
    vm_heap m' = copy_to (vm_heap m) (sl_addr t) (take (unat (sl_size t)) (contents f)) \<and>
    contents f' = drop (unat (sl_size t)) (contents f)"
  using volatile_source.read_exact_loop_returns [OF raw_handle_source [OF assms(1)] TrueI assms(2), of "(f, m)"] assms(3)
  by (fastforce simp: read_exact_volatile_loop [OF assms(2)] handle_read_volatile_raw)

theorem read_exact_from_file_witness:
  "\<exists>f' m'. default_read_exact_volatile (handle_read_volatile demo_chunk_file) (with_bitmap 0x7000 3 NoBitmap)
      ((True, [10, 11, 12, 13, 14]), demo_memory) = Some (Ok (), f', m') \<and>
    vm_heap m' = copy_to (\<lambda>_. 0) 0x7000 [10, 11, 12] \<and> snd f' = [13, 14]"
proof -
  have "slice_low (with_bitmap 0x7000 3 NoBitmap)" "bitmap_covers (with_bitmap 0x7000 3 NoBitmap) demo_memory"
    by (simp_all add: slice_low_def bitmap_covers_def with_bitmap_def)
  from read_exact_from_file [OF demo_reads_file this, of "(True, [10, 11, 12, 13, 14])"] show ?thesis
    by (simp add: with_bitmap_def demo_memory_def)
qed

text \<open>
  The shortcuts agree with the default.  \<^verbatim>\<open>&[u8]\<close> and \<^verbatim>\<open>Cursor\<close> replace the loop of
  \<^verbatim>\<open>read_exact_volatile\<close> by one test and one copy.  When the buffer has enough bytes, the loop and the
  shortcut give the same result, the same rest of the buffer and the same memory; when it has not, both
  report the unexpected end, and only the shortcut leaves everything as it was.
\<close>

theorem read_exact_shortcuts:
  assumes "slice_low t" "bitmap_covers t m"
  shows "(bytes_apart t (b, m) \<longrightarrow>
      (if sl_size t \<le> bb_len b then
         default_read_exact_volatile bytes_read_volatile t (b, m) = bytes_read_exact_volatile t (b, m) \<and>
         (\<exists>st. bytes_read_exact_volatile t (b, m) = Some (Ok (), st))
       else
         bytes_read_exact_volatile t (b, m) = Some (Err (IOError IoUnexpectedEof), b, m) \<and>
         (\<exists>st. default_read_exact_volatile bytes_read_volatile t (b, m) = Some (Err (IOError IoUnexpectedEof), st)))) \<and>
    (cursor_apart t (c, m) \<longrightarrow>
      (if sl_size t \<le> bb_len (cursor_at c) then
         default_read_exact_volatile cursor_read_volatile t (c, m) = cursor_read_exact_volatile t (c, m) \<and>
         (\<exists>st. cursor_read_exact_volatile t (c, m) = Some (Ok (), st))
       else
         cursor_read_exact_volatile t (c, m) = Some (Err (IOError IoUnexpectedEof), c, m) \<and>
         (\<exists>st. default_read_exact_volatile cursor_read_volatile t (c, m) = Some (Err (IOError IoUnexpectedEof), st))))"
  unfolding read_exact_volatile_loop [OF assms(1)]
  by (rule conjI [OF bytes_read_exact_cases [OF assms] cursor_read_exact_cases [OF assms]])

theorem read_exact_shortcuts_witness:
  "\<exists>st. default_read_exact_volatile bytes_read_volatile demo_region (\<lparr>bb_ptr = 0x20000, bb_len = 0x1800\<rparr>, demo_memory) =
     Some (Ok (), st)"
proof -
  let ?b = "\<lparr>bb_ptr = 0x20000, bb_len = 0x1800\<rparr>"
  have "bytes_apart demo_region (?b, demo_memory)" by (simp add: bytes_apart_def demo_region_ok)
  then show ?thesis using read_exact_shortcuts [OF demo_region_ok(1,5), of ?b] by (simp add: demo_region_ok)
qed

text \<open>
  Writing everything.  \<^verbatim>\<open>write_all_volatile\<close> appends all bytes of a slice to a vector.  On a cursor over a
  buffer, and likewise on a buffer itself, it succeeds exactly when they fit in what is left; when they do not, the
  space is filled and the result is \<^verbatim>\<open>WriteZero\<close>.
\<close>

theorem write_all_delivers:
  assumes "slice_low t"
  shows "(\<exists>m'. default_write_all_volatile vec_write_volatile t (v, m) = Some (Ok (), v @ slice_bytes t m, m')) \<and>
    (cursor_apart t (c, m) \<longrightarrow>
      (\<exists>c' m'. default_write_all_volatile cursor_write_volatile t (c, m) =
          Some (if sl_size t \<le> bb_len (cursor_at c) then Ok () else Err (IOError IoWriteZero), c', m') \<and>
        cursor_accepted (c', m') = cursor_accepted (c, m) @ take (unat (bb_len (cursor_at c))) (slice_bytes t m)))"
proof (intro conjI impI)
  from vec_sink.write_all_loop_returns [OF TrueI assms, of "(v, m)"]
  show "\<exists>m'. default_write_all_volatile vec_write_volatile t (v, m) = Some (Ok (), v @ slice_bytes t m, m')"
    by (auto simp: write_all_volatile_loop [OF assms] slice_bytes_def)
next
  assume "cursor_apart t (c, m)"
  from cursor_sink.write_all_loop_returns [OF this assms] obtain k c' m' where
    k: "write_all_loop cursor_write_volatile t (c, m) = Some (if enat (unat (sl_size t)) \<le> cursor_space (c, m) then Ok ()
        else Err (IOError IoWriteZero), c', m')" "enat k = min (enat (unat (sl_size t))) (cursor_space (c, m))"
      "cursor_accepted (c', m') = cursor_accepted (c, m) @ take k (slice_bytes t m)" by auto
  have "k = min (unat (sl_size t)) (unat (bb_len (cursor_at c)))" using k(2) by (simp add: cursor_space_def bytes_space_def)
  then have "take k (slice_bytes t m) = take (unat (bb_len (cursor_at c))) (slice_bytes t m)"
    by (simp add: slice_bytes_def min_def)
  then show "\<exists>c' m'. default_write_all_volatile cursor_write_volatile t (c, m) =
      Some (if sl_size t \<le> bb_len (cursor_at c) then Ok () else Err (IOError IoWriteZero), c', m') \<and>
    cursor_accepted (c', m') = cursor_accepted (c, m) @ take (unat (bb_len (cursor_at c))) (slice_bytes t m)"
    using k by (simp add: write_all_volatile_loop [OF assms] cursor_space_def bytes_space_def word_le_nat_alt)
qed

theorem write_all_delivers_witness:
  "(\<exists>m. default_write_all_volatile vec_write_volatile (with_bitmap 0x7000 2 NoBitmap) ([9], demo_memory) = Some (Ok (), [9, 0, 0], m)) \<and>
   (\<exists>c m. default_write_all_volatile cursor_write_volatile (with_bitmap 0x7000 2 NoBitmap)
      (\<lparr>cu_inner = \<lparr>bb_ptr = 0x20000, bb_len = 1\<rparr>, cu_pos = 0\<rparr>, demo_memory) = Some (Err (IOError IoWriteZero), c, m))"
proof -
  let ?t = "with_bitmap 0x7000 2 NoBitmap" and ?c = "\<lparr>cu_inner = \<lparr>bb_ptr = 0x20000, bb_len = 1\<rparr>, cu_pos = 0\<rparr>"
  have t: "slice_low ?t" by (simp add: slice_low_def with_bitmap_def)
  have "slice_bytes ?t demo_memory = [0, 0]"
    by (simp add: slice_bytes_def with_bitmap_def demo_memory_def copy_from_def upt_rec)
  moreover have "cursor_apart ?t (?c, demo_memory)" by (simp add: cursor_apart_def bytes_apart_def with_bitmap_def)
  ultimately show ?thesis
    using write_all_delivers [OF t, of "[9]" demo_memory ?c]
    by (auto simp: cursor_at_def advance_def with_bitmap_def word_le_nat_alt)
qed

text \<open>
  Bytes of a slice make the round trip.  Writing a buffer at an address at which it fits and reading as
  many bytes from there into another buffer succeeds and gives the same bytes; when the buffer only fits in part,
  the part is written and the result says how much; at an address beyond the slice nothing happens but an error.
\<close>

theorem slice_bytes_roundtrip:
  fixes addr :: usize
  assumes "slice_low s" "bitmap_covers s m" "bytes_apart s (b, m)" "bytes_apart s (d, m)" "bb_len b = bb_len d" "bb_len b \<noteq> 0"
  defines "avail \<equiv> sl_size s - addr"
  shows "(addr < sl_size s \<and> bb_len b \<le> avail \<longrightarrow>
      (\<exists>m1 m2. slice_write_slice s b addr m = Some (Ok (), m1) \<and> slice_read_slice s d addr m1 = Some (Ok (), m2) \<and>
         bytes_stream (d, m2) = bytes_stream (b, m))) \<and>
    (addr < sl_size s \<and> avail < bb_len b \<longrightarrow>
      (\<exists>m1. slice_write_slice s b addr m = Some (Err (PartialBuffer (bb_len b) avail), m1) \<and>
         vm_heap m1 = copy_to (vm_heap m) (sl_addr s + addr) (take (unat avail) (bytes_stream (b, m))))) \<and>
    (sl_size s \<le> addr \<longrightarrow>
      slice_write_slice s b addr m = Some (Err (OutOfBounds addr), m) \<and>
      slice_read_slice s b addr m = Some (Err (OutOfBounds addr), m))"
proof (intro conjI impI)
  assume a: "addr < sl_size s \<and> bb_len b \<le> avail"
  then have mn: "min (sl_size s - addr) (bb_len b) = bb_len b" by (simp add: avail_def min_absorb2)
  from a have ad: "addr < sl_size s" by simp
  obtain t m1 where
    t: "inside s t" "sl_addr t = sl_addr s + addr" "slice_write s b addr m = Some (Ok (bb_len b), m1)"
      "wrote t (take (unat (bb_len b)) (bytes_stream (b, m))) m m1"
    by (rule slice_write_spec [OF assms(3,1,2,6) ad, unfolded mn])
  have len: "length (bytes_stream (b, m)) = unat (bb_len b)" by (simp add: bytes_stream_def)
  have h1: "vm_heap m1 = copy_to (vm_heap m) (sl_addr s + addr) (bytes_stream (b, m))"
    using wrote_heap [OF t(4)] t(2) len by simp
  have d1: "bytes_apart s (d, m1)" using assms(4) by (simp add: bytes_apart_def)
  let ?bs = "copy_from (vm_heap m1) (sl_addr s + addr) (unat (bb_len d))"
  have r: "slice_read s d addr m1 = Some (Ok (bb_len d), m1\<lparr>vm_heap := copy_to (vm_heap m1) (bb_ptr d) ?bs\<rparr>)"
    using slice_read_spec [OF d1 assms(1), of addr] a mn assms(5,6) by simp
  have "?bs = bytes_stream (b, m)"
    using copy_from_copy_to [of "bytes_stream (b, m)" "vm_heap m" "sl_addr s + addr"] h1 len assms(5)
      unat_bounds(4) [of "bb_len b"] by simp
  moreover have "copy_from (copy_to (vm_heap m1) (bb_ptr d) ?bs) (bb_ptr d) (unat (bb_len d)) = ?bs"
    using copy_from_copy_to [of ?bs "vm_heap m1" "bb_ptr d"] unat_bounds(4) [of "bb_len d"] by simp
  ultimately show "\<exists>m1 m2. slice_write_slice s b addr m = Some (Ok (), m1) \<and> slice_read_slice s d addr m1 = Some (Ok (), m2) \<and>
      bytes_stream (d, m2) = bytes_stream (b, m)"
    using t(3) r by (auto simp: slice_write_slice_def slice_read_slice_def bytes_stream_def)
next
  assume a: "addr < sl_size s \<and> avail < bb_len b"
  then have mn: "min (sl_size s - addr) (bb_len b) = avail" by (simp add: avail_def min_absorb1)
  from a have ad: "addr < sl_size s" by simp
  obtain t m1 where
    t: "sl_addr t = sl_addr s + addr" "slice_write s b addr m = Some (Ok avail, m1)"
      "wrote t (take (unat avail) (bytes_stream (b, m))) m m1"
    by (rule slice_write_spec [OF assms(3,1,2,6) ad, unfolded mn])
  then show "\<exists>m1. slice_write_slice s b addr m = Some (Err (PartialBuffer (bb_len b) avail), m1) \<and>
      vm_heap m1 = copy_to (vm_heap m) (sl_addr s + addr) (take (unat avail) (bytes_stream (b, m)))"
    using wrote_heap [OF t(3)] a by (auto simp: slice_write_slice_def)
qed (use assms(6) in \<open>simp_all add: slice_write_slice_def slice_read_slice_def slice_write_def slice_read_def\<close>)

theorem slice_bytes_roundtrip_witness:
  "\<exists>m1 m2. slice_write_slice demo_region \<lparr>bb_ptr = 0x20000, bb_len = 4\<rparr> 0xffc demo_memory = Some (Ok (), m1) \<and>
     slice_read_slice demo_region \<lparr>bb_ptr = 0x30000, bb_len = 4\<rparr> 0xffc m1 = Some (Ok (), m2) \<and>
     copy_from (vm_heap m2) 0x30000 4 = copy_from (vm_heap demo_memory) 0x20000 4"
proof -
  let ?b = "\<lparr>bb_ptr = 0x20000, bb_len = 4\<rparr>" and ?d = "\<lparr>bb_ptr = 0x30000, bb_len = 4\<rparr>"
  have "bytes_apart demo_region (?b, demo_memory)" "bytes_apart demo_region (?d, demo_memory)"
    by (simp_all add: bytes_apart_def demo_region_ok)
  then show ?thesis
    using slice_bytes_roundtrip [OF demo_region_ok(1,5), of ?b ?d "0xffc"] by (simp add: demo_region_ok bytes_stream_def)
qed

end
