(* ===== verification/Vm_Region.thy ===== *)
theory Vm_Region
  imports Volatile_Io "HOL-Library.Multiset"
begin

text \<open>
  Regions of guest memory (\<^verbatim>\<open>vm-memory/src/mmap/\<close>, \<^verbatim>\<open>vm-memory/src/region.rs\<close>): mappings of host memory, the
  place of a mapping in the address space of the guest, and the sorted collection of all regions.

  The calls of Windows that reserve memory and map files are parameters.  A mapping names its dirty
  bitmap, if it has one; the bitmaps are part of the memory state.  An \<^verbatim>\<open>Arc\<close> is the value it points to.
\<close>

section \<open>Errors\<close>

datatype gm_error =
    InvalidGuestAddress u64
  | GuestIOError vm_io_error
  | GuestPartialBuffer usize usize
  | InvalidBackendAddress
  | HostAddressNotAvailable
  | CallbackOutOfRange
  | GuestAddressOverflow

fun from_volatile :: "vol_error \<Rightarrow> gm_error" where
  "from_volatile (OutOfBounds a) = InvalidBackendAddress"
| "from_volatile (Overflow b o') = InvalidBackendAddress"
| "from_volatile (TooBig n k) = InvalidBackendAddress"
| "from_volatile (Misaligned a al) = InvalidBackendAddress"
| "from_volatile (IOError e) = GuestIOError e"
| "from_volatile (PartialBuffer e c) = GuestPartialBuffer e c"

fun into_guest :: "(vol_error, 'a) result \<Rightarrow> (gm_error, 'a) result" where
  "into_guest (Ok x) = Ok x"
| "into_guest (Err e) = Err (from_volatile e)"

datatype mmap_error = EINVAL | EBADF | LastOsError

datatype collection_error = NoMemoryRegion | MemoryRegionOverlap | UnsortedMemoryRegions

datatype from_ranges_error = Collection collection_error | MmapRegionError mmap_error | InvalidGuestRegion

section \<open>Mappings\<close>

record file_offset =
  fo_handle :: u64
  fo_start :: u64

record mmap_region =
  mp_addr :: u64
  mp_size :: usize
  mp_bitmap :: "nat option"
  mp_file_offset :: "file_offset option"

record win_memory =
  virtual_alloc :: "usize \<Rightarrow> u64"
  create_file_mapping :: "u64 \<Rightarrow> u32 \<Rightarrow> u32 \<Rightarrow> u64"
  map_view_of_file :: "u64 \<Rightarrow> u32 \<Rightarrow> u32 \<Rightarrow> usize \<Rightarrow> u64"

definition MM_HIGHEST_VAD_ADDRESS :: u64 where
  "MM_HIGHEST_VAD_ADDRESS = 0x000007FFFFFDFFFF"

definition INVALID_HANDLE_VALUE :: u64 where
  "INVALID_HANDLE_VALUE = - 1"

text \<open>\<^verbatim>\<open>B::with_len\<close> for \<^verbatim>\<open>()\<close> and \<^verbatim>\<open>AtomicBitmap\<close>; \<open>bm\<close> is the place of the new bitmap.\<close>

definition new_bitmap :: "u32 \<Rightarrow> nat option \<Rightarrow> usize \<Rightarrow> vmem \<Rightarrow> vmem panics" where
  "new_bitmap page_size bm len m =
     (case bm of
        None \<Rightarrow> Some m
      | Some i \<Rightarrow> map_option (\<lambda>b. m\<lparr>vm_bitmaps := (vm_bitmaps m)(i := b)\<rparr>) (bitmap_with_len page_size len))"

definition mmap_new ::
  "win_memory \<Rightarrow> u32 \<Rightarrow> nat option \<Rightarrow> usize \<Rightarrow> vmem \<Rightarrow> ((mmap_error, mmap_region) result \<times> vmem) panics" where
  "mmap_new w page_size bm sz m =
     (if sz = 0 \<or> MM_HIGHEST_VAD_ADDRESS < sz then Some (Err EINVAL, m)
      else
        let addr = virtual_alloc w sz
        in if addr = 0 then Some (Err LastOsError, m)
           else map_option
                  (\<lambda>m'. (Ok \<lparr>mp_addr = addr, mp_size = sz, mp_bitmap = bm, mp_file_offset = None\<rparr>, m'))
                  (new_bitmap page_size bm sz m))"

definition mmap_from_file ::
  "win_memory \<Rightarrow> u32 \<Rightarrow> nat option \<Rightarrow> file_offset \<Rightarrow> usize \<Rightarrow> vmem \<Rightarrow> ((mmap_error, mmap_region) result \<times> vmem) panics" where
  "mmap_from_file w page_size bm f sz m =
     (if fo_handle f = INVALID_HANDLE_VALUE then Some (Err EBADF, m)
      else
        let mapping = create_file_mapping w (fo_handle f) (ucast (drop_bit 32 sz)) (ucast sz)
        in if mapping = 0 then Some (Err LastOsError, m)
           else
             let addr = map_view_of_file w mapping (ucast (drop_bit 32 (fo_start f))) (ucast (fo_start f)) sz
             in if addr = 0 then Some (Err LastOsError, m)
                else map_option
                       (\<lambda>m'. (Ok \<lparr>mp_addr = addr, mp_size = sz, mp_bitmap = bm, mp_file_offset = Some f\<rparr>, m'))
                       (new_bitmap page_size bm sz m))"

definition mmap_slice_at :: "mmap_region \<Rightarrow> usize \<Rightarrow> bitmap_slice" where
  "mmap_slice_at r offset = (case mp_bitmap r of None \<Rightarrow> NoBitmap | Some i \<Rightarrow> RefSlice i offset)"

definition mmap_get_slice :: "mmap_region \<Rightarrow> usize \<Rightarrow> usize \<Rightarrow> (vol_error, vol_slice) result" where
  "mmap_get_slice r offset amount =
     (case compute_offset offset amount of
        Err e \<Rightarrow> Err e
      | Ok e \<Rightarrow>
          if mp_size r < e then Err (OutOfBounds e)
          else Ok (with_bitmap (mp_addr r + offset) amount (mmap_slice_at r offset)))"

section \<open>Regions\<close>

record guest_region =
  gr_mapping :: mmap_region
  gr_base :: u64

definition region_with_arc :: "mmap_region \<Rightarrow> u64 \<Rightarrow> guest_region option" where
  "region_with_arc mapping guest_base =
     map_option (\<lambda>_. \<lparr>gr_mapping = mapping, gr_base = guest_base\<rparr>) (checked_add guest_base (mp_size mapping))"

definition region_new :: "mmap_region \<Rightarrow> u64 \<Rightarrow> guest_region option" where
  "region_new mapping guest_base = region_with_arc mapping guest_base"

definition region_from_range ::
  "win_memory \<Rightarrow> u32 \<Rightarrow> nat option \<Rightarrow> u64 \<Rightarrow> usize \<Rightarrow> file_offset option \<Rightarrow> vmem \<Rightarrow>
     ((from_ranges_error, guest_region) result \<times> vmem) panics" where
  "region_from_range w page_size bm addr sz f m =
     map_option
       (\<lambda>(r, m'). (case r of
                     Err e \<Rightarrow> Err (MmapRegionError e)
                   | Ok region \<Rightarrow>
                       (case region_new region addr of None \<Rightarrow> Err InvalidGuestRegion | Some g \<Rightarrow> Ok g), m'))
       (case f of
          Some f_off \<Rightarrow> mmap_from_file w page_size bm f_off sz m
        | None \<Rightarrow> mmap_new w page_size bm sz m)"

definition region_len :: "guest_region \<Rightarrow> u64" where
  "region_len r = mp_size (gr_mapping r)"

definition region_start_addr :: "guest_region \<Rightarrow> u64" where
  "region_start_addr r = gr_base r"

definition region_last_addr :: "guest_region \<Rightarrow> u64" where
  "region_last_addr r = addr_unchecked_add (region_start_addr r) (region_len r - 1)"

definition region_address_in_range :: "guest_region \<Rightarrow> u64 \<Rightarrow> bool" where
  "region_address_in_range r addr \<longleftrightarrow> addr < region_len r"

definition region_check_address :: "guest_region \<Rightarrow> u64 \<Rightarrow> u64 option" where
  "region_check_address r addr = (if region_address_in_range r addr then Some addr else None)"

definition region_checked_offset :: "guest_region \<Rightarrow> u64 \<Rightarrow> usize \<Rightarrow> u64 option" where
  "region_checked_offset r base offset = Option.bind (addr_checked_add base offset) (region_check_address r)"

definition region_to_region_addr :: "guest_region \<Rightarrow> u64 \<Rightarrow> u64 option" where
  "region_to_region_addr r addr =
     Option.bind (addr_checked_offset_from addr (region_start_addr r)) (region_check_address r)"

definition region_get_host_address :: "guest_region \<Rightarrow> u64 \<Rightarrow> (gm_error, u64) result" where
  "region_get_host_address r addr =
     (case region_check_address r addr of
        None \<Rightarrow> Err InvalidBackendAddress
      | Some a \<Rightarrow> Ok (mp_addr (gr_mapping r) + a))"

definition region_get_slice :: "guest_region \<Rightarrow> u64 \<Rightarrow> usize \<Rightarrow> (gm_error, vol_slice) result" where
  "region_get_slice r offset amount = into_guest (mmap_get_slice (gr_mapping r) offset amount)"

definition region_as_volatile_slice :: "guest_region \<Rightarrow> (gm_error, vol_slice) result" where
  "region_as_volatile_slice r = region_get_slice r 0 (region_len r)"

section \<open>Bytes of a region\<close>

definition region_write :: "guest_region \<Rightarrow> byte_slice \<Rightarrow> u64 \<Rightarrow> vmem \<Rightarrow> ((gm_error, usize) result \<times> vmem) panics" where
  "region_write r buf addr m =
     (case region_as_volatile_slice r of
        Err e \<Rightarrow> Some (Err e, m)
      | Ok s \<Rightarrow> map_option (map_prod into_guest (\<lambda>x. x)) (slice_write s buf addr m))"

definition region_read :: "guest_region \<Rightarrow> byte_slice \<Rightarrow> u64 \<Rightarrow> vmem \<Rightarrow> ((gm_error, usize) result \<times> vmem) panics" where
  "region_read r buf addr m =
     (case region_as_volatile_slice r of
        Err e \<Rightarrow> Some (Err e, m)
      | Ok s \<Rightarrow> map_option (map_prod into_guest (\<lambda>x. x)) (slice_read s buf addr m))"

definition region_write_slice :: "guest_region \<Rightarrow> byte_slice \<Rightarrow> u64 \<Rightarrow> vmem \<Rightarrow> ((gm_error, unit) result \<times> vmem) panics" where
  "region_write_slice r buf addr m =
     (case region_as_volatile_slice r of
        Err e \<Rightarrow> Some (Err e, m)
      | Ok s \<Rightarrow> map_option (map_prod into_guest (\<lambda>x. x)) (slice_write_slice s buf addr m))"

definition region_read_slice :: "guest_region \<Rightarrow> byte_slice \<Rightarrow> u64 \<Rightarrow> vmem \<Rightarrow> ((gm_error, unit) result \<times> vmem) panics" where
  "region_read_slice r buf addr m =
     (case region_as_volatile_slice r of
        Err e \<Rightarrow> Some (Err e, m)
      | Ok s \<Rightarrow> map_option (map_prod into_guest (\<lambda>x. x)) (slice_read_slice s buf addr m))"

type_synonym ('s, 'a) guest_io = "'s \<times> vmem \<Rightarrow> ((gm_error, 'a) result \<times> 's \<times> vmem) panics"

definition region_read_volatile_from ::
  "guest_region \<Rightarrow> u64 \<Rightarrow> (vol_slice \<Rightarrow> ('s, usize) io_step) \<Rightarrow> usize \<Rightarrow> ('s, usize) guest_io" where
  "region_read_volatile_from r addr rd amount st =
     (case region_as_volatile_slice r of
        Err e \<Rightarrow> Some (Err e, st)
      | Ok s \<Rightarrow> map_option (map_prod into_guest (\<lambda>x. x)) (slice_read_volatile_from s addr rd amount st))"

definition region_read_exact_volatile_from ::
  "guest_region \<Rightarrow> u64 \<Rightarrow> (vol_slice \<Rightarrow> ('s, unit) io_step) \<Rightarrow> usize \<Rightarrow> ('s, unit) guest_io" where
  "region_read_exact_volatile_from r addr rd_exact amount st =
     (case region_as_volatile_slice r of
        Err e \<Rightarrow> Some (Err e, st)
      | Ok s \<Rightarrow> map_option (map_prod into_guest (\<lambda>x. x)) (slice_read_exact_volatile_from s addr rd_exact amount st))"

definition region_write_volatile_to ::
  "guest_region \<Rightarrow> u64 \<Rightarrow> (vol_slice \<Rightarrow> ('s, usize) io_step) \<Rightarrow> usize \<Rightarrow> ('s, usize) guest_io" where
  "region_write_volatile_to r addr wr amount st =
     (case region_as_volatile_slice r of
        Err e \<Rightarrow> Some (Err e, st)
      | Ok s \<Rightarrow> map_option (map_prod into_guest (\<lambda>x. x)) (slice_write_volatile_to s addr wr amount st))"

definition region_write_all_volatile_to ::
  "guest_region \<Rightarrow> u64 \<Rightarrow> (vol_slice \<Rightarrow> ('s, unit) io_step) \<Rightarrow> usize \<Rightarrow> ('s, unit) guest_io" where
  "region_write_all_volatile_to r addr wr_all amount st =
     (case region_as_volatile_slice r of
        Err e \<Rightarrow> Some (Err e, st)
      | Ok s \<Rightarrow> map_option (map_prod into_guest (\<lambda>x. x)) (slice_write_all_volatile_to s addr wr_all amount st))"

definition region_store ::
  "usize \<Rightarrow> usize \<Rightarrow> guest_region \<Rightarrow> u8 list \<Rightarrow> u64 \<Rightarrow> vmem \<Rightarrow> ((gm_error, unit) result \<times> vmem) panics" where
  "region_store n al r val addr m =
     (case region_as_volatile_slice r of
        Err e \<Rightarrow> Some (Err e, m)
      | Ok s \<Rightarrow> map_option (map_prod into_guest (\<lambda>x. x)) (slice_store n al s val addr m))"

definition region_load :: "usize \<Rightarrow> usize \<Rightarrow> guest_region \<Rightarrow> u64 \<Rightarrow> vmem \<Rightarrow> (gm_error, u8 list) result panics" where
  "region_load n al r addr m =
     (case region_as_volatile_slice r of
        Err e \<Rightarrow> Some (Err e)
      | Ok s \<Rightarrow> map_option into_guest (slice_load n al s addr m))"

section \<open>The collection\<close>

type_synonym collection = "guest_region list"

text \<open>\<^verbatim>\<open>slice::binary_search_by_key\<close> of the standard library: \<open>Ok\<close> with the index found, \<open>Err\<close> with the place to insert.\<close>

function search_loop :: "'k::linorder \<Rightarrow> ('a \<Rightarrow> 'k) \<Rightarrow> 'a list \<Rightarrow> nat \<Rightarrow> nat \<Rightarrow> nat" where
  "search_loop key f xs sz base =
     (if sz \<le> 1 then base
      else
        let half = sz div 2;
            mid = base + half
        in search_loop key f xs (sz - half) (if key < f (xs ! mid) then base else mid))"
  by pat_completeness auto
termination
  by (relation "measure (\<lambda>(_, _, _, sz, _). sz)") auto

definition binary_search_by_key :: "'k::linorder \<Rightarrow> ('a \<Rightarrow> 'k) \<Rightarrow> 'a list \<Rightarrow> (nat, nat) result" where
  "binary_search_by_key key f xs =
     (if xs = [] then Err 0
      else
        let base = search_loop key f xs (length xs) 0
        in if f (xs ! base) = key then Ok base
           else if f (xs ! base) < key then Err (base + 1) else Err base)"

fun check_windows :: "collection \<Rightarrow> (collection_error, unit) result" where
  "check_windows (prev # nxt # rs) =
     (if region_start_addr nxt < region_start_addr prev then Err UnsortedMemoryRegions
      else if region_start_addr nxt \<le> region_last_addr prev then Err MemoryRegionOverlap
      else check_windows (nxt # rs))"
| "check_windows rs = Ok ()"

definition from_arc_regions :: "collection \<Rightarrow> (collection_error, collection) result" where
  "from_arc_regions regions =
     (if regions = [] then Err NoMemoryRegion
      else case check_windows regions of Err e \<Rightarrow> Err e | Ok _ \<Rightarrow> Ok regions)"

definition from_regions :: "collection \<Rightarrow> (collection_error, collection) result" where
  "from_regions regions = from_arc_regions regions"

definition insert_region :: "collection \<Rightarrow> guest_region \<Rightarrow> (collection_error, collection) result" where
  "insert_region c region = from_arc_regions (sort_key region_start_addr (c @ [region]))"

definition remove_region :: "collection \<Rightarrow> u64 \<Rightarrow> u64 \<Rightarrow> (collection_error, collection \<times> guest_region) result" where
  "remove_region c base sz =
     (case binary_search_by_key base region_start_addr c of
        Ok region_index \<Rightarrow>
          if region_len (c ! region_index) = sz
          then Ok (take region_index c @ drop (Suc region_index) c, c ! region_index)
          else Err NoMemoryRegion
      | Err _ \<Rightarrow> Err NoMemoryRegion)"

definition collection_find_region :: "collection \<Rightarrow> u64 \<Rightarrow> guest_region option" where
  "collection_find_region c addr =
     map_option (\<lambda>x. c ! x)
       (case binary_search_by_key addr region_start_addr c of
          Ok x \<Rightarrow> Some x
        | Err x \<Rightarrow> if 0 < x \<and> addr \<le> region_last_addr (c ! (x - 1)) then Some (x - 1) else None)"

text \<open>The default of \<^verbatim>\<open>GuestMemory::find_region\<close>, a scan.\<close>

definition default_find_region :: "collection \<Rightarrow> u64 \<Rightarrow> guest_region option" where
  "default_find_region c addr = find (\<lambda>r. region_start_addr r \<le> addr \<and> addr \<le> region_last_addr r) c"

text \<open>\<^verbatim>\<open>from_ranges\<close>: the regions are created in order and the first error ends it; \<open>bms\<close> are the places of the bitmaps.\<close>

primrec create_regions ::
  "win_memory \<Rightarrow> u32 \<Rightarrow> (nat option \<times> u64 \<times> usize \<times> file_offset option) list \<Rightarrow> vmem \<Rightarrow>
     ((from_ranges_error, collection) result \<times> vmem) panics" where
  "create_regions w page_size [] m = Some (Ok [], m)"
| "create_regions w page_size (x # xs) m =
     (case x of (bm, addr, sz, f) \<Rightarrow>
        Option.bind (region_from_range w page_size bm addr sz f m) (\<lambda>(r, m').
          case r of
            Err e \<Rightarrow> Some (Err e, m')
          | Ok region \<Rightarrow>
              map_option
                (\<lambda>(rs, m''). (case rs of Err e \<Rightarrow> Err e | Ok regions \<Rightarrow> Ok (region # regions), m''))
                (create_regions w page_size xs m')))"

definition from_ranges_with_files ::
  "win_memory \<Rightarrow> u32 \<Rightarrow> (nat option \<times> u64 \<times> usize \<times> file_offset option) list \<Rightarrow> vmem \<Rightarrow>
     ((from_ranges_error, collection) result \<times> vmem) panics" where
  "from_ranges_with_files w page_size ranges m =
     map_option
       (\<lambda>(r, m'). (case r of
                     Err e \<Rightarrow> Err e
                   | Ok regions \<Rightarrow> (case from_regions regions of Err e \<Rightarrow> Err (Collection e) | Ok c \<Rightarrow> Ok c), m'))
       (create_regions w page_size ranges m)"

definition from_ranges ::
  "win_memory \<Rightarrow> u32 \<Rightarrow> (nat option \<times> u64 \<times> usize) list \<Rightarrow> vmem \<Rightarrow>
     ((from_ranges_error, collection) result \<times> vmem) panics" where
  "from_ranges w page_size ranges m =
     from_ranges_with_files w page_size (map (\<lambda>(bm, addr, sz). (bm, addr, sz, None)) ranges) m"

section \<open>Binary search\<close>

declare search_loop.simps [simp del]

text \<open>The loop keeps the last element not above the key within its window.\<close>

lemma search_loop_spec:
  assumes "sorted (map f xs)" "0 < sz" "base + sz \<le> length xs"
    "\<forall>i < length xs. f (xs ! i) \<le> key \<longrightarrow> i < base + sz" "base = 0 \<or> f (xs ! base) \<le> key"
  defines "b \<equiv> search_loop key f xs sz base"
  shows "b < length xs \<and> (\<forall>i < length xs. f (xs ! i) \<le> key \<longrightarrow> i \<le> b) \<and> (b = 0 \<or> f (xs ! b) \<le> key)"
  unfolding b_def using assms(2-5)
proof (induction sz arbitrary: base rule: less_induct)
  case (less sz)
  show ?case
  proof (cases "sz \<le> 1")
    case True
    then have "sz = 1" using less.prems(1) by simp
    moreover have "search_loop key f xs sz base = base" using True by (subst search_loop.simps) simp
    ultimately show ?thesis using less.prems by auto
  next
    case False
    let ?h = "sz div 2" and ?base = "if key < f (xs ! (base + sz div 2)) then base else base + sz div 2"
    have h: "0 < ?h" "?h < sz" using False by auto
    have mid: "base + ?h < length xs" using h less.prems(2) by simp
    have step: "search_loop key f xs sz base = search_loop key f xs (sz - ?h) ?base"
      using False by (subst search_loop.simps) (simp add: Let_def)
    have le: "f (xs ! (base + ?h)) \<le> f (xs ! i)" if "base + ?h \<le> i" "i < length xs" for i
      using assms(1) that mid by (auto simp: sorted_iff_nth_mono)
    have "i < ?base + (sz - ?h)" if i: "i < length xs" "f (xs ! i) \<le> key" for i
    proof (cases "key < f (xs ! (base + ?h))")
      case True
      then have "i < base + ?h" using le [of i] i by (meson not_le order.trans leD)
      moreover have "?h \<le> sz - ?h" by simp
      ultimately show ?thesis using True by simp
    next
      case False
      then show ?thesis using less.prems(3) i h by auto
    qed
    then show ?thesis unfolding step using less.prems h by (intro less.IH) (auto simp: not_less)
  qed
qed

lemma binary_search_spec:
  assumes "sorted (map f xs)"
  shows "case binary_search_by_key key f xs of
      Ok x \<Rightarrow> x < length xs \<and> f (xs ! x) = key
    | Err x \<Rightarrow> x \<le> length xs \<and> (\<forall>i < length xs. f (xs ! i) < key \<longleftrightarrow> i < x) \<and> (\<forall>i < length xs. f (xs ! i) \<noteq> key)"
proof (cases "xs = []")
  case True
  then show ?thesis by (simp add: binary_search_by_key_def)
next
  case False
  define b where "b = search_loop key f xs (length xs) 0"
  have b: "b < length xs" "\<And>i. i < length xs \<Longrightarrow> f (xs ! i) \<le> key \<Longrightarrow> i \<le> b" "b = 0 \<or> f (xs ! b) \<le> key"
    using search_loop_spec [OF assms, of "length xs" 0 key] False by (auto simp: b_def)
  have mono: "f (xs ! i) \<le> f (xs ! j)" if "i \<le> j" "j < length xs" for i j
    using assms that by (auto simp: sorted_iff_nth_mono)
  show ?thesis
  proof (cases "f (xs ! b) = key")
    case True
    then show ?thesis using b(1) False by (simp add: binary_search_by_key_def b_def [symmetric] Let_def)
  next
    case ne: False
    have none: "f (xs ! i) \<noteq> key" if i: "i < length xs" for i
    proof
      assume k: "f (xs ! i) = key"
      then have "i \<le> b" using b(2) i by simp
      then have "key \<le> f (xs ! b)" using mono [of i b] b(1) k by simp
      moreover from this ne have "b = 0" using b(3) by auto
      ultimately show False using \<open>i \<le> b\<close> k ne by simp
    qed
    have "f (xs ! i) < key \<longleftrightarrow> i < (if f (xs ! b) < key then b + 1 else b)" if i: "i < length xs" for i
    proof (cases "f (xs ! b) < key")
      case True
      then show ?thesis using b(2) [OF i] mono [of i b] b(1) by (auto simp: less_Suc_eq_le)
    next
      case False
      then have "b = 0" using b(3) ne by auto
      then show ?thesis using mono [of 0 i] i False by auto
    qed
    moreover have "binary_search_by_key key f xs = Err (if f (xs ! b) < key then b + 1 else b)"
      using ne False by (simp add: binary_search_by_key_def b_def [symmetric] Let_def)
    ultimately show ?thesis using b(1) none by simp
  qed
qed

section \<open>The invariant of a collection\<close>

text \<open>
  A region has at least one byte and ends within the address space of the guest, which \<^verbatim>\<open>MmapRegion::new\<close> and
  \<^verbatim>\<open>GuestRegionMmap::new\<close> see to; in a collection the regions are in order and do not overlap.
\<close>

definition guest_region_wf :: "guest_region \<Rightarrow> bool" where
  "guest_region_wf r \<longleftrightarrow> 0 < unat (region_len r) \<and> unat (region_start_addr r) + unat (region_len r) < 2 ^ 64"

definition before :: "guest_region \<Rightarrow> guest_region \<Rightarrow> bool" where
  "before r s \<longleftrightarrow> region_last_addr r < region_start_addr s"

definition overlap :: "guest_region \<Rightarrow> guest_region \<Rightarrow> bool" where
  "overlap r s \<longleftrightarrow> region_start_addr r \<le> region_last_addr s \<and> region_start_addr s \<le> region_last_addr r"

definition collection_wf :: "collection \<Rightarrow> bool" where
  "collection_wf c \<longleftrightarrow> (\<forall>r \<in> set c. guest_region_wf r) \<and> sorted_wrt before c"

lemma region_last:
  assumes "guest_region_wf r"
  shows "unat (region_last_addr r) = unat (region_start_addr r) + unat (region_len r) - 1"
    "region_start_addr r \<le> region_last_addr r"
proof -
  have "1 \<le> region_len r" using assms by (simp add: guest_region_wf_def word_le_nat_alt)
  then have u: "unat (region_len r - 1) = unat (region_len r) - 1" by (simp add: unat_sub)
  then have "unat (region_start_addr r) + unat (region_len r - 1) < 2 ^ 64"
    using assms unfolding guest_region_wf_def by linarith
  then have "unat (region_last_addr r) = unat (region_start_addr r) + unat (region_len r - 1)"
    unfolding region_last_addr_def addr_unchecked_add_def by (intro unat_add_no_wrap) simp
  then show l: "unat (region_last_addr r) = unat (region_start_addr r) + unat (region_len r) - 1"
    using assms u by (simp add: guest_region_wf_def)
  show "region_start_addr r \<le> region_last_addr r"
    using assms l unfolding guest_region_wf_def word_le_nat_alt by linarith
qed

lemma check_windows_Ok:
  assumes "\<forall>r \<in> set c. guest_region_wf r"
  shows "check_windows c = Ok () \<longleftrightarrow> sorted_wrt before c"
  using assms
proof (induction c rule: check_windows.induct)
  case (1 prev nxt rs)
  have n: "region_start_addr nxt \<le> region_last_addr nxt" "region_start_addr prev \<le> region_last_addr prev"
    using 1(2) region_last(2) by simp_all
  then have "\<not> region_start_addr nxt < region_start_addr prev" if "before prev nxt" using that by (auto simp: before_def)
  moreover have "before prev r" if "before prev nxt" "before nxt r" for r using that n by (auto simp: before_def)
  ultimately show ?case using 1 by (auto simp: before_def not_le)
qed simp_all

lemma check_windows_sorted:
  assumes "sorted (map region_start_addr c)"
  shows "check_windows c = Ok () \<or> check_windows c = Err MemoryRegionOverlap"
  using assms by (induction c rule: check_windows.induct) auto

lemma collection_wf_sorted:
  assumes "collection_wf c"
  shows "sorted (map region_start_addr c)" "distinct (map region_start_addr c)" "sorted_wrt (\<lambda>r s. \<not> overlap r s) c"
proof -
  have b: "region_start_addr r < region_start_addr s" "\<not> overlap r s" if "r \<in> set c" "before r s" for r s
    using region_last(2) [of r] assms that by (auto simp: before_def overlap_def collection_wf_def)
  have s: "sorted_wrt before c" using assms by (simp add: collection_wf_def)
  then have st: "sorted_wrt (\<lambda>r s. region_start_addr r < region_start_addr s) c"
    by (rule sorted_wrt_mono_rel [rotated]) (use b(1) in blast)
  then have "sorted_wrt (<) (map region_start_addr c)" by (simp add: sorted_wrt_map)
  then show "sorted (map region_start_addr c)" "distinct (map region_start_addr c)"
    by (simp_all add: strict_sorted_iff)
  show "sorted_wrt (\<lambda>r s. \<not> overlap r s) c" by (rule sorted_wrt_mono_rel [OF _ s]) (use b(2) in blast)
qed

lemma sorted_wrt_sort_key:
  assumes "\<And>x y. P x y \<longleftrightarrow> P y x"
  shows "sorted_wrt P (sort_key f xs) \<longleftrightarrow> sorted_wrt P xs"
proof -
  have "sorted_wrt P (insort_key f x ys) \<longleftrightarrow> (\<forall>y \<in> set ys. P x y) \<and> sorted_wrt P ys" for x ys
    by (induction ys) (use assms in \<open>auto simp: set_insort_key\<close>)
  then show ?thesis by (induction xs) auto
qed

lemma overlap_sym: "overlap r s \<longleftrightarrow> overlap s r"
  by (auto simp: overlap_def)

lemma sorted_before:
  assumes "\<forall>r \<in> set c. guest_region_wf r" "sorted (map region_start_addr c)"
  shows "sorted_wrt before c \<longleftrightarrow> sorted_wrt (\<lambda>r s. \<not> overlap r s) c"
proof -
  have "before r s \<longleftrightarrow> \<not> overlap r s" if "s \<in> set c" "region_start_addr r \<le> region_start_addr s" for r s
    using that region_last(2) [of s] assms(1) by (auto simp: before_def overlap_def)
  then show ?thesis using assms(2) by (induction c) auto
qed

lemma insert_region_cases:
  assumes "collection_wf c" "guest_region_wf r"
  shows "insert_region c r =
    (if \<exists>s \<in> set c. overlap r s then Err MemoryRegionOverlap else Ok (sort_key region_start_addr (c @ [r])))"
proof -
  let ?c = "sort_key region_start_addr (c @ [r])"
  have wf: "\<forall>s \<in> set ?c. guest_region_wf s" using assms by (auto simp: collection_wf_def)
  have so: "sorted (map region_start_addr ?c)" by simp
  have "check_windows ?c = Ok () \<longleftrightarrow> sorted_wrt (\<lambda>r s. \<not> overlap r s) ?c"
    using check_windows_Ok [OF wf] sorted_before [OF wf so] by simp
  also have "\<dots> \<longleftrightarrow> sorted_wrt (\<lambda>r s. \<not> overlap r s) (c @ [r])"
    by (rule sorted_wrt_sort_key) (simp add: overlap_sym)
  also have "\<dots> \<longleftrightarrow> \<not> (\<exists>s \<in> set c. overlap r s)"
    using collection_wf_sorted(3) [OF assms(1)] overlap_sym by (auto simp: sorted_wrt_append)
  finally have "check_windows ?c = Ok () \<longleftrightarrow> \<not> (\<exists>s \<in> set c. overlap r s)" .
  moreover have "?c \<noteq> []" by (metis append_is_Nil_conv list.distinct(1) set_empty set_sort)
  ultimately show ?thesis using check_windows_sorted [OF so] by (auto simp: insert_region_def from_arc_regions_def)
qed

lemma insert_region_wf:
  assumes "collection_wf c" "guest_region_wf r" "insert_region c r = Ok c'"
  shows "collection_wf c'" "mset c' = add_mset r (mset c)"
proof -
  have c': "c' = sort_key region_start_addr (c @ [r])" using assms insert_region_cases [OF assms(1,2)] by (auto split: if_splits)
  have wf: "\<forall>s \<in> set c'. guest_region_wf s" using assms(1,2) by (auto simp: c' collection_wf_def)
  moreover have "check_windows c' = Ok ()"
    using assms(3) by (auto simp: insert_region_def from_arc_regions_def c' [symmetric] split: if_splits result.splits)
  ultimately show "collection_wf c'" using check_windows_Ok [OF wf] by (simp add: collection_wf_def)
  show "mset c' = add_mset r (mset c)" by (simp add: c')
qed

lemma remove_region_cases:
  assumes "collection_wf c"
  shows "case remove_region c base sz of
      Ok (c', r) \<Rightarrow> (\<exists>xs ys. c = xs @ r # ys \<and> c' = xs @ ys) \<and> region_start_addr r = base \<and> region_len r = sz
    | Err e \<Rightarrow> e = NoMemoryRegion \<and> \<not> (\<exists>r \<in> set c. region_start_addr r = base \<and> region_len r = sz)"
proof -
  note so = collection_wf_sorted [OF assms]
  note bs = binary_search_spec [OF so(1), of base]
  show ?thesis
  proof (cases "binary_search_by_key base region_start_addr c")
    case (Ok x)
    then have x: "x < length c" "region_start_addr (c ! x) = base" using bs by simp_all
    have "r = c ! x" if "r \<in> set c" "region_start_addr r = base" for r
      using that x so(2) by (auto simp: distinct_map inj_on_def)
    then show ?thesis using Ok x id_take_nth_drop [OF x(1)] by (auto simp: remove_region_def)
  next
    case (Err x)
    then have "region_start_addr r \<noteq> base" if "r \<in> set c" for r using bs that by (auto simp: in_set_conv_nth)
    then show ?thesis using Err by (auto simp: remove_region_def)
  qed
qed

lemma collection_wf_remove: "collection_wf (xs @ r # ys) \<Longrightarrow> collection_wf (xs @ ys)"
  by (auto simp: collection_wf_def sorted_wrt_append)

lemma insert_removed:
  assumes "collection_wf (xs @ r # ys)"
  shows "insert_region (xs @ ys) r = Ok (xs @ r # ys)"
proof -
  note so = collection_wf_sorted [OF assms]
  have "sort_key region_start_addr ((xs @ ys) @ [r]) = xs @ r # ys"
  proof (rule sort_key_inj_key_eq)
    have "inj_on region_start_addr (set (xs @ r # ys))" using so(2) unfolding distinct_map by blast
    then show "inj_on region_start_addr (set ((xs @ ys) @ [r]))" by (rule inj_on_subset) auto
  qed (use so(1) in simp_all)
  moreover have "\<not> overlap r s" if "s \<in> set (xs @ ys)" for s
    using that so(3) overlap_sym by (auto simp: sorted_wrt_append)
  ultimately show ?thesis
    using insert_region_cases [OF collection_wf_remove [OF assms], of r] assms by (auto simp: collection_wf_def)
qed

section \<open>Finding a region\<close>

lemma collection_find_region_spec:
  assumes "collection_wf c"
  shows "collection_find_region c addr = Some r \<longleftrightarrow>
    r \<in> set c \<and> region_start_addr r \<le> addr \<and> addr \<le> region_last_addr r"
proof -
  note so = collection_wf_sorted [OF assms]
  note bs = binary_search_spec [OF so(1), of addr]
  have uniq: "r = s" if "r \<in> set c" "s \<in> set c" "overlap r s" for r s
  proof (rule ccontr)
    assume "r \<noteq> s"
    then have "\<exists>i j. i < length c \<and> j < length c \<and> i \<noteq> j \<and> overlap (c ! i) (c ! j)"
      using that by (metis in_set_conv_nth)
    then show False using so(3) overlap_sym unfolding sorted_wrt_iff_nth_less by (metis linorder_neqE_nat)
  qed
  have last: "region_start_addr s \<le> region_last_addr s" if "s \<in> set c" for s
    using that assms region_last(2) by (simp add: collection_wf_def)
  have found: "collection_find_region c addr = Some s \<Longrightarrow> s \<in> set c \<and> region_start_addr s \<le> addr \<and> addr \<le> region_last_addr s" for s
  proof (cases "binary_search_by_key addr region_start_addr c")
    case (Ok x)
    then show "collection_find_region c addr = Some s \<Longrightarrow> ?thesis"
      using bs last by (auto simp: collection_find_region_def)
  next
    case (Err x)
    assume "collection_find_region c addr = Some s"
    then have x: "0 < x" "s = c ! (x - 1)" "addr \<le> region_last_addr (c ! (x - 1))"
      using Err by (auto simp: collection_find_region_def split: if_splits)
    then have "x - 1 < x" "x - 1 < length c" using bs Err by auto
    moreover from this have "region_start_addr (c ! (x - 1)) < addr" using bs Err by simp
    ultimately show ?thesis using x by simp
  qed
  have total: "collection_find_region c addr \<noteq> None"
    if r: "r \<in> set c" "region_start_addr r \<le> addr" "addr \<le> region_last_addr r" for r
  proof (cases "binary_search_by_key addr region_start_addr c")
    case (Ok x)
    then show ?thesis by (simp add: collection_find_region_def)
  next
    case (Err x)
    obtain i where i: "i < length c" "r = c ! i" using r(1) by (auto simp: in_set_conv_nth)
    have "region_start_addr r \<noteq> addr" using bs Err i by auto
    then have "region_start_addr (c ! i) < addr" using r(2) i(2) by simp
    then have "i < x" using bs Err i(1) by simp
    moreover have "i = x - 1"
    proof (rule ccontr)
      assume "i \<noteq> x - 1"
      then have lt: "i < x - 1" "x - 1 < length c" using \<open>i < x\<close> bs Err by auto
      then have "region_start_addr (c ! (x - 1)) < addr" using bs Err by simp
      moreover have "before r (c ! (x - 1))" using assms lt i by (simp add: collection_wf_def sorted_wrt_iff_nth_less)
      ultimately show False using r(3) by (simp add: before_def)
    qed
    ultimately show ?thesis using Err i r(3) by (simp add: collection_find_region_def)
  qed
  show ?thesis
  proof
    assume r: "r \<in> set c \<and> region_start_addr r \<le> addr \<and> addr \<le> region_last_addr r"
    then obtain s where s: "collection_find_region c addr = Some s" using total by blast
    have "overlap r s" using found [OF s] r by (auto simp: overlap_def)
    then show "collection_find_region c addr = Some r" using uniq found [OF s] r s by blast
  qed (rule found)
qed

lemma from_arc_regions_Ok:
  assumes "\<forall>r \<in> set c. guest_region_wf r"
  shows "from_arc_regions c = Ok c' \<longleftrightarrow> c \<noteq> [] \<and> c' = c \<and> collection_wf c"
  using check_windows_Ok [OF assms] assms by (auto simp: from_arc_regions_def collection_wf_def split: result.splits)

lemma region_from_range_wf:
  assumes "region_from_range w page_size bm addr sz None m = Some (Ok r, m')"
  shows "guest_region_wf r" "region_start_addr r = addr" "region_len r = sz"
    "bm = Some i \<Longrightarrow> bitmap_wf (vm_bitmaps m' i) \<and> ab_byte_size (vm_bitmaps m' i) = sz"
proof -
  obtain g where g: "mmap_new w page_size bm sz m = Some (Ok g, m')" "region_new g addr = Some r"
  proof -
    obtain q where q: "mmap_new w page_size bm sz m = Some (q, m')"
      "(case q of Err e \<Rightarrow> Err (MmapRegionError e)
        | Ok region \<Rightarrow> (case region_new region addr of None \<Rightarrow> Err InvalidGuestRegion | Some g \<Rightarrow> Ok g)) = Ok r"
      using assms by (auto simp: region_from_range_def)
    show thesis
    proof (cases q)
      case (Ok g)
      then show thesis using q that [of g] by (cases "region_new g addr") simp_all
    qed (use q in simp)
  qed
  have sz: "sz \<noteq> 0" "mp_size g = sz" and b: "new_bitmap page_size bm sz m = Some m'"
    using g(1) by (auto simp: mmap_new_def Let_def split: if_splits)
  then have r: "r = \<lparr>gr_mapping = g, gr_base = addr\<rparr>" "unat addr + unat sz < 2 ^ 64"
    using g(2) by (auto simp: region_new_def region_with_arc_def checked_add_def split: if_splits)
  then show "guest_region_wf r" "region_start_addr r = addr" "region_len r = sz"
    using sz by (simp_all add: guest_region_wf_def region_len_def region_start_addr_def unat_gt_0)
  have "bitmap_with_len page_size sz = Some (vm_bitmaps m' i)" if "bm = Some i" using b that by (auto simp: new_bitmap_def)
  then show "bm = Some i \<Longrightarrow> bitmap_wf (vm_bitmaps m' i) \<and> ab_byte_size (vm_bitmaps m' i) = sz"
  proof -
    assume "bm = Some i"
    then have w: "page_size \<noteq> 0" "vm_bitmaps m' i = bitmap_new sz (ucast page_size)"
      using \<open>bm = Some i \<Longrightarrow> bitmap_with_len page_size sz = Some (vm_bitmaps m' i)\<close>
      by (auto simp: bitmap_with_len_def split: if_splits)
    have "unat (ucast page_size :: usize) = unat page_size"
      using unat_bounds(3) [of page_size] by (simp add: unsigned_ucast_eq take_bit_nat_eq_self)
    then have "(ucast page_size :: usize) \<noteq> 0" using w(1) by (metis unat_0 unat_eq_0)
    then show ?thesis using w(2) bitmap_new_wf [of "ucast page_size" sz] by (simp add: bitmap_new_def Let_def)
  qed
qed

lemma create_regions_wf:
  assumes "create_regions w page_size (map (\<lambda>(bm, addr, sz). (bm, addr, sz, None)) ranges) m = Some (Ok c, m')"
  shows "(\<forall>r \<in> set c. guest_region_wf r) \<and> map (\<lambda>r. (region_start_addr r, region_len r)) c = map snd ranges"
  using assms
proof (induction ranges arbitrary: c m)
  case (Cons x ranges)
  obtain bm addr sz where x: "x = (bm, addr, sz)" by (cases x)
  let ?rest = "create_regions w page_size (map (\<lambda>(bm, addr, sz). (bm, addr, sz, None)) ranges)"
  from Cons.prems obtain q m1 where q: "region_from_range w page_size bm addr sz None m = Some (q, m1)"
    "(case q of Err e \<Rightarrow> Some (Err e, m1)
      | Ok region \<Rightarrow>
          map_option (\<lambda>(rs, m''). (case rs of Err e \<Rightarrow> Err e | Ok regions \<Rightarrow> Ok (region # regions), m'')) (?rest m1)) =
     Some (Ok c, m')" by (auto simp: x bind_eq_Some_conv)
  then obtain r where r: "region_from_range w page_size bm addr sz None m = Some (Ok r, m1)" "q = Ok r" by (cases q) auto
  with q(2) obtain rs where rs: "?rest m1 = Some (rs, m')"
    "(case rs of Err e \<Rightarrow> Err e | Ok regions \<Rightarrow> Ok (r # regions)) = Ok c" by auto
  then obtain c' where c': "?rest m1 = Some (Ok c', m')" "c = r # c'" by (cases rs) auto
  show ?case using Cons.IH [OF c'(1)] region_from_range_wf(1-3) [OF r(1)] c'(2) by (simp add: x)
qed simp

lemma from_ranges_wf:
  assumes "from_ranges w page_size ranges m = Some (Ok d, m')"
  shows "collection_wf d" "map (\<lambda>s. (region_start_addr s, region_len s)) d = map snd ranges"
proof -
  obtain q where q: "create_regions w page_size (map (\<lambda>(bm, addr, sz). (bm, addr, sz, None)) ranges) m = Some (q, m')"
    "(case q of Err e \<Rightarrow> Err e
      | Ok regions \<Rightarrow> (case from_regions regions of Err e \<Rightarrow> Err (Collection e) | Ok c \<Rightarrow> Ok c)) = Ok d"
    using assms by (auto simp: from_ranges_def from_ranges_with_files_def)
  then obtain e where e: "create_regions w page_size (map (\<lambda>(bm, addr, sz). (bm, addr, sz, None)) ranges) m = Some (Ok e, m')"
    "from_arc_regions e = Ok d" by (cases q) (auto simp: from_regions_def split: result.splits)
  note wf = create_regions_wf [OF e(1)]
  then have "d = e" "collection_wf d" using from_arc_regions_Ok [of e d] e(2) by auto
  then show "collection_wf d" "map (\<lambda>s. (region_start_addr s, region_len s)) d = map snd ranges" using wf by simp_all
qed

section \<open>Properties\<close>

text \<open>
  C26.  Finding a region.  The binary search of \<^verbatim>\<open>GuestRegionCollection\<close> and the scan that is the default of the
  trait give the same answer for every address: the region in which the address lies, and none where
  there is none.
\<close>

theorem find_region_agrees:
  assumes "collection_wf c"
  shows "collection_find_region c addr = default_find_region c addr \<and>
    (\<forall>r. collection_find_region c addr = Some r \<longleftrightarrow>
       r \<in> set c \<and> unat (region_start_addr r) \<le> unat addr \<and> unat addr < unat (region_start_addr r) + unat (region_len r))"
proof
  note spec = collection_find_region_spec [OF assms, of addr]
  have range: "region_start_addr r \<le> addr \<and> addr \<le> region_last_addr r \<longleftrightarrow>
      unat (region_start_addr r) \<le> unat addr \<and> unat addr < unat (region_start_addr r) + unat (region_len r)" if "r \<in> set c" for r
  proof -
    have "guest_region_wf r" using assms that by (simp add: collection_wf_def)
    then show ?thesis using region_last(1) [of r] by (auto simp: guest_region_wf_def word_le_nat_alt)
  qed
  show "collection_find_region c addr = default_find_region c addr"
  proof (cases "default_find_region c addr")
    case None
    then have "\<not> (\<exists>r \<in> set c. region_start_addr r \<le> addr \<and> addr \<le> region_last_addr r)"
      by (auto simp: default_find_region_def find_None_iff)
    then show ?thesis using spec None by (cases "collection_find_region c addr") auto
  next
    case (Some r)
    then have "r \<in> set c \<and> region_start_addr r \<le> addr \<and> addr \<le> region_last_addr r"
      by (auto simp: default_find_region_def find_Some_iff)
    then show ?thesis using spec Some by simp
  qed
  show "\<forall>r. collection_find_region c addr = Some r \<longleftrightarrow>
      r \<in> set c \<and> unat (region_start_addr r) \<le> unat addr \<and> unat addr < unat (region_start_addr r) + unat (region_len r)"
    using spec range by blast
qed

definition demo_guest_region :: "u64 \<Rightarrow> u64 \<Rightarrow> usize \<Rightarrow> guest_region" where
  "demo_guest_region guest host sz =
     \<lparr>gr_mapping = \<lparr>mp_addr = host, mp_size = sz, mp_bitmap = None, mp_file_offset = None\<rparr>, gr_base = guest\<rparr>"

lemma demo_guest_region_simps [simp]:
  "region_start_addr (demo_guest_region g h n) = g" "region_len (demo_guest_region g h n) = n"
  "region_last_addr (demo_guest_region g h n) = g + (n - 1)"
  by (simp_all add: demo_guest_region_def region_start_addr_def region_len_def region_last_addr_def addr_unchecked_add_def)

lemma demo_collection_wf:
  "collection_wf [demo_guest_region 0 0x10000 0x1000, demo_guest_region 0x1000 0x50000 0x1000, demo_guest_region 0x4000 0x80000 0x1000]"
  by (simp add: collection_wf_def guest_region_wf_def before_def)

theorem find_region_agrees_witness:
  "default_find_region [demo_guest_region 0 0x10000 0x1000, demo_guest_region 0x1000 0x50000 0x1000,
      demo_guest_region 0x4000 0x80000 0x1000] 0x1fff = Some (demo_guest_region 0x1000 0x50000 0x1000)"
proof -
  let ?c = "[demo_guest_region 0 0x10000 0x1000, demo_guest_region 0x1000 0x50000 0x1000, demo_guest_region 0x4000 0x80000 0x1000]"
  note a = find_region_agrees [OF demo_collection_wf, of "0x1fff"]
  have "collection_find_region ?c 0x1fff = Some (demo_guest_region 0x1000 0x50000 0x1000)"
    by (subst conjunct2 [OF a, rule_format]) simp
  then show ?thesis using conjunct1 [OF a] by simp
qed

text \<open>
  C27.  Collections stay in order.  What \<^verbatim>\<open>from_ranges\<close> builds is a collection of disjoint regions in the order of
  their addresses, the ranges that were asked for.  Adding a region succeeds exactly when it overlaps none, and
  gives such a collection with one region more; removing one succeeds exactly when there is a region with
  that address and length, and adding it again restores the collection.
\<close>

theorem collection_operations:
  assumes "collection_wf c" "guest_region_wf r"
  shows "(case insert_region c r of
      Ok c' \<Rightarrow> collection_wf c' \<and> mset c' = add_mset r (mset c) \<and> (\<forall>s \<in> set c. \<not> overlap r s)
    | Err e \<Rightarrow> e = MemoryRegionOverlap \<and> (\<exists>s \<in> set c. overlap r s)) \<and>
    (case remove_region c base sz of
      Ok (c', s) \<Rightarrow> collection_wf c' \<and> region_start_addr s = base \<and> region_len s = sz \<and> insert_region c' s = Ok c
    | Err e \<Rightarrow> e = NoMemoryRegion \<and> \<not> (\<exists>s \<in> set c. region_start_addr s = base \<and> region_len s = sz)) \<and>
    (\<forall>w page_size ranges m d m'. from_ranges w page_size ranges m = Some (Ok d, m') \<longrightarrow>
       collection_wf d \<and> map (\<lambda>s. (region_start_addr s, region_len s)) d = map snd ranges)"
proof (intro conjI allI impI)
  show "case insert_region c r of
      Ok c' \<Rightarrow> collection_wf c' \<and> mset c' = add_mset r (mset c) \<and> (\<forall>s \<in> set c. \<not> overlap r s)
    | Err e \<Rightarrow> e = MemoryRegionOverlap \<and> (\<exists>s \<in> set c. overlap r s)"
    using insert_region_cases [OF assms] insert_region_wf [OF assms] by (auto split: result.splits if_splits)
  show "case remove_region c base sz of
      Ok (c', s) \<Rightarrow> collection_wf c' \<and> region_start_addr s = base \<and> region_len s = sz \<and> insert_region c' s = Ok c
    | Err e \<Rightarrow> e = NoMemoryRegion \<and> \<not> (\<exists>s \<in> set c. region_start_addr s = base \<and> region_len s = sz)"
    using remove_region_cases [OF assms(1), of base sz] collection_wf_remove insert_removed assms(1)
    by (fastforce split: result.splits prod.splits)
  fix w page_size ranges m d m'
  assume "from_ranges w page_size ranges m = Some (Ok d, m')"
  then show "collection_wf d" "map (\<lambda>s. (region_start_addr s, region_len s)) d = map snd ranges"
    using from_ranges_wf by blast+
qed

theorem collection_operations_witness:
  "\<exists>c. insert_region [demo_guest_region 0 0x10000 0x1000, demo_guest_region 0x1000 0x50000 0x1000,
      demo_guest_region 0x4000 0x80000 0x1000] (demo_guest_region 0x2000 0x20000 0x2000) = Ok c \<and> collection_wf c \<and> length c = 4"
proof -
  let ?c = "[demo_guest_region 0 0x10000 0x1000, demo_guest_region 0x1000 0x50000 0x1000, demo_guest_region 0x4000 0x80000 0x1000]"
  let ?r = "demo_guest_region 0x2000 0x20000 0x2000"
  have r: "guest_region_wf ?r" by (simp add: guest_region_wf_def)
  have "\<not> (\<exists>s \<in> set ?c. overlap ?r s)" by (simp add: overlap_def)
  moreover note ops = conjunct1 [OF collection_operations [OF demo_collection_wf r, of 0 0]]
  ultimately obtain c' where c': "insert_region ?c ?r = Ok c'" "collection_wf c'" "mset c' = add_mset ?r (mset ?c)"
    by (cases "insert_region ?c ?r") simp_all
  have "length c' = size (add_mset ?r (mset ?c))" unfolding c'(3) [symmetric] by simp
  then show ?thesis using c' by simp
qed

end
