(* ===== verification/Vm_Guest_Memory.thy ===== *)
theory Vm_Guest_Memory
  imports Vm_Region
begin

text \<open>
  Guest memory as a whole (\<^verbatim>\<open>vm-memory/src/guest_memory.rs\<close>): the default methods of the trait \<^verbatim>\<open>GuestMemory\<close> for
  a collection of regions, the iterator over the slices of a range, and \<^verbatim>\<open>Bytes<GuestAddress>\<close>, which splits an access
  over the regions it touches.
\<close>

section \<open>The trait\<close>

definition guest_num_regions :: "collection \<Rightarrow> nat" where
  "guest_num_regions c = length c"

definition guest_last_addr :: "collection \<Rightarrow> u64" where
  "guest_last_addr c = fold (\<lambda>r acc. max acc (region_last_addr r)) c 0"

definition guest_to_region_addr :: "collection \<Rightarrow> u64 \<Rightarrow> (guest_region \<times> u64) option panics" where
  "guest_to_region_addr c addr =
     (case collection_find_region c addr of
        None \<Rightarrow> Some None
      | Some r \<Rightarrow> map_option (\<lambda>a. Some (r, a)) (region_to_region_addr r addr))"

definition guest_address_in_range :: "collection \<Rightarrow> u64 \<Rightarrow> bool" where
  "guest_address_in_range c addr \<longleftrightarrow> collection_find_region c addr \<noteq> None"

definition guest_check_address :: "collection \<Rightarrow> u64 \<Rightarrow> u64 option" where
  "guest_check_address c addr = map_option (\<lambda>_. addr) (collection_find_region c addr)"

definition guest_checked_offset :: "collection \<Rightarrow> u64 \<Rightarrow> usize \<Rightarrow> u64 option" where
  "guest_checked_offset c base offset = Option.bind (addr_checked_add base offset) (guest_check_address c)"

definition guest_get_host_address :: "collection \<Rightarrow> u64 \<Rightarrow> (gm_error, u64) result panics" where
  "guest_get_host_address c addr =
     map_option
       (\<lambda>x. case x of None \<Rightarrow> Err (InvalidGuestAddress addr) | Some (r, a) \<Rightarrow> region_get_host_address r a)
       (guest_to_region_addr c addr)"

definition guest_get_slice :: "collection \<Rightarrow> u64 \<Rightarrow> usize \<Rightarrow> (gm_error, vol_slice) result panics" where
  "guest_get_slice c addr n =
     map_option
       (\<lambda>x. case x of None \<Rightarrow> Err (InvalidGuestAddress addr) | Some (r, a) \<Rightarrow> region_get_slice r a n)
       (guest_to_region_addr c addr)"

section \<open>The slices of a range\<close>

record slice_iter =
  it_addr :: u64
  it_count :: usize

definition guest_get_slices :: "u64 \<Rightarrow> usize \<Rightarrow> slice_iter" where
  "guest_get_slices addr n = \<lparr>it_addr = addr, it_count = n\<rparr>"

text \<open>The next address; the end of the address space is address 0 without an error.\<close>

definition next_addr :: "u64 \<Rightarrow> usize \<Rightarrow> u64 option" where
  "next_addr addr len =
     (case addr_overflowing_add addr len of (x, overflow) \<Rightarrow> if x = 0 \<or> \<not> overflow then Some x else None)"

definition do_next :: "collection \<Rightarrow> slice_iter \<Rightarrow> ((gm_error, vol_slice) result option \<times> slice_iter) panics" where
  "do_next c it =
     (if it_count it = 0 then Some (None, it)
      else case guest_to_region_addr c (it_addr it) of
             None \<Rightarrow> None
           | Some None \<Rightarrow> Some (Some (Err (InvalidGuestAddress (it_addr it))), it)
           | Some (Some (region, start)) \<Rightarrow>
               let cap = region_len region - start;
                   len = min cap (it_count it);
                   it' = it\<lparr>it_count := it_count it - len\<rparr>
               in (case next_addr (it_addr it) len of
                     None \<Rightarrow> Some (Some (Err GuestAddressOverflow), it')
                   | Some x \<Rightarrow>
                       let r = region_get_slice region start len
                       in if (case r of Ok s \<Rightarrow> sl_size s \<noteq> len | Err _ \<Rightarrow> False) then None else Some (Some r, it'\<lparr>it_addr := x\<rparr>)))"

definition iter_next :: "collection \<Rightarrow> slice_iter \<Rightarrow> ((gm_error, vol_slice) result option \<times> slice_iter) panics" where
  "iter_next c it =
     (case do_next c it of
        None \<Rightarrow> None
      | Some (Some (Ok s), it') \<Rightarrow> Some (Some (Ok s), it')
      | Some (other, it') \<Rightarrow> Some (other, it'\<lparr>it_count := 0\<rparr>))"

text \<open>Every step of the iterator uses up some of the range, so it can be run to its end.\<close>

lemma region_to_region_addr_less: "region_to_region_addr r a = Some b \<Longrightarrow> b < region_len r \<and> b = a - region_start_addr r"
  by (auto simp: region_to_region_addr_def region_check_address_def region_address_in_range_def addr_checked_offset_from_def
      checked_sub_def bind_eq_Some_conv split: if_splits)

lemma iter_next_decreases:
  assumes "iter_next c it = Some (Some r, it')"
  shows "unat (it_count it') < unat (it_count it)"
proof -
  obtain q it1 where q: "do_next c it = Some (q, it1)" using assms by (cases "do_next c it") (auto simp: iter_next_def)
  have nz: "it_count it \<noteq> 0" using assms by (auto simp: iter_next_def do_next_def)
  show ?thesis
  proof (cases "\<exists>s. q = Some (Ok s)")
    case True
    then obtain s where s: "q = Some (Ok s)" ..
    then have it': "it' = it1" using assms q by (simp add: iter_next_def)
    from q s nz obtain region start where
      rs: "guest_to_region_addr c (it_addr it) = Some (Some (region, start))"
      by (auto simp: do_next_def split: option.splits prod.splits)
    let ?len = "min (region_len region - start) (it_count it)"
    have "start < region_len region"
      using rs region_to_region_addr_less by (fastforce simp: guest_to_region_addr_def split: option.splits)
    then have "region_len region - start \<noteq> 0" by auto
    then have "?len \<noteq> 0" using nz by (auto simp: min_def)
    then have pos: "0 < unat ?len" "?len \<le> it_count it" by (simp_all only: unat_gt_0 min.cobounded2 not_False_eq_True)
    have "it_count it1 = it_count it - ?len"
      using q s nz rs by (auto simp: do_next_def Let_def split: option.splits if_splits)
    then have "unat (it_count it') = unat (it_count it) - unat ?len" using it' pos(2) by (simp add: unat_sub)
    moreover have "unat ?len \<le> unat (it_count it)" using pos(2) by (simp only: word_le_nat_alt)
    ultimately show ?thesis using pos(1) by linarith
  next
    case False
    then have "it' = it1\<lparr>it_count := 0\<rparr>"
      using assms q by (auto simp: iter_next_def split: option.splits result.splits)
    then show ?thesis using nz by (simp add: unat_gt_0)
  qed
qed

function iter_collect :: "collection \<Rightarrow> slice_iter \<Rightarrow> (gm_error, vol_slice) result list panics" where
  "iter_collect c it =
     (case iter_next c it of
        None \<Rightarrow> None
      | Some (None, _) \<Rightarrow> Some []
      | Some (Some r, it') \<Rightarrow> map_option ((#) r) (iter_collect c it'))"
  by pat_completeness auto
termination
  by (relation "measure (\<lambda>(_, it). unat (it_count it))") (auto dest: iter_next_decreases)

text \<open>\<^verbatim>\<open>stop_on_error\<close>: an error in front is the result, a later one ends the sequence.\<close>

fun stop_on_error :: "(gm_error, vol_slice) result list \<Rightarrow> (gm_error, vol_slice list) result" where
  "stop_on_error (Err e # rs) = Err e"
| "stop_on_error rs = Ok (List.map_filter ok rs)"

definition guest_check_range :: "collection \<Rightarrow> u64 \<Rightarrow> usize \<Rightarrow> bool panics" where
  "guest_check_range c base len =
     map_option (list_all (\<lambda>r. ok r \<noteq> None)) (iter_collect c (guest_get_slices base len))"

definition with_slices ::
  "collection \<Rightarrow> u64 \<Rightarrow> usize \<Rightarrow> (vol_slice list \<Rightarrow> 'st \<Rightarrow> ((gm_error, 'a) result \<times> 'st) panics) \<Rightarrow> 'st \<Rightarrow>
     ((gm_error, 'a) result \<times> 'st) panics" where
  "with_slices c addr n f st =
     (case iter_collect c (guest_get_slices addr n) of
        None \<Rightarrow> None
      | Some rs \<Rightarrow> (case stop_on_error rs of Err e \<Rightarrow> Some (Err e, st) | Ok ss \<Rightarrow> f ss st))"

section \<open>Bytes of guest memory\<close>

primrec write_fold :: "byte_slice \<Rightarrow> usize \<Rightarrow> vol_slice list \<Rightarrow> vmem \<Rightarrow> ((gm_error, usize) result \<times> vmem) panics" where
  "write_fold buf acc [] m = Some (Ok acc, m)"
| "write_fold buf acc (s # ss) m =
     Option.bind (bytes_split_at buf acc) (\<lambda>b.
       Option.bind (slice_write s b 0 m) (\<lambda>(r, m').
         case into_guest r of Err e \<Rightarrow> Some (Err e, m') | Ok n \<Rightarrow> write_fold buf (acc + n) ss m'))"

primrec read_fold :: "byte_slice \<Rightarrow> usize \<Rightarrow> vol_slice list \<Rightarrow> vmem \<Rightarrow> ((gm_error, usize) result \<times> vmem) panics" where
  "read_fold buf acc [] m = Some (Ok acc, m)"
| "read_fold buf acc (s # ss) m =
     Option.bind (bytes_split_at buf acc) (\<lambda>b.
       Option.bind (slice_read s b 0 m) (\<lambda>(r, m').
         case into_guest r of Err e \<Rightarrow> Some (Err e, m') | Ok n \<Rightarrow> read_fold buf (acc + n) ss m'))"

definition guest_write_bytes :: "collection \<Rightarrow> byte_slice \<Rightarrow> u64 \<Rightarrow> vmem \<Rightarrow> ((gm_error, usize) result \<times> vmem) panics" where
  "guest_write_bytes c buf addr m = with_slices c addr (bb_len buf) (write_fold buf 0) m"

definition guest_read_bytes :: "collection \<Rightarrow> byte_slice \<Rightarrow> u64 \<Rightarrow> vmem \<Rightarrow> ((gm_error, usize) result \<times> vmem) panics" where
  "guest_read_bytes c buf addr m = with_slices c addr (bb_len buf) (read_fold buf 0) m"

definition all_or_partial :: "usize \<Rightarrow> (gm_error, usize) result \<times> 'st \<Rightarrow> (gm_error, unit) result \<times> 'st" where
  "all_or_partial n x =
     (case x of (r, st) \<Rightarrow>
        (case r of
           Err e \<Rightarrow> Err e
         | Ok res \<Rightarrow> if res \<noteq> n then Err (GuestPartialBuffer n res) else Ok (), st))"

definition guest_write_slice :: "collection \<Rightarrow> byte_slice \<Rightarrow> u64 \<Rightarrow> vmem \<Rightarrow> ((gm_error, unit) result \<times> vmem) panics" where
  "guest_write_slice c buf addr m = map_option (all_or_partial (bb_len buf)) (guest_write_bytes c buf addr m)"

definition guest_read_slice :: "collection \<Rightarrow> byte_slice \<Rightarrow> u64 \<Rightarrow> vmem \<Rightarrow> ((gm_error, unit) result \<times> vmem) panics" where
  "guest_read_slice c buf addr m = map_option (all_or_partial (bb_len buf)) (guest_read_bytes c buf addr m)"

text \<open>\<^verbatim>\<open>write_obj\<close> and \<^verbatim>\<open>read_obj\<close>: the bytes of the value are a buffer; a value read starts out as zeros.\<close>

definition guest_write_obj :: "collection \<Rightarrow> byte_slice \<Rightarrow> u64 \<Rightarrow> vmem \<Rightarrow> ((gm_error, unit) result \<times> vmem) panics" where
  "guest_write_obj c val addr m = guest_write_slice c val addr m"

definition guest_read_obj ::
  "collection \<Rightarrow> byte_slice \<Rightarrow> u64 \<Rightarrow> vmem \<Rightarrow> ((gm_error, u8 list) result \<times> vmem) panics" where
  "guest_read_obj c res addr m =
     map_option
       (\<lambda>(r, m'). (case r of Err e \<Rightarrow> Err e | Ok _ \<Rightarrow> Ok (copy_from (vm_heap m') (bb_ptr res) (unat (bb_len res))), m'))
       (guest_read_slice c res addr
          (m\<lparr>vm_heap := copy_to (vm_heap m) (bb_ptr res) (replicate (unat (bb_len res)) 0)\<rparr>))"

primrec read_volatile_fold ::
  "(vol_slice \<Rightarrow> ('s, usize) io_step) \<Rightarrow> usize \<Rightarrow> vol_slice list \<Rightarrow> ('s, usize) guest_io" where
  "read_volatile_fold rd acc [] st = Some (Ok acc, st)"
| "read_volatile_fold rd acc (s # ss) st =
     Option.bind (slice_read_volatile_from s 0 rd (sl_size s) st) (\<lambda>(r, st').
       case into_guest r of Err e \<Rightarrow> Some (Err e, st') | Ok n \<Rightarrow> read_volatile_fold rd (acc + n) ss st')"

definition guest_read_volatile_from ::
  "collection \<Rightarrow> u64 \<Rightarrow> (vol_slice \<Rightarrow> ('s, usize) io_step) \<Rightarrow> usize \<Rightarrow> ('s, usize) guest_io" where
  "guest_read_volatile_from c addr rd n st = with_slices c addr n (read_volatile_fold rd 0) st"

definition guest_read_exact_volatile_from ::
  "collection \<Rightarrow> u64 \<Rightarrow> (vol_slice \<Rightarrow> ('s, usize) io_step) \<Rightarrow> usize \<Rightarrow> ('s, unit) guest_io" where
  "guest_read_exact_volatile_from c addr rd n st =
     map_option (all_or_partial n) (guest_read_volatile_from c addr rd n st)"

primrec write_volatile_fold ::
  "(vol_slice \<Rightarrow> ('s, unit) io_step) \<Rightarrow> usize \<Rightarrow> vol_slice list \<Rightarrow> ('s, usize) guest_io" where
  "write_volatile_fold wr_all acc [] st = Some (Ok acc, st)"
| "write_volatile_fold wr_all acc (s # ss) st =
     Option.bind (slice_write_all_volatile_to s 0 wr_all (sl_size s) st) (\<lambda>(r, st').
       case into_guest r of Err e \<Rightarrow> Some (Err e, st') | Ok _ \<Rightarrow> write_volatile_fold wr_all (acc + sl_size s) ss st')"

definition guest_write_volatile_to ::
  "collection \<Rightarrow> u64 \<Rightarrow> (vol_slice \<Rightarrow> ('s, unit) io_step) \<Rightarrow> usize \<Rightarrow> ('s, usize) guest_io" where
  "guest_write_volatile_to c addr wr_all n st = with_slices c addr n (write_volatile_fold wr_all 0) st"

definition guest_write_all_volatile_to ::
  "collection \<Rightarrow> u64 \<Rightarrow> (vol_slice \<Rightarrow> ('s, unit) io_step) \<Rightarrow> usize \<Rightarrow> ('s, unit) guest_io" where
  "guest_write_all_volatile_to c addr wr_all n st =
     map_option (all_or_partial n) (guest_write_volatile_to c addr wr_all n st)"

text \<open>Atomic accesses use the first slice of the range only; an access of no bytes would panic.\<close>

definition guest_store ::
  "usize \<Rightarrow> usize \<Rightarrow> collection \<Rightarrow> u8 list \<Rightarrow> u64 \<Rightarrow> vmem \<Rightarrow> ((gm_error, unit) result \<times> vmem) panics" where
  "guest_store n al c val addr m =
     (case iter_next c (guest_get_slices addr n) of
        None \<Rightarrow> None
      | Some (None, _) \<Rightarrow> None
      | Some (Some (Err e), _) \<Rightarrow> Some (Err e, m)
      | Some (Some (Ok s), _) \<Rightarrow> map_option (map_prod into_guest (\<lambda>x. x)) (slice_store n al s val 0 m))"

definition guest_load :: "usize \<Rightarrow> usize \<Rightarrow> collection \<Rightarrow> u64 \<Rightarrow> vmem \<Rightarrow> (gm_error, u8 list) result panics" where
  "guest_load n al c addr m =
     (case iter_next c (guest_get_slices addr n) of
        None \<Rightarrow> None
      | Some (None, _) \<Rightarrow> None
      | Some (Some (Err e), _) \<Rightarrow> Some (Err e)
      | Some (Some (Ok s), _) \<Rightarrow> map_option into_guest (slice_load n al s 0 m))"

lemma less_left:
  fixes n d x :: u64
  assumes "x \<noteq> 0" "unat d + unat x < unat n"
  shows "unat n - (unat d + unat x) < unat n - unat d"
proof -
  have "0 < unat x" using assms(1) by (simp add: unat_gt_0)
  then show ?thesis using assms(2) by simp
qed

text \<open>
  \<^verbatim>\<open>try_access\<close>: the callback gets the bytes done so far, the length and the place in the region, and says how many
  bytes it has dealt with.
\<close>

function access_loop ::
  "collection \<Rightarrow> usize \<Rightarrow> u64 \<Rightarrow> (usize \<Rightarrow> usize \<Rightarrow> u64 \<Rightarrow> guest_region \<Rightarrow> 's \<Rightarrow> ((gm_error, usize) result \<times> 's) panics) \<Rightarrow>
     u64 \<Rightarrow> usize \<Rightarrow> 's \<Rightarrow> ((gm_error, usize) result \<times> 's) panics" where
  "access_loop c n addr f cur done_bytes st =
     (case collection_find_region c cur of
        None \<Rightarrow> Some (if done_bytes = 0 then Err (InvalidGuestAddress addr) else Ok done_bytes, st)
      | Some region \<Rightarrow>
          (case region_to_region_addr region cur of
             None \<Rightarrow> None
           | Some start \<Rightarrow>
               (case f done_bytes (min (region_len region - start) (n - done_bytes)) start region st of
                  None \<Rightarrow> None
                | Some (Err e, st') \<Rightarrow> Some (Err e, st')
                | Some (Ok len, st') \<Rightarrow>
                    if len = 0 then Some (Ok done_bytes, st')
                    else case checked_add done_bytes len of
                           None \<Rightarrow> Some (Err CallbackOutOfRange, st')
                         | Some x \<Rightarrow>
                             if x < n then
                               (case next_addr cur len of
                                  None \<Rightarrow> Some (Err GuestAddressOverflow, st')
                                | Some cur' \<Rightarrow> access_loop c n addr f cur' x st')
                             else if x = n then Some (Ok x, st')
                             else Some (Err CallbackOutOfRange, st'))))"
  by pat_completeness auto
termination
  by (relation "measure (\<lambda>(_, n, _, _, _, done_bytes, _). unat n - unat done_bytes)")
    (auto simp: checked_add_def word_less_nat_alt unat_add_no_wrap intro: less_left split: if_splits)

definition try_access ::
  "collection \<Rightarrow> usize \<Rightarrow> u64 \<Rightarrow> (usize \<Rightarrow> usize \<Rightarrow> u64 \<Rightarrow> guest_region \<Rightarrow> 's \<Rightarrow> ((gm_error, usize) result \<times> 's) panics) \<Rightarrow>
     's \<Rightarrow> ((gm_error, usize) result \<times> 's) panics" where
  "try_access c n addr f st = access_loop c n addr f addr 0 st"

section \<open>Guest addresses and host addresses\<close>

definition region_slice :: "guest_region \<Rightarrow> vol_slice" where
  "region_slice r = with_bitmap (mp_addr (gr_mapping r)) (mp_size (gr_mapping r)) (mmap_slice_at (gr_mapping r) 0)"

definition host_of :: "collection \<Rightarrow> u64 \<Rightarrow> u64 option" where
  "host_of c a = map_option (\<lambda>r. mp_addr (gr_mapping r) + (a - region_start_addr r)) (collection_find_region c a)"

text \<open>The memory the guest sees through a collection.\<close>

definition vm_view :: "collection \<Rightarrow> heap \<Rightarrow> u64 \<Rightarrow> u8 option" where
  "vm_view c h a = map_option h (host_of c a)"

text \<open>
  The mappings lie in the address space of the process, apart from each other and with bitmaps as long as they are;
  \<^verbatim>\<open>VirtualAlloc\<close> sees to the former.
\<close>

definition mappings_ok :: "collection \<Rightarrow> vmem \<Rightarrow> bool" where
  "mappings_ok c m \<longleftrightarrow> collection_wf c \<and>
     (\<forall>r \<in> set c. slice_low (region_slice r) \<and> bitmap_covers (region_slice r) m) \<and>
     (\<forall>r \<in> set c. \<forall>s \<in> set c. r \<noteq> s \<longrightarrow>
        unat (mp_addr (gr_mapping r)) + unat (region_len r) \<le> unat (mp_addr (gr_mapping s)) \<or>
        unat (mp_addr (gr_mapping s)) + unat (region_len s) \<le> unat (mp_addr (gr_mapping r)))"

definition buffer_ok :: "collection \<Rightarrow> byte_slice \<Rightarrow> bool" where
  "buffer_ok c b \<longleftrightarrow> (\<forall>r \<in> set c. \<forall>m. bytes_apart (region_slice r) (b, m))"

lemma region_slice_simps [simp]:
  "sl_addr (region_slice r) = mp_addr (gr_mapping r)" "sl_size (region_slice r) = region_len r"
  by (simp_all add: region_slice_def with_bitmap_def region_len_def)

lemma find_region_range:
  assumes "collection_wf c"
  shows "collection_find_region c a = Some r \<longleftrightarrow>
    r \<in> set c \<and> unat (region_start_addr r) \<le> unat a \<and> unat a < unat (region_start_addr r) + unat (region_len r)"
proof -
  have "region_start_addr r \<le> a \<and> a \<le> region_last_addr r \<longleftrightarrow>
      unat (region_start_addr r) \<le> unat a \<and> unat a < unat (region_start_addr r) + unat (region_len r)" if "r \<in> set c"
  proof -
    have "guest_region_wf r" using assms that by (simp add: collection_wf_def)
    then show ?thesis using region_last(1) [of r] by (auto simp: guest_region_wf_def word_le_nat_alt)
  qed
  then show ?thesis using collection_find_region_spec [OF assms, of a r] by blast
qed

text \<open>Within a region, guest addresses and host addresses run in parallel.\<close>

lemma find_region_offset:
  assumes "collection_wf c" "collection_find_region c a = Some r" "i < unat (region_len r) - unat (a - region_start_addr r)"
  shows "unat (a - region_start_addr r) < unat (region_len r)" "unat (a + of_nat i) = unat a + i"
    "collection_find_region c (a + of_nat i) = Some r"
    "host_of c (a + of_nat i) = Some (mp_addr (gr_mapping r) + (a - region_start_addr r) + of_nat i)"
proof -
  have r: "r \<in> set c" "unat (region_start_addr r) \<le> unat a" "unat a < unat (region_start_addr r) + unat (region_len r)"
    using assms(2) find_region_range [OF assms(1)] by blast+
  then have d: "unat (a - region_start_addr r) = unat a - unat (region_start_addr r)" by (simp add: unat_sub word_le_nat_alt)
  then show "unat (a - region_start_addr r) < unat (region_len r)" using r(2,3) by simp
  have e: "unat (region_start_addr r) + unat (region_len r) < 2 ^ 64"
    using r(1) assms(1) by (simp add: collection_wf_def guest_region_wf_def)
  have lt: "unat a + i < unat (region_start_addr r) + unat (region_len r)" using assms(3) d r(2) by simp
  then show u: "unat (a + of_nat i) = unat a + i" using e by (simp add: unat_word_ariths unat_of_nat)
  show f: "collection_find_region c (a + of_nat i) = Some r"
    using r lt u by (subst find_region_range [OF assms(1)]) simp
  show "host_of c (a + of_nat i) = Some (mp_addr (gr_mapping r) + (a - region_start_addr r) + of_nat i)"
    using f by (simp add: host_of_def algebra_simps)
qed

lemma host_of_inj:
  assumes "mappings_ok c m" "host_of c a = Some p" "host_of c b = Some p"
  shows "a = b"
proof -
  have wf: "collection_wf c" using assms(1) by (simp add: mappings_ok_def)
  from assms(2,3) obtain r s where
    r: "collection_find_region c a = Some r" "p = mp_addr (gr_mapping r) + (a - region_start_addr r)" and
    s: "collection_find_region c b = Some s" "p = mp_addr (gr_mapping s) + (b - region_start_addr s)"
    by (auto simp: host_of_def)
  have in_range: "unat (mp_addr (gr_mapping q)) \<le> unat p \<and> unat p < unat (mp_addr (gr_mapping q)) + unat (region_len q)"
    if q: "collection_find_region c x = Some q" "p = mp_addr (gr_mapping q) + (x - region_start_addr q)" for q x
  proof -
    have "q \<in> set c" "unat (region_start_addr q) \<le> unat x" "unat x < unat (region_start_addr q) + unat (region_len q)"
      using q(1) find_region_range [OF wf] by blast+
    moreover from this have "unat (x - region_start_addr q) < unat (region_len q)"
      by (simp add: unat_sub word_le_nat_alt)
    moreover have "slice_low (region_slice q)" using calculation(1) assms(1) by (simp add: mappings_ok_def)
    ultimately show ?thesis unfolding q(2) slice_low_def by (simp add: unat_word_ariths)
  qed
  have "r \<in> set c" "s \<in> set c" using r(1) s(1) find_region_range [OF wf] by blast+
  then have "r = s" using assms(1) in_range [OF r] in_range [OF s] unfolding mappings_ok_def by (meson leD le_less_trans order.trans)
  then show ?thesis using r(2) s(2) by simp
qed

section \<open>The slices cover the range\<close>

text \<open>The slices of a range, one after the other, starting at the guest address \<open>g\<close>.\<close>

primrec covering :: "collection \<Rightarrow> u64 \<Rightarrow> vol_slice list \<Rightarrow> bool" where
  "covering c g [] \<longleftrightarrow> True"
| "covering c g (s # ss) \<longleftrightarrow>
     sl_size s \<noteq> 0 \<and> (\<exists>r \<in> set c. inside (region_slice r) s) \<and>
     (\<forall>i < unat (sl_size s). host_of c (g + of_nat i) = Some (sl_addr s + of_nat i)) \<and> covering c (g + sl_size s) ss"

definition slices_len :: "vol_slice list \<Rightarrow> nat" where
  "slices_len ss = sum_list (map (\<lambda>s. unat (sl_size s)) ss)"

text \<open>The first \<open>k\<close> of \<open>n\<close> addresses from \<open>g\<close> are mapped, and no more than those if \<open>k < n\<close>.\<close>

definition mapped_prefix :: "collection \<Rightarrow> u64 \<Rightarrow> nat \<Rightarrow> nat \<Rightarrow> bool" where
  "mapped_prefix c g n k \<longleftrightarrow> k \<le> n \<and> (\<forall>i < k. host_of c (g + of_nat i) \<noteq> None) \<and> (k < n \<longrightarrow> host_of c (g + of_nat k) = None)"

lemma mmap_slice_at_shift: "mmap_slice_at r off = bitmap_slice_at off (mmap_slice_at r 0)"
  by (simp add: mmap_slice_at_def bitmap_slice_at_def base_slice_at_def base_slice_new_def split: option.split)

lemma region_get_slice_inside:
  assumes "unat off + unat n \<le> unat (region_len r)"
  shows "region_get_slice r off n = Ok (with_bitmap (mp_addr (gr_mapping r) + off) n (mmap_slice_at (gr_mapping r) off))"
    "inside (region_slice r) (with_bitmap (mp_addr (gr_mapping r) + off) n (mmap_slice_at (gr_mapping r) off))"
proof -
  have "unat off + unat n < 2 ^ 64" using assms unat_bounds(4) [of "region_len r"] by simp
  then have "compute_offset off n = Ok (off + n)" "unat (off + n) = unat off + unat n"
    by (simp_all add: compute_offset_def checked_add_def unat_add_no_wrap)
  then show "region_get_slice r off n = Ok (with_bitmap (mp_addr (gr_mapping r) + off) n (mmap_slice_at (gr_mapping r) off))"
    using assms by (simp add: region_get_slice_def mmap_get_slice_def region_len_def word_less_nat_alt)
  show "inside (region_slice r) (with_bitmap (mp_addr (gr_mapping r) + off) n (mmap_slice_at (gr_mapping r) off))"
    using insideI [of off n "region_slice r"] assms
    by (simp add: region_slice_def with_bitmap_def region_len_def mmap_slice_at_shift [of "gr_mapping r" off])
qed

lemma host_of_None: "host_of c a = None \<longleftrightarrow> collection_find_region c a = None"
  by (simp add: host_of_def)

lemma to_region_addr_found:
  assumes "collection_wf c" "collection_find_region c a = Some r"
  shows "region_to_region_addr r a = Some (a - region_start_addr r)"
proof -
  have "unat (region_start_addr r) \<le> unat a" "unat a < unat (region_start_addr r) + unat (region_len r)"
    using assms find_region_range by blast+
  then have "a - region_start_addr r < region_len r" "region_start_addr r \<le> a"
    by (simp_all add: word_le_nat_alt word_less_nat_alt unat_sub)
  then show ?thesis
    by (simp add: region_to_region_addr_def addr_checked_offset_from_def checked_sub_def region_check_address_def
        region_address_in_range_def)
qed

lemma iter_next_unmapped:
  assumes "it_count it \<noteq> 0" "host_of c (it_addr it) = None"
  shows "iter_next c it = Some (Some (Err (InvalidGuestAddress (it_addr it))), it\<lparr>it_count := 0\<rparr>)"
  using assms by (simp add: iter_next_def do_next_def guest_to_region_addr_def host_of_None)

lemma iter_next_mapped:
  assumes "collection_wf c" "it_count it \<noteq> 0" "collection_find_region c (it_addr it) = Some r"
  defines "start \<equiv> it_addr it - region_start_addr r"
  defines "len \<equiv> min (region_len r - start) (it_count it)"
  defines "s \<equiv> with_bitmap (mp_addr (gr_mapping r) + start) len (mmap_slice_at (gr_mapping r) start)"
  shows "iter_next c it = Some (Some (Ok s), it\<lparr>it_count := it_count it - len, it_addr := it_addr it + len\<rparr>)"
    "inside (region_slice r) s" "len \<noteq> 0" "unat len \<le> unat (it_count it)"
    "\<forall>i < unat len. host_of c (it_addr it + of_nat i) = Some (sl_addr s + of_nat i)"
proof -
  let ?a = "it_addr it"
  have r: "r \<in> set c" "unat (region_start_addr r) \<le> unat ?a" "unat ?a < unat (region_start_addr r) + unat (region_len r)"
    using assms(1,3) find_region_range by blast+
  then have st: "unat start = unat ?a - unat (region_start_addr r)" by (simp add: start_def unat_sub word_le_nat_alt)
  then have lt: "unat start < unat (region_len r)" using r(2,3) by simp
  then have cap: "unat (region_len r - start) = unat (region_len r) - unat start" by (simp add: unat_sub word_le_nat_alt)
  have "region_len r - start \<noteq> 0" using lt by auto
  then show nz: "len \<noteq> 0" using assms(2) by (auto simp: len_def min_def)
  show le: "unat len \<le> unat (it_count it)" by (simp add: len_def min_def word_le_nat_alt)
  have lc: "unat len \<le> unat (region_len r) - unat start" unfolding cap [symmetric] len_def by (simp add: min_def word_le_nat_alt)
  then have sum: "unat start + unat len \<le> unat (region_len r)" using lt by simp
  have e: "unat (region_start_addr r) + unat (region_len r) < 2 ^ 64"
    using r(1) assms(1) by (simp add: collection_wf_def guest_region_wf_def)
  have "unat ?a + unat len \<le> unat (region_start_addr r) + unat (region_len r)" using sum st r(2) by linarith
  then have nx: "next_addr ?a len = Some (?a + len)"
    using e by (simp add: next_addr_def addr_overflowing_add_def overflowing_add_def)
  note sl = region_get_slice_inside [OF sum]
  show "inside (region_slice r) s" unfolding s_def by (rule sl(2))
  show "\<forall>i < unat len. host_of c (?a + of_nat i) = Some (sl_addr s + of_nat i)"
    using find_region_offset(4) [OF assms(1,3)] lc by (simp add: s_def with_bitmap_def start_def)
  have "do_next c it = Some (Some (Ok s), it\<lparr>it_count := it_count it - len, it_addr := ?a + len\<rparr>)"
    using assms(2,3) nx sl(1) to_region_addr_found [OF assms(1,3)]
    by (simp add: do_next_def guest_to_region_addr_def start_def [symmetric] len_def [symmetric] Let_def s_def with_bitmap_def)
  then show "iter_next c it = Some (Some (Ok s), it\<lparr>it_count := it_count it - len, it_addr := ?a + len\<rparr>)"
    by (simp add: iter_next_def)
qed

declare iter_collect.simps [simp del]

lemma mapped_prefix_shift:
  assumes "\<forall>i < unat len. host_of c (g + of_nat i) \<noteq> None" "mapped_prefix c g n k" "unat len \<le> n"
  shows "unat len \<le> k" "mapped_prefix c (g + len) (n - unat len) (k - unat len)"
proof -
  show le: "unat len \<le> k"
  proof (rule ccontr)
    assume "\<not> unat len \<le> k"
    then have "host_of c (g + of_nat k) \<noteq> None" "k < n" using assms(1,3) by simp_all
    then show False using assms(2) by (simp add: mapped_prefix_def)
  qed
  have shift: "g + len + of_nat i = g + of_nat (unat len + i)" for i by simp
  show "mapped_prefix c (g + len) (n - unat len) (k - unat len)"
    unfolding mapped_prefix_def shift
  proof (intro conjI allI impI)
    show "host_of c (g + of_nat (unat len + i)) \<noteq> None" if "i < k - unat len" for i
      using assms(2) that unfolding mapped_prefix_def by (metis add.commute less_diff_conv)
    show "host_of c (g + of_nat (unat len + (k - unat len))) = None" if "k - unat len < n - unat len"
      using assms(2) that le by (simp add: mapped_prefix_def)
  qed (use assms(2) in \<open>simp add: mapped_prefix_def diff_le_mono\<close>)
qed

lemma iter_collect_covers:
  assumes "collection_wf c" "mapped_prefix c (it_addr it) (unat (it_count it)) k"
  shows "\<exists>ss. iter_collect c it =
      Some (map Ok ss @ (if k < unat (it_count it) then [Err (InvalidGuestAddress (it_addr it + of_nat k))] else [])) \<and>
    covering c (it_addr it) ss \<and> slices_len ss = k"
  using assms(2)
proof (induction "unat (it_count it)" arbitrary: it k rule: less_induct)
  case less
  show ?case
  proof (cases "it_count it = 0")
    case True
    then have "iter_collect c it = Some []" by (simp add: iter_collect.simps iter_next_def do_next_def)
    moreover have "k = 0" using less.prems True by (simp add: mapped_prefix_def)
    ultimately show ?thesis by (intro exI [of _ "[]"]) (simp add: slices_len_def True)
  next
    case False
    then have pos: "0 < unat (it_count it)" by (simp add: unat_gt_0)
    show ?thesis
    proof (cases "collection_find_region c (it_addr it)")
      case None
      then have h: "host_of c (it_addr it) = None" by (simp add: host_of_None)
      have k: "k = 0"
      proof (rule ccontr)
        assume "k \<noteq> 0"
        then have "host_of c (it_addr it + of_nat 0) \<noteq> None" using less.prems unfolding mapped_prefix_def by blast
        then show False using h by simp
      qed
      have "iter_collect c (it\<lparr>it_count := 0\<rparr>) = Some []" by (simp add: iter_collect.simps iter_next_def do_next_def)
      then have "iter_collect c it = Some [Err (InvalidGuestAddress (it_addr it))]"
        by (subst iter_collect.simps) (simp add: iter_next_unmapped [OF False h])
      then show ?thesis using pos k by (intro exI [of _ "[]"]) (simp add: slices_len_def)
    next
      case (Some r)
      define len where "len = min (region_len r - (it_addr it - region_start_addr r)) (it_count it)"
      define s where "s = with_bitmap (mp_addr (gr_mapping r) + (it_addr it - region_start_addr r)) len
        (mmap_slice_at (gr_mapping r) (it_addr it - region_start_addr r))"
      let ?it = "it\<lparr>it_count := it_count it - len, it_addr := it_addr it + len\<rparr>"
      note nx = iter_next_mapped [OF assms(1) False Some, folded len_def, folded s_def]
      have sz: "sl_size s = len" by (simp add: s_def with_bitmap_def)
      have cnt: "unat (it_count ?it) = unat (it_count it) - unat len" using nx(4) by (simp add: unat_sub word_le_nat_alt)
      have lp: "0 < unat len" using nx(3) by (simp add: unat_gt_0)
      then have dec: "unat (it_count ?it) < unat (it_count it)" using cnt pos by linarith
      have all: "\<forall>i < unat len. host_of c (it_addr it + of_nat i) \<noteq> None" using nx(5) by simp
      note sh = mapped_prefix_shift [OF all less.prems nx(4)]
      from less.hyps [OF dec, of "k - unat len"] sh(2) cnt obtain ss where
        ss: "iter_collect c ?it = Some (map Ok ss @ (if k - unat len < unat (it_count ?it)
            then [Err (InvalidGuestAddress (it_addr it + len + of_nat (k - unat len)))] else []))"
          "covering c (it_addr it + len) ss" "slices_len ss = k - unat len" by auto
      have "iter_collect c it = map_option ((#) (Ok s)) (iter_collect c ?it)"
        by (subst iter_collect.simps) (simp add: nx(1))
      moreover have "len + of_nat (k - unat len) = (of_nat k :: u64)" using sh(1) by (simp add: of_nat_diff)
      moreover have "k - unat len < unat (it_count it) - unat len \<longleftrightarrow> k < unat (it_count it)" using sh(1) nx(4) by linarith
      ultimately have "iter_collect c it = Some (map Ok (s # ss) @
          (if k < unat (it_count it) then [Err (InvalidGuestAddress (it_addr it + of_nat k))] else []))"
        using ss(1) cnt by (simp add: add.assoc)
      moreover have "r \<in> set c" using Some find_region_range [OF assms(1)] by blast
      then have "covering c (it_addr it) (s # ss)" using nx(2,3,5) ss(2) sz by auto
      moreover have "slices_len (s # ss) = k" using ss(3) sh(1) sz by (simp add: slices_len_def)
      ultimately show ?thesis by blast
    qed
  qed
qed

lemma covering_nonempty: "covering c g ss \<Longrightarrow> ss \<noteq> [] \<Longrightarrow> 0 < slices_len ss"
  by (cases ss) (auto simp: slices_len_def unat_gt_0)

lemma with_slices_spec:
  assumes "collection_wf c" "mapped_prefix c a (unat n) k"
  obtains ss where "covering c a ss" "slices_len ss = k"
    "with_slices c a n f st = (if k = 0 \<and> n \<noteq> 0 then Some (Err (InvalidGuestAddress a), st) else f ss st)"
proof -
  let ?it = "guest_get_slices a n"
  have it: "it_addr ?it = a" "it_count ?it = n" by (simp_all add: guest_get_slices_def)
  obtain ss where ss: "iter_collect c ?it =
      Some (map Ok ss @ (if k < unat n then [Err (InvalidGuestAddress (a + of_nat k))] else []))"
    "covering c a ss" "slices_len ss = k"
    using iter_collect_covers [OF assms(1), of ?it k] assms(2) unfolding it by auto
  have mf: "List.map_filter ok (map Ok ss @ xs) = ss @ List.map_filter ok xs" for xs :: "(gm_error, vol_slice) result list"
    by (induction ss) (simp_all add: List.map_filter_simps)
  have "with_slices c a n f st = (if k = 0 \<and> n \<noteq> 0 then Some (Err (InvalidGuestAddress a), st) else f ss st)"
  proof (cases ss)
    case Nil
    then have "k = 0" using ss(3) by (simp add: slices_len_def)
    then show ?thesis using ss(1) Nil
      by (cases "n = 0") (simp_all add: with_slices_def unat_gt_0 List.map_filter_simps)
  next
    case (Cons s ss')
    then have k: "k \<noteq> 0" using covering_nonempty [OF ss(2)] ss(3) by simp
    have "stop_on_error (map Ok ss @ xs) = Ok (List.map_filter ok (map Ok ss @ xs))" for xs by (simp add: Cons)
    then show ?thesis using k ss(1) mf by (simp add: with_slices_def List.map_filter_simps)
  qed
  then show thesis by (rule that [OF ss(2,3)])
qed

section \<open>Reading and writing\<close>

lemma vm_view_write:
  assumes "mappings_ok c m" "\<forall>i < length bs. host_of c (g + of_nat i) = Some (p + of_nat i)" "length bs < 2 ^ 64"
  shows "vm_view c (copy_to h p bs) = view_update (vm_view c h) g bs"
proof
  fix x
  show "vm_view c (copy_to h p bs) x = view_update (vm_view c h) g bs x"
  proof (cases "unat (x - g) < length bs")
    case True
    have "x = g + of_nat (unat (x - g))" by simp
    then have "host_of c x = Some (p + of_nat (unat (x - g)))" using assms(2) True by metis
    then show ?thesis using True assms(3) copy_to_inside [OF True, of h p] by (simp add: vm_view_def view_update_def)
  next
    case False
    show ?thesis
    proof (cases "host_of c x")
      case (Some q)
      have "length bs \<le> unat (q - p)"
      proof (rule ccontr)
        assume "\<not> length bs \<le> unat (q - p)"
        then have i: "unat (q - p) < length bs" by simp
        have "q = p + of_nat (unat (q - p))" by simp
        then have "host_of c (g + of_nat (unat (q - p))) = Some q" using assms(2) i by metis
        then have "x = g + of_nat (unat (q - p))" using host_of_inj [OF assms(1) Some] by simp
        then show False using False i by simp
      qed
      then show ?thesis using Some False by (simp add: vm_view_def view_update_def copy_to_def)
    qed (use False in \<open>simp add: vm_view_def view_update_def\<close>)
  qed
qed

lemma view_update_append:
  assumes "length bs + length cs < 2 ^ 64"
  shows "view_update (view_update v g bs) (g + of_nat (length bs)) cs = view_update v g (bs @ cs)"
proof
  fix x
  let ?d = "x - g" and ?n = "of_nat (length bs) :: u64"
  have u: "unat ?n = length bs" using assms by (intro unat_of_nat_small) simp
  have e: "x - (g + ?n) = ?d - ?n" by (simp add: algebra_simps)
  show "view_update (view_update v g bs) (g + ?n) cs x = view_update v g (bs @ cs) x"
  proof (cases "unat ?d < length bs")
    case True
    then have "unat (?d - ?n) = 2 ^ 64 + unat ?d - length bs" using unat_sub_wrap [of ?d ?n] u by simp
    then have "\<not> unat (?d - ?n) < length cs" using assms True by linarith
    then show ?thesis using True unfolding view_update_def e by (simp add: nth_append)
  next
    case False
    then have "unat (?d - ?n) = unat ?d - length bs" using u by (simp add: unat_sub word_le_nat_alt)
    then show ?thesis using False unfolding view_update_def e by (auto simp: nth_append)
  qed
qed

lemma covering_head:
  assumes "mappings_ok c m" "buffer_ok c b" "covering c g (s # ss)"
  obtains r where "r \<in> set c" "inside (region_slice r) s" "slice_low s" "bitmap_covers s m" "bytes_apart s (b, m)"
proof -
  obtain r where r: "r \<in> set c" "inside (region_slice r) s" using assms(3) by auto
  have low: "slice_low (region_slice r)" and cov: "bitmap_covers (region_slice r) m" and ap: "bytes_apart (region_slice r) (b, m)"
    using r(1) assms(1,2) by (auto simp: mappings_ok_def buffer_ok_def)
  show thesis
    by (rule that [OF r slice_low_inside [OF low r(2)] bitmap_covers_inside [OF cov r(2)] bytes_apart_inside [OF ap r(2) low]])
qed

lemma mappings_ok_tracked:
  assumes "mappings_ok c m" "tracked_change s m m'"
  shows "mappings_ok c m'"
  using assms by (auto simp: mappings_ok_def tracked_change_def)

lemma buffer_step:
  assumes "bytes_apart s (b, m)" "sl_size s \<noteq> 0" "unat acc + unat (sl_size s) \<le> unat (bb_len b)"
  shows "acc \<le> bb_len b" "bytes_split_at b acc = Some (advance b acc)" "bb_len (advance b acc) \<noteq> 0"
    "min (sl_size s - 0) (bb_len (advance b acc)) = sl_size s" "unat (acc + sl_size s) = unat acc + unat (sl_size s)"
proof -
  show acc: "acc \<le> bb_len b" using assms(3) by (simp add: word_le_nat_alt)
  then show "bytes_split_at b acc = Some (advance b acc)" by (simp add: bytes_split_at_def advance_def)
  have "unat (bb_len (advance b acc)) = unat (bb_len b) - unat acc" using advance_addr(2) [OF assms(1) acc] .
  then have le: "unat (sl_size s) \<le> unat (bb_len (advance b acc))" using assms(3) by simp
  moreover have "0 < unat (sl_size s)" using assms(2) by (simp add: unat_gt_0)
  ultimately show "bb_len (advance b acc) \<noteq> 0" by auto
  show "min (sl_size s - 0) (bb_len (advance b acc)) = sl_size s" using le by (simp add: word_le_nat_alt min_def)
  show "unat (acc + sl_size s) = unat acc + unat (sl_size s)"
    using assms(3) unat_bounds(4) [of "bb_len b"] by (intro unat_add_no_wrap) simp
qed

lemma write_fold_view:
  assumes "mappings_ok c m" "buffer_ok c b" "covering c g ss" "unat acc + slices_len ss \<le> unat (bb_len b)"
  shows "\<exists>m'. write_fold b acc ss m = Some (Ok (acc + of_nat (slices_len ss)), m') \<and> mappings_ok c m' \<and>
    bytes_stream (b, m') = bytes_stream (b, m) \<and>
    vm_view c (vm_heap m') =
      view_update (vm_view c (vm_heap m)) g (take (slices_len ss) (drop (unat acc) (bytes_stream (b, m))))"
  using assms
proof (induction ss arbitrary: acc g m)
  case Nil
  then show ?case by (simp add: slices_len_def view_update_def)
next
  case (Cons s ss)
  obtain r where r: "r \<in> set c" "inside (region_slice r) s" and low: "slice_low s" and cov: "bitmap_covers s m"
    and ap: "bytes_apart s (b, m)" by (rule covering_head [OF Cons.prems(1-3)])
  let ?b = "advance b acc" and ?n = "unat (sl_size s)" and ?B = "bytes_stream (b, m)"
  have nz: "sl_size s \<noteq> 0" "0 < sl_size s" and cov2: "covering c (g + sl_size s) ss"
    and host: "\<forall>i < ?n. host_of c (g + of_nat i) = Some (sl_addr s + of_nat i)"
    using Cons.prems(3) by (auto simp: word_neq_0_conv)
  have len: "unat acc + ?n + slices_len ss \<le> unat (bb_len b)" using Cons.prems(4) by (simp add: slices_len_def)
  then have "unat acc + ?n \<le> unat (bb_len b)" by simp
  note stp = buffer_step [OF ap nz(1) this]
  note acc = stp(1) and split = stp(2) and bnz = stp(3) and mn = stp(4) and u = stp(5)
  obtain t m1 where t: "inside s t" "sl_addr t = sl_addr s + 0" "slice_write s ?b 0 m = Some (Ok (sl_size s), m1)"
    "wrote t (take ?n (bytes_stream (?b, m))) m m1"
    by (rule slice_write_spec [OF bytes_apart_advance [OF ap acc] low cov bnz nz(2), unfolded mn])
  have st: "bytes_stream (?b, m) = drop (unat acc) ?B" by (rule bytes_stream_advance [OF acc])
  have lb: "length ?B = unat (bb_len b)" by (simp add: bytes_stream_def)
  have m1: "mappings_ok c m1" using mappings_ok_tracked [OF Cons.prems(1) wrote_tracked [OF t(1) cov t(4)]] .
  have B1: "bytes_stream (b, m1) = ?B"
    by (rule bytes_stream_wrote [OF bytes_apart_inside [OF ap t(1) low] slice_low_inside [OF low t(1)] t(4)])
  have "unat (acc + sl_size s) + slices_len ss \<le> unat (bb_len b)" unfolding u using len .
  from Cons.IH [OF m1 Cons.prems(2) cov2 this] obtain m' where
    m': "write_fold b (acc + sl_size s) ss m1 = Some (Ok (acc + sl_size s + of_nat (slices_len ss)), m')" "mappings_ok c m'"
      "bytes_stream (b, m') = ?B"
      "vm_view c (vm_heap m') = view_update (vm_view c (vm_heap m1)) (g + sl_size s) (take (slices_len ss) (drop (unat acc + ?n) ?B))"
    unfolding B1 u by blast
  let ?x = "take ?n (drop (unat acc) ?B)" and ?y = "take (slices_len ss) (drop (unat acc + ?n) ?B)"
  have lx: "length ?x = ?n" "length ?y = slices_len ss" using len lb by simp_all
  have v1: "vm_view c (vm_heap m1) = view_update (vm_view c (vm_heap m)) g ?x"
    using vm_view_write [OF Cons.prems(1), of ?x g "sl_addr s" "vm_heap m"] host lx(1) wrote_heap [OF t(4)] t(2) st
      unat_bounds(4) [of "sl_size s"] by simp
  have "length ?x + length ?y < 2 ^ 64" using lx len unat_bounds(4) [of "bb_len b"] by simp
  from view_update_append [OF this, of "vm_view c (vm_heap m)" g]
  have "view_update (view_update (vm_view c (vm_heap m)) g ?x) (g + sl_size s) ?y = view_update (vm_view c (vm_heap m)) g (?x @ ?y)"
    unfolding lx(1) by simp
  moreover have "?x @ ?y = take (slices_len (s # ss)) (drop (unat acc) ?B)"
    by (simp add: slices_len_def take_add add.commute)
  moreover have "write_fold b acc (s # ss) m = write_fold b (acc + sl_size s) ss m1" using split t(3) by simp
  ultimately show ?case using m' v1 by (simp add: slices_len_def add.assoc)
qed

text \<open>Writing into the buffer of the caller does not touch guest memory.\<close>

lemma vm_view_buffer:
  assumes "mappings_ok c m" "buffer_ok c b" "unat off + length bs \<le> unat (bb_len b)"
  shows "vm_view c (copy_to h (bb_ptr b + off) bs) = vm_view c h"
proof
  fix x
  show "vm_view c (copy_to h (bb_ptr b + off) bs) x = vm_view c h x"
  proof (cases "host_of c x")
    case (Some p)
    have wf: "collection_wf c" using assms(1) by (simp add: mappings_ok_def)
    from Some obtain r where r: "collection_find_region c x = Some r" "p = mp_addr (gr_mapping r) + (x - region_start_addr r)"
      by (auto simp: host_of_def)
    then have in_c: "r \<in> set c" and lt: "unat (x - region_start_addr r) < unat (region_len r)"
      using find_region_range [OF wf, of x r] by (auto simp: unat_sub word_le_nat_alt)
    have low: "slice_low (region_slice r)" and ap: "bytes_apart (region_slice r) (b, m)"
      using in_c assms(1,2) by (auto simp: mappings_ok_def buffer_ok_def)
    have up: "unat p = unat (mp_addr (gr_mapping r)) + unat (x - region_start_addr r)"
      using r(2) lt low by (simp add: slice_low_def unat_word_ariths)
    have ub: "unat (bb_ptr b + off) = unat (bb_ptr b) + unat off"
      using ap assms(3) by (simp add: bytes_apart_def unat_word_ariths)
    have "copy_to h (bb_ptr b + off) bs p = h p"
    proof (rule copy_to_outside)
      show "unat p < unat (bb_ptr b + off) \<or> unat (bb_ptr b + off) + length bs \<le> unat p"
        using ap lt up ub assms(3) by (auto simp: bytes_apart_def)
      show "unat (bb_ptr b + off) + length bs \<le> 2 ^ 64" using ap ub assms(3) by (simp add: bytes_apart_def)
    qed
    then show ?thesis using Some by (simp add: vm_view_def)
  qed (simp add: vm_view_def)
qed

lemma read_fold_view:
  assumes "mappings_ok c m" "buffer_ok c b" "covering c g ss" "unat acc + slices_len ss \<le> unat (bb_len b)"
  shows "\<exists>m'. read_fold b acc ss m = Some (Ok (acc + of_nat (slices_len ss)), m') \<and> mappings_ok c m' \<and>
    vm_view c (vm_heap m') = vm_view c (vm_heap m) \<and>
    map Some (copy_from (vm_heap m') (bb_ptr b) (unat acc + slices_len ss)) =
      map Some (copy_from (vm_heap m) (bb_ptr b) (unat acc)) @ view_range (vm_view c (vm_heap m)) g (slices_len ss)"
  using assms
proof (induction ss arbitrary: acc g m)
  case Nil
  then show ?case by (simp add: slices_len_def view_range_def)
next
  case (Cons s ss)
  obtain r where r: "r \<in> set c" "inside (region_slice r) s" and low: "slice_low s" and ap: "bytes_apart s (b, m)"
    by (rule covering_head [OF Cons.prems(1-3)])
  let ?b = "advance b acc" and ?n = "unat (sl_size s)" and ?v = "vm_view c (vm_heap m)"
  have nz: "sl_size s \<noteq> 0" "0 < sl_size s" and cov2: "covering c (g + sl_size s) ss"
    and host: "\<forall>i < ?n. host_of c (g + of_nat i) = Some (sl_addr s + of_nat i)"
    using Cons.prems(3) by (auto simp: word_neq_0_conv)
  have len: "unat acc + ?n + slices_len ss \<le> unat (bb_len b)" using Cons.prems(4) by (simp add: slices_len_def)
  then have len1: "unat acc + ?n \<le> unat (bb_len b)" by simp
  note stp = buffer_step [OF ap nz(1) this]
  note acc = stp(1) and split = stp(2) and bnz = stp(3) and mn = stp(4) and u = stp(5)
  let ?x = "copy_from (vm_heap m) (sl_addr s) ?n"
  define m1 where "m1 = m\<lparr>vm_heap := copy_to (vm_heap m) (bb_ptr b + acc) ?x\<rparr>"
  have rd: "slice_read s ?b 0 m = Some (Ok (sl_size s), m1)"
    using slice_read_spec [OF bytes_apart_advance [OF ap acc] low bnz nz(2), unfolded mn] by (simp add: m1_def advance_def)
  have v1: "vm_view c (vm_heap m1) = ?v"
    using vm_view_buffer [OF Cons.prems(1,2), of acc ?x "vm_heap m"] len1 by (simp add: m1_def)
  have "bitmap_covers q m1 \<longleftrightarrow> bitmap_covers q m" for q by (simp add: m1_def bitmap_covers_def split: bitmap_slice.split)
  then have ok1: "mappings_ok c m1" using Cons.prems(1) by (simp add: mappings_ok_def)
  have vx: "map Some ?x = view_range ?v g ?n" using host by (intro nth_equalityI) (simp_all add: vm_view_def)
  have ub: "unat (bb_ptr b + acc) = unat (bb_ptr b) + unat acc"
    using ap len1 by (simp add: bytes_apart_def unat_word_ariths)
  then have "copy_from (vm_heap m1) (bb_ptr b) (unat acc + ?n) = copy_from (vm_heap m) (bb_ptr b) (unat acc) @ ?x"
    using accepted_append [of "bb_ptr b" "bb_ptr b + acc" ?x "vm_heap m"] ap len1 by (simp add: bytes_apart_def m1_def)
  then have x1: "map Some (copy_from (vm_heap m1) (bb_ptr b) (unat acc + ?n)) =
      map Some (copy_from (vm_heap m) (bb_ptr b) (unat acc)) @ view_range ?v g ?n" using vx by simp
  have "unat (acc + sl_size s) + slices_len ss \<le> unat (bb_len b)" unfolding u using len .
  from Cons.IH [OF ok1 Cons.prems(2) cov2 this] obtain m' where
    m': "read_fold b (acc + sl_size s) ss m1 = Some (Ok (acc + sl_size s + of_nat (slices_len ss)), m')" "mappings_ok c m'"
      "vm_view c (vm_heap m') = ?v"
      "map Some (copy_from (vm_heap m') (bb_ptr b) (unat acc + ?n + slices_len ss)) =
       map Some (copy_from (vm_heap m1) (bb_ptr b) (unat acc + ?n)) @ view_range ?v (g + sl_size s) (slices_len ss)"
    unfolding u v1 by blast
  have "view_range ?v g (?n + slices_len ss) = view_range ?v g ?n @ view_range ?v (g + sl_size s) (slices_len ss)"
    by (simp add: view_range_append)
  moreover have "read_fold b acc (s # ss) m = read_fold b (acc + sl_size s) ss m1" using split rd by simp
  ultimately show ?case using m' x1 by (simp add: slices_len_def add.assoc)
qed

text \<open>How many of the \<open>n\<close> addresses from \<open>g\<close> on are mapped without a gap.\<close>

definition mapped_len :: "collection \<Rightarrow> u64 \<Rightarrow> nat \<Rightarrow> nat" where
  "mapped_len c g n = length (takeWhile (\<lambda>i. host_of c (g + of_nat i) \<noteq> None) [0..<n])"

lemma mapped_prefix_len: "mapped_prefix c g n (mapped_len c g n)"
proof -
  let ?P = "\<lambda>i. host_of c (g + of_nat i) \<noteq> None" and ?k = "mapped_len c g n"
  have le: "?k \<le> n" using length_takeWhile_le [of ?P "[0..<n]"] by (simp add: mapped_len_def)
  have "?P i" if "i < ?k" for i
  proof -
    have "takeWhile ?P [0..<n] ! i = i" using that le takeWhile_nth [of i ?P "[0..<n]"] by (simp add: mapped_len_def)
    then have "i \<in> set (takeWhile ?P [0..<n])" using that by (metis mapped_len_def nth_mem)
    then show ?thesis by (auto dest: set_takeWhileD)
  qed
  moreover have "\<not> ?P ?k" if "?k < n" using nth_length_takeWhile [of ?P "[0..<n]"] that by (simp add: mapped_len_def)
  ultimately show ?thesis using le by (simp add: mapped_prefix_def)
qed

lemma guest_write_bytes_spec:
  fixes a :: u64
  assumes "mappings_ok c m" "buffer_ok c b"
  defines "k \<equiv> mapped_len c a (unat (bb_len b))"
  shows "if k = 0 \<and> bb_len b \<noteq> 0 then guest_write_bytes c b a m = Some (Err (InvalidGuestAddress a), m)
    else \<exists>m'. guest_write_bytes c b a m = Some (Ok (of_nat k), m') \<and> mappings_ok c m' \<and>
      vm_view c (vm_heap m') = view_update (vm_view c (vm_heap m)) a (take k (bytes_stream (b, m)))"
proof -
  have wf: "collection_wf c" using assms(1) by (simp add: mappings_ok_def)
  note pre = mapped_prefix_len [of c a "unat (bb_len b)", folded k_def]
  obtain ss where ss: "covering c a ss" "slices_len ss = k"
    "with_slices c a (bb_len b) (write_fold b 0) m =
       (if k = 0 \<and> bb_len b \<noteq> 0 then Some (Err (InvalidGuestAddress a), m) else write_fold b 0 ss m)"
    by (rule with_slices_spec [OF wf pre])
  have "unat 0 + slices_len ss \<le> unat (bb_len b)" using pre ss(2) by (simp add: mapped_prefix_def)
  from write_fold_view [OF assms(1,2) ss(1) this] show ?thesis by (auto simp: guest_write_bytes_def ss(2,3))
qed

lemma guest_read_bytes_spec:
  fixes a :: u64
  assumes "mappings_ok c m" "buffer_ok c b"
  defines "k \<equiv> mapped_len c a (unat (bb_len b))"
  shows "if k = 0 \<and> bb_len b \<noteq> 0 then guest_read_bytes c b a m = Some (Err (InvalidGuestAddress a), m)
    else \<exists>m'. guest_read_bytes c b a m = Some (Ok (of_nat k), m') \<and> vm_view c (vm_heap m') = vm_view c (vm_heap m) \<and>
      map Some (take k (bytes_stream (b, m'))) = view_range (vm_view c (vm_heap m)) a k"
proof -
  have wf: "collection_wf c" using assms(1) by (simp add: mappings_ok_def)
  note pre = mapped_prefix_len [of c a "unat (bb_len b)", folded k_def]
  obtain ss where ss: "covering c a ss" "slices_len ss = k"
    "with_slices c a (bb_len b) (read_fold b 0) m =
       (if k = 0 \<and> bb_len b \<noteq> 0 then Some (Err (InvalidGuestAddress a), m) else read_fold b 0 ss m)"
    by (rule with_slices_spec [OF wf pre])
  have k: "k \<le> unat (bb_len b)" using pre by (simp add: mapped_prefix_def)
  then have "take k (bytes_stream (b, m')) = copy_from (vm_heap m') (bb_ptr b) k" for m'
    by (simp add: bytes_stream_def copy_from_def take_map)
  then show ?thesis
    using read_fold_view [OF assms(1,2) ss(1), of 0] k by (auto simp: guest_read_bytes_def ss(2,3))
qed

section \<open>Properties\<close>

text \<open>
  C23.  Guest memory is one array of bytes.  An access of any length at any guest address reaches the bytes that are
  mapped from there on without a gap, through as many regions as it takes, and reports how many those are; it is an
  error only if there is none.  A write changes the memory the guest sees at exactly these addresses to the bytes of
  the buffer, a read changes nothing the guest sees and fills the buffer with what it sees there.
\<close>

theorem guest_bytes_refine:
  fixes a :: u64
  assumes "mappings_ok c m" "buffer_ok c b"
  defines "k \<equiv> mapped_len c a (unat (bb_len b))"
  shows "if k = 0 \<and> bb_len b \<noteq> 0 then
      guest_write_bytes c b a m = Some (Err (InvalidGuestAddress a), m) \<and>
      guest_read_bytes c b a m = Some (Err (InvalidGuestAddress a), m)
    else
      (\<exists>m'. guest_write_bytes c b a m = Some (Ok (of_nat k), m') \<and>
         vm_view c (vm_heap m') = view_update (vm_view c (vm_heap m)) a (take k (bytes_stream (b, m)))) \<and>
      (\<exists>m'. guest_read_bytes c b a m = Some (Ok (of_nat k), m') \<and> vm_view c (vm_heap m') = vm_view c (vm_heap m) \<and>
         map Some (take k (bytes_stream (b, m'))) = view_range (vm_view c (vm_heap m)) a k)"
proof (cases "k = 0 \<and> bb_len b \<noteq> 0")
  case True
  then show ?thesis
    using guest_write_bytes_spec [OF assms(1,2), of a] guest_read_bytes_spec [OF assms(1,2), of a] by (simp add: k_def)
next
  case False
  then show ?thesis
    using guest_write_bytes_spec [OF assms(1,2), of a] guest_read_bytes_spec [OF assms(1,2), of a]
    unfolding k_def by (simp only: if_False) blast
qed

definition demo_regions :: collection where
  "demo_regions = [demo_guest_region 0 0x10000 0x1000, demo_guest_region 0x1000 0x50000 0x1000, demo_guest_region 0x4000 0x80000 0x1000]"

lemma demo_regions_ok: "mappings_ok demo_regions demo_memory"
proof -
  have nb: "sl_bitmap (region_slice (demo_guest_region g h n)) = NoBitmap" for g h n
    by (simp add: region_slice_def with_bitmap_def mmap_slice_at_def demo_guest_region_def)
  have "mp_addr (gr_mapping (demo_guest_region g h n)) = h" for g h n by (simp add: demo_guest_region_def)
  then show ?thesis
    using demo_collection_wf by (simp add: mappings_ok_def demo_regions_def slice_low_def bitmap_covers_def nb)
qed

lemma demo_buffer_ok: "p \<in> {0x200000, 0x300000} \<Longrightarrow> buffer_ok demo_regions \<lparr>bb_ptr = p, bb_len = 4\<rparr>"
  by (auto simp: buffer_ok_def demo_regions_def bytes_apart_def demo_guest_region_def region_len_def)

lemma demo_host_of:
  "host_of demo_regions 0xffe = Some 0x10ffe" "host_of demo_regions 0xfff = Some 0x10fff"
  "host_of demo_regions 0x1000 = Some 0x50000" "host_of demo_regions 0x1001 = Some 0x50001"
proof -
  have f: "collection_find_region demo_regions a = Some r"
    if "r \<in> set demo_regions" "region_start_addr r \<le> a" "a \<le> region_last_addr r" for a r
    using collection_find_region_spec [of demo_regions a r] demo_collection_wf that by (simp add: demo_regions_def)
  have "collection_find_region demo_regions 0xffe = Some (demo_guest_region 0 0x10000 0x1000)"
    "collection_find_region demo_regions 0xfff = Some (demo_guest_region 0 0x10000 0x1000)"
    "collection_find_region demo_regions 0x1000 = Some (demo_guest_region 0x1000 0x50000 0x1000)"
    "collection_find_region demo_regions 0x1001 = Some (demo_guest_region 0x1000 0x50000 0x1000)"
    by (rule f; simp add: demo_regions_def)+
  then show "host_of demo_regions 0xffe = Some 0x10ffe" "host_of demo_regions 0xfff = Some 0x10fff"
    "host_of demo_regions 0x1000 = Some 0x50000" "host_of demo_regions 0x1001 = Some 0x50001"
    by (simp_all add: host_of_def) (simp_all add: demo_guest_region_def)
qed

lemma demo_mapped: "mapped_len demo_regions 0xffe 4 = 4"
  by (simp add: mapped_len_def upt_rec demo_host_of)

theorem guest_bytes_refine_witness:
  "\<exists>m. guest_write_bytes demo_regions \<lparr>bb_ptr = 0x200000, bb_len = 4\<rparr> 0xffe demo_memory = Some (Ok 4, m) \<and>
     vm_view demo_regions (vm_heap m) = view_update (vm_view demo_regions (\<lambda>_. 0)) 0xffe [0, 0, 0, 0]"
proof -
  let ?b = "\<lparr>bb_ptr = 0x200000, bb_len = 4\<rparr>"
  have "bytes_stream (?b, demo_memory) = [0, 0, 0, 0]" by (simp add: bytes_stream_def copy_from_def demo_memory_def upt_rec)
  then show ?thesis
    using guest_bytes_refine [OF demo_regions_ok demo_buffer_ok [of "0x200000"], of "0xffe"]
    by (simp add: demo_mapped demo_memory_def)
qed

text \<open>
  C31.  Objects make the round trip through guest memory.  When all addresses of the range are mapped, in however many
  regions, writing a buffer and reading it back into another succeeds and gives the same bytes; when only the
  first \<open>k\<close> are, the result is the partial access with this number.
\<close>

theorem guest_slice_roundtrip:
  fixes a :: u64
  assumes "mappings_ok c m" "buffer_ok c b" "buffer_ok c d" "bb_len d = bb_len b" "bb_len b \<noteq> 0"
  defines "k \<equiv> mapped_len c a (unat (bb_len b))"
  shows "(k = unat (bb_len b) \<longrightarrow>
      (\<exists>m1 m2. guest_write_slice c b a m = Some (Ok (), m1) \<and> guest_read_slice c d a m1 = Some (Ok (), m2) \<and>
         bytes_stream (d, m2) = bytes_stream (b, m))) \<and>
    (0 < k \<and> k < unat (bb_len b) \<longrightarrow>
      (\<exists>m1. guest_write_slice c b a m = Some (Err (GuestPartialBuffer (bb_len b) (of_nat k)), m1)))"
proof (intro conjI impI)
  let ?n = "unat (bb_len b)" and ?B = "bytes_stream (b, m)"
  have n: "0 < ?n" using assms(5) by (simp add: unat_gt_0)
  have lb: "length ?B = ?n" by (simp add: bytes_stream_def)
  {
    assume k: "k = ?n"
    from guest_write_bytes_spec [OF assms(1,2), of a] k n obtain m1 where
      m1: "guest_write_bytes c b a m = Some (Ok (bb_len b), m1)" "mappings_ok c m1"
        "vm_view c (vm_heap m1) = view_update (vm_view c (vm_heap m)) a ?B" by (auto simp: k_def lb)
    from guest_read_bytes_spec [OF m1(2) assms(3), of a] k n assms(4) obtain m2 where
      m2: "guest_read_bytes c d a m1 = Some (Ok (bb_len b), m2)"
        "map Some (take ?n (bytes_stream (d, m2))) = view_range (vm_view c (vm_heap m1)) a ?n" by (auto simp: k_def)
    have "view_range (view_update (vm_view c (vm_heap m)) a ?B) a ?n = map Some ?B"
      using lb unat_bounds(4) [of "bb_len b"]
      by (intro nth_equalityI) (simp_all add: view_range_def view_update_def unat_of_nat)
    then have "map Some (take ?n (bytes_stream (d, m2))) = map Some ?B" using m2(2) m1(3) by simp
    then have "take ?n (bytes_stream (d, m2)) = ?B" by (simp add: inj_map_eq_map)
    moreover have "length (bytes_stream (d, m2)) = ?n" using assms(4) by (simp add: bytes_stream_def)
    ultimately show "\<exists>m1 m2. guest_write_slice c b a m = Some (Ok (), m1) \<and> guest_read_slice c d a m1 = Some (Ok (), m2) \<and>
        bytes_stream (d, m2) = ?B"
      using m1(1) m2(1) assms(4) by (simp add: guest_write_slice_def guest_read_slice_def all_or_partial_def)
  }
  assume k: "0 < k \<and> k < ?n"
  then have "unat (of_nat k :: usize) = k" using unat_bounds(4) [of "bb_len b"] by (intro unat_of_nat_small) simp
  then have ne: "(of_nat k :: usize) \<noteq> bb_len b" using k by auto
  show "\<exists>m1. guest_write_slice c b a m = Some (Err (GuestPartialBuffer (bb_len b) (of_nat k)), m1)"
    using guest_write_bytes_spec [OF assms(1,2), of a] k ne
    by (auto simp: k_def guest_write_slice_def all_or_partial_def)
qed

theorem guest_slice_roundtrip_witness:
  "\<exists>m1 m2. guest_write_slice demo_regions \<lparr>bb_ptr = 0x200000, bb_len = 4\<rparr> 0xffe demo_memory = Some (Ok (), m1) \<and>
     guest_read_slice demo_regions \<lparr>bb_ptr = 0x300000, bb_len = 4\<rparr> 0xffe m1 = Some (Ok (), m2)"
  using guest_slice_roundtrip [OF demo_regions_ok demo_buffer_ok [of "0x200000"] demo_buffer_ok [of "0x300000"], of "0xffe"]
  by (auto simp: demo_mapped)

end
