(* ===== verification/Vm_Atomic.thy ===== *)
theory Vm_Atomic
  imports Vm_Guest_Memory
begin

text \<open>
  Memory maps that change while they are used (\<^verbatim>\<open>src/vm-memory/src/atomic.rs\<close>): readers take snapshots of the
  map, a writer locks, takes a snapshot, makes a new map from it and replaces the old one; and the release
  of a mapping (\<^verbatim>\<open>src/vm-memory/src/mmap/windows.rs\<close>).  Readers and writers are the steps of one relation.  The
  result is that updates are applied one after the other to the latest map, none is lost, and every snapshot
  is one of the maps that were published.
\<close>

section \<open>The operations\<close>

text \<open>The cell of the crate \<^verbatim>\<open>arc_swap\<close>, and what is documented of it: a load gives what was stored last.\<close>

record ('c, 'm) arc_swap =
  as_new :: "'m \<Rightarrow> 'c"
  as_load :: "'c \<Rightarrow> 'm"
  as_store :: "'m \<Rightarrow> 'c \<Rightarrow> 'c"

definition swap_laws :: "('c, 'm) arc_swap \<Rightarrow> bool" where
  "swap_laws ops \<longleftrightarrow>
     (\<forall>m. as_load ops (as_new ops m) = m) \<and> (\<forall>m c. as_load ops (as_store ops m c) = m)"

text \<open>The cell and the mutex, which all clones share; a mutex is locked, and poisoned by a panic under it.\<close>

record 'c guest_memory_atomic =
  ga_swap :: 'c
  ga_locked :: bool
  ga_poisoned :: bool

definition atomic_from :: "('c, 'm) arc_swap \<Rightarrow> 'm \<Rightarrow> 'c guest_memory_atomic" where
  "atomic_from ops m = \<lparr>ga_swap = as_new ops m, ga_locked = False, ga_poisoned = False\<rparr>"

definition atomic_new :: "('c, 'm) arc_swap \<Rightarrow> 'm \<Rightarrow> 'c guest_memory_atomic" where
  "atomic_new ops m = atomic_from ops m"

definition atomic_load :: "('c, 'm) arc_swap \<Rightarrow> 'c guest_memory_atomic \<Rightarrow> 'm" where
  "atomic_load ops g = as_load ops (ga_swap g)"

record 'm load_guard =
  lg_guard :: 'm

definition atomic_memory :: "('c, 'm) arc_swap \<Rightarrow> 'c guest_memory_atomic \<Rightarrow> 'm load_guard" where
  "atomic_memory ops g = \<lparr>lg_guard = atomic_load ops g\<rparr>"

definition guard_into_inner :: "'m load_guard \<Rightarrow> 'm" where
  "guard_into_inner g = lg_guard g"

definition guard_clone :: "'m load_guard \<Rightarrow> 'm load_guard" where
  "guard_clone g = \<lparr>lg_guard = lg_guard g\<rparr>"

definition guard_deref :: "'m load_guard \<Rightarrow> 'm" where
  "guard_deref g = lg_guard g"

text \<open>
  \<^verbatim>\<open>lock\<close>: \<open>None\<close> while another thread holds the mutex; the flag says whether the guard comes in a
  \<^verbatim>\<open>PoisonError\<close>.
\<close>

definition atomic_lock :: "'c guest_memory_atomic \<Rightarrow> ('c guest_memory_atomic \<times> bool) option" where
  "atomic_lock g =
     (if ga_locked g then None else Some (g\<lparr>ga_locked := True\<rparr>, ga_poisoned g))"

text \<open>The guard of the mutex goes out of scope, in a thread that panics or not.\<close>

definition exclusive_drop :: "bool \<Rightarrow> 'c guest_memory_atomic \<Rightarrow> 'c guest_memory_atomic" where
  "exclusive_drop panicking g = g\<lparr>ga_locked := False, ga_poisoned := ga_poisoned g \<or> panicking\<rparr>"

definition atomic_replace :: "('c, 'm) arc_swap \<Rightarrow> 'm \<Rightarrow> 'c guest_memory_atomic \<Rightarrow> 'c guest_memory_atomic" where
  "atomic_replace ops m g = exclusive_drop False (g\<lparr>ga_swap := as_store ops m (ga_swap g)\<rparr>)"

section \<open>Readers and writers\<close>

text \<open>
  The shared object, the snapshots threads hold, the thread that holds the exclusive guard with the snapshot it
  works on, and the maps that were published, oldest first.
\<close>

record ('c, 'm) atomic_world =
  aw_mem :: "'c guest_memory_atomic"
  aw_guards :: "nat \<Rightarrow> 'm load_guard option"
  aw_writer :: "(nat \<times> 'm load_guard option) option"
  aw_history :: "'m list"

text \<open>\<open>upd\<close> relates a map to the maps a writer may make of it.\<close>

inductive atomic_step ::
  "('c, 'm) arc_swap \<Rightarrow> ('m \<Rightarrow> 'm \<Rightarrow> bool) \<Rightarrow> ('c, 'm) atomic_world \<Rightarrow> ('c, 'm) atomic_world \<Rightarrow> bool"
  for ops :: "('c, 'm) arc_swap" and upd :: "'m \<Rightarrow> 'm \<Rightarrow> bool" where
  take_snapshot: "atomic_step ops upd w (w\<lparr>aw_guards := (aw_guards w)(t \<mapsto> atomic_memory ops (aw_mem w))\<rparr>)"
| share: "aw_guards w t = Some g \<Longrightarrow>
    atomic_step ops upd w (w\<lparr>aw_guards := (aw_guards w)(t' \<mapsto> guard_clone g)\<rparr>)"
| release: "atomic_step ops upd w (w\<lparr>aw_guards := (aw_guards w)(t := None)\<rparr>)"
| acquire: "atomic_lock (aw_mem w) = Some (g, poisoned) \<Longrightarrow>
    atomic_step ops upd w (w\<lparr>aw_mem := g, aw_writer := Some (t, None)\<rparr>)"
| inspect: "aw_writer w = Some (t, s) \<Longrightarrow>
    atomic_step ops upd w (w\<lparr>aw_writer := Some (t, Some (atomic_memory ops (aw_mem w)))\<rparr>)"
| publish: "aw_writer w = Some (t, Some g) \<Longrightarrow> upd (guard_deref g) m \<Longrightarrow>
    atomic_step ops upd w (w\<lparr>aw_mem := atomic_replace ops m (aw_mem w), aw_writer := None,
      aw_history := aw_history w @ [m]\<rparr>)"
| abandon: "aw_writer w = Some (t, s) \<Longrightarrow>
    atomic_step ops upd w (w\<lparr>aw_mem := exclusive_drop panicking (aw_mem w), aw_writer := None\<rparr>)"

inductive atomic_reach :: "('c, 'm) arc_swap \<Rightarrow> ('m \<Rightarrow> 'm \<Rightarrow> bool) \<Rightarrow> 'm \<Rightarrow> ('c, 'm) atomic_world \<Rightarrow> bool"
  for ops :: "('c, 'm) arc_swap" and upd :: "'m \<Rightarrow> 'm \<Rightarrow> bool" and m :: 'm where
  start: "atomic_reach ops upd m
    \<lparr>aw_mem = atomic_new ops m, aw_guards = \<lambda>_. None, aw_writer = None, aw_history = [m]\<rparr>"
| step: "atomic_reach ops upd m w \<Longrightarrow> atomic_step ops upd w w' \<Longrightarrow> atomic_reach ops upd m w'"

section \<open>The invariant\<close>

definition current :: "('c, 'm) arc_swap \<Rightarrow> ('c, 'm) atomic_world \<Rightarrow> 'm" where
  "current ops w = atomic_load ops (aw_mem w)"

text \<open>The maps follow one another by updates.\<close>

fun chained :: "('m \<Rightarrow> 'm \<Rightarrow> bool) \<Rightarrow> 'm list \<Rightarrow> bool" where
  "chained upd (a # b # ms) \<longleftrightarrow> upd a b \<and> chained upd (b # ms)"
| "chained upd ms \<longleftrightarrow> True"

lemma chained_snoc: "chained upd ms \<Longrightarrow> ms \<noteq> [] \<Longrightarrow> upd (last ms) m \<Longrightarrow> chained upd (ms @ [m])"
proof (induction ms)
  case (Cons a ms)
  then show ?case by (cases ms) auto
qed simp

lemma chained_all:
  assumes "chained upd ms" "ms \<noteq> []" "P (hd ms)" "\<And>a b. P a \<Longrightarrow> upd a b \<Longrightarrow> P b" "m \<in> set ms"
  shows "P m"
  using assms(1-3,5)
proof (induction ms)
  case (Cons a ms)
  then show ?case using assms(4) by (cases ms) auto
qed simp

definition atomic_inv :: "('c, 'm) arc_swap \<Rightarrow> ('m \<Rightarrow> 'm \<Rightarrow> bool) \<Rightarrow> ('c, 'm) atomic_world \<Rightarrow> bool" where
  "atomic_inv ops upd w \<longleftrightarrow>
     aw_history w \<noteq> [] \<and> chained upd (aw_history w) \<and> current ops w = last (aw_history w) \<and>
     (ga_locked (aw_mem w) \<longleftrightarrow> aw_writer w \<noteq> None) \<and>
     (\<forall>t g. aw_writer w = Some (t, Some g) \<longrightarrow> guard_deref g = current ops w) \<and>
     (\<forall>t g. aw_guards w t = Some g \<longrightarrow> guard_deref g \<in> set (aw_history w))"

lemmas atomic_defs = atomic_from_def atomic_new_def atomic_load_def atomic_memory_def guard_into_inner_def guard_clone_def
  guard_deref_def atomic_lock_def exclusive_drop_def atomic_replace_def current_def

lemma atomic_step_inv:
  assumes "swap_laws ops" "atomic_inv ops upd w" "atomic_step ops upd w w'"
  shows "atomic_inv ops upd w'"
  using assms(3)
proof cases
  case publish
  then show ?thesis
    using assms(1,2) chained_snoc [of upd "aw_history w"] by (auto simp: atomic_inv_def swap_laws_def atomic_defs)
qed (use assms(1,2) in \<open>auto simp: atomic_inv_def atomic_defs split: if_splits\<close>)

lemma atomic_reach_inv:
  assumes "swap_laws ops" "atomic_reach ops upd m w"
  shows "atomic_inv ops upd w \<and> hd (aw_history w) = m"
  using assms(2)
proof induction
  case start
  then show ?case using assms(1) by (simp add: atomic_inv_def swap_laws_def atomic_defs)
next
  case (step w w')
  then have "aw_history w \<noteq> []" by (simp add: atomic_inv_def)
  then have "hd (aw_history w') = hd (aw_history w)" using step(2) by (auto elim!: atomic_step.cases)
  then show ?case using atomic_step_inv [OF assms(1) _ step(2)] step by simp
qed

section \<open>Properties\<close>

text \<open>
  However readers and writers interleave, no update is lost: the maps that were published follow one
  another by updates, from the first to the one in force, and every snapshot a thread holds is one of them.  At most
  one thread updates, and what it has looked at is the map in force.
\<close>

theorem updates_serialised:
  assumes "swap_laws ops" "atomic_reach ops upd m w"
  shows "chained upd (aw_history w) \<and> hd (aw_history w) = m \<and> current ops w = last (aw_history w) \<and>
    (\<forall>t g. aw_writer w = Some (t, Some g) \<longrightarrow> guard_deref g = current ops w) \<and>
    (\<forall>t g. aw_guards w t = Some g \<longrightarrow> guard_deref g \<in> set (aw_history w))"
  using atomic_reach_inv [OF assms] by (simp add: atomic_inv_def)

text \<open>
  With maps that are collections of regions and writers that insert and remove regions, every snapshot is a
  well-formed collection, so a reader finds in it exactly the regions it has.
\<close>

definition region_update :: "collection \<Rightarrow> collection \<Rightarrow> bool" where
  "region_update c c' \<longleftrightarrow>
     (\<exists>r. guest_region_wf r \<and> insert_region c r = Ok c') \<or> (\<exists>base sz r. remove_region c base sz = Ok (c', r))"

lemma region_update_wf:
  assumes "collection_wf c" "region_update c c'"
  shows "collection_wf c'"
proof -
  have "collection_wf c'" if "remove_region c base sz = Ok (c', r)" for base sz r
    using remove_region_cases [OF assms(1), of base sz] that collection_wf_remove assms(1) by auto
  then show ?thesis using assms insert_region_wf(1) by (auto simp: region_update_def)
qed

theorem snapshots_well_formed:
  assumes "swap_laws ops" "collection_wf c" "atomic_reach ops region_update c w" "aw_guards w t = Some g"
  shows "collection_wf (guard_deref g) \<and>
    (collection_find_region (guard_deref g) addr = Some r \<longleftrightarrow>
       r \<in> set (guard_deref g) \<and> region_start_addr r \<le> addr \<and> addr \<le> region_last_addr r)"
proof -
  have "atomic_inv ops region_update w" "hd (aw_history w) = c" using atomic_reach_inv [OF assms(1,3)] by simp_all
  then have "collection_wf (guard_deref g)"
    using chained_all [of region_update "aw_history w" collection_wf "guard_deref g"] region_update_wf assms(2,4)
    by (auto simp: atomic_inv_def)
  then show ?thesis by (simp add: collection_find_region_spec)
qed

section \<open>The release of a mapping\<close>

text \<open>What the host has mapped for the process; \<open>virtual_free\<close> is the call with \<^verbatim>\<open>MEM_RELEASE\<close>.\<close>

datatype host_mapping = Allocation | FileView

record mapping_calls =
  virtual_free :: "u64 \<Rightarrow> (u64 \<rightharpoonup> host_mapping) \<Rightarrow> (u64 \<rightharpoonup> host_mapping) \<times> bool"

text \<open>What is documented of \<^verbatim>\<open>VirtualFree\<close>: it releases what \<^verbatim>\<open>VirtualAlloc\<close> has allocated and refuses anything else.\<close>

definition frees_allocations :: "mapping_calls \<Rightarrow> bool" where
  "frees_allocations ops \<longleftrightarrow>
     (\<forall>a m. virtual_free ops a m = (if m a = Some Allocation then (m(a := None), True) else (m, False)))"

text \<open>\<^verbatim>\<open>Drop\<close>: a failure is only printed.\<close>

definition mmap_drop :: "mapping_calls \<Rightarrow> mmap_region \<Rightarrow> (u64 \<rightharpoonup> host_mapping) \<Rightarrow> (u64 \<rightharpoonup> host_mapping)" where
  "mmap_drop ops r m = fst (virtual_free ops (mp_addr r) m)"

text \<open>The kind of a mapping as \<^verbatim>\<open>new\<close> and \<^verbatim>\<open>from_file\<close> make it.\<close>

definition made_by :: "mmap_region \<Rightarrow> host_mapping" where
  "made_by r = (case mp_file_offset r of None \<Rightarrow> Allocation | Some _ \<Rightarrow> FileView)"

text \<open>
  Dropping a region releases an anonymous mapping and nothing else; the mapping of a file is not released, since it
  is given to the wrong call.
\<close>

theorem file_mapping_not_released:
  assumes "frees_allocations ops" "m (mp_addr r) = Some (made_by r)"
  shows "mmap_drop ops r m = (if mp_file_offset r = None then m(mp_addr r := None) else m)"
  using assms by (auto simp: frees_allocations_def mmap_drop_def made_by_def split: option.splits)

end
